(* ===== verification/Orc_Prelude.thy ===== *)
theory Orc_Prelude
  imports
    Main
    "HOL-Library.Word"
    "HOL-Library.List_Lexorder"
    "HOL-Library.Product_Lexorder"
    "HOL-Library.Multiset"
    "HOL-Library.Sublist" "HOL-Library.Code_Target_Nat"
begin

text \<open>
  Shared vocabulary of the development: machine integers at their widths, Rust strings as
  UTF-8 byte lists, results as sums, fallible state-passing operations, little-endian and
  decimal number formats, and the list lemmas every component uses.

  Conventions.
  \<^item> \<open>u8\<close>, \<open>u16\<close>, \<open>u32\<close>, \<open>u64\<close> are words of that width. \<open>i64\<close> and \<open>f64\<close> are kept as their
    64 stored bits (the program only moves them, it never computes with them).
  \<^item> \<open>usize\<close> values are lengths of buffers held in memory and are modelled by \<open>nat\<close>;
    \<open>usize_max\<close> is the bound of a 64-bit target, used where the source checks it.
  \<^item> A Rust \<open>&str\<close> or \<open>String\<close> is the list of its UTF-8 bytes; \<open>utf8_valid\<close> is its type
    invariant. Rust orders strings by these bytes, which is the lexicographic order here.
  \<^item> \<open>Result<T, E>\<close> is \<open>E + T\<close> with \<open>Inl\<close> for \<open>Err\<close>.
\<close>

section \<open>Names and automation\<close>

named_theorems result_simps \<open>rules for the fallible operations \<open>rbind\<close> and \<open>seq\<close>\<close>
named_theorems le_simps \<open>rules for little-endian integers\<close>
named_theorems dec_simps \<open>rules for decimal numbers\<close>

type_synonym u8 = "8 word"
type_synonym u16 = "16 word"
type_synonym u32 = "32 word"
type_synonym u64 = "64 word"
type_synonym bytes = "u8 list"
type_synonym rstr = "u8 list"

definition usize_max :: nat where
  "usize_max = 2 ^ 64 - 1"

text \<open>An ASCII string literal of the source.\<close>

definition lit :: "string \<Rightarrow> rstr" where
  "lit s = map of_char s"

section \<open>Results and fallible state-passing operations\<close>

text \<open>The \<open>?\<close> operator on a plain \<open>Result\<close>.\<close>

definition rbind :: "'e + 'a \<Rightarrow> ('a \<Rightarrow> 'e + 'b) \<Rightarrow> 'e + 'b" where
  "rbind r f = (case r of Inl e \<Rightarrow> Inl e | Inr x \<Rightarrow> f x)"

lemma rbind_Inl [simp, result_simps]: "rbind (Inl e) f = Inl e"
  by (simp add: rbind_def)

lemma rbind_Inr [simp, result_simps]: "rbind (Inr x) f = f x"
  by (simp add: rbind_def)

lemma rbind_eq_Inr [result_simps]: "rbind r f = Inr y \<longleftrightarrow> (\<exists>x. r = Inr x \<and> f x = Inr y)"
  by (cases r) auto

lemma rbind_eq_Inl [result_simps]:
  "rbind r f = Inl e \<longleftrightarrow> r = Inl e \<or> (\<exists>x. r = Inr x \<and> f x = Inl e)"
  by (cases r) auto

lemma rbindE:
  assumes "rbind r f = Inr y"
  obtains x where "r = Inr x" and "f x = Inr y"
  using assms by (auto simp: rbind_eq_Inr)

text \<open>\<open>ok_or\<close>: an absent value is the given error.\<close>

definition ok_or :: "'e \<Rightarrow> 'a option \<Rightarrow> 'e + 'a" where
  "ok_or e x = (case x of None \<Rightarrow> Inl e | Some v \<Rightarrow> Inr v)"

lemma ok_or_simps [simp]: "ok_or e None = Inl e" "ok_or e (Some v) = Inr v"
  by (simp_all add: ok_or_def)

lemma ok_or_eq_Inr [result_simps]: "ok_or e x = Inr v \<longleftrightarrow> x = Some v"
  by (cases x) auto

text \<open>
  An operation on mutable state that may fail. The state is returned in both cases: what an
  operation did before it failed stays done, as in the source.
\<close>

type_synonym ('s, 'e, 'a) fallible = "'s \<Rightarrow> ('e + 'a) \<times> 's"

definition ok :: "'a \<Rightarrow> ('s, 'e, 'a) fallible" where
  "ok x s = (Inr x, s)"

definition fail :: "'e \<Rightarrow> ('s, 'e, 'a) fallible" where
  "fail e s = (Inl e, s)"

definition seq :: "('s, 'e, 'a) fallible \<Rightarrow> ('a \<Rightarrow> ('s, 'e, 'b) fallible) \<Rightarrow> ('s, 'e, 'b) fallible"
  where
  "seq m f s = (case m s of (Inl e, s') \<Rightarrow> (Inl e, s') | (Inr x, s') \<Rightarrow> f x s')"

lemma ok_apply [simp, result_simps]: "ok x s = (Inr x, s)"
  by (simp add: ok_def)

lemma fail_apply [simp, result_simps]: "fail e s = (Inl e, s)"
  by (simp add: fail_def)

lemma seq_Inl [simp, result_simps]: "m s = (Inl e, s') \<Longrightarrow> seq m f s = (Inl e, s')"
  by (simp add: seq_def)

lemma seq_Inr [simp, result_simps]: "m s = (Inr x, s') \<Longrightarrow> seq m f s = f x s'"
  by (simp add: seq_def)

lemma seq_eq_Inr [result_simps]:
  "seq m f s = (Inr y, s'') \<longleftrightarrow> (\<exists>x s'. m s = (Inr x, s') \<and> f x s' = (Inr y, s''))"
  by (auto simp: seq_def split: prod.splits sum.splits)

lemma seq_eq_Inl [result_simps]:
  "seq m f s = (Inl e, s'') \<longleftrightarrow>
     m s = (Inl e, s'') \<or> (\<exists>x s'. m s = (Inr x, s') \<and> f x s' = (Inl e, s''))"
  by (auto simp: seq_def split: prod.splits sum.splits)

lemma seq_assoc: "seq (seq m f) g = seq m (\<lambda>x. seq (f x) g)"
  by (rule ext) (auto simp: seq_def split: prod.splits sum.splits)

text \<open>A \<open>for\<close> loop whose body may leave with \<open>?\<close>.\<close>

fun for_each :: "('a \<Rightarrow> ('s, 'e, unit) fallible) \<Rightarrow> 'a list \<Rightarrow> ('s, 'e, unit) fallible" where
  "for_each f [] s = (Inr (), s)"
| "for_each f (x # xs) s =
     (case f x s of (Inl e, s') \<Rightarrow> (Inl e, s') | (Inr _, s') \<Rightarrow> for_each f xs s')"

text \<open>The same loop over a plain \<open>Result\<close>.\<close>

fun check_each :: "('a \<Rightarrow> 'e + unit) \<Rightarrow> 'a list \<Rightarrow> 'e + unit" where
  "check_each f [] = Inr ()"
| "check_each f (x # xs) = rbind (f x) (\<lambda>_. check_each f xs)"

lemma check_each_ok: "check_each f xs = Inr () \<longleftrightarrow> (\<forall>x\<in>set xs. f x = Inr ())"
  by (induction xs) (auto simp: rbind_eq_Inr)

lemma check_each_fails: "check_each f xs = Inl e \<Longrightarrow> \<exists>x\<in>set xs. f x = Inl e"
  by (induction xs) (auto simp: rbind_eq_Inl)

section \<open>Little-endian integers\<close>

fun le_bytes :: "nat \<Rightarrow> nat \<Rightarrow> bytes" where
  "le_bytes 0 n = []"
| "le_bytes (Suc k) n = of_nat (n mod 256) # le_bytes k (n div 256)"

fun le_nat :: "bytes \<Rightarrow> nat" where
  "le_nat [] = 0"
| "le_nat (b # bs) = unat b + 256 * le_nat bs"

text \<open>\<open>to_le_bytes\<close> and \<open>from_le_bytes\<close> of the unsigned types.\<close>

definition le16 :: "u16 \<Rightarrow> bytes" where "le16 w = le_bytes 2 (unat w)"
definition le32 :: "u32 \<Rightarrow> bytes" where "le32 w = le_bytes 4 (unat w)"
definition le64 :: "u64 \<Rightarrow> bytes" where "le64 w = le_bytes 8 (unat w)"

definition from_le :: "bytes \<Rightarrow> 'a::len word" where
  "from_le bs = of_nat (le_nat bs)"

lemma unat_less_pow: "unat (w :: 'a::len word) < 2 ^ LENGTH('a)"
  by (rule unsigned_less)

lemma length_le_bytes [simp]: "length (le_bytes k n) = k"
  by (induction k arbitrary: n) auto

lemma length_le16 [simp, le_simps]: "length (le16 w) = 2"
  by (simp add: le16_def)

lemma length_le32 [simp, le_simps]: "length (le32 w) = 4"
  by (simp add: le32_def)

lemma length_le64 [simp, le_simps]: "length (le64 w) = 8"
  by (simp add: le64_def)

lemma unat_of_nat_byte [simp]: "unat (of_nat (n mod 256) :: u8) = n mod 256"
  by (simp add: unat_of_nat)

lemma le_nat_le_bytes: "le_nat (le_bytes k n) = n mod 256 ^ k"
proof (induction k arbitrary: n)
  case 0
  then show ?case by simp
next
  case (Suc k)
  have "le_nat (le_bytes (Suc k) n) = n mod 256 + 256 * ((n div 256) mod 256 ^ k)"
    using Suc by simp
  also have "\<dots> = n mod (256 * 256 ^ k)"
    by (simp add: mod_mult2_eq)
  finally show ?case by simp
qed

lemma le_nat_less: "le_nat bs < 256 ^ length bs"
proof (induction bs)
  case Nil
  then show ?case by simp
next
  case (Cons b bs)
  have "unat b < 256" using unat_less_pow [of b] by simp
  with Cons show ?case by (simp add: algebra_simps)
qed

lemma le_bytes_le_nat: "length bs = k \<Longrightarrow> le_bytes k (le_nat bs) = bs"
proof (induction bs arbitrary: k)
  case Nil
  then show ?case by simp
next
  case (Cons b bs)
  have b: "unat b < 256" using unat_less_pow [of b] by simp
  then have "(unat b + 256 * le_nat bs) mod 256 = unat b"
    and "(unat b + 256 * le_nat bs) div 256 = le_nat bs"
    by simp_all
  with Cons show ?case by auto
qed

lemma from_le_le16 [simp, le_simps]: "from_le (le16 w) = w"
proof -
  have "unat w < 256 ^ 2" using unat_less_pow [of w] by simp
  then show ?thesis by (simp add: from_le_def le16_def le_nat_le_bytes)
qed

lemma from_le_le32 [simp, le_simps]: "from_le (le32 w) = w"
proof -
  have "unat w < 256 ^ 4" using unat_less_pow [of w] by simp
  then show ?thesis by (simp add: from_le_def le32_def le_nat_le_bytes)
qed

lemma from_le_le64 [simp, le_simps]: "from_le (le64 w) = w"
proof -
  have "unat w < 256 ^ 8" using unat_less_pow [of w] by simp
  then show ?thesis by (simp add: from_le_def le64_def le_nat_le_bytes)
qed

lemma unat_from_le:
  assumes "length bs * 8 \<le> LENGTH('a::len)"
  shows "unat (from_le bs :: 'a word) = le_nat bs"
proof -
  have "le_nat bs < 256 ^ length bs" by (rule le_nat_less)
  also have "(256 :: nat) ^ length bs = 2 ^ (length bs * 8)"
    by (simp add: power_mult mult.commute [of _ 8])
  also have "\<dots> \<le> 2 ^ LENGTH('a)" using assms by (rule power_increasing) simp
  finally show ?thesis by (simp add: from_le_def unat_of_nat)
qed

lemma le16_from_le [simp, le_simps]: "length bs = 2 \<Longrightarrow> le16 (from_le bs) = bs"
  by (simp add: le16_def unat_from_le le_bytes_le_nat)

lemma le32_from_le [simp, le_simps]: "length bs = 4 \<Longrightarrow> le32 (from_le bs) = bs"
  by (simp add: le32_def unat_from_le le_bytes_le_nat)

lemma le64_from_le [simp, le_simps]: "length bs = 8 \<Longrightarrow> le64 (from_le bs) = bs"
  by (simp add: le64_def unat_from_le le_bytes_le_nat)

section \<open>Decimal numbers\<close>

text \<open>\<open>format!("{n}")\<close>, and \<open>format!("{n:0k$}")\<close> with zero padding to width \<open>k\<close>.\<close>

fun dec :: "nat \<Rightarrow> rstr" where
  "dec n = (if n < 10 then [48 + of_nat n] else dec (n div 10) @ [48 + of_nat (n mod 10)])"

declare dec.simps [simp del]

definition pad :: "nat \<Rightarrow> nat \<Rightarrow> rstr" where
  "pad k n = replicate (k - length (dec n)) 48 @ dec n"

definition is_digit :: "u8 \<Rightarrow> bool" where
  "is_digit b \<longleftrightarrow> 48 \<le> b \<and> b \<le> 57"

definition all_digits :: "rstr \<Rightarrow> bool" where
  "all_digits s \<longleftrightarrow> list_all is_digit s"

definition digit_val :: "u8 \<Rightarrow> nat" where
  "digit_val b = unat b - 48"

definition undec :: "rstr \<Rightarrow> nat" where
  "undec s = foldl (\<lambda>a b. a * 10 + digit_val b) 0 s"

text \<open>
  \<open>str::parse\<close> for an unsigned type with largest value \<open>m\<close>: an optional plus sign, then one
  or more digits whose value fits.
\<close>

definition parse_unsigned :: "nat \<Rightarrow> rstr \<Rightarrow> nat option" where
  "parse_unsigned m s =
     (let ds = (case s of b # rest \<Rightarrow> if b = 43 \<and> rest \<noteq> [] then rest else s | [] \<Rightarrow> s)
      in if ds \<noteq> [] \<and> all_digits ds \<and> undec ds \<le> m then Some (undec ds) else None)"

lemma digit_byte: "n < 10 \<Longrightarrow> is_digit (48 + of_nat n) \<and> digit_val (48 + of_nat n) = n"
proof -
  assume n: "n < 10"
  have "unat (48 + of_nat n :: u8) = 48 + n"
    using n by (simp add: unat_word_ariths unat_of_nat)
  then show ?thesis
    using n by (simp add: is_digit_def digit_val_def word_le_nat_alt)
qed

lemma digit_val_less: "is_digit b \<Longrightarrow> digit_val b < 10"
  by (auto simp: is_digit_def digit_val_def word_le_nat_alt)

lemma digit_byte_val: "is_digit b \<Longrightarrow> 48 + of_nat (digit_val b) = b"
proof -
  assume "is_digit b"
  then have "48 \<le> unat b" by (simp add: is_digit_def word_le_nat_alt)
  then have "of_nat (48 + digit_val b) = b" by (simp add: digit_val_def)
  then show ?thesis by simp
qed

lemma undec_Nil [simp]: "undec [] = 0"
  by (simp add: undec_def)

lemma undec_snoc: "undec (s @ [b]) = undec s * 10 + digit_val b"
  by (simp add: undec_def)

lemma dec_nonempty [simp]: "dec n \<noteq> []"
  by (subst dec.simps) simp

lemma all_digits_append [simp]: "all_digits (s @ t) \<longleftrightarrow> all_digits s \<and> all_digits t"
  by (simp add: all_digits_def)

lemma all_digits_Nil [simp]: "all_digits []"
  by (simp add: all_digits_def)

lemma all_digits_single [simp]: "all_digits [b] \<longleftrightarrow> is_digit b"
  by (simp add: all_digits_def)

lemma all_digits_dec [simp, dec_simps]: "all_digits (dec n)"
proof (induction n rule: dec.induct)
  case (1 n)
  then show ?case by (subst dec.simps) (simp add: digit_byte)
qed

lemma undec_dec [simp, dec_simps]: "undec (dec n) = n"
proof (induction n rule: dec.induct)
  case (1 n)
  show ?case
  proof (cases "n < 10")
    case True
    then show ?thesis by (subst dec.simps) (simp add: undec_def digit_byte)
  next
    case False
    with 1 show ?thesis by (subst dec.simps) (simp add: undec_snoc digit_byte)
  qed
qed

lemma is_digit_zero [simp]: "is_digit 48"
  by (simp add: is_digit_def)

lemma digit_val_zero [simp]: "digit_val 48 = 0"
  by (simp add: digit_val_def)

lemma all_digits_zeros [simp]: "all_digits (replicate k 48)"
  by (induction k) (auto simp: all_digits_def)

lemma undec_zeros_append: "undec (replicate k 48 @ s) = undec s"
proof -
  have "foldl (\<lambda>a b. a * 10 + digit_val b) 0 (replicate k 48) = 0" for k
    by (induction k) auto
  then show ?thesis by (simp add: undec_def)
qed

lemma undec_pad [simp, dec_simps]: "undec (pad k n) = n"
  by (simp add: pad_def undec_zeros_append)

lemma all_digits_pad [simp, dec_simps]: "all_digits (pad k n)"
  by (simp add: pad_def)

lemma pad_nonempty [simp]: "pad k n \<noteq> []"
  by (simp add: pad_def)

lemma length_pad: "length (pad k n) = max k (length (dec n))"
  by (simp add: pad_def)

lemma length_dec_bound: "0 < k \<Longrightarrow> n < 10 ^ k \<Longrightarrow> length (dec n) \<le> k"
proof (induction k arbitrary: n)
  case 0
  then show ?case by simp
next
  case (Suc k)
  show ?case
  proof (cases "n < 10")
    case True
    then show ?thesis by (subst dec.simps) simp
  next
    case False
    with Suc.prems have k: "0 < k" by (cases k) auto
    have "n div 10 < 10 ^ k" using Suc.prems by (simp add: less_mult_imp_div_less mult.commute)
    with Suc.IH k have "length (dec (n div 10)) \<le> k" by blast
    with False show ?thesis by (subst dec.simps) simp
  qed
qed

lemma length_pad_exact: "0 < k \<Longrightarrow> n < 10 ^ k \<Longrightarrow> length (pad k n) = k"
  by (simp add: length_pad length_dec_bound max_absorb1)

text \<open>A digit string without a superfluous leading zero is the decimal form of its value.\<close>

lemma dec_undec:
  assumes "all_digits s" and "s \<noteq> []" and "length s = 1 \<or> hd s \<noteq> 48"
  shows "dec (undec s) = s"
  using assms
proof (induction s rule: rev_induct)
  case Nil
  then show ?case by simp
next
  case (snoc b s)
  have b: "is_digit b" and s: "all_digits s" using snoc.prems by auto
  note b_val = digit_val_less [OF b] digit_byte_val [OF b]
  show ?case
  proof (cases "s = []")
    case True
    with b_val show ?thesis by (simp add: undec_def dec.simps)
  next
    case False
    with snoc.prems have hd: "hd s \<noteq> 48" by simp
    with False s snoc.IH have IH: "dec (undec s) = s" by simp
    have "undec s \<noteq> 0"
    proof
      assume "undec s = 0"
      with IH have "s = [48]" by (simp add: dec.simps [of 0])
      with hd show False by simp
    qed
    then have "\<not> undec (s @ [b]) < 10" by (simp add: undec_snoc)
    moreover have "undec (s @ [b]) div 10 = undec s" "undec (s @ [b]) mod 10 = digit_val b"
      using b_val by (simp_all add: undec_snoc)
    ultimately show ?thesis using IH b_val by (subst dec.simps) simp
  qed
qed

lemma dec_no_leading_zero: "hd (dec n) \<noteq> 48 \<or> n = 0"
proof (induction n rule: dec.induct)
  case (1 n)
  show ?case
  proof (cases "n < 10")
    case True
    then have "unat (of_nat n :: u8) = n" by (simp add: unat_of_nat)
    then have "(of_nat n :: u8) = 0 \<Longrightarrow> n = 0" by simp
    with True show ?thesis by (auto simp: dec.simps [of n])
  next
    case False
    then have "n div 10 \<noteq> 0" by simp
    with 1 False have "hd (dec (n div 10)) \<noteq> 48" by blast
    with False show ?thesis by (subst dec.simps) simp
  qed
qed

lemma strip_zeros:
  assumes "all_digits s" and "s \<noteq> []"
  shows "\<exists>j. s = replicate j 48 @ dec (undec s)"
  using assms
proof (induction s)
  case Nil
  then show ?case by simp
next
  case (Cons b s)
  show ?case
  proof (cases "b = 48 \<and> s \<noteq> []")
    case True
    with Cons obtain j where j: "s = replicate j 48 @ dec (undec s)"
      by (auto simp: all_digits_def)
    have "undec (b # s) = undec s"
      using True undec_zeros_append [of 1 s] by simp
    with True j have "b # s = replicate (Suc j) 48 @ dec (undec (b # s))" by simp
    then show ?thesis by blast
  next
    case False
    with Cons.prems have "dec (undec (b # s)) = b # s" by (intro dec_undec) auto
    then show ?thesis by (intro exI [of _ 0]) simp
  qed
qed

lemma pad_undec:
  assumes digits: "all_digits s" and len: "k \<le> length s" "0 < k"
    and width: "length s = k \<or> hd s \<noteq> 48"
  shows "pad k (undec s) = s"
proof -
  from len have ne: "s \<noteq> []" by auto
  with digits obtain j where j: "s = replicate j 48 @ dec (undec s)"
    using strip_zeros by blast
  show ?thesis
  proof (cases "length s = k")
    case True
    then have "k - length (dec (undec s)) = j"
      by (metis add_diff_cancel_right' j length_append length_replicate)
    then show ?thesis using j by (simp add: pad_def)
  next
    case False
    with width have "dec (undec s) = s" using digits ne by (intro dec_undec) auto
    then show ?thesis using len by (simp add: pad_def)
  qed
qed

lemma undec_bound: "all_digits s \<Longrightarrow> undec s < 10 ^ length s"
proof (induction s rule: rev_induct)
  case (snoc c s)
  then have "undec s < 10 ^ length s" "digit_val c < 10"
    using digit_val_less by auto
  then show ?case by (simp add: undec_snoc)
qed simp

lemma parse_unsigned_digits:
  assumes "all_digits s" and "s \<noteq> []"
  shows "parse_unsigned m s = (if undec s \<le> m then Some (undec s) else None)"
proof -
  obtain b r where s: "s = b # r" using assms(2) by (cases s) auto
  have "b \<noteq> 43" using assms(1) by (auto simp: s all_digits_def is_digit_def)
  then show ?thesis using assms by (simp add: parse_unsigned_def s)
qed

section \<open>UTF-8\<close>

text \<open>
  Which byte sequences \<open>std::str::from_utf8\<close> accepts: the well-formed sequences of the Unicode
  standard (no overlong forms, no surrogates, nothing above U+10FFFF).
\<close>

definition cont :: "u8 \<Rightarrow> bool" where
  "cont b \<longleftrightarrow> 0x80 \<le> b \<and> b \<le> 0xBF"

definition lead3 :: "u8 \<Rightarrow> u8 \<Rightarrow> bool" where
  "lead3 a b \<longleftrightarrow>
     (a = 0xE0 \<and> 0xA0 \<le> b \<and> b \<le> 0xBF) \<or>
     (0xE1 \<le> a \<and> a \<le> 0xEC \<and> cont b) \<or>
     (a = 0xED \<and> 0x80 \<le> b \<and> b \<le> 0x9F) \<or>
     (0xEE \<le> a \<and> a \<le> 0xEF \<and> cont b)"

definition lead4 :: "u8 \<Rightarrow> u8 \<Rightarrow> bool" where
  "lead4 a b \<longleftrightarrow>
     (a = 0xF0 \<and> 0x90 \<le> b \<and> b \<le> 0xBF) \<or>
     (0xF1 \<le> a \<and> a \<le> 0xF3 \<and> cont b) \<or>
     (a = 0xF4 \<and> 0x80 \<le> b \<and> b \<le> 0x8F)"

fun utf8_valid :: "bytes \<Rightarrow> bool" where
  "utf8_valid [] = True"
| "utf8_valid (a # rest) =
     (if a \<le> 0x7F then utf8_valid rest
      else case rest of
        [] \<Rightarrow> False
      | b # rest2 \<Rightarrow>
          if 0xC2 \<le> a \<and> a \<le> 0xDF \<and> cont b then utf8_valid rest2
          else case rest2 of
            [] \<Rightarrow> False
          | c # rest3 \<Rightarrow>
              if lead3 a b \<and> cont c then utf8_valid rest3
              else case rest3 of
                [] \<Rightarrow> False
              | d # rest4 \<Rightarrow> lead4 a b \<and> cont c \<and> cont d \<and> utf8_valid rest4)"

lemma ascii_utf8_valid: "\<forall>b\<in>set s. b \<le> 0x7F \<Longrightarrow> utf8_valid s"
  by (induction s) auto

section \<open>Lists\<close>

text \<open>\<open>Vec::dedup_by\<close>: drop every element equivalent to the last one kept.\<close>

fun dedup_from :: "('a \<Rightarrow> 'a \<Rightarrow> bool) \<Rightarrow> 'a \<Rightarrow> 'a list \<Rightarrow> 'a list" where
  "dedup_from same x [] = []"
| "dedup_from same x (y # ys) =
     (if same y x then dedup_from same x ys else y # dedup_from same y ys)"

fun dedup_by :: "('a \<Rightarrow> 'a \<Rightarrow> bool) \<Rightarrow> 'a list \<Rightarrow> 'a list" where
  "dedup_by same [] = []"
| "dedup_by same (x # xs) = x # dedup_from same x xs"

abbreviation dedup_key :: "('a \<Rightarrow> 'k) \<Rightarrow> 'a list \<Rightarrow> 'a list" where
  "dedup_key f \<equiv> dedup_by (\<lambda>later first. f later = f first)"

abbreviation dedup_key_from :: "('a \<Rightarrow> 'k) \<Rightarrow> 'a \<Rightarrow> 'a list \<Rightarrow> 'a list" where
  "dedup_key_from f \<equiv> dedup_from (\<lambda>later first. f later = f first)"

lemma dedup_by_nonempty [simp]: "dedup_by same xs = [] \<longleftrightarrow> xs = []"
  by (cases xs) auto

lemma subseq_dedup_from: "subseq (dedup_from same x xs) xs"
  by (induction xs arbitrary: x) auto

lemma subseq_dedup_by: "subseq (dedup_by same xs) xs"
  by (cases xs) (auto simp: subseq_dedup_from)

lemma set_dedup_from: "set (dedup_from same x xs) \<subseteq> set xs"
  by (induction xs arbitrary: x) auto

lemma set_dedup_by: "set (dedup_by same xs) \<subseteq> set xs"
  by (cases xs) (auto dest: set_dedup_from [THEN subsetD])

lemma length_dedup_by: "length (dedup_by same xs) \<le> length xs"
  by (rule list_emb_length) (rule subseq_dedup_by)

lemma dedup_key_from_image:
  "insert (f x) (f ` set (dedup_key_from f x xs)) = insert (f x) (f ` set xs)"
  by (induction xs arbitrary: x) auto

lemma dedup_key_image: "f ` set (dedup_key f xs) = f ` set xs"
  by (cases xs) (simp_all add: dedup_key_from_image)

lemma dedup_key_from_strict:
  fixes f :: "'a \<Rightarrow> 'k::linorder"
  assumes "sorted (map f (x # xs))"
  shows "sorted_wrt (<) (map f (x # dedup_key_from f x xs))"
  using assms
proof (induction xs arbitrary: x)
  case Nil
  then show ?case by simp
next
  case (Cons y ys)
  show ?case
  proof (cases "f y = f x")
    case True
    with Cons show ?thesis by simp
  next
    case False
    with Cons.prems have xy: "f x < f y" by (simp add: order.strict_iff_order)
    from Cons have IH: "sorted_wrt (<) (map f (y # dedup_key_from f y ys))" by simp
    then have "\<forall>k\<in>set (map f (dedup_key_from f y ys)). f y < k" by simp
    with xy have "\<forall>k\<in>set (map f (dedup_key_from f y ys)). f x < k"
      by (blast intro: less_trans)
    with IH False xy show ?thesis by simp
  qed
qed

lemma dedup_key_strict:
  fixes f :: "'a \<Rightarrow> 'k::linorder"
  assumes "sorted (map f xs)"
  shows "sorted_wrt (<) (map f (dedup_key f xs))"
proof (cases xs)
  case (Cons x ys)
  with assms dedup_key_from_strict [of f x ys] show ?thesis by simp
qed simp

lemma dedup_key_from_id:
  fixes f :: "'a \<Rightarrow> 'k::order"
  assumes "sorted_wrt (<) (map f (x # xs))"
  shows "dedup_key_from f x xs = xs"
  using assms by (induction xs arbitrary: x) auto

lemma dedup_key_id:
  fixes f :: "'a \<Rightarrow> 'k::order"
  assumes "sorted_wrt (<) (map f xs)"
  shows "dedup_key f xs = xs"
proof (cases xs)
  case (Cons x ys)
  with assms dedup_key_from_id [of f x ys] show ?thesis by simp
qed simp

lemma dedup_from_map:
  "dedup_from same (g x) (map g xs) = map g (dedup_from (\<lambda>a b. same (g a) (g b)) x xs)"
  by (induction xs arbitrary: x) auto

lemma dedup_by_map:
  "dedup_by same (map g xs) = map g (dedup_by (\<lambda>a b. same (g a) (g b)) xs)"
  by (cases xs) (auto simp: dedup_from_map)

lemma sort_key_map: "map f (sort_key f xs) = sort (map f xs)"
  by (rule properties_for_sort [symmetric]) simp_all

lemma take_append_exact [simp]: "length xs = n \<Longrightarrow> take n (xs @ ys) = xs"
  by simp

lemma prefix_append_cases:
  assumes "prefix p (x @ y)"
  shows "strict_prefix p x \<or> (\<exists>q. p = x @ q \<and> prefix q y)"
  using assms by (auto simp: prefix_append strict_prefix_def)

section \<open>Words\<close>

lemma word_bump: "e < e + 1" if "e \<noteq> - 1" for e :: "'a::len word"
proof -
  have "1 + e \<noteq> 0" using that by (metis add_eq_0_iff)
  then show ?thesis using unatSuc [of e] by (simp add: word_less_nat_alt add.commute)
qed

lemma word_add_exact:
  fixes x :: u64
  assumes "unat x + n < 2 ^ 64" shows "unat (x + of_nat n) = unat x + n"
proof -
  have "unat (of_nat n :: u64) = n" using assms by (simp add: unat_of_nat)
  with assms show ?thesis by (simp add: unat_word_ariths)
qed

end
