(* ===== verification/Orc_Record.thy ===== *)
theory Orc_Record
  imports Orc_Prelude
begin

text \<open>
  The record model (\<open>src/src/record.rs\<close>) and the engine's error type (\<open>src/src/error.rs\<close>),
  shared by ingest, the codec and the flush.

  The payload of \<open>Error::Config\<close> is the literal part of the message the source formats;
  interpolated values are left out. Of the \<open>std::io::Error\<close> in \<open>Error::Io\<close> the kinds the program
  branches on are kept, of the foreign value in \<open>Error::Json\<close> a description.
\<close>

section \<open>Values and rows\<close>

datatype Value = VNull | VBool bool | VI64 u64 | VF64 u64 | VStr rstr

datatype KeyType = KBool | KI64 | KF64 | KStr

text \<open>Wire type tags; these bytes are on disk.\<close>

definition tag_NULL :: u8 where "tag_NULL = 0"
definition tag_BOOL :: u8 where "tag_BOOL = 1"
definition tag_I64 :: u8 where "tag_I64 = 2"
definition tag_F64 :: u8 where "tag_F64 = 3"
definition tag_STR :: u8 where "tag_STR = 4"

lemmas tag_defs = tag_NULL_def tag_BOOL_def tag_I64_def tag_F64_def tag_STR_def

fun value_tag :: "Value \<Rightarrow> u8" where
  "value_tag VNull = tag_NULL"
| "value_tag (VBool _) = tag_BOOL"
| "value_tag (VI64 _) = tag_I64"
| "value_tag (VF64 _) = tag_F64"
| "value_tag (VStr _) = tag_STR"

fun value_key_type :: "Value \<Rightarrow> KeyType option" where
  "value_key_type VNull = None"
| "value_key_type (VBool _) = Some KBool"
| "value_key_type (VI64 _) = Some KI64"
| "value_key_type (VF64 _) = Some KF64"
| "value_key_type (VStr _) = Some KStr"

record Row =
  row_ts :: u64
  row_id :: rstr
  row_keys :: "Value list"
  row_extra :: "(rstr \<times> rstr) list"
  row_data :: rstr

record RecordRef =
  rec_ts :: u64
  rec_epoch :: u32
  rec_series :: rstr
  rec_id :: rstr
  rec_data :: rstr

text \<open>The type invariant of the strings a value or a row borrows: they are \<open>&str\<close>.\<close>

fun value_utf8 :: "Value \<Rightarrow> bool" where
  "value_utf8 (VStr s) = utf8_valid s"
| "value_utf8 _ = True"

definition row_utf8 :: "Row \<Rightarrow> bool" where
  "row_utf8 r \<longleftrightarrow> utf8_valid (row_id r) \<and> utf8_valid (row_data r) \<and>
     list_all value_utf8 (row_keys r) \<and>
     list_all (\<lambda>(n, v). utf8_valid n \<and> utf8_valid v) (row_extra r)"

section \<open>Errors\<close>

definition FORMAT_VERSION :: u16 where "FORMAT_VERSION = 1"
definition MAGIC :: u32 where "MAGIC = 0x0063726f"

datatype IoError = NotFound | AlreadyExists | IoOther string

datatype Error =
    UnknownSeries rstr
  | KeyArity rstr nat nat
  | TypeMismatch rstr rstr KeyType "KeyType option"
  | TsOutOfRange u64 u64 u64
  | RecordTooLarge nat nat
  | BatchTooLarge nat nat
  | Config string
  | Locked
  | Io IoError
  | Json string

text \<open>\<open>Error::source\<close> reports a cause for the wrapped foreign errors only.\<close>

fun error_has_source :: "Error \<Rightarrow> bool" where
  "error_has_source (Io _) = True"
| "error_has_source (Json _) = True"
| "error_has_source _ = False"

lemma value_tag_range: "value_tag v \<le> 4"
  by (cases v) (simp_all add: tag_defs)

lemma value_key_type_None: "value_key_type v = None \<longleftrightarrow> v = VNull"
  by (cases v) simp_all

end
