(* ===== verification/Orc_Disk.thy ===== *)
theory Orc_Disk
  imports Orc_Record "HOL-Library.AList"
begin

text \<open>
  The file system under \<open>data_dir\<close>, as far as the program uses it, and the calculus in which the
  components that use it are verified.

  A path is the list of its components below \<open>data_dir\<close>; a disk is the list of its files, path
  first, in the order a directory listing happens to return them. Directories exist as far as
  files need them; creating one may fail but changes nothing else.

  Every system call consumes one outcome of \<open>faults\<close>: it is carried out, or it fails, a write
  then having written a first part only. A theorem that holds for every outcome stream covers
  every way the operating system can refuse a call. A crash of the process after \<open>n\<close> calls leaves
  the disk as the stream that refuses everything from \<open>n\<close> on would, so such a theorem covers a crash
  at every point too.

  A power cut is harsher than a crash: it leaves what \<open>fsync\<close> has made durable. \<open>stable\<close> holds, per
  path, the bytes its file had when it was last synced, and \<open>linked\<close> the names that were there when
  their directory was last synced.
\<close>

section \<open>Files and system calls\<close>

datatype outcome = Done | Refused nat

type_synonym path = "rstr list"

record Disk =
  files :: "(path \<times> bytes) list"
  faults :: "nat \<Rightarrow> outcome"
  ops :: nat
  stable :: "path \<Rightarrow> bytes option"
  linked :: "path \<Rightarrow> bool"

type_synonym ('m, 'a) io = "('m Disk_scheme, IoError, 'a) fallible"
type_synonym ('m, 'a) eio = "('m Disk_scheme, Error, 'a) fallible"

definition content :: "'m Disk_scheme \<Rightarrow> path \<Rightarrow> bytes option" where
  "content d = map_of (files d)"

definition refused :: IoError where "refused = IoOther ''the system call failed''"

text \<open>
  One system call: \<open>part k\<close> is what a refused call may still have done, \<open>act\<close> the call itself.
\<close>

definition syscall :: "(nat \<Rightarrow> 'm Disk_scheme \<Rightarrow> 'm Disk_scheme) \<Rightarrow> ('m, 'a) io \<Rightarrow> ('m, 'a) io" where
  "syscall part act d =
     (let d' = d\<lparr>ops := Suc (ops d)\<rparr> in
      case faults d (ops d) of
        Refused k \<Rightarrow> (Inl refused, part k d')
      | Done \<Rightarrow> act d')"

definition attempt :: "('m, 'a) io \<Rightarrow> ('m, 'a) io" where
  "attempt act = syscall (\<lambda>_ d. d) act"

definition set_file :: "path \<Rightarrow> bytes \<Rightarrow> 'm Disk_scheme \<Rightarrow> 'm Disk_scheme" where
  "set_file p bs d = d\<lparr>files := AList.update p bs (files d)\<rparr>"

definition drop_file :: "path \<Rightarrow> 'm Disk_scheme \<Rightarrow> 'm Disk_scheme" where
  "drop_file p d = d\<lparr>files := AList.delete p (files d)\<rparr>"

text \<open>A call on a file that must exist.\<close>

definition on_file :: "path \<Rightarrow> (bytes \<Rightarrow> ('m, 'a) io) \<Rightarrow> ('m, 'a) io" where
  "on_file p f d = (case content d p of None \<Rightarrow> (Inl NotFound, d) | Some bs \<Rightarrow> f bs d)"

definition fs_read :: "path \<Rightarrow> ('m, bytes) io" where
  "fs_read p = attempt (on_file p ok)"

definition fs_remove :: "path \<Rightarrow> ('m, unit) io" where
  "fs_remove p = attempt (on_file p (\<lambda>_ d. (Inr (), drop_file p d)))"

definition fs_rename :: "path \<Rightarrow> path \<Rightarrow> ('m, unit) io" where
  "fs_rename p q =
     attempt (on_file p (\<lambda>bs d. (Inr (), (set_file q bs (drop_file p d))
       \<lparr>stable := (stable d)(p := None, q := stable d p)\<rparr>)))"

definition fs_set_len :: "path \<Rightarrow> nat \<Rightarrow> ('m, unit) io" where
  "fs_set_len p n = attempt
     (on_file p (\<lambda>bs d. (Inr (), set_file p (take n bs @ replicate (n - length bs) 0) d)))"

text \<open>\<open>OpenOptions\<close>: \<open>create_new\<close>, then \<open>create\<close> with \<open>truncate\<close>, then opening an existing file.\<close>

definition fs_create_new :: "path \<Rightarrow> ('m, unit) io" where
  "fs_create_new p = attempt (\<lambda>d.
     case content d p of None \<Rightarrow> (Inr (), set_file p [] d) | Some _ \<Rightarrow> (Inl AlreadyExists, d))"

definition fs_create :: "path \<Rightarrow> ('m, unit) io" where
  "fs_create p = attempt (\<lambda>d. (Inr (), set_file p [] d))"

definition fs_open :: "path \<Rightarrow> ('m, unit) io" where
  "fs_open p = attempt (on_file p (\<lambda>_. ok ()))"

text \<open>\<open>write_all\<close> at the end of an open file; a refused call may have written a first part.\<close>

definition append_file :: "path \<Rightarrow> bytes \<Rightarrow> 'm Disk_scheme \<Rightarrow> 'm Disk_scheme" where
  "append_file p bs d = (case content d p of None \<Rightarrow> d | Some cs \<Rightarrow> set_file p (cs @ bs) d)"

definition fs_write :: "path \<Rightarrow> bytes \<Rightarrow> ('m, unit) io" where
  "fs_write p bs = syscall (\<lambda>k. append_file p (take k bs))
     (\<lambda>d. (Inr (), append_file p bs d))"

definition fs_sync :: "path \<Rightarrow> ('m, unit) io" where
  "fs_sync p = attempt (\<lambda>d. (Inr (), d\<lparr>stable := (stable d)(p := content d p)\<rparr>))"

definition fsync_dir :: "path \<Rightarrow> ('m, unit) io" where
  "fsync_dir dir = attempt (\<lambda>d.
     (Inr (), d\<lparr>linked := (\<lambda>p. if p \<noteq> [] \<and> butlast p = dir then content d p \<noteq> None else linked d p)\<rparr>))"

definition fs_mkdir :: "path \<Rightarrow> ('m, unit) io" where
  "fs_mkdir p = attempt (ok ())"

text \<open>The files directly in a directory, name first.\<close>

definition entries_in :: "path \<Rightarrow> (path \<times> bytes) list \<Rightarrow> (rstr \<times> bytes) list" where
  "entries_in dir fs =
     map (\<lambda>f. (last (fst f), snd f)) (filter (\<lambda>f. fst f \<noteq> [] \<and> butlast (fst f) = dir) fs)"

definition fs_list :: "path \<Rightarrow> ('m, (rstr \<times> bytes) list) io" where
  "fs_list dir = attempt (\<lambda>d. (Inr (entries_in dir (files d)), d))"

text \<open>Loops that carry a value through a list.\<close>

fun fold_io :: "('a \<Rightarrow> 'w \<Rightarrow> ('m, 'w) eio) \<Rightarrow> 'a list \<Rightarrow> 'w \<Rightarrow> ('m, 'w) eio" where
  "fold_io f [] w = ok w"
| "fold_io f (x # xs) w = seq (f x w) (\<lambda>w'. fold_io f xs w')"

text \<open>\<open>?\<close> on an \<open>io::Result\<close> in a function returning the engine's \<open>Result\<close>.\<close>

definition lift_io :: "('m, 'a) io \<Rightarrow> ('m, 'a) eio" where
  "lift_io m d = (case m d of (Inl e, d') \<Rightarrow> (Inl (Io e), d') | (Inr x, d') \<Rightarrow> (Inr x, d'))"

text \<open>\<open>match remove_file(..) { Err(e) if e.kind() == NotFound => {} .. }\<close>: already gone is fine.\<close>

definition remove_if_present :: "path \<Rightarrow> ('m, unit) eio" where
  "remove_if_present p d =
     (case fs_remove p d of
        (Inr _, d') \<Rightarrow> (Inr (), d')
      | (Inl NotFound, d') \<Rightarrow> (Inr (), d')
      | (Inl e, d') \<Rightarrow> (Inl (Io e), d'))"

text \<open>A result the caller logs and drops.\<close>

definition best_effort :: "('m, 'a) io \<Rightarrow> ('m Disk_scheme, 'e, bool) fallible" where
  "best_effort m d = (case m d of (Inl _, d') \<Rightarrow> (Inr False, d') | (Inr _, d') \<Rightarrow> (Inr True, d'))"

section \<open>Triples\<close>

text \<open>
  \<open>triple P m Q E\<close>: from a state satisfying \<open>P\<close>, a normal end of \<open>m\<close> with result \<open>x\<close> satisfies \<open>Q x\<close>
  and an early return satisfies \<open>E\<close>. With \<open>E\<close> unsatisfiable this says that \<open>m\<close> returns normally.
\<close>

definition triple ::
  "('s \<Rightarrow> bool) \<Rightarrow> ('s, 'e, 'a) fallible \<Rightarrow> ('a \<Rightarrow> 's \<Rightarrow> bool) \<Rightarrow> ('e \<Rightarrow> 's \<Rightarrow> bool) \<Rightarrow> bool" where
  "triple P m Q E \<longleftrightarrow>
     (\<forall>s. P s \<longrightarrow> (case m s of (Inr x, s') \<Rightarrow> Q x s' | (Inl e, s') \<Rightarrow> E e s'))"

named_theorems triple_rules \<open>triples of the system calls\<close>

lemma tripleI:
  assumes "\<And>s x s'. P s \<Longrightarrow> m s = (Inr x, s') \<Longrightarrow> Q x s'"
    and "\<And>s e s'. P s \<Longrightarrow> m s = (Inl e, s') \<Longrightarrow> E e s'"
  shows "triple P m Q E"
  using assms by (auto simp: triple_def split: prod.splits sum.splits)

lemma triple_Inr: "triple P m Q E \<Longrightarrow> P s \<Longrightarrow> m s = (Inr x, s') \<Longrightarrow> Q x s'"
  by (auto simp: triple_def dest: spec [of _ s])

lemma triple_Inl: "triple P m Q E \<Longrightarrow> P s \<Longrightarrow> m s = (Inl e, s') \<Longrightarrow> E e s'"
  by (auto simp: triple_def dest: spec [of _ s])

lemma triple_conseq:
  assumes "triple P m Q E" "\<And>s. P' s \<Longrightarrow> P s" "\<And>x s. Q x s \<Longrightarrow> Q' x s" "\<And>e s. E e s \<Longrightarrow> E' e s"
  shows "triple P' m Q' E'"
  using assms by (force intro!: tripleI dest: triple_Inr triple_Inl)

lemma triple_pre: "triple P m Q E \<Longrightarrow> (\<And>s. P' s \<Longrightarrow> P s) \<Longrightarrow> triple P' m Q E"
  by (erule triple_conseq) auto

lemma triple_ok: "triple (Q x) (ok x) Q E"
  by (simp add: triple_def)

lemma triple_fail: "triple (E e) (fail e) Q E"
  by (simp add: triple_def)

lemma triple_seq:
  assumes "triple P m Q E" and "\<And>x. triple (Q x) (f x) R E"
  shows "triple P (seq m f) R E"
  using assms by (force intro!: tripleI simp: seq_eq_Inr seq_eq_Inl dest: triple_Inr triple_Inl)

lemma for_each_Cons: "for_each f (x # xs) = seq (f x) (\<lambda>_. for_each f xs)"
  by (rule ext) (simp add: seq_def)

lemma triple_for_each:
  assumes "\<And>x. x \<in> set xs \<Longrightarrow> triple I (f x) (\<lambda>_. I) E"
  shows "triple I (for_each f xs) (\<lambda>_. I) E"
  using assms
proof (induction xs)
  case (Cons x xs)
  show ?case
    unfolding for_each_Cons by (rule triple_seq) (use Cons in auto)
qed (simp add: triple_def)

lemma triple_lift_io: "triple P m Q (\<lambda>e. E (Io e)) \<Longrightarrow> triple P (lift_io m) Q E"
  by (auto simp: triple_def lift_io_def split: prod.splits sum.splits)

lemma triple_best_effort:
  "triple P m (\<lambda>_. Q True) (\<lambda>_. Q False) \<Longrightarrow> triple P (best_effort m) Q E"
  by (rule tripleI)
    (auto simp: best_effort_def split: prod.splits sum.splits dest: triple_Inr triple_Inl)

text \<open>An operation that keeps a predicate, whichever way it ends.\<close>

definition keeps :: "('s \<Rightarrow> bool) \<Rightarrow> ('s, 'e, 'a) fallible \<Rightarrow> bool" where
  "keeps P m \<longleftrightarrow> triple P m (\<lambda>_. P) (\<lambda>_. P)"

lemma keeps_snd: "keeps P m \<longleftrightarrow> (\<forall>s. P s \<longrightarrow> P (snd (m s)))"
  by (auto simp: keeps_def triple_def split: prod.splits sum.splits)
     (metis snd_conv sum.exhaust surj_pair)+

lemma keeps_seq: "keeps P m \<Longrightarrow> (\<And>x. keeps P (f x)) \<Longrightarrow> keeps P (seq m f)"
  unfolding keeps_def by (rule triple_seq)

lemma keeps_ok: "keeps P (ok x)" and keeps_fail: "keeps P (fail e)"
  by (simp_all add: keeps_def triple_def)

lemma keeps_for_each: "(\<And>x. x \<in> set xs \<Longrightarrow> keeps P (f x)) \<Longrightarrow> keeps P (for_each f xs)"
  unfolding keeps_def by (rule triple_for_each)

lemma keeps_lift_io: "keeps P m \<Longrightarrow> keeps P (lift_io m)"
  unfolding keeps_def by (rule triple_lift_io)

lemma keeps_best_effort: "keeps P m \<Longrightarrow> keeps P (best_effort m)"
  unfolding keeps_def by (rule triple_best_effort)

lemmas keeps_intros = keeps_seq keeps_ok keeps_fail keeps_for_each keeps_lift_io keeps_best_effort

section \<open>The system calls in the calculus\<close>

lemma content_set_file [simp]: "content (set_file p bs d) = (content d)(p \<mapsto> bs)"
  by (simp add: content_def set_file_def AList.update_conv')

lemma content_drop_file [simp]: "content (drop_file p d) = (content d)(p := None)"
  by (simp add: content_def drop_file_def AList.delete_conv')

lemma content_irrelevant [simp]:
  "content (d\<lparr>ops := n\<rparr>) = content d" "content (d\<lparr>stable := st\<rparr>) = content d"
  "content (d\<lparr>linked := l\<rparr>) = content d"
  by (simp_all add: content_def)

text \<open>A disk holds each path once; from a calm disk on, no call is refused.\<close>

definition wf_disk :: "'m Disk_scheme \<Rightarrow> bool" where
  "wf_disk d \<longleftrightarrow> distinct (map fst (files d))"

definition calm :: "'m Disk_scheme \<Rightarrow> bool" where
  "calm d \<longleftrightarrow> (\<forall>n\<ge>ops d. faults d n = Done)"

text \<open>
  \<open>at k R\<close>: the files satisfy \<open>R\<close> and, if \<open>k\<close> holds, no call is refused from here on.
\<close>

definition at :: "bool \<Rightarrow> ((path \<rightharpoonup> bytes) \<Rightarrow> bool) \<Rightarrow> 'm Disk_scheme \<Rightarrow> bool" where
  "at k R d \<longleftrightarrow> wf_disk d \<and> (k \<longrightarrow> calm d) \<and> R (content d)"

lemma wf_disk_updates [simp]:
  "wf_disk d \<Longrightarrow> wf_disk (set_file p bs d)" "wf_disk d \<Longrightarrow> wf_disk (drop_file p d)"
  "wf_disk (d\<lparr>ops := n\<rparr>) = wf_disk d" "wf_disk (d\<lparr>stable := st\<rparr>) = wf_disk d"
  "wf_disk (d\<lparr>linked := l\<rparr>) = wf_disk d"
  by (simp_all add: wf_disk_def set_file_def drop_file_def AList.distinct_update AList.distinct_delete)

lemma calm_updates [simp]:
  "calm (set_file p bs d) = calm d" "calm (drop_file p d) = calm d"
  "calm (d\<lparr>stable := st\<rparr>) = calm d" "calm (d\<lparr>linked := l\<rparr>) = calm d" "calm d \<Longrightarrow> calm (d\<lparr>ops := Suc (ops d)\<rparr>)"
  by (simp_all add: calm_def set_file_def drop_file_def)

lemma triple_at_conseq:
  assumes "triple (at k R) m (\<lambda>x. at k (Q x)) (\<lambda>e. at k (E e))"
    "\<And>c. R' c \<Longrightarrow> R c" "\<And>x c. Q x c \<Longrightarrow> Q' x c" "\<And>e c. E e c \<Longrightarrow> E' e c"
  shows "triple (at k R') m (\<lambda>x. at k (Q' x)) (\<lambda>e. at k (E' e))"
  by (rule triple_conseq [OF assms(1)]) (auto simp: at_def assms(2-))

lemma triple_at_pre:
  assumes "triple (at k R) m Q E" "\<And>c. R' c \<Longrightarrow> R c" shows "triple (at k R') m Q E"
  by (rule triple_pre [OF assms(1)]) (auto simp: at_def assms(2))

text \<open>The control structures at this level; with the calls' rules they compute preconditions.\<close>

lemma at_ok [triple_rules]: "triple (at k (Q x)) (ok x) (\<lambda>x. at k (Q x)) E"
  by (rule triple_ok)

lemma at_fail [triple_rules]: "triple (at k (E e)) (fail e) Q (\<lambda>e. at k (E e))"
  by (rule triple_fail)

lemma at_seq [triple_rules]:
  assumes "triple (at k R) m (\<lambda>x. at k (Q x)) (\<lambda>e. at k (E e))"
    and "\<And>x. triple (at k (Q x)) (f x) (\<lambda>y. at k (S y)) (\<lambda>e. at k (E e))"
  shows "triple (at k R) (seq m f) (\<lambda>y. at k (S y)) (\<lambda>e. at k (E e))"
  using assms by (rule triple_seq)

lemma at_lift_io [triple_rules]:
  assumes "triple (at k R) m (\<lambda>x. at k (Q x)) (\<lambda>e. at k (E (Io e)))"
  shows "triple (at k R) (lift_io m) (\<lambda>x. at k (Q x)) (\<lambda>e. at k (E e))"
  using assms by (rule triple_lift_io)

lemma at_best_effort [triple_rules]:
  assumes "triple (at k R) m (\<lambda>_. at k (Q True)) (\<lambda>_. at k (Q False))"
  shows "triple (at k R) (best_effort m) (\<lambda>x. at k (Q x)) (\<lambda>e. at k (E e))"
  using assms by (rule triple_best_effort)

lemma at_if [triple_rules]:
  assumes "b \<Longrightarrow> triple (at k P) m Q E" and "\<not> b \<Longrightarrow> triple (at k R) n Q E"
  shows "triple (at k (\<lambda>c. if b then P c else R c)) (if b then m else n) Q E"
  using assms by simp

lemma at_Inr:
  assumes "triple (at k R) m (\<lambda>x. at k (Q x)) E" and "m d = (Inr x, d')"
    and "wf_disk d" "k \<longrightarrow> calm d" "R (content d)"
  shows "Q x (content d') \<and> wf_disk d' \<and> (k \<longrightarrow> calm d')"
  using triple_Inr [OF assms(1) _ assms(2)] assms(3-) by (simp add: at_def)

lemma at_Inl:
  assumes "triple (at k R) m Q (\<lambda>e. at k (E e))" and "m d = (Inl e, d')"
    and "wf_disk d" "k \<longrightarrow> calm d" "R (content d)"
  shows "E e (content d') \<and> wf_disk d' \<and> (k \<longrightarrow> calm d')"
  using triple_Inl [OF assms(1) _ assms(2)] assms(3-) by (simp add: at_def)

lemma triple_syscall:
  assumes act: "triple (at k R) act (\<lambda>x. at k (Q x)) (\<lambda>e. at k (E e))"
    and part: "\<And>n d. at k R d \<Longrightarrow> \<not> k \<Longrightarrow> at k (E refused) (part n d)"
  shows "triple (at k R) (syscall part act) (\<lambda>x. at k (Q x)) (\<lambda>e. at k (E e))"
proof (rule tripleI)
  fix d x d'
  assume d: "at k R d" and r: "syscall part act d = (Inr x, d')"
  from d have d1: "at k R (d\<lparr>ops := Suc (ops d)\<rparr>)" by (auto simp: at_def)
  from r have "act (d\<lparr>ops := Suc (ops d)\<rparr>) = (Inr x, d')"
    by (auto simp: syscall_def Let_def split: outcome.splits)
  with triple_Inr [OF act d1] show "at k (Q x) d'" by auto
next
  fix d e d'
  assume d: "at k R d" and r: "syscall part act d = (Inl e, d')"
  from d have d1: "at k R (d\<lparr>ops := Suc (ops d)\<rparr>)" by (auto simp: at_def)
  from d have "k \<Longrightarrow> faults d (ops d) = Done" by (simp add: at_def calm_def)
  then have "\<not> k" if "faults d (ops d) = Refused n" for n using that by auto
  with r part [OF d1] triple_Inl [OF act d1] show "at k (E e) d'"
    by (auto simp: syscall_def Let_def split: outcome.splits)
qed

lemma triple_attempt:
  assumes "triple (at k R) act (\<lambda>x. at k (Q x)) (\<lambda>e. at k (E e))"
    and "\<And>c. R c \<Longrightarrow> \<not> k \<Longrightarrow> E refused c"
  shows "triple (at k R) (attempt act) (\<lambda>x. at k (Q x)) (\<lambda>e. at k (E e))"
  unfolding attempt_def by (rule triple_syscall [OF assms(1)]) (auto simp: at_def assms(2))

lemma fs_read_triple [triple_rules]:
  "triple (at k (\<lambda>c. (\<forall>bs. c p = Some bs \<longrightarrow> Q bs c) \<and> (c p = None \<longrightarrow> E NotFound c) \<and>
                 (\<not> k \<longrightarrow> E refused c)))
     (fs_read p) (\<lambda>x. at k (Q x)) (\<lambda>e. at k (E e))"
  unfolding fs_read_def
  by (rule triple_attempt) (auto simp: triple_def at_def on_file_def split: option.splits)

lemma fs_open_triple [triple_rules]:
  "triple (at k (\<lambda>c. (c p \<noteq> None \<longrightarrow> Q () c) \<and> (c p = None \<longrightarrow> E NotFound c) \<and>
                 (\<not> k \<longrightarrow> E refused c)))
     (fs_open p) (\<lambda>x. at k (Q x)) (\<lambda>e. at k (E e))"
  unfolding fs_open_def
  by (rule triple_attempt) (auto simp: triple_def at_def on_file_def split: option.splits)

lemma fs_remove_triple [triple_rules]:
  "triple (at k (\<lambda>c. (c p \<noteq> None \<longrightarrow> Q () (c(p := None))) \<and> (c p = None \<longrightarrow> E NotFound c) \<and>
                 (\<not> k \<longrightarrow> E refused c)))
     (fs_remove p) (\<lambda>x. at k (Q x)) (\<lambda>e. at k (E e))"
  unfolding fs_remove_def
  by (rule triple_attempt) (auto simp: triple_def at_def on_file_def split: option.splits)

lemma fs_rename_triple [triple_rules]:
  "triple (at k (\<lambda>c. (\<forall>bs. c p = Some bs \<longrightarrow> Q () (c(p := None, q \<mapsto> bs))) \<and>
                 (c p = None \<longrightarrow> E NotFound c) \<and> (\<not> k \<longrightarrow> E refused c)))
     (fs_rename p q) (\<lambda>x. at k (Q x)) (\<lambda>e. at k (E e))"
  unfolding fs_rename_def
  by (rule triple_attempt) (auto simp: triple_def at_def on_file_def split: option.splits)

lemma fs_set_len_triple [triple_rules]:
  "triple (at k (\<lambda>c. (\<forall>bs. c p = Some bs \<longrightarrow> Q () (c(p \<mapsto> take n bs @ replicate (n - length bs) 0))) \<and>
                 (c p = None \<longrightarrow> E NotFound c) \<and> (\<not> k \<longrightarrow> E refused c)))
     (fs_set_len p n) (\<lambda>x. at k (Q x)) (\<lambda>e. at k (E e))"
  unfolding fs_set_len_def
  by (rule triple_attempt) (auto simp: triple_def at_def on_file_def split: option.splits)

lemma fs_create_new_triple [triple_rules]:
  "triple (at k (\<lambda>c. (c p = None \<longrightarrow> Q () (c(p \<mapsto> []))) \<and> (c p \<noteq> None \<longrightarrow> E AlreadyExists c) \<and>
                 (\<not> k \<longrightarrow> E refused c)))
     (fs_create_new p) (\<lambda>x. at k (Q x)) (\<lambda>e. at k (E e))"
  unfolding fs_create_new_def
  by (rule triple_attempt) (auto simp: triple_def at_def split: option.splits)

lemma fs_create_triple [triple_rules]:
  "triple (at k (\<lambda>c. Q () (c(p \<mapsto> [])) \<and> (\<not> k \<longrightarrow> E refused c)))
     (fs_create p) (\<lambda>x. at k (Q x)) (\<lambda>e. at k (E e))"
  unfolding fs_create_def by (rule triple_attempt) (auto simp: triple_def at_def)

lemma fs_write_triple [triple_rules]:
  "triple (at k (\<lambda>c. \<exists>cs. c p = Some cs \<and> Q () (c(p \<mapsto> cs @ bs)) \<and>
                 (\<not> k \<longrightarrow> (\<forall>n. E refused (c(p \<mapsto> cs @ take n bs))))))
     (fs_write p bs) (\<lambda>x. at k (Q x)) (\<lambda>e. at k (E e))"
  unfolding fs_write_def
  by (rule triple_syscall) (auto simp: triple_def at_def append_file_def)

text \<open>The calls without an effect on the files.\<close>

lemma quiet_triples [triple_rules]:
  "triple (at k (\<lambda>c. Q () c \<and> (\<not> k \<longrightarrow> E refused c))) (fs_sync p) (\<lambda>x. at k (Q x)) (\<lambda>e. at k (E e))"
  "triple (at k (\<lambda>c. Q () c \<and> (\<not> k \<longrightarrow> E refused c))) (fsync_dir p) (\<lambda>x. at k (Q x)) (\<lambda>e. at k (E e))"
  "triple (at k (\<lambda>c. Q () c \<and> (\<not> k \<longrightarrow> E refused c))) (fs_mkdir p) (\<lambda>x. at k (Q x)) (\<lambda>e. at k (E e))"
  unfolding fs_sync_def fsync_dir_def fs_mkdir_def
  by (rule triple_attempt; auto simp: triple_def at_def)+

lemma remove_if_present_triple [triple_rules]:
  "triple (at k (\<lambda>c. Q () (c(p := None)) \<and> (\<not> k \<longrightarrow> E (Io refused) c)))
     (remove_if_present p) (\<lambda>x. at k (Q x)) (\<lambda>e. at k (E e))"
proof -
  have "triple (at k (\<lambda>c. Q () (c(p := None)) \<and> (\<not> k \<longrightarrow> E (Io refused) c)))
     (fs_remove p) (\<lambda>x. at k (Q x))
     (\<lambda>e. at k (\<lambda>c. e = NotFound \<and> Q () c \<or> e \<noteq> NotFound \<and> E (Io e) c))"
    by (rule triple_at_pre [OF fs_remove_triple]) (auto simp: refused_def fun_upd_idem)
  then show ?thesis
    by (fastforce simp: remove_if_present_def at_def split: prod.splits sum.splits IoError.splits
        intro!: tripleI dest: triple_Inr triple_Inl)
qed

text \<open>A listing shows exactly the files of the directory, each once.\<close>

definition lists :: "path \<Rightarrow> (path \<rightharpoonup> bytes) \<Rightarrow> (rstr \<times> bytes) list \<Rightarrow> bool" where
  "lists dir c es \<longleftrightarrow> distinct (map fst es) \<and> (\<forall>n bs. (n, bs) \<in> set es \<longleftrightarrow> c (dir @ [n]) = Some bs)"

lemma lists_entries_in:
  assumes "wf_disk d" shows "lists dir (content d) (entries_in dir (files d))"
proof -
  have d: "distinct (map fst (files d))" using assms by (simp add: wf_disk_def)
  have "distinct (map fst (entries_in dir fs))" if "distinct (map fst fs)" for fs :: "(path \<times> bytes) list"
    using that
  proof (induction fs)
    case (Cons f fs)
    have "last (fst f) \<notin> fst ` set (entries_in dir fs)" if "fst f \<noteq> []" "butlast (fst f) = dir"
    proof
      assume "last (fst f) \<in> fst ` set (entries_in dir fs)"
      then obtain g where "g \<in> set fs" "fst g \<noteq> []" "butlast (fst g) = dir" "last (fst g) = last (fst f)"
        by (auto simp: entries_in_def)
      with that have "fst g = fst f" by (metis append_butlast_last_id)
      with \<open>g \<in> set fs\<close> Cons.prems show False by (force simp: image_iff)
    qed
    moreover have "distinct (map fst (entries_in dir fs))" using Cons by simp
    ultimately show ?case by (simp add: entries_in_def image_image)
  qed (simp add: entries_in_def)
  moreover have "(n, bs) \<in> set (entries_in dir (files d)) \<longleftrightarrow> content d (dir @ [n]) = Some bs" for n bs
    using map_of_eq_Some_iff [OF d]
    by (force simp: entries_in_def content_def image_iff)
  ultimately show ?thesis using d by (simp add: lists_def)
qed

lemma fs_list_triple [triple_rules]:
  "triple (at k (\<lambda>c. (\<forall>es. lists dir c es \<longrightarrow> Q es c) \<and> (\<not> k \<longrightarrow> E refused c)))
     (fs_list dir) (\<lambda>x. at k (Q x)) (\<lambda>e. at k (E e))"
  unfolding fs_list_def
  by (rule triple_attempt) (auto simp: triple_def at_def lists_entries_in)

lemma triple_at_assume:
  assumes "P \<Longrightarrow> triple (at k R) m Q E" shows "triple (at k (\<lambda>c. P \<and> R c)) m Q E"
  using assms by (auto simp: triple_def at_def)

lemma triple_at_known:
  assumes "x = v \<Longrightarrow> triple (at k R) m Q E" shows "triple (at k (\<lambda>c. R c \<and> x = v)) m Q E"
  using assms by (auto simp: triple_def at_def)

lemma triple_at_fix:
  assumes "\<And>c1. R c1 \<Longrightarrow> triple (at k (\<lambda>c. c = c1)) m Q E" shows "triple (at k R) m Q E"
  using assms by (fastforce simp: triple_def at_def)

lemma triple_seq3:
  assumes "triple P m (\<lambda>(a, b, c). Q a b c) E" "\<And>a b c. triple (Q a b c) (f a b c) R E"
  shows "triple P (seq m (\<lambda>(a, b, c). f a b c)) R E"
  by (rule triple_seq [OF assms(1)]) (use assms(2) in auto)

text \<open>A loop that carries a value: \<open>J ys w\<close> holds once \<open>ys\<close> has been processed.\<close>

lemma fold_io_triple:
  assumes "\<And>ys x w. x \<in> set xs \<Longrightarrow> triple (at k (J ys w)) (f x w) (\<lambda>w'. at k (J (ys @ [x]) w')) E"
  shows "triple (at k (J ys w)) (fold_io f xs w) (\<lambda>w'. at k (J (ys @ xs) w')) E"
  using assms
proof (induction xs arbitrary: ys w)
  case (Cons x xs)
  have "triple (at k (J (ys @ [x]) w')) (fold_io f xs w') (\<lambda>w''. at k (J ((ys @ [x]) @ xs) w'')) E" for w'
    by (rule Cons.IH) (use Cons.prems in auto)
  then show ?case by (auto intro!: triple_seq [OF Cons.prems])
qed (simp add: triple_def)

text \<open>Only the file at \<open>p\<close> differs.\<close>

definition scribbled :: "(path \<rightharpoonup> bytes) \<Rightarrow> path \<Rightarrow> (path \<rightharpoonup> bytes) \<Rightarrow> bool" where
  "scribbled c0 p c \<longleftrightarrow> (\<exists>cs. c = c0(p := cs))"

section \<open>Durability in the calculus\<close>

text \<open>
  \<open>durably k R\<close> is \<open>at\<close> with an assertion that also sees what a power cut would leave: the synced
  contents and the synced names.
\<close>

type_synonym durable_pred = "(path \<rightharpoonup> bytes) \<Rightarrow> (path \<rightharpoonup> bytes) \<Rightarrow> (path \<Rightarrow> bool) \<Rightarrow> bool"

definition durably :: "bool \<Rightarrow> durable_pred \<Rightarrow> 'm Disk_scheme \<Rightarrow> bool" where
  "durably k R d \<longleftrightarrow> wf_disk d \<and> (k \<longrightarrow> calm d) \<and> R (content d) (stable d) (linked d)"

named_theorems durable_rules \<open>triples of the system calls, with durability\<close>

lemma stable_irrelevant [simp]:
  "stable (set_file p bs d) = stable d" "stable (drop_file p d) = stable d"
  "linked (set_file p bs d) = linked d" "linked (drop_file p d) = linked d"
  by (simp_all add: set_file_def drop_file_def)

lemma durably_pre:
  assumes "triple (durably k R) m Q E" "\<And>c st l. R' c st l \<Longrightarrow> R c st l" shows "triple (durably k R') m Q E"
  by (rule triple_pre [OF assms(1)]) (auto simp: durably_def assms(2))

lemma durably_conseq:
  assumes "triple (durably k R) m (\<lambda>x. durably k (Q x)) (\<lambda>e. durably k (E e))"
    "\<And>c st l. R' c st l \<Longrightarrow> R c st l" "\<And>x c st l. Q x c st l \<Longrightarrow> Q' x c st l" "\<And>e c st l. E e c st l \<Longrightarrow> E' e c st l"
  shows "triple (durably k R') m (\<lambda>x. durably k (Q' x)) (\<lambda>e. durably k (E' e))"
  by (rule triple_conseq [OF assms(1)]) (auto simp: durably_def assms(2-))

lemma durably_ok [durable_rules]: "triple (durably k (Q x)) (ok x) (\<lambda>x. durably k (Q x)) E"
  by (rule triple_ok)

lemma durably_fail [durable_rules]: "triple (durably k (E e)) (fail e) Q (\<lambda>e. durably k (E e))"
  by (rule triple_fail)

lemma durably_seq [durable_rules]:
  assumes "triple (durably k R) m (\<lambda>x. durably k (Q x)) (\<lambda>e. durably k (E e))"
    and "\<And>x. triple (durably k (Q x)) (f x) (\<lambda>y. durably k (S y)) (\<lambda>e. durably k (E e))"
  shows "triple (durably k R) (seq m f) (\<lambda>y. durably k (S y)) (\<lambda>e. durably k (E e))"
  using assms by (rule triple_seq)

lemma durably_lift_io [durable_rules]:
  assumes "triple (durably k R) m (\<lambda>x. durably k (Q x)) (\<lambda>e. durably k (E (Io e)))"
  shows "triple (durably k R) (lift_io m) (\<lambda>x. durably k (Q x)) (\<lambda>e. durably k (E e))"
  using assms by (rule triple_lift_io)

lemma durably_Inr:
  assumes "triple (durably k R) m (\<lambda>x. durably k (Q x)) E" and "m d = (Inr x, d')"
    and "wf_disk d" "k \<longrightarrow> calm d" "R (content d) (stable d) (linked d)"
  shows "Q x (content d') (stable d') (linked d') \<and> wf_disk d' \<and> (k \<longrightarrow> calm d')"
  using triple_Inr [OF assms(1) _ assms(2)] assms(3-) by (simp add: durably_def)

lemma durably_Inl:
  assumes "triple (durably k R) m Q (\<lambda>e. durably k (E e))" and "m d = (Inl e, d')"
    and "wf_disk d" "k \<longrightarrow> calm d" "R (content d) (stable d) (linked d)"
  shows "E e (content d') (stable d') (linked d') \<and> wf_disk d' \<and> (k \<longrightarrow> calm d')"
  using triple_Inl [OF assms(1) _ assms(2)] assms(3-) by (simp add: durably_def)

lemma durably_syscall:
  assumes act: "triple (durably k R) act (\<lambda>x. durably k (Q x)) (\<lambda>e. durably k (E e))"
    and part: "\<And>n d. durably k R d \<Longrightarrow> \<not> k \<Longrightarrow> durably k (E refused) (part n d)"
  shows "triple (durably k R) (syscall part act) (\<lambda>x. durably k (Q x)) (\<lambda>e. durably k (E e))"
proof (rule tripleI)
  fix d x d'
  assume d: "durably k R d" and r: "syscall part act d = (Inr x, d')"
  from d have d1: "durably k R (d\<lparr>ops := Suc (ops d)\<rparr>)" by (auto simp: durably_def)
  from r have "act (d\<lparr>ops := Suc (ops d)\<rparr>) = (Inr x, d')"
    by (auto simp: syscall_def Let_def split: outcome.splits)
  with triple_Inr [OF act d1] show "durably k (Q x) d'" by auto
next
  fix d e d'
  assume d: "durably k R d" and r: "syscall part act d = (Inl e, d')"
  from d have d1: "durably k R (d\<lparr>ops := Suc (ops d)\<rparr>)" by (auto simp: durably_def)
  from d have "k \<Longrightarrow> faults d (ops d) = Done" by (simp add: durably_def calm_def)
  then have "\<not> k" if "faults d (ops d) = Refused n" for n using that by auto
  with r part [OF d1] triple_Inl [OF act d1] show "durably k (E e) d'"
    by (auto simp: syscall_def Let_def split: outcome.splits)
qed

lemma durably_attempt:
  assumes "triple (durably k R) act (\<lambda>x. durably k (Q x)) (\<lambda>e. durably k (E e))"
    and "\<And>c st l. R c st l \<Longrightarrow> \<not> k \<Longrightarrow> E refused c st l"
  shows "triple (durably k R) (attempt act) (\<lambda>x. durably k (Q x)) (\<lambda>e. durably k (E e))"
  unfolding attempt_def by (rule durably_syscall [OF assms(1)]) (auto simp: durably_def assms(2))

lemma durably_create_new [durable_rules]:
  "triple (durably k (\<lambda>c st l. (c p = None \<longrightarrow> Q () (c(p \<mapsto> [])) st l) \<and>
      (c p \<noteq> None \<longrightarrow> E AlreadyExists c st l) \<and> (\<not> k \<longrightarrow> E refused c st l)))
     (fs_create_new p) (\<lambda>x. durably k (Q x)) (\<lambda>e. durably k (E e))"
  unfolding fs_create_new_def
  by (rule durably_attempt) (auto simp: triple_def durably_def split: option.splits)

lemma durably_create [durable_rules]:
  "triple (durably k (\<lambda>c st l. Q () (c(p \<mapsto> [])) st l \<and> (\<not> k \<longrightarrow> E refused c st l)))
     (fs_create p) (\<lambda>x. durably k (Q x)) (\<lambda>e. durably k (E e))"
  unfolding fs_create_def by (rule durably_attempt) (auto simp: triple_def durably_def)

lemma durably_open [durable_rules]:
  "triple (durably k (\<lambda>c st l. (c p \<noteq> None \<longrightarrow> Q () c st l) \<and> (c p = None \<longrightarrow> E NotFound c st l) \<and>
      (\<not> k \<longrightarrow> E refused c st l)))
     (fs_open p) (\<lambda>x. durably k (Q x)) (\<lambda>e. durably k (E e))"
  unfolding fs_open_def
  by (rule durably_attempt) (auto simp: triple_def durably_def on_file_def split: option.splits)

lemma durably_write [durable_rules]:
  "triple (durably k (\<lambda>c st l. \<exists>cs. c p = Some cs \<and> Q () (c(p \<mapsto> cs @ bs)) st l \<and>
      (\<not> k \<longrightarrow> (\<forall>n. E refused (c(p \<mapsto> cs @ take n bs)) st l))))
     (fs_write p bs) (\<lambda>x. durably k (Q x)) (\<lambda>e. durably k (E e))"
  unfolding fs_write_def
  by (rule durably_syscall) (auto simp: triple_def durably_def append_file_def)

lemma durably_rename [durable_rules]:
  "triple (durably k (\<lambda>c st l. (\<forall>bs. c p = Some bs \<longrightarrow> Q () (c(p := None, q \<mapsto> bs)) (st(p := None, q := st p)) l) \<and>
      (c p = None \<longrightarrow> E NotFound c st l) \<and> (\<not> k \<longrightarrow> E refused c st l)))
     (fs_rename p q) (\<lambda>x. durably k (Q x)) (\<lambda>e. durably k (E e))"
  unfolding fs_rename_def
  by (rule durably_attempt) (auto simp: triple_def durably_def on_file_def split: option.splits)

lemma durably_sync [durable_rules]:
  "triple (durably k (\<lambda>c st l. Q () c (st(p := c p)) l \<and> (\<not> k \<longrightarrow> E refused c st l)))
     (fs_sync p) (\<lambda>x. durably k (Q x)) (\<lambda>e. durably k (E e))"
  unfolding fs_sync_def by (rule durably_attempt) (auto simp: triple_def durably_def)

lemma durably_sync_dir [durable_rules]:
  "triple (durably k (\<lambda>c st l. Q () c st (\<lambda>p. if p \<noteq> [] \<and> butlast p = dir then c p \<noteq> None else l p) \<and>
      (\<not> k \<longrightarrow> E refused c st l)))
     (fsync_dir dir) (\<lambda>x. durably k (Q x)) (\<lambda>e. durably k (E e))"
  unfolding fsync_dir_def by (rule durably_attempt) (auto simp: triple_def durably_def)

lemma durably_mkdir [durable_rules]:
  "triple (durably k (\<lambda>c st l. Q () c st l \<and> (\<not> k \<longrightarrow> E refused c st l)))
     (fs_mkdir p) (\<lambda>x. durably k (Q x)) (\<lambda>e. durably k (E e))"
  unfolding fs_mkdir_def by (rule durably_attempt) (auto simp: triple_def durably_def)

end
