(* ===== verification/Orc_Buffer.thy ===== *)
theory Orc_Buffer
  imports Orc_Disk
begin

text \<open>
  \<open>std::io::BufWriter\<close> over a file, as the log writer and the run writer use it: small writes are
  collected in memory, a write that does not fit empties the buffer first, and a write at least as
  large as the buffer goes straight to the file. A failed write keeps in the buffer what did not
  reach the file.
\<close>

section \<open>The buffered writer\<close>

record BufWriter =
  bw_path :: path
  bw_buf :: bytes
  bw_cap :: nat

type_synonym ('m, 'a) buffered = "(BufWriter \<times> 'm Disk_scheme, IoError, 'a) fallible"

definition buf_new :: "nat \<Rightarrow> path \<Rightarrow> BufWriter" where
  "buf_new cap p = \<lparr>bw_path = p, bw_buf = [], bw_cap = cap\<rparr>"

definition file_len :: "'m Disk_scheme \<Rightarrow> path \<Rightarrow> nat" where
  "file_len d p = (case content d p of None \<Rightarrow> 0 | Some bs \<Rightarrow> length bs)"

definition flush_buf :: "('m, unit) buffered" where
  "flush_buf = (\<lambda>(w, d).
     if bw_buf w = [] then (Inr (), (w, d))
     else case fs_write (bw_path w) (bw_buf w) d of
            (Inr _, d') \<Rightarrow> (Inr (), (w\<lparr>bw_buf := []\<rparr>, d'))
          | (Inl e, d') \<Rightarrow>
              (Inl e, (w\<lparr>bw_buf := drop (file_len d' (bw_path w) - file_len d (bw_path w)) (bw_buf w)\<rparr>, d')))"

definition buf_push :: "bytes \<Rightarrow> ('m, unit) buffered" where
  "buf_push bs = (\<lambda>(w, d). (Inr (), (w\<lparr>bw_buf := bw_buf w @ bs\<rparr>, d)))"

definition write_through :: "bytes \<Rightarrow> ('m, unit) buffered" where
  "write_through bs = (\<lambda>(w, d). case fs_write (bw_path w) bs d of (r, d') \<Rightarrow> (r, (w, d')))"

definition buf_write_all :: "bytes \<Rightarrow> ('m, unit) buffered" where
  "buf_write_all bs = (\<lambda>(w, d).
     let spare = bw_cap w - length (bw_buf w) in
     if length bs < spare then buf_push bs (w, d)
     else seq (if spare < length bs then flush_buf else ok ()) (\<lambda>_ (w, d).
            if bw_cap w \<le> length bs then write_through bs (w, d) else buf_push bs (w, d)) (w, d))"

section \<open>What it does to the file\<close>

text \<open>
  \<open>appended p x d d'\<close>: the only change of the files is that \<open>x\<close> was appended to \<open>p\<close>; what is durable
  did not change.
\<close>

definition appended :: "path \<Rightarrow> bytes \<Rightarrow> 'm Disk_scheme \<Rightarrow> 'm Disk_scheme \<Rightarrow> bool" where
  "appended p x d d' \<longleftrightarrow>
     (\<exists>cs. content d p = Some cs \<and> content d' = (content d)(p \<mapsto> cs @ x)) \<and>
     stable d' = stable d \<and> linked d' = linked d \<and>
     (wf_disk d \<longrightarrow> wf_disk d') \<and> (calm d \<longrightarrow> calm d')"

lemma appended_refl: "content d p = Some cs \<Longrightarrow> appended p [] d d"
  by (auto simp: appended_def fun_upd_idem)

lemma appended_trans: "appended p x d d' \<Longrightarrow> appended p y d' d'' \<Longrightarrow> appended p (x @ y) d d''"
  by (auto simp: appended_def)

lemma appended_content: "appended p x d d' \<Longrightarrow> content d p = Some cs \<Longrightarrow> content d' p = Some (cs @ x)"
  by (auto simp: appended_def)

lemma appended_other: "appended p x d d' \<Longrightarrow> q \<noteq> p \<Longrightarrow> content d' q = content d q"
  by (auto simp: appended_def)

lemma fs_write_appends:
  assumes "fs_write p bs d = (r, d')" "content d p = Some cs"
  shows "\<exists>n. appended p (take n bs) d d' \<and> (r = Inr () \<longrightarrow> n = length bs) \<and> (calm d \<longrightarrow> r = Inr ())"
proof (cases "faults d (ops d)")
  case Done
  with assms have "r = Inr ()" "d' = append_file p bs (d\<lparr>ops := Suc (ops d)\<rparr>)"
    by (auto simp: fs_write_def syscall_def Let_def)
  with assms(2) show ?thesis
    by (intro exI [of _ "length bs"]) (auto simp: appended_def append_file_def)
next
  case (Refused n)
  with assms have "r = Inl refused" "d' = append_file p (take n bs) (d\<lparr>ops := Suc (ops d)\<rparr>)"
    by (auto simp: fs_write_def syscall_def Let_def)
  moreover have "\<not> calm d" using Refused by (auto simp: calm_def)
  ultimately show ?thesis using assms(2)
    by (intro exI [of _ n]) (auto simp: appended_def append_file_def)
qed

text \<open>Emptying the buffer moves bytes from the buffer to the file, never past each other.\<close>

lemma flush_buf_moves:
  assumes "flush_buf (w, d) = (r, (w', d'))" "content d (bw_path w) = Some cs"
  shows "\<exists>x. bw_buf w = x @ bw_buf w' \<and> appended (bw_path w) x d d' \<and> bw_path w' = bw_path w \<and> bw_cap w' = bw_cap w \<and>
    (r = Inr () \<longrightarrow> bw_buf w' = []) \<and> (calm d \<longrightarrow> r = Inr ())"
proof (cases "bw_buf w = []")
  case True
  with assms show ?thesis
    by (intro exI [of _ "[]"]) (auto simp: flush_buf_def appended_refl)
next
  case False
  obtain r1 d1 where wr: "fs_write (bw_path w) (bw_buf w) d = (r1, d1)" by fastforce
  from fs_write_appends [OF wr assms(2)] obtain n where n:
    "appended (bw_path w) (take n (bw_buf w)) d d1" "r1 = Inr () \<Longrightarrow> n = length (bw_buf w)" "calm d \<Longrightarrow> r1 = Inr ()"
    by blast
  have "file_len d1 (bw_path w) - file_len d (bw_path w) = length (take n (bw_buf w))"
    using appended_content [OF n(1) assms(2)] assms(2) by (simp add: file_len_def)
  then have moved: "drop (file_len d1 (bw_path w) - file_len d (bw_path w)) (bw_buf w) = drop n (bw_buf w)"
    by (simp add: min_def)
  show ?thesis
  proof (cases r1)
    case (Inl e)
    with assms(1) False wr moved have "r = Inl e" "w' = w\<lparr>bw_buf := drop n (bw_buf w)\<rparr>" "d' = d1"
      by (auto simp: flush_buf_def)
    with n Inl show ?thesis by (intro exI [of _ "take n (bw_buf w)"]) auto
  next
    case (Inr u)
    with assms(1) False wr have "r = Inr ()" "w' = w\<lparr>bw_buf := []\<rparr>" "d' = d1"
      by (auto simp: flush_buf_def)
    with n Inr show ?thesis by (intro exI [of _ "bw_buf w"]) auto
  qed
qed

text \<open>
  A buffered write: on success file and buffer together grew by the bytes written; on failure they
  are what they were, or the buffer is empty and a first part of the bytes reached the file.
\<close>

lemma buf_write_all_spec:
  fixes d d' :: "'m Disk_scheme"
  assumes "buf_write_all bs (w, d) = (r, (w', d'))" "content d (bw_path w) = Some cs"
    and cap: "length (bw_buf w) \<le> bw_cap w"
  shows "bw_path w' = bw_path w \<and> bw_cap w' = bw_cap w \<and> length (bw_buf w') \<le> bw_cap w' \<and> (calm d \<longrightarrow> r = Inr ()) \<and>
    (\<exists>x. appended (bw_path w) x d d' \<and>
      (r = Inr () \<longrightarrow> x @ bw_buf w' = bw_buf w @ bs) \<and>
      (r \<noteq> Inr () \<longrightarrow> x @ bw_buf w' = bw_buf w \<or>
         bw_buf w' = [] \<and> (\<exists>n. x = bw_buf w @ take n bs)))"
proof (cases "length bs < bw_cap w - length (bw_buf w)")
  case True
  with assms show ?thesis
    by (auto simp: buf_write_all_def buf_push_def Let_def intro!: exI [of _ "[]"] appended_refl)
next
  case big: False
  define m where "m = (if bw_cap w - length (bw_buf w) < length bs then flush_buf else ok () :: ('m, unit) buffered)"
  obtain r1 w1 d1 where fl: "m (w, d) = (r1, (w1, d1))" by (metis prod.exhaust)
  have "\<exists>x. bw_buf w = x @ bw_buf w1 \<and> appended (bw_path w) x d d1 \<and> bw_path w1 = bw_path w \<and> bw_cap w1 = bw_cap w \<and>
      (calm d \<longrightarrow> r1 = Inr ())"
    using fl flush_buf_moves [of w d r1 w1 d1, OF _ assms(2)] appended_refl [OF assms(2)]
    by (auto simp: m_def split: if_splits)
  then obtain x where x: "bw_buf w = x @ bw_buf w1" "appended (bw_path w) x d d1"
    and w1: "bw_path w1 = bw_path w" "bw_cap w1 = bw_cap w" and ok1: "calm d \<Longrightarrow> r1 = Inr ()" by blast
  have cap1: "length (bw_buf w1) \<le> bw_cap w1" using cap x(1) w1 by simp
  have cs1: "content d1 (bw_path w1) = Some (cs @ x)" using appended_content [OF x(2) assms(2)] w1 by simp
  have whole: "seq m (\<lambda>_ (w, d). if bw_cap w \<le> length bs then write_through bs (w, d) else buf_push bs (w, d)) (w, d)
      = (r, (w', d'))"
    using assms(1) big by (simp add: buf_write_all_def m_def Let_def)
  have calm1: "calm d \<Longrightarrow> calm d1" using x(2) by (simp add: appended_def)
  show ?thesis
  proof (cases r1)
    case (Inl e)
    with fl whole have "r = Inl e" "w' = w1" "d' = d1" by auto
    with x Inl cap1 w1 ok1 show ?thesis by (auto intro!: exI [of _ x])
  next
    case (Inr u)
    then have r1: "r1 = Inr ()" by simp
    show ?thesis
    proof (cases "bw_cap w \<le> length bs")
      case direct: True
      obtain r2 d2 where wr: "fs_write (bw_path w1) bs d1 = (r2, d2)" by fastforce
      from fs_write_appends [OF wr cs1] obtain n where n: "appended (bw_path w1) (take n bs) d1 d2"
        "r2 = Inr () \<Longrightarrow> n = length bs" "calm d1 \<Longrightarrow> r2 = Inr ()" by blast
      have eq: "r = r2" "w' = w1" "d' = d2"
        using whole fl r1 direct w1 wr by (auto simp: write_through_def)
      have emptied: "bw_buf w1 = []"
      proof (cases "bw_cap w - length (bw_buf w) < length bs")
        case True
        with fl r1 show ?thesis using flush_buf_moves [OF _ assms(2)] by (fastforce simp: m_def)
      next
        case False
        with direct cap have "length (bw_buf w) = 0" by linarith
        with x(1) show ?thesis by simp
      qed
      show ?thesis
        using x n eq emptied appended_trans [OF x(2)] calm1 w1 cap1
        by (auto intro!: exI [of _ "x @ take n bs"])
    next
      case small: False
      with whole fl r1 w1 have eq: "r = Inr ()" "w' = w1\<lparr>bw_buf := bw_buf w1 @ bs\<rparr>" "d' = d1"
        by (auto simp: buf_push_def)
      have "length (bw_buf w1) + length bs \<le> bw_cap w"
      proof (cases "bw_cap w - length (bw_buf w) < length bs")
        case True
        with fl r1 have "bw_buf w1 = []" using flush_buf_moves [OF _ assms(2)] by (fastforce simp: m_def)
        with small show ?thesis by simp
      next
        case False
        with fl r1 cap show ?thesis by (simp add: m_def)
      qed
      with x eq w1 show ?thesis by (auto intro!: exI [of _ x])
    qed
  qed
qed

end
