(* ===== verification/Orc_Codec.thy ===== *)
theory Orc_Codec
  imports Orc_Record
begin

text \<open>
  The frame codec (\<open>src/src/codec.rs\<close>): segment and batch headers, frame encoding, the
  bounds-checked cursor, prefix validation and decoding.

  The CRC-32 of the \<open>crc32fast\<close> crate is a parameter \<open>crc\<close> of every operation that hashes:
  \<open>Hasher::new\<close>, a sequence of \<open>update\<close> calls and \<open>finalize\<close> compute \<open>crc\<close> of the
  concatenation of the updates.
\<close>

section \<open>Layout constants and errors\<close>

definition SEGMENT_HEADER_BYTES :: nat where "SEGMENT_HEADER_BYTES = 4 + 2 + 8"
definition BATCH_HEADER_BYTES :: nat where "BATCH_HEADER_BYTES = 4 + 2 + 4"
definition FRAME_HEADER_BYTES :: nat where "FRAME_HEADER_BYTES = 4 + 4"
definition MIN_PAYLOAD_BYTES :: nat where "MIN_PAYLOAD_BYTES = 8 + 4 + 2 + 2 + 2 + 4"

lemmas layout_defs =
  SEGMENT_HEADER_BYTES_def BATCH_HEADER_BYTES_def FRAME_HEADER_BYTES_def MIN_PAYLOAD_BYTES_def

datatype DecodeError = Truncated nat nat | Corrupt string

fun is_truncated :: "DecodeError \<Rightarrow> bool" where
  "is_truncated (Truncated _ _) = True"
| "is_truncated (Corrupt _) = False"

fun is_corrupt :: "DecodeError \<Rightarrow> bool" where
  "is_corrupt (Truncated _ _) = False"
| "is_corrupt (Corrupt _) = True"

definition UNSUPPORTED_VERSION :: string where
  "UNSUPPORTED_VERSION = ''unsupported format version''"

definition u16_max :: nat where "u16_max = 65535"
definition u32_max :: nat where "u32_max = 4294967295"

definition slice :: "nat \<Rightarrow> nat \<Rightarrow> 'a list \<Rightarrow> 'a list" where
  "slice a b xs = take (b - a) (drop a xs)"

section \<open>Headers\<close>

definition encode_segment_header :: "bytes \<Rightarrow> u64 \<Rightarrow> bytes" where
  "encode_segment_header out segment_id =
     out @ le32 MAGIC @ le16 FORMAT_VERSION @ le64 segment_id"

definition encode_batch_header :: "bytes \<Rightarrow> u32 \<Rightarrow> bytes" where
  "encode_batch_header out n = out @ le32 MAGIC @ le16 FORMAT_VERSION @ le32 n"

definition parse_common_header :: "bytes \<Rightarrow> nat \<Rightarrow> DecodeError + bytes" where
  "parse_common_header buf needed =
     (if length buf < needed then Inl (Truncated needed (length buf))
      else if from_le (take 4 buf) \<noteq> MAGIC
      then Inl (Corrupt ''bad magic; not an orc segment or batch'')
      else if from_le (slice 4 6 buf) \<noteq> FORMAT_VERSION
      then Inl (Corrupt UNSUPPORTED_VERSION)
      else Inr (slice 6 needed buf))"

definition parse_segment_header :: "bytes \<Rightarrow> DecodeError + u64" where
  "parse_segment_header buf =
     rbind (parse_common_header buf SEGMENT_HEADER_BYTES) (\<lambda>after. Inr (from_le (take 8 after)))"

definition parse_batch_header :: "bytes \<Rightarrow> DecodeError + u32" where
  "parse_batch_header buf =
     rbind (parse_common_header buf BATCH_HEADER_BYTES) (\<lambda>after. Inr (from_le (take 4 after)))"

section \<open>Encoding\<close>

definition extend_bytes :: "bytes \<Rightarrow> (bytes, Error, unit) fallible" where
  "extend_bytes xs out = (Inr (), out @ xs)"

definition is_canonical :: "(rstr \<times> rstr) list \<Rightarrow> bool" where
  "is_canonical extra \<longleftrightarrow>
     (\<forall>i < length extra - 1. fst (extra ! i) < fst (extra ! Suc i))"

definition put_str16 :: "rstr \<Rightarrow> (bytes, Error, unit) fallible" where
  "put_str16 s =
     (if length s \<le> u16_max
      then seq (extend_bytes (le16 (of_nat (length s)))) (\<lambda>_. extend_bytes s)
      else fail (RecordTooLarge (length s) u16_max))"

definition put_str32 :: "rstr \<Rightarrow> (bytes, Error, unit) fallible" where
  "put_str32 s =
     (if length s \<le> u32_max
      then seq (extend_bytes (le32 (of_nat (length s)))) (\<lambda>_. extend_bytes s)
      else fail (RecordTooLarge (length s) u32_max))"

definition put_value :: "Value \<Rightarrow> (bytes, Error, unit) fallible" where
  "put_value v =
     seq (extend_bytes [value_tag v]) (\<lambda>_.
       case v of
         VNull \<Rightarrow> ok ()
       | VBool b \<Rightarrow> extend_bytes [if b then 1 else 0]
       | VI64 i \<Rightarrow> extend_bytes (le64 i)
       | VF64 f \<Rightarrow> extend_bytes (le64 f)
       | VStr s \<Rightarrow> put_str32 s)"

definition put_pair :: "rstr \<times> rstr \<Rightarrow> (bytes, Error, unit) fallible" where
  "put_pair p = seq (put_str16 (fst p)) (\<lambda>_. put_str16 (snd p))"

text \<open>
  The index order the encoder computes for an \<open>extra\<close> that is not canonical: sorted by
  \<open>(name, value)\<close>, each run of equal names collapsed to its first member. Indices with equal
  keys name equal pairs, so the unstable sort of the source emits the same bytes.
\<close>

definition extra_order :: "(rstr \<times> rstr) list \<Rightarrow> nat list" where
  "extra_order extra =
     dedup_by (\<lambda>a b. fst (extra ! a) = fst (extra ! b))
       (sort_key (\<lambda>i. extra ! i) [0..<length extra])"

definition put_extra :: "(rstr \<times> rstr) list \<Rightarrow> (bytes, Error, unit) fallible" where
  "put_extra extra =
     (if length extra > u16_max then fail (RecordTooLarge (length extra) u16_max)
      else if is_canonical extra then
        seq (extend_bytes (le16 (of_nat (length extra)))) (\<lambda>_. for_each put_pair extra)
      else
        let order = extra_order extra in
        seq (extend_bytes (le16 (of_nat (length order)))) (\<lambda>_.
          for_each (\<lambda>i. put_pair (extra ! i)) order))"

text \<open>\<open>out[a..a + n].copy_from_slice(xs)\<close>.\<close>

definition overwrite :: "nat \<Rightarrow> bytes \<Rightarrow> bytes \<Rightarrow> bytes" where
  "overwrite a xs out = take a out @ xs @ drop (a + length xs) out"

definition backfill :: "(bytes \<Rightarrow> u32) \<Rightarrow> nat \<Rightarrow> (bytes, Error, unit) fallible" where
  "backfill crc start out =
     (let payload_len = length out - start - FRAME_HEADER_BYTES in
      if payload_len > u32_max then (Inl (RecordTooLarge payload_len u32_max), out)
      else
        let out1 = overwrite start (le32 (of_nat payload_len)) out;
            c = crc (slice start (start + 4) out1 @ drop (start + FRAME_HEADER_BYTES) out1)
        in (Inr (), overwrite (start + 4) (le32 c) out1))"

definition encode_inner ::
  "(bytes \<Rightarrow> u32) \<Rightarrow> rstr \<Rightarrow> u32 \<Rightarrow> Row \<Rightarrow> (bytes, Error, unit) fallible" where
  "encode_inner crc series epoch row out =
     (let start = length out in
      seq (extend_bytes (replicate FRAME_HEADER_BYTES 0)) (\<lambda>_.
      seq (extend_bytes (le64 (row_ts row))) (\<lambda>_.
      seq (extend_bytes (le32 epoch)) (\<lambda>_.
      seq (put_str16 series) (\<lambda>_.
      seq (put_str16 (row_id row)) (\<lambda>_.
      seq (for_each put_value (row_keys row)) (\<lambda>_.
      seq (put_extra (row_extra row)) (\<lambda>_.
      seq (put_str32 (row_data row)) (\<lambda>_.
      backfill crc start)))))))) out)"

definition encode :: "(bytes \<Rightarrow> u32) \<Rightarrow> rstr \<Rightarrow> u32 \<Rightarrow> Row \<Rightarrow> (bytes, Error, unit) fallible" where
  "encode crc series epoch row out =
     (let start = length out in
      case encode_inner crc series epoch row out of
        (Inr _, out') \<Rightarrow> (Inr (), out')
      | (Inl e, out') \<Rightarrow> (Inl e, take start out'))"

section \<open>The cursor\<close>

record Cursor =
  cur_buf :: bytes
  cur_pos :: nat

type_synonym 'a reader = "(Cursor, DecodeError, 'a) fallible"

definition cursor_new :: "bytes \<Rightarrow> Cursor" where
  "cursor_new buf = \<lparr>cur_buf = buf, cur_pos = 0\<rparr>"

definition cursor_is_empty :: "Cursor \<Rightarrow> bool" where
  "cursor_is_empty c \<longleftrightarrow> cur_pos c = length (cur_buf c)"

definition cur_take :: "nat \<Rightarrow> bytes reader" where
  "cur_take n c =
     (let end = cur_pos c + n in
      if end > usize_max then (Inl (Corrupt ''section length overflows the payload''), c)
      else if end > length (cur_buf c)
      then (Inl (Corrupt ''section runs past the end of the frame''), c)
      else (Inr (slice (cur_pos c) end (cur_buf c)), c\<lparr>cur_pos := end\<rparr>))"

definition cur_u8 :: "u8 reader" where
  "cur_u8 = seq (cur_take 1) (\<lambda>bs. ok (bs ! 0))"

definition cur_u16 :: "u16 reader" where
  "cur_u16 = seq (cur_take 2) (\<lambda>bs. ok (from_le bs))"

definition cur_u32 :: "u32 reader" where
  "cur_u32 = seq (cur_take 4) (\<lambda>bs. ok (from_le bs))"

definition cur_i64 :: "u64 reader" where
  "cur_i64 = seq (cur_take 8) (\<lambda>bs. ok (from_le bs))"

definition cur_u64 :: "u64 reader" where
  "cur_u64 = seq (cur_take 8) (\<lambda>bs. ok (from_le bs))"

definition cur_utf8 :: "nat \<Rightarrow> rstr reader" where
  "cur_utf8 n =
     seq (cur_take n) (\<lambda>bs.
       if utf8_valid bs then ok bs else fail (Corrupt ''string is not valid UTF-8''))"

definition cur_str16 :: "rstr reader" where
  "cur_str16 = seq cur_u16 (\<lambda>n. cur_utf8 (unat n))"

definition cur_str32 :: "rstr reader" where
  "cur_str32 = seq cur_u32 (\<lambda>n. cur_utf8 (unat n))"

definition cur_value :: "Value reader" where
  "cur_value =
     seq cur_u8 (\<lambda>t.
       if t = tag_NULL then ok VNull
       else if t = tag_BOOL then
         seq cur_u8 (\<lambda>b.
           if b = 0 then ok (VBool False)
           else if b = 1 then ok (VBool True)
           else fail (Corrupt ''bool value is neither 0 nor 1''))
       else if t = tag_I64 then seq cur_i64 (\<lambda>i. ok (VI64 i))
       else if t = tag_F64 then seq (cur_take 8) (\<lambda>bs. ok (VF64 (from_le bs)))
       else if t = tag_STR then seq cur_str32 (\<lambda>s. ok (VStr s))
       else fail (Corrupt ''unknown value tag''))"

definition cur_pair :: "(rstr \<times> rstr) reader" where
  "cur_pair = seq cur_str16 (\<lambda>n. seq cur_str16 (\<lambda>v. ok (n, v)))"

text \<open>\<open>for _ in 0..n { out.push(read()?) }\<close>.\<close>

fun read_n :: "nat \<Rightarrow> 'a reader \<Rightarrow> 'a list reader" where
  "read_n 0 r = ok []"
| "read_n (Suc n) r = seq r (\<lambda>x. seq (read_n n r) (\<lambda>xs. ok (x # xs)))"

section \<open>Frame extent, validation and decoding\<close>

definition frame_extent :: "bytes \<Rightarrow> nat \<Rightarrow> DecodeError + (bytes \<times> nat)" where
  "frame_extent buf max_record_bytes =
     (if length buf < FRAME_HEADER_BYTES
      then Inl (Truncated FRAME_HEADER_BYTES (length buf))
      else
        let len = unat (from_le (take 4 buf) :: u32) in
        if len < MIN_PAYLOAD_BYTES
        then Inl (Corrupt ''length below the smallest possible frame'')
        else if len > max_record_bytes then Inl (Corrupt ''length over max_record_bytes'')
        else
          let frame_len = FRAME_HEADER_BYTES + len in
          if length buf < frame_len then Inl (Truncated frame_len (length buf))
          else Inr (slice FRAME_HEADER_BYTES frame_len buf, frame_len))"

definition frame_payload ::
  "(bytes \<Rightarrow> u32) \<Rightarrow> bytes \<Rightarrow> nat \<Rightarrow> DecodeError + (bytes \<times> nat)" where
  "frame_payload crc buf max_record_bytes =
     rbind (frame_extent buf max_record_bytes) (\<lambda>(payload, frame_len).
       if crc (take 4 buf @ payload) \<noteq> from_le (slice 4 8 buf)
       then Inl (Corrupt ''crc32 mismatch'')
       else Inr (payload, frame_len))"

record Prefix =
  pre_ts :: u64
  pre_epoch :: u32
  pre_series :: rstr
  pre_id :: rstr
  pre_frame_len :: nat

text \<open>The four fixed fields every frame starts with, read in order.\<close>

definition read_fixed :: "(u64 \<times> u32 \<times> rstr \<times> rstr) reader" where
  "read_fixed =
     seq cur_u64 (\<lambda>ts. seq cur_u32 (\<lambda>epoch. seq cur_str16 (\<lambda>series. seq cur_str16 (\<lambda>id.
       ok (ts, epoch, series, id)))))"

definition validate_prefix :: "(bytes \<Rightarrow> u32) \<Rightarrow> bytes \<Rightarrow> nat \<Rightarrow> DecodeError + Prefix" where
  "validate_prefix crc buf max_record_bytes =
     rbind (frame_payload crc buf max_record_bytes) (\<lambda>(payload, frame_len).
       rbind (fst (read_fixed (cursor_new payload))) (\<lambda>(ts, epoch, series, id).
         Inr \<lparr>pre_ts = ts, pre_epoch = epoch, pre_series = series, pre_id = id,
              pre_frame_len = frame_len\<rparr>))"

text \<open>What a successful decode yields: the record, its keys and \<open>extra\<close>, the frame length.\<close>

type_synonym decoded = "RecordRef \<times> Value list \<times> (rstr \<times> rstr) list \<times> nat"

definition read_record :: "nat \<Rightarrow> (RecordRef \<times> Value list \<times> (rstr \<times> rstr) list) reader" where
  "read_record key_count =
     seq read_fixed (\<lambda>(ts, epoch, series, id).
     seq (read_n key_count cur_value) (\<lambda>keys.
     seq cur_u16 (\<lambda>n.
     seq (read_n (unat n) cur_pair) (\<lambda>extra.
     seq cur_str32 (\<lambda>data.
       ok (\<lparr>rec_ts = ts, rec_epoch = epoch, rec_series = series, rec_id = id, rec_data = data\<rparr>,
           keys, extra))))))"

definition decode_payload :: "bytes \<Rightarrow> nat \<Rightarrow> nat \<Rightarrow> DecodeError + decoded" where
  "decode_payload payload frame_len key_count =
     (case read_record key_count (cursor_new payload) of
        (Inl e, _) \<Rightarrow> Inl e
      | (Inr (rec, keys, extra), c) \<Rightarrow>
          if \<not> cursor_is_empty c then Inl (Corrupt ''trailing bytes after data section'')
          else Inr (rec, keys, extra, frame_len))"

definition decode :: "(bytes \<Rightarrow> u32) \<Rightarrow> bytes \<Rightarrow> nat \<Rightarrow> nat \<Rightarrow> DecodeError + decoded" where
  "decode crc buf key_count max_record_bytes =
     rbind (frame_payload crc buf max_record_bytes) (\<lambda>(payload, frame_len).
       decode_payload payload frame_len key_count)"

definition decode_verified :: "bytes \<Rightarrow> nat \<Rightarrow> DecodeError + decoded" where
  "decode_verified buf key_count =
     rbind (frame_extent buf usize_max) (\<lambda>(payload, frame_len).
       decode_payload payload frame_len key_count)"

definition verified_sort_key :: "bytes \<Rightarrow> DecodeError + (u64 \<times> bytes \<times> nat)" where
  "verified_sort_key buf =
     rbind (frame_extent buf usize_max) (\<lambda>(payload, frame_len).
       fst (seq cur_u64 (\<lambda>ts.
            seq cur_u32 (\<lambda>_.
            seq cur_u16 (\<lambda>series_len.
            seq (cur_take (unat series_len)) (\<lambda>_.
            seq cur_u16 (\<lambda>id_len.
            seq (cur_take (unat id_len)) (\<lambda>id.
              ok (ts, id, frame_len))))))) (cursor_new payload)))"

end
