(* ===== verification/Orc_Codec_Laws.thy ===== *)
theory Orc_Codec_Laws
  imports Orc_Codec
begin

text \<open>
  What the codec computes. A pure description of the byte layout (\<open>enc_value\<close>, \<open>payload_of\<close>,
  \<open>frame_of\<close>), that the encoder writes exactly it, that every cursor read consumes exactly the
  bytes the matching writer produced (\<open>reads\<close>) and, conversely, that a successful read could
  only have consumed the writer's bytes (\<open>parses\<close>). The round trips in both directions follow.
\<close>

section \<open>The layout as a pure function\<close>

definition enc_str16 :: "rstr \<Rightarrow> bytes" where
  "enc_str16 s = le16 (of_nat (length s)) @ s"

definition enc_str32 :: "rstr \<Rightarrow> bytes" where
  "enc_str32 s = le32 (of_nat (length s)) @ s"

fun enc_value :: "Value \<Rightarrow> bytes" where
  "enc_value VNull = [tag_NULL]"
| "enc_value (VBool b) = [tag_BOOL, if b then 1 else 0]"
| "enc_value (VI64 i) = tag_I64 # le64 i"
| "enc_value (VF64 f) = tag_F64 # le64 f"
| "enc_value (VStr s) = tag_STR # enc_str32 s"

definition enc_pair :: "rstr \<times> rstr \<Rightarrow> bytes" where
  "enc_pair p = enc_str16 (fst p) @ enc_str16 (snd p)"

definition enc_extra :: "(rstr \<times> rstr) list \<Rightarrow> bytes" where
  "enc_extra ex = le16 (of_nat (length ex)) @ concat (map enc_pair ex)"

text \<open>The canonical form of an \<open>extra\<close> list: sorted, first value kept per name.\<close>

definition canonical :: "(rstr \<times> rstr) list \<Rightarrow> (rstr \<times> rstr) list" where
  "canonical ex = dedup_key fst (sort ex)"

definition enc_fixed :: "u64 \<Rightarrow> u32 \<Rightarrow> rstr \<Rightarrow> rstr \<Rightarrow> bytes" where
  "enc_fixed ts epoch series ident =
     le64 ts @ le32 epoch @ enc_str16 series @ enc_str16 ident"

definition payload_of :: "rstr \<Rightarrow> u32 \<Rightarrow> Row \<Rightarrow> bytes" where
  "payload_of series epoch row =
     enc_fixed (row_ts row) epoch series (row_id row) @ concat (map enc_value (row_keys row)) @
     enc_extra (canonical (row_extra row)) @ enc_str32 (row_data row)"

definition seal_frame :: "(bytes \<Rightarrow> u32) \<Rightarrow> bytes \<Rightarrow> bytes" where
  "seal_frame crc p = (let len = le32 (of_nat (length p)) in len @ le32 (crc (len @ p)) @ p)"

definition frame_of :: "(bytes \<Rightarrow> u32) \<Rightarrow> rstr \<Rightarrow> u32 \<Rightarrow> Row \<Rightarrow> bytes" where
  "frame_of crc series epoch row = seal_frame crc (payload_of series epoch row)"

text \<open>The bounds the layout's length fields impose.\<close>

definition str16_fits :: "rstr \<Rightarrow> bool" where "str16_fits s \<longleftrightarrow> length s \<le> u16_max"
definition str32_fits :: "rstr \<Rightarrow> bool" where "str32_fits s \<longleftrightarrow> length s \<le> u32_max"

fun value_fits :: "Value \<Rightarrow> bool" where
  "value_fits (VStr s) = str32_fits s"
| "value_fits _ = True"

definition pair_fits :: "rstr \<times> rstr \<Rightarrow> bool" where
  "pair_fits p \<longleftrightarrow> str16_fits (fst p) \<and> str16_fits (snd p)"

definition row_fits :: "rstr \<Rightarrow> Row \<Rightarrow> bool" where
  "row_fits series row \<longleftrightarrow>
     str16_fits series \<and> str16_fits (row_id row) \<and> list_all value_fits (row_keys row) \<and>
     length (row_extra row) \<le> u16_max \<and> list_all pair_fits (canonical (row_extra row)) \<and>
     str32_fits (row_data row) \<and> length (payload_of series 0 row) \<le> u32_max"

lemmas fits_defs = str16_fits_def str32_fits_def pair_fits_def u16_max_def u32_max_def

section \<open>Canonical order\<close>

lemma canonical_sorted: "sorted_wrt (<) (map fst (canonical ex))"
proof -
  have "sorted (map fst (sort ex))"
  proof -
    have "sorted_wrt (\<le>) (sort ex)" by simp
    then have "sorted_wrt (\<lambda>a b. fst a \<le> fst b) (sort ex)"
      by (rule sorted_wrt_mono_rel [rotated]) (auto simp: less_eq_prod_def)
    then show ?thesis by (simp add: sorted_wrt_map)
  qed
  then show ?thesis unfolding canonical_def by (rule dedup_key_strict)
qed

lemma is_canonical_iff: "is_canonical ex \<longleftrightarrow> sorted_wrt (<) (map fst ex)"
proof -
  have "sorted_wrt (<) (map fst ex) \<longleftrightarrow>
      (\<forall>i. Suc i < length (map fst ex) \<longrightarrow> map fst ex ! i < map fst ex ! Suc i)"
    by (rule sorted_wrt_iff_nth_Suc_transp) (simp add: transp_on_less)
  also have "\<dots> \<longleftrightarrow> is_canonical ex"
    by (auto simp: is_canonical_def less_diff_conv)
  finally show ?thesis by simp
qed

lemma is_canonical_sort:
  assumes "is_canonical ex" shows "sort ex = ex"
proof (rule sort_key_id_if_sorted)
  from assms have "sorted_wrt (\<lambda>a b. fst a < fst b) ex"
    by (simp add: is_canonical_iff sorted_wrt_map)
  then have "sorted ex"
    by (rule sorted_wrt_mono_rel [rotated]) (auto simp: less_eq_prod_def)
  then show "sorted (map (\<lambda>x. x) ex)" by simp
qed

lemma canonical_id: "is_canonical ex \<Longrightarrow> canonical ex = ex"
  by (simp add: canonical_def is_canonical_sort dedup_key_id is_canonical_iff)

lemma canonical_canonical: "is_canonical (canonical ex)"
  by (simp add: is_canonical_iff canonical_sorted)

lemma canonical_idem [simp]: "canonical (canonical ex) = canonical ex"
  by (rule canonical_id) (rule canonical_canonical)

lemma set_canonical: "set (canonical ex) \<subseteq> set ex"
  using set_dedup_by [of _ "sort ex"] by (auto simp: canonical_def)

lemma length_canonical: "length (canonical ex) \<le> length ex"
  using length_dedup_by [of _ "sort ex"] by (simp add: canonical_def)

lemma extra_order_canonical: "map (\<lambda>i. ex ! i) (extra_order ex) = canonical ex"
proof -
  have "map (\<lambda>i. ex ! i) (sort_key (\<lambda>i. ex ! i) [0..<length ex]) = sort ex"
    by (simp add: sort_key_map map_nth)
  then show ?thesis
    by (simp add: extra_order_def canonical_def
        dedup_by_map [of "\<lambda>a b. fst a = fst b" "\<lambda>i. ex ! i", symmetric])
qed

section \<open>The encoder writes the layout\<close>

text \<open>An operation that appends \<open>w\<close> when \<open>fits\<close>, and otherwise fails having appended only.\<close>

definition writes :: "(bytes, Error, unit) fallible \<Rightarrow> bool \<Rightarrow> bytes \<Rightarrow> bool" where
  "writes m fits w \<longleftrightarrow>
     (\<forall>out. if fits then m out = (Inr (), out @ w)
            else \<exists>size lim junk. m out = (Inl (RecordTooLarge size lim), out @ junk) \<and> lim < size)"

lemma writesI:
  assumes "\<And>out. fits \<Longrightarrow> m out = (Inr (), out @ w)"
    and "\<And>out. \<not> fits \<Longrightarrow>
      \<exists>size lim junk. m out = (Inl (RecordTooLarge size lim), out @ junk) \<and> lim < size"
  shows "writes m fits w"
  using assms by (auto simp: writes_def)

lemma writes_fails:
  assumes "writes m fits w" and "\<not> fits"
  obtains size lim junk where "m out = (Inl (RecordTooLarge size lim), out @ junk)" and "lim < size"
  using assms that unfolding writes_def by (auto dest!: spec [of _ out])

lemma writes_extend_bytes: "writes (extend_bytes w) True w"
  by (simp add: writes_def extend_bytes_def)

lemma writes_ok: "writes (ok ()) True []"
  by (simp add: writes_def)

lemma writes_seq:
  assumes a: "writes m p v" and b: "writes (f ()) q w"
  shows "writes (seq m f) (p \<and> q) (v @ w)"
proof (rule writesI)
  fix out assume "p \<and> q"
  with a b show "seq m f out = (Inr (), out @ v @ w)" by (simp add: writes_def)
next
  fix out assume n: "\<not> (p \<and> q)"
  show "\<exists>size lim junk. seq m f out = (Inl (RecordTooLarge size lim), out @ junk) \<and> lim < size"
  proof (cases p)
    case True
    with n a have "m out = (Inr (), out @ v)" by (simp add: writes_def)
    moreover from True n have "\<not> q" by simp
    with b obtain size lim junk where
      "f () (out @ v) = (Inl (RecordTooLarge size lim), (out @ v) @ junk)" and "lim < size"
      by (rule writes_fails)
    ultimately show ?thesis
      by (intro exI [of _ size] exI [of _ lim] exI [of _ "v @ junk"]) simp
  next
    case False
    with a obtain size lim junk where
      "m out = (Inl (RecordTooLarge size lim), out @ junk)" and "lim < size"
      by (rule writes_fails)
    then show ?thesis by auto
  qed
qed

lemma writes_cong_fits: "writes m p w \<Longrightarrow> p = q \<Longrightarrow> writes m q w"
  by simp

lemma writes_for_each:
  assumes "\<And>x. x \<in> set xs \<Longrightarrow> writes (f x) (p x) (w x)"
  shows "writes (for_each f xs) (list_all p xs) (concat (map w xs))"
  using assms
proof (induction xs)
  case Nil
  then show ?case by (simp add: writes_def)
next
  case (Cons x xs)
  have "for_each f (x # xs) = seq (f x) (\<lambda>_. for_each f xs)"
    by (rule ext) (auto simp: seq_def split: prod.splits sum.splits)
  then show ?case using Cons by (auto intro: writes_seq)
qed

lemma writes_put_str16: "writes (put_str16 s) (str16_fits s) (enc_str16 s)"
  by (rule writesI) (auto simp: put_str16_def str16_fits_def enc_str16_def extend_bytes_def)

lemma writes_put_str32: "writes (put_str32 s) (str32_fits s) (enc_str32 s)"
  by (rule writesI) (auto simp: put_str32_def str32_fits_def enc_str32_def extend_bytes_def)

lemma writes_put_value: "writes (put_value v) (value_fits v) (enc_value v)"
proof (cases v)
  case (VStr s)
  have "writes (put_value v) (True \<and> str32_fits s) ([tag_STR] @ enc_str32 s)"
    unfolding put_value_def VStr by (rule writes_seq) (simp_all add: writes_extend_bytes writes_put_str32)
  then show ?thesis by (simp add: VStr)
qed (auto simp: writes_def put_value_def extend_bytes_def)

lemma writes_put_pair: "writes (put_pair p) (pair_fits p) (enc_pair p)"
  unfolding put_pair_def pair_fits_def enc_pair_def
  by (rule writes_seq) (rule writes_put_str16)+

lemma writes_put_extra:
  "writes (put_extra ex) (length ex \<le> u16_max \<and> list_all pair_fits (canonical ex))
     (enc_extra (canonical ex))"
proof (cases "length ex \<le> u16_max")
  case False
  then show ?thesis by (intro writesI) (auto simp: put_extra_def)
next
  case True
  have body: "writes (seq (extend_bytes (le16 (of_nat (length (canonical ex)))))
      (\<lambda>_. for_each put_pair (canonical ex)))
      (True \<and> list_all pair_fits (canonical ex)) (enc_extra (canonical ex))"
    unfolding enc_extra_def
    by (intro writes_seq writes_extend_bytes writes_for_each writes_put_pair)
  show ?thesis
  proof (cases "is_canonical ex")
    case canon: True
    with True body show ?thesis by (simp add: put_extra_def canonical_id)
  next
    case canon: False
    have "for_each (\<lambda>i. put_pair (ex ! i)) order out = for_each put_pair (map ((!) ex) order) out"
      for order out
      by (induction order arbitrary: out) (auto split: prod.splits sum.splits)
    then have "for_each (\<lambda>i. put_pair (ex ! i)) (extra_order ex) = for_each put_pair (canonical ex)"
      by (auto simp: extra_order_canonical [symmetric] fun_eq_iff)
    moreover have "length (extra_order ex) = length (canonical ex)"
      by (metis extra_order_canonical length_map)
    ultimately show ?thesis using True canon body by (simp add: put_extra_def Let_def)
  qed
qed

text \<open>Everything \<open>encode_inner\<close> writes before it backfills length and CRC.\<close>

definition encode_body :: "rstr \<Rightarrow> u32 \<Rightarrow> Row \<Rightarrow> (bytes, Error, unit) fallible" where
  "encode_body series epoch row =
     seq (extend_bytes (replicate FRAME_HEADER_BYTES 0)) (\<lambda>_.
     seq (extend_bytes (le64 (row_ts row))) (\<lambda>_.
     seq (extend_bytes (le32 epoch)) (\<lambda>_.
     seq (put_str16 series) (\<lambda>_.
     seq (put_str16 (row_id row)) (\<lambda>_.
     seq (for_each put_value (row_keys row)) (\<lambda>_.
     seq (put_extra (row_extra row)) (\<lambda>_.
     put_str32 (row_data row))))))))"

definition sections_fit :: "rstr \<Rightarrow> Row \<Rightarrow> bool" where
  "sections_fit series row \<longleftrightarrow>
     str16_fits series \<and> str16_fits (row_id row) \<and> list_all value_fits (row_keys row) \<and>
     (length (row_extra row) \<le> u16_max \<and> list_all pair_fits (canonical (row_extra row))) \<and>
     str32_fits (row_data row)"

lemma writes_encode_body:
  "writes (encode_body series epoch row) (sections_fit series row)
     (replicate FRAME_HEADER_BYTES 0 @ payload_of series epoch row)"
proof -
  have "writes (encode_body series epoch row) (True \<and> True \<and> True \<and> sections_fit series row)
     (replicate FRAME_HEADER_BYTES 0 @ payload_of series epoch row)"
    unfolding encode_body_def sections_fit_def payload_of_def enc_fixed_def append_assoc
    by (intro writes_seq writes_extend_bytes writes_put_str16 writes_put_str32 writes_put_extra
        writes_for_each writes_put_value)
  then show ?thesis by simp
qed

lemma encode_inner_split:
  "encode_inner crc series epoch row out =
     seq (encode_body series epoch row) (\<lambda>_. backfill crc (length out)) out"
  by (simp add: encode_inner_def encode_body_def seq_assoc)

lemma backfill_frame:
  assumes "length p \<le> u32_max"
  shows "backfill crc (length out) (out @ replicate FRAME_HEADER_BYTES 0 @ p) =
     (Inr (), out @ seal_frame crc p)"
proof -
  have hdr: "replicate FRAME_HEADER_BYTES (0 :: u8) = replicate 4 0 @ replicate 4 0"
    by (simp add: FRAME_HEADER_BYTES_def replicate_add [symmetric])
  show ?thesis
    using assms
    by (simp add: backfill_def overwrite_def slice_def seal_frame_def Let_def hdr FRAME_HEADER_BYTES_def)
qed

lemma backfill_too_long:
  assumes "\<not> length p \<le> u32_max"
  shows "backfill crc (length out) (out @ replicate FRAME_HEADER_BYTES 0 @ p) =
     (Inl (RecordTooLarge (length p) u32_max), out @ replicate FRAME_HEADER_BYTES 0 @ p)"
  using assms by (simp add: backfill_def)

lemma length_payload_epoch: "length (payload_of series e row) = length (payload_of series 0 row)"
  by (simp add: payload_of_def enc_fixed_def)

lemma row_fits_iff:
  "row_fits series row \<longleftrightarrow>
     sections_fit series row \<and> length (payload_of series epoch row) \<le> u32_max"
  by (auto simp: row_fits_def sections_fit_def length_payload_epoch [of _ epoch])

lemma encode_fits:
  assumes "row_fits series row"
  shows "encode crc series epoch row out = (Inr (), out @ frame_of crc series epoch row)"
  using assms writes_encode_body [of series epoch row] backfill_frame
  by (simp add: encode_def encode_inner_split frame_of_def row_fits_iff [of _ _ epoch] writes_def)

lemma encode_oversize:
  assumes "\<not> row_fits series row"
  shows "\<exists>size lim. encode crc series epoch row out = (Inl (RecordTooLarge size lim), out) \<and> lim < size"
proof (cases "sections_fit series row")
  case True
  with assms have "\<not> length (payload_of series epoch row) \<le> u32_max"
    by (simp add: row_fits_iff [of _ _ epoch])
  with True show ?thesis
    using writes_encode_body [of series epoch row] backfill_too_long
    by (simp add: encode_def encode_inner_split writes_def not_le)
next
  case False
  with writes_encode_body obtain size lim junk where
    "encode_body series epoch row out = (Inl (RecordTooLarge size lim), out @ junk)" "lim < size"
    by (rule writes_fails)
  then show ?thesis by (simp add: encode_def encode_inner_split)
qed

section \<open>Reading consumes what was written\<close>

text \<open>A cursor inside its buffer with \<open>rest\<close> still to be read.\<close>

definition cursor_at :: "Cursor \<Rightarrow> bytes \<Rightarrow> bool" where
  "cursor_at c rest \<longleftrightarrow>
     cur_pos c \<le> length (cur_buf c) \<and> length (cur_buf c) \<le> usize_max \<and>
     drop (cur_pos c) (cur_buf c) = rest"

definition advance :: "Cursor \<Rightarrow> nat \<Rightarrow> Cursor" where
  "advance c n = c\<lparr>cur_pos := cur_pos c + n\<rparr>"

lemma cursor_at_new: "length buf \<le> usize_max \<Longrightarrow> cursor_at (cursor_new buf) buf"
  by (simp add: cursor_at_def cursor_new_def)

lemma cursor_at_advance: "cursor_at c (xs @ rest) \<Longrightarrow> cursor_at (advance c (length xs)) rest"
proof -
  assume c: "cursor_at c (xs @ rest)"
  then have "length xs + length rest = length (cur_buf c) - cur_pos c"
    by (auto simp: cursor_at_def dest: arg_cong [of _ _ length])
  moreover from c have "drop (length xs) (drop (cur_pos c) (cur_buf c)) = rest"
    by (simp add: cursor_at_def)
  ultimately show ?thesis using c by (auto simp: cursor_at_def advance_def add.commute)
qed

lemma advance_advance [simp]: "advance (advance c m) n = advance c (m + n)"
  by (simp add: advance_def)

lemma advance_0 [simp]: "advance c 0 = c"
  by (simp add: advance_def)

lemma cur_take_at:
  assumes "cursor_at c (xs @ rest)" and "length xs = n"
  shows "cur_take n c = (Inr xs, advance c n)"
proof -
  have len: "cur_pos c + n \<le> length (cur_buf c)"
    using assms by (auto simp: cursor_at_def dest: arg_cong [of _ _ length])
  then have "cur_pos c + n \<le> usize_max" using assms by (simp add: cursor_at_def)
  moreover have "slice (cur_pos c) (cur_pos c + n) (cur_buf c) = xs"
    using assms by (auto simp: slice_def cursor_at_def)
  ultimately show ?thesis using len by (simp add: cur_take_def advance_def)
qed

text \<open>\<open>reads m xs v\<close>: positioned before \<open>xs\<close>, \<open>m\<close> yields \<open>v\<close> and has consumed exactly \<open>xs\<close>.\<close>

definition reads :: "'a reader \<Rightarrow> bytes \<Rightarrow> 'a \<Rightarrow> bool" where
  "reads m xs v \<longleftrightarrow>
     (\<forall>c rest. cursor_at c (xs @ rest) \<longrightarrow> m c = (Inr v, advance c (length xs)))"

lemma reads_seq: "reads m xs v \<Longrightarrow> reads (f v) ys w \<Longrightarrow> reads (seq m f) (xs @ ys) w"
proof -
  assume m: "reads m xs v" and f: "reads (f v) ys w"
  have "seq m f c = (Inr w, advance c (length (xs @ ys)))" if "cursor_at c (xs @ ys @ rest)" for c rest
  proof -
    from m that have "m c = (Inr v, advance c (length xs))" by (auto simp: reads_def)
    moreover from f cursor_at_advance [OF that]
    have "f v (advance c (length xs)) = (Inr w, advance (advance c (length xs)) (length ys))"
      by (auto simp: reads_def)
    ultimately show ?thesis by simp
  qed
  then show ?thesis by (auto simp: reads_def)
qed

lemma reads_ok: "reads (ok v) [] v"
  by (simp add: reads_def)

lemma reads_seq_ok: "reads m xs v \<Longrightarrow> f v = ok w \<Longrightarrow> reads (seq m f) xs w"
  using reads_seq [of m xs v f "[]" w] reads_ok [of w] by simp

lemma reads_take: "length xs = n \<Longrightarrow> reads (cur_take n) xs xs"
  by (simp add: reads_def cur_take_at)

lemma reads_u8: "reads cur_u8 [b] b"
  unfolding cur_u8_def by (rule reads_seq_ok [OF reads_take]) simp_all

lemma reads_u16: "reads cur_u16 (le16 w) w"
  unfolding cur_u16_def by (rule reads_seq_ok [OF reads_take]) simp_all

lemma reads_u32: "reads cur_u32 (le32 w) w"
  unfolding cur_u32_def by (rule reads_seq_ok [OF reads_take]) simp_all

lemma reads_u64: "reads cur_u64 (le64 w) w"
  unfolding cur_u64_def by (rule reads_seq_ok [OF reads_take]) simp_all

lemma reads_i64: "reads cur_i64 (le64 w) w"
  unfolding cur_i64_def by (rule reads_seq_ok [OF reads_take]) simp_all

lemma reads_utf8: "utf8_valid s \<Longrightarrow> reads (cur_utf8 (length s)) s s"
  unfolding cur_utf8_def by (rule reads_seq_ok [OF reads_take]) simp_all

lemma unat_of_nat_u16: "n \<le> u16_max \<Longrightarrow> unat (of_nat n :: u16) = n"
  by (simp add: u16_max_def unat_of_nat)

lemma unat_of_nat_u32: "n \<le> u32_max \<Longrightarrow> unat (of_nat n :: u32) = n"
  by (simp add: u32_max_def unat_of_nat)

lemma reads_str16: "str16_fits s \<Longrightarrow> utf8_valid s \<Longrightarrow> reads cur_str16 (enc_str16 s) s"
  unfolding cur_str16_def enc_str16_def str16_fits_def
  by (rule reads_seq [OF reads_u16]) (simp add: unat_of_nat_u16 reads_utf8)

lemma reads_str32: "str32_fits s \<Longrightarrow> utf8_valid s \<Longrightarrow> reads cur_str32 (enc_str32 s) s"
  unfolding cur_str32_def enc_str32_def str32_fits_def
  by (rule reads_seq [OF reads_u32]) (simp add: unat_of_nat_u32 reads_utf8)

lemma reads_value: "value_fits v \<Longrightarrow> value_utf8 v \<Longrightarrow> reads cur_value (enc_value v) v"
proof -
  assume fits: "value_fits v" "value_utf8 v"
  have tail: "reads (case v of VNull \<Rightarrow> ok VNull
      | VBool _ \<Rightarrow> seq cur_u8 (\<lambda>b. if b = 0 then ok (VBool False) else if b = 1 then ok (VBool True)
          else fail (Corrupt ''bool value is neither 0 nor 1''))
      | VI64 _ \<Rightarrow> seq cur_i64 (\<lambda>i. ok (VI64 i))
      | VF64 _ \<Rightarrow> seq (cur_take 8) (\<lambda>bs. ok (VF64 (from_le bs)))
      | VStr _ \<Rightarrow> seq cur_str32 (\<lambda>s. ok (VStr s))) (tl (enc_value v)) v"
    using fits
    by (cases v)
      (auto simp: reads_ok intro!: reads_seq_ok [OF reads_u8] reads_seq_ok [OF reads_i64]
        reads_seq_ok [OF reads_take] reads_seq_ok [OF reads_str32])
  have "reads cur_value ([value_tag v] @ tl (enc_value v)) v"
    unfolding cur_value_def
    by (rule reads_seq [OF reads_u8]) (use tail in \<open>cases v; simp add: tag_defs\<close>)
  then show ?thesis by (cases v) simp_all
qed

lemma reads_read_n:
  assumes "\<And>x. x \<in> set xs \<Longrightarrow> reads r (enc x) x"
  shows "reads (read_n (length xs) r) (concat (map enc xs)) xs"
  using assms
proof (induction xs)
  case Nil
  then show ?case by (simp add: reads_def)
next
  case (Cons x xs)
  then have "reads r (enc x) x" and "reads (read_n (length xs) r) (concat (map enc xs)) xs"
    by simp_all
  then show ?case by (auto intro: reads_seq reads_seq_ok)
qed

lemma reads_pair:
  "pair_fits p \<Longrightarrow> utf8_valid (fst p) \<and> utf8_valid (snd p) \<Longrightarrow> reads cur_pair (enc_pair p) p"
  unfolding cur_pair_def enc_pair_def pair_fits_def
  by (auto intro!: reads_seq [OF reads_str16] reads_seq_ok [OF reads_str16])

lemma reads_fixed:
  assumes "str16_fits series" "utf8_valid series" "str16_fits i" "utf8_valid i"
  shows "reads read_fixed (enc_fixed ts epoch series i) (ts, epoch, series, i)"
  unfolding read_fixed_def enc_fixed_def
  by (intro reads_seq [OF reads_u64] reads_seq [OF reads_u32] reads_seq [OF reads_str16]
      reads_seq_ok [OF reads_str16]) (use assms in auto)

lemma reads_record:
  assumes fits: "row_fits series row" and utf8: "utf8_valid series" "row_utf8 row"
  shows "reads (read_record (length (row_keys row))) (payload_of series epoch row)
     (\<lparr>rec_ts = row_ts row, rec_epoch = epoch, rec_series = series, rec_id = row_id row,
       rec_data = row_data row\<rparr>, row_keys row, canonical (row_extra row))"
proof -
  let ?ex = "canonical (row_extra row)"
  have keys: "reads (read_n (length (row_keys row)) cur_value)
      (concat (map enc_value (row_keys row))) (row_keys row)"
    using fits utf8
    by (intro reads_read_n reads_value) (auto simp: row_fits_def row_utf8_def list_all_iff)
  have "length ?ex \<le> u16_max"
    using fits length_canonical [of "row_extra row"] by (simp add: row_fits_def)
  then have n: "unat (of_nat (length ?ex) :: u16) = length ?ex" by (rule unat_of_nat_u16)
  have pairs: "reads (read_n (length ?ex) cur_pair) (concat (map enc_pair ?ex)) ?ex"
    using fits utf8 set_canonical [of "row_extra row"]
    by (intro reads_read_n reads_pair) (auto simp: row_fits_def row_utf8_def list_all_iff split_beta)
  show ?thesis
    unfolding read_record_def payload_of_def enc_extra_def append_assoc
    by (rule reads_seq [OF reads_fixed])
      (use fits utf8 n in \<open>auto simp: row_fits_def row_utf8_def
        intro!: reads_seq [OF keys] reads_seq [OF reads_u16] reads_seq [OF pairs]
          reads_seq_ok [OF reads_str32]\<close>)
qed

section \<open>Frames\<close>

lemma frame_extent_seal:
  assumes "MIN_PAYLOAD_BYTES \<le> length p" "length p \<le> u32_max" "length p \<le> lim"
  shows "frame_extent (seal_frame crc p @ rest) lim = Inr (p, FRAME_HEADER_BYTES + length p)"
  using assms
  by (simp add: frame_extent_def seal_frame_def Let_def slice_def FRAME_HEADER_BYTES_def
      unat_of_nat_u32)

lemma frame_payload_seal:
  assumes "MIN_PAYLOAD_BYTES \<le> length p" "length p \<le> u32_max" "length p \<le> lim"
  shows "frame_payload crc (seal_frame crc p @ rest) lim = Inr (p, FRAME_HEADER_BYTES + length p)"
proof -
  have "slice 4 8 (seal_frame crc p @ rest) = le32 (crc (le32 (of_nat (length p)) @ p))"
    and "take 4 (seal_frame crc p @ rest) = le32 (of_nat (length p))"
    by (simp_all add: seal_frame_def slice_def Let_def)
  then show ?thesis using assms by (simp add: frame_payload_def frame_extent_seal)
qed

lemma length_seal_frame [simp]: "length (seal_frame crc p) = FRAME_HEADER_BYTES + length p"
  by (simp add: seal_frame_def Let_def FRAME_HEADER_BYTES_def)

lemma length_payload_min: "MIN_PAYLOAD_BYTES \<le> length (payload_of series epoch row)"
  by (simp add: payload_of_def enc_fixed_def enc_str16_def enc_str32_def enc_extra_def
      MIN_PAYLOAD_BYTES_def)

lemma row_fits_payload: "row_fits series row \<Longrightarrow> length (payload_of series epoch row) \<le> u32_max"
  by (simp add: row_fits_iff [of _ _ epoch])

lemma u32_le_usize: "n \<le> u32_max \<Longrightarrow> n \<le> usize_max"
  by (simp add: u32_max_def usize_max_def)

lemma decode_payload_of:
  assumes fits: "row_fits series row" and utf8: "utf8_valid series" "row_utf8 row"
  shows "decode_payload (payload_of series epoch row) n (length (row_keys row)) =
     Inr (\<lparr>rec_ts = row_ts row, rec_epoch = epoch, rec_series = series, rec_id = row_id row,
       rec_data = row_data row\<rparr>, row_keys row, canonical (row_extra row), n)"
proof -
  let ?p = "payload_of series epoch row"
  have "cursor_at (cursor_new ?p) (?p @ [])"
    using row_fits_payload [OF fits] by (simp add: cursor_at_new u32_le_usize)
  with reads_record [OF fits utf8, of epoch]
  have "read_record (length (row_keys row)) (cursor_new ?p) =
      (Inr (\<lparr>rec_ts = row_ts row, rec_epoch = epoch, rec_series = series, rec_id = row_id row,
       rec_data = row_data row\<rparr>, row_keys row, canonical (row_extra row)),
       advance (cursor_new ?p) (length ?p))"
    unfolding reads_def by blast
  then show ?thesis
    by (simp add: decode_payload_def cursor_is_empty_def advance_def cursor_new_def)
qed

lemma decode_frame_of:
  assumes "row_fits series row" "utf8_valid series" "row_utf8 row"
    and "length (payload_of series epoch row) \<le> lim"
  shows "decode crc (frame_of crc series epoch row @ rest) (length (row_keys row)) lim =
     Inr (\<lparr>rec_ts = row_ts row, rec_epoch = epoch, rec_series = series, rec_id = row_id row,
       rec_data = row_data row\<rparr>, row_keys row, canonical (row_extra row),
       length (frame_of crc series epoch row))"
  using assms length_payload_min [of series epoch row] row_fits_payload [of series row epoch]
  by (simp add: decode_def frame_of_def frame_payload_seal decode_payload_of)

lemma validate_prefix_frame_of:
  assumes fits: "row_fits series row" and utf8: "utf8_valid series" "row_utf8 row"
    and lim: "length (payload_of series epoch row) \<le> lim"
  shows "validate_prefix crc (frame_of crc series epoch row @ rest) lim =
     Inr \<lparr>pre_ts = row_ts row, pre_epoch = epoch, pre_series = series, pre_id = row_id row,
          pre_frame_len = length (frame_of crc series epoch row)\<rparr>"
proof -
  let ?p = "payload_of series epoch row"
  let ?f = "enc_fixed (row_ts row) epoch series (row_id row)"
  obtain tl where tl: "?p = ?f @ tl" by (auto simp: payload_of_def)
  have "cursor_at (cursor_new ?p) (?f @ tl)"
    unfolding tl [symmetric] using row_fits_payload [OF fits]
    by (simp add: cursor_at_new u32_le_usize)
  moreover have "reads read_fixed ?f (row_ts row, epoch, series, row_id row)"
    using fits utf8 by (intro reads_fixed) (auto simp: row_fits_def row_utf8_def)
  ultimately have "fst (read_fixed (cursor_new ?p)) = Inr (row_ts row, epoch, series, row_id row)"
    unfolding reads_def by fastforce
  then show ?thesis
    using lim length_payload_min [of series epoch row] row_fits_payload [OF fits, of epoch]
    by (simp add: validate_prefix_def frame_of_def frame_payload_seal)
qed

lemma frame_extent_prefix:
  assumes "strict_prefix q (seal_frame crc p)"
    and "MIN_PAYLOAD_BYTES \<le> length p" "length p \<le> u32_max" "length p \<le> lim"
  shows "\<exists>needed. frame_extent q lim = Inl (Truncated needed (length q)) \<and> length q < needed"
proof (cases "length q < FRAME_HEADER_BYTES")
  case True
  then show ?thesis by (simp add: frame_extent_def)
next
  case False
  from assms(1) obtain z where z: "seal_frame crc p = q @ z" and "z \<noteq> []"
    by (auto elim: strict_prefixE')
  then have short: "length q < FRAME_HEADER_BYTES + length p"
    by (metis append_eq_append_conv length_append length_greater_0_conv length_seal_frame
        less_add_same_cancel1)
  have "take 4 q = take 4 (seal_frame crc p)" using z False by (simp add: FRAME_HEADER_BYTES_def)
  then have "take 4 q = le32 (of_nat (length p))" by (simp add: seal_frame_def Let_def)
  then show ?thesis
    using False short assms by (simp add: frame_extent_def unat_of_nat_u32)
qed

section \<open>A successful read could only have seen the writer's bytes\<close>

text \<open>
  \<open>yields m R\<close>: whenever \<open>m\<close> returns a value \<open>v\<close>, it consumed some bytes \<open>xs\<close> of the buffer
  with \<open>R v xs\<close>, and nothing else changed.
\<close>

definition yields :: "'a reader \<Rightarrow> ('a \<Rightarrow> bytes \<Rightarrow> bool) \<Rightarrow> bool" where
  "yields m R \<longleftrightarrow>
     (\<forall>c v c'. m c = (Inr v, c') \<longrightarrow>
        (\<exists>xs. R v xs \<and> prefix xs (drop (cur_pos c) (cur_buf c)) \<and> c' = advance c (length xs)))"

lemma yieldsD:
  assumes "yields m R" and "m c = (Inr v, c')"
  obtains xs where "R v xs" and "prefix xs (drop (cur_pos c) (cur_buf c))"
    and "c' = advance c (length xs)"
  using assms unfolding yields_def by blast

lemma yields_mono: "yields m R \<Longrightarrow> (\<And>v xs. R v xs \<Longrightarrow> S v xs) \<Longrightarrow> yields m S"
  unfolding yields_def by blast

lemma yields_ok: "R v [] \<Longrightarrow> yields (ok v) R"
  by (auto simp: yields_def intro!: exI [of _ "[]"])

lemma yields_fail: "yields (fail e) R"
  by (simp add: yields_def)

lemma yields_seq:
  assumes m: "yields m R" and f: "\<And>v xs. R v xs \<Longrightarrow> yields (f v) (\<lambda>w ys. S w (xs @ ys))"
  shows "yields (seq m f) S"
  unfolding yields_def
proof (intro allI impI)
  fix c w c'
  assume "seq m f c = (Inr w, c')"
  then obtain v c1 where mc: "m c = (Inr v, c1)" and fc: "f v c1 = (Inr w, c')"
    by (auto simp: seq_eq_Inr)
  from m mc obtain xs where xs: "R v xs" "prefix xs (drop (cur_pos c) (cur_buf c))"
    and c1: "c1 = advance c (length xs)" by (rule yieldsD)
  from f [OF xs(1)] fc obtain ys where ys: "S w (xs @ ys)"
    "prefix ys (drop (cur_pos c1) (cur_buf c1))" and c': "c' = advance c1 (length ys)"
    by (rule yieldsD)
  from xs(2) obtain r where r: "drop (cur_pos c) (cur_buf c) = xs @ r" by (auto elim: prefixE)
  have "drop (cur_pos c1) (cur_buf c1) = drop (length xs) (drop (cur_pos c) (cur_buf c))"
    by (simp add: c1 advance_def add.commute)
  with ys(2) r have "prefix (xs @ ys) (drop (cur_pos c) (cur_buf c))" by simp
  with ys(1) c1 c' show "\<exists>xs. S w xs \<and> prefix xs (drop (cur_pos c) (cur_buf c)) \<and>
      c' = advance c (length xs)"
    by (intro exI [of _ "xs @ ys"]) simp
qed

lemma yields_take: "yields (cur_take n) (\<lambda>v xs. v = xs \<and> length xs = n)"
  by (auto simp: yields_def cur_take_def slice_def advance_def Let_def take_is_prefix split: if_splits)

lemma yields_u8: "yields cur_u8 (\<lambda>v xs. xs = [v])"
  unfolding cur_u8_def
  by (rule yields_seq [OF yields_take], rule yields_ok) (auto simp: length_Suc_conv)

lemma yields_u16: "yields cur_u16 (\<lambda>v xs. xs = le16 v)"
  unfolding cur_u16_def by (rule yields_seq [OF yields_take], rule yields_ok) auto

lemma yields_u32: "yields cur_u32 (\<lambda>v xs. xs = le32 v)"
  unfolding cur_u32_def by (rule yields_seq [OF yields_take], rule yields_ok) auto

lemma yields_u64: "yields cur_u64 (\<lambda>v xs. xs = le64 v)"
  unfolding cur_u64_def by (rule yields_seq [OF yields_take], rule yields_ok) auto

lemma yields_i64: "yields cur_i64 (\<lambda>v xs. xs = le64 v)"
  unfolding cur_i64_def by (rule yields_seq [OF yields_take], rule yields_ok) auto

lemma yields_utf8: "yields (cur_utf8 n) (\<lambda>v xs. v = xs \<and> length xs = n \<and> utf8_valid v)"
  unfolding cur_utf8_def
  by (rule yields_seq [OF yields_take]) (auto intro: yields_ok yields_fail)

lemma unat_le_max: "unat (n :: u16) \<le> u16_max" "unat (k :: u32) \<le> u32_max"
  using unat_less_pow [of n] unat_less_pow [of k] by (simp_all add: u16_max_def u32_max_def)

lemma yields_str16:
  "yields cur_str16 (\<lambda>s xs. xs = enc_str16 s \<and> str16_fits s \<and> utf8_valid s)"
  unfolding cur_str16_def
  by (rule yields_seq [OF yields_u16], rule yields_mono [OF yields_utf8])
    (auto simp: enc_str16_def str16_fits_def unat_le_max)

lemma yields_str32:
  "yields cur_str32 (\<lambda>s xs. xs = enc_str32 s \<and> str32_fits s \<and> utf8_valid s)"
  unfolding cur_str32_def
  by (rule yields_seq [OF yields_u32], rule yields_mono [OF yields_utf8])
    (auto simp: enc_str32_def str32_fits_def unat_le_max)

lemma yields_value:
  "yields cur_value (\<lambda>v xs. xs = enc_value v \<and> value_fits v \<and> value_utf8 v)"
  unfolding cur_value_def
proof (rule yields_seq [OF yields_u8])
  let ?R = "\<lambda>t w ys. [t] @ ys = enc_value w \<and> value_fits w \<and> value_utf8 w"
  have tags: "yields (ok VNull) (?R tag_NULL)"
    "yields (seq cur_u8 (\<lambda>b. if b = 0 then ok (VBool False) else if b = 1 then ok (VBool True)
        else fail (Corrupt ''bool value is neither 0 nor 1''))) (?R tag_BOOL)"
    "yields (seq cur_i64 (\<lambda>i. ok (VI64 i))) (?R tag_I64)"
    "yields (seq (cur_take 8) (\<lambda>bs. ok (VF64 (from_le bs)))) (?R tag_F64)"
    "yields (seq cur_str32 (\<lambda>s. ok (VStr s))) (?R tag_STR)"
    by (auto intro!: yields_ok yields_fail yields_seq [OF yields_u8] yields_seq [OF yields_i64]
        yields_seq [OF yields_take] yields_seq [OF yields_str32])
  fix t xs assume "xs = [t :: u8]"
  then show "yields (if t = tag_NULL then ok VNull
      else if t = tag_BOOL then
        seq cur_u8 (\<lambda>b. if b = 0 then ok (VBool False) else if b = 1 then ok (VBool True)
          else fail (Corrupt ''bool value is neither 0 nor 1''))
      else if t = tag_I64 then seq cur_i64 (\<lambda>i. ok (VI64 i))
      else if t = tag_F64 then seq (cur_take 8) (\<lambda>bs. ok (VF64 (from_le bs)))
      else if t = tag_STR then seq cur_str32 (\<lambda>s. ok (VStr s))
      else fail (Corrupt ''unknown value tag''))
     (\<lambda>w ys. xs @ ys = enc_value w \<and> value_fits w \<and> value_utf8 w)"
    using tags by (auto simp: yields_fail)
qed

lemma yields_pair:
  "yields cur_pair (\<lambda>p xs. xs = enc_pair p \<and> pair_fits p \<and> utf8_valid (fst p) \<and> utf8_valid (snd p))"
  unfolding cur_pair_def
  by (rule yields_seq [OF yields_str16], rule yields_seq [OF yields_str16], rule yields_ok)
    (auto simp: enc_pair_def pair_fits_def)

lemma yields_read_n:
  assumes "yields r (\<lambda>v xs. xs = enc v \<and> P v)"
  shows "yields (read_n n r) (\<lambda>vs xs. length vs = n \<and> xs = concat (map enc vs) \<and> list_all P vs)"
proof (induction n)
  case 0
  show ?case unfolding read_n.simps by (rule yields_ok) simp
next
  case (Suc n)
  show ?case
    unfolding read_n.simps
    by (rule yields_seq [OF assms], rule yields_seq [OF Suc], rule yields_ok) auto
qed

lemma yields_fixed:
  "yields read_fixed (\<lambda>(ts, epoch, series, i) xs. xs = enc_fixed ts epoch series i \<and>
     str16_fits series \<and> utf8_valid series \<and> str16_fits i \<and> utf8_valid i)"
  unfolding read_fixed_def
  by (rule yields_seq [OF yields_u64], rule yields_seq [OF yields_u32],
      rule yields_seq [OF yields_str16], rule yields_seq [OF yields_str16], rule yields_ok)
    (auto simp: enc_fixed_def)

definition enc_record :: "RecordRef \<Rightarrow> Value list \<Rightarrow> (rstr \<times> rstr) list \<Rightarrow> bytes" where
  "enc_record rec keys extra =
     enc_fixed (rec_ts rec) (rec_epoch rec) (rec_series rec) (rec_id rec) @
     concat (map enc_value keys) @ enc_extra extra @ enc_str32 (rec_data rec)"

definition record_fits :: "RecordRef \<Rightarrow> Value list \<Rightarrow> (rstr \<times> rstr) list \<Rightarrow> bool" where
  "record_fits rec keys extra \<longleftrightarrow>
     str16_fits (rec_series rec) \<and> str16_fits (rec_id rec) \<and> list_all value_fits keys \<and>
     length extra \<le> u16_max \<and> list_all pair_fits extra \<and> str32_fits (rec_data rec)"

lemma yields_record:
  "yields (read_record k) (\<lambda>(rec, keys, extra) xs.
     xs = enc_record rec keys extra \<and> length keys = k \<and> record_fits rec keys extra)"
proof -
  note pairs = yields_read_n [OF yields_pair [THEN yields_mono], of enc_pair pair_fits]
  note keys = yields_read_n [OF yields_value [THEN yields_mono], of enc_value value_fits]
  have n: "yields (read_n (unat n) cur_pair) (\<lambda>ex xs. length ex = unat n \<and>
      xs = concat (map enc_pair ex) \<and> list_all pair_fits ex)" for n :: u16
    by (rule pairs) auto
  have k: "yields (read_n k cur_value) (\<lambda>vs xs. length vs = k \<and>
      xs = concat (map enc_value vs) \<and> list_all value_fits vs)"
    by (rule keys) auto
  show ?thesis
    unfolding read_record_def
    apply (rule yields_seq [OF yields_fixed])
    apply (clarsimp)
    apply (rule yields_seq [OF k])
    apply (rule yields_seq [OF yields_u16])
    apply (rule yields_seq [OF n])
    apply (rule yields_seq [OF yields_str32])
    apply (rule yields_ok)
    apply (auto simp: enc_record_def record_fits_def enc_extra_def unat_le_max)
    done
qed

lemma decode_payload_inv:
  assumes "decode_payload p n k = Inr (rec, keys, extra, n')"
  shows "p = enc_record rec keys extra \<and> length keys = k \<and> record_fits rec keys extra \<and> n' = n"
proof -
  from assms obtain c where c: "read_record k (cursor_new p) = (Inr (rec, keys, extra), c)"
    "cursor_is_empty c" and n: "n' = n"
    by (auto simp: decode_payload_def split: prod.splits sum.splits if_splits)
  obtain xs where "xs = enc_record rec keys extra" "length keys = k" "record_fits rec keys extra"
    and pre: "prefix xs (drop (cur_pos (cursor_new p)) (cur_buf (cursor_new p)))"
    and adv: "c = advance (cursor_new p) (length xs)"
    using yieldsD [OF yields_record c(1)] by auto
  moreover have "xs = p"
    using pre c(2) adv by (auto simp: cursor_new_def advance_def cursor_is_empty_def elim: prefixE)
  ultimately show ?thesis using n by simp
qed

lemma frame_extent_inv:
  assumes "frame_extent buf lim = Inr (p, n)"
  shows "length p \<le> u32_max \<and> length p \<le> lim \<and> MIN_PAYLOAD_BYTES \<le> length p \<and>
    n = FRAME_HEADER_BYTES + length p \<and> n \<le> length buf \<and>
    take n buf = le32 (of_nat (length p)) @ slice 4 8 buf @ p"
proof -
  let ?len = "unat (from_le (take 4 buf) :: u32)"
  from assms have h: "FRAME_HEADER_BYTES \<le> length buf" "MIN_PAYLOAD_BYTES \<le> ?len" "?len \<le> lim"
    "n = FRAME_HEADER_BYTES + ?len" "n \<le> length buf" "p = slice FRAME_HEADER_BYTES n buf"
    by (auto simp: frame_extent_def Let_def split: if_splits)
  then have len: "length p = ?len" by (simp add: slice_def)
  have four: "le32 (of_nat (length p)) = take 4 buf"
    using h(1) by (simp add: len FRAME_HEADER_BYTES_def)
  have "take n buf = take 4 buf @ take 4 (drop 4 buf) @ take ?len (drop 8 buf)"
    using h(4) take_add [of 4 "4 + ?len" buf] take_add [of 4 ?len "drop 4 buf"]
    by (simp add: FRAME_HEADER_BYTES_def)
  then show ?thesis
    using h len four by (simp add: slice_def FRAME_HEADER_BYTES_def unat_le_max)
qed

lemma frame_payload_inv:
  assumes "frame_payload crc buf lim = Inr (p, n)"
  shows "take n buf = seal_frame crc p \<and> n = FRAME_HEADER_BYTES + length p \<and> n \<le> length buf \<and>
    length p \<le> u32_max \<and> MIN_PAYLOAD_BYTES \<le> length p \<and> length p \<le> lim"
proof -
  from assms have ext: "frame_extent buf lim = Inr (p, n)"
    and crc: "crc (take 4 buf @ p) = from_le (slice 4 8 buf)"
    by (auto simp: frame_payload_def rbind_eq_Inr split: if_splits)
  note inv = frame_extent_inv [OF ext]
  then have n8: "8 \<le> length buf" by (simp add: FRAME_HEADER_BYTES_def)
  then have "length (slice 4 8 buf) = 4" by (simp add: slice_def)
  then have "slice 4 8 buf = le32 (crc (take 4 buf @ p))" by (simp add: crc)
  moreover have "take 4 buf = le32 (of_nat (length p))"
  proof -
    have "take 4 buf = take 4 (take n buf)"
      using inv by (simp add: FRAME_HEADER_BYTES_def min_def)
    also have "\<dots> = take 4 (le32 (of_nat (length p)) @ slice 4 8 buf @ p)" using inv by metis
    finally show ?thesis by simp
  qed
  ultimately have "take n buf = seal_frame crc p"
    using inv unfolding seal_frame_def Let_def by metis
  with inv show ?thesis by blast
qed

lemma decode_inv:
  assumes "decode crc buf k lim = Inr (rec, keys, extra, n)"
  shows "take n buf = seal_frame crc (enc_record rec keys extra) \<and> length keys = k \<and>
    record_fits rec keys extra \<and> length (enc_record rec keys extra) \<le> u32_max \<and>
    n = FRAME_HEADER_BYTES + length (enc_record rec keys extra) \<and> n \<le> length buf"
proof -
  from assms obtain p m where p: "frame_payload crc buf lim = Inr (p, m)"
    and d: "decode_payload p m k = Inr (rec, keys, extra, n)"
    by (auto simp: decode_def rbind_eq_Inr)
  from frame_payload_inv [OF p] decode_payload_inv [OF d] show ?thesis by auto
qed

text \<open>The row a decoded record came from.\<close>

definition row_of :: "RecordRef \<Rightarrow> Value list \<Rightarrow> (rstr \<times> rstr) list \<Rightarrow> Row" where
  "row_of rec keys extra = \<lparr>row_ts = rec_ts rec, row_id = rec_id rec, row_keys = keys,
     row_extra = extra, row_data = rec_data rec\<rparr>"

lemma payload_of_row_of:
  assumes "is_canonical extra"
  shows "payload_of (rec_series rec) (rec_epoch rec) (row_of rec keys extra) =
    enc_record rec keys extra"
  using assms by (simp add: payload_of_def row_of_def enc_record_def canonical_id)

lemma decoded_row_fits:
  assumes "decode crc buf k lim = Inr (rec, keys, extra, n)" and "is_canonical extra"
  shows "row_fits (rec_series rec) (row_of rec keys extra)"
  using decode_inv [OF assms(1)] payload_of_row_of [OF assms(2), of rec keys]
  by (simp add: row_fits_iff [of _ _ "rec_epoch rec"] sections_fit_def record_fits_def)
    (simp add: row_of_def canonical_id assms(2))

section \<open>Properties of the codec\<close>

text \<open>
  Claim C7. Encode, then decode: whenever \<open>encode\<close> succeeds, what it appended decodes, wherever it
  stands, to the same timestamp, epoch, series, id, data and key values and to the canonical
  form of \<open>extra\<close>, and the decoder reports exactly the appended length.
\<close>

theorem codec_roundtrip:
  assumes enc: "encode crc series epoch row out = (Inr (), out')"
    and utf8: "utf8_valid series" "row_utf8 row"
    and lim: "length out' - length out \<le> lim"
  shows "decode crc (drop (length out) out' @ rest) (length (row_keys row)) lim =
    Inr (\<lparr>rec_ts = row_ts row, rec_epoch = epoch, rec_series = series, rec_id = row_id row,
          rec_data = row_data row\<rparr>,
         row_keys row, canonical (row_extra row), length out' - length out)"
proof -
  have fits: "row_fits series row"
    using enc encode_oversize [of series row crc epoch out] by fastforce
  with enc have out': "out' = out @ frame_of crc series epoch row" by (simp add: encode_fits)
  with lim have "length (payload_of series epoch row) \<le> lim" by (simp add: frame_of_def)
  from decode_frame_of [OF fits utf8 this] show ?thesis by (simp add: out')
qed

text \<open>
  Claim C19. Decode, then encode: a frame that decodes with a canonical \<open>extra\<close> (names strictly
  increasing, as the encoder writes it) is byte for byte what encoding the decoded record
  produces. Each such record has exactly one frame.
\<close>

theorem decode_reencode:
  assumes "decode crc buf key_count lim = Inr (rec, keys, extra, n)" and "is_canonical extra"
  shows "encode crc (rec_series rec) (rec_epoch rec) (row_of rec keys extra) out =
    (Inr (), out @ take n buf)"
proof -
  from decode_inv [OF assms(1)] have "take n buf = seal_frame crc (enc_record rec keys extra)"
    by blast
  then show ?thesis
    by (simp add: encode_fits [OF decoded_row_fits [OF assms]] frame_of_def
        payload_of_row_of [OF assms(2)])
qed

text \<open>
  Claim C20. The encoder is total and leaves no trace of a failure: it either appends one frame,
  or reports \<open>RecordTooLarge\<close> with a size over the limit and restores the buffer it was given.
\<close>

theorem encode_total_and_clean:
  "(\<exists>frame. encode crc series epoch row out = (Inr (), out @ frame) \<and>
       FRAME_HEADER_BYTES + MIN_PAYLOAD_BYTES \<le> length frame) \<or>
   (\<exists>size limit. encode crc series epoch row out = (Inl (RecordTooLarge size limit), out) \<and>
       limit < size)"
proof (cases "row_fits series row")
  case True
  from encode_fits [OF this] length_payload_min [of series epoch row] show ?thesis
    by (simp add: frame_of_def)
next
  case False
  from encode_oversize [OF this] show ?thesis by blast
qed

text \<open>
  Claim C21. A torn frame is recognised as torn: every proper prefix of an encoded frame is
  reported as \<open>Truncated\<close>, with a needed length larger than what is there, by the full decoder
  and by the prefix check alike, never as corruption.
\<close>

theorem torn_frame_is_truncated:
  assumes enc: "encode crc series epoch row [] = (Inr (), frame)"
    and q: "strict_prefix q frame" and lim: "length frame \<le> lim"
  shows "\<exists>needed. length q < needed \<and>
    decode crc q key_count lim = Inl (Truncated needed (length q)) \<and>
    validate_prefix crc q lim = Inl (Truncated needed (length q))"
proof -
  have fits: "row_fits series row"
    using enc encode_oversize [of series row crc epoch "[]"] by fastforce
  with enc have frame: "frame = seal_frame crc (payload_of series epoch row)"
    by (simp add: encode_fits frame_of_def)
  have "length (payload_of series epoch row) \<le> lim" using lim by (simp add: frame)
  then obtain needed where "length q < needed"
    and "frame_extent q lim = Inl (Truncated needed (length q))"
    using frame_extent_prefix [OF q [unfolded frame] length_payload_min row_fits_payload [OF fits]]
    by blast
  then show ?thesis by (auto simp: decode_def validate_prefix_def frame_payload_def)
qed

text \<open>
  What the engine relies on of CRC-32: it tells apart two inputs of one length that differ in
  a single byte (CRC-32 detects every error burst of up to 32 bits).
\<close>

definition detects_byte_errors :: "(bytes \<Rightarrow> u32) \<Rightarrow> bool" where
  "detects_byte_errors crc \<longleftrightarrow>
     (\<forall>xs i b. i < length xs \<and> b \<noteq> xs ! i \<longrightarrow> crc (xs[i := b]) \<noteq> crc xs)"

lemma flipped_frame:
  assumes i: "4 \<le> i" "i < length (seal_frame crc p)"
    and lim: "MIN_PAYLOAD_BYTES \<le> length p" "length p \<le> u32_max" "length p \<le> lim"
    and b: "b \<noteq> seal_frame crc p ! i" and crc: "detects_byte_errors crc"
  shows "frame_payload crc ((seal_frame crc p)[i := b] @ rest) lim = Inl (Corrupt ''crc32 mismatch'')"
proof -
  let ?len = "le32 (of_nat (length p)) :: bytes"
  let ?crc = "le32 (crc (?len @ p)) :: bytes"
  have f: "seal_frame crc p = ?len @ ?crc @ p" by (simp add: seal_frame_def Let_def)
  have ext: "frame_extent (?len @ c @ q @ rest) lim = Inr (q, FRAME_HEADER_BYTES + length p)"
    if "length c = 4" "length q = length p" for c q
    using that lim
    by (simp add: frame_extent_def slice_def Let_def FRAME_HEADER_BYTES_def unat_of_nat_u32)
  have mismatch: "frame_payload crc (?len @ c @ q @ rest) lim = Inl (Corrupt ''crc32 mismatch'')"
    if "length c = 4" "length q = length p" "le32 (crc (?len @ q)) \<noteq> c" for c q
  proof -
    have "crc (?len @ q) \<noteq> from_le c" using that by (metis le32_from_le)
    then show ?thesis using that ext [of c q] by (simp add: frame_payload_def slice_def)
  qed
  show ?thesis
  proof (cases "i < 8")
    case True
    then have upd: "(seal_frame crc p)[i := b] = ?len @ ?crc[i - 4 := b] @ p"
      using i by (auto simp: f list_update_append)
    have four: "i - 4 < length ?crc" using True i(1) by auto
    have "?crc[i - 4 := b] \<noteq> ?crc"
    proof
      assume "?crc[i - 4 := b] = ?crc"
      then have "?crc ! (i - 4) = b" by (metis four nth_list_update_eq)
      then show False using b i(1) four by (simp add: f nth_append)
    qed
    with mismatch [of "?crc[i - 4 := b]" p] upd show ?thesis by (simp add: not_sym)
  next
    case False
    let ?j = "i - 8"
    have j: "?j < length p" using i False by (simp add: FRAME_HEADER_BYTES_def less_diff_conv2)
    have upd: "(seal_frame crc p)[i := b] = ?len @ ?crc @ p[?j := b]"
      using i False by (auto simp: f list_update_append)
    have "\<not> i - 4 < 4" and "i - 4 - 4 = i - 8" using False by auto
    then have "b \<noteq> (?len @ p) ! (4 + ?j)" using b i False by (auto simp: f nth_append)
    moreover have "(?len @ p)[4 + ?j := b] = ?len @ p[?j := b]" by (simp add: list_update_append)
    ultimately have "crc (?len @ p[?j := b]) \<noteq> crc (?len @ p)"
      using crc j unfolding detects_byte_errors_def
      by (metis length_append length_le32 nat_add_left_cancel_less)
    then have "le32 (crc (?len @ p[?j := b])) \<noteq> ?crc" by (metis from_le_le32)
    with mismatch [of ?crc "p[?j := b]"] upd show ?thesis by simp
  qed
qed

text \<open>
  Claim C22. A frame with one damaged byte outside its length field is rejected as corrupt by the
  decoder and by the prefix check, whatever the byte became, as long as the checksum detects
  single-byte errors.
\<close>

theorem damaged_byte_is_corrupt:
  assumes enc: "encode crc series epoch row [] = (Inr (), frame)"
    and i: "4 \<le> i" "i < length frame" and b: "b \<noteq> frame ! i"
    and lim: "length frame \<le> lim" and crc: "detects_byte_errors crc"
  shows "decode crc (frame[i := b] @ rest) key_count lim = Inl (Corrupt ''crc32 mismatch'') \<and>
    validate_prefix crc (frame[i := b] @ rest) lim = Inl (Corrupt ''crc32 mismatch'')"
proof -
  have fits: "row_fits series row"
    using enc encode_oversize [of series row crc epoch "[]"] by fastforce
  with enc have frame: "frame = seal_frame crc (payload_of series epoch row)"
    by (simp add: encode_fits frame_of_def)
  have "frame_payload crc (frame[i := b] @ rest) lim = Inl (Corrupt ''crc32 mismatch'')"
    unfolding frame
    by (rule flipped_frame)
      (use i b lim crc row_fits_payload [OF fits] length_payload_min in \<open>auto simp: frame\<close>)
  then show ?thesis by (simp add: decode_def validate_prefix_def)
qed

lemma fst_read_fixed:
  assumes "read_record k c = (Inr (rec, keys, extra), c')"
  shows "fst (read_fixed c) = Inr (rec_ts rec, rec_epoch rec, rec_series rec, rec_id rec)"
  using assms by (auto simp: read_record_def seq_eq_Inr)

text \<open>
  The cheap prefix check agrees with the full decoder: whenever \<open>decode\<close> accepts a
  frame, \<open>validate_prefix\<close> accepts it with the same timestamp, epoch, series, id and length, and
  that length is positive and within the buffer, so a scan always makes progress.
\<close>

lemma prefix_agrees_with_decode:
  assumes "decode crc buf key_count lim = Inr (rec, keys, extra, n)"
  shows "validate_prefix crc buf lim = Inr \<lparr>pre_ts = rec_ts rec, pre_epoch = rec_epoch rec,
      pre_series = rec_series rec, pre_id = rec_id rec, pre_frame_len = n\<rparr> \<and>
    0 < n \<and> n \<le> length buf"
proof -
  from assms obtain p where p: "frame_payload crc buf lim = Inr (p, n)"
    and d: "decode_payload p n key_count = Inr (rec, keys, extra, n)"
    using decode_payload_inv by (fastforce simp: decode_def rbind_eq_Inr)
  from d obtain c where "read_record key_count (cursor_new p) = (Inr (rec, keys, extra), c)"
    by (auto simp: decode_payload_def split: prod.splits sum.splits if_splits)
  from fst_read_fixed [OF this] p frame_payload_inv [OF p] show ?thesis
    by (auto simp: validate_prefix_def FRAME_HEADER_BYTES_def)
qed

lemma validate_prefix_progress:
  assumes "validate_prefix crc buf lim = Inr p"
  shows "0 < pre_frame_len p \<and> pre_frame_len p \<le> length buf \<and>
    FRAME_HEADER_BYTES + MIN_PAYLOAD_BYTES \<le> pre_frame_len p"
proof -
  from assms obtain q n where q: "frame_payload crc buf lim = Inr (q, n)" and n: "pre_frame_len p = n"
    by (auto simp: validate_prefix_def rbind_eq_Inr)
  from frame_payload_inv [OF q] n show ?thesis by (auto simp: FRAME_HEADER_BYTES_def)
qed

lemma parse_encoded_header: "parse_segment_header (encode_segment_header [] i @ rest) = Inr i"
  by (simp add: parse_segment_header_def parse_common_header_def encode_segment_header_def
      SEGMENT_HEADER_BYTES_def slice_def)

text \<open>
  Headers round trip and refuse foreign bytes: a written segment or batch header parses
  back to its id or count, any shorter buffer is \<open>Truncated\<close>, and a header that parses starts
  with the magic number and the supported format version.
\<close>

lemma headers_roundtrip:
  "parse_segment_header (encode_segment_header [] i @ rest) = Inr i \<and>
   parse_batch_header (encode_batch_header [] n @ rest) = Inr n \<and>
   (length buf < SEGMENT_HEADER_BYTES \<longrightarrow>
      parse_segment_header buf = Inl (Truncated SEGMENT_HEADER_BYTES (length buf))) \<and>
   (parse_segment_header buf = Inr j \<longrightarrow>
      take SEGMENT_HEADER_BYTES buf = encode_segment_header [] j)"
proof (intro conjI impI)
  show "parse_segment_header (encode_segment_header [] i @ rest) = Inr i"
    by (rule parse_encoded_header)
  show "parse_batch_header (encode_batch_header [] n @ rest) = Inr n"
    by (simp add: parse_batch_header_def parse_common_header_def encode_batch_header_def
        BATCH_HEADER_BYTES_def slice_def)
  show "parse_segment_header buf = Inl (Truncated SEGMENT_HEADER_BYTES (length buf))"
    if "length buf < SEGMENT_HEADER_BYTES"
    using that by (simp add: parse_segment_header_def parse_common_header_def)
  assume "parse_segment_header buf = Inr j"
  then have len: "14 \<le> length buf" and m: "from_le (take 4 buf) = MAGIC"
    and v: "from_le (slice 4 6 buf) = FORMAT_VERSION" and j: "j = from_le (take 8 (slice 6 14 buf))"
    by (auto simp: parse_segment_header_def parse_common_header_def rbind_eq_Inr
        SEGMENT_HEADER_BYTES_def split: if_splits)
  have "take 4 buf = le32 MAGIC" "slice 4 6 buf = le16 FORMAT_VERSION"
    "take 8 (slice 6 14 buf) = le64 j"
    using len m v j by (auto simp: slice_def dest: arg_cong [of _ _ le32] arg_cong [of _ _ le16])
  moreover have "take 14 buf = take 4 buf @ slice 4 6 buf @ take 8 (slice 6 14 buf)"
    using take_add [of 4 10 buf] take_add [of 2 8 "drop 4 buf"] by (simp add: slice_def)
  ultimately show "take SEGMENT_HEADER_BYTES buf = encode_segment_header [] j"
    by (simp add: encode_segment_header_def SEGMENT_HEADER_BYTES_def)
qed

text \<open>The merge's sort key is the timestamp and id the full decode reports.\<close>

lemma cur_utf8_take: "cur_utf8 n c = (Inr v, c') \<Longrightarrow> cur_take n c = (Inr v, c')"
  by (auto simp: cur_utf8_def seq_eq_Inr split: if_splits)

lemma sort_key_agrees:
  assumes "decode_verified buf k = Inr (rec, keys, extra, n)"
  shows "verified_sort_key buf = Inr (rec_ts rec, rec_id rec, n)"
proof -
  from assms obtain p where p: "frame_extent buf usize_max = Inr (p, n)"
    and d: "decode_payload p n k = Inr (rec, keys, extra, n)"
    using decode_payload_inv by (fastforce simp: decode_verified_def rbind_eq_Inr)
  from d obtain c where "read_record k (cursor_new p) = (Inr (rec, keys, extra), c)"
    by (auto simp: decode_payload_def split: prod.splits sum.splits if_splits)
  then have "fst (read_fixed (cursor_new p)) =
      Inr (rec_ts rec, rec_epoch rec, rec_series rec, rec_id rec)"
    by (rule fst_read_fixed)
  then obtain c' where "read_fixed (cursor_new p) =
      (Inr (rec_ts rec, rec_epoch rec, rec_series rec, rec_id rec), c')"
    by (metis prod.collapse)
  with p show ?thesis
    by (auto simp: verified_sort_key_def read_fixed_def cur_str16_def seq_eq_Inr
        dest!: cur_utf8_take)
qed


section \<open>Examples\<close>

text \<open>
  A row with every kind of section and an unordered \<open>extra\<close>, and a checksum that detects
  single-byte errors (the sum of the bytes).
\<close>

definition demo_crc :: "bytes \<Rightarrow> u32" where
  "demo_crc bs = sum_list (map ucast bs)"

definition demo_series :: rstr where "demo_series = lit ''s''"

definition demo_row :: Row where
  "demo_row = \<lparr>row_ts = 1700000000000000, row_id = lit ''a1'',
     row_keys = [VI64 5, VStr (lit ''x''), VNull],
     row_extra = [(lit ''b'', lit ''2''), (lit ''a'', lit ''1'')], row_data = lit ''{}''\<rparr>"

definition demo_frame :: bytes where
  "demo_frame = snd (encode demo_crc demo_series 1 demo_row [])"

lemma demo_encode: "encode demo_crc demo_series 1 demo_row [] = (Inr (), demo_frame)"
proof -
  have "fst (encode demo_crc demo_series 1 demo_row []) = Inr ()" by code_simp
  then show ?thesis by (simp add: demo_frame_def prod_eq_iff)
qed

lemma demo_utf8: "utf8_valid demo_series" "row_utf8 demo_row"
  by code_simp+

lemma demo_frame_length: "length demo_frame = 63"
  by code_simp

lemma demo_decode:
  "decode demo_crc demo_frame 3 4096 =
     Inr (\<lparr>rec_ts = 1700000000000000, rec_epoch = 1, rec_series = demo_series, rec_id = lit ''a1'',
           rec_data = lit ''{}''\<rparr>,
          [VI64 5, VStr (lit ''x''), VNull], [(lit ''a'', lit ''1''), (lit ''b'', lit ''2'')], 63)"
  by code_simp

lemma unat_ucast_u8: "unat (ucast (b :: u8) :: u32) = unat b"
  using unat_less_pow [of b] by (simp add: unsigned_ucast_eq take_bit_nat_eq_self)

lemma demo_crc_detects: "detects_byte_errors demo_crc"
  unfolding detects_byte_errors_def
proof (intro allI impI notI)
  fix xs :: bytes and i b
  assume i: "i < length xs \<and> b \<noteq> xs ! i" and eq: "demo_crc (xs[i := b]) = demo_crc xs"
  let ?c = "ucast :: u8 \<Rightarrow> u32"
  have "sum_list (map ?c (take i xs)) + (?c b + sum_list (map ?c (drop (Suc i) xs))) =
      sum_list (map ?c (take i xs)) + (?c (xs ! i) + sum_list (map ?c (drop (Suc i) xs)))"
    using eq i arg_cong [OF id_take_nth_drop [of i xs], of "\<lambda>l. sum_list (map ?c l)"]
    by (simp add: demo_crc_def upd_conv_take_nth_drop)
  then have "?c b = ?c (xs ! i)" by simp
  then have "unat b = unat (xs ! i)" by (metis unat_ucast_u8)
  then have "b = xs ! i" by (simp add: word_unat_eq_iff)
  with i show False by simp
qed

lemma strict_prefix_take: "n < length xs \<Longrightarrow> strict_prefix (take n xs) xs"
  by (metis length_take min.absorb4 nless_le strict_prefix_def take_is_prefix)

theorem codec_roundtrip_witness:
  "encode demo_crc demo_series 1 demo_row [] = (Inr (), demo_frame) \<and>
   decode demo_crc (demo_frame @ [7]) 3 4096 =
     Inr (\<lparr>rec_ts = 1700000000000000, rec_epoch = 1, rec_series = demo_series, rec_id = lit ''a1'',
           rec_data = lit ''{}''\<rparr>,
          [VI64 5, VStr (lit ''x''), VNull], canonical (row_extra demo_row), 63)"
  using codec_roundtrip [OF demo_encode demo_utf8, of 4096 "[7]"] demo_encode
  by (simp add: demo_frame_length) (simp add: demo_row_def numeral_3_eq_3)

theorem decode_reencode_witness:
  "encode demo_crc demo_series 1 (row_of \<lparr>rec_ts = 1700000000000000, rec_epoch = 1,
       rec_series = demo_series, rec_id = lit ''a1'', rec_data = lit ''{}''\<rparr>
     [VI64 5, VStr (lit ''x''), VNull] [(lit ''a'', lit ''1''), (lit ''b'', lit ''2'')]) [9] =
   (Inr (), [9] @ demo_frame)"
proof -
  have "is_canonical [(lit ''a'', lit ''1''), (lit ''b'', lit ''2'')]" by code_simp
  from decode_reencode [OF demo_decode this, of "[9]"] show ?thesis
    by (simp add: demo_frame_length)
qed

theorem torn_frame_is_truncated_witness:
  "\<exists>needed. 20 < needed \<and>
     decode demo_crc (take 20 demo_frame) 3 4096 = Inl (Truncated needed 20) \<and>
     validate_prefix demo_crc (take 20 demo_frame) 4096 = Inl (Truncated needed 20)"
proof -
  have "strict_prefix (take 20 demo_frame) demo_frame"
    by (rule strict_prefix_take) (simp add: demo_frame_length)
  from torn_frame_is_truncated [OF demo_encode this, of 4096 3] show ?thesis
    by (simp add: demo_frame_length)
qed

theorem damaged_byte_is_corrupt_witness:
  "decode demo_crc (demo_frame[10 := 255] @ [1]) 3 4096 = Inl (Corrupt ''crc32 mismatch'') \<and>
   validate_prefix demo_crc (demo_frame[10 := 255] @ [1]) 4096 = Inl (Corrupt ''crc32 mismatch'')"
proof -
  have "255 \<noteq> demo_frame ! 10" by code_simp
  from damaged_byte_is_corrupt [OF demo_encode _ _ this _ demo_crc_detects, of 4096 "[1]" 3]
  show ?thesis by (simp add: demo_frame_length)
qed

end
