(* ===== verification/Orc_Framing.thy ===== *)
theory Orc_Framing
  imports Orc_Codec_Laws
begin

text \<open>
  The contract between the codec and the two scans over a segment (recovery's scan of the tail
  and the flush's reader). Both see the codec through one question, how long the frame at the
  start of a buffer is, and rely on three things: an answer makes progress, an answer depends
  only on the bytes of the frame, and so a torn frame has none. The \<open>framing\<close> locale states this
  and derives that a segment has exactly one reading as whole frames and an unusable tail; it
  is interpreted with the codec's \<open>validate_prefix\<close>.
\<close>

section \<open>Whole frames and an unusable tail\<close>

definition is_frame :: "(bytes \<Rightarrow> nat option) \<Rightarrow> bytes \<Rightarrow> bool" where
  "is_frame extent f \<longleftrightarrow> f \<noteq> [] \<and> extent f = Some (length f)"

definition split_as :: "(bytes \<Rightarrow> nat option) \<Rightarrow> bytes \<Rightarrow> bytes list \<Rightarrow> bytes \<Rightarrow> bool" where
  "split_as extent buf fs left \<longleftrightarrow>
     buf = concat fs @ left \<and> list_all (is_frame extent) fs \<and> (left = [] \<or> extent left = None)"

locale framing =
  fixes extent :: "bytes \<Rightarrow> nat option"
  assumes progress: "extent buf = Some n \<Longrightarrow> 0 < n \<and> n \<le> length buf"
    and prefix_only: "extent buf = Some n \<Longrightarrow> extent (take n buf @ rest) = Some n"
begin

lemma is_frame_append: "is_frame extent f \<Longrightarrow> extent (f @ rest) = Some (length f)"
  using prefix_only [of f "length f" rest] by (simp add: is_frame_def)

lemma is_frame_take: "extent buf = Some n \<Longrightarrow> is_frame extent (take n buf)"
  using progress [of buf n] prefix_only [of buf n "[]"] by (auto simp: is_frame_def)

lemma torn: "is_frame extent f \<Longrightarrow> strict_prefix q f \<Longrightarrow> extent q = None"
proof (rule ccontr)
  assume f: "is_frame extent f" and q: "strict_prefix q f" and "extent q \<noteq> None"
  then obtain n where n: "extent q = Some n" by blast
  from q obtain r where r: "f = q @ r" "r \<noteq> []" by (auto elim: strict_prefixE')
  have "extent (take n q @ (drop n q @ r)) = Some n" by (rule prefix_only [OF n])
  then have "extent f = Some n" using r by (simp flip: append_assoc)
  with f have "n = length f" by (simp add: is_frame_def)
  with progress [OF n] r show False by simp
qed

lemma split_as_Nil: "split_as extent [] fs left \<longleftrightarrow> fs = [] \<and> left = []"
  by (cases fs) (auto simp: split_as_def is_frame_def)

lemma split_as_stuck:
  assumes "extent buf = None" shows "split_as extent buf fs left \<longleftrightarrow> fs = [] \<and> left = buf"
  using assms is_frame_append by (cases fs) (auto simp: split_as_def)

lemma split_as_step:
  assumes "extent buf = Some n"
  shows "split_as extent buf fs left \<longleftrightarrow>
    (\<exists>gs. fs = take n buf # gs \<and> split_as extent (drop n buf) gs left)"
proof
  assume s: "split_as extent buf fs left"
  show "\<exists>gs. fs = take n buf # gs \<and> split_as extent (drop n buf) gs left"
  proof (cases fs)
    case Nil
    with s assms progress [OF assms] show ?thesis by (auto simp: split_as_def)
  next
    case (Cons f gs)
    with s have buf: "buf = f @ concat gs @ left" and f: "is_frame extent f"
      by (simp_all add: split_as_def)
    from is_frame_append [OF f] assms have "n = length f" by (simp add: buf)
    with Cons s buf show ?thesis by (auto simp: split_as_def)
  qed
next
  assume "\<exists>gs. fs = take n buf # gs \<and> split_as extent (drop n buf) gs left"
  with is_frame_take [OF assms] show "split_as extent buf fs left"
    by (auto simp: split_as_def) (metis append_take_drop_id)+
qed

text \<open>Every buffer has exactly one such reading.\<close>

lemma split_as_unique:
  assumes "split_as extent buf fs left" "split_as extent buf gs other_tail"
  shows "fs = gs \<and> left = other_tail"
  using assms
proof (induction fs arbitrary: buf gs)
  case Nil
  show ?case
  proof (cases "left = []")
    case True
    with Nil show ?thesis using split_as_Nil by (simp add: split_as_def)
  next
    case False
    with Nil(1) have "extent buf = None" "left = buf" by (simp_all add: split_as_def)
    with Nil(2) show ?thesis using split_as_stuck by simp
  qed
next
  case (Cons f fs)
  then have "buf = f @ concat fs @ left" "is_frame extent f" by (simp_all add: split_as_def)
  then have "extent buf = Some (length f)" using is_frame_append by simp
  from split_as_step [OF this] Cons show ?case by fastforce
qed

lemma split_as_exists: "\<exists>fs left. split_as extent buf fs left"
proof (induction "length buf" arbitrary: buf rule: less_induct)
  case less
  show ?case
  proof (cases "extent buf")
    case None
    then show ?thesis by (meson split_as_stuck)
  next
    case (Some n)
    with progress [OF Some] have "length (drop n buf) < length buf" by auto
    from less [OF this] show ?thesis using split_as_step [OF Some] by blast
  qed
qed

text \<open>A log cut off anywhere still reads as its whole frames, up to the cut.\<close>

lemma split_as_prefix:
  assumes "list_all (is_frame extent) fs" and "prefix buf (concat fs)"
  shows "\<exists>k left. k \<le> length fs \<and> split_as extent buf (take k fs) left \<and>
    (k < length fs \<longrightarrow> strict_prefix left (fs ! k)) \<and> (k = length fs \<longrightarrow> left = [])"
  using assms
proof (induction fs arbitrary: buf)
  case Nil
  then show ?case by (simp add: split_as_def)
next
  case (Cons f fs)
  then have f: "is_frame extent f" and fs: "list_all (is_frame extent) fs" by simp_all
  have "prefix buf (f @ concat fs)" using Cons.prems by simp
  then consider (torn) "strict_prefix buf f" | (whole) rest where "buf = f @ rest" "prefix rest (concat fs)"
    using prefix_append_cases by blast
  then show ?case
  proof cases
    case torn
    with framing.torn [OF framing_axioms f] have "split_as extent buf (take 0 (f # fs)) buf"
      by (simp add: split_as_def)
    with torn show ?thesis by (intro exI [of _ 0]) auto
  next
    case whole
    with Cons.IH [OF fs] obtain k left where "k \<le> length fs" "split_as extent rest (take k fs) left"
      "k < length fs \<longrightarrow> strict_prefix left (fs ! k)" "k = length fs \<longrightarrow> left = []" by blast
    with f whole show ?thesis
      by (intro exI [of _ "Suc k"] exI [of _ left]) (auto simp: split_as_def)
  qed
qed

end

section \<open>The codec is a framing\<close>

definition frame_len :: "(bytes \<Rightarrow> u32) \<Rightarrow> nat \<Rightarrow> bytes \<Rightarrow> nat option" where
  "frame_len crc lim buf =
     (case validate_prefix crc buf lim of Inl _ \<Rightarrow> None | Inr p \<Rightarrow> Some (pre_frame_len p))"

lemma frame_len_Some:
  "frame_len crc lim buf = Some n \<longleftrightarrow> (\<exists>p. validate_prefix crc buf lim = Inr p \<and> pre_frame_len p = n)"
  by (auto simp: frame_len_def split: sum.splits)

lemma frame_payload_prefix_only:
  assumes "frame_payload crc buf lim = Inr (p, n)"
  shows "frame_payload crc (take n buf @ rest) lim = Inr (p, n)"
proof -
  note inv = frame_payload_inv [OF assms]
  then have "take n buf = seal_frame crc p" by blast
  with inv frame_payload_seal [of p lim crc rest] show ?thesis by auto
qed

lemma validate_prefix_prefix_only:
  assumes "validate_prefix crc buf lim = Inr p"
  shows "validate_prefix crc (take (pre_frame_len p) buf @ rest) lim = Inr p"
  using assms frame_payload_prefix_only [of crc buf lim _ "pre_frame_len p" rest]
  by (auto simp: validate_prefix_def rbind_eq_Inr)

interpretation vp: framing "frame_len crc lim" for crc lim
proof
  show "0 < n \<and> n \<le> length buf" if "frame_len crc lim buf = Some n" for buf n
    using that validate_prefix_progress by (auto simp: frame_len_Some)
  show "frame_len crc lim (take n buf @ rest) = Some n" if "frame_len crc lim buf = Some n" for buf n rest
    using that validate_prefix_prefix_only by (auto simp: frame_len_Some)
qed

text \<open>A limit at least as large as the buffer is no limit.\<close>

lemma frame_len_limit:
  assumes "length buf \<le> lim" shows "frame_len crc lim buf = frame_len crc (length buf) buf"
proof -
  have "frame_payload crc buf lim = Inr (p, n) \<longleftrightarrow> frame_payload crc buf (length buf) = Inr (p, n)" for p n
    using assms by (auto simp: frame_payload_def frame_extent_def Let_def rbind_eq_Inr
        FRAME_HEADER_BYTES_def split: if_splits)
  then have "validate_prefix crc buf lim = Inr p \<longleftrightarrow> validate_prefix crc buf (length buf) = Inr p" for p
    by (auto simp: validate_prefix_def rbind_eq_Inr)
  then have "frame_len crc lim buf = Some n \<longleftrightarrow> frame_len crc (length buf) buf = Some n" for n
    by (simp add: frame_len_Some)
  then show ?thesis by (metis option.exhaust)
qed

text \<open>What the encoder appends is a frame.\<close>

lemma encode_is_frame:
  assumes "encode crc series epoch row out = (Inr (), out @ f)"
    and "utf8_valid series" "row_utf8 row" "length f \<le> lim"
  shows "is_frame (frame_len crc lim) f"
proof -
  have fits: "row_fits series row"
    using assms(1) encode_oversize [of series row crc epoch out] by fastforce
  with assms(1) have f: "f = frame_of crc series epoch row" by (simp add: encode_fits)
  with assms(4) have "length (payload_of series epoch row) \<le> lim" by (simp add: frame_of_def)
  from validate_prefix_frame_of [OF fits assms(2,3) this, of crc "[]"] f
  have "frame_len crc lim f = Some (length f)" by (auto simp: frame_len_Some)
  moreover have "length f \<noteq> 0" by (simp add: f frame_of_def FRAME_HEADER_BYTES_def)
  ultimately show ?thesis by (simp add: is_frame_def)
qed

end
