(* ===== verification/Orc_Wal.thy ===== *)
theory Orc_Wal
  imports Orc_Disk Orc_Framing
begin

text \<open>
  The shared parts of the write-ahead log (\<open>src/src/wal/mod.rs\<close>): segment file names, quarantine
  and the directory listing.
\<close>

section \<open>Segment names\<close>

definition WAL_DIR :: rstr where "WAL_DIR = lit ''wal''"
definition SEGMENT_ID_DIGITS :: nat where "SEGMENT_ID_DIGITS = 10"
definition SEGMENT_EXT :: rstr where "SEGMENT_EXT = lit ''wal''"
definition CORRUPT_EXT :: rstr where "CORRUPT_EXT = lit ''wal.corrupt''"
definition FIRST_SEGMENT :: u64 where "FIRST_SEGMENT = 1"

definition dot :: u8 where "dot = 46"

definition u64_max :: nat where "u64_max = 2 ^ 64 - 1"

definition strip_suffix :: "rstr \<Rightarrow> rstr \<Rightarrow> rstr option" where
  "strip_suffix suf s =
     (if suffix suf s then Some (take (length s - length suf) s) else None)"

definition segment_name :: "u64 \<Rightarrow> rstr" where
  "segment_name i = pad SEGMENT_ID_DIGITS (unat i) @ dot # SEGMENT_EXT"

definition wal_dir :: path where "wal_dir = [WAL_DIR]"

definition segment_path :: "u64 \<Rightarrow> path" where
  "segment_path i = wal_dir @ [segment_name i]"

definition parse_segment_name :: "rstr \<Rightarrow> u64 option" where
  "parse_segment_name name =
     (case strip_suffix (dot # SEGMENT_EXT) name of
        None \<Rightarrow> None
      | Some digits \<Rightarrow>
          if \<not> all_digits digits \<or> digits = [] then None
          else if length digits \<noteq> SEGMENT_ID_DIGITS \<and> hd digits = 48 then None
          else if length digits < SEGMENT_ID_DIGITS then None
          else map_option of_nat (parse_unsigned u64_max digits))"

definition corrupt_name :: "u64 \<Rightarrow> rstr" where
  "corrupt_name i = pad SEGMENT_ID_DIGITS (unat i) @ dot # CORRUPT_EXT"

definition corrupt_path :: "u64 \<Rightarrow> path" where
  "corrupt_path i = wal_dir @ [corrupt_name i]"

definition quarantine_segment :: "u64 \<Rightarrow> ('m, path) io" where
  "quarantine_segment i =
     (let to_path = corrupt_path i in
      seq (fs_rename (segment_path i) to_path) (\<lambda>_. seq (fsync_dir wal_dir) (\<lambda>_. ok to_path)))"

text \<open>A missing directory lists as empty; file names that are not segment names are passed over.\<close>

definition segment_ids :: "(rstr \<times> bytes) list \<Rightarrow> u64 list" where
  "segment_ids es = sort (List.map_filter (\<lambda>entry. parse_segment_name (fst entry)) es)"

definition list_segments :: "('m, u64 list) eio" where
  "list_segments = seq (lift_io (fs_list wal_dir)) (\<lambda>es. ok (segment_ids es))"

text \<open>
  \<open>total_bytes\<close>: the sizes of the listed segments, a segment that vanished in between counting
  nothing.
\<close>

fun sum_sizes :: "u64 list \<Rightarrow> u64 \<Rightarrow> ('m, u64) eio" where
  "sum_sizes [] acc d = (Inr acc, d)"
| "sum_sizes (i # is) acc d =
     (case fs_read (segment_path i) d of
        (Inr bs, d') \<Rightarrow> sum_sizes is (acc + of_nat (length bs)) d'
      | (Inl NotFound, d') \<Rightarrow> sum_sizes is acc d'
      | (Inl e, d') \<Rightarrow> (Inl (Io e), d'))"

definition total_bytes :: "('m, u64) eio" where
  "total_bytes = seq list_segments (\<lambda>ids. sum_sizes ids 0)"

section \<open>Names and ids correspond one to one\<close>

lemma strip_suffix_append [simp]: "strip_suffix suf (s @ suf) = Some s"
  by (simp add: strip_suffix_def suffix_def)

lemma strip_suffix_Some: "strip_suffix suf s = Some t \<longleftrightarrow> s = t @ suf"
  by (auto simp: strip_suffix_def suffix_def)

lemma unat_u64_max: "unat (i :: u64) \<le> u64_max"
  using unat_less_pow [of i] by (simp add: u64_max_def)

lemma parse_segment_name_name: "parse_segment_name (segment_name i) = Some i"
proof -
  let ?ds = "pad SEGMENT_ID_DIGITS (unat i)"
  have len: "SEGMENT_ID_DIGITS \<le> length ?ds" by (simp add: length_pad)
  have zero: "length ?ds = SEGMENT_ID_DIGITS \<or> hd ?ds \<noteq> 48"
  proof (cases "length (dec (unat i)) \<le> SEGMENT_ID_DIGITS")
    case True
    then show ?thesis by (simp add: length_pad)
  next
    case False
    have "unat i \<noteq> 0"
    proof
      assume "unat i = 0"
      with False show False by (simp add: dec.simps [of 0] SEGMENT_ID_DIGITS_def)
    qed
    with False dec_no_leading_zero [of "unat i"] show ?thesis by (simp add: pad_def)
  qed
  show ?thesis
    using len zero unat_u64_max [of i]
    by (simp add: parse_segment_name_def segment_name_def parse_unsigned_digits)
qed

lemma parse_segment_name_inv:
  assumes "parse_segment_name name = Some i" shows "name = segment_name i"
proof -
  from assms obtain ds where name: "name = ds @ dot # SEGMENT_EXT" and ds: "all_digits ds" "ds \<noteq> []"
    and width: "length ds = SEGMENT_ID_DIGITS \<or> hd ds \<noteq> 48" "SEGMENT_ID_DIGITS \<le> length ds"
    and i: "i = of_nat (undec ds)" and max: "undec ds \<le> u64_max"
    by (auto simp: parse_segment_name_def strip_suffix_Some parse_unsigned_digits
        split: option.splits if_splits)
  have "unat i = undec ds" using i max by (simp add: u64_max_def unat_of_nat)
  moreover have "pad SEGMENT_ID_DIGITS (undec ds) = ds"
    by (rule pad_undec) (use ds width in \<open>auto simp: SEGMENT_ID_DIGITS_def\<close>)
  ultimately show ?thesis by (simp add: segment_name_def name)
qed

lemma parse_segment_name_iff: "parse_segment_name name = Some i \<longleftrightarrow> name = segment_name i"
  using parse_segment_name_inv parse_segment_name_name by blast

lemma segment_name_inject [simp]: "segment_name i = segment_name j \<longleftrightarrow> i = j"
  using parse_segment_name_name by (metis option.inject)

lemma corrupt_name_not_segment: "parse_segment_name (corrupt_name i) = None"
proof (rule ccontr)
  assume "parse_segment_name (corrupt_name i) \<noteq> None"
  then obtain j where "corrupt_name i = segment_name j"
    using parse_segment_name_inv by blast
  then have "last (corrupt_name i) = last (segment_name j)" by simp
  then show False
    by (simp add: corrupt_name_def segment_name_def CORRUPT_EXT_def SEGMENT_EXT_def lit_def)
qed

lemma corrupt_name_inject: "corrupt_name i = corrupt_name j \<longleftrightarrow> i = j"
proof
  assume "corrupt_name i = corrupt_name j"
  then have "undec (pad SEGMENT_ID_DIGITS (unat i)) = undec (pad SEGMENT_ID_DIGITS (unat j))"
    by (simp add: corrupt_name_def)
  then show "i = j" by (simp only: undec_pad word_unat_eq_iff)
qed simp

section \<open>Lexical order is numeric order\<close>

lemma undec_Cons:
  "undec (b # s) = digit_val b * 10 ^ length s + undec s"
proof (induction s rule: rev_induct)
  case Nil
  then show ?case by (simp add: undec_def)
next
  case (snoc c s)
  have "undec ((b # s) @ [c]) = undec (b # s) * 10 + digit_val c" by (rule undec_snoc)
  with snoc show ?case by (simp add: undec_snoc algebra_simps)
qed

lemma digit_val_mono: "is_digit b \<Longrightarrow> is_digit c \<Longrightarrow> digit_val b < digit_val c \<longleftrightarrow> b < c"
  by (auto simp: is_digit_def digit_val_def word_le_nat_alt word_less_nat_alt)

lemma digits_less_iff:
  assumes "length s = length t" "all_digits s" "all_digits t"
  shows "s < t \<longleftrightarrow> undec s < undec t"
  using assms
proof (induction s t rule: list_induct2)
  case (Cons b s c t)
  have digits: "is_digit b" "is_digit c" "all_digits s" "all_digits t"
    using Cons.prems by (auto simp: all_digits_def)
  have bound: "undec s < 10 ^ length s" "undec t < 10 ^ length s"
    using undec_bound digits Cons.hyps by metis+
  consider "b < c" | "c < b" | "b = c" by (meson linorder_neqE)
  then show ?case
  proof cases
    case 1
    then have "digit_val b + 1 \<le> digit_val c" using digit_val_mono digits by (simp add: Suc_leI)
    then have "(digit_val b + 1) * 10 ^ length s \<le> digit_val c * 10 ^ length s"
      by (rule mult_le_mono1)
    with 1 bound Cons.hyps show ?thesis by (simp add: undec_Cons)
  next
    case 2
    then have "digit_val c + 1 \<le> digit_val b" using digit_val_mono digits by (simp add: Suc_leI)
    then have "(digit_val c + 1) * 10 ^ length s \<le> digit_val b * 10 ^ length s"
      by (rule mult_le_mono1)
    with 2 bound Cons.hyps show ?thesis by (auto simp: undec_Cons)
  next
    case 3
    with Cons digits show ?thesis by (simp add: undec_Cons)
  qed
qed simp

lemma less_append_same_length:
  fixes s t u :: rstr
  assumes "length s = length t" shows "s @ u < t @ u \<longleftrightarrow> s < t"
  using assms by (induction s t rule: list_induct2) auto

lemma segment_name_less:
  assumes "unat i < 10 ^ SEGMENT_ID_DIGITS" "unat j < 10 ^ SEGMENT_ID_DIGITS"
  shows "segment_name i < segment_name j \<longleftrightarrow> i < j"
proof -
  have len: "length (pad SEGMENT_ID_DIGITS (unat i)) = length (pad SEGMENT_ID_DIGITS (unat j))"
    using assms length_pad_exact [of SEGMENT_ID_DIGITS] by (simp add: SEGMENT_ID_DIGITS_def)
  then show ?thesis
    unfolding segment_name_def less_append_same_length [OF len]
    by (simp add: digits_less_iff word_less_nat_alt)
qed

section \<open>The listing\<close>

lemma set_segment_ids: "set (segment_ids es) = {i. segment_name i \<in> fst ` set es}"
proof -
  have "set (segment_ids es) = {i. \<exists>f\<in>set es. parse_segment_name (fst f) = Some i}"
    by (force simp: segment_ids_def List.map_filter_def)
  also have "\<dots> = {i. segment_name i \<in> fst ` set es}"
    by (force simp: parse_segment_name_iff)
  finally show ?thesis .
qed

lemma sorted_segment_ids: "sorted (segment_ids es)"
  by (simp add: segment_ids_def)

lemma distinct_segment_ids:
  assumes "distinct (map fst es)" shows "distinct (segment_ids es)"
proof -
  have "distinct (List.map_filter (\<lambda>entry. parse_segment_name (fst entry)) es)"
    using assms
  proof (induction es)
    case (Cons f es)
    have "i \<notin> set (List.map_filter (\<lambda>entry. parse_segment_name (fst entry)) es)"
      if "parse_segment_name (fst f) = Some i" for i
      using that Cons.prems
      by (force simp: List.map_filter_def parse_segment_name_iff parse_segment_name_name)
    with Cons show ?case by (auto simp: List.map_filter_simps split: option.splits)
  qed (simp add: List.map_filter_simps)
  then show ?thesis by (simp add: segment_ids_def)
qed

text \<open>
  Segment names and ids correspond one to one: a file name parses to an id exactly when
  it is that id's name, a quarantined name never parses, and for ids of up to ten digits the
  lexical order of the names is the numeric order of the ids.
\<close>

lemma segment_names_one_to_one:
  "(parse_segment_name name = Some i \<longleftrightarrow> name = segment_name i) \<and>
   parse_segment_name (corrupt_name i) = None \<and>
   (unat i < 10 ^ SEGMENT_ID_DIGITS \<and> unat j < 10 ^ SEGMENT_ID_DIGITS \<longrightarrow>
      (segment_name i < segment_name j \<longleftrightarrow> i < j))"
  using parse_segment_name_iff corrupt_name_not_segment segment_name_less by blast

lemma segment_path_inject [simp]: "segment_path i = segment_path j \<longleftrightarrow> i = j"
  by (simp add: segment_path_def)

lemma corrupt_path_not_segment [simp]: "corrupt_path i \<noteq> segment_path j"
  using corrupt_name_not_segment [of i] parse_segment_name_name [of j]
  by (auto simp: corrupt_path_def segment_path_def)

lemma segment_path_not_corrupt [simp]: "segment_path j \<noteq> corrupt_path i"
  by (rule not_sym) (rule corrupt_path_not_segment)

text \<open>The ids of a listing: ascending, and exactly those whose file is there.\<close>

definition ids_of :: "(path \<rightharpoonup> bytes) \<Rightarrow> u64 list \<Rightarrow> bool" where
  "ids_of c ids \<longleftrightarrow> sorted_wrt (<) ids \<and> (\<forall>i. i \<in> set ids \<longleftrightarrow> c (segment_path i) \<noteq> None)"

lemma ids_of_listing:
  assumes "lists wal_dir c es" shows "ids_of c (segment_ids es)"
proof -
  have "i \<in> set (segment_ids es) \<longleftrightarrow> c (segment_path i) \<noteq> None" for i
    using assms by (force simp: set_segment_ids lists_def segment_path_def)
  moreover have "distinct (segment_ids es)"
    using assms by (intro distinct_segment_ids) (simp add: lists_def)
  ultimately show ?thesis
    using sorted_segment_ids by (simp add: ids_of_def strict_sorted_iff)
qed

lemma ids_of_unique: "ids_of c ids \<Longrightarrow> ids_of c ids' \<Longrightarrow> ids = ids'"
  by (rule strict_sorted_equal) (auto simp: ids_of_def)

lemma list_segments_triple [triple_rules]:
  "triple (at k (\<lambda>c. (\<forall>ids. ids_of c ids \<longrightarrow> Q ids c) \<and> (\<not> k \<longrightarrow> E (Io refused) c)))
     list_segments (\<lambda>x. at k (Q x)) (\<lambda>e. at k (E e))"
  unfolding list_segments_def
  by (rule triple_at_pre, (rule triple_rules)+) (auto intro: ids_of_listing)

lemma quarantine_segment_triple [triple_rules]:
  "triple (at k (\<lambda>c. (\<forall>bs. c (segment_path i) = Some bs \<longrightarrow>
                    Q (corrupt_path i) (c(segment_path i := None, corrupt_path i \<mapsto> bs)) \<and>
                    (\<not> k \<longrightarrow> E refused (c(segment_path i := None, corrupt_path i \<mapsto> bs)))) \<and>
                 (c (segment_path i) = None \<longrightarrow> E NotFound c) \<and> (\<not> k \<longrightarrow> E refused c)))
     (quarantine_segment i) (\<lambda>x. at k (Q x)) (\<lambda>e. at k (E e))"
  unfolding quarantine_segment_def Let_def
  by (rule triple_at_pre, (rule triple_rules)+) (auto simp del: fun_upd_apply)

text \<open>
  The listing is exact: whatever order the directory returns its entries in, the
  listed ids are strictly ascending and are exactly the ids whose segment file is present, and
  listing changes no file.
\<close>

lemma list_segments_exact:
  assumes "wf_disk d" and "list_segments d = (Inr ids, d')"
  shows "sorted_wrt (<) ids \<and> (\<forall>i. i \<in> set ids \<longleftrightarrow> content d (segment_path i) \<noteq> None) \<and>
    content d' = content d"
proof -
  have "triple (at False (\<lambda>c. c = content d)) list_segments
      (\<lambda>ids. at False (\<lambda>c. ids_of (content d) ids \<and> c = content d)) (\<lambda>_. at False (\<lambda>_. True))"
    by (rule triple_at_pre, rule triple_rules) auto
  from at_Inr [OF this assms(2,1)] show ?thesis by (auto simp: ids_of_def)
qed


section \<open>Examples\<close>

text \<open>A log whose first segment is flushed and whose tail ends in three bytes of a torn frame.\<close>

definition demo_tail :: bytes where
  "demo_tail = encode_segment_header [] 2 @ [55, 0, 0]"

definition demo_log :: Disk where
  "demo_log = \<lparr>files = [(segment_path 2, demo_tail), (segment_path 1, [])],
     faults = (\<lambda>_. Done), ops = 0, stable = Map.empty, linked = (\<lambda>_. False)\<rparr>"

lemma demo_log_ok: "wf_disk demo_log" "calm demo_log"
  by (simp_all add: demo_log_def wf_disk_def calm_def)

lemma demo_log_content:
  "content demo_log = [segment_path 2 \<mapsto> demo_tail, segment_path 1 \<mapsto> []]"
  by (rule ext) (simp add: demo_log_def content_def)

end
