(* ===== verification/Orc_Reader.thy ===== *)
theory Orc_Reader
  imports Orc_Framing
begin

text \<open>
  Reading a segment back, one frame at a time (\<open>src/src/wal/reader.rs\<close>). A bad record is a
  yielded value, never an error that ends the iteration; only a frame that cannot be delimited
  stops it.

  The reader's reused \<open>keys\<close> and \<open>extra\<close> buffers are meaningful only after a frame was returned,
  so they are part of that result here and not of the reader's state. The \<open>(series, epoch)\<close> lookup the
  caller supplies is a function argument of the reader, as in the code.
\<close>

section \<open>Frames and faults\<close>

record Frame =
  fr_record :: RecordRef
  fr_offset :: nat
  fr_len :: nat

datatype FrameFault =
    BadRecord nat nat DecodeError
  | UnknownSchema nat nat rstr u32
  | Undecodable nat DecodeError

fun fault_offset :: "FrameFault \<Rightarrow> nat" where
  "fault_offset (BadRecord offset _ _) = offset"
| "fault_offset (UnknownSchema offset _ _ _) = offset"
| "fault_offset (Undecodable offset _) = offset"

fun is_terminal :: "FrameFault \<Rightarrow> bool" where
  "is_terminal (Undecodable _ _) = True"
| "is_terminal _ = False"

text \<open>\<open>Error::source\<close>: the decode error behind a fault, where there is one.\<close>

fun fault_source :: "FrameFault \<Rightarrow> DecodeError option" where
  "fault_source (BadRecord _ _ err) = Some err"
| "fault_source (Undecodable _ err) = Some err"
| "fault_source (UnknownSchema _ _ _ _) = None"

type_synonym item = "FrameFault + (Frame \<times> Value list \<times> (rstr \<times> rstr) list)"

type_synonym key_lookup = "rstr \<Rightarrow> u32 \<Rightarrow> nat option"

section \<open>The reader\<close>

record SegmentReader =
  sr_id :: u64
  sr_buf :: bytes
  sr_at :: nat
  sr_max_record_bytes :: nat
  sr_key_count :: key_lookup
  sr_stopped :: bool

definition reader_new :: "bytes \<Rightarrow> nat \<Rightarrow> key_lookup \<Rightarrow> DecodeError + SegmentReader" where
  "reader_new buf max_record_bytes key_count =
     rbind (parse_segment_header buf) (\<lambda>i.
       Inr \<lparr>sr_id = i, sr_buf = buf, sr_at = SEGMENT_HEADER_BYTES,
            sr_max_record_bytes = max_record_bytes, sr_key_count = key_count, sr_stopped = False\<rparr>)"

definition next_frame :: "(bytes \<Rightarrow> u32) \<Rightarrow> SegmentReader \<Rightarrow> item option \<times> SegmentReader" where
  "next_frame crc r =
     (if sr_stopped r \<or> length (sr_buf r) \<le> sr_at r then (None, r)
      else
        let offset = sr_at r; rest = drop offset (sr_buf r) in
        case validate_prefix crc rest (sr_max_record_bytes r) of
          Inl err \<Rightarrow> (Some (Inl (Undecodable offset err)), r\<lparr>sr_stopped := True\<rparr>)
        | Inr p \<Rightarrow>
            (case sr_key_count r (pre_series p) (pre_epoch p) of
               None \<Rightarrow>
                 (Some (Inl (UnknownSchema offset (pre_frame_len p) (pre_series p) (pre_epoch p))),
                  r\<lparr>sr_at := offset + pre_frame_len p\<rparr>)
             | Some key_count \<Rightarrow>
                 (case decode crc rest key_count (sr_max_record_bytes r) of
                    Inr (rec, keys, extra, len) \<Rightarrow>
                      (Some (Inr (\<lparr>fr_record = rec, fr_offset = offset, fr_len = len\<rparr>, keys, extra)),
                       r\<lparr>sr_at := offset + len\<rparr>)
                  | Inl err \<Rightarrow>
                      (Some (Inl (BadRecord offset (pre_frame_len p) err)),
                       r\<lparr>sr_at := offset + pre_frame_len p\<rparr>))))"

text \<open>The bytes left to look at; every item yielded lowers it or stops the reader.\<close>

definition remaining :: "SegmentReader \<Rightarrow> nat" where
  "remaining r = (if sr_stopped r then 0 else length (sr_buf r) - sr_at r)"

lemma decode_progress:
  "decode crc buf k lim = Inr (rec, keys, extra, n) \<Longrightarrow> 0 < n \<and> n \<le> length buf"
  using decode_inv by (fastforce simp: FRAME_HEADER_BYTES_def)

lemma next_frame_progress:
  assumes "next_frame crc r = (Some it, r')" shows "remaining r' < remaining r"
  using assms
  by (auto simp: next_frame_def remaining_def Let_def
      dest!: validate_prefix_progress decode_progress
      split: if_splits sum.splits option.splits prod.splits)

text \<open>The consumer's loop \<open>while let Some(x) = reader.next_frame()\<close>.\<close>

function read_all :: "(bytes \<Rightarrow> u32) \<Rightarrow> SegmentReader \<Rightarrow> item list \<times> SegmentReader" where
  "read_all crc r =
     (case next_frame crc r of
        (None, r') \<Rightarrow> ([], r')
      | (Some it, r') \<Rightarrow> (case read_all crc r' of (its, r'') \<Rightarrow> (it # its, r'')))"
  by auto
termination
  by (relation "measure (\<lambda>(_, r). remaining r)") (auto dest: sym [THEN next_frame_progress])

declare read_all.simps [simp del]

section \<open>What a reading consists of\<close>

text \<open>One delimited frame, by itself, and the whole segment frame by frame.\<close>

definition read_one ::
  "(bytes \<Rightarrow> u32) \<Rightarrow> key_lookup \<Rightarrow> nat \<Rightarrow> nat \<Rightarrow> bytes \<Rightarrow> item" where
  "read_one crc lookup lim offset f =
     (case validate_prefix crc f lim of
        Inl err \<Rightarrow> Inl (Undecodable offset err)
      | Inr p \<Rightarrow>
          (case lookup (pre_series p) (pre_epoch p) of
             None \<Rightarrow> Inl (UnknownSchema offset (length f) (pre_series p) (pre_epoch p))
           | Some k \<Rightarrow>
               (case decode crc f k lim of
                  Inl err \<Rightarrow> Inl (BadRecord offset (length f) err)
                | Inr (rec, keys, extra, _) \<Rightarrow>
                    Inr (\<lparr>fr_record = rec, fr_offset = offset, fr_len = length f\<rparr>, keys, extra))))"

fun read_each ::
  "(bytes \<Rightarrow> u32) \<Rightarrow> key_lookup \<Rightarrow> nat \<Rightarrow> nat \<Rightarrow> bytes list \<Rightarrow> item list" where
  "read_each crc lookup lim offset [] = []"
| "read_each crc lookup lim offset (f # fs) =
     read_one crc lookup lim offset f # read_each crc lookup lim (offset + length f) fs"

text \<open>The fault an undelimitable rest is reported as.\<close>

definition read_left :: "(bytes \<Rightarrow> u32) \<Rightarrow> nat \<Rightarrow> nat \<Rightarrow> bytes \<Rightarrow> item list" where
  "read_left crc lim offset left =
     (if left = [] then []
      else case validate_prefix crc left lim of
             Inl err \<Rightarrow> [Inl (Undecodable offset err)]
           | Inr _ \<Rightarrow> [])"

lemma length_read_each [simp]: "length (read_each crc lookup lim offset fs) = length fs"
  by (induction fs arbitrary: offset) simp_all

lemma frame_prefix:
  assumes "is_frame (frame_len crc lim) f"
  obtains p where "\<And>rest. validate_prefix crc (f @ rest) lim = Inr p" "pre_frame_len p = length f"
proof -
  from assms obtain p where p: "validate_prefix crc f lim = Inr p" "pre_frame_len p = length f"
    by (auto simp: is_frame_def frame_len_Some)
  with validate_prefix_prefix_only [OF p(1)] that show ?thesis by auto
qed

lemma frame_decode:
  assumes "is_frame (frame_len crc lim) f"
  shows "decode crc (f @ rest) k lim = decode crc f k lim"
proof -
  from assms obtain q where "frame_payload crc f lim = Inr (q, length f)"
    by (auto simp: is_frame_def frame_len_Some validate_prefix_def rbind_eq_Inr)
  with frame_payload_prefix_only [OF this, of rest] show ?thesis by (simp add: decode_def)
qed

lemma frame_decode_len:
  assumes "is_frame (frame_len crc lim) f" and "decode crc f k lim = Inr (rec, keys, extra, n)"
  shows "n = length f"
proof -
  from assms(1) obtain q where "frame_payload crc f lim = Inr (q, length f)"
    by (auto simp: is_frame_def frame_len_Some validate_prefix_def rbind_eq_Inr)
  with assms(2) decode_payload_inv show ?thesis by (fastforce simp: decode_def)
qed

lemma next_frame_at_frame:
  assumes f: "is_frame (frame_len crc (sr_max_record_bytes r)) f"
    and at: "drop (sr_at r) (sr_buf r) = f @ rest" "\<not> sr_stopped r"
  shows "next_frame crc r =
    (Some (read_one crc (sr_key_count r) (sr_max_record_bytes r) (sr_at r) f),
     r\<lparr>sr_at := sr_at r + length f\<rparr>)"
proof -
  from f have "f \<noteq> []" by (simp add: is_frame_def)
  with at have "\<not> length (sr_buf r) \<le> sr_at r" by auto
  moreover obtain p where p: "\<And>rest. validate_prefix crc (f @ rest) (sr_max_record_bytes r) = Inr p"
    "pre_frame_len p = length f"
    using frame_prefix [OF f] by blast
  ultimately show ?thesis
    using at p(1) [of rest] p(1) [of "[]"] p(2) frame_decode [OF f] frame_decode_len [OF f]
    by (auto simp: next_frame_def read_one_def Let_def split: option.splits sum.splits prod.splits)
qed

lemma read_all_frames:
  assumes "split_as (frame_len crc (sr_max_record_bytes r)) (drop (sr_at r) (sr_buf r)) fs left"
    and "\<not> sr_stopped r" and "sr_at r \<le> length (sr_buf r)"
  shows "fst (read_all crc r) =
    read_each crc (sr_key_count r) (sr_max_record_bytes r) (sr_at r) fs @
    read_left crc (sr_max_record_bytes r) (length (sr_buf r) - length left) left \<and>
    sr_at (snd (read_all crc r)) = length (sr_buf r) - length left"
  using assms
proof (induction fs arbitrary: r)
  case Nil
  then have left: "drop (sr_at r) (sr_buf r) = left" by (simp add: split_as_def)
  show ?case
  proof (cases "left = []")
    case True
    with Nil left have "next_frame crc r = (None, r)" "sr_at r = length (sr_buf r)"
      by (auto simp: next_frame_def)
    with True show ?thesis by (subst (1 2) read_all.simps) (simp add: read_left_def)
  next
    case False
    with Nil left obtain err where err: "validate_prefix crc left (sr_max_record_bytes r) = Inl err"
      by (auto simp: split_as_def frame_len_def split: sum.splits)
    with False left Nil have "next_frame crc r =
        (Some (Inl (Undecodable (sr_at r) err)), r\<lparr>sr_stopped := True\<rparr>)"
      by (auto simp: next_frame_def)
    moreover have "next_frame crc (r\<lparr>sr_stopped := True\<rparr>) = (None, r\<lparr>sr_stopped := True\<rparr>)"
      by (simp add: next_frame_def)
    then have "read_all crc (r\<lparr>sr_stopped := True\<rparr>) = ([], r\<lparr>sr_stopped := True\<rparr>)"
      by (subst read_all.simps) simp
    moreover have "length (sr_buf r) - length left = sr_at r" using left Nil.prems by auto
    ultimately show ?thesis using False err
      by (subst (1 2) read_all.simps) (simp add: read_left_def)
  qed
next
  case (Cons f fs)
  let ?r = "r\<lparr>sr_at := sr_at r + length f\<rparr>"
  from Cons.prems have f: "is_frame (frame_len crc (sr_max_record_bytes r)) f"
    and at: "drop (sr_at r) (sr_buf r) = f @ concat fs @ left"
    by (simp_all add: split_as_def)
  have rest: "drop (sr_at ?r) (sr_buf ?r) = concat fs @ left"
    using at by (metis append_eq_conv_conj drop_drop add.commute SegmentReader.select_convs(3)
        SegmentReader.surjective SegmentReader.update_convs(3) SegmentReader.select_convs(2))
  have "length (f @ concat fs @ left) = length (sr_buf r) - sr_at r" by (simp flip: at)
  then have "sr_at ?r \<le> length (sr_buf ?r)" using Cons.prems by auto
  with Cons rest have IH: "fst (read_all crc ?r) =
      read_each crc (sr_key_count r) (sr_max_record_bytes r) (sr_at r + length f) fs @
      read_left crc (sr_max_record_bytes r) (length (sr_buf r) - length left) left \<and>
      sr_at (snd (read_all crc ?r)) = length (sr_buf r) - length left"
    using Cons.IH [of ?r] by (simp add: split_as_def)
  with next_frame_at_frame [OF f at] Cons.prems show ?case
    by (subst (1 2) read_all.simps) (auto split: prod.splits)
qed


section \<open>Properties of the reader\<close>

text \<open>The whole reading of a segment, from its header on.\<close>

definition read_segment_items ::
  "(bytes \<Rightarrow> u32) \<Rightarrow> bytes \<Rightarrow> nat \<Rightarrow> key_lookup \<Rightarrow> DecodeError + item list" where
  "read_segment_items crc buf lim lookup =
     rbind (reader_new buf lim lookup) (\<lambda>r. Inr (fst (read_all crc r)))"

lemma header_length: "parse_segment_header buf = Inr i \<Longrightarrow> SEGMENT_HEADER_BYTES \<le> length buf"
  by (auto simp: parse_segment_header_def parse_common_header_def rbind_eq_Inr split: if_splits)

lemma read_segment_split:
  assumes "parse_segment_header buf = Inr i"
    and "split_as (frame_len crc lim) (drop SEGMENT_HEADER_BYTES buf) fs left"
  shows "read_segment_items crc buf lim lookup =
    Inr (read_each crc lookup lim SEGMENT_HEADER_BYTES fs @
         read_left crc lim (length buf - length left) left)"
  using assms header_length [OF assms(1)]
    read_all_frames [of crc "\<lparr>sr_id = i, sr_buf = buf, sr_at = SEGMENT_HEADER_BYTES,
            sr_max_record_bytes = lim, sr_key_count = lookup, sr_stopped = False\<rparr>" fs left]
  by (simp add: read_segment_items_def reader_new_def)

lemma read_each_append:
  "read_each crc lookup lim offset (fs @ gs) =
     read_each crc lookup lim offset fs @ read_each crc lookup lim (offset + length (concat fs)) gs"
  by (induction fs arbitrary: offset) (simp_all add: add.assoc)

text \<open>
  Claim C17. One poison frame never hides another: the reader yields one item per whole frame of
  the segment, in order, each exactly what that frame alone would give at its offset, however
  its neighbours fail to decode; a rest that cannot be delimited yields one final, terminal
  fault at its offset.
\<close>

theorem poison_frame_is_isolated:
  assumes "parse_segment_header buf = Inr i"
    and "split_as (frame_len crc lim) (drop SEGMENT_HEADER_BYTES buf) (fs @ f # gs) left"
  shows "\<exists>items after. read_segment_items crc buf lim lookup =
      Inr (items @ read_one crc lookup lim (SEGMENT_HEADER_BYTES + length (concat fs)) f # after) \<and>
    length items = length fs \<and>
    length after = length gs + (if left = [] then 0 else 1) \<and>
    (left \<noteq> [] \<longrightarrow> (\<exists>err. last after = Inl (Undecodable (length buf - length left) err)))"
proof -
  have "left \<noteq> [] \<Longrightarrow> \<exists>err. validate_prefix crc left lim = Inl err"
    using assms(2) by (auto simp: split_as_def frame_len_def split: sum.splits)
  with read_segment_split [OF assms, of lookup] show ?thesis
    by (intro exI [of _ "read_each crc lookup lim SEGMENT_HEADER_BYTES fs"]
        exI [of _ "read_each crc lookup lim (SEGMENT_HEADER_BYTES + length (concat fs) + length f) gs @
          read_left crc lim (length buf - length left) left"])
      (auto simp: read_each_append read_left_def)
qed

text \<open>One frame as the encoder writes it, and a segment of them.\<close>

definition written :: "(bytes \<Rightarrow> u32) \<Rightarrow> (rstr \<times> u32 \<times> Row) list \<Rightarrow> bytes list" where
  "written crc rows = map (\<lambda>(series, epoch, row). frame_of crc series epoch row) rows"

definition writable :: "nat \<Rightarrow> key_lookup \<Rightarrow> rstr \<times> u32 \<times> Row \<Rightarrow> bool" where
  "writable lim lookup = (\<lambda>(series, epoch, row).
     row_fits series row \<and> utf8_valid series \<and> row_utf8 row \<and>
     length (payload_of series epoch row) \<le> lim \<and> lookup series epoch = Some (length (row_keys row)))"

definition item_of :: "nat \<Rightarrow> nat \<Rightarrow> rstr \<times> u32 \<times> Row \<Rightarrow> item" where
  "item_of offset len = (\<lambda>(series, epoch, row).
     Inr (\<lparr>fr_record = \<lparr>rec_ts = row_ts row, rec_epoch = epoch, rec_series = series,
                        rec_id = row_id row, rec_data = row_data row\<rparr>,
           fr_offset = offset, fr_len = len\<rparr>,
          row_keys row, canonical (row_extra row)))"

lemma frame_of_is_frame:
  assumes "row_fits series row" "utf8_valid series" "row_utf8 row"
    "length (payload_of series epoch row) \<le> lim"
  shows "is_frame (frame_len crc lim) (frame_of crc series epoch row)"
proof -
  have "frame_of crc series epoch row \<noteq> []"
    by (metis frame_of_def length_0_conv length_seal_frame FRAME_HEADER_BYTES_def add_is_0
        zero_neq_numeral)
  with validate_prefix_frame_of [OF assms, of crc "[]"] show ?thesis
    by (auto simp: is_frame_def frame_len_Some)
qed

lemma read_one_written:
  assumes "writable lim lookup w"
  shows "read_one crc lookup lim offset (hd (written crc [w])) =
    item_of offset (length (hd (written crc [w]))) w"
proof (cases w)
  case (fields series epoch row)
  with assms have fits: "row_fits series row" "utf8_valid series" "row_utf8 row"
    "length (payload_of series epoch row) \<le> lim" "lookup series epoch = Some (length (row_keys row))"
    by (simp_all add: writable_def)
  show ?thesis
    using validate_prefix_frame_of [OF fits(1-4), of crc "[]"] decode_frame_of [OF fits(1-4), of crc "[]"]
      fits(5)
    by (simp add: fields read_one_def written_def item_of_def)
qed

lemma written_frames:
  "list_all (writable lim lookup) rows \<Longrightarrow>
     list_all (is_frame (frame_len crc lim)) (written crc rows)"
  by (auto simp: list_all_iff written_def writable_def intro: frame_of_is_frame)

lemma read_each_written:
  assumes "list_all (writable lim lookup) rows"
  shows "read_each crc lookup lim offset (written crc rows) =
    map (\<lambda>i. item_of (offset + length (concat (written crc (take i rows))))
               (length (written crc rows ! i)) (rows ! i)) [0..<length rows]"
  using assms
proof (induction rows arbitrary: offset)
  case Nil
  then show ?case by (simp add: written_def)
next
  case (Cons w rows)
  have "[0..<length (w # rows)] = 0 # map Suc [0..<length rows]"
    by (simp add: upt_conv_Cons map_Suc_upt del: upt_Suc)
  then show ?case
    using Cons read_one_written [of lim lookup w crc offset]
    by (simp add: written_def comp_def add.assoc del: upt_Suc)
qed

text \<open>
  Claim C18. Reading back what was written: a segment made of its header and the frames the
  encoder appends for a sequence of rows reads back as exactly those rows, in order, each with
  its own offset and length, and with no fault, whenever the lookup knows each row's schema.
\<close>

theorem segment_roundtrip:
  assumes "list_all (writable lim lookup) rows"
  shows "read_segment_items crc (encode_segment_header [] i @ concat (written crc rows)) lim lookup =
    Inr (map (\<lambda>k. item_of (SEGMENT_HEADER_BYTES + length (concat (written crc (take k rows))))
                    (length (written crc rows ! k)) (rows ! k)) [0..<length rows])"
proof -
  let ?h = "encode_segment_header [] i"
  have "length ?h = SEGMENT_HEADER_BYTES"
    by (simp add: encode_segment_header_def SEGMENT_HEADER_BYTES_def)
  moreover have "split_as (frame_len crc lim) (concat (written crc rows)) (written crc rows) []"
    using written_frames [OF assms] by (simp add: split_as_def)
  ultimately show ?thesis
    using read_segment_split [of "?h @ concat (written crc rows)" i crc lim "written crc rows" "[]" lookup]
      parse_encoded_header read_each_written [OF assms]
    by (simp add: read_left_def)
qed


section \<open>Examples\<close>

lemma demo_is_frame: "is_frame (frame_len demo_crc 4096) demo_frame"
  using demo_encode demo_utf8 by (intro encode_is_frame [where out = "[]"]) (simp_all add: demo_frame_length)

text \<open>
  A segment of two frames and a torn third, read with a lookup that knows no schema: both
  frames are reported, and then the torn rest.
\<close>

theorem poison_frame_is_isolated_witness:
  "\<exists>items after. read_segment_items demo_crc
       (encode_segment_header [] 3 @ demo_frame @ demo_frame @ take 20 demo_frame) 4096 (\<lambda>_ _. None) =
     Inr (items @ read_one demo_crc (\<lambda>_ _. None) 4096 (SEGMENT_HEADER_BYTES + 63) demo_frame # after) \<and>
   length items = 1 \<and> length after = 1"
proof -
  have torn: "frame_len demo_crc 4096 (take 20 demo_frame) = None"
    by (rule vp.torn [OF demo_is_frame]) (simp add: strict_prefix_take demo_frame_length)
  have ne: "take 20 demo_frame \<noteq> []" using demo_frame_length by auto
  have h: "drop SEGMENT_HEADER_BYTES (encode_segment_header [] 3 @ rest) = rest" for rest
    by (simp add: encode_segment_header_def SEGMENT_HEADER_BYTES_def)
  have split: "split_as (frame_len demo_crc 4096)
      (drop SEGMENT_HEADER_BYTES (encode_segment_header [] 3 @ demo_frame @ demo_frame @ take 20 demo_frame))
      ([demo_frame] @ demo_frame # []) (take 20 demo_frame)"
    unfolding h by (simp add: split_as_def demo_is_frame torn)
  show ?thesis
    using poison_frame_is_isolated [OF parse_encoded_header split, of "\<lambda>_ _. None"] ne
    by (simp add: demo_frame_length) blast
qed

theorem segment_roundtrip_witness:
  "read_segment_items demo_crc
     (encode_segment_header [] 3 @ concat (written demo_crc [(demo_series, 1, demo_row), (demo_series, 1, demo_row)]))
     4096 (\<lambda>_ _. Some 3) =
   Inr [item_of 14 63 (demo_series, 1, demo_row), item_of 77 63 (demo_series, 1, demo_row)]"
proof -
  have fits: "row_fits demo_series demo_row"
    using demo_encode encode_oversize [of demo_series demo_row demo_crc 1 "[]"] by fastforce
  have frame: "frame_of demo_crc demo_series 1 demo_row = demo_frame"
    using encode_fits [OF fits, of demo_crc 1 "[]"] demo_encode by simp
  have "length (payload_of demo_series 1 demo_row) = 55"
    using arg_cong [OF frame, of length] by (simp add: frame_of_def FRAME_HEADER_BYTES_def demo_frame_length)
  then have "list_all (writable 4096 (\<lambda>_ _. Some 3)) [(demo_series, 1, demo_row), (demo_series, 1, demo_row)]"
    using fits demo_utf8 by (simp add: writable_def) (simp add: demo_row_def)
  from segment_roundtrip [OF this, of demo_crc 3] show ?thesis
    by (simp add: written_def frame demo_frame_length upt_rec SEGMENT_HEADER_BYTES_def)
qed

end
