(* ===== verification/Orc_Recovery.thy ===== *)
theory Orc_Recovery
  imports Orc_Wal Orc_Reader
begin

text \<open>
  Startup (\<open>src/src/wal/recovery.rs\<close>): the directory lock, the deletion of flushed segments and
  the repair of the tail segment. Logging is left out; the byte and frame counters of a
  recovery are bounded by the size of one file and are natural numbers here.
\<close>

section \<open>The directory lock\<close>

text \<open>
  The lock file is a file of the disk; its modification time, the clock and the process id are
  kept beside it, times in milliseconds.
\<close>

record LockDisk = Disk +
  lock_mtime :: nat
  clock :: nat
  self_pid :: u32

definition LOCK_FILE :: rstr where "LOCK_FILE = lit ''LOCK''"
definition LOCK_STALE_MS :: nat where "LOCK_STALE_MS = 10000"
definition LOCK_HEARTBEAT_MS :: nat where "LOCK_HEARTBEAT_MS = 1000"

definition lock_path :: path where "lock_path = [LOCK_FILE]"

definition stamp :: "'m LockDisk_scheme \<Rightarrow> 'm LockDisk_scheme" where
  "stamp d = d\<lparr>lock_mtime := clock d\<rparr>"

text \<open>\<open>str::trim\<close> strips these characters (Unicode \<open>White_Space\<close>), here in UTF-8.\<close>

definition white_space :: "rstr list" where
  "white_space =
     map (\<lambda>b. [b]) [9, 10, 11, 12, 13, 32] @ [[0xC2, 0x85], [0xC2, 0xA0], [0xE1, 0x9A, 0x80]] @
     map (\<lambda>b. [0xE2, 0x80, b])
       [0x80, 0x81, 0x82, 0x83, 0x84, 0x85, 0x86, 0x87, 0x88, 0x89, 0x8A, 0xA8, 0xA9, 0xAF] @
     [[0xE2, 0x81, 0x9F], [0xE3, 0x80, 0x80]]"

function strip_front :: "rstr list \<Rightarrow> rstr \<Rightarrow> rstr" where
  "strip_front ws s =
     (case find (\<lambda>w. w \<noteq> [] \<and> prefix w s) ws of
        None \<Rightarrow> s
      | Some w \<Rightarrow> strip_front ws (drop (length w) s))"
  by auto
termination
  by (relation "measure (\<lambda>(_, s). length s)") (auto simp: find_Some_iff prefix_def)

declare strip_front.simps [simp del]

definition trim :: "rstr \<Rightarrow> rstr" where
  "trim s = rev (strip_front (map rev white_space) (rev (strip_front white_space s)))"

definition parse_pid :: "bytes \<Rightarrow> u32 option" where
  "parse_pid bs = (if utf8_valid bs then map_option of_nat (parse_unsigned u32_max (trim bs)) else None)"

definition write_pid :: "u32 \<Rightarrow> ('m, unit) io" where
  "write_pid pid = fs_write lock_path (dec (unat pid) @ [10])"

definition read_pid :: "('m, u32 option) eio" where
  "read_pid d =
     (case fs_read lock_path d of
        (Inl _, d') \<Rightarrow> (Inr None, d')
      | (Inr bs, d') \<Rightarrow> (Inr (parse_pid bs), d'))"

text \<open>The time since the last heartbeat; none if it cannot be read or lies in the future.\<close>

definition lock_age :: "('m LockDisk_scheme, Error, nat option) fallible" where
  "lock_age d =
     (case fs_open lock_path d of
        (Inl _, d') \<Rightarrow> (Inr None, d')
      | (Inr _, d') \<Rightarrow> (Inr (if lock_mtime d' \<le> clock d' then Some (clock d' - lock_mtime d') else None), d'))"

text \<open>\<open>OpenOptions::new().write(true).truncate(true).open(..)\<close>.\<close>

definition open_truncate :: "path \<Rightarrow> ('m, unit) io" where
  "open_truncate p = fs_set_len p 0"

definition stamped :: "('m LockDisk_scheme, Error, unit) fallible" where
  "stamped d = (Inr (), stamp d)"

text \<open>
  \<open>DirLock::acquire\<close>, returning the owner's pid. \<open>others\<close> is what other processes do to the disk
  between writing the pid and reading it back, the race the read-back narrows.
\<close>

definition take_over ::
  "('m LockDisk_scheme \<Rightarrow> 'm LockDisk_scheme) \<Rightarrow> ('m LockDisk_scheme, Error, u32) fallible" where
  "take_over others d =
     (let pid = self_pid d in
      seq (lift_io (open_truncate lock_path)) (\<lambda>_.
      seq stamped (\<lambda>_.
      seq (lift_io (write_pid pid)) (\<lambda>_.
      seq (\<lambda>d. (Inr (), others d)) (\<lambda>_.
      seq read_pid (\<lambda>found. if found = Some pid then ok pid else fail Locked))))) d)"

definition acquire ::
  "('m LockDisk_scheme \<Rightarrow> 'm LockDisk_scheme) \<Rightarrow> bool \<Rightarrow> ('m LockDisk_scheme, Error, u32) fallible" where
  "acquire others force_unlock =
     seq (lift_io (fs_mkdir [])) (\<lambda>_ d.
       case fs_create_new lock_path d of
         (Inr _, d') \<Rightarrow>
           seq stamped (\<lambda>_. seq (lift_io (write_pid (self_pid d'))) (\<lambda>_. ok (self_pid d'))) d'
       | (Inl AlreadyExists, d') \<Rightarrow>
           seq read_pid (\<lambda>holder. seq lock_age (\<lambda>age.
             let stale = (case age of None \<Rightarrow> False | Some a \<Rightarrow> LOCK_STALE_MS \<le> a) in
             if \<not> stale \<and> \<not> force_unlock then fail Locked else take_over others)) d'
       | (Inl e, d') \<Rightarrow> (Inl (Io e), d'))"

definition touch_lock :: "('m LockDisk_scheme, Error, unit) fallible" where
  "touch_lock d =
     (seq (lift_io (open_truncate lock_path)) (\<lambda>_.
      seq stamped (\<lambda>_. lift_io (write_pid (self_pid d)))) d)"

text \<open>\<open>Drop for DirLock\<close>: only a lock that is still ours is removed.\<close>

definition release :: "u32 \<Rightarrow> ('m, unit) eio" where
  "release pid =
     seq read_pid (\<lambda>found.
       if found \<noteq> Some pid then ok ()
       else seq (best_effort (fs_remove lock_path)) (\<lambda>_. ok ()))"

section \<open>Recovery of the log\<close>

record Recovery =
  rv_deleted :: "u64 list"
  rv_pending :: "u64 list"
  rv_tail :: "u64 option"
  rv_tail_frames :: nat
  rv_discarded_bytes :: nat
  rv_quarantined :: "u64 list"
  rv_next_segment :: u64

datatype TailHeader = Scanned nat nat | Absent | CorruptHeader string

definition version_mismatch :: "string \<Rightarrow> bool" where
  "version_mismatch reason \<longleftrightarrow> reason = UNSUPPORTED_VERSION"

text \<open>The loop of \<open>scan_tail\<close>: the offset where it stops and the frames it passed.\<close>

function scan_frames :: "(bytes \<Rightarrow> u32) \<Rightarrow> bytes \<Rightarrow> nat \<Rightarrow> nat \<Rightarrow> nat \<times> nat" where
  "scan_frames crc buf pos frames =
     (if length buf \<le> pos then (pos, frames)
      else case validate_prefix crc (drop pos buf) (length buf) of
             Inr p \<Rightarrow> scan_frames crc buf (pos + pre_frame_len p) (frames + 1)
           | Inl _ \<Rightarrow> (pos, frames))"
  by auto
termination
  by (relation "measure (\<lambda>(_, buf, pos, _). length buf - pos)")
    (auto dest: validate_prefix_progress)

declare scan_frames.simps [simp del]

text \<open>Scan, and cut the file off at the last good offset where bytes are left.\<close>

definition amend_tail :: "(bytes \<Rightarrow> u32) \<Rightarrow> path \<Rightarrow> bytes \<Rightarrow> ('m, TailHeader) eio" where
  "amend_tail crc p buf =
     (case scan_frames crc buf SEGMENT_HEADER_BYTES 0 of
        (good, frames) \<Rightarrow>
          let discarded = length buf - good in
          if discarded > 0 then
            seq (lift_io (fs_open p)) (\<lambda>_.
            seq (lift_io (fs_set_len p good)) (\<lambda>_.
            seq (lift_io (fs_sync p)) (\<lambda>_. ok (Scanned frames discarded))))
          else ok (Scanned frames discarded))"

definition scan_tail :: "(bytes \<Rightarrow> u32) \<Rightarrow> path \<Rightarrow> ('m, TailHeader) eio" where
  "scan_tail crc p =
     seq (lift_io (fs_read p)) (\<lambda>buf.
       case parse_segment_header buf of
         Inl (Truncated _ _) \<Rightarrow> ok Absent
       | Inl (Corrupt reason) \<Rightarrow> ok (CorruptHeader reason)
       | Inr _ \<Rightarrow> amend_tail crc p buf)"

definition file_size :: "path \<Rightarrow> ('m, nat) eio" where
  "file_size p d =
     (case fs_read p d of (Inl _, d') \<Rightarrow> (Inr 0, d') | (Inr bs, d') \<Rightarrow> (Inr (length bs), d'))"

text \<open>What happens to the tail segment, once the flushed segments are gone.\<close>

definition recover_tail :: "(bytes \<Rightarrow> u32) \<Rightarrow> u64 list \<Rightarrow> Recovery \<Rightarrow> ('m, Recovery) eio" where
  "recover_tail crc ids out =
     (if ids = [] then ok (out\<lparr>rv_pending := []\<rparr>)
      else
        let t = last ids in
        seq (scan_tail crc (segment_path t)) (\<lambda>header.
          case header of
            Scanned frames discarded \<Rightarrow>
              ok (out\<lparr>rv_tail := Some t, rv_tail_frames := frames, rv_discarded_bytes := discarded,
                      rv_pending := ids\<rparr>)
          | Absent \<Rightarrow>
              seq (file_size (segment_path t)) (\<lambda>size.
              seq (lift_io (fs_remove (segment_path t))) (\<lambda>_.
              seq (lift_io (fsync_dir wal_dir)) (\<lambda>_.
                ok (out\<lparr>rv_deleted := rv_deleted out @ [t],
                        rv_discarded_bytes := rv_discarded_bytes out + size,
                        rv_pending := butlast ids\<rparr>))))
          | CorruptHeader reason \<Rightarrow>
              if \<not> version_mismatch reason then
                seq (lift_io (quarantine_segment t)) (\<lambda>_.
                  ok (out\<lparr>rv_quarantined := rv_quarantined out @ [t], rv_pending := butlast ids\<rparr>))
              else fail (Config ''wal segment was written in a format this build cannot read'')))"

definition highest_seen :: "u64 list \<Rightarrow> u64 \<Rightarrow> u64" where
  "highest_seen ids last_flushed = max (if ids = [] then 0 else last ids) last_flushed"

definition recover :: "(bytes \<Rightarrow> u32) \<Rightarrow> u64 \<Rightarrow> ('m, Recovery) eio" where
  "recover crc last_flushed =
     seq (lift_io (fs_mkdir wal_dir)) (\<lambda>_.
     seq (lift_io (fsync_dir [])) (\<lambda>_.
     seq list_segments (\<lambda>ids.
       let flushed = takeWhile (\<lambda>i. i \<le> last_flushed) ids;
           out = \<lparr>rv_deleted = flushed, rv_pending = [], rv_tail = None, rv_tail_frames = 0,
                  rv_discarded_bytes = 0, rv_quarantined = [],
                  rv_next_segment = highest_seen ids last_flushed + 1\<rparr> in
       seq (for_each (\<lambda>i. remove_if_present (segment_path i)) flushed) (\<lambda>_.
       seq (if flushed \<noteq> [] then lift_io (fsync_dir wal_dir) else ok ()) (\<lambda>_.
         recover_tail crc (dropWhile (\<lambda>i. i \<le> last_flushed) ids) out)))))"

section \<open>The tail scan\<close>

lemma scan_frames_split:
  assumes "split_as (frame_len crc (length buf)) (drop pos buf) fs left" and "pos \<le> length buf"
  shows "scan_frames crc buf pos n = (length buf - length left, n + length fs)"
  using assms
proof (induction fs arbitrary: pos n)
  case Nil
  then have left: "drop pos buf = left" by (simp add: split_as_def)
  show ?case
  proof (cases "left = []")
    case True
    with left Nil show ?thesis by (subst scan_frames.simps) auto
  next
    case False
    with Nil left obtain err where "validate_prefix crc left (length buf) = Inl err"
      by (auto simp: split_as_def frame_len_def split: sum.splits)
    moreover have "length buf - length left = pos" using left Nil.prems by auto
    ultimately show ?thesis using False left Nil.prems by (subst scan_frames.simps) auto
  qed
next
  case (Cons f fs)
  from Cons.prems have f: "is_frame (frame_len crc (length buf)) f"
    and pos: "drop pos buf = f @ concat fs @ left" by (simp_all add: split_as_def)
  from frame_prefix [OF f] obtain p
    where p: "validate_prefix crc (drop pos buf) (length buf) = Inr p" "pre_frame_len p = length f"
    using pos by metis
  have "f \<noteq> []" using f by (simp add: is_frame_def)
  then have less: "\<not> length buf \<le> pos" using pos by auto
  have "drop (pos + length f) buf = concat fs @ left"
    using pos by (metis add.commute append_eq_conv_conj drop_drop)
  moreover have "pos + length f \<le> length buf"
    using arg_cong [OF pos, of length] Cons.prems(2) by simp
  ultimately have "scan_frames crc buf (pos + length f) (Suc n) =
      (length buf - length left, Suc n + length fs)"
    using Cons by (auto simp: split_as_def)
  with p less show ?case by (subst scan_frames.simps) simp
qed

text \<open>What the scan keeps of a segment: its header and its whole frames.\<close>

definition amended :: "(bytes \<Rightarrow> u32) \<Rightarrow> bytes \<Rightarrow> bytes list \<Rightarrow> bytes \<Rightarrow> bool" where
  "amended crc buf fs buf' \<longleftrightarrow>
     (\<exists>i left. parse_segment_header buf = Inr i \<and>
        split_as (frame_len crc (length buf)) (drop SEGMENT_HEADER_BYTES buf) fs left \<and>
        buf' = take SEGMENT_HEADER_BYTES buf @ concat fs)"

lemma amended_cut:
  assumes "parse_segment_header buf = Inr i"
    and "split_as (frame_len crc (length buf)) (drop SEGMENT_HEADER_BYTES buf) fs left"
  shows "amended crc buf fs (take (length buf - length left) buf)"
proof -
  define h where "h = take SEGMENT_HEADER_BYTES buf"
  have "buf = h @ concat fs @ left"
    using assms(2) append_take_drop_id [of SEGMENT_HEADER_BYTES buf] by (simp add: split_as_def h_def)
  then have "take (length buf - length left) buf = h @ concat fs" by simp
  then have "take (length buf - length left) buf = take SEGMENT_HEADER_BYTES buf @ concat fs"
    by (simp add: h_def)
  with assms show ?thesis by (auto simp: amended_def)
qed

lemma amended_exists:
  assumes "parse_segment_header buf = Inr i"
  obtains fs left where "split_as (frame_len crc (length buf)) (drop SEGMENT_HEADER_BYTES buf) fs left"
    and "amended crc buf fs (take (length buf - length left) buf)"
    and "scan_frames crc buf SEGMENT_HEADER_BYTES 0 = (length buf - length left, length fs)"
proof -
  obtain fs left where "split_as (frame_len crc (length buf)) (drop SEGMENT_HEADER_BYTES buf) fs left"
    using vp.split_as_exists by blast
  with amended_cut [OF assms this] scan_frames_split [OF this, of 0] header_length [OF assms] that
  show ?thesis by simp
qed


lemma amend_tail_triple:
  assumes header: "parse_segment_header buf = Inr i"
  shows "triple (at k (\<lambda>c. c p = Some buf \<and> (\<not> k \<longrightarrow> E (Io refused) c) \<and>
        (\<forall>fs buf'. amended crc buf fs buf' \<longrightarrow>
            Q (Scanned (length fs) (length buf - length buf')) (c(p \<mapsto> buf')) \<and>
            (\<not> k \<longrightarrow> E (Io refused) (c(p \<mapsto> buf'))))))
     (amend_tail crc p buf) (\<lambda>x. at k (Q x)) (\<lambda>e. at k (E e))"
proof -
  obtain fs left where am: "amended crc buf fs (take (length buf - length left) buf)"
    and sf: "scan_frames crc buf SEGMENT_HEADER_BYTES 0 = (length buf - length left, length fs)"
    and sp: "split_as (frame_len crc (length buf)) (drop SEGMENT_HEADER_BYTES buf) fs left"
    using amended_exists [OF header] by metis
  have "length left \<le> length (drop SEGMENT_HEADER_BYTES buf)"
    using sp unfolding split_as_def by (metis le_add2 length_append)
  then have le: "length left \<le> length buf" by simp
  show ?thesis
  proof (cases "left = []")
    case True
    with am have am0: "amended crc buf fs buf" by simp
    have m: "amend_tail crc p buf = ok (Scanned (length fs) 0)"
      using True sf by (simp add: amend_tail_def)
    show ?thesis
      unfolding m by (rule triple_at_pre, rule at_ok) (use am0 in \<open>force simp: fun_upd_idem\<close>)
  next
    case False
    with le have "length buf - length left < length buf" by (cases left) auto
    with sf le have m: "amend_tail crc p buf = seq (lift_io (fs_open p)) (\<lambda>_.
        seq (lift_io (fs_set_len p (length buf - length left))) (\<lambda>_.
        seq (lift_io (fs_sync p)) (\<lambda>_. ok (Scanned (length fs) (length left)))))"
      by (simp add: Let_def amend_tail_def)
    show ?thesis
      unfolding m
      by (rule triple_at_pre, (rule triple_rules)+)
        (use am le in \<open>force simp del: fun_upd_apply\<close>)
  qed
qed

lemma scan_tail_triple [triple_rules]:
  "triple (at k (\<lambda>c. (c p = None \<longrightarrow> E (Io NotFound) c) \<and> (\<not> k \<longrightarrow> E (Io refused) c) \<and>
      (\<forall>buf. c p = Some buf \<longrightarrow>
         (\<forall>m n. parse_segment_header buf = Inl (Truncated m n) \<longrightarrow> Q Absent c) \<and>
         (\<forall>reason. parse_segment_header buf = Inl (Corrupt reason) \<longrightarrow> Q (CorruptHeader reason) c) \<and>
         (\<forall>fs buf'. amended crc buf fs buf' \<longrightarrow>
            Q (Scanned (length fs) (length buf - length buf')) (c(p \<mapsto> buf')) \<and>
            (\<not> k \<longrightarrow> E (Io refused) (c(p \<mapsto> buf')))))))
     (scan_tail crc p) (\<lambda>x. at k (Q x)) (\<lambda>e. at k (E e))"
  unfolding scan_tail_def
proof (rule triple_at_pre, rule at_seq, rule at_lift_io, rule fs_read_triple)
  fix buf
  show "triple (at k (\<lambda>c. c p = Some buf \<and> (\<not> k \<longrightarrow> E (Io refused) c) \<and>
         (\<forall>m n. parse_segment_header buf = Inl (Truncated m n) \<longrightarrow> Q Absent c) \<and>
         (\<forall>reason. parse_segment_header buf = Inl (Corrupt reason) \<longrightarrow> Q (CorruptHeader reason) c) \<and>
         (\<forall>fs buf'. amended crc buf fs buf' \<longrightarrow>
            Q (Scanned (length fs) (length buf - length buf')) (c(p \<mapsto> buf')) \<and>
            (\<not> k \<longrightarrow> E (Io refused) (c(p \<mapsto> buf'))))))
      (case parse_segment_header buf of
         Inl (Truncated _ _) \<Rightarrow> ok Absent
       | Inl (Corrupt reason) \<Rightarrow> ok (CorruptHeader reason)
       | Inr _ \<Rightarrow> amend_tail crc p buf) (\<lambda>x. at k (Q x)) (\<lambda>e. at k (E e))"
    by (auto split: sum.splits DecodeError.splits
        intro!: triple_at_pre [OF at_ok] triple_at_pre [OF amend_tail_triple])
qed auto

lemma file_size_triple [triple_rules]:
  "triple (at k (\<lambda>c. (\<forall>bs. c p = Some bs \<longrightarrow> Q (length bs) c) \<and> (c p = None \<or> \<not> k \<longrightarrow> Q 0 c)))
     (file_size p) (\<lambda>x. at k (Q x)) E"
proof -
  have "triple (at k (\<lambda>c. (\<forall>bs. c p = Some bs \<longrightarrow> Q (length bs) c) \<and> (c p = None \<or> \<not> k \<longrightarrow> Q 0 c)))
     (fs_read p) (\<lambda>bs. at k (Q (length bs))) (\<lambda>_. at k (Q 0))"
    by (rule triple_at_pre, rule fs_read_triple) auto
  then show ?thesis
    by (force simp: file_size_def split: prod.splits sum.splits intro!: tripleI dest: triple_Inr triple_Inl)
qed

section \<open>The fate of every segment\<close>

text \<open>What may become of a segment the manifest does not cover.\<close>

definition fate :: "(bytes \<Rightarrow> u32) \<Rightarrow> u64 \<Rightarrow> bytes \<Rightarrow> (path \<rightharpoonup> bytes) \<Rightarrow> bool" where
  "fate crc i buf c \<longleftrightarrow>
     c (segment_path i) = Some buf \<or>
     (\<exists>fs buf'. amended crc buf fs buf' \<and> c (segment_path i) = Some buf') \<or>
     (length buf < SEGMENT_HEADER_BYTES \<and> c (segment_path i) = None) \<or>
     (\<exists>reason. parse_segment_header buf = Inl (Corrupt reason) \<and> \<not> version_mismatch reason \<and>
        c (segment_path i) = None \<and> c (corrupt_path i) = Some buf)"

definition kept :: "(bytes \<Rightarrow> u32) \<Rightarrow> u64 \<Rightarrow> (path \<rightharpoonup> bytes) \<Rightarrow> (path \<rightharpoonup> bytes) \<Rightarrow> bool" where
  "kept crc last_flushed c c' \<longleftrightarrow>
     (\<forall>i buf. last_flushed < i \<and> c (segment_path i) = Some buf \<longrightarrow> fate crc i buf c') \<and>
     (\<forall>p. (\<forall>i. p \<noteq> segment_path i \<and> p \<noteq> corrupt_path i) \<longrightarrow> c' p = c p)"

definition recovered ::
  "(bytes \<Rightarrow> u32) \<Rightarrow> u64 \<Rightarrow> u64 list \<Rightarrow> (path \<rightharpoonup> bytes) \<Rightarrow> Recovery \<Rightarrow> (path \<rightharpoonup> bytes) \<Rightarrow> bool" where
  "recovered crc last_flushed ids c rv c' \<longleftrightarrow>
     rv_next_segment rv = highest_seen ids last_flushed + 1 \<and>
     ids_of c' (rv_pending rv) \<and> (\<forall>i\<in>set (rv_pending rv). last_flushed < i) \<and>
     (\<forall>t. rv_tail rv = Some t \<longrightarrow>
        (\<exists>buf fs buf'. c (segment_path t) = Some buf \<and> amended crc buf fs buf' \<and>
           c' (segment_path t) = Some buf' \<and> rv_tail_frames rv = length fs \<and>
           rv_discarded_bytes rv = length buf - length buf'))"

text \<open>A tail in a format this build cannot read.\<close>

definition foreign_tail :: "u64 \<Rightarrow> (path \<rightharpoonup> bytes) \<Rightarrow> bool" where
  "foreign_tail last_flushed c \<longleftrightarrow>
     (\<exists>t buf. last_flushed < t \<and> c (segment_path t) = Some buf \<and>
        (\<forall>j. c (segment_path j) \<noteq> None \<longrightarrow> j \<le> t) \<and>
        parse_segment_header buf = Inl (Corrupt UNSUPPORTED_VERSION))"

definition without :: "u64 list \<Rightarrow> (path \<rightharpoonup> bytes) \<Rightarrow> (path \<rightharpoonup> bytes)" where
  "without ids c = c |` (- segment_path ` set ids)"

lemma without_Nil [simp]: "without [] c = c"
  by (simp add: without_def restrict_map_def)

lemma without_Cons: "without (i # ids) c = without ids (c(segment_path i := None))"
  by (rule ext) (simp add: without_def restrict_map_def)

lemma without_apply:
  "without ids c (segment_path i) = (if i \<in> set ids then None else c (segment_path i))"
  by (auto simp: without_def restrict_map_def)

lemma without_other: "(\<And>i. p \<noteq> segment_path i) \<Longrightarrow> without ids c p = c p"
  by (auto simp: without_def restrict_map_def)

lemma remove_each_triple:
  "triple (at k (\<lambda>c. Q () (without ids c) \<and>
              (\<not> k \<longrightarrow> (\<forall>js. prefix js ids \<longrightarrow> E (Io refused) (without js c)))))
     (for_each (\<lambda>i. remove_if_present (segment_path i)) ids) (\<lambda>x. at k (Q x)) (\<lambda>e. at k (E e))"
proof (induction ids)
  case Nil
  then show ?case by (auto simp: triple_def at_def)
next
  case (Cons i ids)
  show ?case
    unfolding for_each_Cons
    by (rule triple_at_pre, rule at_seq, rule remove_if_present_triple, rule Cons)
      (fastforce simp: without_Cons simp del: fun_upd_apply dest: spec [of _ "[]"] spec [of _ "i # _"])
qed

lemma kept_without:
  assumes "\<forall>i\<in>set js. i \<le> last_flushed" shows "kept crc last_flushed c (without js c)"
  using assms by (auto simp: kept_def fate_def without_apply without_other)

lemma kept_trans_segment:
  assumes c1: "kept crc last_flushed c c1" "\<And>i. last_flushed < i \<Longrightarrow> c1 (segment_path i) = c (segment_path i)"
    and t: "c (segment_path t) = Some buf" "fate crc t buf c2"
    and same: "\<And>p. p \<noteq> segment_path t \<Longrightarrow> p \<noteq> corrupt_path t \<Longrightarrow> c2 p = c1 p"
  shows "kept crc last_flushed c c2"
  unfolding kept_def
proof (intro conjI allI impI)
  fix i buf' assume i: "last_flushed < i \<and> c (segment_path i) = Some buf'"
  show "fate crc i buf' c2"
  proof (cases "i = t")
    case False
    then have "c2 (segment_path i) = c1 (segment_path i)" using same by (simp add: corrupt_path_not_segment [symmetric])
    with i c1(2) show ?thesis by (simp add: fate_def)
  qed (use t i in simp)
next
  fix p assume p: "\<forall>i. p \<noteq> segment_path i \<and> p \<noteq> corrupt_path i"
  with same c1(1) show "c2 p = c p" by (simp add: kept_def)
qed


lemma ids_of_butlast:
  assumes "ids_of c ids" "ids \<noteq> []" and "c' (segment_path (last ids)) = None"
    and "\<And>i. i \<noteq> last ids \<Longrightarrow> c' (segment_path i) = c (segment_path i)"
  shows "ids_of c' (butlast ids)"
proof -
  have ids: "ids = butlast ids @ [last ids]" using assms(2) by simp
  have sorted: "sorted_wrt (<) (butlast ids @ [last ids])"
    using assms(1,2) by (simp add: ids_of_def)
  then have "last ids \<notin> set (butlast ids)" by (fastforce simp: sorted_wrt_append)
  moreover have "set ids = insert (last ids) (set (butlast ids))" by (subst ids) simp
  ultimately have "i \<in> set (butlast ids) \<longleftrightarrow> i \<in> set ids \<and> i \<noteq> last ids" for i by auto
  moreover have "i \<in> set ids \<longleftrightarrow> c (segment_path i) \<noteq> None" for i
    using assms(1) by (simp add: ids_of_def)
  ultimately have "i \<in> set (butlast ids) \<longleftrightarrow> c' (segment_path i) \<noteq> None" for i
    using assms(3,4) by (cases "i = last ids") auto
  moreover have "sorted_wrt (<) (butlast ids)" using sorted by (simp only: sorted_wrt_append)
  ultimately show ?thesis by (simp add: ids_of_def)
qed

lemma ids_of_update:
  assumes "ids_of c ids" and "\<And>i. c' (segment_path i) = None \<longleftrightarrow> c (segment_path i) = None"
  shows "ids_of c' ids"
  using assms by (auto simp: ids_of_def)

text \<open>What the scan of a tail with bytes \<open>buf\<close> reports, and what it leaves.\<close>

fun scan_report ::
  "(bytes \<Rightarrow> u32) \<Rightarrow> u64 \<Rightarrow> bytes \<Rightarrow> (path \<rightharpoonup> bytes) \<Rightarrow> TailHeader \<Rightarrow> (path \<rightharpoonup> bytes) \<Rightarrow> bool" where
  "scan_report crc t buf c Absent c' \<longleftrightarrow> c' = c \<and> length buf < SEGMENT_HEADER_BYTES"
| "scan_report crc t buf c (CorruptHeader reason) c' \<longleftrightarrow>
     c' = c \<and> parse_segment_header buf = Inl (Corrupt reason)"
| "scan_report crc t buf c (Scanned n m) c' \<longleftrightarrow>
     (\<exists>fs buf'. amended crc buf fs buf' \<and> n = length fs \<and> m = length buf - length buf' \<and>
        c' = c(segment_path t \<mapsto> buf'))"

definition cut_short :: "(bytes \<Rightarrow> u32) \<Rightarrow> u64 \<Rightarrow> bytes \<Rightarrow> (path \<rightharpoonup> bytes) \<Rightarrow> (path \<rightharpoonup> bytes) \<Rightarrow> bool" where
  "cut_short crc t buf c c' \<longleftrightarrow>
     c' = c \<or> (\<exists>fs buf'. amended crc buf fs buf' \<and> c' = c(segment_path t \<mapsto> buf'))"

lemma truncated_header:
  "parse_segment_header buf = Inl (Truncated m n) \<Longrightarrow> length buf < SEGMENT_HEADER_BYTES"
  by (auto simp: parse_segment_header_def parse_common_header_def rbind_eq_Inl split: if_splits)

lemma scan_tail_report:
  assumes "c (segment_path t) = Some buf"
  shows "triple (at k (\<lambda>x. x = c)) (scan_tail crc (segment_path t))
     (\<lambda>h. at k (scan_report crc t buf c h)) (\<lambda>e. at k (\<lambda>c'. \<not> k \<and> cut_short crc t buf c c'))"
  by (rule triple_at_pre, rule scan_tail_triple)
    (use assms in \<open>auto simp: cut_short_def dest: truncated_header\<close>)

text \<open>The tail \<open>t\<close> of a log \<open>c1\<close>, from which the flushed segments of \<open>c\<close> are gone.\<close>

definition at_tail ::
  "(bytes \<Rightarrow> u32) \<Rightarrow> u64 \<Rightarrow> (path \<rightharpoonup> bytes) \<Rightarrow> (path \<rightharpoonup> bytes) \<Rightarrow> u64 list \<Rightarrow> u64 \<Rightarrow> bytes \<Rightarrow> bool" where
  "at_tail crc last_flushed c c1 ids t buf \<longleftrightarrow>
     ids \<noteq> [] \<and> t = last ids \<and> ids_of c1 ids \<and> (\<forall>i\<in>set ids. last_flushed < i) \<and>
     kept crc last_flushed c c1 \<and> (\<forall>i > last_flushed. c1 (segment_path i) = c (segment_path i)) \<and>
     c (segment_path t) = Some buf"

lemma at_tail_butlast:
  assumes "at_tail crc last_flushed c c1 ids t buf" and "c' (segment_path t) = None"
    and "\<And>i. i \<noteq> t \<Longrightarrow> c' (segment_path i) = c1 (segment_path i)"
  shows "ids_of c' (butlast ids)" "\<forall>i\<in>set (butlast ids). last_flushed < i"
  using assms ids_of_butlast [of c1 ids c'] in_set_butlastD [of _ ids] by (auto simp: at_tail_def)

lemma at_tail_kept:
  assumes "at_tail crc last_flushed c c1 ids t buf" and "fate crc t buf c'"
    and "\<And>p. p \<noteq> segment_path t \<Longrightarrow> p \<noteq> corrupt_path t \<Longrightarrow> c' p = c1 p"
  shows "kept crc last_flushed c c'"
  using assms kept_trans_segment [of crc last_flushed c c1 t buf c'] by (auto simp: at_tail_def)

lemma sorted_last_greatest: "sorted_wrt (<) (ids :: u64 list) \<Longrightarrow> i \<in> set ids \<Longrightarrow> i \<le> last ids"
  by (induction ids) (auto intro: less_imp_le dest!: bspec [OF _ last_in_set])

lemma at_tail_highest:
  assumes "at_tail crc last_flushed c c1 ids t buf" and "c (segment_path j) \<noteq> None"
  shows "j \<le> t"
proof (cases "last_flushed < j")
  case True
  then have "j \<in> set ids" using assms by (auto simp: at_tail_def ids_of_def)
  then show ?thesis
    using assms(1) sorted_last_greatest [of ids j] unfolding at_tail_def ids_of_def by blast
next
  case False
  moreover have "last_flushed < t"
    using assms(1) last_in_set [of ids] unfolding at_tail_def by blast
  ultimately show ?thesis by (simp add: not_less)
qed

lemma scan_report_kept:
  assumes "at_tail crc last_flushed c c1 ids t buf"
  shows "cut_short crc t buf c1 c' \<Longrightarrow> kept crc last_flushed c c'"
    and "scan_report crc t buf c1 h c' \<Longrightarrow> kept crc last_flushed c c'"
  using assms at_tail_kept [OF assms, of c']
  by (cases h; auto simp: cut_short_def fate_def at_tail_def)+

lemma absent_triple:
  assumes "c (segment_path t) = Some buf" and "\<And>n. Q (f n) (c(segment_path t := None))"
    and "\<not> k \<Longrightarrow> E (Io refused) c" "\<not> k \<Longrightarrow> E (Io refused) (c(segment_path t := None))"
  shows "triple (at k (\<lambda>x. x = c))
     (seq (file_size (segment_path t)) (\<lambda>size.
      seq (lift_io (fs_remove (segment_path t))) (\<lambda>_.
      seq (lift_io (fsync_dir wal_dir)) (\<lambda>_. ok (f size)))))
     (\<lambda>x. at k (Q x)) (\<lambda>e. at k (E e))"
  by (rule triple_at_pre, (rule triple_rules)+) (simp add: assms del: fun_upd_apply)

lemma quarantine_triple:
  assumes "c (segment_path t) = Some buf"
    and "Q y (c(segment_path t := None, corrupt_path t \<mapsto> buf))"
    and "\<not> k \<Longrightarrow> E (Io refused) c"
    and "\<not> k \<Longrightarrow> E (Io refused) (c(segment_path t := None, corrupt_path t \<mapsto> buf))"
  shows "triple (at k (\<lambda>x. x = c)) (seq (lift_io (quarantine_segment t)) (\<lambda>_. ok y))
     (\<lambda>x. at k (Q x)) (\<lambda>e. at k (E e))"
  by (rule triple_at_pre, (rule triple_rules)+) (simp add: assms del: fun_upd_apply)

lemma recovered_scanned:
  assumes tail: "at_tail crc last_flushed c c1 ids t buf"
    and out: "rv_next_segment out = highest_seen all_ids last_flushed + 1"
    and rep: "scan_report crc t buf c1 (Scanned n m) c'"
  shows "recovered crc last_flushed all_ids c
     (out\<lparr>rv_tail := Some t, rv_tail_frames := n, rv_discarded_bytes := m, rv_pending := ids\<rparr>) c'"
proof -
  from rep obtain fs buf' where "amended crc buf fs buf'" "n = length fs"
      "m = length buf - length buf'" and c': "c' = c1(segment_path t \<mapsto> buf')"
    by auto
  moreover have "ids_of c' ids"
    using tail ids_of_update [of c1 ids c'] by (auto simp: c' at_tail_def)
  ultimately show ?thesis
    using tail out by (auto simp: recovered_def at_tail_def)
qed

lemma recovered_gone:
  assumes tail: "at_tail crc last_flushed c c1 ids t buf"
    and out: "rv_next_segment out = highest_seen all_ids last_flushed + 1" "rv_tail out = None"
    and gone: "c' (segment_path t) = None" "\<And>i. i \<noteq> t \<Longrightarrow> c' (segment_path i) = c1 (segment_path i)"
    and rv: "rv_pending rv = butlast ids" "rv_tail rv = rv_tail out"
      "rv_next_segment rv = rv_next_segment out"
  shows "recovered crc last_flushed all_ids c rv c'"
  using at_tail_butlast [OF tail gone] out rv by (simp add: recovered_def)

text \<open>The postconditions of the repair, whichever branch it takes.\<close>

definition tail_ok ::
  "(bytes \<Rightarrow> u32) \<Rightarrow> u64 \<Rightarrow> u64 list \<Rightarrow> (path \<rightharpoonup> bytes) \<Rightarrow> Recovery \<Rightarrow> (path \<rightharpoonup> bytes) \<Rightarrow> bool" where
  "tail_ok crc last_flushed ids c rv c' \<longleftrightarrow>
     recovered crc last_flushed ids c rv c' \<and> kept crc last_flushed c c'"

definition tail_failed ::
  "(bytes \<Rightarrow> u32) \<Rightarrow> u64 \<Rightarrow> bool \<Rightarrow> (path \<rightharpoonup> bytes) \<Rightarrow> Error \<Rightarrow> (path \<rightharpoonup> bytes) \<Rightarrow> bool" where
  "tail_failed crc last_flushed k c e c' \<longleftrightarrow>
     kept crc last_flushed c c' \<and> (k \<longrightarrow> foreign_tail last_flushed c)"

lemma tail_scanned_triple:
  assumes tail: "at_tail crc last_flushed c c1 ids t buf"
    and out: "rv_next_segment out = highest_seen all_ids last_flushed + 1" "rv_tail out = None"
  shows "triple (at k (scan_report crc t buf c1 (Scanned n m)))
     (ok (out\<lparr>rv_tail := Some t, rv_tail_frames := n, rv_discarded_bytes := m, rv_pending := ids\<rparr>))
     (\<lambda>rv. at k (tail_ok crc last_flushed all_ids c rv)) E"
  by (rule triple_at_pre [OF at_ok], unfold tail_ok_def)
    (intro conjI recovered_scanned [OF tail out(1)] scan_report_kept(2) [OF tail])

lemma tail_absent_triple:
  assumes tail: "at_tail crc last_flushed c c1 ids t buf"
    and out: "rv_next_segment out = highest_seen all_ids last_flushed + 1" "rv_tail out = None"
    and rv: "\<And>n. rv_pending (f n) = butlast ids \<and> rv_tail (f n) = rv_tail out \<and>
      rv_next_segment (f n) = rv_next_segment out"
  shows "triple (at k (scan_report crc t buf c1 Absent))
     (seq (file_size (segment_path t)) (\<lambda>size.
      seq (lift_io (fs_remove (segment_path t))) (\<lambda>_.
      seq (lift_io (fsync_dir wal_dir)) (\<lambda>_. ok (f size)))))
     (\<lambda>rv. at k (tail_ok crc last_flushed all_ids c rv)) (\<lambda>e. at k (tail_failed crc last_flushed k c e))"
proof (cases "length buf < SEGMENT_HEADER_BYTES")
  case True
  then have kept: "kept crc last_flushed c (c1(segment_path t := None))"
    by (intro at_tail_kept [OF tail]) (auto simp: fate_def)
  have "recovered crc last_flushed all_ids c (f n) (c1(segment_path t := None))" for n
    by (rule recovered_gone [OF tail out]) (use rv in auto)
  moreover have "c1 (segment_path t) = Some buf" "kept crc last_flushed c c1"
    using tail by (auto simp: at_tail_def)
  ultimately have "triple (at k (\<lambda>x. x = c1))
     (seq (file_size (segment_path t)) (\<lambda>size.
      seq (lift_io (fs_remove (segment_path t))) (\<lambda>_.
      seq (lift_io (fsync_dir wal_dir)) (\<lambda>_. ok (f size)))))
     (\<lambda>rv. at k (tail_ok crc last_flushed all_ids c rv)) (\<lambda>e. at k (tail_failed crc last_flushed k c e))"
    using kept by (intro absent_triple [where buf = buf]) (simp_all add: tail_ok_def tail_failed_def)
  then show ?thesis by (rule triple_at_pre) simp
qed (auto simp: triple_def at_def)

lemma tail_corrupt_triple:
  assumes tail: "at_tail crc last_flushed c c1 ids t buf"
    and out: "rv_next_segment out = highest_seen all_ids last_flushed + 1" "rv_tail out = None"
    and rv: "rv_pending rv = butlast ids" "rv_tail rv = rv_tail out"
      "rv_next_segment rv = rv_next_segment out"
  shows "triple (at k (scan_report crc t buf c1 (CorruptHeader reason)))
     (if \<not> version_mismatch reason
      then seq (lift_io (quarantine_segment t)) (\<lambda>_. ok rv) else fail err)
     (\<lambda>rv. at k (tail_ok crc last_flushed all_ids c rv)) (\<lambda>e. at k (tail_failed crc last_flushed k c e))"
proof (cases "parse_segment_header buf = Inl (Corrupt reason)")
  case header: True
  have c1: "c1 (segment_path t) = Some buf" "kept crc last_flushed c c1"
      "c (segment_path t) = Some buf" "last_flushed < t"
    using tail by (auto simp: at_tail_def)
  show ?thesis
  proof (cases "version_mismatch reason")
    case True
    then have "foreign_tail last_flushed c"
      using c1 header at_tail_highest [OF tail]
      by (auto simp: foreign_tail_def version_mismatch_def)
    with True c1(2) show ?thesis by (auto simp: triple_def at_def tail_failed_def)
  next
    case False
    let ?c = "c1(segment_path t := None, corrupt_path t \<mapsto> buf)"
    from False header have kept: "kept crc last_flushed c ?c"
      by (intro at_tail_kept [OF tail]) (auto simp: fate_def)
    have "recovered crc last_flushed all_ids c rv ?c"
      by (rule recovered_gone [OF tail out]) (use rv in auto)
    with c1 kept have "triple (at k (\<lambda>x. x = c1)) (seq (lift_io (quarantine_segment t)) (\<lambda>_. ok rv))
       (\<lambda>rv. at k (tail_ok crc last_flushed all_ids c rv)) (\<lambda>e. at k (tail_failed crc last_flushed k c e))"
      by (intro quarantine_triple [where buf = buf]) (simp_all add: tail_ok_def tail_failed_def)
    then have "triple (at k (scan_report crc t buf c1 (CorruptHeader reason)))
       (seq (lift_io (quarantine_segment t)) (\<lambda>_. ok rv))
       (\<lambda>rv. at k (tail_ok crc last_flushed all_ids c rv)) (\<lambda>e. at k (tail_failed crc last_flushed k c e))"
      by (rule triple_at_pre) simp
    with False show ?thesis by simp
  qed
qed (auto simp: triple_def at_def)

lemma recover_tail_triple:
  assumes tail: "at_tail crc last_flushed c c1 ids t buf"
    and out: "rv_next_segment out = highest_seen all_ids last_flushed + 1" "rv_tail out = None"
  shows "triple (at k (\<lambda>x. x = c1)) (recover_tail crc ids out)
     (\<lambda>rv. at k (tail_ok crc last_flushed all_ids c rv)) (\<lambda>e. at k (tail_failed crc last_flushed k c e))"
proof -
  have ne: "ids \<noteq> []" "last ids = t" and buf: "c1 (segment_path t) = Some buf"
    using tail by (auto simp: at_tail_def)
  have scan: "triple (at k (\<lambda>x. x = c1)) (scan_tail crc (segment_path t))
     (\<lambda>h. at k (scan_report crc t buf c1 h)) (\<lambda>e. at k (tail_failed crc last_flushed k c e))"
    by (rule triple_at_conseq [OF scan_tail_report [of c1 t buf, OF buf]])
      (use scan_report_kept(1) [OF tail] in \<open>auto simp: tail_failed_def\<close>)
  show ?thesis
    unfolding recover_tail_def Let_def if_not_P [OF ne(1)] ne(2)
  proof (rule at_seq [OF scan], goal_cases)
    case (1 h)
    show ?case
      by (cases h) (simp_all only: TailHeader.case tail_scanned_triple [OF tail out],
        rule tail_absent_triple [OF tail out], simp,
        rule tail_corrupt_triple [OF tail out], simp_all)
  qed
qed


section \<open>Properties of recovery\<close>

lemma takeWhile_le_dropWhile:
  fixes ids :: "u64 list"
  assumes "sorted_wrt (<) ids"
  shows "\<forall>i\<in>set (takeWhile (\<lambda>i. i \<le> n) ids). i \<le> n" "\<forall>i\<in>set (dropWhile (\<lambda>i. i \<le> n) ids). n < i"
proof -
  show "\<forall>i\<in>set (takeWhile (\<lambda>i. i \<le> n) ids). i \<le> n" by (auto dest: set_takeWhileD)
  show "\<forall>i\<in>set (dropWhile (\<lambda>i. i \<le> n) ids). n < i"
    using assms by (induction ids) (auto simp: not_le intro: less_trans)
qed

lemma flushed_gone:
  assumes "ids_of c ids"
  shows "ids_of (without (takeWhile (\<lambda>i. i \<le> n) ids) c) (dropWhile (\<lambda>i. i \<le> n) ids)"
    and "n < i \<Longrightarrow> without (takeWhile (\<lambda>i. i \<le> n) ids) c (segment_path i) = c (segment_path i)"
proof -
  have sorted: "sorted_wrt (<) ids" using assms by (simp add: ids_of_def)
  note split = takeWhile_le_dropWhile [OF sorted, of n]
  have mem: "i \<in> set ids \<longleftrightarrow> i \<in> set (takeWhile (\<lambda>i. i \<le> n) ids) \<or> i \<in> set (dropWhile (\<lambda>i. i \<le> n) ids)" for i
    by (metis Un_iff set_append takeWhile_dropWhile_id)
  have "sorted_wrt (<) (dropWhile (\<lambda>i. i \<le> n) ids)"
    using sorted by (metis sorted_wrt_append takeWhile_dropWhile_id)
  with assms split mem show "ids_of (without (takeWhile (\<lambda>i. i \<le> n) ids) c) (dropWhile (\<lambda>i. i \<le> n) ids)"
    by (fastforce simp: ids_of_def without_apply)
  show "without (takeWhile (\<lambda>i. i \<le> n) ids) c (segment_path i) = c (segment_path i)" if "n < i"
    using that split(1) by (auto simp: without_apply)
qed

lemma recover_rest_triple:
  assumes "ids_of c ids"
    and out: "rv_next_segment out = highest_seen ids last_flushed + 1" "rv_tail out = None"
  shows "triple (at k (\<lambda>x. x = without (takeWhile (\<lambda>i. i \<le> last_flushed) ids) c))
     (recover_tail crc (dropWhile (\<lambda>i. i \<le> last_flushed) ids) out)
     (\<lambda>rv. at k (tail_ok crc last_flushed ids c rv)) (\<lambda>e. at k (tail_failed crc last_flushed k c e))"
proof -
  let ?c1 = "without (takeWhile (\<lambda>i. i \<le> last_flushed) ids) c"
  let ?rest = "dropWhile (\<lambda>i. i \<le> last_flushed) ids"
  note split = takeWhile_le_dropWhile [of ids last_flushed] and c1 = flushed_gone [OF assms(1), of last_flushed]
  have sorted: "sorted_wrt (<) ids" using assms(1) by (simp add: ids_of_def)
  have kept: "kept crc last_flushed c ?c1" by (rule kept_without) (use split(1) [OF sorted] in auto)
  show ?thesis
  proof (cases "?rest = []")
    case True
    with c1(1) out kept have "tail_ok crc last_flushed ids c (out\<lparr>rv_pending := []\<rparr>) ?c1"
      by (simp add: tail_ok_def recovered_def)
    with True show ?thesis by (auto simp: recover_tail_def triple_def at_def)
  next
    case False
    then have "last ?rest \<in> set ?rest" by (rule last_in_set)
    with c1(1) have "?c1 (segment_path (last ?rest)) \<noteq> None" unfolding ids_of_def by blast
    then obtain buf where "c (segment_path (last ?rest)) = Some buf"
      by (auto simp: without_apply split: if_splits)
    with False c1 kept split(2) [OF sorted] have "at_tail crc last_flushed c ?c1 ?rest (last ?rest) buf"
      by (simp add: at_tail_def)
    then show ?thesis using out by (rule recover_tail_triple)
  qed
qed

text \<open>The steps before the tail is repaired, shared by the results below.\<close>

lemma recover_skeleton:
  assumes fails: "\<And>js e. \<not> k \<Longrightarrow> \<forall>i\<in>set js. i \<le> last_flushed \<Longrightarrow> E e (without js c)"
    and rest: "\<And>ids out. ids_of c ids \<Longrightarrow> rv_next_segment out = highest_seen ids last_flushed + 1 \<Longrightarrow>
      rv_tail out = None \<Longrightarrow>
      triple (at k (\<lambda>x. x = without (takeWhile (\<lambda>i. i \<le> last_flushed) ids) c))
        (recover_tail crc (dropWhile (\<lambda>i. i \<le> last_flushed) ids) out :: ('m, Recovery) eio)
        (\<lambda>rv. at k (Q rv)) (\<lambda>e. at k (E e))"
  shows "triple (at k (\<lambda>x. x = c)) (recover crc last_flushed :: ('m, Recovery) eio) (\<lambda>rv. at k (Q rv)) (\<lambda>e. at k (E e))"
    (is "triple _ _ ?Q ?E")
proof -
  have whole: "E e c" if "\<not> k" for e using fails [of "[]"] that by simp
  have quiet: "triple (at k (\<lambda>x. x = c)) (lift_io (fs_mkdir p)) (\<lambda>_. at k (\<lambda>x. x = c)) ?E"
      "triple (at k (\<lambda>x. x = c)) (lift_io (fsync_dir p)) (\<lambda>_. at k (\<lambda>x. x = c)) ?E" for p
    by (rule triple_at_pre, rule at_lift_io, rule quiet_triples, auto intro: whole)+
  have listed: "triple (at k (\<lambda>x. x = c)) list_segments (\<lambda>ids. at k (\<lambda>x. x = c \<and> ids_of c ids)) ?E"
    by (rule triple_at_pre, rule list_segments_triple) (auto intro: whole)
  have removed: "triple (at k (\<lambda>x. x = c)) (for_each (\<lambda>i. remove_if_present (segment_path i)) gone)
      (\<lambda>_. at k (\<lambda>x. x = without gone c)) ?E" if "\<forall>i\<in>set gone. i \<le> last_flushed" for gone
    by (rule triple_at_pre, rule remove_each_triple)
      (use that in \<open>auto intro!: fails dest: set_mono_prefix\<close>)
  have synced: "triple (at k (\<lambda>x. x = without gone c)) (if gone \<noteq> [] then lift_io (fsync_dir wal_dir) else ok ())
      (\<lambda>_. at k (\<lambda>x. x = without gone c)) ?E" if "\<forall>i\<in>set gone. i \<le> last_flushed" for gone
    by (rule triple_at_pre, (rule triple_rules)+) (use that in \<open>auto intro!: fails\<close>)
  show ?thesis
    unfolding recover_def Let_def
  proof (intro at_seq [OF quiet(1)] at_seq [OF quiet(2)] at_seq [OF listed], goal_cases)
    case (1 _ _ ids)
    show ?case
    proof (cases "ids_of c ids")
      case True
      then have small: "\<forall>i\<in>set (takeWhile (\<lambda>i. i \<le> last_flushed) ids). i \<le> last_flushed"
        by (auto dest: set_takeWhileD)
      show ?thesis
        by (rule triple_at_pre, rule at_seq [OF removed [OF small]], rule at_seq [OF synced [OF small]],
            rule rest [OF True]) auto
    qed (auto simp: triple_def at_def)
  qed
qed

lemma recover_triple:
  "triple (at k (\<lambda>x. x = c)) (recover crc last_flushed)
     (\<lambda>rv. at k (\<lambda>c'. \<exists>ids. ids_of c ids \<and> tail_ok crc last_flushed ids c rv c'))
     (\<lambda>e. at k (tail_failed crc last_flushed k c e))"
proof (rule recover_skeleton)
  show "tail_failed crc last_flushed k c e (without js c)"
    if "\<not> k" "\<forall>i\<in>set js. i \<le> last_flushed" for js e
    using that kept_without by (simp add: tail_failed_def)
qed (rule triple_at_conseq [OF recover_rest_triple], auto)

text \<open>With a foreign tail, recovery ends before it touches an uncovered segment.\<close>

lemma foreign_tail_triple:
  assumes "foreign_tail last_flushed c"
  shows "triple (at k (\<lambda>x. x = c)) (recover crc last_flushed) (\<lambda>_. at k (\<lambda>_. False))
     (\<lambda>_. at k (\<lambda>c'. \<forall>i>last_flushed. c' (segment_path i) = c (segment_path i)))"
proof (rule recover_skeleton)
  show "\<forall>i>last_flushed. without js c (segment_path i) = c (segment_path i)"
    if "\<forall>i\<in>set js. i \<le> last_flushed" for js
    using that by (auto simp: without_apply)
next
  fix ids out
  assume ids: "ids_of c ids"
  let ?c1 = "without (takeWhile (\<lambda>i. i \<le> last_flushed) ids) c"
  let ?rest = "dropWhile (\<lambda>i. i \<le> last_flushed) ids"
  obtain t buf where t: "last_flushed < t" "c (segment_path t) = Some buf"
      "\<forall>j. c (segment_path j) \<noteq> None \<longrightarrow> j \<le> t"
    and header: "parse_segment_header buf = Inl (Corrupt UNSUPPORTED_VERSION)"
    using assms by (auto simp: foreign_tail_def)
  note c1 = flushed_gone [OF ids, of last_flushed]
  have mem: "t \<in> set ?rest" using c1 t by (auto simp: ids_of_def)
  have last: "last ?rest = t"
  proof (rule antisym)
    have "last ?rest \<in> set ?rest" using mem by (metis empty_iff empty_set last_in_set)
    then have "last ?rest \<in> set ids" by (rule set_dropWhileD)
    then show "last ?rest \<le> t" using ids t(3) by (simp add: ids_of_def)
    show "t \<le> last ?rest" using mem c1(1) by (intro sorted_last_greatest) (simp_all add: ids_of_def)
  qed
  have c1t: "?c1 (segment_path t) = Some buf" using c1(2) [OF t(1)] t(2) by simp
  have not_amended: "\<not> amended crc buf fs buf'" for fs buf' using header by (simp add: amended_def)
  have long: "\<not> length buf < SEGMENT_HEADER_BYTES"
    using header by (auto simp: parse_segment_header_def parse_common_header_def)
  have ne: "?rest \<noteq> []" using mem by (metis empty_iff empty_set)
  show "triple (at k (\<lambda>x. x = ?c1)) (recover_tail crc ?rest out) (\<lambda>_. at k (\<lambda>_. False))
     (\<lambda>_. at k (\<lambda>c'. \<forall>i>last_flushed. c' (segment_path i) = c (segment_path i)))"
    unfolding recover_tail_def Let_def if_not_P [OF ne] last
  proof (rule at_seq)
    show "triple (at k (\<lambda>x. x = ?c1)) (scan_tail crc (segment_path t))
       (\<lambda>h. at k (scan_report crc t buf ?c1 h))
       (\<lambda>_. at k (\<lambda>c'. \<forall>i>last_flushed. c' (segment_path i) = c (segment_path i)))"
      by (rule triple_at_conseq [OF scan_tail_report [of ?c1 t buf, OF c1t]])
        (use not_amended c1(2) in \<open>auto simp: cut_short_def\<close>)
  next
    fix h
    show "triple (at k (scan_report crc t buf ?c1 h)) (case h of
          Scanned frames discarded \<Rightarrow>
            ok (out\<lparr>rv_tail := Some t, rv_tail_frames := frames, rv_discarded_bytes := discarded,
                    rv_pending := ?rest\<rparr>)
        | Absent \<Rightarrow>
            seq (file_size (segment_path t)) (\<lambda>size.
            seq (lift_io (fs_remove (segment_path t))) (\<lambda>_.
            seq (lift_io (fsync_dir wal_dir)) (\<lambda>_.
              ok (out\<lparr>rv_deleted := rv_deleted out @ [t],
                      rv_discarded_bytes := rv_discarded_bytes out + size,
                      rv_pending := butlast ?rest\<rparr>))))
        | CorruptHeader reason \<Rightarrow>
            if \<not> version_mismatch reason then
              seq (lift_io (quarantine_segment t)) (\<lambda>_.
                ok (out\<lparr>rv_quarantined := rv_quarantined out @ [t], rv_pending := butlast ?rest\<rparr>))
            else fail (Config ''wal segment was written in a format this build cannot read''))
       (\<lambda>_. at k (\<lambda>_. False))
       (\<lambda>_. at k (\<lambda>c'. \<forall>i>last_flushed. c' (segment_path i) = c (segment_path i)))"
      by (cases h) (use not_amended long c1(2) header in
        \<open>auto simp: triple_def at_def version_mismatch_def\<close>)
  qed
qed

lemma recover_content:
  assumes "wf_disk d" and "recover crc last_flushed d = (r, d')" and "k \<longrightarrow> calm d"
  shows "case r of
      Inr rv \<Rightarrow> \<exists>ids. ids_of (content d) ids \<and> tail_ok crc last_flushed ids (content d) rv (content d')
    | Inl e \<Rightarrow> tail_failed crc last_flushed k (content d) e (content d')"
  using assms(2) at_Inr [OF recover_triple _ assms(1,3)] at_Inl [OF recover_triple _ assms(1,3)]
  by (fastforce split: sum.splits)

text \<open>
  Claim C8. Recovery never loses a frame. Whatever the operating system refuses on the way, and
  whether recovery succeeds, fails or is cut short, every segment the manifest does not cover is
  afterwards byte for byte what it was, or cut back to its header and all its whole frames, or
  was too short to hold a header, or is kept in full under its quarantine name because its
  header was corrupt; and no file outside the log is touched.
\<close>

theorem recover_never_loses_a_frame:
  assumes "wf_disk d" and "recover crc last_flushed d = (r, d')"
  shows "(\<forall>i buf. last_flushed < i \<and> content d (segment_path i) = Some buf \<longrightarrow>
       fate crc i buf (content d')) \<and>
    (\<forall>p. (\<forall>i. p \<noteq> segment_path i \<and> p \<noteq> corrupt_path i) \<longrightarrow> content d' p = content d p)"
  using recover_content [OF assms, of False]
  by (auto simp: tail_ok_def tail_failed_def kept_def split: sum.splits)

text \<open>
  Claim C23. What a successful recovery reports is what is on disk: no covered segment is left,
  the pending segments are exactly the segments in \<open>wal/\<close>, in ascending order and all beyond the manifest's
  watermark, and a scanned tail now consists of its header and exactly the reported number of
  whole frames, the reported number of bytes having been cut off.
\<close>

theorem recover_report_is_exact:
  assumes "wf_disk d" and "recover crc last_flushed d = (Inr rv, d')"
  shows "sorted_wrt (<) (rv_pending rv) \<and>
    (\<forall>i. i \<in> set (rv_pending rv) \<longleftrightarrow> content d' (segment_path i) \<noteq> None) \<and>
    (\<forall>i\<in>set (rv_pending rv). last_flushed < i) \<and>
    (\<forall>t. rv_tail rv = Some t \<longrightarrow>
       (\<exists>buf fs buf'. content d (segment_path t) = Some buf \<and> amended crc buf fs buf' \<and>
          content d' (segment_path t) = Some buf' \<and> rv_tail_frames rv = length fs \<and>
          rv_discarded_bytes rv = length buf - length buf'))"
  using recover_content [OF assms, of False]
  by (auto simp: tail_ok_def recovered_def ids_of_def)

text \<open>
  The id handed to the writer exceeds the watermark and the id of every segment file
  that was present, as long as the highest of them is not the largest \<open>u64\<close>.
\<close>

lemma next_segment_is_fresh:
  assumes "wf_disk d" and "recover crc last_flushed d = (Inr rv, d')"
    and "content d (segment_path i) \<noteq> None \<or> i = last_flushed"
    and "\<forall>j. content d (segment_path j) \<noteq> None \<or> j = last_flushed \<longrightarrow> j < - 1"
  shows "i < rv_next_segment rv"
proof -
  obtain ids where ids: "ids_of (content d) ids" and rv: "rv_next_segment rv = highest_seen ids last_flushed + 1"
    using recover_content [OF assms(1,2), of False] by (auto simp: tail_ok_def recovered_def)
  have mem: "content d (segment_path j) \<noteq> None \<longleftrightarrow> j \<in> set ids" for j using ids by (simp add: ids_of_def)
  have last: "j \<le> last ids" if "j \<in> set ids" for j
    using that ids sorted_last_greatest by (simp add: ids_of_def)
  have "i \<le> highest_seen ids last_flushed"
    using assms(3) last by (auto simp: mem highest_seen_def le_max_iff_disj simp del: not_None_eq)
  moreover have "highest_seen ids last_flushed < - 1"
    using assms(4) mem by (auto simp: highest_seen_def max_def)
  then have "highest_seen ids last_flushed + 1 \<noteq> 0" by (metis add_eq_0_iff2 less_irrefl)
  then have "unat (highest_seen ids last_flushed + 1) = unat (highest_seen ids last_flushed) + 1"
    using unatSuc [of "highest_seen ids last_flushed"] by (simp add: add.commute)
  ultimately show ?thesis by (simp add: rv word_less_nat_alt word_le_nat_alt)
qed

text \<open>
  Claim C24. Recovery completes when the disk obeys: if no system call is refused, recovery
  succeeds unless the last segment was written by a build with another format version.
\<close>

theorem recover_completes:
  assumes "wf_disk d" and "calm d" and "\<not> foreign_tail last_flushed (content d)"
  shows "\<exists>rv d'. recover crc last_flushed d = (Inr rv, d')"
proof (cases "recover crc last_flushed d")
  case (Pair r d')
  with recover_content [OF assms(1) Pair, of True] assms(2,3) show ?thesis
    by (cases r) (auto simp: tail_failed_def)
qed

text \<open>
  A log of another format version is never touched: if the last segment carries another
  version, recovery reports an error, whatever else happens, and leaves every uncovered segment
  as it was.
\<close>

lemma foreign_log_is_refused:
  assumes "wf_disk d" and "foreign_tail last_flushed (content d)"
    and "recover crc last_flushed d = (r, d')"
  shows "(\<exists>e. r = Inl e) \<and> (\<forall>i>last_flushed. content d' (segment_path i) = content d (segment_path i))"
  using assms(3) at_Inr [OF foreign_tail_triple [OF assms(2), where k = False] _ assms(1)]
    at_Inl [OF foreign_tail_triple [OF assms(2), where k = False] _ assms(1)]
  by (cases r) fastforce+


section \<open>A log cut off anywhere\<close>

lemma split_as_limit:
  assumes "length buf \<le> m" "length buf \<le> n"
  shows "split_as (frame_len crc m) buf fs left \<longleftrightarrow> split_as (frame_len crc n) buf fs left"
proof -
  have same: "frame_len crc m x = frame_len crc n x" if "length x \<le> length buf" for x
    using that assms frame_len_limit [of x m crc] frame_len_limit [of x n crc] by simp
  have "list_all (is_frame (frame_len crc m)) fs = list_all (is_frame (frame_len crc n)) fs"
    if "buf = concat fs @ left"
  proof -
    have "length f \<le> length buf" if "f \<in> set fs" for f
      using \<open>buf = concat fs @ left\<close> that member_le_sum_list [of "length f" "map length fs"]
      by (simp add: length_concat)
    then show ?thesis by (auto simp: list_all_iff is_frame_def same)
  qed
  moreover have "frame_len crc m left = frame_len crc n left" if "buf = concat fs @ left"
    by (rule same) (simp add: that)
  ultimately show ?thesis by (auto simp: split_as_def)
qed

text \<open>
  Claim C16. A log cut off at an arbitrary byte is repaired to exactly the records that were
  completely written: if the tail segment holds its header and any prefix of a sequence of
  frames, a successful recovery that scanned it leaves the header and the longest run of whole
  frames in that prefix, reports their number, and what was cut off is part of one frame only.
\<close>

theorem torn_log_keeps_every_whole_frame:
  assumes "wf_disk d" and "recover crc last_flushed d = (Inr rv, d')" and "rv_tail rv = Some t"
    and buf: "content d (segment_path t) = Some (encode_segment_header [] i @ q)"
    and fs: "list_all (is_frame (frame_len crc lim)) fs" "prefix q (concat fs)"
    and lim: "length (encode_segment_header [] i @ q) \<le> lim"
  shows "\<exists>k\<le>length fs. rv_tail_frames rv = k \<and>
    content d' (segment_path t) = Some (encode_segment_header [] i @ concat (take k fs)) \<and>
    (if k = length fs then q = concat fs
     else \<exists>torn. strict_prefix torn (fs ! k) \<and> q = concat (take k fs) @ torn)"
proof -
  let ?h = "encode_segment_header [] i" let ?buf = "?h @ q"
  have h: "length ?h = SEGMENT_HEADER_BYTES"
    by (simp add: encode_segment_header_def SEGMENT_HEADER_BYTES_def)
  obtain gs buf' where gs: "amended crc ?buf gs buf'"
    and out: "content d' (segment_path t) = Some buf'" "rv_tail_frames rv = length gs"
    using recover_content [OF assms(1,2), of False] assms(3) buf
    by (auto simp: tail_ok_def recovered_def)
  then obtain left where left: "split_as (frame_len crc (length ?buf)) q gs left"
    and buf': "buf' = ?h @ concat gs"
    using h by (auto simp: amended_def)
  obtain k torn where k: "k \<le> length fs" "split_as (frame_len crc lim) q (take k fs) torn"
    "k < length fs \<longrightarrow> strict_prefix torn (fs ! k)" "k = length fs \<longrightarrow> torn = []"
    using vp.split_as_prefix [OF fs] by blast
  have "gs = take k fs \<and> left = torn"
    using split_as_limit [of q "length ?buf" lim crc gs left] left k(2) lim
    by (intro vp.split_as_unique [of crc lim q]) auto
  then show ?thesis
    using k out buf' by (intro exI [of _ k]) (auto simp: split_as_def)
qed

section \<open>Properties of the lock\<close>

lemma strip_front_none: "\<forall>w\<in>set ws. \<not> prefix w s \<or> w = [] \<Longrightarrow> strip_front ws s = s"
  by (subst strip_front.simps) (auto simp: find_None_iff split: option.splits dest!: find_Some_iff [THEN iffD1])

lemma white_space_ends:
  "\<forall>w\<in>set white_space. w \<noteq> [] \<and> \<not> is_digit (hd w) \<and> \<not> is_digit (last w)"
  by code_simp

lemma trim_digits:
  assumes "all_digits s" "s \<noteq> []" shows "trim (s @ [10]) = s"
proof -
  have hd: "is_digit (hd s)" "is_digit (last s)" using assms by (auto simp: all_digits_def list_all_iff)
  have front: "strip_front white_space (s @ [10]) = s @ [10]"
    using white_space_ends hd(1) assms(2)
    by (intro strip_front_none) (auto simp: prefix_def hd_append dest!: arg_cong [of _ _ hd])
  have "find (\<lambda>w. w \<noteq> [] \<and> prefix w (10 # rev s)) (map rev white_space) = Some [10]"
    by (simp add: white_space_def)
  then have "strip_front (map rev white_space) (10 # rev s) = strip_front (map rev white_space) (rev s)"
    by (subst strip_front.simps) simp
  also have "\<dots> = rev s"
    using white_space_ends hd(2) assms(2)
    by (intro strip_front_none) (auto simp: prefix_def hd_rev hd_append dest!: arg_cong [of _ _ hd])
  finally show ?thesis by (simp add: trim_def front)
qed

lemma parse_written_pid: "parse_pid (dec (unat pid) @ [10]) = Some pid"
proof -
  have "utf8_valid (dec (unat pid) @ [10])"
    by (rule ascii_utf8_valid) (auto simp: list_all_iff is_digit_def word_le_nat_alt word_less_nat_alt
        dest!: bspec [OF all_digits_dec [unfolded all_digits_def list_all_iff]])
  moreover have "unat pid \<le> u32_max" using unat_less_pow [of pid] by (simp add: u32_max_def)
  ultimately show ?thesis
    by (simp add: parse_pid_def trim_digits parse_unsigned_digits)
qed


definition same_lock :: "'m LockDisk_scheme \<Rightarrow> 'm LockDisk_scheme \<Rightarrow> bool" where
  "same_lock d d' \<longleftrightarrow> lock_mtime d' = lock_mtime d \<and> clock d' = clock d \<and> self_pid d' = self_pid d"

lemma same_lock_calls:
  "fs_open p d = (r, d') \<Longrightarrow> same_lock d d'"
  "fs_read p d = (r', d') \<Longrightarrow> same_lock d d'"
  "fs_mkdir p d = (r'', d') \<Longrightarrow> same_lock d d'"
  "fs_create_new p d = (r'', d') \<Longrightarrow> same_lock d d'"
  by (auto simp: fs_open_def fs_read_def fs_mkdir_def fs_create_new_def same_lock_def
      attempt_def syscall_def on_file_def set_file_def Let_def
      split: outcome.splits option.splits if_splits)

lemma content_stamp [simp]: "content (stamp d) = content d"
  by (simp add: content_def stamp_def)

lemma quiet_content:
  "fs_open p d = (r, d') \<Longrightarrow> content d' = content d \<and> (\<forall>e. r = Inl e \<longrightarrow> e \<noteq> AlreadyExists)"
  "fs_read p d = (r', d') \<Longrightarrow> content d' = content d \<and> (\<forall>bs. r' = Inr bs \<longrightarrow> content d p = Some bs)"
  "fs_mkdir p d = (r'', d') \<Longrightarrow> content d' = content d"
  "fs_create_new p d = (r'', d') \<Longrightarrow> content d p = Some old \<Longrightarrow>
     content d' = content d \<and> (\<exists>e. r'' = Inl e)"
  "fs_create_new p d = (Inr u, d') \<Longrightarrow> content d' = (content d)(p \<mapsto> [])"
  "fs_write p bs d = (Inr u, d') \<Longrightarrow> content d p = Some old \<Longrightarrow> content d' = (content d)(p \<mapsto> old @ bs)"
  by (auto simp: fs_open_def fs_read_def fs_mkdir_def fs_create_new_def fs_write_def attempt_def
      syscall_def on_file_def append_file_def Let_def refused_def
      split: outcome.splits option.splits if_splits)

lemma read_pid_quiet:
  assumes "read_pid d = (r, d')"
  shows "content d' = content d" "\<exists>found. r = Inr found \<and>
    (\<forall>pid. found = Some pid \<longrightarrow> (\<exists>bs. content d lock_path = Some bs \<and> parse_pid bs = Some pid))"
  using assms quiet_content(2) [of lock_path d]
  by (auto simp: read_pid_def split: prod.splits sum.splits)

lemma read_pid_same_lock: "read_pid d = (r, d') \<Longrightarrow> same_lock d d'"
  using same_lock_calls(2) [of lock_path d] by (auto simp: read_pid_def split: prod.splits sum.splits)

lemma lock_age_quiet:
  assumes "lock_age d = (r, d')"
  shows "content d' = content d" "\<exists>age. r = Inr age \<and>
    (\<forall>a. age = Some a \<longrightarrow> lock_mtime d \<le> clock d \<and> a = clock d - lock_mtime d)"
  using assms quiet_content(1) [of lock_path d] same_lock_calls(1) [of lock_path d]
  by (fastforce simp: lock_age_def same_lock_def split: prod.splits sum.splits if_splits)+

text \<open>
  Claim C25. A live lock is respected: while another engine's heartbeat is recent, or lies in the
  future, an engine that was not told to force the lock never gets it and never changes it,
  whatever the operating system refuses and whatever other processes do.
\<close>

theorem live_lock_is_respected:
  assumes held: "content d lock_path = Some bs"
    and live: "\<not> (lock_mtime d \<le> clock d \<and> LOCK_STALE_MS \<le> clock d - lock_mtime d)"
    and r: "acquire others False d = (r, d')"
  shows "(\<exists>e. r = Inl e) \<and> content d' = content d"
proof -
  obtain r1 d1 where d1: "fs_mkdir [] d = (r1, d1)" by fastforce
  obtain r2 d2 where d2: "fs_create_new lock_path d1 = (r2, d2)" by fastforce
  obtain r3 d3 where d3: "read_pid d2 = (r3, d3)" by fastforce
  obtain r4 d4 where d4: "lock_age d3 = (r4, d4)" by fastforce
  have c: "content d1 = content d" "content d2 = content d" "content d3 = content d" "content d4 = content d"
    using quiet_content(3) [OF d1] quiet_content(4) [OF d2] read_pid_quiet [OF d3] lock_age_quiet [OF d4] held
    by auto
  have times: "lock_mtime d3 = lock_mtime d" "clock d3 = clock d"
    using same_lock_calls(3) [OF d1] same_lock_calls(4) [OF d2] read_pid_same_lock [OF d3]
    by (simp_all add: same_lock_def)
  obtain e where e: "r2 = Inl e" using quiet_content(4) [OF d2] c(1) held by auto
  obtain age where "r4 = Inr age" "\<And>a. age = Some a \<Longrightarrow> \<not> LOCK_STALE_MS \<le> a"
    using lock_age_quiet [OF d4] live times by auto
  moreover obtain found where "r3 = Inr found" using read_pid_quiet [OF d3] by auto
  ultimately show ?thesis
    using r c d1 d2 d3 d4 e
    by (cases r1; cases e)
      (auto simp: acquire_def seq_def lift_io_def split: prod.splits sum.splits option.splits)
qed

text \<open>
  Whoever gets the lock finds its own process id in the lock file: a fresh lock as well
  as one taken over, even when other processes write the file between the write and the
  read-back.
\<close>

lemma acquired_lock_is_ours:
  assumes "acquire others force_unlock d = (Inr pid, d')"
  shows "\<exists>bs. content d' lock_path = Some bs \<and> parse_pid bs = Some pid"
proof -
  from assms obtain d1 where acq: "(case fs_create_new lock_path d1 of
         (Inr _, d2) \<Rightarrow>
           seq stamped (\<lambda>_. seq (lift_io (write_pid (self_pid d2))) (\<lambda>_. ok (self_pid d2))) d2
       | (Inl AlreadyExists, d2) \<Rightarrow>
           seq read_pid (\<lambda>holder. seq lock_age (\<lambda>age.
             let stale = (case age of None \<Rightarrow> False | Some a \<Rightarrow> LOCK_STALE_MS \<le> a) in
             if \<not> stale \<and> \<not> force_unlock then fail Locked else take_over others)) d2
       | (Inl e, d2) \<Rightarrow> (Inl (Io e), d2)) = (Inr pid, d')"
    by (auto simp: acquire_def seq_eq_Inr)
  show ?thesis
  proof (cases "fst (fs_create_new lock_path d1)")
    case (Inr u)
    then obtain d2 where d2: "fs_create_new lock_path d1 = (Inr u, d2)" by (metis prod.collapse)
    with acq have w: "write_pid pid (stamp d2) = (Inr (), d')"
      by (auto simp: seq_eq_Inr stamped_def lift_io_def split: prod.splits sum.splits)
    have "content (stamp d2) lock_path = Some []" using quiet_content(5) [OF d2] by simp
    from quiet_content(6) [OF w [unfolded write_pid_def] this] show ?thesis
      by (simp add: parse_written_pid)
  next
    case (Inl e)
    with acq obtain d2 where "take_over others d2 = (Inr pid, d')"
      by (cases e) (auto simp: seq_eq_Inr Let_def split: prod.splits sum.splits if_splits)
    then obtain d3 where "read_pid d3 = (Inr (Some pid), d')"
      by (auto simp: take_over_def Let_def seq_eq_Inr split: if_splits)
    with read_pid_quiet [OF this] show ?thesis by auto
  qed
qed

text \<open>
  Releasing removes only a lock that is still ours: a lock file naming another process,
  or none, is left alone, and no other file is touched.
\<close>

lemma release_leaves_foreign_locks:
  assumes "release pid d = (r, d')"
  shows "(\<forall>p. p \<noteq> lock_path \<longrightarrow> content d' p = content d p) \<and>
    (\<forall>bs. content d lock_path = Some bs \<and> parse_pid bs \<noteq> Some pid \<longrightarrow> content d' = content d)"
proof -
  obtain r1 d1 where d1: "read_pid d = (r1, d1)" by fastforce
  then obtain found where found: "r1 = Inr found"
      "found = Some pid \<Longrightarrow> \<exists>bs. content d lock_path = Some bs \<and> parse_pid bs = Some pid"
    using read_pid_quiet(2) by blast
  have remove: "content d2 = content d1 \<or> content d2 = (content d1)(lock_path := None)"
    if "fs_remove lock_path d1 = (r2, d2)" for r2 d2
    using that by (auto simp: fs_remove_def attempt_def syscall_def on_file_def Let_def
        split: outcome.splits option.splits)
  show ?thesis
  proof (cases "found = Some pid")
    case True
    with assms d1 found(1) obtain r2 d2 where "fs_remove lock_path d1 = (r2, d2)" "d' = d2"
      by (auto simp: release_def seq_def best_effort_def split: prod.splits sum.splits)
    with remove read_pid_quiet(1) [OF d1] found(2) [OF True] show ?thesis by auto
  next
    case False
    with assms d1 found(1) have "d' = d1" by (auto simp: release_def seq_def)
    then show ?thesis using read_pid_quiet(1) [OF d1] by simp
  qed
qed


section \<open>Examples\<close>

definition demo_recovery :: Recovery where
  "demo_recovery = \<lparr>rv_deleted = [1], rv_pending = [2], rv_tail = Some 2, rv_tail_frames = 0,
     rv_discarded_bytes = 3, rv_quarantined = [], rv_next_segment = 3\<rparr>"

lemma demo_recover: "recover demo_crc 1 demo_log = (Inr demo_recovery, snd (recover demo_crc 1 demo_log))"
proof -
  have "fst (recover demo_crc 1 demo_log) = Inr demo_recovery" by code_simp
  then show ?thesis by (metis prod.collapse)
qed

lemma demo_header: "parse_segment_header demo_tail = Inr 2"
  by (simp add: demo_tail_def parse_encoded_header)

theorem recover_never_loses_a_frame_witness:
  "fate demo_crc 2 demo_tail (content (snd (recover demo_crc 1 demo_log)))"
  using recover_never_loses_a_frame [OF demo_log_ok(1) demo_recover]
  by (simp add: demo_log_content)

theorem recover_report_is_exact_witness:
  "\<exists>fs buf'. amended demo_crc demo_tail fs buf' \<and>
     content (snd (recover demo_crc 1 demo_log)) (segment_path 2) = Some buf' \<and> length fs = 0"
  using recover_report_is_exact [OF demo_log_ok(1) demo_recover]
  by (auto simp: demo_recovery_def demo_log_content)

theorem recover_completes_witness: "\<exists>rv d'. recover demo_crc 0 demo_log = (Inr rv, d')"
proof (rule recover_completes [OF demo_log_ok])
  have "parse_segment_header [] = Inl (Truncated 14 0)" by code_simp
  then show "\<not> foreign_tail 0 (content demo_log)"
    by (auto simp: foreign_tail_def demo_log_content demo_header split: if_splits)
qed

definition demo_foreign :: Disk where
  "demo_foreign = \<lparr>files = [(segment_path 5, [111, 114, 99, 0, 2, 0, 5, 0, 0, 0, 0, 0, 0, 0])],
     faults = (\<lambda>n. if n < 4 then Done else Refused 0), ops = 0, stable = Map.empty, linked = (\<lambda>_. False)\<rparr>"

theorem torn_log_keeps_every_whole_frame_witness:
  "\<exists>k\<le>1. rv_tail_frames demo_recovery = k \<and>
     content (snd (recover demo_crc 1 demo_log)) (segment_path 2) =
       Some (encode_segment_header [] 2 @ concat (take k [demo_frame])) \<and>
     (if k = 1 then [55, 0, 0] = concat [demo_frame]
      else \<exists>torn. strict_prefix torn ([demo_frame] ! k) \<and> [55, 0, 0] = concat (take k [demo_frame]) @ torn)"
proof -
  have "take 3 demo_frame = [55, 0, 0]" by code_simp
  then have "prefix [55, 0, 0] (concat [demo_frame])" by (metis concat.simps take_is_prefix append_Nil2)
  moreover have "length (encode_segment_header [] 2 @ [55, 0, 0]) \<le> 4096"
    by (simp add: encode_segment_header_def)
  ultimately show ?thesis
    using torn_log_keeps_every_whole_frame [OF demo_log_ok(1) demo_recover, of 2 2 "[55, 0, 0]" 4096 "[demo_frame]"]
    by (simp add: demo_recovery_def demo_log_content demo_tail_def demo_is_frame)
qed

text \<open>A lock held by process 7, last refreshed two seconds ago, seen by process 9.\<close>

definition demo_lock :: LockDisk where
  "demo_lock = \<lparr>files = [(lock_path, dec 7 @ [10])], faults = (\<lambda>_. Done), ops = 0, stable = Map.empty, linked = (\<lambda>_. False),
     lock_mtime = 8000, clock = 10000, self_pid = 9\<rparr>"

lemma demo_lock_content: "content demo_lock lock_path = Some (dec 7 @ [10])"
  by (simp add: demo_lock_def content_def)

lemma demo_lock_times: "lock_mtime demo_lock = 8000" "clock demo_lock = 10000"
  by (simp_all add: demo_lock_def)

theorem live_lock_is_respected_witness:
  "content (snd (acquire (\<lambda>d. d) False demo_lock)) = content demo_lock"
  using live_lock_is_respected [OF demo_lock_content _ prod.collapse [symmetric], of "\<lambda>d. d"]
  by (simp add: LOCK_STALE_MS_def demo_lock_times)

end
