(* ===== verification/Orc_Time.thy ===== *)
theory Orc_Time
  imports Orc_Record
begin

text \<open>
  Civil date arithmetic (\<open>src/src/time.rs\<close>): the calendar conversions, the names of hour
  partitions, and RFC 3339 timestamps. The \<open>i64\<close> values of the source stay far from their
  bounds for every day a \<open>u64\<close> of microseconds or an accepted year can give, and are integers here; the final microsecond arithmetic is on \<open>u64\<close> words.
\<close>

section \<open>The calendar\<close>

definition US_PER_SEC :: nat where "US_PER_SEC = 1000000"
definition US_PER_HOUR :: nat where "US_PER_HOUR = 3600 * US_PER_SEC"
definition US_PER_DAY :: nat where "US_PER_DAY = 24 * US_PER_HOUR"
definition MIN_YEAR :: int where "MIN_YEAR = 1970"
definition MAX_YEAR :: int where "MAX_YEAR = 250000"

lemmas us_defs = US_PER_SEC_def US_PER_HOUR_def US_PER_DAY_def

definition is_leap :: "int \<Rightarrow> bool" where
  "is_leap year \<longleftrightarrow> year mod 4 = 0 \<and> (year mod 100 \<noteq> 0 \<or> year mod 400 = 0)"

definition days_in_month :: "int \<Rightarrow> int \<Rightarrow> int" where
  "days_in_month year month =
     (if month \<in> {1, 3, 5, 7, 8, 10, 12} then 31
      else if month \<in> {4, 6, 9, 11} then 30
      else if month = 2 \<and> is_leap year then 29
      else if month = 2 then 28
      else 0)"

text \<open>Days into an era, days into a year and the March-based month, as \<open>days_to_ymd\<close> names them.\<close>

definition yoe_of :: "int \<Rightarrow> int" where
  "yoe_of doe = (doe - doe div 1460 + doe div 36524 - doe div 146096) div 365"

definition year_start :: "int \<Rightarrow> int" where
  "year_start yoe = 365 * yoe + yoe div 4 - yoe div 100"

definition mp_of :: "int \<Rightarrow> int" where "mp_of doy = (5 * doy + 2) div 153"

definition month_start :: "int \<Rightarrow> int" where "month_start mp = (153 * mp + 2) div 5"

definition days_to_ymd :: "int \<Rightarrow> int \<times> int \<times> int" where
  "days_to_ymd days =
     (let z = days + 719468;
          era = z div 146097;
          doe = z mod 146097;
          yoe = yoe_of doe;
          y = yoe + era * 400;
          doy = doe - year_start yoe;
          mp = mp_of doy;
          d = doy - month_start mp + 1;
          m = (if mp < 10 then mp + 3 else mp - 9)
      in (y + (if m \<le> 2 then 1 else 0), m, d))"

definition ymd_to_days :: "int \<Rightarrow> int \<Rightarrow> int \<Rightarrow> int" where
  "ymd_to_days y m d =
     (let y = y - (if m \<le> 2 then 1 else 0);
          era = y div 400;
          yoe = y mod 400;
          mp = (if m > 2 then m - 3 else m + 9);
          doy = month_start mp + d - 1;
          doe = year_start yoe + doy
      in era * 146097 + doe - 719468)"

section \<open>Formatting and parsing\<close>

text \<open>\<open>{y:04}\<close> on a signed number; the sign counts towards the width.\<close>

definition fmt_int :: "nat \<Rightarrow> int \<Rightarrow> rstr" where
  "fmt_int w y = (if 0 \<le> y then pad w (nat y) else 45 # pad (w - 1) (nat (- y)))"

definition hour_partition :: "u64 \<Rightarrow> rstr" where
  "hour_partition ts =
     (let days = unat ts div US_PER_DAY;
          hour = unat ts mod US_PER_DAY div US_PER_HOUR
      in case days_to_ymd (int days) of
           (y, m, d) \<Rightarrow>
             lit ''hour='' @ fmt_int 4 y @ lit ''-'' @ pad 2 (nat m) @ lit ''-'' @ pad 2 (nat d) @
             lit ''T'' @ pad 2 hour)"

definition format_rfc3339_utc :: "u64 \<Rightarrow> rstr" where
  "format_rfc3339_utc ts =
     (let days = unat ts div US_PER_DAY;
          rem = unat ts mod US_PER_DAY;
          h = rem div US_PER_HOUR;
          mi = rem mod US_PER_HOUR div (60 * US_PER_SEC);
          s = rem mod (60 * US_PER_SEC) div US_PER_SEC;
          us = rem mod US_PER_SEC
      in case days_to_ymd (int days) of
           (y, mo, d) \<Rightarrow>
             fmt_int 4 y @ lit ''-'' @ pad 2 (nat mo) @ lit ''-'' @ pad 2 (nat d) @ lit ''T'' @
             pad 2 h @ lit '':'' @ pad 2 mi @ lit '':'' @ pad 2 s @ lit ''.'' @ pad 6 us @ lit ''Z'')"

text \<open>\<open>str::split_once\<close> and \<open>str::split\<close> on a character.\<close>

fun split_once :: "u8 \<Rightarrow> rstr \<Rightarrow> (rstr \<times> rstr) option" where
  "split_once b [] = None"
| "split_once b (c # s) =
     (if c = b then Some ([], s) else map_option (\<lambda>(x, y). (c # x, y)) (split_once b s))"

fun split_on :: "u8 \<Rightarrow> rstr \<Rightarrow> rstr list" where
  "split_on b [] = [[]]"
| "split_on b (c # s) =
     (if c = b then [] # split_on b s
      else case split_on b s of [] \<Rightarrow> [[c]] | x # xs \<Rightarrow> (c # x) # xs)"

definition i64_max :: nat where "i64_max = 2 ^ 63 - 1"

definition next_num :: "rstr list \<Rightarrow> Error + (int \<times> rstr list)" where
  "next_num parts =
     (case parts of
        [] \<Rightarrow> Inl (Config ''invalid timestamp: missing field'')
      | raw # rest \<Rightarrow>
          if raw = [] \<or> \<not> all_digits raw then Inl (Config ''invalid timestamp: not a number'')
          else case parse_unsigned i64_max raw of
                 None \<Rightarrow> Inl (Config ''invalid timestamp: out of range'')
               | Some n \<Rightarrow> Inr (int n, rest))"

text \<open>Three numbers and nothing more, the shape of both the date and the time.\<close>

definition three_nums :: "string \<Rightarrow> rstr list \<Rightarrow> Error + (int \<times> int \<times> int)" where
  "three_nums extra parts =
     rbind (next_num parts) (\<lambda>(a, parts).
     rbind (next_num parts) (\<lambda>(b, parts).
     rbind (next_num parts) (\<lambda>(c, parts).
       if parts \<noteq> [] then Inl (Config extra) else Inr (a, b, c))))"

definition parse_fraction :: "rstr \<Rightarrow> Error + (rstr \<times> nat)" where
  "parse_fraction rest =
     (case split_once 46 rest of
        None \<Rightarrow> Inr (rest, 0)
      | Some (t, frac) \<Rightarrow>
          if frac = [] \<or> length frac > 6 \<or> \<not> all_digits frac
          then Inl (Config ''invalid timestamp: fractional seconds must be 1-6 digits'')
          else case parse_unsigned (2 ^ 64 - 1) frac of
                 None \<Rightarrow> Inl (Config ''invalid timestamp: bad fraction'')
               | Some scaled \<Rightarrow> Inr (t, scaled * 10 ^ (6 - length frac)))"

definition check_date :: "int \<Rightarrow> int \<Rightarrow> int \<Rightarrow> Error + unit" where
  "check_date y mo d =
     (if \<not> (MIN_YEAR \<le> y \<and> y \<le> MAX_YEAR) then Inl (Config ''invalid timestamp: year out of range'')
      else if \<not> (1 \<le> mo \<and> mo \<le> 12) then Inl (Config ''invalid timestamp: month out of range'')
      else if d < 1 \<or> d > days_in_month y mo then Inl (Config ''invalid timestamp: day out of range'')
      else Inr ())"

definition parse_rfc3339_utc :: "rstr \<Rightarrow> Error + u64" where
  "parse_rfc3339_utc s =
     (if \<not> suffix (lit ''Z'') s then Inl (Config ''invalid timestamp: must end with Z'')
      else case split_once 84 (butlast s) of
             None \<Rightarrow> Inl (Config ''invalid timestamp: expected YYYY-MM-DDTHH:MM:SSZ'')
           | Some (date, rest) \<Rightarrow>
               rbind (three_nums ''invalid timestamp: too many fields in the date'' (split_on 45 date))
                 (\<lambda>(y, mo, d).
               rbind (check_date y mo d) (\<lambda>_.
               rbind (parse_fraction rest) (\<lambda>(time, frac_us).
               rbind (three_nums ''invalid timestamp: too many fields in the time'' (split_on 58 time))
                 (\<lambda>(h, mi, sec).
                 if h > 23 \<or> mi > 59 \<or> sec > 59
                 then Inl (Config ''invalid timestamp: hour, minute or second out of range'')
                 else Inr (of_int (ymd_to_days y mo d) * of_nat US_PER_DAY +
                           of_int h * of_nat US_PER_HOUR + of_int mi * 60 * of_nat US_PER_SEC +
                           of_int sec * of_nat US_PER_SEC + of_nat frac_us))))))"

section \<open>The calendar is a bijection\<close>

text \<open>
  The facts about one era and one year are finite; they are computed. The year of an era is
  monotone in the day, so its ends decide it.
\<close>

definition year_len :: "int \<Rightarrow> int" where
  "year_len yoe = (if is_leap (yoe + 1) then 366 else 365)"

lemma year_ends:
  "\<forall>yoe\<in>{0..399}. yoe_of (year_start yoe) = yoe \<and> yoe_of (year_start yoe + year_len yoe - 1) = yoe"
  by code_simp

lemma year_chain:
  "\<forall>yoe\<in>{0..398}. year_start (yoe + 1) = year_start yoe + year_len yoe"
  by code_simp

lemma year_bound: "\<forall>yoe\<in>{0..399}. year_start yoe + year_len yoe \<le> 146097"
  by code_simp

text \<open>The length of a March-based month; the last one is February with its leap day.\<close>

definition month_len :: "int \<Rightarrow> int" where
  "month_len mp = (if mp = 11 then 29 else if mp = 1 \<or> mp = 3 \<or> mp = 6 \<or> mp = 8 then 30 else 31)"

lemma month_ends:
  "\<forall>mp\<in>{0..11}. mp_of (month_start mp) = mp \<and> mp_of (month_start mp + month_len mp - 1) = mp \<and>
     0 \<le> month_start mp \<and> month_start mp + month_len mp \<le> (if mp = 11 then 366 else 337)"
  by code_simp

lemma mp_of_mono: "x \<le> y \<Longrightarrow> mp_of x \<le> mp_of y"
  unfolding mp_of_def by (simp add: zdiv_mono1)

lemma mp_of_month:
  assumes "0 \<le> mp" "mp \<le> 11" "1 \<le> d" "d \<le> month_len mp"
  shows "mp_of (month_start mp + d - 1) = mp"
proof -
  have "mp_of (month_start mp) = mp" "mp_of (month_start mp + month_len mp - 1) = mp"
    using month_ends assms by auto
  moreover have "mp_of (month_start mp) \<le> mp_of (month_start mp + d - 1)"
      "mp_of (month_start mp + d - 1) \<le> mp_of (month_start mp + month_len mp - 1)"
    using assms by (auto intro: mp_of_mono)
  ultimately show ?thesis by simp
qed

definition year_work :: "int \<Rightarrow> int" where
  "year_work doe = doe - doe div 1460 + doe div 36524 - doe div 146096"

lemma div_step:
  fixes x k :: int
  assumes "0 < k" shows "x div k \<le> (x + 1) div k" "(x + 1) div k \<le> x div k + 1"
proof -
  show "x div k \<le> (x + 1) div k" using assms by (intro zdiv_mono1) auto
  have "(x + 1) div k \<le> (x + k) div k" using assms by (intro zdiv_mono1) auto
  then show "(x + 1) div k \<le> x div k + 1" using assms by (simp add: div_add_self2)
qed

lemma year_work_step: "year_work x \<le> year_work (x + 1)"
proof -
  have q: "y div 146096 = (y div 36524) div 4" for y :: int
    using zdiv_zmult2_eq [of 4 y 36524] by simp
  have "b div 4 - a div 4 \<le> b - a" if "a \<le> b" "b \<le> a + 1" for a b :: int
    using that by presburger
  from this [OF div_step [of 36524 x]] div_step [of 1460 x] show ?thesis
    unfolding year_work_def q by simp
qed

lemma year_work_mono: "x \<le> y \<Longrightarrow> year_work x \<le> year_work y"
proof (induction "nat (y - x)" arbitrary: y)
  case (Suc n)
  then have "year_work x \<le> year_work (y - 1)" by (intro Suc.hyps) auto
  with year_work_step [of "y - 1"] show ?case by simp
qed simp

lemma yoe_of_mono: "x \<le> y \<Longrightarrow> yoe_of x \<le> yoe_of y"
  using year_work_mono zdiv_mono1 unfolding yoe_of_def year_work_def by fastforce

lemma yoe_of_year:
  assumes "0 \<le> yoe" "yoe \<le> 399" "0 \<le> doy" "doy < year_len yoe"
  shows "yoe_of (year_start yoe + doy) = yoe"
proof -
  have ends: "yoe_of (year_start yoe) = yoe" "yoe_of (year_start yoe + year_len yoe - 1) = yoe"
    using year_ends assms by auto
  have "yoe_of (year_start yoe) \<le> yoe_of (year_start yoe + doy)"
    using assms by (intro yoe_of_mono) simp
  moreover have "yoe_of (year_start yoe + doy) \<le> yoe_of (year_start yoe + year_len yoe - 1)"
    using assms by (intro yoe_of_mono) simp
  ultimately show ?thesis using ends by simp
qed

lemma year_search:
  assumes "0 \<le> doe" "doe < year_start (int n)" "n \<le> 399"
  shows "\<exists>yoe. 0 \<le> yoe \<and> yoe < int n \<and> year_start yoe \<le> doe \<and> doe < year_start yoe + year_len yoe"
  using assms
proof (induction n)
  case 0
  then show ?case by (simp add: year_start_def)
next
  case (Suc n)
  show ?case
  proof (cases "doe < year_start (int n)")
    case True
    with Suc obtain yoe where "0 \<le> yoe" "yoe < int n" "year_start yoe \<le> doe" "doe < year_start yoe + year_len yoe"
      by auto
    then show ?thesis by (intro exI [of _ yoe]) simp
  next
    case False
    have "year_start (int n + 1) = year_start (int n) + year_len (int n)"
      using year_chain Suc.prems(3) by auto
    with False Suc.prems show ?thesis by (intro exI [of _ "int n"]) (simp add: add.commute)
  qed
qed

lemma doe_split:
  assumes "0 \<le> doe" "doe < 146097"
  obtains yoe doy where "0 \<le> yoe" "yoe \<le> 399" "0 \<le> doy" "doy < year_len yoe"
    and "doe = year_start yoe + doy" "yoe_of doe = yoe"
proof -
  have last: "year_start 399 + year_len 399 = 146097" by code_simp
  obtain yoe where "0 \<le> yoe" "yoe \<le> 399" "year_start yoe \<le> doe" "doe < year_start yoe + year_len yoe"
  proof (cases "doe < year_start 399")
    case True
    with assms year_search [of doe 399] that show ?thesis by fastforce
  next
    case False
    with assms last that [of 399] show ?thesis by simp
  qed
  then show ?thesis
    using that [of yoe "doe - year_start yoe"] yoe_of_year [of yoe "doe - year_start yoe"] by simp
qed

lemma year_len_bounds: "365 \<le> year_len yoe" "year_len yoe \<le> 366"
  by (simp_all add: year_len_def)

text \<open>Assembling and taking apart a date around a given era and year.\<close>

lemma days_to_ymd_parts:
  assumes "0 \<le> yoe" "yoe \<le> 399" "0 \<le> doy" "doy < year_len yoe"
    and "year_start yoe + doy < 146097" "0 \<le> year_start yoe"
  shows "days_to_ymd (era * 146097 + (year_start yoe + doy) - 719468) =
    (let mp = mp_of doy; m = (if mp < 10 then mp + 3 else mp - 9)
     in (yoe + era * 400 + (if m \<le> 2 then 1 else 0), m, doy - month_start mp + 1))"
proof -
  let ?z = "era * 146097 + (year_start yoe + doy)"
  have "?z div 146097 = era" "?z mod 146097 = year_start yoe + doy"
    using assms(3,5,6) by (simp_all add: mod_pos_pos_trivial)
  then show ?thesis
    using yoe_of_year [OF assms(1-4)] by (simp add: days_to_ymd_def Let_def)
qed

lemma ymd_to_days_parts:
  assumes "0 \<le> yoe" "yoe \<le> 399" "0 \<le> mp" "mp \<le> 11"
    and "m = (if mp < 10 then mp + 3 else mp - 9)"
  shows "ymd_to_days (yoe + era * 400 + (if m \<le> 2 then 1 else 0)) m d =
    era * 146097 + (year_start yoe + (month_start mp + d - 1)) - 719468"
proof -
  have "(yoe + era * 400) div 400 = era" "(yoe + era * 400) mod 400 = yoe"
    using assms by (simp_all add: mod_pos_pos_trivial)
  moreover have "(if m > 2 then m - 3 else m + 9) = mp" using assms(3-5) by auto
  ultimately show ?thesis by (simp add: ymd_to_days_def Let_def)
qed

lemma is_leap_era: "is_leap (yoe + era * 400 + 1) = is_leap (yoe + 1)"
proof -
  have "(yoe + era * 400 + 1) mod k = (yoe + 1) mod k" if "k dvd 400" for k :: int
  proof -
    from that obtain j where "400 = k * j" by (rule dvdE)
    then have "yoe + era * 400 + 1 = (yoe + 1) + (era * j) * k" by (simp add: algebra_simps)
    then show ?thesis by (metis mod_mult_self1)
  qed
  from this [of 4] this [of 100] this [of 400] show ?thesis by (simp add: is_leap_def)
qed

lemma days_in_month_march:
  assumes "0 \<le> mp" "mp \<le> 11" and "m = (if mp < 10 then mp + 3 else mp - 9)"
  shows "days_in_month (yoe + era * 400 + (if m \<le> 2 then 1 else 0)) m =
    (if mp = 11 \<and> \<not> is_leap (yoe + 1) then 28 else month_len mp)"
proof -
  have "mp = 0 \<or> mp = 1 \<or> mp = 2 \<or> mp = 3 \<or> mp = 4 \<or> mp = 5 \<or> mp = 6 \<or> mp = 7 \<or> mp = 8 \<or> mp = 9 \<or>
      mp = 10 \<or> mp = 11" using assms(1,2) by presburger
  then show ?thesis
    unfolding assms(3) by (elim disjE) (simp_all add: days_in_month_def month_len_def is_leap_era)
qed

lemma month_of_day:
  "\<forall>doy\<in>{0..365}. 0 \<le> mp_of doy \<and> mp_of doy \<le> 11 \<and> month_start (mp_of doy) \<le> doy \<and>
     doy - month_start (mp_of doy) + 1 \<le> month_len (mp_of doy) \<and>
     (doy = 365 \<or> mp_of doy < 11 \<or> doy - month_start (mp_of doy) + 1 \<le> 28)"
  by code_simp

definition valid_date :: "int \<Rightarrow> int \<Rightarrow> int \<Rightarrow> bool" where
  "valid_date y m d \<longleftrightarrow> 1 \<le> m \<and> m \<le> 12 \<and> 1 \<le> d \<and> d \<le> days_in_month y m"

lemma year_start_nonneg: "0 \<le> yoe \<Longrightarrow> 0 \<le> year_start yoe"
  unfolding year_start_def by linarith

lemma days_to_ymd_valid:
  assumes "days_to_ymd n = (y, m, d)"
  shows "ymd_to_days y m d = n" "valid_date y m d"
proof -
  let ?z = "n + 719468"
  define era where "era = ?z div 146097"
  have less: "?z mod 146097 < 146097" by simp
  have "0 \<le> ?z mod 146097" by simp
  from this less obtain yoe doy where yd: "0 \<le> yoe" "yoe \<le> 399" "0 \<le> doy" "doy < year_len yoe"
    and doe: "?z mod 146097 = year_start yoe + doy" by (rule doe_split)
  define mp where "mp = mp_of doy"
  have n: "n = era * 146097 + (year_start yoe + doy) - 719468"
    using div_mult_mod_eq [of ?z 146097] by (simp add: era_def doe)
  have doy: "doy \<in> {0..365}" using yd year_len_bounds(2) [of yoe] by auto
  note month = bspec [OF month_of_day this, folded mp_def]
  have "days_to_ymd n = (let m = (if mp < 10 then mp + 3 else mp - 9)
     in (yoe + era * 400 + (if m \<le> 2 then 1 else 0), m, doy - month_start mp + 1))"
    unfolding n mp_def Let_def
    by (rule days_to_ymd_parts [OF yd _ year_start_nonneg [OF yd(1)], unfolded Let_def])
      (metis doe less)
  with assms have ymd: "m = (if mp < 10 then mp + 3 else mp - 9)"
    "y = yoe + era * 400 + (if m \<le> 2 then 1 else 0)" "d = doy - month_start mp + 1"
    unfolding Let_def by auto
  show "ymd_to_days y m d = n"
    unfolding ymd(2) using ymd_to_days_parts [of yoe mp m era d] yd month ymd(1,3) n by simp
  have "doy = 365 \<Longrightarrow> is_leap (yoe + 1)" using yd by (simp add: year_len_def split: if_splits)
  moreover have "days_in_month y m = (if mp = 11 \<and> \<not> is_leap (yoe + 1) then 28 else month_len mp)"
    unfolding ymd(2) using month by (intro days_in_month_march ymd(1)) auto
  ultimately have "d \<le> days_in_month y m" using month unfolding ymd(3) by (cases "mp = 11") auto
  moreover have "1 \<le> m" "m \<le> 12" using ymd(1) month by auto
  ultimately show "valid_date y m d" using month ymd(3) by (simp add: valid_date_def)
qed

lemma ymd_to_days_inverse:
  assumes "valid_date y m d" shows "days_to_ymd (ymd_to_days y m d) = (y, m, d)"
proof -
  define y0 where "y0 = y - (if m \<le> 2 then 1 else 0)"
  define mp where "mp = (if m > 2 then m - 3 else m + 9)"
  define era where "era = y0 div 400"
  define yoe where "yoe = y0 mod 400"
  have m: "m = (if mp < 10 then mp + 3 else mp - 9)" "0 \<le> mp" "mp \<le> 11"
    using assms by (auto simp: valid_date_def mp_def)
  have yoe: "0 \<le> yoe" "yoe \<le> 399" using pos_mod_bound [of 400 y0] by (simp_all add: yoe_def)
  have y: "y = yoe + era * 400 + (if m \<le> 2 then 1 else 0)"
    using div_mult_mod_eq [of y0 400] by (simp add: era_def yoe_def y0_def)
  have d: "1 \<le> d" "d \<le> month_len mp" "mp = 11 \<Longrightarrow> \<not> is_leap (yoe + 1) \<Longrightarrow> d \<le> 28"
    using assms unfolding valid_date_def y days_in_month_march [OF m(2,3,1)]
    by (auto simp: month_len_def split: if_splits)
  note ends = bspec [OF month_ends, of mp]
  have doy: "0 \<le> month_start mp + d - 1" "month_start mp + d - 1 < year_len yoe"
    using ends m d by (auto simp: year_len_def month_len_def split: if_splits)
  have "ymd_to_days y m d = era * 146097 + (year_start yoe + (month_start mp + d - 1)) - 719468"
    unfolding y by (rule ymd_to_days_parts [OF yoe m(2,3,1)])
  moreover have "year_start yoe + (month_start mp + d - 1) < 146097"
    using bspec [OF year_bound, of yoe] yoe doy by simp
  ultimately show ?thesis
    using days_to_ymd_parts [OF yoe doy _ year_start_nonneg [OF yoe(1)], of era] mp_of_month [OF m(2,3) d(1,2)] m y
    by (simp add: Let_def)
qed


text \<open>
  Claim C30. The calendar conversions are exact inverses: every day count converts to a valid civil
  date that converts back to it, and every valid date, leap days and days before 1970
  included, converts to a day count that converts back to it.
\<close>

theorem calendar_is_exact:
  "(case days_to_ymd n of (y, m, d) \<Rightarrow> ymd_to_days y m d = n \<and> valid_date y m d) \<and>
   (valid_date y m d \<longrightarrow> days_to_ymd (ymd_to_days y m d) = (y, m, d))"
  using days_to_ymd_valid [of n] ymd_to_days_inverse [of y m d] by (auto split: prod.splits)

theorem calendar_is_exact_witness:
  "days_to_ymd (ymd_to_days 2024 2 29) = (2024, 2, 29) \<and> valid_date 2024 2 29"
proof -
  have "valid_date 2024 2 29" by code_simp
  with calendar_is_exact [of 0 2024 2 29] show ?thesis by simp
qed

section \<open>Timestamps round trip\<close>

lemma split_once_first: "b \<notin> set x \<Longrightarrow> split_once b (x @ b # y) = Some (x, y)"
  by (induction x) auto

lemma split_on_first: "b \<notin> set x \<Longrightarrow> split_on b (x @ b # y) = x # split_on b y"
  by (induction x) auto

lemma split_on_none: "b \<notin> set x \<Longrightarrow> split_on b x = [x]"
  by (induction x) auto

lemma digits_no_sep: "all_digits s \<Longrightarrow> \<not> is_digit b \<Longrightarrow> b \<notin> set s"
  by (auto simp: all_digits_def list_all_iff)

lemma not_digit_separators: "\<not> is_digit 45" "\<not> is_digit 46" "\<not> is_digit 58" "\<not> is_digit 84" "\<not> is_digit 90"
  by code_simp+

lemma next_num_pad:
  assumes "n \<le> i64_max" shows "next_num (pad w n # rest) = Inr (int n, rest)"
  using assms by (simp add: next_num_def parse_unsigned_digits)

lemma pad_no_sep [simp]: "45 \<notin> set (pad w n)" "46 \<notin> set (pad w n)" "58 \<notin> set (pad w n)"
  "84 \<notin> set (pad w n)" "90 \<notin> set (pad w n)"
  using digits_no_sep [OF all_digits_pad] not_digit_separators by auto

lemma three_nums_pads:
  assumes "a \<le> i64_max" "b \<le> i64_max" "c \<le> i64_max" and "\<not> is_digit sep"
  shows "three_nums extra (split_on sep (pad u a @ sep # pad v b @ sep # pad w c)) =
    Inr (int a, int b, int c)"
  using assms digits_no_sep [OF all_digits_pad assms(4)]
  by (simp add: three_nums_def split_on_first split_on_none next_num_pad)

lemma year_from_1970:
  assumes "0 \<le> n" "days_to_ymd n = (y, m, d)" shows "1970 \<le> y"
proof -
  define era where "era = (n + 719468) div 146097"
  define doe where "doe = (n + 719468) mod 146097"
  have z: "n + 719468 = era * 146097 + doe" "0 \<le> doe" "doe < 146097"
    using div_mult_mod_eq [of "n + 719468" 146097] by (simp_all add: era_def doe_def)
  obtain yoe doy where yd: "0 \<le> yoe" "0 \<le> doy" "doe = year_start yoe + doy" "yoe_of doe = yoe"
    and "doy < year_len yoe"
    using doe_split [OF z(2,3)] by metis
  then have "mp_of doy \<le> 11" using month_of_day year_len_bounds(2) [of yoe] by auto
  have era: "4 \<le> era" using z assms(1) by linarith
  have y: "y = yoe + era * 400 + (if mp_of doy < 10 then 0 else 1)"
    using assms(2) mp_of_mono [OF yd(2)] yd(3,4) \<open>mp_of doy \<le> 11\<close>
    by (auto simp: days_to_ymd_def Let_def era_def [symmetric] doe_def [symmetric] mp_of_def [of 0]
        split: if_splits)
  show ?thesis
  proof (cases "era = 4")
    case True
    then have "135080 \<le> doe" using z assms(1) by linarith
    moreover have "yoe_of 135080 = 369" by code_simp
    ultimately have yoe: "369 \<le> yoe" using yoe_of_mono [of 135080 doe] yd(4) by simp
    show ?thesis
    proof (cases "yoe = 369")
      case yoe: True
      then have "306 \<le> doy" using \<open>135080 \<le> doe\<close> yd(3) by (simp add: year_start_def)
      moreover have "mp_of 306 = 10" by code_simp
      ultimately have "10 \<le> mp_of doy" using mp_of_mono [of 306 doy] by simp
      with y True yoe show ?thesis by simp
    qed (use y True yoe in simp)
  qed (use y era yd(1) in auto)
qed

lemma clock_parts:
  assumes "rem < US_PER_DAY"
  shows "rem = rem div US_PER_HOUR * US_PER_HOUR + rem mod US_PER_HOUR div (60 * US_PER_SEC) * (60 * US_PER_SEC) +
      rem mod (60 * US_PER_SEC) div US_PER_SEC * US_PER_SEC + rem mod US_PER_SEC"
    and "rem div US_PER_HOUR < 24" "rem mod US_PER_HOUR div (60 * US_PER_SEC) < 60"
    "rem mod (60 * US_PER_SEC) div US_PER_SEC < 60" "rem mod US_PER_SEC < 1000000"
proof -
  have us: "US_PER_HOUR = 60 * (60 * US_PER_SEC)" "US_PER_DAY = 24 * US_PER_HOUR" by (simp_all add: us_defs)
  have mm: "rem mod US_PER_HOUR mod (60 * US_PER_SEC) = rem mod (60 * US_PER_SEC)"
    "rem mod (60 * US_PER_SEC) mod US_PER_SEC = rem mod US_PER_SEC"
    by (simp_all add: us mod_mod_cancel)
  show "rem = rem div US_PER_HOUR * US_PER_HOUR + rem mod US_PER_HOUR div (60 * US_PER_SEC) * (60 * US_PER_SEC) +
      rem mod (60 * US_PER_SEC) div US_PER_SEC * US_PER_SEC + rem mod US_PER_SEC"
    using div_mult_mod_eq [of rem US_PER_HOUR] div_mult_mod_eq [of "rem mod US_PER_HOUR" "60 * US_PER_SEC"]
      div_mult_mod_eq [of "rem mod (60 * US_PER_SEC)" US_PER_SEC] mm by linarith
  show "rem div US_PER_HOUR < 24" using assms us by (simp add: less_mult_imp_div_less)
  show "rem mod US_PER_HOUR div (60 * US_PER_SEC) < 60"
    using mod_less_divisor [of US_PER_HOUR rem] us by (simp add: less_mult_imp_div_less us_defs)
  show "rem mod (60 * US_PER_SEC) div US_PER_SEC < 60"
    using mod_less_divisor [of "60 * US_PER_SEC" rem] by (simp add: less_mult_imp_div_less us_defs)
  show "rem mod US_PER_SEC < 1000000" by (simp add: us_defs)
qed

lemma parse_fraction_pad:
  assumes "us < 1000000" "46 \<notin> set t"
  shows "parse_fraction (t @ 46 # pad 6 us) = Inr (t, us)"
proof -
  have "length (pad 6 us) = 6" using assms(1) by (intro length_pad_exact) simp_all
  then show ?thesis
    using assms by (simp add: parse_fraction_def split_once_first parse_unsigned_digits)
qed

lemma parse_format:
  assumes ymd: "days_to_ymd (int (unat ts div US_PER_DAY)) = (y, mo, d)" and y: "y \<le> MAX_YEAR"
  shows "parse_rfc3339_utc (format_rfc3339_utc ts) = Inr ts"
proof -
  define rem where "rem = unat ts mod US_PER_DAY"
  define h where "h = rem div US_PER_HOUR"
  define mi where "mi = rem mod US_PER_HOUR div (60 * US_PER_SEC)"
  define sec where "sec = rem mod (60 * US_PER_SEC) div US_PER_SEC"
  define us where "us = rem mod US_PER_SEC"
  have "rem < US_PER_DAY" by (simp add: rem_def us_defs)
  note clock = clock_parts [OF this, folded h_def mi_def sec_def us_def]
  have date: "valid_date y mo d" "ymd_to_days y mo d = int (unat ts div US_PER_DAY)" "1970 \<le> y"
    using days_to_ymd_valid [OF ymd] year_from_1970 [OF _ ymd] by auto
  have small: "nat y \<le> i64_max" "nat mo \<le> i64_max" "nat d \<le> i64_max" "h \<le> i64_max" "mi \<le> i64_max" "sec \<le> i64_max"
    using date y clock by (auto simp: valid_date_def days_in_month_def i64_max_def MAX_YEAR_def split: if_splits)
  let ?date = "pad 4 (nat y) @ 45 # pad 2 (nat mo) @ 45 # pad 2 (nat d)"
  let ?time = "pad 2 h @ 58 # pad 2 mi @ 58 # pad 2 sec"
  have fmt: "format_rfc3339_utc ts = (?date @ 84 # ?time @ 46 # pad 6 us) @ [90]"
    unfolding format_rfc3339_utc_def Let_def ymd prod.case rem_def [symmetric]
    using date(3) by (simp add: fmt_int_def lit_def h_def mi_def sec_def us_def)
  have exact: "of_int (ymd_to_days y mo d) * of_nat US_PER_DAY + of_int (int h) * of_nat US_PER_HOUR +
      of_int (int mi) * 60 * of_nat US_PER_SEC + of_int (int sec) * of_nat US_PER_SEC + of_nat us = ts"
  proof -
    have "unat ts = unat ts div US_PER_DAY * US_PER_DAY + (h * US_PER_HOUR + mi * (60 * US_PER_SEC) +
        sec * US_PER_SEC + us)"
      using clock(1) div_mult_mod_eq [of "unat ts" US_PER_DAY] by (simp add: rem_def)
    then have "of_nat (unat ts) = (of_nat (unat ts div US_PER_DAY * US_PER_DAY + (h * US_PER_HOUR +
        mi * (60 * US_PER_SEC) + sec * US_PER_SEC + us)) :: u64)" by metis
    then show ?thesis by (simp add: date(2) algebra_simps)
  qed
  have "three_nums e (split_on 45 ?date) = Inr (y, mo, d)" for e
    using three_nums_pads [of "nat y" "nat mo" "nat d" 45] small date not_digit_separators
    by (simp add: valid_date_def)
  moreover have "check_date y mo d = Inr ()"
    using date y by (auto simp: check_date_def valid_date_def MIN_YEAR_def)
  moreover have "parse_fraction (?time @ 46 # pad 6 us) = Inr (?time, us)"
    by (rule parse_fraction_pad) (use clock in auto)
  moreover have "three_nums e (split_on 58 ?time) = Inr (int h, int mi, int sec)" for e
    using three_nums_pads [of h mi sec 58] small not_digit_separators by simp
  moreover have "split_once 84 (?date @ 84 # ?time @ 46 # pad 6 us) = Some (?date, ?time @ 46 # pad 6 us)"
    by (rule split_once_first) simp
  ultimately show ?thesis
    unfolding parse_rfc3339_utc_def fmt butlast_snoc
    using clock exact by (simp add: lit_def suffix_def)
qed

text \<open>
  Formatting a timestamp and parsing it again gives the timestamp back, to the
  microsecond, for every timestamp whose year the parser accepts.
\<close>

lemma timestamp_roundtrip:
  assumes "fst (days_to_ymd (int (unat ts div US_PER_DAY))) \<le> MAX_YEAR"
  shows "parse_rfc3339_utc (format_rfc3339_utc ts) = Inr ts"
  using parse_format assms by (metis fst_conv surj_pair)

section \<open>No overflow, and one directory per hour\<close>

lemma year_start_mono: "x \<le> y \<Longrightarrow> year_start x \<le> year_start y"
proof -
  assume le: "x \<le> y"
  then have "y div 100 \<le> (x + (y - x) * 100) div 100" by (intro zdiv_mono1) auto
  also have "\<dots> = x div 100 + (y - x)" by simp
  finally have "y div 100 \<le> x div 100 + (y - x)" .
  moreover have "x div 4 \<le> y div 4" using le by (simp add: zdiv_mono1)
  ultimately show ?thesis using le unfolding year_start_def by simp
qed

lemma ymd_to_days_range:
  assumes "valid_date y m d" "MIN_YEAR \<le> y" "y \<le> MAX_YEAR"
  shows "0 \<le> ymd_to_days y m d" "ymd_to_days y m d < 626 * 146097"
proof -
  define y0 where "y0 = y - (if m \<le> 2 then 1 else 0)"
  define mp where "mp = (if m > 2 then m - 3 else m + 9)"
  have mp: "0 \<le> mp" "mp \<le> 11" "m \<le> 2 \<Longrightarrow> 10 \<le> mp" using assms(1) by (auto simp: valid_date_def mp_def)
  obtain era yoe where ey: "era = y0 div 400" "yoe = y0 mod 400" by blast
  have y0_eq: "y0 = era * 400 + yoe" "0 \<le> yoe" "yoe \<le> 399"
    using pos_mod_bound [of 400 y0] by (simp_all add: ey)
  have days: "ymd_to_days y m d = era * 146097 + (year_start yoe + (month_start mp + d - 1)) - 719468"
    by (simp add: ymd_to_days_def Let_def y0_def mp_def ey)
  have d: "1 \<le> d" "d \<le> 31" using assms(1) by (auto simp: valid_date_def days_in_month_def split: if_splits)
  have start: "0 \<le> month_start mp" "month_start mp \<le> 337" using bspec [OF month_ends, of mp] mp
    by (auto simp: month_len_def split: if_splits)
  have y0: "1969 \<le> y0" "y0 \<le> 250000" using assms by (auto simp: y0_def MIN_YEAR_def MAX_YEAR_def)
  have ys: "0 \<le> year_start yoe" "year_start yoe \<le> 145731"
    using year_start_nonneg year_start_mono [OF y0_eq(3)] y0_eq(2) by (auto simp: year_start_def [of 399])
  have "era \<le> 625" using y0 y0_eq by simp
  then show "ymd_to_days y m d < 626 * 146097" using days ys d start by simp
  have "4 \<le> era" using y0(1) y0_eq by simp
  then consider "5 \<le> era" | "era = 4" "yoe = 369" | "era = 4" "370 \<le> yoe" using y0(1) y0_eq by linarith
  then show "0 \<le> ymd_to_days y m d"
  proof cases
    case 1
    then show ?thesis using days ys d start by simp
  next
    case 2
    then have "y0 = 1969" using y0_eq by simp
    then have "10 \<le> mp" using mp(3) assms(2) by (auto simp: y0_def MIN_YEAR_def split: if_splits)
    then have "306 \<le> month_start mp" using zdiv_mono1 [of "153 * 10 + 2" "153 * mp + 2" 5] by (simp add: month_start_def)
    with 2 days d show ?thesis by (simp add: year_start_def)
  next
    case 3
    with days d start year_start_mono [of 370 yoe] show ?thesis
      by (simp add: year_start_def [of 370])
  qed
qed

subsection \<open>What the parser accepts\<close>

lemma split_once_Some: "split_once b s = Some (x, y) \<longleftrightarrow> s = x @ b # y \<and> b \<notin> set x"
proof
  show "split_once b s = Some (x, y) \<Longrightarrow> s = x @ b # y \<and> b \<notin> set x"
    by (induction s arbitrary: x) (auto split: if_splits)
qed (simp add: split_once_first)

lemma split_once_None: "split_once b s = None \<longleftrightarrow> b \<notin> set s"
  by (induction s) auto

lemma split_on_Cons:
  "split_on b s = x # xs \<longleftrightarrow> b \<notin> set x \<and> (if xs = [] then s = x else \<exists>t. s = x @ b # t \<and> split_on b t = xs)"
proof
  show "split_on b s = x # xs \<Longrightarrow> b \<notin> set x \<and> (if xs = [] then s = x else \<exists>t. s = x @ b # t \<and> split_on b t = xs)"
  proof (induction s arbitrary: x xs)
    case (Cons c s)
    have ne: "split_on b s \<noteq> []" by (induction s) (auto split: list.splits)
    show ?case
    proof (cases "c = b")
      case True
      with Cons.prems ne show ?thesis by auto
    next
      case False
      with Cons.prems ne obtain y where "split_on b s = y # xs" "x = c # y" by (auto split: list.splits)
      with Cons.IH [of y xs] False show ?thesis by (auto split: if_splits)
    qed
  qed auto
next
  show "b \<notin> set x \<and> (if xs = [] then s = x else \<exists>t. s = x @ b # t \<and> split_on b t = xs) \<Longrightarrow> split_on b s = x # xs"
    by (auto simp: split_on_first split_on_none split: if_splits)
qed

definition is_number :: "rstr \<Rightarrow> bool" where
  "is_number s \<longleftrightarrow> s \<noteq> [] \<and> all_digits s"

lemma next_num_Inr:
  "next_num parts = Inr (n, rest) \<longleftrightarrow> (\<exists>s. parts = s # rest \<and> is_number s \<and> undec s \<le> i64_max \<and> n = int (undec s))"
  by (auto simp: next_num_def is_number_def parse_unsigned_digits split: list.splits)

lemma three_nums_Inr:
  "three_nums e parts = Inr (a, b, c) \<longleftrightarrow>
     (\<exists>x y z. parts = [x, y, z] \<and> list_all (\<lambda>s. is_number s \<and> undec s \<le> i64_max) [x, y, z] \<and> a = int (undec x) \<and> b = int (undec y) \<and> c = int (undec z))"
  by (auto simp: three_nums_def rbind_eq_Inr next_num_Inr split: if_splits)

lemma three_fields:
  assumes "\<not> is_digit sep"
  shows "three_nums e (split_on sep s) = Inr (a, b, c) \<longleftrightarrow>
     (\<exists>x y z. s = x @ sep # y @ sep # z \<and> list_all (\<lambda>s. is_number s \<and> undec s \<le> i64_max) [x, y, z] \<and> a = int (undec x) \<and> b = int (undec y) \<and> c = int (undec z))"
proof -
  have "sep \<notin> set x" if "is_number x" for x using that assms digits_no_sep by (auto simp: is_number_def)
  then show ?thesis unfolding three_nums_Inr split_on_Cons by (auto simp: split_on_Cons)
qed

text \<open>The fraction of a second, as it is written behind the time, and its microseconds.\<close>

fun fraction_text :: "rstr option \<Rightarrow> rstr" where
  "fraction_text None = []"
| "fraction_text (Some f) = 46 # f"

fun fraction_ok :: "rstr option \<Rightarrow> bool" where
  "fraction_ok None = True"
| "fraction_ok (Some f) = (is_number f \<and> length f \<le> 6)"

fun fraction_us :: "rstr option \<Rightarrow> nat" where
  "fraction_us None = 0"
| "fraction_us (Some f) = undec f * 10 ^ (6 - length f)"

lemma fraction_us_bound: "fraction_ok fr \<Longrightarrow> fraction_us fr < 1000000"
proof (cases fr)
  case (Some f)
  assume "fraction_ok fr"
  with Some have f: "undec f < 10 ^ length f" "length f \<le> 6" by (auto simp: is_number_def undec_bound)
  then have "undec f * 10 ^ (6 - length f) < 10 ^ length f * 10 ^ (6 - length f)" by simp
  also have "\<dots> = 10 ^ 6" using f(2) by (simp flip: power_add)
  finally show ?thesis by (simp add: Some)
qed simp

lemma parse_fraction_Inr:
  "parse_fraction rest = Inr (t, us) \<longleftrightarrow> 46 \<notin> set t \<and> (\<exists>fr. rest = t @ fraction_text fr \<and> fraction_ok fr \<and> us = fraction_us fr)"
proof -
  have small: "undec f \<le> 2 ^ 64 - 1" if "is_number f" "length f \<le> 6" for f
    using fraction_us_bound [of "Some f"] that undec_bound [of f] power_increasing [of "length f" 6 "10 :: nat"] by (simp add: is_number_def)
  show ?thesis
  proof (cases "split_once 46 rest")
    case None
    then have no: "46 \<notin> set rest" by (simp add: split_once_None)
    then have "rest = t @ fraction_text fr \<longleftrightarrow> fr = None \<and> rest = t" for fr by (cases fr) auto
    with None no show ?thesis by (auto simp: parse_fraction_def)
  next
    case (Some p)
    obtain x f where p: "p = (x, f)" by (rule prod.exhaust)
    with Some have rest: "rest = x @ 46 # f" "46 \<notin> set x" by (simp_all add: split_once_Some)
    have "parse_fraction rest = Inr (t, us) \<longleftrightarrow> t = x \<and> fraction_ok (Some f) \<and> us = fraction_us (Some f)"
      using Some p small [of f] by (auto simp: parse_fraction_def is_number_def parse_unsigned_digits)
    moreover have "46 \<notin> set t \<and> rest = t @ fraction_text fr \<longleftrightarrow> t = x \<and> fr = option.Some f" for fr
      using rest split_once_first [of 46 t] Some p by (cases fr) auto
    ultimately show ?thesis by blast
  qed
qed

lemma unat_of_nat_u64: "n < 2 ^ 64 \<Longrightarrow> unat (of_nat n :: u64) = n"
  by (simp add: unat_of_nat)

text \<open>A timestamp as its seven fields are written, and the microseconds it stands for.\<close>

definition timestamp_text :: "rstr \<Rightarrow> rstr \<Rightarrow> rstr \<Rightarrow> rstr \<Rightarrow> rstr \<Rightarrow> rstr \<Rightarrow> rstr option \<Rightarrow> rstr" where
  "timestamp_text y mo d h mi sec fr =
     y @ lit ''-'' @ mo @ lit ''-'' @ d @ lit ''T'' @ h @ lit '':'' @ mi @ lit '':'' @ sec @ fraction_text fr @ lit ''Z''"

definition timestamp_us :: "int \<Rightarrow> int \<Rightarrow> int \<Rightarrow> nat \<Rightarrow> nat \<Rightarrow> nat \<Rightarrow> nat \<Rightarrow> nat" where
  "timestamp_us y mo d h mi sec us = nat (ymd_to_days y mo d) * US_PER_DAY + h * US_PER_HOUR + mi * (60 * US_PER_SEC) + sec * US_PER_SEC + us"

lemma timestamp_us_exact:
  assumes "valid_date y mo d" "MIN_YEAR \<le> y" "y \<le> MAX_YEAR" "h < 24" "mi < 60" "sec < 60" "us < 1000000"
  shows "unat (of_int (ymd_to_days y mo d) * of_nat US_PER_DAY + of_int (int h) * of_nat US_PER_HOUR + of_int (int mi) * 60 * of_nat US_PER_SEC +
      of_int (int sec) * of_nat US_PER_SEC + of_nat us :: u64) = timestamp_us y mo d h mi sec us"
proof -
  note range = ymd_to_days_range [OF assms(1-3)]
  have "nat (ymd_to_days y mo d) < 626 * 146097" using range by simp
  then have bound: "timestamp_us y mo d h mi sec us < 2 ^ 64" using assms(4-) by (simp add: timestamp_us_def us_defs)
  have "of_int (ymd_to_days y mo d) = (of_nat (nat (ymd_to_days y mo d)) :: u64)" using range(1) by simp
  then have "(of_int (ymd_to_days y mo d) * of_nat US_PER_DAY + of_int (int h) * of_nat US_PER_HOUR + of_int (int mi) * 60 * of_nat US_PER_SEC +
      of_int (int sec) * of_nat US_PER_SEC + of_nat us :: u64) = of_nat (timestamp_us y mo d h mi sec us)"
    by (simp only: timestamp_us_def) (simp add: algebra_simps)
  then show ?thesis using unat_of_nat_u64 [OF bound] by (simp only:)
qed

lemma check_date_Inr: "check_date y mo d = Inr () \<longleftrightarrow> MIN_YEAR \<le> y \<and> y \<le> MAX_YEAR \<and> valid_date y mo d"
  by (auto simp: check_date_def valid_date_def)

lemma parse_rfc3339_sound:
  assumes "parse_rfc3339_utc s = Inr ts"
  shows "\<exists>y mo d h mi sec fr. s = timestamp_text y mo d h mi sec fr \<and> list_all is_number [y, mo, d, h, mi, sec] \<and> fraction_ok fr \<and>
    valid_date (int (undec y)) (int (undec mo)) (int (undec d)) \<and> MIN_YEAR \<le> int (undec y) \<and> int (undec y) \<le> MAX_YEAR \<and>
    undec h < 24 \<and> undec mi < 60 \<and> undec sec < 60 \<and>
    unat ts = timestamp_us (int (undec y)) (int (undec mo)) (int (undec d)) (undec h) (undec mi) (undec sec) (fraction_us fr)"
proof -
  obtain date rest where z: "suffix (lit ''Z'') s" and split: "split_once 84 (butlast s) = Some (date, rest)"
    using assms by (auto simp: parse_rfc3339_utc_def split: if_splits option.splits)
  with assms obtain y mo d time us h mi sec
    where date: "three_nums ''invalid timestamp: too many fields in the date'' (split_on 45 date) = Inr (y, mo, d)" "check_date y mo d = Inr ()"
    and us: "parse_fraction rest = Inr (time, us)"
    and time: "three_nums ''invalid timestamp: too many fields in the time'' (split_on 58 time) = Inr (h, mi, sec)" "h \<le> 23" "mi \<le> 59" "sec \<le> 59"
    and ts: "ts = of_int (ymd_to_days y mo d) * of_nat US_PER_DAY + of_int h * of_nat US_PER_HOUR +
      of_int mi * 60 * of_nat US_PER_SEC + of_int sec * of_nat US_PER_SEC + of_nat us"
    by (fastforce simp: parse_rfc3339_utc_def rbind_eq_Inr not_less split: if_splits)
  from date(1) obtain y' mo' d' where D: "date = y' @ 45 # mo' @ 45 # d'" "list_all is_number [y', mo', d']" "y = int (undec y')" "mo = int (undec mo')" "d = int (undec d')"
    unfolding three_fields [OF not_digit_separators(1)] by auto
  from time(1) obtain h' mi' sec' where T: "time = h' @ 58 # mi' @ 58 # sec'" "list_all is_number [h', mi', sec']" "h = int (undec h')" "mi = int (undec mi')" "sec = int (undec sec')"
    unfolding three_fields [OF not_digit_separators(3)] by auto
  from us obtain fr where F: "rest = time @ fraction_text fr" "fraction_ok fr" "us = fraction_us fr" unfolding parse_fraction_Inr by blast
  have "butlast s = date @ 84 # rest" using split by (simp add: split_once_Some)
  with z have "s = (date @ 84 # rest) @ [90]" by (auto simp: suffix_def lit_def)
  then have "s = timestamp_text y' mo' d' h' mi' sec' fr" by (simp add: timestamp_text_def lit_def D(1) T(1) F(1))
  moreover have "unat ts = timestamp_us y mo d (undec h') (undec mi') (undec sec') (fraction_us fr)"
    unfolding ts T(3-5) F(3)
    by (rule timestamp_us_exact) (use date(2) time(2-4) fraction_us_bound [OF F(2)] in \<open>simp_all add: check_date_Inr T(3-5)\<close>)
  moreover have "list_all is_number [y', mo', d', h', mi', sec']" using D(2) T(2) by simp
  moreover have "undec h' < 24" "undec mi' < 60" "undec sec' < 60" using time(2-4) by (simp_all add: T(3-5))
  moreover have "valid_date y mo d" "MIN_YEAR \<le> y" "y \<le> MAX_YEAR" using date(2) by (simp_all add: check_date_Inr)
  ultimately show ?thesis using F(2) unfolding D(3-5) by blast
qed

lemma parse_rfc3339_complete:
  assumes num: "list_all is_number [y, mo, d, h, mi, sec]" "fraction_ok fr"
    and date: "valid_date (int (undec y)) (int (undec mo)) (int (undec d))" "MIN_YEAR \<le> int (undec y)" "int (undec y) \<le> MAX_YEAR"
    and time: "undec h < 24" "undec mi < 60" "undec sec < 60"
    and ts: "unat ts = timestamp_us (int (undec y)) (int (undec mo)) (int (undec d)) (undec h) (undec mi) (undec sec) (fraction_us fr)"
  shows "parse_rfc3339_utc (timestamp_text y mo d h mi sec fr) = Inr ts"
proof -
  let ?date = "y @ 45 # mo @ 45 # d" and ?time = "h @ 58 # mi @ 58 # sec" and ?Y = "int (undec y)" and ?M = "int (undec mo)" and ?D = "int (undec d)"
  have digits: "all_digits y" "all_digits mo" "all_digits d" "all_digits h" "all_digits mi" "all_digits sec" using num(1) by (simp_all add: is_number_def)
  have "?M \<le> 12" "?D \<le> 31" using date(1) by (auto simp: valid_date_def days_in_month_def split: if_splits)
  with date(3) have small: "undec y \<le> i64_max" "undec mo \<le> i64_max" "undec d \<le> i64_max" by (simp_all add: MAX_YEAR_def i64_max_def)
  have small': "undec h \<le> i64_max" "undec mi \<le> i64_max" "undec sec \<le> i64_max" using time by (simp_all add: i64_max_def)
  have d: "three_nums e (split_on 45 ?date) = Inr (?Y, ?M, ?D)" for e
    unfolding three_fields [OF not_digit_separators(1)] by (rule exI [of _ y], rule exI [of _ mo], rule exI [of _ d]) (use num(1) small in simp)
  have t: "three_nums e (split_on 58 ?time) = Inr (int (undec h), int (undec mi), int (undec sec))" for e
    unfolding three_fields [OF not_digit_separators(3)] by (rule exI [of _ h], rule exI [of _ mi], rule exI [of _ sec]) (use num(1) small' in simp)
  have "46 \<notin> set ?time" using digits(4-6) digits_no_sep not_digit_separators(2) by simp
  then have f: "parse_fraction (?time @ fraction_text fr) = Inr (?time, fraction_us fr)" unfolding parse_fraction_Inr using num(2) by blast
  have "84 \<notin> set ?date" using digits(1-3) digits_no_sep not_digit_separators(4) by simp
  then have split: "split_once 84 (?date @ 84 # ?time @ fraction_text fr) = Some (?date, ?time @ fraction_text fr)" by (rule split_once_first)
  have form: "timestamp_text y mo d h mi sec fr = (?date @ 84 # ?time @ fraction_text fr) @ [90]" by (simp add: timestamp_text_def lit_def)
  have exact: "of_int (ymd_to_days ?Y ?M ?D) * of_nat US_PER_DAY + of_int (int (undec h)) * of_nat US_PER_HOUR +
      of_int (int (undec mi)) * 60 * of_nat US_PER_SEC + of_int (int (undec sec)) * of_nat US_PER_SEC + of_nat (fraction_us fr) = ts"
    by (simp only: word_unat_eq_iff ts timestamp_us_exact [OF date time fraction_us_bound [OF num(2)]])
  have check: "check_date ?Y ?M ?D = Inr ()" using date by (simp add: check_date_Inr)
  have "suffix (lit ''Z'') (timestamp_text y mo d h mi sec fr)" unfolding form by (simp add: lit_def suffix_def)
  moreover have "\<not> (int (undec h) > 23 \<or> int (undec mi) > 59 \<or> int (undec sec) > 59)" using time by simp
  ultimately show ?thesis
    unfolding parse_rfc3339_utc_def unfolding form butlast_snoc split by (simp only: not_True_eq_False if_False if_True option.case prod.case d rbind_Inr check f t exact refl)
qed

text \<open>
  Claim C31. The parser accepts exactly the timestamps it should and computes them exactly. A text is
  accepted if and only if it is a year, a month, a day, an hour, a minute and a second, all decimal
  numbers, with the separators of RFC 3339, an optional fraction of one to six digits and a final
  \<open>Z\<close>, the date is one of the calendar in the accepted years, and the time is one of a day; its
  value is then, as an exact number, the microseconds of that date and time, and no step of the
  arithmetic wraps.
\<close>

theorem parsed_timestamp_is_exact:
  "parse_rfc3339_utc s = Inr ts \<longleftrightarrow>
     (\<exists>y mo d h mi sec fr. s = timestamp_text y mo d h mi sec fr \<and> list_all is_number [y, mo, d, h, mi, sec] \<and> fraction_ok fr \<and>
        valid_date (int (undec y)) (int (undec mo)) (int (undec d)) \<and> MIN_YEAR \<le> int (undec y) \<and> int (undec y) \<le> MAX_YEAR \<and>
        undec h < 24 \<and> undec mi < 60 \<and> undec sec < 60 \<and>
        unat ts = timestamp_us (int (undec y)) (int (undec mo)) (int (undec d)) (undec h) (undec mi) (undec sec) (fraction_us fr))"
  (is "_ \<longleftrightarrow> ?accepted")
proof
  assume "parse_rfc3339_utc s = Inr ts"
  then show ?accepted by (rule parse_rfc3339_sound)
next
  assume ?accepted
  then show "parse_rfc3339_utc s = Inr ts" using parse_rfc3339_complete by blast
qed

lemma digits_then_sep:
  fixes a b x y :: rstr
  assumes "a @ sep # x = b @ sep # y" "sep \<notin> set a" "sep \<notin> set b" shows "a = b \<and> x = y"
  using assms by (metis option.inject prod.inject split_once_first)

lemma pad_inject [simp]: "pad w m = pad w n \<longleftrightarrow> m = n"
  by (metis undec_pad)

text \<open>
  Two timestamps share a partition directory exactly when they fall into the same hour.
\<close>

lemma hour_partition_same_hour:
  "hour_partition t1 = hour_partition t2 \<longleftrightarrow> unat t1 div US_PER_HOUR = unat t2 div US_PER_HOUR"
proof -
  define name where "name = (\<lambda>(y, m, d) h. pad 4 (nat y) @ 45 # pad 2 (nat m) @ 45 # pad 2 (nat d) @ 84 # pad 2 h)"
  have part: "hour_partition t = lit ''hour='' @
      name (days_to_ymd (int (unat t div US_PER_DAY))) (unat t mod US_PER_DAY div US_PER_HOUR)" for t
    using year_from_1970 [of "int (unat t div US_PER_DAY)"]
    by (auto simp: hour_partition_def name_def fmt_int_def Let_def lit_def split: prod.splits)
  have inj: "h1 = h2 \<and> n1 = n2" if "name (days_to_ymd (int n1)) h1 = name (days_to_ymd (int n2)) h2" for n1 n2 h1 h2
  proof -
    obtain y1 m1 d1 y2 m2 d2 where e: "days_to_ymd (int n1) = (y1, m1, d1)" "days_to_ymd (int n2) = (y2, m2, d2)"
      by (metis surj_pair)
    from that have "nat y1 = nat y2" "nat m1 = nat m2" "nat d1 = nat d2" "h1 = h2"
      unfolding e name_def by (auto dest!: digits_then_sep)
    moreover have "1970 \<le> y1" "1970 \<le> y2"
      using year_from_1970 [OF _ e(1)] year_from_1970 [OF _ e(2)] by simp_all
    ultimately have "days_to_ymd (int n1) = days_to_ymd (int n2)"
      using days_to_ymd_valid(2) [OF e(1)] days_to_ymd_valid(2) [OF e(2)] e by (auto simp: valid_date_def)
    then have "int n1 = int n2" using days_to_ymd_valid(1) e by metis
    with \<open>h1 = h2\<close> show ?thesis by simp
  qed
  have split: "unat t div US_PER_HOUR = unat t div US_PER_DAY * 24 + unat t mod US_PER_DAY div US_PER_HOUR" for t :: u64
  proof -
    have "unat t div US_PER_DAY = unat t div US_PER_HOUR div 24"
      by (simp add: US_PER_DAY_def mult.commute [of 24] div_mult2_eq)
    moreover have "unat t mod US_PER_DAY div US_PER_HOUR = unat t div US_PER_HOUR mod 24"
      using mod_mult2_eq [of "unat t" US_PER_HOUR 24]
      by (simp add: US_PER_DAY_def mult.commute [of 24]) (simp add: us_defs)
    ultimately show ?thesis by simp
  qed
  have less: "unat t mod US_PER_DAY div US_PER_HOUR < 24" for t :: u64
    by (intro less_mult_imp_div_less) (simp add: us_defs)
  have digits: "a * 24 + b = c * 24 + d \<longleftrightarrow> a = c \<and> b = d" if "b < 24" "d < 24" for a b c d :: nat
  proof -
    have "(a * 24 + b) div 24 = a" "(c * 24 + d) div 24 = c" using that by simp_all
    then show ?thesis by (metis add_left_cancel)
  qed
  show ?thesis
    unfolding part split digits [OF less less] using inj by auto
qed

end
