(* ===== verification/Orc_Config.thy ===== *)
theory Orc_Config
  imports Orc_Codec Orc_Time Orc_Disk
begin

text \<open>
  The configuration (\<open>src/src/config.rs\<close>): its records and defaults, every check \<open>validate\<close>
  makes, and the series handle. The unsigned fields are \<open>u64\<close> words (\<open>usize\<close> is 64 bits wide), the
  signed ones integers. Parsing the file is the \<open>serde_json\<close> package, a parameter of \<open>config_load\<close>,
  and \<open>str::to_lowercase\<close>, the Unicode case table, a parameter of the series checks.
\<close>

section \<open>The configuration\<close>

record ServerConfig =
  ingest_endpoint :: rstr
  control_endpoint :: rstr
  rcv_hwm :: int
  max_batch_bytes :: int

text \<open>\<open>ts_min_cache\<close> is the \<open>OnceLock\<close> that keeps the parsed \<open>ts_min\<close>.\<close>

record LimitsConfig =
  max_record_bytes :: u64
  reject_max_bytes :: u64
  ts_min :: rstr
  ts_max_skew_ms :: u64
  validate_json :: bool
  ts_min_cache :: "u64 option"

record WalConfig =
  fsync_interval_ms :: u64
  fsync_bytes :: u64
  segment_max_bytes :: u64

record FlushConfig =
  interval_ms :: u64
  on_startup :: bool
  compression :: rstr
  row_group_rows :: u64
  merge_fan_in :: u64
  memory_budget_bytes :: u64

record KeyDef =
  key_name :: rstr
  key_ty :: KeyType
  key_nullable :: bool

record SeriesConfig =
  series_name :: rstr
  series_keys :: "KeyDef list"

record Config =
  cfg_server :: ServerConfig
  cfg_limits :: LimitsConfig
  cfg_wal :: WalConfig
  cfg_flush :: FlushConfig
  cfg_series :: "SeriesConfig list"

definition DEFAULT_MAX_BATCH_BYTES :: int where "DEFAULT_MAX_BATCH_BYTES = 8388608"

definition default_server :: ServerConfig where
  "default_server = \<lparr>ingest_endpoint = lit ''tcp://127.0.0.1:5555'',
     control_endpoint = lit ''tcp://127.0.0.1:5556'', rcv_hwm = 100000,
     max_batch_bytes = DEFAULT_MAX_BATCH_BYTES\<rparr>"

definition default_limits :: LimitsConfig where
  "default_limits = \<lparr>max_record_bytes = 16384, reject_max_bytes = 67108864,
     ts_min = lit ''2000-01-01T00:00:00Z'', ts_max_skew_ms = 86400000, validate_json = False,
     ts_min_cache = None\<rparr>"

definition default_wal :: WalConfig where
  "default_wal = \<lparr>fsync_interval_ms = 10, fsync_bytes = 4194304, segment_max_bytes = 67108864\<rparr>"

definition default_flush :: FlushConfig where
  "default_flush = \<lparr>interval_ms = 3600000, on_startup = True, compression = lit ''lz4_raw'',
     row_group_rows = 131072, merge_fan_in = 64, memory_budget_bytes = 268435456\<rparr>"

definition default_config :: Config where
  "default_config = \<lparr>cfg_server = default_server, cfg_limits = default_limits,
     cfg_wal = default_wal, cfg_flush = default_flush, cfg_series = []\<rparr>"

definition SUPPORTED_COMPRESSION :: "rstr list" where
  "SUPPORTED_COMPRESSION = [lit ''lz4_raw'', lit ''lz4'', lit ''uncompressed'', lit ''none'']"

definition RESERVED_KEY_NAMES :: "rstr list" where
  "RESERVED_KEY_NAMES = [lit ''ts'', lit ''id'', lit ''extra'', lit ''data'']"

definition MAX_FLUSH_INTERVAL_MS :: u64 where
  "MAX_FLUSH_INTERVAL_MS = 100 * 365 * 24 * 60 * 60 * 1000"

section \<open>Validation\<close>

definition ts_min_us :: "LimitsConfig \<Rightarrow> (Error + u64) \<times> LimitsConfig" where
  "ts_min_us l =
     (case ts_min_cache l of
        Some us \<Rightarrow> (Inr us, l)
      | None \<Rightarrow>
          (case parse_rfc3339_utc (ts_min l) of
             Inl e \<Rightarrow> (Inl e, l)
           | Inr us \<Rightarrow> (Inr us, l\<lparr>ts_min_cache := Some us\<rparr>)))"

text \<open>A guard of the form \<open>if .. { return bad(..) }\<close>.\<close>

definition guard :: "bool \<Rightarrow> string \<Rightarrow> Error + unit" where
  "guard bad msg = (if bad then Inl (Config msg) else Inr ())"

definition check_bounds :: "Config \<Rightarrow> Error + unit" where
  "check_bounds c =
     rbind (guard (max_record_bytes (cfg_limits c) = 0) ''limits.max_record_bytes must be greater than 0'') (\<lambda>_.
     rbind (guard (merge_fan_in (cfg_flush c) < 2) ''flush.merge_fan_in must be at least 2'') (\<lambda>_.
     rbind (guard (memory_budget_bytes (cfg_flush c) = 0) ''flush.memory_budget_bytes must be greater than 0'') (\<lambda>_.
     rbind (guard (row_group_rows (cfg_flush c) = 0) ''flush.row_group_rows must be greater than 0'') (\<lambda>_.
     rbind (guard (interval_ms (cfg_flush c) > MAX_FLUSH_INTERVAL_MS) ''flush.interval_ms is out of range'') (\<lambda>_.
     rbind (guard (fsync_interval_ms (cfg_wal c) = 0) ''wal.fsync_interval_ms must be greater than 0'') (\<lambda>_.
     rbind (guard (fsync_bytes (cfg_wal c) = 0) ''wal.fsync_bytes must be greater than 0'') (\<lambda>_.
     let smallest_segment = max_record_bytes (cfg_limits c) + of_nat SEGMENT_HEADER_BYTES in
     rbind (guard (segment_max_bytes (cfg_wal c) < smallest_segment) ''wal.segment_max_bytes cannot hold one record'') (\<lambda>_.
     rbind (guard (max_batch_bytes (cfg_server c) \<le> 0) ''server.max_batch_bytes must be greater than 0'') (\<lambda>_.
     let smallest_useful = max_record_bytes (cfg_limits c) + of_nat BATCH_HEADER_BYTES in
     rbind (guard (of_int (max_batch_bytes (cfg_server c)) < smallest_useful) ''server.max_batch_bytes cannot hold one record'') (\<lambda>_.
     guard (compression (cfg_flush c) \<notin> set SUPPORTED_COMPRESSION) ''flush.compression is not compiled in''))))))))))"

text \<open>\<open>char::is_control\<close> (U+0000--001F and U+007F--009F) anywhere in a UTF-8 string.\<close>

fun has_control :: "rstr \<Rightarrow> bool" where
  "has_control [] = False"
| "has_control (b # s) =
     (b < 0x20 \<or> b = 0x7F \<or>
      (b = 0xC2 \<and> (case s of [] \<Rightarrow> False | c # _ \<Rightarrow> 0x80 \<le> c \<and> c \<le> 0x9F)) \<or> has_control s)"

definition check_series_name :: "rstr \<Rightarrow> Error + unit" where
  "check_series_name name =
     rbind (guard (name = []) ''series name: must not be empty'') (\<lambda>_.
     rbind (guard (length name > u16_max) ''series name: must be under 64 KiB'') (\<lambda>_.
     rbind (guard (name = lit ''.'' \<or> name = lit ''..'' \<or> 47 \<in> set name \<or> 92 \<in> set name)
              ''series name: must not be a path component'') (\<lambda>_.
     guard (has_control name) ''series name: must not contain control characters'')))"

fun check_keys :: "rstr list \<Rightarrow> KeyDef list \<Rightarrow> Error + unit" where
  "check_keys seen [] = Inr ()"
| "check_keys seen (k # ks) =
     rbind (guard (key_name k = []) ''series has a key with an empty name'') (\<lambda>_.
     rbind (guard (key_name k \<in> set RESERVED_KEY_NAMES) ''series declares a key with a reserved name'') (\<lambda>_.
     rbind (guard (key_name k \<in> set seen) ''series declares a key twice'') (\<lambda>_.
     check_keys (key_name k # seen) ks)))"

fun check_series_list ::
  "(rstr \<Rightarrow> rstr) \<Rightarrow> rstr list \<Rightarrow> rstr list \<Rightarrow> SeriesConfig list \<Rightarrow> Error + unit" where
  "check_series_list to_lowercase seen folded [] = Inr ()"
| "check_series_list to_lowercase seen folded (s # ss) =
     rbind (check_series_name (series_name s)) (\<lambda>_.
     rbind (guard (series_name s \<in> set seen) ''duplicate series'') (\<lambda>_.
     rbind (guard (to_lowercase (series_name s) \<in> set folded) ''series collides with another differing only in case'') (\<lambda>_.
     rbind (check_keys [] (series_keys s)) (\<lambda>_.
     check_series_list to_lowercase (series_name s # seen) (to_lowercase (series_name s) # folded) ss))))"

definition check_series :: "(rstr \<Rightarrow> rstr) \<Rightarrow> Config \<Rightarrow> Error + unit" where
  "check_series to_lowercase c = check_series_list to_lowercase [] [] (cfg_series c)"

definition config_validate :: "(rstr \<Rightarrow> rstr) \<Rightarrow> Config \<Rightarrow> (Error + unit) \<times> Config" where
  "config_validate to_lowercase c =
     (case ts_min_us (cfg_limits c) of
        (Inl e, l) \<Rightarrow> (Inl e, c\<lparr>cfg_limits := l\<rparr>)
      | (Inr _, l) \<Rightarrow>
          (rbind (check_bounds c) (\<lambda>_. check_series to_lowercase c), c\<lparr>cfg_limits := l\<rparr>))"

definition config_load ::
  "(bytes \<Rightarrow> string + Config) \<Rightarrow> (rstr \<Rightarrow> rstr) \<Rightarrow> path \<Rightarrow> ('m, Config) eio" where
  "config_load from_json to_lowercase p d =
     (case fs_read p d of
        (Inl _, d') \<Rightarrow> (Inl (Config ''cannot read the config file''), d')
      | (Inr text, d') \<Rightarrow>
          if \<not> utf8_valid text then (Inl (Config ''cannot read the config file''), d')
          else (case from_json text of
                  Inl why \<Rightarrow> (Inl (Config why), d')
                | Inr c \<Rightarrow>
                    (case config_validate to_lowercase c of
                       (Inl e, _) \<Rightarrow> (Inl e, d')
                     | (Inr _, c') \<Rightarrow> (Inr c', d'))))"

definition find_series :: "Config \<Rightarrow> rstr \<Rightarrow> SeriesConfig option" where
  "find_series c name = find (\<lambda>s. series_name s = name) (cfg_series c)"

section \<open>Series handles and key type names\<close>

record SeriesHandle =
  sh_name :: rstr
  sh_keys :: "KeyDef list"
  sh_epoch :: u32

definition handle_new :: "SeriesConfig \<Rightarrow> u32 \<Rightarrow> Error + SeriesHandle" where
  "handle_new s epoch =
     rbind (check_series_name (series_name s)) (\<lambda>_.
       Inr \<lparr>sh_name = series_name s, sh_keys = series_keys s, sh_epoch = epoch\<rparr>)"

definition handle_arity :: "SeriesHandle \<Rightarrow> nat" where
  "handle_arity h = length (sh_keys h)"

fun key_type_name :: "KeyType \<Rightarrow> rstr" where
  "key_type_name KStr = lit ''string''"
| "key_type_name KI64 = lit ''i64''"
| "key_type_name KF64 = lit ''f64''"
| "key_type_name KBool = lit ''bool''"

definition parse_key_type :: "rstr \<Rightarrow> KeyType option" where
  "parse_key_type raw =
     (if raw = lit ''string'' then Some KStr
      else if raw = lit ''i64'' then Some KI64
      else if raw = lit ''f64'' then Some KF64
      else if raw = lit ''bool'' then Some KBool
      else None)"


section \<open>What validation guarantees\<close>

lemma guard_simps [simp]: "guard bad msg = Inr () \<longleftrightarrow> \<not> bad" "rbind (guard bad msg) f = Inr u \<longleftrightarrow> \<not> bad \<and> f () = Inr u"
  by (auto simp: guard_def)

definition name_ok :: "rstr \<Rightarrow> bool" where
  "name_ok name \<longleftrightarrow> name \<noteq> [] \<and> length name \<le> u16_max \<and> name \<noteq> lit ''.'' \<and> name \<noteq> lit ''..'' \<and>
     47 \<notin> set name \<and> 92 \<notin> set name \<and> \<not> has_control name"

definition keys_ok :: "KeyDef list \<Rightarrow> bool" where
  "keys_ok ks \<longleftrightarrow> distinct (map key_name ks) \<and>
     (\<forall>k\<in>set ks. key_name k \<noteq> [] \<and> key_name k \<notin> set RESERVED_KEY_NAMES)"

definition series_ok :: "(rstr \<Rightarrow> rstr) \<Rightarrow> SeriesConfig list \<Rightarrow> bool" where
  "series_ok to_lowercase ss \<longleftrightarrow>
     (\<forall>s\<in>set ss. name_ok (series_name s) \<and> keys_ok (series_keys s)) \<and>
     distinct (map series_name ss) \<and> distinct (map (\<lambda>s. to_lowercase (series_name s)) ss)"

definition tunables_ok :: "Config \<Rightarrow> bool" where
  "tunables_ok c \<longleftrightarrow>
     0 < max_record_bytes (cfg_limits c) \<and> 2 \<le> merge_fan_in (cfg_flush c) \<and>
     0 < memory_budget_bytes (cfg_flush c) \<and> 0 < row_group_rows (cfg_flush c) \<and>
     interval_ms (cfg_flush c) \<le> MAX_FLUSH_INTERVAL_MS \<and>
     0 < fsync_interval_ms (cfg_wal c) \<and> 0 < fsync_bytes (cfg_wal c) \<and>
     compression (cfg_flush c) \<in> set SUPPORTED_COMPRESSION"

text \<open>The bounds as they are meant, in exact arithmetic: a record of the largest size fits a segment and a batch.\<close>

definition bounds_ok :: "Config \<Rightarrow> bool" where
  "bounds_ok c \<longleftrightarrow> tunables_ok c \<and>
     unat (max_record_bytes (cfg_limits c)) + SEGMENT_HEADER_BYTES \<le> unat (segment_max_bytes (cfg_wal c)) \<and>
     int (unat (max_record_bytes (cfg_limits c)) + BATCH_HEADER_BYTES) \<le> max_batch_bytes (cfg_server c)"

text \<open>The bounds that are accepted when both additions to the record limit wrap around.\<close>

definition wrapped_ok :: "Config \<Rightarrow> bool" where
  "wrapped_ok c \<longleftrightarrow> tunables_ok c \<and> 2 ^ 64 \<le> unat (max_record_bytes (cfg_limits c)) + BATCH_HEADER_BYTES \<and>
     unat (max_record_bytes (cfg_limits c)) + SEGMENT_HEADER_BYTES - 2 ^ 64 \<le> unat (segment_max_bytes (cfg_wal c)) \<and>
     0 < max_batch_bytes (cfg_server c) \<and>
     int (unat (max_record_bytes (cfg_limits c)) + BATCH_HEADER_BYTES - 2 ^ 64) \<le> max_batch_bytes (cfg_server c)"

lemma check_series_name_iff: "check_series_name name = Inr () \<longleftrightarrow> name_ok name"
  by (auto simp: check_series_name_def name_ok_def)

lemma check_keys_iff:
  "check_keys seen ks = Inr () \<longleftrightarrow> keys_ok ks \<and> (\<forall>k\<in>set ks. key_name k \<notin> set seen)"
proof (induction ks arbitrary: seen)
  case (Cons k ks)
  have "(\<forall>j\<in>set ks. key_name j \<noteq> key_name k) \<longleftrightarrow> key_name k \<notin> key_name ` set ks" by (fastforce simp: image_iff dest: sym)
  with Cons show ?case by (auto simp: keys_ok_def)
qed (simp add: keys_ok_def)

lemma check_series_list_iff:
  "check_series_list lower seen folded ss = Inr () \<longleftrightarrow>
     series_ok lower ss \<and>
     (\<forall>s\<in>set ss. series_name s \<notin> set seen \<and> lower (series_name s) \<notin> set folded)"
proof (induction ss arbitrary: seen folded)
  case (Cons s ss)
  have "(\<forall>t\<in>set ss. series_name t \<noteq> series_name s) \<longleftrightarrow> series_name s \<notin> series_name ` set ss"
      "(\<forall>t\<in>set ss. lower (series_name t) \<noteq> lower (series_name s)) \<longleftrightarrow>
         lower (series_name s) \<notin> (\<lambda>t. lower (series_name t)) ` set ss" by (fastforce simp: image_iff dest: sym)+
  then show ?case
    by (auto simp: rbind_eq_Inr Cons check_series_name_iff check_keys_iff series_ok_def)
qed (simp add: series_ok_def)

lemma word_add_wraps:
  fixes x :: u64
  assumes "2 ^ 64 \<le> unat x + n" "n < 2 ^ 64" shows "unat (x + of_nat n) = unat x + n - 2 ^ 64"
proof -
  have "unat (of_nat n :: u64) = n" using assms(2) by (simp add: unat_of_nat)
  moreover have "unat x < 2 ^ 64" using unsigned_less [where w = x and ?'a = nat] by simp
  ultimately show ?thesis using assms by (simp add: unat_word_ariths mod_if)
qed

lemma check_bounds_Inr:
  assumes "max_batch_bytes (cfg_server c) < 2 ^ 63"
  shows "check_bounds c = Inr () \<longleftrightarrow> tunables_ok c \<and>
    unat (max_record_bytes (cfg_limits c) + of_nat SEGMENT_HEADER_BYTES) \<le> unat (segment_max_bytes (cfg_wal c)) \<and>
    0 < max_batch_bytes (cfg_server c) \<and>
    int (unat (max_record_bytes (cfg_limits c) + of_nat BATCH_HEADER_BYTES)) \<le> max_batch_bytes (cfg_server c)"
proof -
  let ?b = "max_batch_bytes (cfg_server c)"
  have "unat (of_int ?b :: u64) = nat ?b" if "0 < ?b"
    using that assms by (simp add: unat_eq_nat_uint uint_word_of_int_eq take_bit_int_eq_self)
  then have batch: "0 < ?b \<Longrightarrow> \<not> of_int ?b < (x :: u64) \<longleftrightarrow> int (unat x) \<le> ?b" for x
    by (simp add: word_less_nat_alt not_less del: of_nat_unat) linarith
  have "check_bounds c = Inr () \<longleftrightarrow> tunables_ok c \<and> \<not> segment_max_bytes (cfg_wal c) < max_record_bytes (cfg_limits c) + of_nat SEGMENT_HEADER_BYTES \<and>
      0 < ?b \<and> \<not> of_int ?b < max_record_bytes (cfg_limits c) + of_nat BATCH_HEADER_BYTES"
    by (auto simp: check_bounds_def tunables_ok_def Let_def not_less word_neq_0_conv)
  then show ?thesis using batch by (auto simp only: word_less_nat_alt not_less)
qed

lemma check_bounds_iff:
  assumes "max_batch_bytes (cfg_server c) < 2 ^ 63"
  shows "check_bounds c = Inr () \<longleftrightarrow> bounds_ok c \<or> wrapped_ok c"
proof -
  let ?m = "max_record_bytes (cfg_limits c)"
  have seg: "unat (segment_max_bytes (cfg_wal c)) < 2 ^ 64" using unsigned_less [where w = "segment_max_bytes (cfg_wal c)" and ?'a = nat] by simp
  have hdr: "BATCH_HEADER_BYTES < SEGMENT_HEADER_BYTES" "SEGMENT_HEADER_BYTES = 14" "0 < BATCH_HEADER_BYTES"
    by (simp_all add: BATCH_HEADER_BYTES_def SEGMENT_HEADER_BYTES_def)
  consider (exact) "unat ?m + SEGMENT_HEADER_BYTES < 2 ^ 64"
    | (half) "2 ^ 64 \<le> unat ?m + SEGMENT_HEADER_BYTES" "unat ?m + BATCH_HEADER_BYTES < 2 ^ 64"
    | (wrapped) "2 ^ 64 \<le> unat ?m + BATCH_HEADER_BYTES" by linarith
  then show ?thesis
  proof cases
    case exact
    then have batch: "unat ?m + BATCH_HEADER_BYTES < 2 ^ 64" using hdr(1) by simp
    have "0 < b" if "int (n + BATCH_HEADER_BYTES) \<le> b" for n b using that hdr(3) by linarith
    then show ?thesis
      unfolding check_bounds_Inr [OF assms] bounds_ok_def wrapped_ok_def word_add_exact [OF exact] word_add_exact [OF batch]
      using batch by (meson not_le)
  next
    case half
    then have "2 ^ 63 \<le> int (unat ?m + BATCH_HEADER_BYTES)" using hdr by (simp del: of_nat_unat)
    with half assms seg show ?thesis
      unfolding check_bounds_Inr [OF assms] bounds_ok_def wrapped_ok_def word_add_exact [OF half(2)] by linarith
  next
    case wrapped
    then have "2 ^ 64 \<le> unat ?m + SEGMENT_HEADER_BYTES" using hdr(1) by simp
    then show ?thesis
      using wrapped seg hdr
      unfolding check_bounds_Inr [OF assms] bounds_ok_def wrapped_ok_def by (simp add: word_add_wraps)
  qed
qed

text \<open>
  Claim C29. Validation accepts exactly the usable configurations, with one exception: the timestamp
  bound parses, every numeric bound holds in exact arithmetic (one record fits a segment and a
  batch, a merge can make progress, the committer parks), the codec is known, and the series have
  safe, distinct names, distinct also after case folding, and distinct, non-empty, unreserved keys.
  The exception are record limits within a batch header of \<open>2^64\<close>: there both unchecked additions of
  a header wrap around, as they do in a release build, and the limit is accepted although no segment
  and no batch can hold such a record.
\<close>

theorem validate_is_exact:
  assumes "max_batch_bytes (cfg_server c) < 2 ^ 63"
  shows "fst (config_validate to_lowercase c) = Inr () \<longleftrightarrow>
    (\<exists>us. fst (ts_min_us (cfg_limits c)) = Inr us) \<and> (bounds_ok c \<or> wrapped_ok c) \<and> series_ok to_lowercase (cfg_series c)"
  using check_bounds_iff [OF assms]
  by (auto simp: config_validate_def check_series_def check_series_list_iff rbind_eq_Inr
      split: prod.splits sum.splits)

text \<open>The default configuration, one whose segments are too small, and one whose record limit wraps.\<close>

definition limited_config :: "u64 \<Rightarrow> u64 \<Rightarrow> Config" where
  "limited_config record segment =
     default_config\<lparr>cfg_limits := default_limits\<lparr>max_record_bytes := record\<rparr>, cfg_wal := default_wal\<lparr>segment_max_bytes := segment\<rparr>\<rparr>"

lemma limited_config_bounds:
  "\<exists>us. fst (ts_min_us (cfg_limits (limited_config record segment))) = Inr us" "max_batch_bytes (cfg_server (limited_config record segment)) < 2 ^ 63"
  "series_ok id (cfg_series (limited_config record segment))" "0 < record \<Longrightarrow> tunables_ok (limited_config record segment)"
proof -
  have "\<exists>us. fst (ts_min_us default_limits) = Inr us" by (rule exI [of _ "projr (fst (ts_min_us default_limits))"]) code_simp
  then show "\<exists>us. fst (ts_min_us (cfg_limits (limited_config record segment))) = Inr us"
    by (simp add: limited_config_def ts_min_us_def default_config_def default_limits_def split: sum.splits)
qed (simp_all add: limited_config_def default_config_def default_server_def default_flush_def default_wal_def DEFAULT_MAX_BATCH_BYTES_def series_ok_def
    tunables_ok_def SUPPORTED_COMPRESSION_def MAX_FLUSH_INTERVAL_MS_def)

theorem validate_is_exact_witness:
  "fst (config_validate id (limited_config 4096 8192)) = Inr () \<and> fst (config_validate id (limited_config 4096 4100)) \<noteq> Inr () \<and>
     fst (config_validate id (limited_config 0xFFFFFFFFFFFFFFFF 8192)) = Inr ()"
proof -
  note exact = validate_is_exact [OF limited_config_bounds(2), of id]
  have "bounds_ok (limited_config 4096 8192)" "\<not> bounds_ok (limited_config 4096 4100)" "\<not> wrapped_ok (limited_config 4096 4100)" "wrapped_ok (limited_config 0xFFFFFFFFFFFFFFFF 8192)"
    using limited_config_bounds(4) unfolding bounds_ok_def wrapped_ok_def
    by (simp_all add: limited_config_def default_config_def default_server_def DEFAULT_MAX_BATCH_BYTES_def SEGMENT_HEADER_BYTES_def BATCH_HEADER_BYTES_def)
  then show ?thesis unfolding exact using limited_config_bounds(1,3) by blast
qed

end
