(* ===== verification/Orc_Writer.thy ===== *)
theory Orc_Writer
  imports Orc_Buffer Orc_Recovery Orc_Config
begin

text \<open>
  The append path and the committer thread of the log (\<open>src/src/wal/writer.rs\<close>).

  \<open>Shared\<close> holds what the mutex protects (\<open>State\<close>) together with the counters and the configuration
  of \<open>Shared\<close>; the disk is passed beside it. Every operation that the source runs under the lock is
  one function; the committer's loop is cut where it releases the lock, so that the step relation
  at the end interleaves it with the appenders the way the threads can. The clock is an argument.
\<close>

section \<open>State\<close>

definition WRITE_BUFFER_BYTES :: nat where "WRITE_BUFFER_BYTES = 256 * 1024"

record WalOptions =
  opt_wal :: WalConfig
  opt_first_segment :: u64
  opt_heartbeat :: bool

definition wal_options_new :: "WalConfig \<Rightarrow> WalOptions" where
  "wal_options_new wal = \<lparr>opt_wal = wal, opt_first_segment = FIRST_SEGMENT, opt_heartbeat = False\<rparr>"

record Active =
  act_id :: u64
  act_file :: BufWriter
  act_bytes :: u64
  act_synced :: u64

record Shared =
  sh_cfg :: WalConfig
  sh_heartbeat :: bool
  st_open :: "Active option"
  st_stop :: bool
  st_appended :: u64
  st_needs_roll :: bool
  sh_fsyncs :: u64
  sh_fsync_failures :: u64
  sh_last_fsync_us :: int
  sh_last_failure_log_us :: int

record WalStats =
  stat_segment :: u64
  stat_segment_bytes :: u64
  stat_dirty_bytes :: u64
  stat_appended_bytes :: u64
  stat_fsyncs :: u64
  stat_fsync_failures :: u64
  stat_last_fsync_us :: int
  stat_closed :: bool

type_synonym ('m, 'a) wal = "(Shared \<times> 'm Disk_scheme, Error, 'a) fallible"

definition dirty :: "Active \<Rightarrow> u64" where
  "dirty a = act_bytes a - act_synced a"

definition closed_error :: Error where
  "closed_error = Io (IoOther ''the wal writer is closed'')"

definition torn_error :: Error where
  "torn_error = Io (IoOther ''the active wal segment holds a torn frame and could not be sealed'')"

section \<open>Operations under the lock\<close>

text \<open>\<open>try_clone\<close> duplicates a descriptor; it may be refused and changes no file.\<close>

definition fs_dup :: "('m, unit) io" where
  "fs_dup = attempt (ok ())"

definition create_segment :: "u64 \<Rightarrow> ('m, Active) eio" where
  "create_segment i =
     seq (lift_io (fs_create_new (segment_path i))) (\<lambda>_.
     seq (lift_io (fs_write (segment_path i) (encode_segment_header [] i))) (\<lambda>_.
     seq (lift_io (fs_sync (segment_path i))) (\<lambda>_.
     seq (lift_io (fsync_dir wal_dir)) (\<lambda>_.
     seq (lift_io fs_dup) (\<lambda>_.
     ok \<lparr>act_id = i, act_file = buf_new WRITE_BUFFER_BYTES (segment_path i),
         act_bytes = of_nat SEGMENT_HEADER_BYTES, act_synced = of_nat SEGMENT_HEADER_BYTES\<rparr>)))))"

definition note_fsync :: "int \<Rightarrow> Shared \<Rightarrow> Shared" where
  "note_fsync now w = w\<lparr>sh_fsyncs := sh_fsyncs w + 1, sh_last_fsync_us := now\<rparr>"

definition saturating_sub_i64 :: "int \<Rightarrow> int \<Rightarrow> int" where
  "saturating_sub_i64 a b = max (- (2 ^ 63)) (min (2 ^ 63 - 1) (a - b))"

definition note_failure :: "int \<Rightarrow> Shared \<Rightarrow> Shared" where
  "note_failure now w =
     (let failures = sh_fsync_failures w + 1;
          w' = w\<lparr>sh_fsync_failures := failures\<rparr> in
      if failures = 1 \<or> 1000000 \<le> saturating_sub_i64 now (sh_last_failure_log_us w)
      then w'\<lparr>sh_last_failure_log_us := now\<rparr> else w')"

text \<open>The active segment is taken and given back, since \<open>close\<close> has moved it out of the state.\<close>

definition sync_in_lock ::
  "int \<Rightarrow> (Active \<times> Shared \<times> 'm Disk_scheme, IoError, unit) fallible" where
  "sync_in_lock now = (\<lambda>(a, w, d).
     case flush_buf (act_file a, d) of
       (Inl e, (f, d')) \<Rightarrow> (Inl e, (a\<lparr>act_file := f\<rparr>, w, d'))
     | (Inr _, (f, d')) \<Rightarrow>
         (case fs_sync (segment_path (act_id a)) d' of
            (Inl e, d'') \<Rightarrow> (Inl e, (a\<lparr>act_file := f\<rparr>, w, d''))
          | (Inr _, d'') \<Rightarrow>
              (Inr (), (a\<lparr>act_file := f, act_synced := act_bytes a\<rparr>, note_fsync now w, d''))))"

definition roll :: "int \<Rightarrow> ('m, u64) wal" where
  "roll now = (\<lambda>(w, d).
     case st_open w of
       None \<Rightarrow> (Inl closed_error, (w, d))
     | Some a \<Rightarrow>
         (case sync_in_lock now (a, w, d) of
            (Inl e, (a', w', d')) \<Rightarrow> (Inl (Io e), (w'\<lparr>st_open := Some a'\<rparr>, d'))
          | (Inr _, (a', w', d')) \<Rightarrow>
              (case create_segment (act_id a + 1) d' of
                 (Inl e, d'') \<Rightarrow> (Inl e, (w'\<lparr>st_open := Some a'\<rparr>, d''))
               | (Inr next_seg, d'') \<Rightarrow> (Inr (act_id a), (w'\<lparr>st_open := Some next_seg\<rparr>, d'')))))"

definition roll_now :: "int \<Rightarrow> ('m, u64) wal" where
  "roll_now now =
     seq (roll now) (\<lambda>i (w, d). (Inr i, (w\<lparr>st_needs_roll := False\<rparr>, d)))"

text \<open>The failure branch of an append: seal the segment, keeping the failure as the result.\<close>

definition seal_torn :: "int \<Rightarrow> IoError \<Rightarrow> ('m, unit) wal" where
  "seal_torn now e = (\<lambda>(w, d).
     case roll now (w\<lparr>st_needs_roll := True\<rparr>, d) of
       (Inr _, (w', d')) \<Rightarrow> (Inl (Io e), (w'\<lparr>st_needs_roll := False\<rparr>, d'))
     | (Inl _, (w', d')) \<Rightarrow> (Inl (Io e), (w', d')))"

definition append_bytes :: "int \<Rightarrow> bytes \<Rightarrow> ('m, unit) wal" where
  "append_bytes now bs = (\<lambda>(w, d).
     if st_needs_roll w then (Inl torn_error, (w, d))
     else case st_open w of
            None \<Rightarrow> (Inl closed_error, (w, d))
          | Some a \<Rightarrow>
              (case buf_write_all bs (act_file a, d) of
                 (Inr _, (f, d')) \<Rightarrow>
                   let n = of_nat (length bs) in
                   (Inr (), (w\<lparr>st_open := Some (a\<lparr>act_file := f, act_bytes := act_bytes a + n\<rparr>),
                              st_appended := st_appended w + n\<rparr>, d'))
               | (Inl e, (f, d')) \<Rightarrow>
                   seal_torn now e (w\<lparr>st_open := Some (a\<lparr>act_file := f\<rparr>)\<rparr>, d')))"

definition wal_append :: "int \<Rightarrow> bytes \<Rightarrow> ('m, unit) wal" where
  "wal_append now frame = append_bytes now frame"

definition wal_append_batch :: "int \<Rightarrow> bytes \<Rightarrow> ('m, unit) wal" where
  "wal_append_batch now frames = append_bytes now frames"

definition seal :: "int \<Rightarrow> ('m, u64 option) wal" where
  "seal now = (\<lambda>(w, d).
     case st_open w of
       None \<Rightarrow> (Inl closed_error, (w, d))
     | Some a \<Rightarrow>
         if act_bytes a = of_nat SEGMENT_HEADER_BYTES then (Inr None, (w, d))
         else seq (roll_now now) (\<lambda>i. ok (Some i)) (w, d))"

text \<open>
  \<open>close\<close> after the committer has been joined. Dropping the segment's \<open>BufWriter\<close> tries once more to
  write what a failed flush left in it.
\<close>

definition close_open :: "int \<Rightarrow> ('m, unit) wal" where
  "close_open now = (\<lambda>(w, d).
     case st_open w of
       None \<Rightarrow> (Inr (), (w, d))
     | Some a \<Rightarrow>
         (case sync_in_lock now (a, w\<lparr>st_open := None\<rparr>, d) of
            (r, (a', w', d')) \<Rightarrow>
              (case flush_buf (act_file a', d') of
                 (_, (_, d'')) \<Rightarrow> (case r of Inl e \<Rightarrow> Inl (Io e) | Inr _ \<Rightarrow> Inr (), (w', d'')))))"

definition wal_stats :: "Shared \<Rightarrow> WalStats" where
  "wal_stats w =
     (let (s, b, dt) = (case st_open w of
          Some a \<Rightarrow> (act_id a, act_bytes a, dirty a) | None \<Rightarrow> (0, 0, 0)) in
      \<lparr>stat_segment = s, stat_segment_bytes = b, stat_dirty_bytes = dt,
       stat_appended_bytes = st_appended w, stat_fsyncs = sh_fsyncs w,
       stat_fsync_failures = sh_fsync_failures w, stat_last_fsync_us = sh_last_fsync_us w,
       stat_closed = (st_open w = None)\<rparr>)"

definition wal_segment :: "Shared \<Rightarrow> u64" where
  "wal_segment w = (case st_open w of None \<Rightarrow> 0 | Some a \<Rightarrow> act_id a)"

definition fresh_shared :: "WalOptions \<Rightarrow> Shared" where
  "fresh_shared opts = \<lparr>
     sh_cfg = \<lparr>fsync_interval_ms = max (fsync_interval_ms (opt_wal opts)) 1,
               fsync_bytes = max (fsync_bytes (opt_wal opts)) 1,
               segment_max_bytes = max (segment_max_bytes (opt_wal opts)) (of_nat SEGMENT_HEADER_BYTES + 1)\<rparr>,
     sh_heartbeat = opt_heartbeat opts,
     st_open = None, st_stop = False, st_appended = 0, st_needs_roll = False,
     sh_fsyncs = 0, sh_fsync_failures = 0, sh_last_fsync_us = 0, sh_last_failure_log_us = 0\<rparr>"

text \<open>Opening the writer; starting the thread is the last call that may fail.\<close>

definition spawn_committer :: "('m, unit) io" where
  "spawn_committer = attempt (ok ())"

definition wal_open :: "WalOptions \<Rightarrow> ('m, Shared) eio" where
  "wal_open opts =
     seq (lift_io (fs_mkdir wal_dir)) (\<lambda>_.
     seq (lift_io (fsync_dir [])) (\<lambda>_.
     seq (create_segment (opt_first_segment opts)) (\<lambda>a.
     seq (lift_io spawn_committer) (\<lambda>_.
     ok ((fresh_shared opts)\<lparr>st_open := Some a\<rparr>)))))"

section \<open>The committer\<close>

text \<open>
  Where the committer stands between two acquisitions of the lock: \<open>Waiting\<close> at the top of its loop,
  \<open>Fsync\<close> with the segment and length to sync, \<open>Mark\<close> after a successful sync, \<open>Rolling\<close>, \<open>Beating\<close>.
\<close>

datatype Pc = Waiting | Fsync u64 u64 | Mark u64 u64 | Rolling | Beating | Exited

record Committer =
  pc :: Pc
  retry :: bool

definition is_due :: "Shared \<Rightarrow> bool \<Rightarrow> bool \<Rightarrow> Active \<Rightarrow> bool" where
  "is_due w rt elapsed a \<longleftrightarrow>
     rt \<or> (0 < dirty a \<and> (elapsed \<or> fsync_bytes (sh_cfg w) \<le> dirty a))"

definition committer_collect ::
  "int \<Rightarrow> bool \<Rightarrow> Committer \<times> Shared \<times> 'm Disk_scheme \<Rightarrow> Committer \<times> Shared \<times> 'm Disk_scheme" where
  "committer_collect now elapsed = (\<lambda>(c, w, d).
     if st_stop w then (c\<lparr>pc := Exited\<rparr>, w, d)
     else case st_open w of
            None \<Rightarrow> (c\<lparr>pc := Exited\<rparr>, w, d)
          | Some a \<Rightarrow>
              if \<not> is_due w (retry c) elapsed a then (c\<lparr>pc := Rolling\<rparr>, w, d)
              else (case flush_buf (act_file a, d) of
                      (Inr _, (f, d')) \<Rightarrow>
                        (c\<lparr>pc := Fsync (act_id a) (act_bytes a)\<rparr>, w\<lparr>st_open := Some (a\<lparr>act_file := f\<rparr>)\<rparr>, d')
                    | (Inl e, (f, d')) \<Rightarrow>
                        (c\<lparr>pc := Rolling, retry := True\<rparr>,
                         note_failure now (w\<lparr>st_open := Some (a\<lparr>act_file := f\<rparr>)\<rparr>), d')))"

definition committer_fsync ::
  "int \<Rightarrow> u64 \<Rightarrow> u64 \<Rightarrow> Committer \<times> Shared \<times> 'm Disk_scheme \<Rightarrow> Committer \<times> Shared \<times> 'm Disk_scheme" where
  "committer_fsync now i up_to = (\<lambda>(c, w, d).
     case fs_sync (segment_path i) d of
       (Inr _, d') \<Rightarrow> (c\<lparr>pc := Mark i up_to, retry := False\<rparr>, note_fsync now w, d')
     | (Inl e, d') \<Rightarrow> (c\<lparr>pc := Rolling, retry := True\<rparr>, note_failure now w, d'))"

definition committer_mark ::
  "u64 \<Rightarrow> u64 \<Rightarrow> Committer \<times> Shared \<times> 'm Disk_scheme \<Rightarrow> Committer \<times> Shared \<times> 'm Disk_scheme" where
  "committer_mark i up_to = (\<lambda>(c, w, d).
     (c\<lparr>pc := Rolling\<rparr>,
      (case st_open w of
         Some a \<Rightarrow> if act_id a = i then w\<lparr>st_open := Some (a\<lparr>act_synced := max (act_synced a) up_to\<rparr>)\<rparr> else w
       | None \<Rightarrow> w), d))"

definition committer_roll ::
  "int \<Rightarrow> Committer \<times> Shared \<times> 'm Disk_scheme \<Rightarrow> Committer \<times> Shared \<times> 'm Disk_scheme" where
  "committer_roll now = (\<lambda>(c, w, d).
     let full = (case st_open w of None \<Rightarrow> False | Some a \<Rightarrow> segment_max_bytes (sh_cfg w) \<le> act_bytes a) in
     if full \<or> st_needs_roll w
     then (case roll_now now (w, d) of (_, (w', d')) \<Rightarrow> (c\<lparr>pc := Beating\<rparr>, w', d'))
     else (c\<lparr>pc := Beating\<rparr>, w, d))"

definition committer_beat ::
  "bool \<Rightarrow> Committer \<times> Shared \<times> 'm LockDisk_scheme \<Rightarrow> Committer \<times> Shared \<times> 'm LockDisk_scheme" where
  "committer_beat elapsed = (\<lambda>(c, w, d).
     if sh_heartbeat w \<and> elapsed then (c\<lparr>pc := Waiting\<rparr>, w, snd (touch_lock d))
     else (c\<lparr>pc := Waiting\<rparr>, w, d))"

section \<open>Threads\<close>

text \<open>
  The interleavings of any number of client threads with the committer. A label records what a
  client call was given and what it returned. \<open>LFlush\<close> is the flush deleting a sealed segment.
\<close>

datatype Label =
    LAppend bytes "Error + unit"
  | LSeal "Error + u64 option"
  | LStop
  | LClose "Error + unit"
  | LCommitter
  | LFlush u64

type_synonym 'm sys = "Committer \<times> Shared \<times> 'm LockDisk_scheme"

inductive wal_step :: "'m sys \<Rightarrow> Label \<Rightarrow> 'm sys \<Rightarrow> bool" where
  step_append: "append_bytes now bs (w, d) = (r, (w', d')) \<Longrightarrow> wal_step (c, w, d) (LAppend bs r) (c, w', d')"
| step_seal: "seal now (w, d) = (r, (w', d')) \<Longrightarrow> wal_step (c, w, d) (LSeal r) (c, w', d')"
| step_stop: "wal_step (c, w, d) LStop (c, w\<lparr>st_stop := True\<rparr>, d)"
| step_close: "pc c = Exited \<Longrightarrow> st_stop w \<Longrightarrow> close_open now (w, d) = (r, (w', d')) \<Longrightarrow>
    wal_step (c, w, d) (LClose r) (c, w', d')"
| step_collect: "pc c = Waiting \<Longrightarrow> committer_collect now elapsed (c, w, d) = (c', w', d') \<Longrightarrow>
    wal_step (c, w, d) LCommitter (c', w', d')"
| step_fsync: "pc c = Fsync i up_to \<Longrightarrow> committer_fsync now i up_to (c, w, d) = (c', w', d') \<Longrightarrow>
    wal_step (c, w, d) LCommitter (c', w', d')"
| step_mark: "pc c = Mark i up_to \<Longrightarrow> committer_mark i up_to (c, w, d) = (c', w', d') \<Longrightarrow>
    wal_step (c, w, d) LCommitter (c', w', d')"
| step_roll: "pc c = Rolling \<Longrightarrow> committer_roll now (c, w, d) = (c', w', d') \<Longrightarrow>
    wal_step (c, w, d) LCommitter (c', w', d')"
| step_beat: "pc c = Beating \<Longrightarrow> committer_beat elapsed (c, w, d) = (c', w', d') \<Longrightarrow>
    wal_step (c, w, d) LCommitter (c', w', d')"
| step_flush: "st_open w = Some a \<Longrightarrow> i < act_id a \<Longrightarrow> fs_remove (segment_path i) d = (r, d') \<Longrightarrow>
    wal_step (c, w, d) (LFlush i) (c, w, d')"

inductive_cases wal_stepE: "wal_step (c, w, d) l s'"

text \<open>The appends a step acknowledges, and those it reports as failed.\<close>

fun acks :: "Label \<Rightarrow> bytes list" where
  "acks (LAppend bs (Inr _)) = [bs]"
| "acks _ = []"

fun rejects :: "Label \<Rightarrow> bytes list" where
  "rejects (LAppend bs (Inl _)) = [bs]"
| "rejects _ = []"

text \<open>
  The runs of a writer, with the appends acknowledged so far and those reported as failed. A run
  stays below \<open>2 ^ 64\<close> appended bytes and never uses the last segment id.
\<close>

definition roomy :: "bytes list \<Rightarrow> 'm sys \<Rightarrow> bool" where
  "roomy acked = (\<lambda>(c, w, d). SEGMENT_HEADER_BYTES + length (concat acked) < 2 ^ 64 \<and>
     (\<forall>a. st_open w = Some a \<longrightarrow> act_id a \<noteq> - 1))"

inductive wal_run :: "bytes list \<Rightarrow> bytes list \<Rightarrow> 'm sys \<Rightarrow> bool" where
  run_open: "wf_disk d \<Longrightarrow> wal_open opts d = (Inr w, d') \<Longrightarrow> roomy [] (\<lparr>pc = Waiting, retry = False\<rparr>, w, d') \<Longrightarrow>
    wal_run [] [] (\<lparr>pc = Waiting, retry = False\<rparr>, w, d')"
| run_step: "wal_run acked failed s \<Longrightarrow> wal_step s l s' \<Longrightarrow> roomy (acked @ acks l) s' \<Longrightarrow>
    wal_run (acked @ acks l) (failed @ rejects l) s'"

end
