(* ===== verification/Orc_Writer_Laws.thy ===== *)
theory Orc_Writer_Laws
  imports Orc_Writer
begin

text \<open>
  Laws of the log writer: acknowledged appends stay in the log in order, a failed append leaves at
  most a torn end of a segment behind, and what the statistics call durable is durable.
\<close>

section \<open>Frames\<close>

text \<open>\<open>touches P d d'\<close>: files outside \<open>P\<close> keep their content and their durability.\<close>

definition touches :: "path set \<Rightarrow> 'm Disk_scheme \<Rightarrow> 'm Disk_scheme \<Rightarrow> bool" where
  "touches P d d' \<longleftrightarrow>
     (\<forall>q. q \<notin> P \<longrightarrow> content d' q = content d q \<and> stable d' q = stable d q \<and>
        (content d q \<noteq> None \<longrightarrow> linked d q \<longrightarrow> linked d' q)) \<and>
     (wf_disk d \<longrightarrow> wf_disk d')"

lemma touches_refl [simp]: "touches P d d"
  by (simp add: touches_def)

lemma touches_trans: "touches P d d' \<Longrightarrow> touches P d' d'' \<Longrightarrow> touches P d d''"
  by (auto simp: touches_def)

lemma touches_mono: "touches P d d' \<Longrightarrow> P \<subseteq> Q \<Longrightarrow> touches Q d d'"
  by (auto simp: touches_def)

lemma appended_touches: "appended p x d d' \<Longrightarrow> touches {p} d d'"
  by (auto simp: appended_def touches_def)

lemma fs_sync_spec:
  assumes "fs_sync p d = (r, d')"
  shows "content d' = content d \<and> linked d' = linked d \<and> (wf_disk d \<longrightarrow> wf_disk d') \<and>
    (r = Inr () \<longrightarrow> stable d' = (stable d)(p := content d p)) \<and> (r \<noteq> Inr () \<longrightarrow> stable d' = stable d) \<and>
    (calm d \<longrightarrow> r = Inr () \<and> calm d')"
  using assms by (auto simp: fs_sync_def attempt_def syscall_def Let_def calm_def split: outcome.splits)

definition seg_image :: "u64 \<Rightarrow> bytes list \<Rightarrow> bytes \<Rightarrow> bytes" where
  "seg_image i as torn = encode_segment_header [] i @ concat as @ torn"

lemma length_header [simp]: "length (encode_segment_header [] i) = SEGMENT_HEADER_BYTES"
  by (simp add: encode_segment_header_def SEGMENT_HEADER_BYTES_def)

lemma durably_dup [durable_rules]:
  "triple (durably k (\<lambda>c st l. Q () c st l \<and> (\<not> k \<longrightarrow> E refused c st l)))
     fs_dup (\<lambda>x. durably k (Q x)) (\<lambda>e. durably k (E e))"
  "triple (durably k (\<lambda>c st l. Q () c st l \<and> (\<not> k \<longrightarrow> E refused c st l)))
     spawn_committer (\<lambda>x. durably k (Q x)) (\<lambda>e. durably k (E e))"
  unfolding fs_dup_def spawn_committer_def by (rule durably_attempt; auto simp: triple_def durably_def)+

text \<open>Creating a segment: everything else keeps what it has, and success makes the header durable.\<close>

lemma create_segment_spec:
  assumes "create_segment i d = (r, d')" "wf_disk d"
  shows "touches {segment_path i} d d' \<and>
    (content d (segment_path i) \<noteq> None \<longrightarrow> (\<exists>e. r = Inl e) \<and> content d' = content d) \<and>
    (\<forall>a. r = Inr a \<longrightarrow>
       a = \<lparr>act_id = i, act_file = buf_new WRITE_BUFFER_BYTES (segment_path i),
            act_bytes = of_nat SEGMENT_HEADER_BYTES, act_synced = of_nat SEGMENT_HEADER_BYTES\<rparr> \<and>
       content d (segment_path i) = None \<and>
       content d' (segment_path i) = Some (encode_segment_header [] i) \<and>
       stable d' (segment_path i) = Some (encode_segment_header [] i) \<and> linked d' (segment_path i))"
proof -
  let ?p = "segment_path i" and ?h = "encode_segment_header [] i"
  define fr where "fr = (\<lambda>(c :: path \<rightharpoonup> bytes) (st :: path \<rightharpoonup> bytes) l. \<forall>q. q \<noteq> ?p \<longrightarrow> c q = content d q \<and> st q = stable d q \<and>
        (content d q \<noteq> None \<longrightarrow> linked d q \<longrightarrow> l q))"
  have dir: "?p \<noteq> []" "butlast ?p = wal_dir" by (simp_all add: segment_path_def)
  have "triple (durably False (\<lambda>c st l. c = content d \<and> st = stable d \<and> l = linked d)) (create_segment i)
     (\<lambda>a. durably False (\<lambda>c st l. fr c st l \<and>
       a = \<lparr>act_id = i, act_file = buf_new WRITE_BUFFER_BYTES ?p,
            act_bytes = of_nat SEGMENT_HEADER_BYTES, act_synced = of_nat SEGMENT_HEADER_BYTES\<rparr> \<and>
       content d ?p = None \<and> c ?p = Some ?h \<and> st ?p = Some ?h \<and> l ?p))
     (\<lambda>_. durably False (\<lambda>c st l. fr c st l \<and> (content d ?p \<noteq> None \<longrightarrow> c = content d)))"
    unfolding create_segment_def
    by (rule durably_pre, (rule durable_rules)+) (use dir in \<open>auto simp: fr_def\<close>)
  note t = this
  show ?thesis
  proof (cases r)
    case (Inl e)
    with durably_Inl [OF t _ assms(2)] assms show ?thesis by (auto simp: touches_def fr_def)
  next
    case (Inr a)
    with durably_Inr [OF t _ assms(2)] assms show ?thesis by (auto simp: touches_def fr_def)
  qed
qed

section \<open>The invariant\<close>

text \<open>
  A sealed segment holds whole acknowledged appends and, at its end, at most a torn one; all of it
  is durable. (The flush may have deleted it.)
\<close>

definition sealed_ok :: "'m Disk_scheme \<Rightarrow> u64 \<times> bytes list \<times> bytes \<Rightarrow> bool" where
  "sealed_ok d = (\<lambda>(j, as, torn).
     content d (segment_path j) = None \<or>
     content d (segment_path j) = Some (seg_image j as torn) \<and>
     stable d (segment_path j) = Some (seg_image j as torn) \<and> linked d (segment_path j))"

text \<open>
  The active segment: file and buffer together are the header, the appends it acknowledged and, only
  while a roll is pending, a torn one; the first \<open>synced\<close> bytes are durable.
\<close>

definition active_ok :: "'m Disk_scheme \<Rightarrow> bool \<Rightarrow> Active \<Rightarrow> bytes list \<Rightarrow> bytes \<Rightarrow> bool" where
  "active_ok d needs_roll a cur torn \<longleftrightarrow>
     bw_path (act_file a) = segment_path (act_id a) \<and>
     length (bw_buf (act_file a)) \<le> bw_cap (act_file a) \<and>
     unat (act_bytes a) = SEGMENT_HEADER_BYTES + length (concat cur) \<and>
     act_synced a \<le> act_bytes a \<and> linked d (segment_path (act_id a)) \<and>
     (\<exists>f st. content d (segment_path (act_id a)) = Some f \<and>
        f @ bw_buf (act_file a) = seg_image (act_id a) cur torn \<and>
        (torn \<noteq> [] \<longrightarrow> needs_roll \<and> bw_buf (act_file a) = []) \<and>
        stable d (segment_path (act_id a)) = Some st \<and> prefix st f \<and> unat (act_synced a) \<le> length st)"

definition torn_ok :: "bytes list \<Rightarrow> bytes \<Rightarrow> bool" where
  "torn_ok failed torn \<longleftrightarrow> torn = [] \<or> (\<exists>bs\<in>set failed. prefix torn bs)"

definition sealed_below ::
  "bytes list \<Rightarrow> 'm Disk_scheme \<Rightarrow> u64 \<Rightarrow> (u64 \<times> bytes list \<times> bytes) list \<Rightarrow> bool" where
  "sealed_below failed d i sealed \<longleftrightarrow>
     sorted_wrt (<) (map fst sealed) \<and>
     (\<forall>s\<in>set sealed. fst s < i \<and> sealed_ok d s \<and> torn_ok failed (snd (snd s)))"

definition log_of :: "(u64 \<times> bytes list \<times> bytes) list \<Rightarrow> bytes list" where
  "log_of sealed = concat (map (\<lambda>s. fst (snd s)) sealed)"

definition writer_ok :: "bytes list \<Rightarrow> bytes list \<Rightarrow> Shared \<Rightarrow> 'm Disk_scheme \<Rightarrow> bool" where
  "writer_ok acked failed w d \<longleftrightarrow> wf_disk d \<and>
     (\<exists>sealed i cur torn. acked = log_of sealed @ cur \<and> torn_ok failed torn \<and> sealed_below failed d i sealed \<and>
        (case st_open w of
           Some a \<Rightarrow> act_id a = i \<and> active_ok d (st_needs_roll w) a cur torn
         | None \<Rightarrow> \<exists>f. content d (segment_path i) = Some f \<and> prefix f (seg_image i cur torn)))"

lemma torn_ok_mono: "torn_ok failed torn \<Longrightarrow> set failed \<subseteq> set failed' \<Longrightarrow> torn_ok failed' torn"
  by (auto simp: torn_ok_def)

lemma sealed_below_mono:
  assumes "sealed_below failed d i sealed" "touches P d d'" "\<forall>j<i. segment_path j \<notin> P"
    "set failed \<subseteq> set failed'"
  shows "sealed_below failed' d' i sealed"
proof -
  have "sealed_ok d' s" if "sealed_ok d s" "fst s < i" for s
    using that assms(2,3) by (auto simp: sealed_ok_def touches_def split: prod.splits)
  with assms(1,4) show ?thesis by (auto simp: sealed_below_def intro: torn_ok_mono)
qed

lemma active_ok_frame:
  assumes "active_ok d nr a cur torn" "touches P d d'" "segment_path (act_id a) \<notin> P"
  shows "active_ok d' nr a cur torn"
  using assms by (auto simp: active_ok_def touches_def)

lemma active_ok_file:
  assumes "active_ok d nr a cur torn"
  obtains f st where "content d (segment_path (act_id a)) = Some f"
    "f @ bw_buf (act_file a) = seg_image (act_id a) cur torn" "stable d (segment_path (act_id a)) = Some st"
    "prefix st f" "unat (act_synced a) \<le> length st"
  using assms by (auto simp: active_ok_def)

section \<open>Every operation keeps it\<close>

text \<open>Moving bytes from the buffer to the file.\<close>

lemma flush_active:
  assumes "active_ok d nr a cur torn" "flush_buf (act_file a, d) = (r, (f, d'))"
  shows "active_ok d' nr (a\<lparr>act_file := f\<rparr>) cur torn \<and> touches {segment_path (act_id a)} d d' \<and>
    stable d' = stable d \<and> file_len d (segment_path (act_id a)) \<le> file_len d' (segment_path (act_id a)) \<and>
    (r = Inr () \<longrightarrow> bw_buf f = [])"
proof -
  let ?p = "segment_path (act_id a)"
  from assms(1) obtain cs st where cs: "content d ?p = Some cs"
      "cs @ bw_buf (act_file a) = seg_image (act_id a) cur torn"
    and st: "stable d ?p = Some st" "prefix st cs" "unat (act_synced a) \<le> length st"
    by (rule active_ok_file)
  have path: "bw_path (act_file a) = ?p" using assms(1) by (simp add: active_ok_def)
  from flush_buf_moves [OF assms(2)] cs(1) path obtain x where x:
    "bw_buf (act_file a) = x @ bw_buf f" "appended ?p x d d'" "bw_path f = ?p"
    "bw_cap f = bw_cap (act_file a)" "r = Inr () \<longrightarrow> bw_buf f = []" by auto
  have content: "content d' ?p = Some (cs @ x)" by (rule appended_content [OF x(2) cs(1)])
  have same: "stable d' = stable d" "linked d' = linked d" using x(2) by (simp_all add: appended_def)
  have "active_ok d' nr (a\<lparr>act_file := f\<rparr>) cur torn"
    using assms(1) x cs st content same by (auto simp: active_ok_def)
  then show ?thesis
    using x appended_touches [OF x(2)] same cs(1) content by (simp add: file_len_def)
qed

definition stable_len :: "'m Disk_scheme \<Rightarrow> path \<Rightarrow> nat" where
  "stable_len d p = (case stable d p of None \<Rightarrow> 0 | Some bs \<Rightarrow> length bs)"

text \<open>The active segment only grows, in memory, on disk and durably, until the next one replaces it.\<close>

definition grown :: "'m Disk_scheme \<Rightarrow> Active \<Rightarrow> 'm Disk_scheme \<Rightarrow> Active \<Rightarrow> bool" where
  "grown d a d' a' \<longleftrightarrow>
     act_id a < act_id a' \<or>
     act_id a' = act_id a \<and> act_bytes a \<le> act_bytes a' \<and>
     file_len d (segment_path (act_id a)) \<le> file_len d' (segment_path (act_id a)) \<and>
     stable_len d (segment_path (act_id a)) \<le> stable_len d' (segment_path (act_id a))"

definition later :: "Shared \<Rightarrow> 'm Disk_scheme \<Rightarrow> Shared \<Rightarrow> 'm Disk_scheme \<Rightarrow> bool" where
  "later w d w' d' \<longleftrightarrow>
     (\<forall>a'. st_open w' = Some a' \<longrightarrow> (\<exists>a. st_open w = Some a \<and> grown d a d' a'))"

lemma grown_refl [simp]: "grown d a d a"
  by (simp add: grown_def)

lemma grown_trans: "grown d a d' a' \<Longrightarrow> grown d' a' d'' a'' \<Longrightarrow> grown d a d'' a''"
  unfolding grown_def by (auto intro: order.trans)

lemma later_refl [simp]: "later w d w d"
  by (simp add: later_def)

lemma later_trans: "later w d w' d' \<Longrightarrow> later w' d' w'' d'' \<Longrightarrow> later w d w'' d''"
  unfolding later_def by (blast intro: grown_trans)

lemma later_open: "st_open w = st_open w1 \<Longrightarrow> st_open w' = st_open w2 \<Longrightarrow> later w1 d w2 d' \<Longrightarrow> later w d w' d'"
  by (simp add: later_def)

lemma note_simps [simp]:
  "st_open (note_fsync now w) = st_open w" "st_needs_roll (note_fsync now w) = st_needs_roll w"
  "st_open (note_failure now w) = st_open w" "st_needs_roll (note_failure now w) = st_needs_roll w"
  "note_fsync now w\<lparr>st_open := x\<rparr> = note_fsync now (w\<lparr>st_open := x\<rparr>)"
  by (simp_all add: note_fsync_def note_failure_def Let_def)

lemma sync_in_lock_spec:
  assumes ok: "active_ok d nr a cur torn" and run: "sync_in_lock now (a, w, d) = (r, (a', w', d'))"
  shows "active_ok d' nr a' cur torn \<and> act_id a' = act_id a \<and> act_bytes a' = act_bytes a \<and>
    touches {segment_path (act_id a)} d d' \<and> (w' = w \<or> w' = note_fsync now w) \<and> grown d a d' a' \<and>
    (r = Inr () \<longrightarrow> bw_buf (act_file a') = [] \<and> act_synced a' = act_bytes a' \<and>
       sealed_ok d' (act_id a, cur, torn))"
proof -
  let ?p = "segment_path (act_id a)"
  obtain r1 f d1 where fl: "flush_buf (act_file a, d) = (r1, (f, d1))" by (metis prod.exhaust)
  note flushed = flush_active [OF ok fl]
  show ?thesis
  proof (cases r1)
    case (Inl e)
    with run fl have "r = Inl e" "a' = a\<lparr>act_file := f\<rparr>" "w' = w" "d' = d1" by (auto simp: sync_in_lock_def)
    with flushed show ?thesis by (simp add: stable_len_def grown_def)
  next
    case (Inr u)
    obtain r2 d2 where sy: "fs_sync ?p d1 = (r2, d2)" by fastforce
    note synced = fs_sync_spec [OF sy]
    have ok1: "active_ok d1 nr (a\<lparr>act_file := f\<rparr>) cur torn" and buf: "bw_buf f = []" using flushed Inr by auto
    from ok1 obtain cs st where cs: "content d1 ?p = Some cs" "cs = seg_image (act_id a) cur torn"
      and st: "stable d1 ?p = Some st" "prefix st cs" "unat (act_synced a) \<le> length st"
      by (rule active_ok_file) (use buf in simp)
    have touch: "touches {?p} d1 d2" using synced by (cases r2) (auto simp: touches_def)
    have len: "stable_len d1 ?p \<le> stable_len d2 ?p"
      using synced cs st by (cases r2) (auto simp: stable_len_def dest: prefix_length_le)
    show ?thesis
    proof (cases r2)
      case (Inl e)
      with run fl Inr sy have "r = Inl e" "a' = a\<lparr>act_file := f\<rparr>" "w' = w" "d' = d2"
        by (auto simp: sync_in_lock_def)
      moreover have "active_ok d2 nr (a\<lparr>act_file := f\<rparr>) cur torn"
        using ok1 synced Inl by (simp add: active_ok_def)
      ultimately show ?thesis
        using flushed synced touch len touches_trans by (auto simp: file_len_def stable_len_def grown_def)
    next
      case durable: (Inr u2)
      with run fl Inr sy have eq: "r = Inr ()" "a' = a\<lparr>act_file := f, act_synced := act_bytes a\<rparr>"
          "w' = note_fsync now w" "d' = d2"
        by (auto simp: sync_in_lock_def)
      have stable: "stable d2 ?p = Some cs" "content d2 ?p = Some cs" "linked d2 ?p"
        using synced durable cs(1) ok1 by (auto simp: active_ok_def)
      have "unat (act_bytes a) \<le> length cs" using ok by (simp add: cs(2) seg_image_def active_ok_def)
      then have "active_ok d2 nr a' cur torn" using ok1 stable buf cs(2) by (auto simp: active_ok_def eq)
      moreover have "sealed_ok d2 (act_id a, cur, torn)" using stable cs(2) by (simp add: sealed_ok_def)
      ultimately show ?thesis
        using eq flushed synced touch len buf touches_trans by (auto simp: file_len_def stable_len_def grown_def)
    qed
  qed
qed

lemma sync_in_lock_open:
  "sync_in_lock now (a, w, d) = (r, (a', w', d')) \<Longrightarrow> st_open w' = st_open w"
  by (auto simp: sync_in_lock_def split: prod.splits sum.splits)

lemma roll_spec:
  assumes ok: "writer_ok acked failed w d" and room: "\<forall>a. st_open w = Some a \<longrightarrow> act_id a \<noteq> - 1"
    and run: "roll now (w, d) = (r, (w', d'))" and "st_open w = Some a0"
  shows "later w d w' d' \<and> st_needs_roll w' = st_needs_roll w \<and>
    (case r of Inl _ \<Rightarrow> writer_ok acked failed w' d'
     | Inr i \<Rightarrow> i = act_id a0 \<and> (\<forall>b. writer_ok acked failed (w'\<lparr>st_needs_roll := b\<rparr>) d'))"
proof -
  from ok \<open>st_open w = Some a0\<close> obtain sealed cur torn where
    wf: "wf_disk d" and acked: "acked = log_of sealed @ cur" and torn: "torn_ok failed torn" and
    sealed: "sealed_below failed d (act_id a0) sealed" and act: "active_ok d (st_needs_roll w) a0 cur torn"
    by (auto simp: writer_ok_def)
  let ?i = "act_id a0" and ?n = "act_id a0 + 1"
  have up: "?i < ?n" using room assms(4) word_bump by blast
  obtain r1 a1 w1 d1 where sy: "sync_in_lock now (a0, w, d) = (r1, (a1, w1, d1))" by (metis prod.exhaust)
  note s = sync_in_lock_spec [OF act sy]
  have wf1: "wf_disk d1" using s wf by (auto simp: touches_def)
  have sealed1: "sealed_below failed d1 ?i sealed"
    by (rule sealed_below_mono [OF sealed, of "{segment_path ?i}"]) (use s in auto)
  have w1: "st_needs_roll w1 = st_needs_roll w" using s by auto
  show ?thesis
  proof (cases r1)
    case (Inl e)
    with run sy assms(4) have "r = Inl (Io e)" "w' = w1\<lparr>st_open := Some a1\<rparr>" "d' = d1" by (auto simp: roll_def)
    with s wf1 sealed1 acked torn w1 assms(4) show ?thesis
      by (auto simp: writer_ok_def later_def)
  next
    case (Inr u)
    obtain r2 d2 where cr: "create_segment ?n d1 = (r2, d2)" by fastforce
    note c = create_segment_spec [OF cr wf1]
    have wf2: "wf_disk d2" using c wf1 by (simp add: touches_def)
    have act2: "active_ok d2 (st_needs_roll w) a1 cur torn"
      by (rule active_ok_frame [of d1 _ _ _ _ "{segment_path ?n}"]) (use s c up in auto)
    have sealed2: "sealed_below failed d2 ?i sealed"
      by (rule sealed_below_mono [OF sealed1, of "{segment_path ?n}"]) (use c up in auto)
    have same: "content d2 (segment_path ?i) = content d1 (segment_path ?i)"
        "stable d2 (segment_path ?i) = stable d1 (segment_path ?i)"
        "sealed_ok d2 (?i, cur, torn)"
      using c up s Inr by (auto simp: touches_def sealed_ok_def)
    show ?thesis
    proof (cases r2)
      case failed: (Inl e)
      with run sy Inr cr assms(4) have "r = Inl e" "w' = w1\<lparr>st_open := Some a1\<rparr>" "d' = d2" by (auto simp: roll_def)
      moreover have "grown d a0 d2 a1" using s same by (auto simp: grown_def file_len_def stable_len_def)
      ultimately show ?thesis
        using s wf2 sealed2 act2 acked torn w1 assms(4) by (auto simp: writer_ok_def later_def)
    next
      case created: (Inr a2)
      with run sy Inr cr assms(4) have eq: "r = Inr ?i" "w' = w1\<lparr>st_open := Some a2\<rparr>" "d' = d2" by (auto simp: roll_def)
      have a2: "act_id a2 = ?n" "active_ok d2 b a2 [] []" for b
        using c created by (auto simp: active_ok_def seg_image_def buf_new_def unat_of_nat SEGMENT_HEADER_BYTES_def)
      have "sealed_below failed d2 ?n (sealed @ [(?i, cur, torn)])"
        using sealed2 up same(3) torn by (auto simp: sealed_below_def sorted_wrt_append)
      moreover have "acked = log_of (sealed @ [(?i, cur, torn)]) @ []" by (simp add: acked log_of_def)
      moreover have "later w d w' d'" using assms(4) a2(1) up by (auto simp: later_def eq grown_def)
      ultimately show ?thesis
        using a2 wf2 w1 eq by (fastforce simp: writer_ok_def torn_ok_def)
    qed
  qed
qed

lemma roll_now_spec:
  assumes ok: "writer_ok acked failed w d" and room: "\<forall>a. st_open w = Some a \<longrightarrow> act_id a \<noteq> - 1"
    and run: "roll_now now (w, d) = (r, (w', d'))"
  shows "writer_ok acked failed w' d' \<and> later w d w' d'"
proof (cases "st_open w")
  case None
  with run have "w' = w" "d' = d" by (auto simp: roll_now_def roll_def)
  with ok show ?thesis by simp
next
  case (Some a)
  obtain r1 w1 d1 where ro: "roll now (w, d) = (r1, (w1, d1))" by (metis prod.exhaust)
  with run have "w' = (case r1 of Inl _ \<Rightarrow> w1 | Inr _ \<Rightarrow> w1\<lparr>st_needs_roll := False\<rparr>)" "d' = d1"
    by (auto simp: roll_now_def seq_def split: sum.splits)
  with roll_spec [OF ok room ro Some] show ?thesis
    by (cases r1) (auto intro: later_open)
qed

text \<open>A failed write: the failed bytes join the failures, then the segment is sealed if it can be.\<close>

lemma seal_torn_spec:
  assumes ok: "writer_ok acked failed (w\<lparr>st_needs_roll := True\<rparr>) d"
    and room: "\<forall>a. st_open w = Some a \<longrightarrow> act_id a \<noteq> - 1"
    and run: "seal_torn now e (w, d) = (r, (w', d'))" and "st_open w = Some a0"
  shows "writer_ok acked failed w' d' \<and> later w d w' d' \<and> r = Inl (Io e)"
proof -
  obtain r1 w1 d1 where ro: "roll now (w\<lparr>st_needs_roll := True\<rparr>, d) = (r1, (w1, d1))" by (metis prod.exhaust)
  with run have "w' = (case r1 of Inl _ \<Rightarrow> w1 | Inr _ \<Rightarrow> w1\<lparr>st_needs_roll := False\<rparr>)" "d' = d1" "r = Inl (Io e)"
    by (auto simp: seal_torn_def split: sum.splits)
  with roll_spec [OF ok _ ro] room assms(4) show ?thesis
    by (cases r1) (auto simp: later_def)
qed

lemma writer_ok_cong:
  "st_open w = st_open w' \<Longrightarrow> st_needs_roll w = st_needs_roll w' \<Longrightarrow>
     writer_ok acked failed w d = writer_ok acked failed w' d"
  by (cases "st_open w'") (simp_all add: writer_ok_def)

lemma writer_ok_open:
  assumes "st_open w = Some a"
  shows "writer_ok acked failed w d \<longleftrightarrow> wf_disk d \<and>
    (\<exists>sealed cur torn. acked = log_of sealed @ cur \<and> torn_ok failed torn \<and>
       sealed_below failed d (act_id a) sealed \<and> active_ok d (st_needs_roll w) a cur torn)"
  using assms by (auto simp: writer_ok_def)

lemma writer_ok_more:
  assumes "writer_ok acked failed w d" shows "writer_ok acked (failed @ fs) w d"
proof -
  from assms obtain sealed i cur torn where *: "wf_disk d" "acked = log_of sealed @ cur" "torn_ok failed torn"
      "sealed_below failed d i sealed"
      "case st_open w of Some a \<Rightarrow> act_id a = i \<and> active_ok d (st_needs_roll w) a cur torn
       | None \<Rightarrow> \<exists>f. content d (segment_path i) = Some f \<and> prefix f (seg_image i cur torn)"
    unfolding writer_ok_def by blast
  have "torn_ok (failed @ fs) torn" by (rule torn_ok_mono [OF *(3)]) simp
  moreover have "sealed_below (failed @ fs) d i sealed"
    by (rule sealed_below_mono [OF *(4) touches_refl [of "{}"]]) simp_all
  ultimately show ?thesis using * unfolding writer_ok_def by blast
qed

text \<open>
  One buffered write to the active segment: it holds one append more, or, after a failure, at most
  a first part of it.
\<close>

lemma write_active:
  assumes act: "active_ok d False a cur torn" and run: "buf_write_all bs (act_file a, d) = (r, (f, d'))"
    and fits: "r = Inr () \<longrightarrow> unat (act_bytes a) + length bs < 2 ^ 64"
  shows "touches {segment_path (act_id a)} d d' \<and>
    (case r of
       Inr _ \<Rightarrow> active_ok d' False (a\<lparr>act_file := f, act_bytes := act_bytes a + of_nat (length bs)\<rparr>) (cur @ [bs]) [] \<and>
         grown d a d' (a\<lparr>act_file := f, act_bytes := act_bytes a + of_nat (length bs)\<rparr>)
     | Inl _ \<Rightarrow> grown d a d' (a\<lparr>act_file := f\<rparr>) \<and>
         (\<exists>t. prefix t bs \<and> active_ok d' True (a\<lparr>act_file := f\<rparr>) cur t))"
proof -
  let ?p = "segment_path (act_id a)"
  have torn: "torn = []" and path: "bw_path (act_file a) = ?p"
    and cap: "length (bw_buf (act_file a)) \<le> bw_cap (act_file a)"
    using act by (auto simp: active_ok_def)
  from act obtain cs st where cs: "content d ?p = Some cs"
      "cs @ bw_buf (act_file a) = seg_image (act_id a) cur torn" and st: "stable d ?p = Some st" "prefix st cs"
      "unat (act_synced a) \<le> length st" by (rule active_ok_file)
  from buf_write_all_spec [OF run _ cap] cs(1) path obtain x where
    f: "bw_path f = ?p" "length (bw_buf f) \<le> bw_cap f" and x: "appended ?p x d d'"
    and good: "r = Inr () \<Longrightarrow> x @ bw_buf f = bw_buf (act_file a) @ bs"
    and bad: "r \<noteq> Inr () \<Longrightarrow> x @ bw_buf f = bw_buf (act_file a) \<or>
       bw_buf f = [] \<and> (\<exists>n. x = bw_buf (act_file a) @ take n bs)"
    by auto
  have d': "content d' ?p = Some (cs @ x)" "stable d' = stable d" "linked d' = linked d"
    using x cs(1) by (auto simp: appended_def)
  have longer: "file_len d ?p \<le> file_len d' ?p" "stable_len d ?p \<le> stable_len d' ?p"
    using cs(1) d' by (simp_all add: file_len_def stable_len_def)
  note touch = appended_touches [OF x]
  show ?thesis
  proof (cases r)
    case (Inr u)
    let ?a = "a\<lparr>act_file := f, act_bytes := act_bytes a + of_nat (length bs)\<rparr>"
    have bytes: "unat (act_bytes ?a) = unat (act_bytes a) + length bs"
      using fits Inr by (simp add: word_add_exact)
    have "seg_image (act_id a) (cur @ [bs]) [] = (cs @ x) @ bw_buf f"
      using good Inr cs(2) by (simp add: seg_image_def torn)
    moreover have "act_bytes a \<le> act_bytes ?a" unfolding word_le_nat_alt bytes by simp
    ultimately have "active_ok d' False ?a (cur @ [bs]) [] \<and> grown d a d' ?a"
      using act f d' st bytes longer by (auto simp: active_ok_def grown_def intro: order.trans)
    with touch Inr show ?thesis by simp
  next
    case (Inl e)
    from bad Inl consider "x @ bw_buf f = bw_buf (act_file a)"
      | n where "bw_buf f = []" "x = bw_buf (act_file a) @ take n bs" by auto
    then obtain t where "cs @ x @ bw_buf f = seg_image (act_id a) cur t" "t \<noteq> [] \<longrightarrow> bw_buf f = []" "prefix t bs"
    proof cases
      case 1
      then show ?thesis using cs(2) that [of "[]"] by (simp add: torn)
    next
      case 2
      then show ?thesis using cs(2) that [of "take n bs"] by (simp add: seg_image_def torn take_is_prefix)
    qed
    then have "active_ok d' True (a\<lparr>act_file := f\<rparr>) cur t" "prefix t bs"
      using act f d' st by (auto simp: active_ok_def)
    with touch Inl longer show ?thesis by (auto simp: grown_def)
  qed
qed

lemma append_bytes_spec:
  assumes ok: "writer_ok acked failed w d" and room: "\<forall>a. st_open w = Some a \<longrightarrow> act_id a \<noteq> - 1"
    and small: "r = Inr () \<longrightarrow> SEGMENT_HEADER_BYTES + length (concat (acked @ [bs])) < 2 ^ 64"
    and run: "append_bytes now bs (w, d) = (r, (w', d'))"
  shows "writer_ok (acked @ acks (LAppend bs r)) (failed @ rejects (LAppend bs r)) w' d' \<and> later w d w' d'"
proof (cases "st_needs_roll w \<or> st_open w = None")
  case True
  with run have "w' = w" "d' = d" "\<exists>e. r = Inl e" by (auto simp: append_bytes_def split: if_splits)
  with writer_ok_more [OF ok] show ?thesis by auto
next
  case False
  then obtain a where a: "st_open w = Some a" "\<not> st_needs_roll w" by auto
  from ok a obtain sealed cur torn where
    wf: "wf_disk d" and acked: "acked = log_of sealed @ cur" and
    sealed: "sealed_below failed d (act_id a) sealed" and act: "active_ok d False a cur torn"
    by (auto simp: writer_ok_def)
  obtain r1 f d1 where wr: "buf_write_all bs (act_file a, d) = (r1, (f, d1))" by (metis prod.exhaust)
  have "r1 = Inr () \<Longrightarrow> r = Inr ()" using run a wr by (auto simp: append_bytes_def Let_def)
  then have "r1 = Inr () \<longrightarrow> unat (act_bytes a) + length bs < 2 ^ 64"
    using small act acked by (auto simp: active_ok_def)
  note written = write_active [OF act wr this]
  have wf1: "wf_disk d1" using written wf by (simp add: touches_def)
  have sealed1: "sealed_below (failed @ fs) d1 (act_id a) sealed" for fs
    by (rule sealed_below_mono [OF sealed, of "{segment_path (act_id a)}"]) (use written in auto)
  show ?thesis
  proof (cases r1)
    case (Inr u)
    with run a wr have "r = Inr ()" "d' = d1" "w' = w\<lparr>st_open := Some (a\<lparr>act_file := f,
        act_bytes := act_bytes a + of_nat (length bs)\<rparr>), st_appended := st_appended w + of_nat (length bs)\<rparr>"
      by (auto simp: append_bytes_def Let_def)
    with written Inr a acked sealed1 [of "[]"] wf1 show ?thesis
      by (auto simp: writer_ok_def later_def torn_ok_def intro!: exI [of _ sealed])
  next
    case (Inl e)
    define w1 where "w1 = w\<lparr>st_open := Some (a\<lparr>act_file := f\<rparr>)\<rparr>"
    from written Inl obtain t where t: "prefix t bs" "active_ok d1 True (a\<lparr>act_file := f\<rparr>) cur t" by auto
    have sealing: "seal_torn now e (w1, d1) = (r, (w', d'))"
      using run a wr Inl by (auto simp: append_bytes_def w1_def)
    have "writer_ok acked (failed @ [bs]) (w1\<lparr>st_needs_roll := True\<rparr>) d1"
      using acked sealed1 [of "[bs]"] wf1 t
      by (auto simp: writer_ok_def w1_def torn_ok_def intro!: exI [of _ sealed] exI [of _ cur])
    from seal_torn_spec [OF this _ sealing] room a(1)
    have "writer_ok acked (failed @ [bs]) w' d'" "later w1 d1 w' d'" "r = Inl (Io e)"
      by (auto simp: w1_def)
    moreover have "later w d w1 d1" using a(1) written Inl by (auto simp: later_def w1_def)
    ultimately show ?thesis using later_trans by auto
  qed
qed

lemma seal_spec:
  assumes "writer_ok acked failed w d" "\<forall>a. st_open w = Some a \<longrightarrow> act_id a \<noteq> - 1" "seal now (w, d) = (r, (w', d'))"
  shows "writer_ok acked failed w' d' \<and> later w d w' d'"
proof (cases "\<exists>a. st_open w = Some a \<and> act_bytes a \<noteq> of_nat SEGMENT_HEADER_BYTES")
  case True
  with assms(3) obtain r1 where "roll_now now (w, d) = (r1, (w', d'))"
    by (auto simp: seal_def seq_def split: prod.splits sum.splits)
  then show ?thesis by (rule roll_now_spec [OF assms(1,2)])
next
  case False
  with assms(3) have "w' = w" "d' = d" by (auto simp: seal_def split: option.splits if_splits)
  with assms(1) show ?thesis by simp
qed

lemma close_open_spec:
  assumes ok: "writer_ok acked failed w d" and run: "close_open now (w, d) = (r, (w', d'))"
  shows "writer_ok acked failed w' d' \<and> st_open w' = None"
proof (cases "st_open w")
  case None
  with run ok show ?thesis by (auto simp: close_open_def)
next
  case (Some a)
  from ok Some obtain sealed cur torn where
    wf: "wf_disk d" and acked: "acked = log_of sealed @ cur" and torn: "torn_ok failed torn" and
    sealed: "sealed_below failed d (act_id a) sealed" and act: "active_ok d (st_needs_roll w) a cur torn"
    by (auto simp: writer_ok_def)
  let ?p = "segment_path (act_id a)"
  obtain r1 a1 w1 d1 where sy: "sync_in_lock now (a, w\<lparr>st_open := None\<rparr>, d) = (r1, (a1, w1, d1))"
    by (metis prod.exhaust)
  note s = sync_in_lock_spec [OF act sy]
  obtain r2 f d2 where fl: "flush_buf (act_file a1, d1) = (r2, (f, d2))" by (metis prod.exhaust)
  have "active_ok d1 (st_needs_roll w) a1 cur torn" using s by simp
  note flushed = flush_active [OF this fl]
  have eq: "w' = w1" "d' = d2" using run Some sy fl by (auto simp: close_open_def)
  have "touches {?p} d d2" using s flushed touches_trans [of "{?p}" d d1 d2] by auto
  then have wf2: "wf_disk d2" and sealed2: "sealed_below failed d2 (act_id a) sealed"
    using wf sealed_below_mono [OF sealed, of "{?p}"] by (auto simp: touches_def)
  from flushed have "active_ok d2 (st_needs_roll w) (a1\<lparr>act_file := f\<rparr>) cur torn" by simp
  then obtain cs where "content d2 ?p = Some cs" "prefix cs (seg_image (act_id a) cur torn)"
    using s by (auto simp: active_ok_def prefix_def intro: sym)
  moreover have "st_open w1 = None" using s by auto
  ultimately show ?thesis using eq acked torn wf2 sealed2
    by (auto simp: writer_ok_def intro!: exI [of _ sealed] exI [of _ "act_id a"] exI [of _ cur])
qed

text \<open>What the committer carries from one lock to the next stays covered by the segment.\<close>

definition covered :: "nat \<Rightarrow> Active \<Rightarrow> u64 \<Rightarrow> u64 \<Rightarrow> bool" where
  "covered len a i u \<longleftrightarrow> i \<le> act_id a \<and> (i = act_id a \<longrightarrow> u \<le> act_bytes a \<and> unat u \<le> len)"

definition commit_ok :: "Committer \<Rightarrow> Shared \<Rightarrow> 'm Disk_scheme \<Rightarrow> bool" where
  "commit_ok c w d \<longleftrightarrow>
     (\<forall>a. st_open w = Some a \<longrightarrow>
        (case pc c of
           Fsync i u \<Rightarrow> covered (file_len d (segment_path i)) a i u
         | Mark i u \<Rightarrow> covered (stable_len d (segment_path i)) a i u
         | _ \<Rightarrow> True))"

lemma covered_grown:
  assumes "grown d a d' a'"
  shows "covered (file_len d (segment_path i)) a i u \<Longrightarrow> covered (file_len d' (segment_path i)) a' i u"
    "covered (stable_len d (segment_path i)) a i u \<Longrightarrow> covered (stable_len d' (segment_path i)) a' i u"
  using assms by (auto simp: covered_def grown_def)

lemma commit_ok_later:
  assumes "commit_ok c w d" "later w d w' d'" shows "commit_ok c w' d'"
  unfolding commit_ok_def
proof (intro allI impI)
  fix a' assume "st_open w' = Some a'"
  with assms(2) obtain a where a: "st_open w = Some a" "grown d a d' a'" by (auto simp: later_def)
  with assms(1) covered_grown [OF a(2)]
  show "case pc c of Fsync i u \<Rightarrow> covered (file_len d' (segment_path i)) a' i u
      | Mark i u \<Rightarrow> covered (stable_len d' (segment_path i)) a' i u | _ \<Rightarrow> True"
    by (auto simp: commit_ok_def split: Pc.splits)
qed

definition sys_ok :: "bytes list \<Rightarrow> bytes list \<Rightarrow> 'm sys \<Rightarrow> bool" where
  "sys_ok acked failed = (\<lambda>(c, w, d). writer_ok acked failed w d \<and> commit_ok c w d)"

lemma collect_ok:
  assumes ok: "writer_ok acked failed w d" and run: "committer_collect now elapsed (c, w, d) = (c', w', d')"
  shows "writer_ok acked failed w' d' \<and> commit_ok c' w' d'"
proof (cases "st_stop w \<or> (\<forall>a. st_open w = Some a \<longrightarrow> \<not> is_due w (retry c) elapsed a)")
  case True
  with run have "w' = w" "d' = d" "pc c' = Exited \<or> pc c' = Rolling"
    by (auto simp: committer_collect_def split: if_splits option.splits)
  with ok show ?thesis by (auto simp: commit_ok_def)
next
  case False
  then obtain a where a: "st_open w = Some a" "is_due w (retry c) elapsed a" "\<not> st_stop w" by auto
  from ok a obtain sealed cur torn where
    wf: "wf_disk d" and acked: "acked = log_of sealed @ cur" and torn: "torn_ok failed torn" and
    sealed: "sealed_below failed d (act_id a) sealed" and act: "active_ok d (st_needs_roll w) a cur torn"
    by (auto simp: writer_ok_def)
  obtain r f d1 where fl: "flush_buf (act_file a, d) = (r, (f, d1))" by (metis prod.exhaust)
  note flushed = flush_active [OF act fl]
  have "sealed_below failed d1 (act_id a) sealed"
    by (rule sealed_below_mono [OF sealed, of "{segment_path (act_id a)}"]) (use flushed in auto)
  with flushed wf have *: "writer_ok acked failed w1 d1"
    if "st_open w1 = Some (a\<lparr>act_file := f\<rparr>)" "st_needs_roll w1 = st_needs_roll w" for w1
    using that acked torn by (auto simp: writer_ok_def touches_def intro!: exI [of _ sealed])
  show ?thesis
  proof (cases r)
    case (Inl e)
    with run a fl have "d' = d1" "pc c' = Rolling" "w' = note_failure now (w\<lparr>st_open := Some (a\<lparr>act_file := f\<rparr>)\<rparr>)"
      by (auto simp: committer_collect_def)
    with * show ?thesis by (auto simp: commit_ok_def)
  next
    case (Inr u)
    with run a fl have eq: "d' = d1" "pc c' = Fsync (act_id a) (act_bytes a)" "w' = w\<lparr>st_open := Some (a\<lparr>act_file := f\<rparr>)\<rparr>"
      by (auto simp: committer_collect_def)
    from flushed obtain cs where "content d1 (segment_path (act_id a)) = Some cs" "cs = seg_image (act_id a) cur torn"
      by (auto simp: active_ok_def Inr)
    then have "unat (act_bytes a) \<le> file_len d1 (segment_path (act_id a))"
      using act by (simp add: file_len_def seg_image_def active_ok_def)
    with * eq show ?thesis by (auto simp: commit_ok_def covered_def)
  qed
qed

lemma fsync_ok:
  assumes ok: "writer_ok acked failed w d" "commit_ok c w d" and pc: "pc c = Fsync i u"
    and run: "committer_fsync now i u (c, w, d) = (c', w', d')"
  shows "writer_ok acked failed w' d' \<and> commit_ok c' w' d'"
proof -
  obtain r d1 where sy: "fs_sync (segment_path i) d = (r, d1)" by fastforce
  note s = fs_sync_spec [OF sy]
  have wf: "wf_disk d1" "d' = d1" "st_open w' = st_open w" "st_needs_roll w' = st_needs_roll w"
    using run sy s ok(1) by (auto simp: committer_fsync_def writer_ok_def split: sum.splits)
  have "active_ok d1 nr a cur torn" if "active_ok d nr a cur torn" for nr a cur torn
    using that s by (cases r) (auto simp: active_ok_def dest: prefix_length_le intro: order.trans)
  moreover have "sealed_below failed d1 j sealed" if "sealed_below failed d j sealed" for j sealed
    using that s by (cases r) (auto simp: sealed_below_def sealed_ok_def split: prod.splits)
  ultimately have "writer_ok acked failed w' d'"
    using ok(1) s wf unfolding writer_ok_def by (fastforce split: option.splits)
  moreover have "commit_ok c' w' d'"
    using run sy s ok(2) pc wf
    by (cases r) (auto simp: committer_fsync_def commit_ok_def stable_len_def file_len_def split: sum.splits)
  ultimately show ?thesis by simp
qed

lemma mark_ok:
  assumes ok: "writer_ok acked failed w d" "commit_ok c w d" and pc: "pc c = Mark i u"
    and run: "committer_mark i u (c, w, d) = (c', w', d')"
  shows "writer_ok acked failed w' d' \<and> commit_ok c' w' d'"
proof -
  have eq: "d' = d" "pc c' = Rolling" "st_needs_roll w' = st_needs_roll w"
    using run by (auto simp: committer_mark_def split: option.splits if_splits)
  have "active_ok d nr (a\<lparr>act_synced := max (act_synced a) u\<rparr>) cur torn"
    if "active_ok d nr a cur torn" "st_open w = Some a" "act_id a = i" for nr a cur torn
    using that ok(2) pc by (auto simp: active_ok_def commit_ok_def covered_def stable_len_def max_def)
  then have "writer_ok acked failed w' d'" if "st_open w = Some a" "act_id a = i" for a
    using that ok(1) run eq by (fastforce simp: writer_ok_open committer_mark_def)
  moreover have "w' = w" if "\<forall>a. st_open w = Some a \<longrightarrow> act_id a \<noteq> i"
    using that run by (auto simp: committer_mark_def split: option.splits if_splits)
  ultimately have "writer_ok acked failed w' d'" using ok(1) eq(1) by blast
  with eq show ?thesis by (simp add: commit_ok_def)
qed

lemma committer_roll_ok:
  assumes ok: "writer_ok acked failed w d" and room: "\<forall>a. st_open w = Some a \<longrightarrow> act_id a \<noteq> - 1"
    and run: "committer_roll now (c, w, d) = (c', w', d')"
  shows "writer_ok acked failed w' d' \<and> commit_ok c' w' d'"
proof -
  have "pc c' = Beating" and "(w' = w \<and> d' = d) \<or> (\<exists>r. roll_now now (w, d) = (r, (w', d')))"
    using run by (auto simp: committer_roll_def Let_def split: if_splits prod.splits)
  with roll_now_spec [OF ok room] ok show ?thesis by (auto simp: commit_ok_def)
qed

lemma stamp_simps [simp]:
  "content (stamp d) = content d" "stable (stamp d) = stable d" "linked (stamp d) = linked d"
  "wf_disk (stamp d) = wf_disk d"
  by (simp_all add: stamp_def content_def wf_disk_def)

lemma touch_lock_touches: "touches {lock_path} d (snd (touch_lock d))"
proof -
  have 1: "touches {lock_path} d d'" if "fs_set_len lock_path n d = (r, d')" for n r and d d' :: "'x LockDisk_scheme"
    using that by (auto simp: fs_set_len_def attempt_def syscall_def on_file_def Let_def touches_def
        split: outcome.splits option.splits)
  have 2: "touches {lock_path} d d'" if "fs_write lock_path bs d = (r, d')" for bs r and d d' :: "'x LockDisk_scheme"
    using that by (auto simp: fs_write_def syscall_def append_file_def Let_def touches_def
        split: outcome.splits option.splits)
  have 3: "touches {lock_path} d (stamp d)" for d :: "'x LockDisk_scheme" by (simp add: touches_def)
  show ?thesis
    using touches_trans [OF 1 touches_trans [OF 3 2]] 1
    by (auto simp: touch_lock_def seq_def lift_io_def open_truncate_def stamped_def write_pid_def
        split: prod.splits sum.splits)
qed

lemma lock_not_segment [simp]: "lock_path \<noteq> segment_path i" "segment_path i \<noteq> lock_path"
  by (simp_all add: lock_path_def segment_path_def wal_dir_def)

lemma writer_ok_touches:
  assumes "writer_ok acked failed w d" "touches P d d'" "\<forall>i. segment_path i \<notin> P"
  shows "writer_ok acked failed w d'"
proof -
  have "wf_disk d'" using assms(1,2) by (auto simp: writer_ok_def touches_def)
  moreover have "sealed_below failed d' i sealed" if "sealed_below failed d i sealed" for i sealed
    using sealed_below_mono [OF that assms(2)] assms(3) by simp
  moreover have "active_ok d' nr a cur torn" if "active_ok d nr a cur torn" for nr a cur torn
    using active_ok_frame [OF that assms(2)] assms(3) by simp
  moreover have "content d' (segment_path i) = content d (segment_path i)" for i
    using assms(2,3) by (simp add: touches_def)
  ultimately show ?thesis using assms(1) unfolding writer_ok_def by (fastforce split: option.splits)
qed

lemma beat_ok:
  assumes "writer_ok acked failed w d" "committer_beat elapsed (c, w, d) = (c', w', d')"
  shows "writer_ok acked failed w' d' \<and> commit_ok c' w' d'"
proof -
  have "w' = w" "pc c' = Waiting" "touches {lock_path} d d'"
    using assms(2) touch_lock_touches [of d] by (auto simp: committer_beat_def split: if_splits)
  with writer_ok_touches [OF assms(1)] show ?thesis by (auto simp: commit_ok_def)
qed

lemma flush_ok:
  assumes ok: "writer_ok acked failed w d" "commit_ok c w d" and a: "st_open w = Some a" "i < act_id a"
    and run: "fs_remove (segment_path i) d = (r, d')"
  shows "writer_ok acked failed w d' \<and> commit_ok c w d'"
proof -
  have d': "content d' = content d \<or> content d' = (content d)(segment_path i := None)"
      "stable d' = stable d" "linked d' = linked d" "wf_disk d \<longrightarrow> wf_disk d'"
    using run by (auto simp: fs_remove_def attempt_def syscall_def on_file_def Let_def
        split: outcome.splits option.splits)
  then have touch: "touches {segment_path i} d d'" by (auto simp: touches_def)
  have "sealed_ok d' s" if "sealed_ok d s" for s using that d' by (cases s) (auto simp: sealed_ok_def split: if_splits)
  then have "sealed_below failed d' j sealed" if "sealed_below failed d j sealed" for j sealed
    using that by (auto simp: sealed_below_def)
  moreover have "active_ok d' nr a cur torn" if "active_ok d nr a cur torn" for nr cur torn
    using active_ok_frame [OF that touch] a(2) by simp
  ultimately have "writer_ok acked failed w d'"
    using ok(1) d'(4) a(1) unfolding writer_ok_def by (fastforce split: option.splits)
  moreover have "later w d w d'"
    using a d' by (auto simp: later_def grown_def file_len_def stable_len_def)
  ultimately show ?thesis using commit_ok_later [OF ok(2)] by simp
qed

lemma wal_step_ok:
  assumes "wal_step s l s'" "sys_ok acked failed s" "roomy acked s" "roomy (acked @ acks l) s'"
  shows "sys_ok (acked @ acks l) (failed @ rejects l) s'"
  using assms
proof (induction rule: wal_step.induct)
  case (step_append now bs w d r w' d' c)
  then show ?case
    using append_bytes_spec [of acked failed w d r bs now w' d'] commit_ok_later [of c w d w' d']
    by (cases r) (auto simp: sys_ok_def roomy_def)
next
  case (step_seal now w d r w' d' c)
  then show ?case
    using seal_spec [of acked failed w d now r w' d'] commit_ok_later [of c w d w' d']
    by (auto simp: sys_ok_def roomy_def)
next
  case (step_stop c w d)
  then show ?case
    using writer_ok_cong [of "w\<lparr>st_stop := True\<rparr>" w] by (auto simp: sys_ok_def commit_ok_def)
next
  case (step_close c w now d r w' d')
  then show ?case
    using close_open_spec [of acked failed w d now r w' d'] by (auto simp: sys_ok_def commit_ok_def)
next
  case (step_collect c now elapsed w d c' w' d')
  then show ?case using collect_ok [of acked failed w d now elapsed c c' w' d'] by (auto simp: sys_ok_def)
next
  case (step_fsync c i u now w d c' w' d')
  then show ?case using fsync_ok [of acked failed w d c i u now c' w' d'] by (auto simp: sys_ok_def)
next
  case (step_mark c i u w d c' w' d')
  then show ?case using mark_ok [of acked failed w d c i u c' w' d'] by (auto simp: sys_ok_def)
next
  case (step_roll c now w d c' w' d')
  then show ?case
    using committer_roll_ok [of acked failed w d now c c' w' d'] by (auto simp: sys_ok_def roomy_def)
next
  case (step_beat c elapsed w d c' w' d')
  then show ?case using beat_ok [of acked failed w d elapsed c c' w' d'] by (auto simp: sys_ok_def)
next
  case (step_flush w a i d r d' c)
  then show ?case using flush_ok [of acked failed w d c a i r d'] by (auto simp: sys_ok_def)
qed

lemma wal_open_ok:
  assumes "wal_open opts d = (Inr w, d')" "wf_disk d"
  shows "sys_ok [] [] (\<lparr>pc = Waiting, retry = False\<rparr>, w, d') \<and> st_open w \<noteq> None"
proof -
  let ?i = "opt_first_segment opts"
  obtain d1 d2 a d3 where open_steps: "lift_io (fs_mkdir wal_dir) d = (Inr (), d1)" "lift_io (fsync_dir []) d1 = (Inr (), d2)"
      "create_segment ?i d2 = (Inr a, d3)" "lift_io spawn_committer d3 = (Inr (), d')"
      "w = (fresh_shared opts)\<lparr>st_open := Some a\<rparr>"
    using assms(1) by (auto simp: wal_open_def seq_eq_Inr)
  have "wf_disk d2" using open_steps(1,2) assms(2)
    by (auto simp: lift_io_def fs_mkdir_def fsync_dir_def attempt_def syscall_def Let_def
        split: prod.splits sum.splits outcome.splits)
  note c = create_segment_spec [OF open_steps(3) this]
  have d': "content d' = content d3" "stable d' = stable d3" "linked d' = linked d3" "wf_disk d3 \<longrightarrow> wf_disk d'"
    using open_steps(4) by (auto simp: lift_io_def spawn_committer_def attempt_def syscall_def Let_def
        split: prod.splits sum.splits outcome.splits)
  have "act_id a = ?i" "active_ok d' False a [] []"
    using c d' by (auto simp: active_ok_def seg_image_def buf_new_def unat_of_nat SEGMENT_HEADER_BYTES_def)
  then have "writer_ok [] [] w d'"
    using c d' \<open>wf_disk d2\<close> open_steps(5)
    by (auto simp: writer_ok_def fresh_shared_def torn_ok_def sealed_below_def log_of_def touches_def
        intro!: exI [of _ "[]"])
  then show ?thesis using open_steps(5) by (simp add: sys_ok_def commit_ok_def)
qed

lemma wal_run_ok: "wal_run acked failed s \<Longrightarrow> sys_ok acked failed s \<and> roomy acked s"
proof (induction rule: wal_run.induct)
  case (run_open d opts w d')
  then show ?case using wal_open_ok by blast
next
  case (run_step acked failed s l s')
  then show ?case using wal_step_ok by blast
qed

section \<open>Properties of every run\<close>

text \<open>
  Claim C32. The log refines an append-only list: in every interleaving of appends, seals, the
  committer and the flush, under every outcome of every system call, the acknowledged appends are,
  in order, the contents of the sealed segments followed by those of the active one, buffer
  included. No append straddles two segments; a sealed segment is durable as a whole; and bytes of
  an append that failed appear only at the very end of a segment, a first part of that append.
\<close>

theorem log_refines_append_only:
  assumes "wal_run acked failed (c, w, d)" and "st_open w = Some a"
  shows "\<exists>sealed cur torn f. acked = log_of sealed @ cur \<and>
    content d (segment_path (act_id a)) = Some f \<and>
    f @ bw_buf (act_file a) = encode_segment_header [] (act_id a) @ concat cur @ torn \<and>
    (torn \<noteq> [] \<longrightarrow> st_needs_roll w) \<and> torn_ok failed torn \<and>
    sorted_wrt (<) (map fst sealed @ [act_id a]) \<and>
    (\<forall>(j, as, t)\<in>set sealed. torn_ok failed t \<and>
       (content d (segment_path j) \<noteq> None \<longrightarrow> linked d (segment_path j) \<and>
          content d (segment_path j) = Some (encode_segment_header [] j @ concat as @ t) \<and>
          stable d (segment_path j) = content d (segment_path j)))"
proof -
  have "writer_ok acked failed w d" using wal_run_ok [OF assms(1)] by (simp add: sys_ok_def)
  then obtain sealed cur torn where *: "acked = log_of sealed @ cur" "torn_ok failed torn"
      "sealed_below failed d (act_id a) sealed" "active_ok d (st_needs_roll w) a cur torn"
    using assms(2) by (auto simp: writer_ok_open)
  from *(4) obtain f where "content d (segment_path (act_id a)) = Some f"
      "f @ bw_buf (act_file a) = encode_segment_header [] (act_id a) @ concat cur @ torn"
      "torn \<noteq> [] \<longrightarrow> st_needs_roll w"
    by (auto simp: active_ok_def seg_image_def)
  moreover have "sorted_wrt (<) (map fst sealed @ [act_id a])"
    using *(3) by (auto simp: sealed_below_def sorted_wrt_append)
  moreover have "\<forall>(j, as, t)\<in>set sealed. torn_ok failed t \<and>
       (content d (segment_path j) \<noteq> None \<longrightarrow> linked d (segment_path j) \<and>
          content d (segment_path j) = Some (encode_segment_header [] j @ concat as @ t) \<and>
          stable d (segment_path j) = content d (segment_path j))"
    using *(3) by (fastforce simp: sealed_below_def sealed_ok_def seg_image_def)
  ultimately show ?thesis using *(1,2) by blast
qed

text \<open>
  Claim C33. \<open>dirty_bytes\<close> is what a power cut costs at most: at every moment of every run, all bytes
  of the active segment but the last \<open>dirty_bytes\<close> of its acknowledged ones have been synced, the
  segment's name included.
\<close>

theorem power_cut_costs_at_most_dirty:
  assumes "wal_run acked failed (c, w, d)" and "st_open w = Some a"
  shows "stat_dirty_bytes (wal_stats w) \<le> stat_segment_bytes (wal_stats w) \<and>
    (\<exists>before cur st. acked = before @ cur \<and>
       unat (stat_segment_bytes (wal_stats w)) = SEGMENT_HEADER_BYTES + length (concat cur) \<and>
       linked d (segment_path (act_id a)) \<and> stable d (segment_path (act_id a)) = Some st \<and>
       prefix (take (unat (stat_segment_bytes (wal_stats w)) - unat (stat_dirty_bytes (wal_stats w)))
                 (encode_segment_header [] (act_id a) @ concat cur)) st)"
proof -
  have "writer_ok acked failed w d" using wal_run_ok [OF assms(1)] by (simp add: sys_ok_def)
  then obtain sealed cur torn where *: "acked = log_of sealed @ cur" "active_ok d (st_needs_roll w) a cur torn"
    using assms(2) by (auto simp: writer_ok_open)
  let ?h = "encode_segment_header [] (act_id a)" and ?n = "unat (act_synced a)"
  from *(2) obtain f st where f: "content d (segment_path (act_id a)) = Some f"
      "f @ bw_buf (act_file a) = seg_image (act_id a) cur torn"
    and st: "stable d (segment_path (act_id a)) = Some st" "prefix st f" "?n \<le> length st"
    by (rule active_ok_file)
  have le: "act_synced a \<le> act_bytes a"
    and bytes: "unat (act_bytes a) = SEGMENT_HEADER_BYTES + length (concat cur)"
    using *(2) by (auto simp: active_ok_def)
  have dirty: "unat (dirty a) = unat (act_bytes a) - ?n" "dirty a \<le> act_bytes a"
    using le by (simp_all add: dirty_def unat_sub word_le_nat_alt)
  have n: "?n \<le> length (?h @ concat cur)" using le bytes by (simp add: word_le_nat_alt)
  have "prefix st (?h @ concat cur @ torn)"
    using st(2) f(2) by (auto simp: seg_image_def prefix_def dest: sym)
  then have "take ?n (?h @ concat cur @ torn) = take ?n st"
    using st(3) by (elim prefixE) (simp del: take_append add: take_append [of _ st])
  moreover have "take ?n (?h @ concat cur @ torn) = take ?n (?h @ concat cur)" using n by simp
  ultimately have "take ?n (?h @ concat cur) = take ?n st" by metis
  then have "prefix (take ?n (?h @ concat cur)) st" by (metis take_is_prefix)
  moreover have "unat (act_bytes a) - unat (dirty a) = ?n" using dirty le by (simp add: word_le_nat_alt)
  ultimately show ?thesis
    using assms(2) * st(1) dirty(2) bytes by (auto simp: wal_stats_def active_ok_def)
qed

section \<open>Rolling\<close>

lemma create_segment_calm:
  assumes "calm d" "wf_disk d" "content d (segment_path i) = None"
  shows "\<exists>a d'. create_segment i d = (Inr a, d') \<and> act_id a = i"
proof -
  have "triple (durably True (\<lambda>c st l. c (segment_path i) = None)) (create_segment i)
     (\<lambda>a. durably True (\<lambda>_ _ _. act_id a = i)) (\<lambda>_. durably True (\<lambda>_ _ _. False))"
    unfolding create_segment_def
    by (rule durably_pre, (rule durable_rules)+) simp
  from durably_Inr [OF this] durably_Inl [OF this] assms show ?thesis
    by (metis prod.exhaust sum.exhaust)
qed

text \<open>
  A torn segment is only a pause: at any point of a run, if the disk works again and the
  next segment's file does not exist yet, a roll seals the active segment, returns its id, and
  from then on appends are accepted again.
\<close>

lemma roll_recovers:
  assumes run: "wal_run acked failed (c, w, d)" and a: "st_open w = Some a" and "calm d"
    and none: "content d (segment_path (act_id a + 1)) = None"
  shows "\<exists>w' d' a'. roll_now now (w, d) = (Inr (act_id a), (w', d')) \<and>
    st_open w' = Some a' \<and> act_id a' = act_id a + 1 \<and> \<not> st_needs_roll w'"
proof -
  have ok: "writer_ok acked failed w d" and room: "act_id a \<noteq> - 1"
    using wal_run_ok [OF run] a by (auto simp: sys_ok_def roomy_def)
  then obtain cur torn where act: "active_ok d (st_needs_roll w) a cur torn" and wf: "wf_disk d"
    using a by (auto simp: writer_ok_open)
  obtain r1 f d1 where fl: "flush_buf (act_file a, d) = (r1, (f, d1))" by (metis prod.exhaust)
  have path: "bw_path (act_file a) = segment_path (act_id a)" "content d (segment_path (act_id a)) \<noteq> None"
    using act by (auto simp: active_ok_def)
  obtain x where x: "r1 = Inr ()" "appended (segment_path (act_id a)) x d d1"
    using flush_buf_moves [OF fl] path \<open>calm d\<close> by auto
  obtain r2 d2 where sy: "fs_sync (segment_path (act_id a)) d1 = (r2, d2)" by fastforce
  have d2: "r2 = Inr ()" "calm d2" "content d2 = content d1" "wf_disk d2"
    using fs_sync_spec [OF sy] x(2) wf \<open>calm d\<close> by (auto simp: appended_def)
  have "segment_path (act_id a + 1) \<noteq> segment_path (act_id a)" using word_bump [OF room] by auto
  then have "content d2 (segment_path (act_id a + 1)) = None"
    using d2(3) appended_other [OF x(2)] none by simp
  from create_segment_calm [OF d2(2,4) this] obtain a' d3 where
    "create_segment (act_id a + 1) d2 = (Inr a', d3)" "act_id a' = act_id a + 1" by blast
  with fl x(1) sy d2(1) a show ?thesis
    by (auto simp: roll_now_def roll_def sync_in_lock_def seq_def)
qed

text \<open>
  A failed creation can leave the next segment's file behind. From then on no roll succeeds, since
  the file must not exist; with a torn segment every append is refused until the writer is closed.
\<close>

definition wedged :: "Shared \<Rightarrow> 'm Disk_scheme \<Rightarrow> bool" where
  "wedged w d \<longleftrightarrow> st_needs_roll w \<and> wf_disk d \<and>
     (\<exists>a. st_open w = Some a \<and> act_id a \<noteq> - 1 \<and> bw_path (act_file a) = segment_path (act_id a) \<and>
        content d (segment_path (act_id a)) \<noteq> None \<and> content d (segment_path (act_id a + 1)) \<noteq> None)"

lemma wedgedI:
  assumes "wedged w d" "st_open w = Some a" "st_open w' = Some a'" "act_id a' = act_id a"
    "bw_path (act_file a') = bw_path (act_file a)" "st_needs_roll w'" "wf_disk d'"
    "content d' (segment_path (act_id a)) \<noteq> None"
    "content d' (segment_path (act_id a + 1)) = content d (segment_path (act_id a + 1))"
  shows "wedged w' d'"
  using assms by (auto simp: wedged_def)

lemma wedged_flush:
  assumes "wedged w d" "st_open w = Some a" "flush_buf (act_file a, d) = (r, (f, d'))"
  shows "bw_path f = bw_path (act_file a) \<and> wf_disk d' \<and> content d' (segment_path (act_id a)) \<noteq> None \<and>
    content d' (segment_path (act_id a + 1)) = content d (segment_path (act_id a + 1))"
proof -
  from assms(1,2) obtain cs where cs: "content d (bw_path (act_file a)) = Some cs" "act_id a \<noteq> - 1" "wf_disk d"
      "bw_path (act_file a) = segment_path (act_id a)" by (auto simp: wedged_def)
  from flush_buf_moves [OF assms(3) cs(1)] obtain x where x: "appended (segment_path (act_id a)) x d d'"
    "bw_path f = bw_path (act_file a)" using cs(4) by auto
  have "act_id a + 1 \<noteq> act_id a" using word_bump [OF cs(2)] by auto
  with x cs(3) show ?thesis by (auto simp: appended_def)
qed

lemma wedged_roll:
  assumes wedged: "wedged w d" and run: "roll now (w, d) = (r, (w', d'))"
  shows "(\<exists>e. r = Inl e) \<and> wedged w' d'"
proof -
  from wedged obtain a where a: "st_open w = Some a" "st_needs_roll w" by (auto simp: wedged_def)
  obtain r1 f d1 where fl: "flush_buf (act_file a, d) = (r1, (f, d1))" by (metis prod.exhaust)
  note flushed = wedged_flush [OF wedged a(1) fl]
  obtain r2 d2 where sy: "fs_sync (segment_path (act_id a)) d1 = (r2, d2)" by fastforce
  have d2: "content d2 = content d1" "wf_disk d2" using fs_sync_spec [OF sy] flushed by auto
  obtain r3 d3 where cr: "create_segment (act_id a + 1) d2 = (r3, d3)" by fastforce
  have "content d2 (segment_path (act_id a + 1)) \<noteq> None" using wedged a(1) flushed d2 by (auto simp: wedged_def)
  then have d3: "\<exists>e. r3 = Inl e" "content d3 = content d2" "wf_disk d3"
    using create_segment_spec [OF cr d2(2)] d2(2) by (auto simp: touches_def)
  have "\<exists>a'. st_open w' = Some a' \<and> act_id a' = act_id a \<and> bw_path (act_file a') = bw_path (act_file a) \<and>
      st_needs_roll w' \<and> (\<exists>e. r = Inl e) \<and> d' \<in> {d1, d2, d3}"
    using run a fl sy cr d3(1) flushed
    by (cases r1; cases r2) (auto simp: roll_def sync_in_lock_def)
  then show ?thesis using wedgedI [OF wedged a(1)] flushed d2 d3 by auto
qed

text \<open>
  Claim C34. If creating the next segment once fails after its file appeared, while a torn segment
  waits to be sealed, the writer never recovers: whatever happens next, no append is acknowledged
  and the state stays that way until the writer is closed, however long the disk has been working
  again.
\<close>

theorem half_created_segment_wedges:
  assumes wedged: "wedged w d" and step: "wal_step (c, w, d) l (c', w', d')"
  shows "acks l = [] \<and> (wedged w' d' \<or> st_open w' = None)"
proof -
  from wedged obtain a where a: "st_open w = Some a" "st_needs_roll w" "wf_disk d" "act_id a \<noteq> - 1"
      "content d (segment_path (act_id a)) \<noteq> None" by (auto simp: wedged_def)
  note keep = wedgedI [OF wedged a(1)]
  have roll_now: "wedged w1 d1" if "roll_now now (w, d) = (r, (w1, d1))" for now r w1 d1
    using that wedged_roll [OF wedged] by (fastforce simp: roll_now_def seq_def split: prod.splits sum.splits)
  have up: "act_id a < act_id a + 1" by (rule word_bump [OF a(4)])
  show ?thesis
    using step
  proof (cases rule: wal_step.cases)
    case (step_append now bs r)
    with a wedged show ?thesis by (auto simp: append_bytes_def)
  next
    case (step_seal now r)
    with a wedged roll_now show ?thesis
      by (auto simp: seal_def seq_def split: if_splits prod.splits sum.splits)
  next
    case (step_close now r)
    with a have "st_open w' = None"
      by (auto simp: close_open_def dest: sync_in_lock_open split: prod.splits)
    with step_close show ?thesis by simp
  next
    case (step_collect now elapsed)
    obtain r f d1 where fl: "flush_buf (act_file a, d) = (r, (f, d1))" by (metis prod.exhaust)
    with step_collect a wedged wedged_flush [OF wedged a(1) fl] keep [of _ "a\<lparr>act_file := f\<rparr>" d1] show ?thesis
      by (auto simp: committer_collect_def split: if_splits sum.splits)
  next
    case (step_fsync i u now)
    obtain r d1 where sy: "fs_sync (segment_path i) d = (r, d1)" by fastforce
    with step_fsync fs_sync_spec [OF sy] a keep [of w' a d1] show ?thesis
      by (auto simp: committer_fsync_def split: sum.splits)
  next
    case (step_mark i u)
    with a wedged keep [of w' "a\<lparr>act_synced := max (act_synced a) u\<rparr>" d] show ?thesis
      by (auto simp: committer_mark_def split: if_splits)
  next
    case (step_roll now)
    with wedged roll_now show ?thesis by (auto simp: committer_roll_def Let_def split: if_splits prod.splits)
  next
    case (step_beat elapsed)
    then have "w' = w" "touches {lock_path} d d'"
      using touch_lock_touches [of d] by (auto simp: committer_beat_def split: if_splits)
    with step_beat a keep [of w a d'] show ?thesis by (auto simp: touches_def)
  next
    case (step_flush a' i r)
    then have "content d' = content d \<or> content d' = (content d)(segment_path i := None)" "wf_disk d'"
      using a(3) by (auto simp: fs_remove_def attempt_def syscall_def on_file_def Let_def
          split: outcome.splits option.splits)
    moreover have "i \<noteq> act_id a" "i \<noteq> act_id a + 1" using step_flush a(1) up by auto
    ultimately show ?thesis using step_flush a keep [of w a d'] by auto
  qed (use a wedged in \<open>auto simp: wedged_def\<close>)
qed

section \<open>Examples\<close>

definition demo_disk :: "(nat \<Rightarrow> outcome) \<Rightarrow> LockDisk" where
  "demo_disk fs = \<lparr>files = [], faults = fs, ops = 0, stable = Map.empty, linked = (\<lambda>_. False),
     lock_mtime = 0, clock = 0, self_pid = 7\<rparr>"

definition demo_options :: WalOptions where
  "demo_options = wal_options_new default_wal"

lemma wal_open_calm:
  assumes "calm d" "wf_disk d" "content d (segment_path (opt_first_segment opts)) = None"
  shows "\<exists>a d'. wal_open opts d = (Inr ((fresh_shared opts)\<lparr>st_open := Some a\<rparr>), d') \<and> calm d' \<and>
    a = \<lparr>act_id = opt_first_segment opts, act_file = buf_new WRITE_BUFFER_BYTES (segment_path (opt_first_segment opts)),
         act_bytes = of_nat SEGMENT_HEADER_BYTES, act_synced = of_nat SEGMENT_HEADER_BYTES\<rparr> \<and>
    content d' = (content d)(segment_path (opt_first_segment opts) \<mapsto> encode_segment_header [] (opt_first_segment opts))"
proof -
  let ?i = "opt_first_segment opts"
  let ?a = "\<lparr>act_id = ?i, act_file = buf_new WRITE_BUFFER_BYTES (segment_path ?i),
      act_bytes = of_nat SEGMENT_HEADER_BYTES, act_synced = of_nat SEGMENT_HEADER_BYTES\<rparr>"
  have t: "triple (durably True (\<lambda>c st l. c = content d)) (wal_open opts)
     (\<lambda>w. durably True (\<lambda>c st l. w = (fresh_shared opts)\<lparr>st_open := Some ?a\<rparr> \<and>
        c = (content d)(segment_path ?i \<mapsto> encode_segment_header [] ?i))) (\<lambda>_. durably True (\<lambda>_ _ _. False))"
    unfolding wal_open_def create_segment_def
    by (rule durably_pre, (rule durable_rules)+) (use assms(3) in \<open>simp del: fun_upd_apply add: fun_upd_same\<close>)
  obtain r d' where run: "wal_open opts d = (r, d')" by fastforce
  show ?thesis
  proof (cases r)
    case (Inl e)
    with run durably_Inl [OF t, of d e d'] assms(1,2) show ?thesis by simp
  next
    case (Inr w)
    with run durably_Inr [OF t, of d w d'] assms(1,2) show ?thesis by simp
  qed
qed

text \<open>A writer that was opened and took one append.\<close>

lemma demo_run:
  "\<exists>w d a. wal_run [[1, 2, 3]] [] (\<lparr>pc = Waiting, retry = False\<rparr>, w, d :: LockDisk) \<and> st_open w = Some a \<and>
     act_id a = 1 \<and> calm d \<and> content d (segment_path 2) = None"
proof -
  let ?c = "\<lparr>pc = Waiting, retry = False\<rparr>"
  have first: "opt_first_segment demo_options = 1"
    by (simp add: demo_options_def wal_options_new_def FIRST_SEGMENT_def)
  have d0: "calm (demo_disk (\<lambda>_. Done))" "wf_disk (demo_disk (\<lambda>_. Done))" "content (demo_disk (\<lambda>_. Done)) p = None" for p
    by (simp_all add: demo_disk_def calm_def wf_disk_def content_def)
  obtain a d where o: "wal_open demo_options (demo_disk (\<lambda>_. Done)) = (Inr ((fresh_shared demo_options)\<lparr>st_open := Some a\<rparr>), d)"
      "calm d" "act_id a = 1" "act_file a = buf_new WRITE_BUFFER_BYTES (segment_path 1)"
      "content d = [segment_path 1 \<mapsto> encode_segment_header [] 1]"
    using wal_open_calm [OF d0(1,2) d0(3), of demo_options] d0(3) first by (auto simp: fun_eq_iff)
  let ?w = "(fresh_shared demo_options)\<lparr>st_open := Some a\<rparr>"
  obtain w' d' where app: "append_bytes 0 [1, 2, 3] (?w, d) = (Inr (), (w', d'))" "d' = d"
      "\<exists>a'. st_open w' = Some a' \<and> act_id a' = 1"
    using o(3,4) by (auto simp: append_bytes_def fresh_shared_def buf_write_all_def buf_new_def
        WRITE_BUFFER_BYTES_def buf_push_def Let_def)
  have "(1 :: u64) \<noteq> - 1" by code_simp
  then have "wal_run [] [] (?c, ?w, d)" "roomy [[1, 2, 3]] (?c, w', d')"
    using wal_run.run_open [OF d0(2) o(1)] o(3) app(3) by (auto simp: roomy_def SEGMENT_HEADER_BYTES_def)
  from wal_run.run_step [OF this(1) step_append [OF app(1)]] this(2) app o(2,5) show ?thesis
    by (auto intro!: exI [of _ w'])
qed

theorem log_refines_append_only_witness:
  "\<exists>acked failed c w d. wal_run acked failed (c, w, d :: LockDisk) \<and> (\<exists>sealed cur. acked = log_of sealed @ cur \<and>
     acked = [[1, 2, 3]] \<and> sorted_wrt (<) (map fst sealed @ [1]))"
proof -
  from demo_run obtain w d a where *: "wal_run [[1, 2, 3]] [] (\<lparr>pc = Waiting, retry = False\<rparr>, w, d :: LockDisk)"
    "st_open w = Some a" "act_id a = 1" by blast
  from log_refines_append_only [OF *(1,2)] obtain sealed cur where
    "[[1, 2, 3]] = log_of sealed @ cur" "sorted_wrt (<) (map fst sealed @ [1])" using *(3) by auto
  with *(1) show ?thesis by blast
qed

theorem power_cut_costs_at_most_dirty_witness:
  "\<exists>acked failed c w d. wal_run acked failed (c, w, d :: LockDisk) \<and> acked = [[1, 2, 3]] \<and>
     stat_dirty_bytes (wal_stats w) \<le> stat_segment_bytes (wal_stats w)"
proof -
  from demo_run obtain w d a where *: "wal_run [[1, 2, 3]] [] (\<lparr>pc = Waiting, retry = False\<rparr>, w, d :: LockDisk)"
    "st_open w = Some a" by blast
  from power_cut_costs_at_most_dirty [OF *] *(1) show ?thesis by blast
qed

text \<open>
  The wedge is reachable: the write of a frame as large as the buffer is refused, then the header of
  the next segment.
\<close>

definition demo_refuse :: "nat \<Rightarrow> outcome" where
  "demo_refuse n = (if n = 8 \<or> n = 11 then Refused 0 else Done)"

definition demo_frame_256k :: bytes where
  "demo_frame_256k = replicate (256 * 1024) 0"

lemma demo_wedge:
  "\<exists>failed w d. wal_run [] failed (\<lparr>pc = Waiting, retry = False\<rparr>, w, d :: LockDisk) \<and> wedged w d"
proof -
  let ?c = "\<lparr>pc = Waiting, retry = False\<rparr>"
  have len: "length demo_frame_256k = WRITE_BUFFER_BYTES" by (simp add: demo_frame_256k_def WRITE_BUFFER_BYTES_def)
  obtain w d where op: "wal_open demo_options (demo_disk demo_refuse) = (Inr w, d)"
    and w: "w = (fresh_shared demo_options)\<lparr>st_open := Some \<lparr>act_id = 1,
        act_file = buf_new WRITE_BUFFER_BYTES (segment_path 1), act_bytes = of_nat SEGMENT_HEADER_BYTES,
        act_synced = of_nat SEGMENT_HEADER_BYTES\<rparr>\<rparr>"
    and d: "files d = [(segment_path 1, encode_segment_header [] 1)]" "faults d = demo_refuse" "ops d = 8"
    by (simp add: wal_open_def seq_def lift_io_def fs_mkdir_def fsync_dir_def attempt_def syscall_def Let_def
        demo_disk_def demo_refuse_def demo_options_def wal_options_new_def FIRST_SEGMENT_def create_segment_def
        fs_create_new_def content_def set_file_def fs_write_def append_file_def fs_sync_def fs_dup_def
        spawn_committer_def)
  have ids: "(1 :: u64) \<noteq> - 1" "(1 :: u64) + 1 = 2" by code_simp+
  obtain w' d' where app: "append_bytes 0 demo_frame_256k (w, d) = (Inl (Io refused), (w', d'))"
    and "wedged w' d'" and w': "\<exists>a. st_open w' = Some a \<and> act_id a = 1"
    by (simp add: append_bytes_def w fresh_shared_def buf_write_all_def buf_new_def len Let_def seq_def
        flush_buf_def write_through_def fs_write_def syscall_def d demo_refuse_def append_file_def content_def
        set_file_def seal_torn_def roll_def sync_in_lock_def fs_sync_def attempt_def note_fsync_def
        create_segment_def lift_io_def fs_create_new_def wedged_def wf_disk_def ids)
  have "wal_run [] [] (?c, w, d)"
    by (rule wal_run.run_open [OF _ op]) (simp_all add: wf_disk_def demo_disk_def roomy_def w SEGMENT_HEADER_BYTES_def ids)
  moreover have "roomy [] (?c, w', d')" using w' ids by (auto simp: roomy_def SEGMENT_HEADER_BYTES_def)
  ultimately show ?thesis
    using wal_run.run_step [OF _ step_append [OF app]] \<open>wedged w' d'\<close> by fastforce
qed

theorem half_created_segment_wedges_witness:
  "\<exists>failed c w d. wal_run [] failed (c, w, d :: LockDisk) \<and> wedged w d \<and>
     wal_step (c, w, d) (LAppend [1] (Inl torn_error)) (c, w, d) \<and> acks (LAppend [1] (Inl torn_error)) = []"
proof -
  from demo_wedge obtain failed w d where *: "wal_run [] failed (\<lparr>pc = Waiting, retry = False\<rparr>, w, d :: LockDisk)"
    "wedged w d" by blast
  have "append_bytes 0 [1] (w, d) = (Inl torn_error, (w, d))"
    using *(2) by (simp add: append_bytes_def wedged_def)
  from step_append [OF this] half_created_segment_wedges [OF *(2)] * show ?thesis by blast
qed

end
