(* ===== verification/Orc_Tree.thy ===== *)
theory Orc_Tree
  imports Orc_Disk "HOL-Library.Sublist"
begin

text \<open>
  The calls of the standard library that work on directory trees, for the flush and its clean-up:
  listings whose errors the program skips over, the removal of a whole tree, and the small
  compositions \<open>std::fs::write\<close> and \<open>OpenOptions::append(true).create(true)\<close>.

  A directory is there as far as files are below it, so a listing shows a directory exactly when
  it holds a file at some depth. The type of an entry comes with the listing.
\<close>

section \<open>Calls\<close>

text \<open>
  \<open>read_dir(..).into_iter().flatten().flatten()\<close>: a listing that is refused gives nothing, one that
  breaks off gives the entries up to there.
\<close>

definition scan :: "('m Disk_scheme \<Rightarrow> 'a list) \<Rightarrow> ('m, 'a list) eio" where
  "scan f d =
     (let d' = d\<lparr>ops := Suc (ops d)\<rparr> in
      case faults d (ops d) of
        Refused k \<Rightarrow> (Inr (take k (f d)), d')
      | Done \<Rightarrow> (Inr (f d), d'))"

definition files_in :: "path \<Rightarrow> 'm Disk_scheme \<Rightarrow> path list" where
  "files_in dir d = filter (\<lambda>p. p \<noteq> [] \<and> butlast p = dir) (map fst (files d))"

definition below :: "path \<Rightarrow> path \<Rightarrow> bool" where
  "below dir p \<longleftrightarrow> prefix dir p \<and> length dir < length p"

definition dirs_in :: "path \<Rightarrow> 'm Disk_scheme \<Rightarrow> path list" where
  "dirs_in dir d =
     remdups (map (\<lambda>p. take (Suc (length dir)) p)
       (filter (\<lambda>p. prefix dir p \<and> Suc (length dir) < length p) (map fst (files d))))"

definition scan_files :: "path \<Rightarrow> ('m, path list) eio" where
  "scan_files dir = scan (files_in dir)"

definition scan_dirs :: "path \<Rightarrow> ('m, path list) eio" where
  "scan_dirs dir = scan (dirs_in dir)"

text \<open>\<open>flat_map\<close> of listings.\<close>

definition scan_each :: "(path \<Rightarrow> ('m, path list) eio) \<Rightarrow> path list \<Rightarrow> ('m, path list) eio" where
  "scan_each f dirs = fold_io (\<lambda>dir out. seq (f dir) (\<lambda>ps. ok (out @ ps))) dirs []"

text \<open>The files two levels down: \<open><root>/<series>/<hour>/<file>\<close>.\<close>

definition scan_partitions :: "path \<Rightarrow> ('m, path list) eio" where
  "scan_partitions root =
     seq (scan_dirs root) (\<lambda>series.
     seq (scan_each scan_dirs series) (\<lambda>hours.
     scan_each scan_files hours))"

text \<open>\<open>remove_dir_all\<close>; a refused call may have removed the files below one by one up to some point.\<close>

definition drop_files :: "path list \<Rightarrow> 'm Disk_scheme \<Rightarrow> 'm Disk_scheme" where
  "drop_files ps d = fold drop_file ps d"

definition tree_files :: "path \<Rightarrow> 'm Disk_scheme \<Rightarrow> path list" where
  "tree_files dir d = filter (below dir) (map fst (files d))"

definition fs_remove_tree :: "path \<Rightarrow> ('m, unit) io" where
  "fs_remove_tree dir = syscall (\<lambda>k d. drop_files (take k (tree_files dir d)) d)
     (\<lambda>d. if tree_files dir d = [] then (Inl NotFound, d) else (Inr (), drop_files (tree_files dir d) d))"

text \<open>\<open>remove_dir\<close> removes empty directories only, so no file.\<close>

definition fs_remove_dir :: "path \<Rightarrow> ('m, unit) io" where
  "fs_remove_dir dir = attempt (ok ())"

definition fs_stat :: "path \<Rightarrow> ('m, nat) io" where
  "fs_stat p = attempt (on_file p (\<lambda>bs. ok (length bs)))"

definition fs_open_append :: "path \<Rightarrow> ('m, unit) io" where
  "fs_open_append p = attempt (\<lambda>d.
     case content d p of None \<Rightarrow> (Inr (), set_file p [] d) | Some _ \<Rightarrow> (Inr (), d))"

definition fs_write_file :: "path \<Rightarrow> bytes \<Rightarrow> ('m, unit) io" where
  "fs_write_file p bs = seq (fs_create p) (\<lambda>_. fs_write p bs)"

section \<open>The calls in the calculus\<close>

text \<open>A listing whose entries are determined by the files: all of them unless a call is refused.\<close>

lemma scan_triple:
  assumes f: "\<And>d :: 'm Disk_scheme. set (f d) = S (content d)"
  shows "triple (at k R) (scan f :: ('m, 'a list) eio) (\<lambda>xs. at k (\<lambda>c. R c \<and> set xs \<subseteq> S c \<and> (k \<longrightarrow> set xs = S c))) E"
proof (rule tripleI)
  fix d :: "'m Disk_scheme" and x d' assume d: "at k R d" and r: "scan f d = (Inr x, d')"
  have k: "faults d (ops d) = Done" if k using that d by (simp add: at_def calm_def)
  have "x = f d \<or> \<not> k \<and> (\<exists>n. x = take n (f d))" "d' = d\<lparr>ops := Suc (ops d)\<rparr>"
    using r k by (auto simp: scan_def Let_def split: outcome.splits)
  moreover have "set (take n (f d)) \<subseteq> S (content d)" for n using f set_take_subset by metis
  ultimately show "at k (\<lambda>c. R c \<and> set x \<subseteq> S c \<and> (k \<longrightarrow> set x = S c)) d'"
    using d f by (auto simp: at_def)
qed (auto simp: scan_def Let_def split: outcome.splits)

lemma content_some: "content d p \<noteq> None \<longleftrightarrow> p \<in> set (map fst (files d))"
  by (simp add: content_def map_of_eq_None_iff)

lemma content_drop_files: "content (drop_files ps d) = (\<lambda>p. if p \<in> set ps then None else content d p)"
  unfolding drop_files_def by (induction ps arbitrary: d) (auto simp: fun_eq_iff)

lemma drop_files_keeps [simp]: "wf_disk d \<Longrightarrow> wf_disk (drop_files ps d)" "calm (drop_files ps d) = calm d"
  unfolding drop_files_def by (induction ps arbitrary: d) simp_all

definition files_of :: "path \<Rightarrow> (path \<rightharpoonup> bytes) \<Rightarrow> path set" where
  "files_of dir c = {p. c p \<noteq> None \<and> p \<noteq> [] \<and> butlast p = dir}"

definition dirs_of :: "path \<Rightarrow> (path \<rightharpoonup> bytes) \<Rightarrow> path set" where
  "dirs_of dir c = {take (Suc (length dir)) p | p. c p \<noteq> None \<and> prefix dir p \<and> Suc (length dir) < length p}"

lemma scan_files_triple:
  "triple (at k R) (scan_files dir) (\<lambda>ps. at k (\<lambda>c. R c \<and> set ps \<subseteq> files_of dir c \<and> (k \<longrightarrow> set ps = files_of dir c))) E"
  unfolding scan_files_def
  by (rule scan_triple) (auto simp: files_in_def files_of_def content_some simp del: not_None_eq set_map)

lemma scan_dirs_triple:
  "triple (at k R) (scan_dirs dir) (\<lambda>ps. at k (\<lambda>c. R c \<and> set ps \<subseteq> dirs_of dir c \<and> (k \<longrightarrow> set ps = dirs_of dir c))) E"
  unfolding scan_dirs_def
  by (rule scan_triple) (auto simp: dirs_in_def dirs_of_def content_some simp del: not_None_eq)

lemma scan_each_triple:
  assumes f: "\<And>k R dir E. triple (at k R) (f dir :: ('m, path list) eio)
      (\<lambda>ps. at k (\<lambda>c. R c \<and> set ps \<subseteq> S dir c \<and> (k \<longrightarrow> set ps = S dir c))) E"
  shows "triple (at k R) (scan_each f dirs :: ('m, path list) eio)
    (\<lambda>ps. at k (\<lambda>c. R c \<and> set ps \<subseteq> (\<Union>dir\<in>set dirs. S dir c) \<and> (k \<longrightarrow> set ps = (\<Union>dir\<in>set dirs. S dir c)))) E"
proof -
  let ?J = "\<lambda>ds out c. R c \<and> set out \<subseteq> (\<Union>dir\<in>set ds. S dir c) \<and> (k \<longrightarrow> set out = (\<Union>dir\<in>set ds. S dir c))"
  have "triple (at k (?J ds out)) (seq (f dir) (\<lambda>ps. ok (out @ ps))) (\<lambda>out'. at k (?J (ds @ [dir]) out')) E" for ds out dir
    by (rule triple_seq [OF f]) (auto simp: triple_def at_def)
  from fold_io_triple [of dirs k ?J, OF this, of "[]" "[]"] show ?thesis
    unfolding scan_each_def by (elim triple_conseq) (auto simp: at_def)
qed

definition partition_files :: "path \<Rightarrow> (path \<rightharpoonup> bytes) \<Rightarrow> path set" where
  "partition_files root c = {p. c p \<noteq> None \<and> prefix root p \<and> length p = length root + 3}"

lemma partition_files_levels:
  "partition_files root c = (\<Union>hour\<in>(\<Union>series\<in>dirs_of root c. dirs_of series c). files_of hour c)" (is "_ = ?R")
proof
  show "partition_files root c \<subseteq> ?R"
  proof
    fix p assume "p \<in> partition_files root c"
    then obtain rest where rest: "p = root @ rest" "length rest = Suc (Suc (Suc 0))" "c p \<noteq> None"
      by (auto simp: partition_files_def prefix_def)
    then obtain a b e where p: "p = root @ [a, b, e]" "c p \<noteq> None" by (auto simp: length_Suc_conv)
    then have "root @ [a] \<in> dirs_of root c" "root @ [a, b] \<in> dirs_of (root @ [a]) c" "p \<in> files_of (root @ [a, b]) c"
      by (auto simp: dirs_of_def files_of_def butlast_append intro!: exI [of _ p])
    then show "p \<in> ?R" by blast
  qed
  show "?R \<subseteq> partition_files root c"
  proof
    fix p assume "p \<in> ?R"
    then obtain q r where qr: "p \<in> files_of (take (length root + 2) r) c" "prefix (take (Suc (length root)) q) r"
      "prefix root q" "Suc (length root) < length q" "length root + 2 < length r"
      by (auto simp: dirs_of_def min_def)
    from qr obtain e where "p = take (length root + 2) r @ [e]" "c p \<noteq> None"
      by (auto simp: files_of_def) (metis append_butlast_last_id)
    moreover have "prefix root r" using qr(2-4) by (metis Suc_leD append_eq_conv_conj less_imp_le_nat prefix_def prefix_order.trans take_is_prefix take_take min.absorb1 le_SucI order_refl)
    ultimately show "p \<in> partition_files root c" using qr(5)
      by (auto simp: partition_files_def prefix_def)
  qed
qed

text \<open>What a scan of the partitions finds.\<close>

lemma scan_partitions_triple:
  "triple (at k R) (scan_partitions root)
     (\<lambda>ps. at k (\<lambda>c. R c \<and> set ps \<subseteq> partition_files root c \<and> (k \<longrightarrow> set ps = partition_files root c))) E"
  unfolding scan_partitions_def
proof (rule triple_seq [OF scan_dirs_triple], rule triple_seq [OF scan_each_triple [where S = dirs_of, OF scan_dirs_triple]])
  fix series hours
  show "triple (at k (\<lambda>c. (R c \<and> set series \<subseteq> dirs_of root c \<and> (k \<longrightarrow> set series = dirs_of root c)) \<and>
        set hours \<subseteq> (\<Union>dir\<in>set series. dirs_of dir c) \<and> (k \<longrightarrow> set hours = (\<Union>dir\<in>set series. dirs_of dir c))))
      (scan_each scan_files hours)
      (\<lambda>ps. at k (\<lambda>c. R c \<and> set ps \<subseteq> partition_files root c \<and> (k \<longrightarrow> set ps = partition_files root c))) E"
    by (rule triple_conseq [OF scan_each_triple [where S = files_of, OF scan_files_triple]], assumption)
      (simp_all add: at_def partition_files_levels, blast)
qed

lemma fs_remove_tree_triple:
  assumes "\<And>c ps. R c \<Longrightarrow> \<forall>p\<in>ps. below dir p \<Longrightarrow> Q (\<lambda>p. if p \<in> ps then None else c p)"
  shows "triple (at k R) (fs_remove_tree dir) (\<lambda>_. at k Q) (\<lambda>_. at k Q)"
proof -
  have some: "Q (content (drop_files ps d))" if "at k R d" "set ps \<subseteq> set (tree_files dir d)" for ps and d :: "'a Disk_scheme"
    using that assms [of "content d" "set ps"] by (auto simp: at_def content_drop_files tree_files_def)
  have none: "Q c" if "R c" for c using assms [OF that, of "{}"] by simp
  show ?thesis
    unfolding fs_remove_tree_def
  proof (rule triple_syscall [where E = "\<lambda>_. Q" and Q = "\<lambda>_. Q"])
    show "triple (at k R) (\<lambda>d :: 'a Disk_scheme. if tree_files dir d = [] then (Inl NotFound, d) else (Inr (), drop_files (tree_files dir d) d))
        (\<lambda>_. at k Q) (\<lambda>_. at k Q)"
      using some none by (auto simp: triple_def at_def)
    show "at k Q (drop_files (take n (tree_files dir d)) d)" if "at k R d" for n and d :: "'a Disk_scheme"
      using that some [OF that, of "take n (tree_files dir d)"] by (auto simp: at_def set_take_subset)
  qed
qed

lemma tree_call_triples [triple_rules]:
  "triple (at k (\<lambda>c. Q () c \<and> (\<not> k \<longrightarrow> E refused c))) (fs_remove_dir p) (\<lambda>x. at k (Q x)) (\<lambda>e. at k (E e))"
  "triple (at k (\<lambda>c. (c p = None \<longrightarrow> Q () (c(p \<mapsto> []))) \<and> (c p \<noteq> None \<longrightarrow> Q () c) \<and> (\<not> k \<longrightarrow> E refused c)))
     (fs_open_append p) (\<lambda>x. at k (Q x)) (\<lambda>e. at k (E e))"
  "triple (at k (\<lambda>c. (\<forall>bs. c p = Some bs \<longrightarrow> Q' (length bs) c) \<and> (c p = None \<longrightarrow> E NotFound c) \<and> (\<not> k \<longrightarrow> E refused c)))
     (fs_stat p) (\<lambda>x. at k (Q' x)) (\<lambda>e. at k (E e))"
  unfolding fs_remove_dir_def fs_open_append_def fs_stat_def
  by (rule triple_attempt; auto simp: triple_def at_def on_file_def split: option.splits)+

lemma fs_write_file_triple [triple_rules]:
  "triple (at k (\<lambda>c. Q () (c(p \<mapsto> bs)) \<and> (\<not> k \<longrightarrow> E refused c \<and> (\<forall>n. E refused (c(p \<mapsto> take n bs))))))
     (fs_write_file p bs) (\<lambda>x. at k (Q x)) (\<lambda>e. at k (E e))"
  unfolding fs_write_file_def
  by (rule triple_at_pre, (rule triple_rules)+) auto

end
