(* ===== verification/Orc_Manifest.thy ===== *)
theory Orc_Manifest
  imports Orc_Config
begin

text \<open>
  The manifest (\<open>src/src/manifest.rs\<close>): the schema history of every series, the flush watermark,
  and the atomic commit. Reading and writing JSON is the \<open>serde_json\<close> package: \<open>to_json\<close> and \<open>from_json\<close>
  are parameters, related by \<open>json_roundtrips\<close> where a property needs it.
\<close>

section \<open>The manifest\<close>

definition MANIFEST_FILE :: rstr where "MANIFEST_FILE = lit ''manifest.json''"
definition MANIFEST_TMP_FILE :: rstr where "MANIFEST_TMP_FILE = lit ''manifest.json.tmp''"

definition manifest_path :: path where "manifest_path = [MANIFEST_FILE]"
definition manifest_tmp_path :: path where "manifest_tmp_path = [MANIFEST_TMP_FILE]"

record EpochSchema =
  es_epoch :: u32
  es_keys :: "KeyDef list"

record Manifest =
  man_series :: "rstr \<rightharpoonup> EpochSchema list"
  last_flushed_segment :: u64
  last_flush_at :: "u64 option"

definition default_manifest :: Manifest where
  "default_manifest = \<lparr>man_series = Map.empty, last_flushed_segment = 0, last_flush_at = None\<rparr>"

definition history_of :: "Manifest \<Rightarrow> rstr \<Rightarrow> EpochSchema list" where
  "history_of m name = (case man_series m name of None \<Rightarrow> [] | Some h \<Rightarrow> h)"

definition current_epoch :: "Manifest \<Rightarrow> rstr \<Rightarrow> u32 option" where
  "current_epoch m name =
     (case man_series m name of
        None \<Rightarrow> None
      | Some h \<Rightarrow> if h = [] then None else Some (es_epoch (last h)))"

definition man_schema :: "Manifest \<Rightarrow> rstr \<Rightarrow> u32 \<Rightarrow> KeyDef list option" where
  "man_schema m name epoch =
     (case man_series m name of
        None \<Rightarrow> None
      | Some h \<Rightarrow> map_option es_keys (find (\<lambda>e. es_epoch e = epoch) h))"

section \<open>Loading and committing\<close>

definition manifest_load :: "(bytes \<Rightarrow> string + Manifest) \<Rightarrow> ('m, Manifest) eio" where
  "manifest_load from_json =
     seq (remove_if_present manifest_tmp_path) (\<lambda>_ d.
       case fs_read manifest_path d of
         (Inl NotFound, d') \<Rightarrow> (Inr default_manifest, d')
       | (Inl e, d') \<Rightarrow> (Inl (Io e), d')
       | (Inr text, d') \<Rightarrow>
           if \<not> utf8_valid text then (Inl (Io (IoOther ''stream did not contain valid UTF-8'')), d')
           else (case from_json text of Inl why \<Rightarrow> (Inl (Config why), d') | Inr m \<Rightarrow> (Inr m, d')))"

definition manifest_exists :: "'m Disk_scheme \<Rightarrow> bool" where
  "manifest_exists d \<longleftrightarrow> content d manifest_path \<noteq> None"

definition manifest_commit :: "(Manifest \<Rightarrow> string + bytes) \<Rightarrow> Manifest \<Rightarrow> ('m, unit) eio" where
  "manifest_commit to_json m =
     (case to_json m of
        Inl why \<Rightarrow> fail (Json why)
      | Inr bs \<Rightarrow>
          seq (lift_io (fs_create manifest_tmp_path)) (\<lambda>_.
          seq (lift_io (fs_write manifest_tmp_path bs)) (\<lambda>_.
          seq (lift_io (fs_write manifest_tmp_path [10])) (\<lambda>_.
          seq (lift_io (fs_sync manifest_tmp_path)) (\<lambda>_.
          seq (lift_io (fs_rename manifest_tmp_path manifest_path)) (\<lambda>_.
          lift_io (fsync_dir [])))))))"

section \<open>Folding a configuration into the history\<close>

definition retyped :: "KeyDef list \<Rightarrow> KeyDef \<Rightarrow> bool" where
  "retyped keys old \<longleftrightarrow> find (\<lambda>n. key_name n = key_name old \<and> key_ty n \<noteq> key_ty old) keys \<noteq> None"

definition check_no_retype :: "EpochSchema list \<Rightarrow> KeyDef list \<Rightarrow> Error + unit" where
  "check_no_retype hist keys =
     check_each (\<lambda>past. check_each (\<lambda>old.
       if retyped keys old
       then Inl (Config ''retyping a key makes historical Parquet unreadable'') else Inr ())
       (es_keys past)) hist"

text \<open>A layout is the order, the names and the types of the keys; \<open>nullable\<close> is not part of it.\<close>

definition same_layout :: "KeyDef list \<Rightarrow> KeyDef list \<Rightarrow> bool" where
  "same_layout xs ys \<longleftrightarrow>
     length xs = length ys \<and>
     list_all (\<lambda>(a, b). key_name a = key_name b \<and> key_ty a = key_ty b) (zip xs ys)"

definition put_history :: "rstr \<Rightarrow> EpochSchema list \<Rightarrow> Manifest \<Rightarrow> Manifest" where
  "put_history name h m = m\<lparr>man_series := (man_series m)(name \<mapsto> h)\<rparr>"

text \<open>One series of the second loop of \<open>reconcile\<close>; the result tells whether anything changed.\<close>

definition reconcile_one :: "SeriesConfig \<Rightarrow> (Manifest, Error, bool) fallible" where
  "reconcile_one s m =
     (let hist = history_of m (series_name s);
          m0 = put_history (series_name s) hist m in
      if hist \<noteq> [] \<and> same_layout (es_keys (last hist)) (series_keys s) then
        if es_keys (last hist) \<noteq> series_keys s then
          (Inr True, put_history (series_name s)
             (butlast hist @ [(last hist)\<lparr>es_keys := series_keys s\<rparr>]) m)
        else (Inr False, m0)
      else if hist \<noteq> [] \<and> es_epoch (last hist) = - 1 then
        (Inl (Config ''series has exhausted its schema epochs''), m0)
      else
        let epoch = (if hist = [] then 0 else es_epoch (last hist) + 1) in
        (Inr True, put_history (series_name s)
           (hist @ [\<lparr>es_epoch = epoch, es_keys = series_keys s\<rparr>]) m))"

fun reconcile_all :: "SeriesConfig list \<Rightarrow> bool \<Rightarrow> (Manifest, Error, bool) fallible" where
  "reconcile_all [] changed m = (Inr changed, m)"
| "reconcile_all (s # ss) changed m =
     (case reconcile_one s m of
        (Inl e, m') \<Rightarrow> (Inl e, m')
      | (Inr c, m') \<Rightarrow> reconcile_all ss (changed \<or> c) m')"

definition reconcile :: "Config \<Rightarrow> (Manifest, Error, bool) fallible" where
  "reconcile c m =
     (case check_each (\<lambda>s. check_no_retype (history_of m (series_name s)) (series_keys s)) (cfg_series c) of
        Inl e \<Rightarrow> (Inl e, m)
      | Inr _ \<Rightarrow> reconcile_all (cfg_series c) False m)"

section \<open>The commit is atomic\<close>

lemma manifest_paths_distinct [simp]: "manifest_tmp_path \<noteq> manifest_path" "manifest_path \<noteq> manifest_tmp_path"
  by (simp_all add: manifest_tmp_path_def manifest_path_def MANIFEST_FILE_def MANIFEST_TMP_FILE_def lit_def)

text \<open>What a commit of \<open>bs\<close> may have done to the files when it ends, early or not.\<close>

definition committing :: "(path \<rightharpoonup> bytes) \<Rightarrow> bytes \<Rightarrow> (path \<rightharpoonup> bytes) \<Rightarrow> bool" where
  "committing c bs c' \<longleftrightarrow>
     (\<forall>p. p \<noteq> manifest_path \<and> p \<noteq> manifest_tmp_path \<longrightarrow> c' p = c p) \<and>
     (c' manifest_path = c manifest_path \<or>
      c' manifest_path = Some (bs @ [10]) \<and> c' manifest_tmp_path = None)"

lemma manifest_commit_triple:
  assumes "to_json m = Inr bs"
  shows "triple (at k (\<lambda>x. x = c)) (manifest_commit to_json m)
     (\<lambda>_. at k (\<lambda>c'. committing c bs c' \<and> c' manifest_path = Some (bs @ [10])))
     (\<lambda>_. at k (\<lambda>c'. \<not> k \<and> committing c bs c'))"
  unfolding manifest_commit_def assms sum.case
  by (rule triple_at_pre, (rule triple_rules)+) (simp add: committing_def)

lemma manifest_commit_durable:
  assumes "to_json m = Inr bs"
  shows "triple (durably k (\<lambda>_ _ _. True)) (manifest_commit to_json m)
     (\<lambda>_. durably k (\<lambda>_ st l. st manifest_path = Some (bs @ [10]) \<and> l manifest_path)) (\<lambda>_. durably k (\<lambda>_ _ _. True))"
  unfolding manifest_commit_def assms sum.case
  by (rule durably_pre, (rule durable_rules)+) (simp add: manifest_path_def)

text \<open>What \<open>manifest_load\<close> returns when no call is refused.\<close>

definition read_manifest :: "(bytes \<Rightarrow> string + Manifest) \<Rightarrow> (path \<rightharpoonup> bytes) \<Rightarrow> Error + Manifest" where
  "read_manifest from_json c =
     (case c manifest_path of
        None \<Rightarrow> Inr default_manifest
      | Some text \<Rightarrow>
          if \<not> utf8_valid text then Inl (Io (IoOther ''stream did not contain valid UTF-8''))
          else (case from_json text of Inl why \<Rightarrow> Inl (Config why) | Inr m \<Rightarrow> Inr m))"

lemma fs_read_calm:
  assumes "calm d"
  shows "fst (fs_read p d) = (case content d p of None \<Rightarrow> Inl NotFound | Some bs \<Rightarrow> Inr bs)"
  using assms
  by (auto simp: fs_read_def attempt_def syscall_def on_file_def calm_def Let_def split: option.splits)

lemma manifest_load_calm:
  assumes "wf_disk d" "calm d"
  shows "fst (manifest_load from_json d) = read_manifest from_json (content d)"
proof -
  have "triple (at True (\<lambda>x. x = content d)) (remove_if_present manifest_tmp_path)
      (\<lambda>_. at True (\<lambda>x. x = (content d)(manifest_tmp_path := None))) (\<lambda>_. at True (\<lambda>_. False))"
    by (rule triple_at_pre, rule remove_if_present_triple) simp
  from at_Inr [OF this] at_Inl [OF this] assms
  obtain d1 where d1: "remove_if_present manifest_tmp_path d = (Inr (), d1)" "calm d1"
    and c1: "content d1 manifest_path = content d manifest_path"
    by (cases "remove_if_present manifest_tmp_path d"; cases "fst (remove_if_present manifest_tmp_path d)")
      fastforce+
  show ?thesis
    using fs_read_calm [OF d1(2), of manifest_path] d1(1)
    by (cases "fs_read manifest_path d1")
      (auto simp: manifest_load_def read_manifest_def c1 split: option.splits sum.splits)
qed

text \<open>
  Claim C26. Committing the manifest is atomic: whatever system call is refused, and at whatever
  point the process dies, the next load sees either the manifest that was there before or the
  new one, whole; no file but the manifest and its staging file changes; and a commit that
  reports success has installed the new one so that it survives a power cut, its bytes synced
  before they became the manifest and its name synced afterwards.
\<close>

theorem commit_is_atomic:
  assumes "wf_disk d" and json: "to_json m = Inr bs" "from_json (bs @ [10]) = Inr m" "utf8_valid (bs @ [10])"
    and "manifest_commit to_json m d = (r, d')"
  shows "read_manifest from_json (content d') \<in> {read_manifest from_json (content d), Inr m} \<and>
    (\<forall>p. p \<noteq> manifest_path \<and> p \<noteq> manifest_tmp_path \<longrightarrow> content d' p = content d p) \<and>
    (r = Inr () \<longrightarrow> read_manifest from_json (content d') = Inr m \<and>
       stable d' manifest_path = Some (bs @ [10]) \<and> linked d' manifest_path) \<and> (calm d \<longrightarrow> r = Inr ())"
proof -
  have new: "read_manifest from_json c = Inr m" if "c manifest_path = Some (bs @ [10])" for c
    using that json by (simp add: read_manifest_def)
  have old: "read_manifest from_json c = read_manifest from_json c'" if "c manifest_path = c' manifest_path" for c c'
    using that by (simp add: read_manifest_def)
  note triple = manifest_commit_triple [of to_json m bs "calm d" "content d", OF json(1)]
  have post: "committing (content d) bs (content d') \<and> (calm d \<longrightarrow> r = Inr ()) \<and>
      (r = Inr () \<longrightarrow> content d' manifest_path = Some (bs @ [10]))"
  proof (cases r)
    case (Inl e)
    with assms(5) at_Inl [OF triple _ assms(1)] show ?thesis by simp
  next
    case (Inr u)
    with assms(5) at_Inr [OF triple _ assms(1)] show ?thesis by simp
  qed
  then have "read_manifest from_json (content d') \<in> {read_manifest from_json (content d), Inr m}"
    using new [of "content d'"] old [of "content d'" "content d"] by (auto simp: committing_def)
  moreover have "stable d' manifest_path = Some (bs @ [10]) \<and> linked d' manifest_path" if "r = Inr ()"
    using durably_Inr [OF manifest_commit_durable [of to_json m bs False, OF json(1)]] assms(1,5) that by blast
  ultimately show ?thesis using post new [of "content d'"] by (simp add: committing_def)
qed

section \<open>Schema histories only grow\<close>

definition layout :: "KeyDef list \<Rightarrow> (rstr \<times> KeyType) list" where
  "layout ks = map (\<lambda>k. (key_name k, key_ty k)) ks"

lemma same_layout_iff: "same_layout xs ys \<longleftrightarrow> layout xs = layout ys"
proof -
  have "list_all (\<lambda>(a, b). key_name a = key_name b \<and> key_ty a = key_ty b) (zip xs ys) \<longleftrightarrow> layout xs = layout ys"
    if "length xs = length ys"
    using that by (induction xs ys rule: list_induct2) (auto simp: layout_def)
  moreover have "layout xs = layout ys \<Longrightarrow> length xs = length ys"
    by (metis layout_def length_map)
  ultimately show ?thesis by (auto simp: same_layout_def)
qed

definition layout_at :: "EpochSchema list \<Rightarrow> u32 \<Rightarrow> (rstr \<times> KeyType) list option" where
  "layout_at h epoch = map_option (\<lambda>e. layout (es_keys e)) (find (\<lambda>e. es_epoch e = epoch) h)"

definition ascending :: "EpochSchema list \<Rightarrow> bool" where
  "ascending h \<longleftrightarrow> sorted_wrt (<) (map es_epoch h)"

definition wf_manifest :: "Manifest \<Rightarrow> bool" where
  "wf_manifest m \<longleftrightarrow> (\<forall>name. ascending (history_of m name))"

definition evolves :: "EpochSchema list \<Rightarrow> EpochSchema list \<Rightarrow> bool" where
  "evolves h h' \<longleftrightarrow> (ascending h \<longrightarrow> ascending h') \<and>
     (\<forall>epoch l. layout_at h epoch = Some l \<longrightarrow> layout_at h' epoch = Some l)"

lemma evolves_refl: "evolves h h"
  by (simp add: evolves_def)

lemma evolves_trans: "evolves a b \<Longrightarrow> evolves b c \<Longrightarrow> evolves a c"
  by (auto simp: evolves_def)

lemma history_put [simp]:
  "history_of (put_history name h m) other = (if other = name then h else history_of m other)"
  by (simp add: history_of_def put_history_def)

lemma find_append: "find P (xs @ ys) = (case find P xs of None \<Rightarrow> find P ys | Some x \<Rightarrow> Some x)"
  by (induction xs) auto

lemma layout_at_append:
  "layout_at (xs @ ys) epoch = (case layout_at xs epoch of None \<Rightarrow> layout_at ys epoch | Some l \<Rightarrow> Some l)"
  by (simp add: layout_at_def find_append split: option.splits)

lemma ascending_append:
  "ascending (xs @ [e]) \<longleftrightarrow> ascending xs \<and> (\<forall>x\<in>set xs. es_epoch x < es_epoch e)"
  by (auto simp: ascending_def sorted_wrt_append)

lemma ascending_last:
  assumes "ascending h" "x \<in> set h" shows "es_epoch x \<le> es_epoch (last h)"
proof (cases h rule: rev_cases)
  case (snoc ys y)
  with assms show ?thesis by (auto simp: ascending_append intro: less_imp_le)
qed (use assms in simp)

lemma evolves_relabel:
  assumes "h \<noteq> []" "layout ks = layout (es_keys (last h))"
  shows "evolves h (butlast h @ [(last h)\<lparr>es_keys := ks\<rparr>])"
proof -
  have h: "h = butlast h @ [last h]" using assms(1) by simp
  have "ascending h \<longleftrightarrow> ascending (butlast h @ [(last h)\<lparr>es_keys := ks\<rparr>])"
    by (subst h) (simp add: ascending_append)
  moreover have "layout_at h epoch = layout_at (butlast h @ [(last h)\<lparr>es_keys := ks\<rparr>]) epoch" for epoch
    by (subst h) (simp add: layout_at_append, simp add: layout_at_def assms(2) split: option.splits)
  ultimately show ?thesis by (simp add: evolves_def)
qed

lemma evolves_extend:
  assumes "h = [] \<or> es_epoch (last h) < es_epoch e" shows "evolves h (h @ [e])"
  unfolding evolves_def
proof (intro conjI allI impI)
  assume asc: "ascending h"
  then have "\<forall>x\<in>set h. es_epoch x < es_epoch e"
    using assms ascending_last [OF asc] by (auto intro: le_less_trans)
  with asc show "ascending (h @ [e])" by (simp add: ascending_append)
qed (simp add: layout_at_append)

text \<open>One series: its history evolves, the others stay, and a success ends in the configured keys.\<close>

lemma reconcile_one_evolves:
  assumes "reconcile_one s m = (r, m')"
  shows "\<exists>h'. m' = put_history (series_name s) h' m \<and> evolves (history_of m (series_name s)) h' \<and>
    (\<forall>ch. r = Inr ch \<longrightarrow> h' \<noteq> [] \<and> es_keys (last h') = series_keys s \<and>
       (\<not> ch \<longrightarrow> h' = history_of m (series_name s)) \<and>
       set (map es_keys h') \<subseteq> insert (series_keys s) (set (map es_keys (history_of m (series_name s)))))"
proof -
  define h where "h = history_of m (series_name s)"
  consider (relabel) "h \<noteq> []" "same_layout (es_keys (last h)) (series_keys s)" "es_keys (last h) \<noteq> series_keys s"
    | (same) "h \<noteq> []" "es_keys (last h) = series_keys s"
    | (full) "h \<noteq> []" "es_epoch (last h) = - 1" "\<not> same_layout (es_keys (last h)) (series_keys s)"
    | (fresh) "h = []"
    | (bump) "h \<noteq> []" "es_epoch (last h) \<noteq> - 1" "\<not> same_layout (es_keys (last h)) (series_keys s)"
    by blast
  then show ?thesis
  proof cases
    case relabel
    have "evolves h (butlast h @ [(last h)\<lparr>es_keys := series_keys s\<rparr>])"
      using relabel by (intro evolves_relabel) (simp_all add: same_layout_iff)
    with relabel assms show ?thesis
      by (intro exI [of _ "butlast h @ [(last h)\<lparr>es_keys := series_keys s\<rparr>]"])
        (auto simp: reconcile_one_def Let_def h_def [symmetric] dest: in_set_butlastD)
  next
    case same
    with assms show ?thesis
      by (auto simp: reconcile_one_def Let_def h_def [symmetric] same_layout_iff evolves_refl)
  next
    case full
    with assms show ?thesis
      by (auto simp: reconcile_one_def Let_def h_def [symmetric] evolves_refl)
  next
    case fresh
    with assms evolves_extend [of h] show ?thesis
      by (auto simp: reconcile_one_def Let_def h_def [symmetric])
  next
    case bump
    then have "evolves h (h @ [\<lparr>es_epoch = es_epoch (last h) + 1, es_keys = series_keys s\<rparr>])"
      by (intro evolves_extend) (simp add: word_bump)
    with bump assms show ?thesis
      by (intro exI [of _ "h @ [\<lparr>es_epoch = es_epoch (last h) + 1, es_keys = series_keys s\<rparr>]"])
        (auto simp: reconcile_one_def Let_def h_def [symmetric])
  qed
qed

lemma reconcile_all_evolves:
  assumes "reconcile_all ss ch m = (r, m')"
  shows "(\<forall>name. evolves (history_of m name) (history_of m' name)) \<and>
    (\<forall>name. name \<notin> series_name ` set ss \<longrightarrow> man_series m' name = man_series m name) \<and>
    last_flushed_segment m' = last_flushed_segment m \<and> last_flush_at m' = last_flush_at m"
  using assms
proof (induction ss arbitrary: ch m)
  case Nil
  then show ?case by (simp add: evolves_refl)
next
  case (Cons s ss)
  obtain r1 m1 where one: "reconcile_one s m = (r1, m1)" by fastforce
  from reconcile_one_evolves [OF one] obtain h' where m1: "m1 = put_history (series_name s) h' m"
    and ev: "evolves (history_of m (series_name s)) h'" by blast
  have step: "\<forall>name. evolves (history_of m name) (history_of m1 name)"
    using ev by (simp add: m1 evolves_refl)
  show ?case
  proof (cases r1)
    case (Inl e)
    with Cons.prems one step show ?thesis by (auto simp: m1 put_history_def)
  next
    case (Inr c)
    with Cons.prems one have "reconcile_all ss (ch \<or> c) m1 = (r, m')" by simp
    from Cons.IH [OF this] step show ?thesis
      by (auto simp: m1 put_history_def intro: evolves_trans)
  qed
qed

lemma reconcile_evolves:
  assumes "reconcile c m = (r, m')"
  shows "(\<forall>name. evolves (history_of m name) (history_of m' name)) \<and>
    (\<forall>name. name \<notin> series_name ` set (cfg_series c) \<longrightarrow> man_series m' name = man_series m name) \<and>
    last_flushed_segment m' = last_flushed_segment m \<and> last_flush_at m' = last_flush_at m"
  using assms reconcile_all_evolves by (fastforce simp: reconcile_def evolves_refl split: sum.splits)

lemma man_schema_layout:
  "map_option layout (man_schema m name epoch) = layout_at (history_of m name) epoch"
  by (simp add: man_schema_def layout_at_def history_of_def option.map_comp comp_def split: option.splits)

text \<open>
  Claim C27. Old epochs stay readable: reconciling a configuration, whether it succeeds or fails,
  keeps every schema the manifest knows under its epoch with the same key names, order and
  types, keeps epochs strictly increasing per series, leaves series the configuration does not
  name alone, and never moves the flush watermark.
\<close>

theorem reconcile_keeps_old_epochs:
  assumes "wf_manifest m" and "reconcile c m = (r, m')"
  shows "wf_manifest m' \<and>
    (\<forall>name epoch ks. man_schema m name epoch = Some ks \<longrightarrow>
       (\<exists>ks'. man_schema m' name epoch = Some ks' \<and> layout ks' = layout ks)) \<and>
    (\<forall>name. name \<notin> series_name ` set (cfg_series c) \<longrightarrow> man_series m' name = man_series m name) \<and>
    last_flushed_segment m' = last_flushed_segment m"
proof (intro conjI allI impI)
  note ev = reconcile_evolves [OF assms(2)]
  show "wf_manifest m'" using assms(1) ev by (auto simp: wf_manifest_def evolves_def)
  show "last_flushed_segment m' = last_flushed_segment m" using ev by simp
  show "man_series m' name = man_series m name" if "name \<notin> series_name ` set (cfg_series c)" for name
    using ev that by blast
  fix name epoch ks
  assume "man_schema m name epoch = Some ks"
  then have "layout_at (history_of m name) epoch = Some (layout ks)"
    by (simp flip: man_schema_layout)
  then have "layout_at (history_of m' name) epoch = Some (layout ks)"
    using ev by (auto simp: evolves_def)
  then show "\<exists>ks'. man_schema m' name epoch = Some ks' \<and> layout ks' = layout ks"
    by (auto simp flip: man_schema_layout)
qed


section \<open>A reconciled manifest carries the configuration\<close>

lemma reconcile_all_carries:
  assumes "reconcile_all ss ch m = (Inr ch', m')" and "distinct (map series_name ss)" and "s \<in> set ss"
  shows "history_of m' (series_name s) \<noteq> [] \<and> es_keys (last (history_of m' (series_name s))) = series_keys s \<and>
    set (map es_keys (history_of m' (series_name s))) \<subseteq>
      insert (series_keys s) (set (map es_keys (history_of m (series_name s))))"
  using assms
proof (induction ss arbitrary: ch m)
  case (Cons t ss)
  obtain c m1 where one: "reconcile_one t m = (Inr c, m1)" and rest: "reconcile_all ss (ch \<or> c) m1 = (Inr ch', m')"
    using Cons.prems(1) by (auto split: prod.splits sum.splits)
  from reconcile_one_evolves [OF one] obtain h' where m1: "m1 = put_history (series_name t) h' m"
    and h': "h' \<noteq> []" "es_keys (last h') = series_keys t"
      "set (map es_keys h') \<subseteq> insert (series_keys t) (set (map es_keys (history_of m (series_name t))))"
    by blast
  show ?case
  proof (cases "s = t")
    case True
    have "man_series m' (series_name t) = man_series m1 (series_name t)"
      using reconcile_all_evolves [OF rest] Cons.prems(2) by auto
    then have "history_of m' (series_name t) = h'" by (simp add: history_of_def m1 put_history_def)
    with True h' show ?thesis by simp
  next
    case False
    with Cons.prems have "s \<in> set ss" by simp
    moreover have "series_name s \<noteq> series_name t"
      using Cons.prems(2) \<open>s \<in> set ss\<close> by (metis distinct.simps(2) image_eqI list.set_map list.simps(9))
    then have "history_of m1 (series_name s) = history_of m (series_name s)" by (simp add: m1)
    ultimately show ?thesis using Cons.IH [OF rest] Cons.prems(2) by auto
  qed
qed simp

lemma reconcile_all_unchanged:
  assumes "reconcile_all ss ch m = (Inr ch', m')"
  shows "(ch \<longrightarrow> ch') \<and> (\<not> ch' \<longrightarrow> m' = m)"
  using assms
proof (induction ss arbitrary: ch m)
  case (Cons t ss)
  obtain c m1 where one: "reconcile_one t m = (Inr c, m1)" and rest: "reconcile_all ss (ch \<or> c) m1 = (Inr ch', m')"
    using Cons.prems by (auto split: prod.splits sum.splits)
  have "m1 = m" if "\<not> c"
  proof -
    from that one have "history_of m (series_name t) \<noteq> []"
      and m1: "m1 = put_history (series_name t) (history_of m (series_name t)) m"
      by (auto simp: reconcile_one_def Let_def split: if_splits)
    then have "man_series m (series_name t) = Some (history_of m (series_name t))"
      by (auto simp: history_of_def split: option.splits)
    then show ?thesis by (simp add: m1 put_history_def fun_upd_idem)
  qed
  with Cons.IH [OF rest] show ?case by auto
qed simp

lemma last_epoch_schema:
  assumes "ascending h" "h \<noteq> []"
  shows "find (\<lambda>e. es_epoch e = es_epoch (last h)) h = Some (last h)"
proof (cases h rule: rev_cases)
  case (snoc ys y)
  with assms have "find (\<lambda>e. es_epoch e = es_epoch y) ys = None"
    by (auto simp: ascending_append find_None_iff)
  with snoc show ?thesis by (simp add: find_append)
qed (use assms in simp)

text \<open>
  Claim C28. After a successful reconcile new frames are stamped with the configuration: for every
  declared series the manifest's current epoch exists and names exactly the declared keys; and
  \<open>false\<close> is returned only if the manifest did not change.
\<close>

theorem reconcile_carries_config:
  assumes "wf_manifest m" and "distinct (map series_name (cfg_series c))"
    and "reconcile c m = (Inr changed, m')"
  shows "(\<forall>s\<in>set (cfg_series c). \<exists>epoch. current_epoch m' (series_name s) = Some epoch \<and>
       man_schema m' (series_name s) epoch = Some (series_keys s)) \<and> (\<not> changed \<longrightarrow> m' = m)"
proof (intro conjI ballI)
  have all: "reconcile_all (cfg_series c) False m = (Inr changed, m')"
    using assms(3) by (auto simp: reconcile_def split: sum.splits)
  show "\<not> changed \<longrightarrow> m' = m" using reconcile_all_unchanged [OF all] by blast
  fix s assume s: "s \<in> set (cfg_series c)"
  let ?h = "history_of m' (series_name s)"
  have h: "?h \<noteq> []" "es_keys (last ?h) = series_keys s"
    using reconcile_all_carries [OF all assms(2) s] by auto
  have "ascending ?h"
    using assms(1) reconcile_all_evolves [OF all] by (auto simp: wf_manifest_def evolves_def)
  from last_epoch_schema [OF this h(1)] h
  show "\<exists>epoch. current_epoch m' (series_name s) = Some epoch \<and>
      man_schema m' (series_name s) epoch = Some (series_keys s)"
    by (auto simp: current_epoch_def man_schema_def history_of_def split: option.splits)
qed

lemma check_no_retype_iff:
  "check_no_retype h keys = Inr () \<longleftrightarrow> (\<forall>past\<in>set h. \<forall>old\<in>set (es_keys past). \<not> retyped keys old)"
proof -
  have inner: "check_each (\<lambda>old. if retyped keys old then Inl e else Inr ()) ks = Inr () \<longleftrightarrow>
      (\<forall>old\<in>set ks. \<not> retyped keys old)" for ks and e :: Error
    by (induction ks) auto
  show ?thesis unfolding check_no_retype_def by (induction h) (auto simp: inner rbind_eq_Inr)
qed


lemma reconcile_all_settled:
  assumes "\<forall>s\<in>set ss. history_of m (series_name s) \<noteq> [] \<and> es_keys (last (history_of m (series_name s))) = series_keys s"
  shows "reconcile_all ss ch m = (Inr ch, m)"
  using assms
proof (induction ss)
  case (Cons s ss)
  then have h: "history_of m (series_name s) \<noteq> []" "es_keys (last (history_of m (series_name s))) = series_keys s"
    by auto
  then have "man_series m (series_name s) = Some (history_of m (series_name s))"
    by (auto simp: history_of_def split: option.splits)
  then have "put_history (series_name s) (history_of m (series_name s)) m = m"
    by (simp add: put_history_def fun_upd_idem)
  with h have "reconcile_one s m = (Inr False, m)" by (simp add: reconcile_one_def Let_def same_layout_iff)
  with Cons show ?case by simp
qed simp

lemma not_retyped_self: "distinct (map key_name ks) \<Longrightarrow> k \<in> set ks \<Longrightarrow> \<not> retyped ks k"
  by (auto simp: retyped_def find_None_iff distinct_map inj_on_def)

text \<open>
  Reconciling is idempotent: with a validated configuration, a second reconcile after a
  successful one reports no change and leaves the manifest as it is, so a restart with an
  unchanged configuration never bumps an epoch.
\<close>

lemma reconcile_is_idempotent:
  assumes "series_ok to_lowercase (cfg_series c)" and "reconcile c m = (Inr changed, m')"
  shows "reconcile c m' = (Inr False, m')"
proof -
  have all: "reconcile_all (cfg_series c) False m = (Inr changed, m')"
    and checks: "\<forall>s\<in>set (cfg_series c). check_no_retype (history_of m (series_name s)) (series_keys s) = Inr ()"
    using assms(2) by (auto simp: reconcile_def check_each_ok split: sum.splits)
  have dist: "distinct (map series_name (cfg_series c))" using assms(1) by (simp add: series_ok_def)
  note carried = reconcile_all_carries [OF all dist]
  have "check_no_retype (history_of m' (series_name s)) (series_keys s) = Inr ()" if s: "s \<in> set (cfg_series c)" for s
    unfolding check_no_retype_iff
  proof (intro ballI)
    fix past old assume "past \<in> set (history_of m' (series_name s))" "old \<in> set (es_keys past)"
    then have "old \<in> set (series_keys s) \<or> (\<exists>q\<in>set (history_of m (series_name s)). old \<in> set (es_keys q))"
      using carried [OF s] by fastforce
    moreover have "distinct (map key_name (series_keys s))"
      using assms(1) s by (simp add: series_ok_def keys_ok_def)
    ultimately show "\<not> retyped (series_keys s) old"
      using not_retyped_self checks s by (auto simp: check_no_retype_iff)
  qed
  then have "check_each (\<lambda>s. check_no_retype (history_of m' (series_name s)) (series_keys s)) (cfg_series c) = Inr ()"
    by (simp add: check_each_ok)
  with carried show ?thesis by (simp add: reconcile_def reconcile_all_settled)
qed

text \<open>
  Retyping a key is refused before anything changes: if a declared key has had another
  type in any epoch of its series, reconcile fails and the manifest is as it was.
\<close>

lemma retyping_is_refused:
  assumes "s \<in> set (cfg_series c)" and "past \<in> set (history_of m (series_name s))"
    and "old \<in> set (es_keys past)" and "new \<in> set (series_keys s)"
    and "key_name new = key_name old" "key_ty new \<noteq> key_ty old"
  shows "\<exists>e. reconcile c m = (Inl e, m)"
proof -
  have "retyped (series_keys s) old" using assms(4-6) by (auto simp: retyped_def find_None_iff)
  then have "check_no_retype (history_of m (series_name s)) (series_keys s) \<noteq> Inr ()"
    using assms(2,3) by (auto simp: check_no_retype_iff)
  then have "check_each (\<lambda>s. check_no_retype (history_of m (series_name s)) (series_keys s)) (cfg_series c) \<noteq> Inr ()"
    using assms(1) by (auto simp: check_each_ok)
  then show ?thesis by (auto simp: reconcile_def split: sum.splits)
qed

section \<open>Examples\<close>

definition demo_key :: "string \<Rightarrow> KeyType \<Rightarrow> KeyDef" where
  "demo_key name ty = \<lparr>key_name = lit name, key_ty = ty, key_nullable = False\<rparr>"

definition demo_config :: "KeyDef list \<Rightarrow> Config" where
  "demo_config ks = default_config\<lparr>cfg_series := [\<lparr>series_name = lit ''cpu'', series_keys = ks\<rparr>]\<rparr>"

definition demo_manifest :: Manifest where
  "demo_manifest = put_history (lit ''cpu'') [\<lparr>es_epoch = 0, es_keys = [demo_key ''host'' KStr]\<rparr>] default_manifest"

lemma demo_manifest_wf: "wf_manifest demo_manifest"
  by (auto simp: wf_manifest_def demo_manifest_def ascending_def)
    (simp add: history_of_def default_manifest_def)

lemma demo_reconcile:
  "reconcile (demo_config [demo_key ''load'' KF64]) demo_manifest =
     (Inr True, put_history (lit ''cpu'') [\<lparr>es_epoch = 0, es_keys = [demo_key ''host'' KStr]\<rparr>,
        \<lparr>es_epoch = 1, es_keys = [demo_key ''load'' KF64]\<rparr>] demo_manifest)"
  by (simp add: reconcile_def demo_config_def demo_manifest_def check_no_retype_def retyped_def
      demo_key_def reconcile_one_def same_layout_def Let_def lit_def)

definition demo_to_json :: "Manifest \<Rightarrow> string + bytes" where
  "demo_to_json m = Inr [123, 125]"

definition demo_from_json :: "bytes \<Rightarrow> string + Manifest" where
  "demo_from_json bs = (if bs = [123, 125, 10] then Inr demo_manifest else Inl ''no manifest'')"

text \<open>The rename is refused: the staging file stays behind and the old manifest is still in place.\<close>

definition demo_commit :: Disk where
  "demo_commit = \<lparr>files = [], faults = (\<lambda>n. if n = 4 then Refused 0 else Done), ops = 0, stable = Map.empty, linked = (\<lambda>_. False)\<rparr>"

theorem commit_is_atomic_witness:
  "read_manifest demo_from_json (content (snd (manifest_commit demo_to_json demo_manifest demo_commit)))
     \<in> {Inr default_manifest, Inr demo_manifest}"
proof -
  have "wf_disk demo_commit" by (simp add: wf_disk_def demo_commit_def)
  moreover have "utf8_valid ([123, 125] @ [10])" by code_simp
  moreover have "read_manifest demo_from_json (content demo_commit) = Inr default_manifest"
    by (simp add: read_manifest_def content_def demo_commit_def)
  ultimately show ?thesis
    using commit_is_atomic [of demo_commit demo_to_json demo_manifest "[123, 125]" demo_from_json
        "fst (manifest_commit demo_to_json demo_manifest demo_commit)"
        "snd (manifest_commit demo_to_json demo_manifest demo_commit)"]
    by (simp add: demo_to_json_def demo_from_json_def)
qed

theorem reconcile_keeps_old_epochs_witness:
  "\<exists>ks. man_schema (snd (reconcile (demo_config [demo_key ''load'' KF64]) demo_manifest)) (lit ''cpu'') 0 = Some ks \<and>
     layout ks = layout [demo_key ''host'' KStr]"
proof -
  have "man_schema demo_manifest (lit ''cpu'') 0 = Some [demo_key ''host'' KStr]"
    by (simp add: man_schema_def demo_manifest_def put_history_def)
  then show ?thesis
    using reconcile_keeps_old_epochs [OF demo_manifest_wf demo_reconcile] by (simp add: demo_reconcile)
qed

theorem reconcile_carries_config_witness:
  "\<exists>epoch. man_schema (snd (reconcile (demo_config [demo_key ''load'' KF64]) demo_manifest)) (lit ''cpu'') epoch =
     Some [demo_key ''load'' KF64]"
proof -
  have "distinct (map series_name (cfg_series (demo_config [demo_key ''load'' KF64])))"
    by (simp add: demo_config_def)
  moreover have "cfg_series (demo_config ks) = [\<lparr>series_name = lit ''cpu'', series_keys = ks\<rparr>]" for ks
    by (simp add: demo_config_def)
  ultimately show ?thesis
    using reconcile_carries_config [OF demo_manifest_wf _ demo_reconcile] by (auto simp: demo_reconcile)
qed

lemma demo_series_ok: "series_ok (\<lambda>x. x) (cfg_series (demo_config [demo_key ''load'' KF64]))"
proof -
  have "name_ok (lit ''cpu'')" "lit ''load'' \<noteq> []" "lit ''load'' \<notin> set RESERVED_KEY_NAMES" by code_simp+
  then show ?thesis by (simp add: series_ok_def keys_ok_def demo_config_def demo_key_def)
qed

end
