(* ===== verification/Orc_View.thy ===== *)
theory Orc_View
  imports Orc_Manifest
begin

text \<open>
  The generated \<open>view.sql\<close> (\<open>src/src/flush/view.rs\<close>): the text of the view, byte by byte, the
  columns it exposes, and a reader that recovers them from the text. Names come from the configuration, so quoting is what keeps the script one
  statement.
\<close>

section \<open>The script\<close>

definition replace_byte :: "u8 \<Rightarrow> rstr \<Rightarrow> rstr \<Rightarrow> rstr" where
  "replace_byte b r s = concat (map (\<lambda>x. if x = b then r else [x]) s)"

definition sql_str :: "rstr \<Rightarrow> rstr" where
  "sql_str s = [39] @ replace_byte 39 [39, 39] s @ [39]"

definition sql_ident :: "rstr \<Rightarrow> rstr" where
  "sql_ident s = [34] @ replace_byte 34 [34, 34] s @ [34]"

fun duckdb_type :: "KeyType \<Rightarrow> rstr" where
  "duckdb_type KBool = lit ''BOOLEAN''"
| "duckdb_type KI64 = lit ''BIGINT''"
| "duckdb_type KF64 = lit ''DOUBLE''"
| "duckdb_type KStr = lit ''VARCHAR''"

definition newline :: rstr where "newline = [10]"

definition add_key :: "KeyDef \<Rightarrow> KeyDef list \<Rightarrow> KeyDef list" where
  "add_key k seen = (if list_ex (\<lambda>s. key_name s = key_name k) seen then seen else seen @ [k])"

definition all_keys :: "EpochSchema list \<Rightarrow> KeyDef list" where
  "all_keys history = fold (\<lambda>e. fold add_key (es_keys e)) history []"

definition present_everywhere :: "EpochSchema list \<Rightarrow> KeyDef \<Rightarrow> bool" where
  "present_everywhere history k \<longleftrightarrow>
     list_all (\<lambda>e. list_ex (\<lambda>ek. key_name ek = key_name k) (es_keys e)) history"

fun join :: "rstr \<Rightarrow> rstr list \<Rightarrow> rstr" where
  "join sep [] = []"
| "join sep [s] = s"
| "join sep (s # t # ss) = s @ sep @ join sep (t # ss)"

definition view_header :: "rstr \<Rightarrow> EpochSchema list \<Rightarrow> rstr" where
  "view_header series history =
     lit ''-- Generated by orc; regenerated on every flush. Do not edit.'' @ newline @
     lit ''-- Paths are relative to the data directory, and DuckDB resolves them'' @ newline @
     lit ''-- against the process working directory -- not this file's location:'' @ newline @
     lit ''--   cd <data_dir> && duckdb -c '' @ [34] @ lit ''.read series/'' @ series @ lit ''/view.sql'' @ [34] @ newline @
     (if history = [] then lit ''-- No epochs recorded for this series yet.'' @ newline
      else lit ''-- Epochs unioned: '' @ join (lit '', '') (map (\<lambda>e. dec (unat (es_epoch e))) history) @ newline)"

definition view_item :: "EpochSchema list \<Rightarrow> KeyDef \<Rightarrow> rstr" where
  "view_item history k =
     (let ident = sql_ident (key_name k) in
      if present_everywhere history k then lit ''  '' @ ident @ lit '','' @ newline
      else lit ''  coalesce('' @ ident @ lit '', try_cast(extra['' @ sql_str (key_name k) @ lit ''] AS '' @
             duckdb_type (key_ty k) @ lit '')) AS '' @ ident @ lit '','' @ newline)"

definition view_sql :: "rstr \<Rightarrow> EpochSchema list \<Rightarrow> rstr" where
  "view_sql series history =
     view_header series history @
     lit ''CREATE OR REPLACE VIEW '' @ sql_ident series @ lit '' AS SELECT'' @ newline @
     lit ''  ts,'' @ newline @ lit ''  id,'' @ newline @
     concat (map (view_item history) (all_keys history)) @
     lit ''  extra,'' @ newline @ lit ''  data'' @ newline @
     lit ''FROM read_parquet('' @ sql_str (lit ''series/'' @ series @ lit ''/**/*.parquet'') @
     lit '', hive_partitioning = 1, union_by_name = 1);'' @ newline"

text \<open>\<open>view_columns\<close>, with the set of names seen so far.\<close>

definition column_step :: "KeyDef \<Rightarrow> rstr set \<times> rstr list \<Rightarrow> rstr set \<times> rstr list" where
  "column_step k = (\<lambda>(seen, cols).
     if key_name k \<in> seen then (seen, cols) else (insert (key_name k) seen, cols @ [key_name k]))"

definition view_columns :: "EpochSchema list \<Rightarrow> rstr list" where
  "view_columns history =
     snd (fold (\<lambda>e. fold column_step (es_keys e)) history ({}, [lit ''ts'', lit ''id''])) @ [lit ''extra'', lit ''data'']"

section \<open>Quoting\<close>

text \<open>How SQL reads a quoted token: up to the first quote that is not doubled.\<close>

fun unquote :: "u8 \<Rightarrow> rstr \<Rightarrow> (rstr \<times> rstr) option" where
  "unquote q [] = None"
| "unquote q [x] = (if x = q then Some ([], []) else None)"
| "unquote q (x # y # s) =
     (if x \<noteq> q then map_option (\<lambda>(t, rest). (x # t, rest)) (unquote q (y # s))
      else if y = q then map_option (\<lambda>(t, rest). (q # t, rest)) (unquote q s)
      else Some ([], y # s))"

definition token :: "u8 \<Rightarrow> rstr \<Rightarrow> (rstr \<times> rstr) option" where
  "token q s = (if s \<noteq> [] \<and> hd s = q then unquote q (tl s) else None)"

lemma replace_byte_simps [simp]:
  "replace_byte b r [] = []" "replace_byte b r (x # s) = (if x = b then r else [x]) @ replace_byte b r s"
  by (simp_all add: replace_byte_def)

lemma unquote_quoted:
  assumes "rest = [] \<or> hd rest \<noteq> q"
  shows "unquote q (replace_byte q [q, q] s @ q # rest) = Some (s, rest)"
proof (induction s)
  case Nil
  show ?case using assms by (cases rest) auto
next
  case (Cons x s)
  show ?case
  proof (cases "replace_byte q [q, q] s @ q # rest")
    case (Cons y t)
    with Cons.IH show ?thesis by simp
  qed simp
qed

section \<open>Columns\<close>

lemma add_key_seen: "list_ex (\<lambda>s. key_name s = key_name k) seen \<longleftrightarrow> key_name k \<in> key_name ` set seen"
  by (auto simp: list_ex_iff) (metis imageI)

lemma columns_steps:
  assumes "seen = key_name ` set ks" "cols = pre @ map key_name ks"
  shows "fold column_step xs (seen, cols) = (key_name ` set (fold add_key xs ks), pre @ map key_name (fold add_key xs ks))"
  using assms
proof (induction xs arbitrary: ks seen cols)
  case (Cons x xs)
  have "column_step x (seen, cols) = (key_name ` set (add_key x ks), pre @ map key_name (add_key x ks))"
    using Cons.prems by (cases "key_name x \<in> key_name ` set ks") (simp_all add: column_step_def add_key_def add_key_seen)
  with Cons.IH [OF refl refl, of "add_key x ks"] show ?case by simp
qed simp

lemma view_columns_keys: "view_columns history = [lit ''ts'', lit ''id''] @ map key_name (all_keys history) @ [lit ''extra'', lit ''data'']"
proof -
  have "fold (\<lambda>e. fold column_step (es_keys e)) history (key_name ` set ks, pre @ map key_name ks) =
      (let ks' = fold (\<lambda>e. fold add_key (es_keys e)) history ks in (key_name ` set ks', pre @ map key_name ks'))" for ks pre
    by (induction history arbitrary: ks) (simp_all add: columns_steps [OF refl refl] Let_def)
  from this [of "[]" "[lit ''ts'', lit ''id'']"] show ?thesis by (simp add: view_columns_def all_keys_def Let_def)
qed

lemma fold_add_key:
  "distinct (map key_name ks) \<Longrightarrow> distinct (map key_name (fold add_key xs ks)) \<and>
     key_name ` set (fold add_key xs ks) = key_name ` (set ks \<union> set xs)"
proof (induction xs arbitrary: ks)
  case (Cons x xs)
  have "distinct (map key_name (add_key x ks))" "key_name ` set (add_key x ks) = key_name ` set (x # ks)"
    using Cons.prems by (auto simp: add_key_def add_key_seen)
  with Cons.IH [of "add_key x ks"] show ?case by auto
qed simp

lemma all_keys_names:
  "distinct (map key_name (all_keys history)) \<and>
   key_name ` set (all_keys history) = (\<Union>e\<in>set history. key_name ` set (es_keys e))"
proof -
  have "distinct (map key_name ks) \<Longrightarrow>
      distinct (map key_name (fold (\<lambda>e. fold add_key (es_keys e)) history ks)) \<and>
      key_name ` set (fold (\<lambda>e. fold add_key (es_keys e)) history ks) = key_name ` set ks \<union> (\<Union>e\<in>set history. key_name ` set (es_keys e))" for ks
  proof (induction history arbitrary: ks)
    case (Cons e es)
    with fold_add_key [of ks "es_keys e"] Cons.IH [of "fold add_key (es_keys e) ks"] show ?case by auto
  qed simp
  from this [of "[]"] show ?thesis by (simp add: all_keys_def)
qed

lemma all_keys_declared: "set (all_keys history) \<subseteq> (\<Union>e\<in>set history. set (es_keys e))"
proof -
  have add: "set (fold add_key xs ks) \<subseteq> set ks \<union> set xs" for xs ks
  proof (induction xs arbitrary: ks)
    case (Cons x xs)
    have "set (add_key x ks) \<subseteq> insert x (set ks)" by (auto simp: add_key_def)
    with Cons.IH [of "add_key x ks"] show ?case by auto
  qed simp
  have "set (fold (\<lambda>e. fold add_key (es_keys e)) history ks) \<subseteq> set ks \<union> (\<Union>e\<in>set history. set (es_keys e))" for ks
  proof (induction history arbitrary: ks)
    case (Cons e es)
    with add [of "es_keys e" ks] show ?case by fastforce
  qed simp
  from this [of "[]"] show ?thesis by (simp add: all_keys_def)
qed

section \<open>Reading the script\<close>

text \<open>
  A reader for scripts of this form, written from the SQL side: comment lines are skipped, names and
  strings are quoted tokens, an item of the select list is a column or a column with a fallback from
  the map \<open>extra\<close> under a name, and the list goes on as long as commas follow.
\<close>

datatype ColumnSource = Column rstr | Coalesced rstr rstr KeyType

type_synonym select_item = "ColumnSource \<times> rstr"

record View =
  vw_name :: rstr
  vw_items :: "select_item list"
  vw_files :: rstr

definition expect :: "rstr \<Rightarrow> rstr \<Rightarrow> rstr option" where
  "expect p s = (if take (length p) s = p then Some (drop (length p) s) else None)"

fun skip_line :: "rstr \<Rightarrow> rstr" where
  "skip_line [] = []"
| "skip_line (b # s) = (if b = 10 then s else skip_line s)"

lemma length_skip_line: "length (skip_line s) \<le> length s"
  by (induction s) auto

function skip_comments :: "rstr \<Rightarrow> rstr" where
  "skip_comments s = (case expect (lit ''--'') s of None \<Rightarrow> s | Some t \<Rightarrow> skip_comments (skip_line t))"
  by auto

lemma expect_length: "expect p s = Some t \<Longrightarrow> length s = length p + length t"
proof -
  assume "expect p s = Some t"
  then have "s = p @ t" by (metis append_take_drop_id expect_def option.distinct(1) option.inject)
  then show ?thesis by simp
qed

termination skip_comments
proof (relation "measure length")
  fix s t assume "expect (lit ''--'') s = Some t"
  from expect_length [OF this] show "(skip_line t, s) \<in> measure length"
    using length_skip_line [of t] by (simp add: lit_def)
qed simp

declare skip_comments.simps [simp del]

definition read_type :: "rstr \<Rightarrow> (KeyType \<times> rstr) option" where
  "read_type s =
     (case filter (\<lambda>ty. expect (duckdb_type ty) s \<noteq> None) [KBool, KI64, KF64, KStr] of
        [] \<Rightarrow> None
      | ty # _ \<Rightarrow> map_option (Pair ty) (expect (duckdb_type ty) s))"

definition read_item :: "rstr \<Rightarrow> (select_item \<times> rstr) option" where
  "read_item s =
     (case token 34 s of
        Some (c, s) \<Rightarrow> Some ((Column c, c), s)
      | None \<Rightarrow>
          (case expect (lit ''coalesce('') s of
             None \<Rightarrow> (let word = takeWhile (\<lambda>b. 97 \<le> b \<and> b \<le> 122) s in
                      if word = [] then None else Some ((Column word, word), drop (length word) s))
           | Some s \<Rightarrow>
               Option.bind (token 34 s) (\<lambda>(column, s).
               Option.bind (expect (lit '', try_cast(extra['') s) (\<lambda>s.
               Option.bind (token 39 s) (\<lambda>(key, s).
               Option.bind (expect (lit ''] AS '') s) (\<lambda>s.
               Option.bind (read_type s) (\<lambda>(ty, s).
               Option.bind (expect (lit '')) AS '') s) (\<lambda>s.
               Option.bind (token 34 s) (\<lambda>(name, s).
               Some ((Coalesced column key ty, name), s)))))))))) "

fun read_items :: "nat \<Rightarrow> rstr \<Rightarrow> (select_item list \<times> rstr) option" where
  "read_items 0 s = None"
| "read_items (Suc n) s =
     Option.bind (expect (lit ''  '') s) (\<lambda>s.
     Option.bind (read_item s) (\<lambda>(item, s).
       case expect (lit '','' @ newline) s of
         Some s \<Rightarrow> map_option (\<lambda>(items, s). (item # items, s)) (read_items n s)
       | None \<Rightarrow> map_option (Pair [item]) (expect newline s)))"

text \<open>An item takes more than one byte, so the length of the script is enough fuel.\<close>

definition read_view :: "rstr \<Rightarrow> View option" where
  "read_view script =
     Option.bind (expect (lit ''CREATE OR REPLACE VIEW '') (skip_comments script)) (\<lambda>s.
     Option.bind (token 34 s) (\<lambda>(name, s).
     Option.bind (expect (lit '' AS SELECT'' @ newline) s) (\<lambda>s.
     Option.bind (read_items (length script) s) (\<lambda>(items, s).
     Option.bind (expect (lit ''FROM read_parquet('') s) (\<lambda>s.
     Option.bind (token 39 s) (\<lambda>(files, s).
       if s = lit '', hive_partitioning = 1, union_by_name = 1);'' @ newline
       then Some \<lparr>vw_name = name, vw_items = items, vw_files = files\<rparr> else None))))))"

lemma expect_prefix [simp]: "expect p (p @ s) = Some s"
  by (simp add: expect_def)

lemma token_quoted:
  assumes "rest \<noteq> []" "hd rest \<noteq> 34" shows "token 34 (sql_ident name @ rest) = Some (name, rest)"
  using assms by (simp add: token_def sql_ident_def unquote_quoted)

lemma token_string:
  assumes "rest \<noteq> []" "hd rest \<noteq> 39" shows "token 39 (sql_str name @ rest) = Some (name, rest)"
  using assms by (simp add: token_def sql_str_def unquote_quoted)

lemma read_type_name: "read_type (duckdb_type ty @ lit '')'' @ s) = Some (ty, lit '')'' @ s)"
  by (cases ty) (simp_all add: read_type_def expect_def lit_def)

text \<open>The item of a key: its column, and where an epoch lacks it the value in \<open>extra\<close> under the key's name, as the key's type.\<close>

definition key_item :: "EpochSchema list \<Rightarrow> KeyDef \<Rightarrow> select_item" where
  "key_item history k =
     (if present_everywhere history k then Column (key_name k) else Coalesced (key_name k) (key_name k) (key_ty k), key_name k)"

lemma view_item_reads:
  "\<exists>t. view_item history k = lit ''  '' @ t @ lit '','' @ newline \<and> read_item (t @ lit '','' @ newline @ rest) = Some (key_item history k, lit '','' @ newline @ rest)"
proof (cases "present_everywhere history k")
  case True
  have "read_item (sql_ident (key_name k) @ lit '','' @ newline @ rest) = Some (key_item history k, lit '','' @ newline @ rest)"
    by (simp add: read_item_def token_quoted key_item_def True lit_def)
  then show ?thesis using True by (intro exI [of _ "sql_ident (key_name k)"]) (simp add: view_item_def)
next
  case False
  let ?name = "key_name k"
  let ?tail = "lit '')) AS '' @ sql_ident ?name @ lit '','' @ newline @ rest"
  let ?key = "lit '', try_cast(extra['' @ sql_str ?name @ lit ''] AS '' @ duckdb_type (key_ty k) @ ?tail"
  have no: "token 34 (lit ''coalesce('' @ s) = None" for s by (simp add: token_def lit_def)
  have "token 34 (sql_ident ?name @ ?key) = Some (?name, ?key)" by (rule token_quoted) (simp_all add: lit_def)
  moreover have "token 39 (sql_str ?name @ lit ''] AS '' @ duckdb_type (key_ty k) @ ?tail) = Some (?name, lit ''] AS '' @ duckdb_type (key_ty k) @ ?tail)"
    by (rule token_string) (simp_all add: lit_def)
  moreover have "read_type (duckdb_type (key_ty k) @ ?tail) = Some (key_ty k, ?tail)"
    using read_type_name [of "key_ty k" "lit '') AS '' @ sql_ident ?name @ lit '','' @ newline @ rest"] by (simp add: lit_def)
  moreover have "token 34 (sql_ident ?name @ lit '','' @ newline @ rest) = Some (?name, lit '','' @ newline @ rest)"
    by (rule token_quoted) (simp_all add: lit_def)
  ultimately have "read_item (lit ''coalesce('' @ sql_ident ?name @ ?key) = Some (key_item history k, lit '','' @ newline @ rest)"
    using False by (simp add: read_item_def no key_item_def)
  then show ?thesis using False
    by (intro exI [of _ "lit ''coalesce('' @ sql_ident ?name @ lit '', try_cast(extra['' @ sql_str ?name @ lit ''] AS '' @ duckdb_type (key_ty k) @ lit '')) AS '' @ sql_ident ?name"])
      (simp add: view_item_def Let_def lit_def)
qed

lemma read_items_step:
  assumes "read_item (t @ lit '','' @ newline @ s) = Some (item, lit '','' @ newline @ s)" "read_items n s = Some (items, rest)"
  shows "read_items (Suc n) (lit ''  '' @ t @ lit '','' @ newline @ s) = Some (item # items, rest)"
proof -
  have "expect (lit '','' @ newline) (lit '','' @ newline @ s) = Some s" using expect_prefix [of "lit '','' @ newline" s] by simp
  then show ?thesis using assms by simp
qed

lemma read_items_keys:
  assumes "read_items n s = Some (items, rest)"
  shows "read_items (length ks + n) (concat (map (view_item history) ks) @ s) = Some (map (key_item history) ks @ items, rest)"
proof (induction ks)
  case (Cons k ks)
  let ?s = "concat (map (view_item history) ks) @ s"
  obtain t where t: "view_item history k = lit ''  '' @ t @ lit '','' @ newline"
    "read_item (t @ lit '','' @ newline @ ?s) = Some (key_item history k, lit '','' @ newline @ ?s)"
    using view_item_reads by blast
  from read_items_step [OF t(2) Cons.IH] show ?case by (simp add: t(1))
qed (simp add: assms)

lemma read_items_more: "read_items n s = Some r \<Longrightarrow> n \<le> m \<Longrightarrow> read_items m s = Some r"
proof (induction n arbitrary: s m r)
  case (Suc n)
  then obtain m' where m: "m = Suc m'" "n \<le> m'" by (cases m) auto
  from Suc.prems(1) obtain s1 item s2 where s: "expect (lit ''  '') s = Some s1" "read_item s1 = Some (item, s2)" by (auto simp: bind_eq_Some_conv)
  show ?case
  proof (cases "expect (lit '','' @ newline) s2")
    case None
    with Suc.prems(1) s show ?thesis by (simp add: m(1))
  next
    case (Some s3)
    with Suc.prems(1) s obtain items rest where "read_items n s3 = Some (items, rest)" "r = (item # items, rest)" by auto
    with Suc.IH [OF _ m(2)] Some s show ?thesis by (simp add: m(1))
  qed
qed simp

lemma word_item:
  assumes "list_all (\<lambda>b. 97 \<le> b \<and> b \<le> 122) w" "w \<noteq> []" "\<not> (97 \<le> hd s \<and> hd s \<le> 122)" "s \<noteq> []" "expect (lit ''coalesce('') (w @ s) = None"
  shows "read_item (w @ s) = Some ((Column w, w), s)"
proof -
  have "token 34 (w @ s) = None" using assms(1,2) by (cases w) (auto simp: token_def)
  moreover have "takeWhile (\<lambda>b. 97 \<le> b \<and> b \<le> 122) (w @ s) = w"
    using assms(1,3,4) by (cases s) (auto simp: takeWhile_append list_all_iff)
  ultimately show ?thesis using assms by (simp add: read_item_def Let_def)
qed

lemma fixed_item:
  assumes "w \<in> {lit ''ts'', lit ''id'', lit ''extra'', lit ''data''}" "s \<noteq> []" "hd s < 97"
  shows "read_item (w @ s) = Some ((Column w, w), s)"
proof (rule word_item)
  show "\<not> (97 \<le> hd s \<and> hd s \<le> 122)" using assms(3) by auto
  show "expect (lit ''coalesce('') (w @ s) = None" using assms(1) by (auto simp: expect_def lit_def)
qed (use assms(1,2) in \<open>auto simp: lit_def\<close>)

lemma read_items_fixed:
  assumes "w \<in> {lit ''ts'', lit ''id'', lit ''extra''}" "read_items n s = Some (items, rest)"
  shows "read_items (Suc n) (lit ''  '' @ w @ lit '','' @ newline @ s) = Some ((Column w, w) # items, rest)"
  by (rule read_items_step [OF fixed_item assms(2)]) (use assms(1) in \<open>auto simp: lit_def\<close>)

lemma read_items_last:
  assumes "s \<noteq> []" shows "read_items (Suc 0) (lit ''  '' @ lit ''data'' @ newline @ s) = Some ([(Column (lit ''data''), lit ''data'')], s)"
proof -
  have "read_item (lit ''data'' @ newline @ s) = Some ((Column (lit ''data''), lit ''data''), newline @ s)"
    by (rule fixed_item) (simp_all add: newline_def)
  moreover have "expect (lit '','' @ newline) (newline @ s) = None" by (simp add: expect_def newline_def lit_def)
  ultimately show ?thesis by simp
qed

definition view_items :: "EpochSchema list \<Rightarrow> select_item list" where
  "view_items history =
     [(Column (lit ''ts''), lit ''ts''), (Column (lit ''id''), lit ''id'')] @ map (key_item history) (all_keys history) @
     [(Column (lit ''extra''), lit ''extra''), (Column (lit ''data''), lit ''data'')]"

abbreviation select_list :: "EpochSchema list \<Rightarrow> rstr \<Rightarrow> rstr" where
  "select_list history s \<equiv> lit ''  '' @ lit ''ts'' @ lit '','' @ newline @ lit ''  '' @ lit ''id'' @ lit '','' @ newline @
     concat (map (view_item history) (all_keys history)) @ lit ''  '' @ lit ''extra'' @ lit '','' @ newline @ lit ''  '' @ lit ''data'' @ newline @ s"

lemma read_select_list:
  assumes "s \<noteq> []" "length (all_keys history) + 4 \<le> n" shows "read_items n (select_list history s) = Some (view_items history, s)"
proof -
  let ?more = "lit ''  '' @ lit ''extra'' @ lit '','' @ newline @ lit ''  '' @ lit ''data'' @ newline @ s"
  have "read_items (Suc (Suc 0)) ?more = Some ([(Column (lit ''extra''), lit ''extra''), (Column (lit ''data''), lit ''data'')], s)"
    by (rule read_items_fixed [OF _ read_items_last [OF assms(1)]]) simp
  from read_items_fixed [OF _ read_items_fixed [OF _ read_items_keys [OF this, of "all_keys history" history]], of "lit ''ts''" "lit ''id''"]
  have "read_items (Suc (Suc (length (all_keys history) + Suc (Suc 0)))) (select_list history s) = Some (view_items history, s)"
    by (simp add: view_items_def)
  from read_items_more [OF this] assms(2) show ?thesis by simp
qed

subsection \<open>The comment lines\<close>

lemma keys_length: "length ks \<le> length (concat (map (view_item history) ks))"
proof (induction ks)
  case (Cons k ks)
  have "1 \<le> length (view_item history k)" by (simp add: view_item_def Let_def lit_def)
  with Cons show ?case by simp
qed simp

lemma fuel: "length (all_keys history) + 4 \<le> length (view_sql series history)"
  using keys_length [of "all_keys history" history] by (simp add: view_sql_def lit_def)

lemma skip_line_to: "10 \<notin> set t \<Longrightarrow> skip_line (t @ 10 # s) = s"
  by (induction t) auto

lemma skip_comment: "10 \<notin> set t \<Longrightarrow> skip_comments (lit ''--'' @ t @ newline @ s) = skip_comments s"
  by (subst skip_comments.simps) (simp add: newline_def skip_line_to)

lemma no_newline_join: "10 \<notin> set sep \<Longrightarrow> \<forall>x\<in>set xs. 10 \<notin> set x \<Longrightarrow> 10 \<notin> set (join sep xs)"
  by (induction sep xs rule: join.induct) auto

lemma no_newline_dec: "10 \<notin> set (dec n)"
  by (rule digits_no_sep) (simp_all add: is_digit_def)

lemma no_control_newline: "\<not> has_control s \<Longrightarrow> 10 \<notin> set s"
  by (induction s) auto

lemma skip_header:
  assumes "10 \<notin> set series" shows "skip_comments (view_header series history @ s) = skip_comments s"
proof -
  let ?more = "if history = [] then lit ''-- No epochs recorded for this series yet.'' @ newline
      else lit ''-- Epochs unioned: '' @ join (lit '', '') (map (\<lambda>e. dec (unat (es_epoch e))) history) @ newline"
  have epochs: "skip_comments (?more @ s) = skip_comments s"
  proof (cases "history = []")
    case True
    then show ?thesis using skip_comment [of "lit '' No epochs recorded for this series yet.''" s] by (simp add: lit_def)
  next
    case False
    have "10 \<notin> set (lit '' Epochs unioned: '' @ join (lit '', '') (map (\<lambda>e. dec (unat (es_epoch e))) history))"
      by (simp add: no_newline_join no_newline_dec lit_def)
    from skip_comment [OF this, of s] False show ?thesis by (simp add: lit_def)
  qed
  let ?a = "lit '' Generated by orc; regenerated on every flush. Do not edit.''"
    and ?b = "lit '' Paths are relative to the data directory, and DuckDB resolves them''"
    and ?c = "lit '' against the process working directory -- not this file's location:''"
    and ?d = "lit ''   cd <data_dir> && duckdb -c '' @ [34] @ lit ''.read series/'' @ series @ lit ''/view.sql'' @ [34]"
  have header: "view_header series history @ s = lit ''--'' @ ?a @ newline @ lit ''--'' @ ?b @ newline @ lit ''--'' @ ?c @ newline @ lit ''--'' @ ?d @ newline @ ?more @ s"
    by (simp add: view_header_def lit_def)
  have lines: "10 \<notin> set ?a" "10 \<notin> set ?b" "10 \<notin> set ?c" "10 \<notin> set ?d" using assms by (simp_all add: lit_def)
  show ?thesis unfolding header skip_comment [OF lines(1)] skip_comment [OF lines(2)] skip_comment [OF lines(3)] skip_comment [OF lines(4)] by (rule epochs)
qed

text \<open>
  Claim C40. The generated view reads back. For a series name that validation accepts, the script is
  comment lines and one statement, and a reader of such statements recovers the view's name, the
  pattern of the series' files and the select list, which is: the fixed columns and, in between, one
  item per key of the whole history and no other, each key once and in the order of first
  declaration. The item of a key exposes it under its name, from its column alone exactly when every
  epoch declares it, and otherwise with the value in \<open>extra\<close> under that same name, cast to its type,
  as the fallback; quotes in names do not matter. The exposed names are those \<open>view_columns\<close> lists.
\<close>

theorem view_exposes_columns:
  assumes "check_series_name series = Inr ()"
  shows "read_view (view_sql series history) =
      Some \<lparr>vw_name = series, vw_items = view_items history, vw_files = lit ''series/'' @ series @ lit ''/**/*.parquet''\<rparr> \<and>
    map snd (view_items history) = view_columns history \<and> distinct (map key_name (all_keys history)) \<and>
    key_name ` set (all_keys history) = (\<Union>e\<in>set history. key_name ` set (es_keys e)) \<and>
    set (all_keys history) \<subseteq> (\<Union>e\<in>set history. set (es_keys e))"
proof (intro conjI)
  let ?files = "lit ''series/'' @ series @ lit ''/**/*.parquet''" and ?opts = "lit '', hive_partitioning = 1, union_by_name = 1);'' @ newline"
  let ?from = "lit ''FROM read_parquet('' @ sql_str ?files @ ?opts"
  let ?stmt = "lit ''CREATE OR REPLACE VIEW '' @ sql_ident series @ (lit '' AS SELECT'' @ newline) @ select_list history ?from"
  have script: "view_sql series history = view_header series history @ ?stmt" by (simp add: view_sql_def lit_def)
  have "10 \<notin> set series" using assms no_control_newline by (simp add: check_series_name_iff name_ok_def)
  moreover have "skip_comments ?stmt = ?stmt" by (subst skip_comments.simps) (simp add: expect_def lit_def)
  ultimately have skip: "skip_comments (view_sql series history) = ?stmt" by (simp add: script skip_header)
  show "read_view (view_sql series history) = Some \<lparr>vw_name = series, vw_items = view_items history, vw_files = ?files\<rparr>"
  proof -
    have "token 34 (sql_ident series @ (lit '' AS SELECT'' @ newline) @ select_list history ?from) = Some (series, (lit '' AS SELECT'' @ newline) @ select_list history ?from)"
      by (rule token_quoted) (simp_all add: lit_def)
    moreover have "token 39 (sql_str ?files @ ?opts) = Some (?files, ?opts)" by (rule token_string) (simp_all add: lit_def)
    moreover have "read_items (length (view_sql series history)) (select_list history ?from) = Some (view_items history, ?from)"
      by (rule read_select_list) (simp add: lit_def, rule fuel)
    ultimately show ?thesis unfolding read_view_def skip by (simp only: expect_prefix bind.bind_lunit prod.case if_True refl)
  qed
qed (use all_keys_names [of history] all_keys_declared [of history] in \<open>simp_all add: view_columns_keys view_items_def key_item_def comp_def\<close>)

text \<open>A series whose second epoch has added a key with a quote in its name.\<close>

definition quoted_key :: KeyDef where
  "quoted_key = \<lparr>key_name = lit ''a'' @ [34], key_ty = KI64, key_nullable = True\<rparr>"

definition grown_history :: "EpochSchema list" where
  "grown_history = [\<lparr>es_epoch = 1, es_keys = []\<rparr>, \<lparr>es_epoch = 2, es_keys = [quoted_key]\<rparr>]"

theorem view_exposes_columns_witness:
  "read_view (view_sql (lit ''s'') grown_history) =
     Some \<lparr>vw_name = lit ''s'',
       vw_items = [(Column (lit ''ts''), lit ''ts''), (Column (lit ''id''), lit ''id''),
         (Coalesced (lit ''a'' @ [34]) (lit ''a'' @ [34]) KI64, lit ''a'' @ [34]),
         (Column (lit ''extra''), lit ''extra''), (Column (lit ''data''), lit ''data'')],
       vw_files = lit ''series/s/**/*.parquet''\<rparr>"
proof -
  have "check_series_name (lit ''s'') = Inr ()" by code_simp
  moreover have "view_items grown_history = [(Column (lit ''ts''), lit ''ts''), (Column (lit ''id''), lit ''id''),
      (Coalesced (lit ''a'' @ [34]) (lit ''a'' @ [34]) KI64, lit ''a'' @ [34]), (Column (lit ''extra''), lit ''extra''), (Column (lit ''data''), lit ''data'')]"
    by (simp add: view_items_def grown_history_def quoted_key_def all_keys_def add_key_def key_item_def present_everywhere_def)
  moreover have "lit ''series/'' @ lit ''s'' @ lit ''/**/*.parquet'' = lit ''series/s/**/*.parquet''" by (simp add: lit_def)
  ultimately show ?thesis using view_exposes_columns [of "lit ''s''" grown_history] by (simp only:)
qed

end
