(* ===== verification/Orc_Heap.thy ===== *)
theory Orc_Heap
  imports Orc_Prelude
begin

text \<open>
  The hand-rolled min-heap of \<open>src/src/flush/merge.rs\<close>: a list of source indices ordered by a
  comparison the caller supplies. \<open>sift_down\<close> repairs the order below one position.
\<close>

section \<open>Sifting down\<close>

definition list_swap :: "'a list \<Rightarrow> nat \<Rightarrow> nat \<Rightarrow> 'a list" where
  "list_swap xs i j = xs[i := xs ! j, j := xs ! i]"

definition smallest :: "('a \<Rightarrow> 'a \<Rightarrow> bool) \<Rightarrow> 'a list \<Rightarrow> nat \<Rightarrow> nat" where
  "smallest lt heap i =
     (let l = 2 * i + 1; r = l + 1;
          m = (if l < length heap \<and> lt (heap ! l) (heap ! i) then l else i) in
      if r < length heap \<and> lt (heap ! r) (heap ! m) then r else m)"

lemma smallest_cases: "smallest lt heap i \<in> {i, 2 * i + 1, 2 * i + 2}"
  by (auto simp: smallest_def Let_def)

lemma smallest_less: "smallest lt heap i \<noteq> i \<Longrightarrow> smallest lt heap i < length heap \<and> i < smallest lt heap i"
  by (auto simp: smallest_def Let_def split: if_splits)

function sift_down :: "('a \<Rightarrow> 'a \<Rightarrow> bool) \<Rightarrow> 'a list \<Rightarrow> nat \<Rightarrow> 'a list" where
  "sift_down lt heap i =
     (let m = smallest lt heap i in
      if m = i then heap else sift_down lt (list_swap heap i m) m)"
  by auto
termination
  by (relation "measure (\<lambda>(_, heap, i). length heap - i)")
    (auto simp: list_swap_def dest: smallest_less)

declare sift_down.simps [simp del]

text \<open>The heap over \<open>n\<close> sources, built bottom up.\<close>

definition heapify :: "(nat \<Rightarrow> nat \<Rightarrow> bool) \<Rightarrow> nat \<Rightarrow> nat list" where
  "heapify lt n = fold (\<lambda>i heap. sift_down lt heap i) (rev [0..<n div 2]) [0..<n]"

section \<open>Heap order\<close>

text \<open>
  \<open>heap_above key m xs\<close>: every parent at position \<open>m\<close> or later is no larger than its children.
  \<open>heap_but key m i xs\<close> allows a violation below \<open>i\<close>.
\<close>

definition heap_above :: "('a \<Rightarrow> 'k::linorder) \<Rightarrow> nat \<Rightarrow> 'a list \<Rightarrow> bool" where
  "heap_above key m xs \<longleftrightarrow>
     (\<forall>p j. m \<le> p \<and> j \<in> {2 * p + 1, 2 * p + 2} \<and> j < length xs \<longrightarrow> key (xs ! p) \<le> key (xs ! j))"

definition heap_but :: "('a \<Rightarrow> 'k::linorder) \<Rightarrow> nat \<Rightarrow> nat \<Rightarrow> 'a list \<Rightarrow> bool" where
  "heap_but key m i xs \<longleftrightarrow>
     (\<forall>p j. m \<le> p \<and> p \<noteq> i \<and> j \<in> {2 * p + 1, 2 * p + 2} \<and> j < length xs \<longrightarrow> key (xs ! p) \<le> key (xs ! j)) \<and>
     (\<forall>p j. m \<le> p \<and> i \<in> {2 * p + 1, 2 * p + 2} \<and> j \<in> {2 * i + 1, 2 * i + 2} \<and> j < length xs \<longrightarrow>
        key (xs ! p) \<le> key (xs ! j))"

lemma smallest_is_least:
  assumes "lt = (\<lambda>a b. key a < (key b :: 'k::linorder))" "j \<in> {i, 2 * i + 1, 2 * i + 2}" "j < length heap"
  shows "key (heap ! smallest lt heap i) \<le> key (heap ! j)"
  using assms by (auto simp: smallest_def Let_def not_less)

lemma sift_down_step:
  assumes lt: "lt = (\<lambda>a b. key a < (key b :: 'k::linorder))" and but: "heap_but key m i xs" and "m \<le> i"
    and n: "n = smallest lt xs i" "n \<noteq> i"
  shows "heap_but key m n (list_swap xs i n)"
proof -
  have bounds: "i < n" "n < length xs" and child: "n \<in> {2 * i + 1, 2 * i + 2}"
    using smallest_less [of lt xs i] smallest_cases [of lt xs i] n by auto
  define ys where "ys = list_swap xs i n"
  have ys: "length ys = length xs" "ys ! i = xs ! n" "ys ! n = xs ! i"
      "\<And>k. k \<noteq> i \<Longrightarrow> k \<noteq> n \<Longrightarrow> ys ! k = xs ! k"
    using bounds by (auto simp: ys_def list_swap_def nth_list_update)
  note least = smallest_is_least [OF lt, of _ i xs, folded n(1)]
  have "key (ys ! p) \<le> key (ys ! j)"
    if "m \<le> p" "p \<noteq> n" "j \<in> {2 * p + 1, 2 * p + 2}" "j < length ys" for p j
  proof (cases "p = i")
    case True
    with that ys least [of j] least [of i] bounds show ?thesis by (cases "j = n") auto
  next
    case False
    with child that have j: "j \<noteq> n" by auto
    show ?thesis
    proof (cases "j = i")
      case True
      with but False child bounds that have "key (xs ! p) \<le> key (xs ! n)" by (auto simp: heap_but_def)
      with True False that ys show ?thesis by simp
    next
      case False
      with j \<open>p \<noteq> i\<close> that ys but show ?thesis by (auto simp: heap_but_def)
    qed
  qed
  moreover have "key (ys ! p) \<le> key (ys ! j)"
    if "m \<le> p" "n \<in> {2 * p + 1, 2 * p + 2}" "j \<in> {2 * n + 1, 2 * n + 2}" "j < length ys" for p j
  proof -
    have "p = i" using that(2) child by auto
    moreover have "j \<noteq> i" "j \<noteq> n" using that(3) bounds by auto
    moreover have "key (xs ! n) \<le> key (xs ! j)" using but that(3,4) bounds \<open>m \<le> i\<close> ys(1) by (auto simp: heap_but_def)
    ultimately show ?thesis using ys by simp
  qed
  ultimately show ?thesis unfolding heap_but_def ys_def by blast
qed

lemma list_swap_mset: "i < length xs \<Longrightarrow> j < length xs \<Longrightarrow> mset (list_swap xs i j) = mset xs"
  by (simp add: list_swap_def mset_swap)

lemma sift_down_correct:
  assumes "lt = (\<lambda>a b. key a < (key b :: 'k::linorder))" "heap_but key m i xs" "m \<le> i"
  shows "heap_above key m (sift_down lt xs i) \<and> mset (sift_down lt xs i) = mset xs"
  using assms
proof (induction lt xs i rule: sift_down.induct)
  case (1 lt heap i)
  let ?n = "smallest lt heap i"
  show ?case
  proof (cases "?n = i")
    case True
    have "key (heap ! p) \<le> key (heap ! j)"
      if "m \<le> p" "j \<in> {2 * p + 1, 2 * p + 2}" "j < length heap" for p j
      using that 1(3) smallest_is_least [OF 1(2), of j i heap] True by (cases "p = i") (auto simp: heap_but_def)
    with True show ?thesis by (auto simp: sift_down.simps [of lt heap i] heap_above_def)
  next
    case False
    then have b: "?n < length heap" "i < ?n" using smallest_less by blast+
    have "heap_but key m ?n (list_swap heap i ?n)"
      by (rule sift_down_step [OF 1(2) 1(3) 1(4) refl False])
    with 1(1) [OF refl False 1(2)] 1(4) b show ?thesis
      by (simp add: sift_down.simps [of lt heap i] False list_swap_mset Let_def)
  qed
qed

lemma heap_above_but: "heap_above key (Suc i) xs \<Longrightarrow> heap_but key i i xs"
  by (auto simp: heap_above_def heap_but_def)

lemma heapify_correct:
  assumes "lt = (\<lambda>a b. key a < (key b :: 'k::linorder))"
  shows "heap_above key 0 (heapify lt n) \<and> mset (heapify lt n) = mset [0..<n]"
proof -
  have "heap_above key (n div 2 - k) (fold (\<lambda>i heap. sift_down lt heap i) (take k (rev [0..<n div 2])) [0..<n]) \<and>
      mset (fold (\<lambda>i heap. sift_down lt heap i) (take k (rev [0..<n div 2])) [0..<n]) = mset [0..<n]"
    if "k \<le> n div 2" for k
    using that
  proof (induction k)
    case 0
    show ?case by (auto simp: heap_above_def)
  next
    case (Suc k)
    let ?xs = "fold (\<lambda>i heap. sift_down lt heap i) (take k (rev [0..<n div 2])) [0..<n]"
    have next_i: "take (Suc k) (rev [0..<n div 2]) = take k (rev [0..<n div 2]) @ [n div 2 - Suc k]"
      using Suc.prems by (simp add: take_Suc_conv_app_nth rev_nth)
    have "heap_but key (n div 2 - Suc k) (n div 2 - Suc k) ?xs"
      using Suc by (intro heap_above_but) (simp add: Suc_diff_Suc)
    from sift_down_correct [OF assms this] Suc show ?case by (simp add: next_i)
  qed
  from this [of "n div 2"] show ?thesis by (simp add: heapify_def)
qed

lemma heap_root_least:
  assumes "heap_above key 0 xs" "j < length xs"
  shows "key (xs ! 0) \<le> key (xs ! j)"
  using assms(2)
proof (induction j rule: less_induct)
  case (less j)
  show ?case
  proof (cases "j = 0")
    case False
    define p where "p = (j - 1) div 2"
    have "p < j" "j \<in> {2 * p + 1, 2 * p + 2}" using False by (auto simp: p_def)
    with assms(1) less have "key (xs ! p) \<le> key (xs ! j)" "key (xs ! 0) \<le> key (xs ! p)"
      by (auto simp: heap_above_def)
    then show ?thesis by order
  qed simp
qed

text \<open>Only the root's key changed, or the last element took the root's place.\<close>

lemma heap_root_changed:
  assumes "heap_above key 0 xs" "\<forall>k. 0 < k \<and> k < length xs \<longrightarrow> key' (xs ! k) = key (xs ! k)"
  shows "heap_but key' 0 0 xs"
  using assms by (auto simp: heap_above_def heap_but_def)

lemma heap_popped:
  assumes "heap_above key 0 xs" "xs \<noteq> []" "\<forall>k. 0 < k \<and> k < length xs \<longrightarrow> key' (xs ! k) = key (xs ! k)"
  shows "heap_but key' 0 0 (butlast (list_swap xs 0 (length xs - 1)))"
proof -
  have "butlast (list_swap xs 0 (length xs - 1)) ! k = xs ! k" if "0 < k" "k < length xs - 1" for k
    using that by (simp add: nth_butlast list_swap_def nth_list_update)
  with assms(1,3) show ?thesis by (auto simp: heap_above_def heap_but_def list_swap_def)
qed

lemma mset_popped:
  assumes "xs \<noteq> []"
  shows "mset (butlast (list_swap xs 0 (length xs - 1))) = mset xs - {#xs ! 0#}"
proof -
  let ?ys = "list_swap xs 0 (length xs - 1)"
  have "?ys \<noteq> []" "last ?ys = xs ! 0" using assms by (auto simp: list_swap_def last_conv_nth nth_list_update)
  then have "mset ?ys = mset (butlast ?ys) + {#xs ! 0#}" 
    by (metis append_butlast_last_id mset_append mset.simps add_mset_add_single empty_neutral(1))
  moreover have "mset ?ys = mset xs" using assms by (simp add: list_swap_mset)
  ultimately show ?thesis by (metis add_diff_cancel_right')
qed

end
