(* ===== verification/Orc_Merge.thy ===== *)
theory Orc_Merge
  imports Orc_Heap Orc_Buffer Orc_Codec
begin

text \<open>
  Sorting a flush's records within a memory budget (\<open>src/src/flush/merge.rs\<close>): the in-memory batch,
  run files, and the bounded k-way merge.

  A closure that changes what it captured becomes a function that takes the captured value and
  returns the new one; when it fails the value is gone, as it is dropped in the source. A buffered
  run writer dropped by a failure may still write part of its buffer to its run file, which
  nobody reads afterwards; that write is left out.
\<close>

section \<open>Records in memory\<close>

definition RUNS_DIR :: rstr where "RUNS_DIR = lit ''runs''"
definition RUN_BUF_BYTES :: nat where "RUN_BUF_BYTES = 256 * 1024"
definition ARRIVAL_BYTES :: nat where "ARRIVAL_BYTES = 16"
definition runs_dir :: path where "runs_dir = [RUNS_DIR]"

definition corrupt_run :: "string \<Rightarrow> IoError" where
  "corrupt_run what = IoOther (''run file: '' @ what)"

type_synonym GroupKey = "rstr \<times> u32"

record MemEntry =
  me_ts :: u64
  me_arrival :: "u64 \<times> u64"
  me_frame :: nat
  me_frame_len :: u32
  me_group :: u32
  me_id_off :: u16
  me_id_len :: u16

record Batch =
  arena :: bytes
  entries :: "MemEntry list"
  groups :: "GroupKey list"
  deduplicated :: nat

definition batch_default :: Batch where
  "batch_default = \<lparr>arena = [], entries = [], groups = [], deduplicated = 0\<rparr>"

fun position :: "('a \<Rightarrow> bool) \<Rightarrow> 'a list \<Rightarrow> nat option" where
  "position P [] = None"
| "position P (x # xs) = (if P x then Some 0 else map_option Suc (position P xs))"

definition intern :: "GroupKey \<Rightarrow> Batch \<Rightarrow> u32 \<times> Batch" where
  "intern g b =
     (if entries b \<noteq> [] \<and> groups b ! unat (me_group (last (entries b))) = g
      then (me_group (last (entries b)), b)
      else case position (\<lambda>k. k = g) (groups b) of
             Some i \<Rightarrow> (of_nat i, b)
           | None \<Rightarrow> (of_nat (length (groups b)), b\<lparr>groups := groups b @ [g]\<rparr>))"

text \<open>The id is a subslice of the frame: its offset and length there.\<close>

definition batch_push ::
  "GroupKey \<Rightarrow> u64 \<Rightarrow> nat \<Rightarrow> nat \<Rightarrow> u64 \<times> u64 \<Rightarrow> bytes \<Rightarrow> Batch \<Rightarrow> Batch" where
  "batch_push g ts id_off id_len arrival frame b =
     (let (gi, b') = intern g b;
          entry = \<lparr>me_ts = ts, me_arrival = arrival, me_frame = length (arena b),
                   me_frame_len = of_nat (length frame), me_group = gi,
                   me_id_off = of_nat id_off, me_id_len = of_nat id_len\<rparr> in
      b'\<lparr>arena := arena b @ frame, entries := entries b' @ [entry]\<rparr>)"

definition MEM_ENTRY_BYTES :: nat where "MEM_ENTRY_BYTES = 48"

definition batch_bytes :: "Batch \<Rightarrow> nat" where
  "batch_bytes b = length (arena b) + length (entries b) * MEM_ENTRY_BYTES"

definition entry_id :: "bytes \<Rightarrow> MemEntry \<Rightarrow> bytes" where
  "entry_id ar e =
     (let start = me_frame e + unat (me_id_off e) in slice start (start + unat (me_id_len e)) ar)"

definition entry_frame :: "bytes \<Rightarrow> MemEntry \<Rightarrow> bytes" where
  "entry_frame ar e = slice (me_frame e) (me_frame e + unat (me_frame_len e)) ar"

text \<open>The position of every group in the order of the group keys.\<close>

definition group_order :: "GroupKey list \<Rightarrow> nat list" where
  "group_order gs =
     (let rank = sort_key (\<lambda>g. gs ! g) [0..<length gs] in
      fold (\<lambda>(pos, g) order. order[g := pos]) (enumerate 0 rank) (replicate (length gs) 0))"

definition sort_entry_key :: "Batch \<Rightarrow> MemEntry \<Rightarrow> nat \<times> u64 \<times> bytes \<times> u64 \<times> u64" where
  "sort_entry_key b e =
     (group_order (groups b) ! unat (me_group e), me_ts e, entry_id (arena b) e, me_arrival e)"

definition batch_sort :: "Batch \<Rightarrow> Batch" where
  "batch_sort b =
     (let sorted_entries = sort_key (sort_entry_key b) (entries b);
          kept = dedup_by (\<lambda>later first.
             me_group later = me_group first \<and> me_ts later = me_ts first \<and>
             entry_id (arena b) later = entry_id (arena b) first) sorted_entries in
      b\<lparr>entries := kept, deduplicated := deduplicated b + (length sorted_entries - length kept)\<rparr>)"

text \<open>Each group's contiguous range of entries, from \<open>start\<close> on.\<close>

function ranges_from :: "MemEntry list \<Rightarrow> GroupKey list \<Rightarrow> nat \<Rightarrow> (GroupKey \<times> nat \<times> nat) list" where
  "ranges_from es gs start =
     (if length es \<le> start then []
      else let g = me_group (es ! start);
               len = (case position (\<lambda>e. me_group e \<noteq> g) (drop start es) of
                        None \<Rightarrow> length es - start | Some n \<Rightarrow> n) in
           (gs ! unat g, start, start + len) # ranges_from es gs (start + len))"
  by auto
termination
  by (relation "measure (\<lambda>(es, _, start). length es - start)")
    (auto simp: Cons_nth_drop_Suc [symmetric] split: option.splits if_splits)

declare ranges_from.simps [simp del]

definition group_ranges :: "Batch \<Rightarrow> (GroupKey \<times> nat \<times> nat) list" where
  "group_ranges b = ranges_from (entries b) (groups b) 0"

section \<open>Sources\<close>

record Head =
  hd_ts :: u64
  hd_id :: bytes
  hd_arrival :: "u64 \<times> u64"
  hd_frame :: bytes

definition head_key :: "Head \<Rightarrow> u64 \<times> bytes \<times> u64 \<times> u64" where
  "head_key h = (hd_ts h, hd_id h, hd_arrival h)"

record MemRun =
  mr_arena :: bytes
  mr_entries :: "MemEntry list"
  mr_pos :: nat

definition entry_head :: "bytes \<Rightarrow> MemEntry \<Rightarrow> Head" where
  "entry_head ar e =
     \<lparr>hd_ts = me_ts e, hd_id = entry_id ar e, hd_arrival = me_arrival e, hd_frame = entry_frame ar e\<rparr>"

definition mem_head :: "MemRun \<Rightarrow> Head" where
  "mem_head r = entry_head (mr_arena r) (mr_entries r ! mr_pos r)"

definition mem_advance :: "MemRun \<Rightarrow> ('m, MemRun \<times> bool) eio" where
  "mem_advance r =
     (let r' = r\<lparr>mr_pos := mr_pos r + 1\<rparr> in ok (r', mr_pos r' < length (mr_entries r')))"

text \<open>
  An open run file is the bytes not read yet; every read from it is a system call that may be
  refused. \<open>fetch\<close> is that call. The id is kept as its bytes instead of a range of the frame, and the
  path, used in messages only, is left out.
\<close>

record RunReader =
  rr_input :: bytes
  rr_ts :: u64
  rr_arrival :: "u64 \<times> u64"
  rr_frame :: bytes
  rr_id :: bytes

definition fetch :: "('m, unit) io" where
  "fetch = attempt (ok ())"

definition io_corrupt :: "('m, 'a) io \<Rightarrow> ('m, 'a) eio" where
  "io_corrupt m d = (case m d of (Inl _, d') \<Rightarrow> (Inl (Io (corrupt_run ''unreadable'')), d') | (Inr x, d') \<Rightarrow> (Inr x, d'))"

text \<open>The head of an entry, none at a clean end; then the rest of the frame.\<close>

definition read_exact_or_eof :: "nat \<Rightarrow> bytes \<Rightarrow> ('m, (bytes \<times> bytes) option) io" where
  "read_exact_or_eof n input =
     seq fetch (\<lambda>_.
       if input = [] then ok None
       else if length input < n then fail (IoOther ''truncated entry'')
       else ok (Some (take n input, drop n input)))"

definition read_exact :: "nat \<Rightarrow> bytes \<Rightarrow> ('m, bytes \<times> bytes) io" where
  "read_exact n input =
     seq fetch (\<lambda>_.
       if length input < n then fail (IoOther ''failed to fill whole buffer'')
       else ok (take n input, drop n input))"

definition read_next :: "RunReader \<Rightarrow> ('m, RunReader \<times> bool) eio" where
  "read_next r =
     seq (io_corrupt (read_exact_or_eof (ARRIVAL_BYTES + FRAME_HEADER_BYTES) (rr_input r))) (\<lambda>got.
       case got of
         None \<Rightarrow> ok (r, False)
       | Some (entry, rest) \<Rightarrow>
           let seg = from_le (slice 0 8 entry); off = from_le (slice 8 16 entry);
               len = unat (from_le (slice 16 20 entry) :: u32) in
           seq (io_corrupt (read_exact len rest)) (\<lambda>(payload, rest').
             let frame = drop ARRIVAL_BYTES entry @ payload in
             case verified_sort_key frame of
               Inl _ \<Rightarrow> fail (Io (corrupt_run ''undecodable entry''))
             | Inr (ts, i, _) \<Rightarrow>
                 ok (\<lparr>rr_input = rest', rr_ts = ts, rr_arrival = (seg, off), rr_frame = frame, rr_id = i\<rparr>, True)))"

definition run_open :: "path \<Rightarrow> ('m, RunReader option) eio" where
  "run_open p =
     seq (lift_io (fs_read p)) (\<lambda>bs.
     seq (read_next \<lparr>rr_input = bs, rr_ts = 0, rr_arrival = (0, 0), rr_frame = [], rr_id = []\<rparr>) (\<lambda>(r, again).
       ok (if again then Some r else None)))"

definition run_head :: "RunReader \<Rightarrow> Head" where
  "run_head r = \<lparr>hd_ts = rr_ts r, hd_id = rr_id r, hd_arrival = rr_arrival r, hd_frame = rr_frame r\<rparr>"

definition run_advance :: "RunReader \<Rightarrow> ('m, RunReader \<times> bool) eio" where
  "run_advance r = read_next r"

text \<open>\<open>BoxedSource\<close>: the two implementations of the trait.\<close>

datatype Src = MemSource MemRun | RunSource RunReader

fun src_head :: "Src \<Rightarrow> Head" where
  "src_head (MemSource r) = mem_head r"
| "src_head (RunSource r) = run_head r"

fun src_advance :: "Src \<Rightarrow> ('m, Src \<times> bool) eio" where
  "src_advance (MemSource r) = seq (mem_advance r) (\<lambda>(r', again). ok (MemSource r', again))"
| "src_advance (RunSource r) = seq (run_advance r) (\<lambda>(r', again). ok (RunSource r', again))"

section \<open>Run files\<close>

record RunWriter =
  rw_out :: BufWriter
  rw_entries :: nat

definition run_create :: "path \<Rightarrow> ('m, RunWriter) eio" where
  "run_create p =
     seq (lift_io (fs_create p)) (\<lambda>_. ok \<lparr>rw_out = buf_new RUN_BUF_BYTES p, rw_entries = 0\<rparr>)"

definition buf_io :: "('m, unit) buffered \<Rightarrow> BufWriter \<Rightarrow> ('m, BufWriter) eio" where
  "buf_io m w d = (case m (w, d) of (Inl e, (_, d')) \<Rightarrow> (Inl (Io e), d') | (Inr _, (w', d')) \<Rightarrow> (Inr w', d'))"

definition run_push :: "u64 \<times> u64 \<Rightarrow> bytes \<Rightarrow> RunWriter \<Rightarrow> ('m, RunWriter) eio" where
  "run_push arrival frame w =
     seq (buf_io (buf_write_all (le64 (fst arrival))) (rw_out w)) (\<lambda>o1.
     seq (buf_io (buf_write_all (le64 (snd arrival))) o1) (\<lambda>o2.
     seq (buf_io (buf_write_all frame) o2) (\<lambda>o3.
     ok \<lparr>rw_out = o3, rw_entries = rw_entries w + 1\<rparr>)))"

definition run_finish :: "RunWriter \<Rightarrow> ('m, nat) eio" where
  "run_finish w = seq (buf_io flush_buf (rw_out w)) (\<lambda>_. ok (rw_entries w))"

definition spill_group ::
  "Batch \<Rightarrow> ('n \<Rightarrow> path \<times> 'n) \<Rightarrow> GroupKey \<times> nat \<times> nat \<Rightarrow> (GroupKey \<times> path) list \<times> 'n \<Rightarrow>
     ('m, (GroupKey \<times> path) list \<times> 'n) eio" where
  "spill_group b next_path = (\<lambda>(key, lo, hi) (out, n).
     let (p, n') = next_path n in
     seq (run_create p) (\<lambda>w.
     seq (fold_io (\<lambda>e. run_push (me_arrival e) (entry_frame (arena b) e)) (slice lo hi (entries b)) w) (\<lambda>w'.
     seq (run_finish w') (\<lambda>_. ok (out @ [(key, p)], n')))))"

definition batch_spill ::
  "('n \<Rightarrow> path \<times> 'n) \<Rightarrow> Batch \<Rightarrow> 'n \<Rightarrow> ('m, (GroupKey \<times> path) list \<times> Batch \<times> 'n) eio" where
  "batch_spill next_path b n =
     (let b' = batch_sort b in
      seq (fold_io (spill_group b' next_path) (group_ranges b') ([], n)) (\<lambda>(out, n').
        ok (out, b'\<lparr>arena := [], entries := [], groups := []\<rparr>, n')))"

definition into_sources :: "Batch \<Rightarrow> (GroupKey \<times> MemRun) list \<times> Batch" where
  "into_sources b =
     (let b' = batch_sort b in
      (map (\<lambda>(key, lo, hi). (key, \<lparr>mr_arena = arena b', mr_entries = slice lo hi (entries b'), mr_pos = 0\<rparr>))
         (group_ranges b'), b'))"

section \<open>The merge\<close>

record MergeStats =
  ms_emitted :: nat
  ms_deduplicated :: nat

definition stats_default :: MergeStats where
  "stats_default = \<lparr>ms_emitted = 0, ms_deduplicated = 0\<rparr>"

definition src_less :: "Src list \<Rightarrow> nat \<Rightarrow> nat \<Rightarrow> bool" where
  "src_less sources a b \<longleftrightarrow> head_key (src_head (sources ! a)) < head_key (src_head (sources ! b))"

text \<open>What a source still has to give, for the termination of the merge.\<close>

fun src_size :: "Src \<Rightarrow> nat" where
  "src_size (MemSource r) = length (mr_entries r) - mr_pos r"
| "src_size (RunSource r) = length (rr_input r)"

lemma read_exact_Inr: "read_exact n input d = (Inr (x, rest), d') \<Longrightarrow> input = x @ rest \<and> length x = n"
  by (auto simp: read_exact_def seq_eq_Inr split: if_splits)

lemma read_exact_or_eof_Inr:
  "read_exact_or_eof n input d = (Inr (Some (x, rest)), d') \<Longrightarrow> input = x @ rest \<and> length x = n"
  by (auto simp: read_exact_or_eof_def seq_eq_Inr split: if_splits)

lemma io_corrupt_Inr: "io_corrupt m d = (Inr x, d') \<longleftrightarrow> m d = (Inr x, d')"
  by (auto simp: io_corrupt_def split: prod.splits sum.splits)

text \<open>What a successful \<open>read_next\<close> has read.\<close>

definition entry_of :: "bytes \<Rightarrow> bytes \<Rightarrow> RunReader \<Rightarrow> bool" where
  "entry_of entry payload r \<longleftrightarrow>
     length entry = ARRIVAL_BYTES + FRAME_HEADER_BYTES \<and>
     length payload = unat (from_le (slice 16 20 entry) :: u32) \<and>
     rr_arrival r = (from_le (slice 0 8 entry), from_le (slice 8 16 entry)) \<and>
     rr_frame r = drop ARRIVAL_BYTES entry @ payload \<and>
     (\<exists>n. verified_sort_key (rr_frame r) = Inr (rr_ts r, rr_id r, n))"

lemma read_next_Inr:
  assumes "read_next r d = (Inr (r', again), d')"
  shows "(\<not> again \<longrightarrow> r' = r \<and> rr_input r = []) \<and>
    (again \<longrightarrow> (\<exists>entry payload. rr_input r = entry @ payload @ rr_input r' \<and> entry_of entry payload r'))"
proof -
  from assms obtain got d1 where got: "read_exact_or_eof (ARRIVAL_BYTES + FRAME_HEADER_BYTES) (rr_input r) d = (Inr got, d1)"
    by (auto simp: read_next_def seq_eq_Inr io_corrupt_Inr)
  show ?thesis
  proof (cases got)
    case None
    with got have "rr_input r = []" by (auto simp: read_exact_or_eof_def seq_eq_Inr split: if_splits)
    with assms got None show ?thesis by (auto simp: read_next_def seq_eq_Inr io_corrupt_Inr)
  next
    case (Some er)
    then obtain entry rest where er: "got = Some (entry, rest)" by (cases er) auto
    let ?len = "unat (from_le (slice 16 20 entry) :: u32)"
    obtain payload rest' d2 where payload: "read_exact ?len rest d1 = (Inr (payload, rest'), d2)"
      and r': "(case verified_sort_key (drop ARRIVAL_BYTES entry @ payload) of
          Inl _ \<Rightarrow> fail (Io (corrupt_run ''undecodable entry''))
        | Inr (ts, i, _) \<Rightarrow> ok (\<lparr>rr_input = rest', rr_ts = ts,
            rr_arrival = (from_le (slice 0 8 entry), from_le (slice 8 16 entry)),
            rr_frame = drop ARRIVAL_BYTES entry @ payload, rr_id = i\<rparr>, True)) d2 = (Inr (r', again), d')"
      using assms got er by (auto simp: read_next_def seq_eq_Inr io_corrupt_Inr Let_def)
    then obtain ts i n where "verified_sort_key (drop ARRIVAL_BYTES entry @ payload) = Inr (ts, i, n)"
      "again" "r' = \<lparr>rr_input = rest', rr_ts = ts,
            rr_arrival = (from_le (slice 0 8 entry), from_le (slice 8 16 entry)),
            rr_frame = drop ARRIVAL_BYTES entry @ payload, rr_id = i\<rparr>"
      by (cases "verified_sort_key (drop ARRIVAL_BYTES entry @ payload)") auto
    with read_exact_or_eof_Inr [OF got [unfolded er]] read_exact_Inr [OF payload] show ?thesis
      by (auto simp: entry_of_def)
  qed
qed

lemma read_next_shrinks:
  assumes "read_next r d = (Inr (r', again), d')"
  shows "length (rr_input r') \<le> length (rr_input r) \<and> (again \<longrightarrow> length (rr_input r') < length (rr_input r))"
  using read_next_Inr [OF assms]
  by (cases again) (auto simp: entry_of_def ARRIVAL_BYTES_def)

lemma src_advance_shrinks:
  assumes "src_advance s d = (Inr (s', again), d')"
  shows "src_size s' \<le> src_size s \<and> (again \<longrightarrow> src_size s' < src_size s)"
  using assms
  by (cases s) (auto simp: seq_eq_Inr mem_advance_def Let_def run_advance_def dest: read_next_shrinks)

lemma sum_list_update_nat: "i < length xs \<Longrightarrow> sum_list (xs[i := x]) + xs ! i = sum_list xs + (x :: nat)"
  by (induction xs arbitrary: i) (auto split: nat.split)

lemma length_sift_down [simp]: "length (sift_down lt heap i) = length heap"
  by (induction lt heap i rule: sift_down.induct) (subst sift_down.simps, auto simp: Let_def list_swap_def)

lemma merge_shrinks:
  assumes "src_advance (sources ! root) d = (Inr (src, again), d')" "root < length sources" "heap \<noteq> []"
  shows "sum_list (map src_size (sources[root := src])) +
      length (if again then heap else butlast (list_swap heap 0 (length heap - 1)))
    < sum_list (map src_size sources) + length heap"
proof -
  have "src_size src \<le> src_size (sources ! root)" "again \<Longrightarrow> src_size src < src_size (sources ! root)"
    using src_advance_shrinks [OF assms(1)] by auto
  moreover have "sum_list (map src_size (sources[root := src])) + src_size (sources ! root) =
      sum_list (map src_size sources) + src_size src"
    using sum_list_update_nat [of root "map src_size sources" "src_size src"] assms(2) by (simp add: map_update)
  moreover have "0 < length heap" using assms(3) by simp
  ultimately show ?thesis by (cases again) (simp_all add: list_swap_def del: length_greater_0_conv)
qed

text \<open>
  The heap holds indices of sources, the keys stay in the sources. An index outside the sources
  would panic; the heap never holds one.
\<close>

function merge_loop ::
  "(Head \<Rightarrow> 'w \<Rightarrow> ('m, 'w) eio) \<Rightarrow> Src list \<Rightarrow> nat list \<Rightarrow> (u64 \<times> bytes) option \<Rightarrow> MergeStats \<Rightarrow> 'w \<Rightarrow>
     ('m, MergeStats \<times> 'w) eio" where
  "merge_loop sink sources heap last_key stats w d =
     (case heap of
        [] \<Rightarrow> (Inr (stats, w), d)
      | root # _ \<Rightarrow>
          if length sources \<le> root then (Inl (Io (IoOther ''index out of bounds'')), d)
          else
            let h = src_head (sources ! root);
                duplicate = (last_key = Some (hd_ts h, hd_id h)) in
            case (if duplicate then (Inr w, d) else sink h w d) of
              (Inl e, d1) \<Rightarrow> (Inl e, d1)
            | (Inr w1, d1) \<Rightarrow>
                let stats' = (if duplicate then stats\<lparr>ms_deduplicated := ms_deduplicated stats + 1\<rparr>
                              else stats\<lparr>ms_emitted := ms_emitted stats + 1\<rparr>);
                    last' = (if duplicate then last_key else Some (hd_ts h, hd_id h)) in
                (case src_advance (sources ! root) d1 of
                   (Inl e, d2) \<Rightarrow> (Inl e, d2)
                 | (Inr (src, again), d2) \<Rightarrow>
                     let sources' = sources[root := src];
                         heap' = (if again then heap else butlast (list_swap heap 0 (length heap - 1))) in
                     merge_loop sink sources' (sift_down (src_less sources') heap' 0) last' stats' w1 d2))"
  by pat_completeness auto
termination
  by (relation "measure (\<lambda>(_, sources, heap, _). sum_list (map src_size sources) + length heap)")
    (auto simp del: length_Cons length_butlast simp: not_le dest!: sym [of "(Inr (_, _), _)"] dest: merge_shrinks)

declare merge_loop.simps [simp del]

definition merge :: "(Head \<Rightarrow> 'w \<Rightarrow> ('m, 'w) eio) \<Rightarrow> Src list \<Rightarrow> 'w \<Rightarrow> ('m, MergeStats \<times> 'w) eio" where
  "merge sink sources w =
     merge_loop sink sources (heapify (src_less sources) (length sources)) None stats_default w"

section \<open>The merge with a bounded number of open sources\<close>

text \<open>The size of a file as far as it can be read off, \<open>metadata(p).map_or(0, ..)\<close>.\<close>

definition run_size :: "path \<Rightarrow> ('m, nat) eio" where
  "run_size p d =
     (case attempt (on_file p (\<lambda>bs. ok (length bs))) d of
        (Inl _, d') \<Rightarrow> (Inr 0, d')
      | (Inr n, d') \<Rightarrow> (Inr n, d'))"

fun with_sizes :: "path list \<Rightarrow> ('m, (nat \<times> path) list) eio" where
  "with_sizes [] = ok []"
| "with_sizes (p # ps) = seq (run_size p) (\<lambda>n. seq (with_sizes ps) (\<lambda>rest. ok ((n, p) # rest)))"

definition sort_by_size :: "path list \<Rightarrow> ('m, path list) eio" where
  "sort_by_size runs = seq (with_sizes runs) (\<lambda>sized. ok (map snd (sort_key fst sized)))"

definition open_runs :: "path list \<Rightarrow> ('m, Src list) eio" where
  "open_runs runs =
     fold_io (\<lambda>p out. seq (run_open p) (\<lambda>r.
       ok (case r of None \<Rightarrow> out | Some r' \<Rightarrow> out @ [RunSource r']))) runs []"

text \<open>One round: the smallest \<open>taken\<close> runs become one; their files are removed as far as possible.\<close>

definition merge_into :: "path \<Rightarrow> path list \<Rightarrow> ('m, MergeStats) eio" where
  "merge_into p batch =
     seq (run_create p) (\<lambda>out.
     seq (open_runs batch) (\<lambda>sources.
     seq (merge (\<lambda>h. run_push (hd_arrival h) (hd_frame h)) sources out) (\<lambda>(stats, out').
     seq (run_finish out') (\<lambda>_. ok stats))))"

definition runs_taken :: "nat \<Rightarrow> nat \<Rightarrow> nat \<Rightarrow> nat" where
  "runs_taken n in_memory fan_in = min (n + in_memory - fan_in + 1) fan_in"

definition merge_pass ::
  "nat \<Rightarrow> nat \<Rightarrow> ('n \<Rightarrow> path \<times> 'n) \<Rightarrow> path list \<Rightarrow> 'n \<Rightarrow> ('m, path list \<times> 'n \<times> nat) eio" where
  "merge_pass fan_in in_memory next_run runs n =
     (let taken = runs_taken (length runs) in_memory fan_in; (p, n') = next_run n in
      seq (sort_by_size runs) (\<lambda>by_size.
      seq (merge_into p (take taken by_size)) (\<lambda>stats.
      seq (for_each (\<lambda>q. seq (best_effort (fs_remove q)) (\<lambda>_. ok ())) (take taken by_size)) (\<lambda>_.
      ok (drop taken by_size @ [p], n', ms_deduplicated stats)))))"

lemma with_sizes_Inr: "with_sizes ps d = (Inr sized, d') \<Longrightarrow> map snd sized = ps"
  by (induction ps arbitrary: d sized d') (auto simp: seq_eq_Inr)

lemma sort_by_size_Inr: "sort_by_size ps d = (Inr qs, d') \<Longrightarrow> mset qs = mset ps"
  by (auto simp: sort_by_size_def seq_eq_Inr dest!: with_sizes_Inr)

lemma merge_pass_shrinks:
  assumes "merge_pass fan_in in_memory next_run runs n d = (Inr (runs', n', k), d')"
    "in_memory \<le> 1" "2 \<le> fan_in" "fan_in < length runs + in_memory"
  shows "length runs' < length runs"
proof -
  from assms(1) obtain by_size p d1 where "sort_by_size runs d = (Inr by_size, d1)"
    "runs' = drop (runs_taken (length runs) in_memory fan_in) by_size @ [p]"
    by (cases "next_run n") (auto simp: merge_pass_def Let_def seq_eq_Inr)
  moreover from this have "length by_size = length runs" by (metis sort_by_size_Inr size_mset)
  ultimately show ?thesis using assms(2-) by (simp add: runs_taken_def min_def) linarith
qed

text \<open>
  \<open>in_memory\<close> says whether a source in memory takes one of the \<open>fan_in\<close> places; \<open>fan_in.max(2)\<close> is
  what the loop runs with.
\<close>

function merge_down ::
  "nat \<Rightarrow> bool \<Rightarrow> ('n \<Rightarrow> path \<times> 'n) \<Rightarrow> path list \<Rightarrow> 'n \<Rightarrow> nat \<Rightarrow> ('m, path list \<times> 'n \<times> nat) eio" where
  "merge_down fan_in in_memory next_run runs n dropped d =
     (if length runs + of_bool in_memory \<le> max 2 fan_in then (Inr (runs, n, dropped), d)
      else case merge_pass (max 2 fan_in) (of_bool in_memory) next_run runs n d of
             (Inl e, d1) \<Rightarrow> (Inl e, d1)
           | (Inr (runs', n', k), d1) \<Rightarrow> merge_down fan_in in_memory next_run runs' n' (dropped + k) d1)"
  by pat_completeness auto
termination
  by (relation "measure (\<lambda>(_, _, _, runs, _). length runs)")
    (auto dest!: sym [of "(Inr _, _)"] intro!: merge_pass_shrinks)

declare merge_down.simps [simp del]

definition merge_bounded ::
  "path list \<Rightarrow> Src option \<Rightarrow> nat \<Rightarrow> ('n \<Rightarrow> path \<times> 'n) \<Rightarrow> (Head \<Rightarrow> 'w \<Rightarrow> ('m, 'w) eio) \<Rightarrow> 'n \<Rightarrow> 'w \<Rightarrow>
     ('m, MergeStats \<times> 'n \<times> 'w) eio" where
  "merge_bounded runs memory fan_in next_run sink n w =
     seq (merge_down fan_in (memory \<noteq> None) next_run runs n 0) (\<lambda>(runs', n', dropped).
     seq (open_runs runs') (\<lambda>sources.
     seq (merge sink (sources @ (case memory of None \<Rightarrow> [] | Some s \<Rightarrow> [s])) w) (\<lambda>(stats, w').
     ok (stats\<lparr>ms_deduplicated := ms_deduplicated stats + dropped\<rparr>, n', w'))))"

end
