(* ===== verification/Orc_Parquet.thy ===== *)
theory Orc_Parquet
  imports Orc_Config Orc_Codec_Laws Orc_Disk Orc_Wal
begin

text \<open>
  Column building and output files (\<open>src/src/flush/parquet.rs\<close>): rows are taken apart into columns,
  cut into row groups and handed to the \<open>parquet\<close> package, either from one set of columns
  (\<open>write_file\<close>, the reference) or row by row (\<open>PartitionWriter\<close>, what the flush uses).

  The package is a parameter: a type builder that may refuse, and a file writer with a state of its
  own that turns the chunks of a row group into bytes of the file. Every call that writes is one
  \<open>write\<close> on the file.
\<close>

section \<open>The schema\<close>

datatype PhysicalType = BOOLEAN | INT64 | DOUBLE | BYTE_ARRAY
datatype Repetition = REQUIRED | OPTIONAL | REPEATED
datatype LogicalType = LTimestampMicros | LString | LMap

datatype PqType =
    Primitive rstr PhysicalType Repetition "LogicalType option"
  | Group rstr "Repetition option" "LogicalType option" "PqType list"

datatype Compression = LZ4_RAW | UNCOMPRESSED

text \<open>
  What the builder sets: codec, columns without dictionary, delta-encoded columns, columns without
  statistics, the sorting column (index, descending, nulls first) and the key-value metadata.
\<close>

record WriterProps =
  wp_compression :: Compression
  wp_no_dictionary :: "rstr list"
  wp_delta :: "rstr list"
  wp_no_statistics :: "rstr list"
  wp_sorting :: "nat \<times> bool \<times> bool"
  wp_metadata :: "(rstr \<times> rstr) list"

text \<open>The arguments of the column writers: values, definition levels, repetition levels.\<close>

datatype Chunk =
    BoolChunk "bool list" "int list option"
  | Int64Chunk "u64 list" "int list option"
  | DoubleChunk "u64 list" "int list option"
  | BytesChunk "bytes list" "int list option" "int list option"

record 's Parquet =
  pq_build :: "PqType \<Rightarrow> string + PqType"
  pq_open :: "PqType \<Rightarrow> WriterProps \<Rightarrow> string + ('s \<times> bytes)"
  pq_group :: "'s \<Rightarrow> Chunk list \<Rightarrow> string + ('s \<times> bytes)"
  pq_close :: "'s \<Rightarrow> string + bytes"

definition EPOCH_META_KEY :: rstr where "EPOCH_META_KEY = lit ''orc.schema_epoch''"
definition SERIES_META_KEY :: rstr where "SERIES_META_KEY = lit ''orc.series''"
definition TS_COLUMN_IDX :: nat where "TS_COLUMN_IDX = 0"

definition pq_err :: "string \<Rightarrow> string + 'a \<Rightarrow> Error + 'a" where
  "pq_err what r = (case r of Inl _ \<Rightarrow> Inl (Config what) | Inr x \<Rightarrow> Inr x)"

abbreviation schema_err :: "string + 'a \<Rightarrow> Error + 'a" where
  "schema_err \<equiv> pq_err ''building parquet schema''"

definition utf8 :: "'s Parquet \<Rightarrow> rstr \<Rightarrow> Repetition \<Rightarrow> Error + PqType" where
  "utf8 pq name rep = schema_err (pq_build pq (Primitive name BYTE_ARRAY rep (Some LString)))"

definition physical_type :: "KeyType \<Rightarrow> PhysicalType" where
  "physical_type ty = (case ty of KBool \<Rightarrow> BOOLEAN | KI64 \<Rightarrow> INT64 | KF64 \<Rightarrow> DOUBLE | KStr \<Rightarrow> BYTE_ARRAY)"

definition key_field :: "'s Parquet \<Rightarrow> KeyDef \<Rightarrow> Error + PqType" where
  "key_field pq k =
     (if key_ty k = KStr then utf8 pq (key_name k) OPTIONAL
      else schema_err (pq_build pq (Primitive (key_name k) (physical_type (key_ty k)) OPTIONAL None)))"

fun key_fields :: "'s Parquet \<Rightarrow> KeyDef list \<Rightarrow> Error + PqType list" where
  "key_fields pq [] = Inr []"
| "key_fields pq (k # ks) = rbind (key_field pq k) (\<lambda>t. rbind (key_fields pq ks) (\<lambda>ts. Inr (t # ts)))"

definition parquet_schema :: "'s Parquet \<Rightarrow> KeyDef list \<Rightarrow> Error + PqType" where
  "parquet_schema pq keys =
     rbind (schema_err (pq_build pq (Primitive (lit ''ts'') INT64 REQUIRED (Some LTimestampMicros)))) (\<lambda>ts.
     rbind (utf8 pq (lit ''id'') REQUIRED) (\<lambda>i.
     rbind (key_fields pq keys) (\<lambda>ks.
     rbind (utf8 pq (lit ''key'') REQUIRED) (\<lambda>key.
     rbind (utf8 pq (lit ''value'') OPTIONAL) (\<lambda>val.
     rbind (schema_err (pq_build pq (Group (lit ''key_value'') (Some REPEATED) None [key, val]))) (\<lambda>key_value.
     rbind (schema_err (pq_build pq (Group (lit ''extra'') (Some REQUIRED) (Some LMap) [key_value]))) (\<lambda>extra.
     rbind (utf8 pq (lit ''data'') REQUIRED) (\<lambda>data.
     schema_err (pq_build pq (Group (lit ''orc'') None None ([ts, i] @ ks @ [extra, data])))))))))))"

section \<open>Columns\<close>

record StrColumn =
  sc_bytes :: bytes
  sc_ends :: "nat list"

definition str_column_default :: StrColumn where
  "str_column_default = \<lparr>sc_bytes = [], sc_ends = []\<rparr>"

definition str_push :: "rstr \<Rightarrow> StrColumn \<Rightarrow> StrColumn" where
  "str_push s c = \<lparr>sc_bytes = sc_bytes c @ s, sc_ends = sc_ends c @ [length (sc_bytes c @ s)]\<rparr>"

definition str_start :: "StrColumn \<Rightarrow> nat \<Rightarrow> nat" where
  "str_start c i = (if i = 0 then 0 else sc_ends c ! (i - 1))"

text \<open>The values of a range, as slices of one buffer that holds them all.\<close>

definition str_arrays :: "StrColumn \<Rightarrow> nat \<Rightarrow> nat \<Rightarrow> bytes list" where
  "str_arrays c lo hi =
     (if hi \<le> lo then []
      else let base = str_start c lo;
               shared = slice base (sc_ends c ! (hi - 1)) (sc_bytes c) in
           map (\<lambda>i. slice (str_start c i - base) (sc_ends c ! i - base) shared) [lo..<hi])"

datatype Values = BoolValues "bool list" | I64Values "u64 list" | F64Values "u64 list" | StrValues StrColumn

record KeyColumn =
  kc_vals :: Values
  kc_defs :: "int list"

definition key_column_new :: "KeyType \<Rightarrow> KeyColumn" where
  "key_column_new ty =
     \<lparr>kc_vals = (case ty of KBool \<Rightarrow> BoolValues [] | KI64 \<Rightarrow> I64Values [] | KF64 \<Rightarrow> F64Values []
        | KStr \<Rightarrow> StrValues str_column_default),
      kc_defs = []\<rparr>"

definition column_key_type :: "KeyColumn \<Rightarrow> KeyType" where
  "column_key_type c =
     (case kc_vals c of BoolValues _ \<Rightarrow> KBool | I64Values _ \<Rightarrow> KI64 | F64Values _ \<Rightarrow> KF64 | StrValues _ \<Rightarrow> KStr)"

fun push_value :: "Values \<Rightarrow> Value \<Rightarrow> Values option" where
  "push_value (BoolValues xs) (VBool x) = Some (BoolValues (xs @ [x]))"
| "push_value (I64Values xs) (VI64 x) = Some (I64Values (xs @ [x]))"
| "push_value (F64Values xs) (VF64 x) = Some (F64Values (xs @ [x]))"
| "push_value (StrValues xs) (VStr x) = Some (StrValues (str_push x xs))"
| "push_value _ _ = None"

definition key_append :: "Value \<Rightarrow> rstr \<Rightarrow> rstr \<Rightarrow> (KeyColumn, Error, unit) fallible" where
  "key_append v series key c =
     (if v = VNull then (Inr (), c\<lparr>kc_defs := kc_defs c @ [0]\<rparr>)
      else case push_value (kc_vals c) v of
             None \<Rightarrow> (Inl (TypeMismatch series key (column_key_type c) (value_key_type v)), c)
           | Some vals \<Rightarrow> (Inr (), c\<lparr>kc_vals := vals, kc_defs := kc_defs c @ [1]\<rparr>))"

record Columns =
  c_series :: rstr
  c_schema :: PqType
  c_key_names :: "rstr list"
  c_rows :: nat
  c_ts :: "u64 list"
  c_id :: StrColumn
  c_keys :: "KeyColumn list"
  c_extra_keys :: StrColumn
  c_extra_values :: StrColumn
  c_extra_counts :: "nat list"
  c_data :: StrColumn

text \<open>The row builder is its columns; the index scratch of the source keeps no information.\<close>

definition row_builder_new :: "'s Parquet \<Rightarrow> rstr \<Rightarrow> KeyDef list \<Rightarrow> Error + Columns" where
  "row_builder_new pq series key_defs =
     rbind (parquet_schema pq key_defs) (\<lambda>schema.
       Inr \<lparr>c_series = series, c_schema = schema, c_key_names = map key_name key_defs, c_rows = 0, c_ts = [],
            c_id = str_column_default, c_keys = map (\<lambda>k. key_column_new (key_ty k)) key_defs,
            c_extra_keys = str_column_default, c_extra_values = str_column_default,
            c_extra_counts = [], c_data = str_column_default\<rparr>)"

fun append_keys :: "rstr \<Rightarrow> rstr list \<Rightarrow> Value list \<Rightarrow> (KeyColumn list, Error, unit) fallible" where
  "append_keys series (n # ns) (v # vs) (k # ks) =
     (case key_append v series n k of
        (Inl e, k') \<Rightarrow> (Inl e, k' # ks)
      | (Inr _, k') \<Rightarrow> (case append_keys series ns vs ks of (r, ks') \<Rightarrow> (r, k' # ks')))"
| "append_keys series _ _ ks = (Inr (), ks)"

definition row_append ::
  "u64 \<Rightarrow> rstr \<Rightarrow> Value list \<Rightarrow> (rstr \<times> rstr) list \<Rightarrow> rstr \<Rightarrow> (Columns, Error, unit) fallible" where
  "row_append ts rid keys extra data c =
     (if length keys \<noteq> length (c_keys c)
      then (Inl (KeyArity (c_series c) (length (c_keys c)) (length keys)), c)
      else if unat ts > i64_max
      then (Inl (Config ''ts is past the largest instant Parquet can record''), c)
      else
        let c1 = c\<lparr>c_ts := c_ts c @ [ts], c_id := str_push rid (c_id c)\<rparr> in
        case append_keys (c_series c) (c_key_names c) keys (c_keys c) of
          (Inl e, ks) \<Rightarrow> (Inl e, c1\<lparr>c_keys := ks\<rparr>)
        | (Inr _, ks) \<Rightarrow>
            let kept = (if is_canonical extra then extra else map (\<lambda>i. extra ! i) (extra_order extra)) in
            (Inr (), c1\<lparr>c_keys := ks,
               c_extra_keys := fold (\<lambda>p. str_push (fst p)) kept (c_extra_keys c),
               c_extra_values := fold (\<lambda>p. str_push (snd p)) kept (c_extra_values c),
               c_extra_counts := c_extra_counts c @ [length kept],
               c_data := str_push data (c_data c), c_rows := c_rows c + 1\<rparr>))"

fun clear_values :: "Values \<Rightarrow> Values" where
  "clear_values (BoolValues _) = BoolValues []"
| "clear_values (I64Values _) = I64Values []"
| "clear_values (F64Values _) = F64Values []"
| "clear_values (StrValues _) = StrValues str_column_default"

definition row_builder_clear :: "Columns \<Rightarrow> Columns" where
  "row_builder_clear c =
     c\<lparr>c_rows := 0, c_ts := [], c_id := str_column_default,
       c_keys := map (\<lambda>k. \<lparr>kc_vals = clear_values (kc_vals k), kc_defs = []\<rparr>) (c_keys c),
       c_extra_keys := str_column_default, c_extra_values := str_column_default,
       c_extra_counts := [], c_data := str_column_default\<rparr>"

section \<open>Row groups\<close>

record MapLevels =
  ml_key_defs :: "int list"
  ml_value_defs :: "int list"
  ml_reps :: "int list"
  ml_entries :: nat

definition map_levels :: "nat list \<Rightarrow> MapLevels" where
  "map_levels counts =
     \<lparr>ml_key_defs = concat (map (\<lambda>n. if n = 0 then [0] else replicate n 1) counts),
      ml_value_defs = concat (map (\<lambda>n. if n = 0 then [0] else replicate n 2) counts),
      ml_reps = concat (map (\<lambda>n. if n = 0 then [0] else map (\<lambda>i. if i = 0 then 0 else 1) [0..<n]) counts),
      ml_entries = sum_list counts\<rparr>"

record Cursors =
  cu_keys :: "nat list"
  cu_extra :: nat

definition cursors_start :: "Columns \<Rightarrow> Cursors" where
  "cursors_start c = \<lparr>cu_keys = replicate (length (c_keys c)) 0, cu_extra = 0\<rparr>"

fun values_chunk :: "Values \<Rightarrow> nat \<Rightarrow> nat \<Rightarrow> int list \<Rightarrow> Chunk" where
  "values_chunk (BoolValues v) lo hi defs = BoolChunk (slice lo hi v) (Some defs)"
| "values_chunk (I64Values v) lo hi defs = Int64Chunk (slice lo hi v) (Some defs)"
| "values_chunk (F64Values v) lo hi defs = DoubleChunk (slice lo hi v) (Some defs)"
| "values_chunk (StrValues v) lo hi defs = BytesChunk (str_arrays v lo hi) (Some defs) None"

fun key_chunks :: "nat \<Rightarrow> nat \<Rightarrow> KeyColumn list \<Rightarrow> nat list \<Rightarrow> Chunk list \<times> nat list" where
  "key_chunks start fin (k # ks) (from # cs) =
     (let defs = slice start fin (kc_defs k);
          present = length (filter (\<lambda>d. d = 1) defs);
          (chunks, cs') = key_chunks start fin ks cs in
      (values_chunk (kc_vals k) from (from + present) defs # chunks, (from + present) # cs'))"
| "key_chunks start fin _ cs = ([], cs)"

text \<open>\<open>Columns::write_group\<close>: the chunks of rows \<open>start\<close> to \<open>fin\<close>, in the order of the schema.\<close>

definition columns_group :: "Columns \<Rightarrow> nat \<Rightarrow> nat \<Rightarrow> Cursors \<Rightarrow> Chunk list \<times> Cursors" where
  "columns_group c start fin cursors =
     (let (keys, cu) = key_chunks start fin (c_keys c) (cu_keys cursors);
          levels = map_levels (slice start fin (c_extra_counts c));
          from = cu_extra cursors; upto_entry = from + ml_entries levels;
          reps = Some (ml_reps levels) in
      ([Int64Chunk (slice start fin (c_ts c)) None, BytesChunk (str_arrays (c_id c) start fin) None None] @ keys @
       [BytesChunk (str_arrays (c_extra_keys c) from upto_entry) (Some (ml_key_defs levels)) reps,
        BytesChunk (str_arrays (c_extra_values c) from upto_entry) (Some (ml_value_defs levels)) reps,
        BytesChunk (str_arrays (c_data c) start fin) None None],
       \<lparr>cu_keys = cu, cu_extra = upto_entry\<rparr>))"

definition writer_properties :: "rstr \<Rightarrow> u32 \<Rightarrow> rstr \<Rightarrow> Error + WriterProps" where
  "writer_properties series epoch compr =
     rbind (if compr = lit ''lz4_raw'' \<or> compr = lit ''lz4'' then Inr LZ4_RAW
            else if compr = lit ''uncompressed'' \<or> compr = lit ''none'' then Inr UNCOMPRESSED
            else Inl (Config ''unsupported compression'')) (\<lambda>codec.
       Inr \<lparr>wp_compression = codec, wp_no_dictionary = [lit ''ts'', lit ''id'', lit ''data''],
            wp_delta = [lit ''ts''], wp_no_statistics = [lit ''data''],
            wp_sorting = (TS_COLUMN_IDX, False, False),
            wp_metadata = [(EPOCH_META_KEY, dec (unat epoch)), (SERIES_META_KEY, series)]\<rparr>)"

section \<open>Files\<close>

definition of_result :: "Error + 'a \<Rightarrow> ('m, 'a) eio" where
  "of_result r = (case r of Inl e \<Rightarrow> fail e | Inr x \<Rightarrow> ok x)"

definition write_bytes :: "path \<Rightarrow> Error + ('a \<times> bytes) \<Rightarrow> ('m, 'a) eio" where
  "write_bytes p r = seq (of_result r) (\<lambda>(x, bs). seq (lift_io (fs_write p bs)) (\<lambda>_. ok x))"

text \<open>The loop of \<open>write_file\<close> over the row groups, from row \<open>start\<close> on.\<close>

function write_groups ::
  "'s Parquet \<Rightarrow> path \<Rightarrow> Columns \<Rightarrow> nat \<Rightarrow> nat \<Rightarrow> Cursors \<Rightarrow> 's \<Rightarrow> ('m, 's) eio" where
  "write_groups pq p cols group_rows start cursors st d =
     (if c_rows cols \<le> start then (Inr st, d)
      else
        let fin = min (start + max 1 group_rows) (c_rows cols);
            (chunks, cursors') = columns_group cols start fin cursors in
        case write_bytes p (pq_err ''writing parquet'' (pq_group pq st chunks)) d of
          (Inl e, d1) \<Rightarrow> (Inl e, d1)
        | (Inr st', d1) \<Rightarrow> write_groups pq p cols group_rows fin cursors' st' d1)"
  by pat_completeness auto
termination
  by (relation "measure (\<lambda>(_, _, cols, _, start, _). c_rows cols - start)") auto

declare write_groups.simps [simp del]

definition close_file :: "'s Parquet \<Rightarrow> path \<Rightarrow> 's \<Rightarrow> ('m, unit) eio" where
  "close_file pq p st =
     seq (write_bytes p (rbind (pq_err ''closing parquet'' (pq_close pq st)) (\<lambda>bs. Inr ((), bs)))) (\<lambda>_.
       lift_io (fs_sync p))"

definition write_file ::
  "'s Parquet \<Rightarrow> path \<Rightarrow> Columns \<Rightarrow> rstr \<Rightarrow> u32 \<Rightarrow> rstr \<Rightarrow> nat \<Rightarrow> ('m, unit) eio" where
  "write_file pq p cols series epoch compr group_rows =
     seq (of_result (writer_properties series epoch compr)) (\<lambda>props.
     seq (lift_io (fs_create p)) (\<lambda>_.
     seq (write_bytes p (pq_err ''opening parquet writer'' (pq_open pq (c_schema cols) props))) (\<lambda>st.
     seq (write_groups pq p cols (max 1 group_rows) 0 (cursors_start cols) st) (\<lambda>st'.
     close_file pq p st'))))"

record 's PartitionWriter =
  pw_path :: path
  pw_writer :: 's
  pw_builder :: Columns
  pw_group_rows :: nat
  pw_rows :: nat

definition partition_create ::
  "'s Parquet \<Rightarrow> path \<Rightarrow> rstr \<Rightarrow> u32 \<Rightarrow> KeyDef list \<Rightarrow> rstr \<Rightarrow> nat \<Rightarrow> ('m, 's PartitionWriter) eio" where
  "partition_create pq p series epoch key_defs compr group_rows =
     seq (of_result (writer_properties series epoch compr)) (\<lambda>props.
     seq (of_result (row_builder_new pq series key_defs)) (\<lambda>builder.
     seq (lift_io (fs_create p)) (\<lambda>_.
     seq (write_bytes p (pq_err ''opening parquet writer'' (pq_open pq (c_schema builder) props))) (\<lambda>st.
     ok \<lparr>pw_path = p, pw_writer = st, pw_builder = builder, pw_group_rows = max 1 group_rows, pw_rows = 0\<rparr>))))"

definition partition_write_group :: "'s Parquet \<Rightarrow> 's PartitionWriter \<Rightarrow> ('m, 's PartitionWriter) eio" where
  "partition_write_group pq w =
     (if c_rows (pw_builder w) = 0 then ok w
      else
        let cols = pw_builder w;
            (chunks, _) = columns_group cols 0 (c_rows cols) (cursors_start cols) in
        seq (write_bytes (pw_path w) (pq_err ''writing parquet'' (pq_group pq (pw_writer w) chunks))) (\<lambda>st.
        ok (w\<lparr>pw_writer := st, pw_builder := row_builder_clear cols\<rparr>)))"

definition partition_append ::
  "'s Parquet \<Rightarrow> u64 \<Rightarrow> rstr \<Rightarrow> Value list \<Rightarrow> (rstr \<times> rstr) list \<Rightarrow> rstr \<Rightarrow> 's PartitionWriter \<Rightarrow>
     ('m, 's PartitionWriter) eio" where
  "partition_append pq ts rid keys extra data w =
     (case row_append ts rid keys extra data (pw_builder w) of
        (Inl e, _) \<Rightarrow> fail e
      | (Inr _, b) \<Rightarrow>
          let w' = w\<lparr>pw_builder := b, pw_rows := pw_rows w + 1\<rparr> in
          if pw_group_rows w' \<le> c_rows b then partition_write_group pq w' else ok w')"

definition partition_finish :: "'s Parquet \<Rightarrow> 's PartitionWriter \<Rightarrow> ('m, nat) eio" where
  "partition_finish pq w =
     seq (partition_write_group pq w) (\<lambda>w'.
     seq (close_file pq (pw_path w') (pw_writer w')) (\<lambda>_. ok (pw_rows w')))"

section \<open>File names\<close>

definition output_file_name :: "u64 \<Rightarrow> u64 \<Rightarrow> u32 \<Rightarrow> rstr" where
  "output_file_name first_segment last_segment epoch =
     pad 10 (unat first_segment) @ lit ''-'' @ pad 10 (unat last_segment) @ lit ''.e'' @ dec (unat epoch) @ lit ''.parquet''"

definition parse_segment_field :: "rstr \<Rightarrow> u64 option" where
  "parse_segment_field s =
     (if s = [] \<or> \<not> all_digits s then None
      else if length s < SEGMENT_ID_DIGITS \<or> length s \<noteq> SEGMENT_ID_DIGITS \<and> hd s = 48 then None
      else map_option of_nat (parse_unsigned u64_max s))"

text \<open>\<open>split_once\<close> at the first and \<open>rsplit_once\<close> at the last occurrence of a separator.\<close>

fun split_once_str :: "rstr \<Rightarrow> rstr \<Rightarrow> (rstr \<times> rstr) option" where
  "split_once_str sep s =
     (if prefix sep s then Some ([], drop (length sep) s)
      else case s of [] \<Rightarrow> None | b # s' \<Rightarrow> map_option (\<lambda>(l, r). (b # l, r)) (split_once_str sep s'))"

declare split_once_str.simps [simp del]

definition rsplit_once :: "rstr \<Rightarrow> rstr \<Rightarrow> (rstr \<times> rstr) option" where
  "rsplit_once sep s = map_option (\<lambda>(l, r). (rev r, rev l)) (split_once_str (rev sep) (rev s))"

definition parse_output_file_name :: "rstr \<Rightarrow> (u64 \<times> u64 \<times> u32) option" where
  "parse_output_file_name name =
     Option.bind (strip_suffix (lit ''.parquet'') name) (\<lambda>rest.
     Option.bind (rsplit_once (lit ''.e'') rest) (\<lambda>(range, epoch).
     Option.bind (split_once_str (lit ''-'') range) (\<lambda>(first, last_part).
       if \<not> all_digits epoch \<or> epoch = [] then None
       else Option.bind (parse_segment_field first) (\<lambda>f.
            Option.bind (parse_segment_field last_part) (\<lambda>l.
            Option.bind (parse_unsigned (2 ^ 32 - 1) epoch) (\<lambda>e. Some (f, l, of_nat e)))))))"

record WrittenFile =
  wf_series :: rstr
  wf_epoch :: u32
  wf_hour :: rstr
  wf_rows :: nat

end
