(* ===== verification/Orc_Planner.thy ===== *)
theory Orc_Planner
  imports Orc_Tree Orc_View Orc_Recovery Orc_Merge Orc_Parquet Orc_Time
begin

text \<open>
  The flush job (\<open>src/src/flush/planner.rs\<close>): sealed segments in, sorted Parquet files out.

  The manifest the caller lends is part of the state, since a flush that fails at the commit has
  changed it; the other phases work on the disk. A series name is one path component, which
  \<open>check_series_name\<close> sees to. The clock and the packages (\<open>crc32fast\<close>, \<open>parquet\<close>, \<open>serde_json\<close>) are
  arguments. The number of the next run is a natural number: a flush writes fewer than \<open>2 ^ 64\<close> runs.
  The lookup caches of the source are kept where they are part of a result, and left out where
  they only save a lookup. Logging is left out.
\<close>

section \<open>Layout\<close>

definition SERIES_DIR :: rstr where "SERIES_DIR = lit ''series''"
definition TMP_DIR :: rstr where "TMP_DIR = lit ''tmp''"
definition REJECTS_DIR :: rstr where "REJECTS_DIR = lit ''rejects''"
definition REJECT_EXT :: rstr where "REJECT_EXT = lit ''rej''"
definition VIEW_FILE :: rstr where "VIEW_FILE = lit ''view.sql''"

definition series_dir :: "rstr \<Rightarrow> path" where "series_dir series = [SERIES_DIR, series]"
definition tmp_dir :: path where "tmp_dir = [TMP_DIR]"
definition rejects_dir :: path where "rejects_dir = [REJECTS_DIR]"

record FlushOutcome =
  segments_consumed :: "u64 list"
  files_written :: "WrittenFile list"
  rows_written :: nat
  rows_deduplicated :: nat
  frames_rejected :: nat
  bytes_skipped :: nat

definition outcome_default :: FlushOutcome where
  "outcome_default = \<lparr>segments_consumed = [], files_written = [], rows_written = 0, rows_deduplicated = 0,
     frames_rejected = 0, bytes_skipped = 0\<rparr>"

section \<open>Rejects\<close>

record RejectSink =
  rj_cap :: u64
  rj_used :: "u64 option"
  rj_capped_logged :: bool

definition reject_new :: "u64 \<Rightarrow> RejectSink" where
  "reject_new cap = \<lparr>rj_cap = cap, rj_used = None, rj_capped_logged = False\<rparr>"

text \<open>The sizes of the files in a directory; what cannot be listed or measured counts nothing.\<close>

definition add_size :: "path \<Rightarrow> u64 \<Rightarrow> ('m, u64) eio" where
  "add_size p acc d =
     (case fs_stat p d of (Inl _, d') \<Rightarrow> (Inr acc, d') | (Inr n, d') \<Rightarrow> (Inr (acc + of_nat n), d'))"

definition dir_bytes :: "path \<Rightarrow> ('m, u64) eio" where
  "dir_bytes dir = seq (scan_files dir) (\<lambda>ps. fold_io add_size ps 0)"

definition reject_path :: "u64 \<Rightarrow> path" where
  "reject_path segment = rejects_dir @ [pad SEGMENT_ID_DIGITS (unat segment) @ lit ''.'' @ REJECT_EXT]"

definition reject_write :: "u64 \<Rightarrow> bytes \<Rightarrow> ('m, unit) io" where
  "reject_write segment frame =
     seq (fs_mkdir rejects_dir) (\<lambda>_.
     seq (fs_open_append (reject_path segment)) (\<lambda>_.
     fs_write (reject_path segment) frame))"

definition reject_append :: "u64 \<Rightarrow> bytes \<Rightarrow> RejectSink \<Rightarrow> ('m, RejectSink) eio" where
  "reject_append segment frame s =
     seq (case rj_used s of Some used \<Rightarrow> ok used | None \<Rightarrow> dir_bytes rejects_dir) (\<lambda>used.
       let s' = s\<lparr>rj_used := Some used\<rparr> in
       if unat (rj_cap s) < min u64_max (unat used + length frame) then ok (s'\<lparr>rj_capped_logged := True\<rparr>)
       else seq (best_effort (reject_write segment frame)) (\<lambda>written.
              ok (if written then s'\<lparr>rj_used := Some (used + of_nat (length frame))\<rparr> else s')))"

section \<open>Decoding a segment\<close>

definition matches_schema :: "KeyDef list \<Rightarrow> Value list \<Rightarrow> bool" where
  "matches_schema keys vals \<longleftrightarrow>
     length keys = length vals \<and>
     list_all (\<lambda>(k, v). case value_key_type v of None \<Rightarrow> True | Some ty \<Rightarrow> ty = key_ty k) (zip keys vals)"

type_synonym keys_cache = "(GroupKey \<times> KeyDef list) list"

record Decoded =
  dc_schemas :: keys_cache
  dc_touched :: "rstr list"
  dc_rows :: nat
  dc_frames_rejected :: nat
  dc_bytes_skipped :: nat
  dc_unreadable :: bool
  dc_quarantined :: bool

definition decoded_default :: Decoded where
  "decoded_default = \<lparr>dc_schemas = [], dc_touched = [], dc_rows = 0, dc_frames_rejected = 0, dc_bytes_skipped = 0,
     dc_unreadable = False, dc_quarantined = False\<rparr>"

definition cached_keys :: "keys_cache \<Rightarrow> Manifest \<Rightarrow> rstr \<Rightarrow> u32 \<Rightarrow> KeyDef list \<times> keys_cache" where
  "cached_keys cache m series epoch =
     (case position (\<lambda>(g, _). g = (series, epoch)) cache of
        Some i \<Rightarrow> (snd (cache ! i), cache)
      | None \<Rightarrow>
          let keys = (case man_schema m series epoch of None \<Rightarrow> [] | Some ks \<Rightarrow> ks) in
          (keys, cache @ [((series, epoch), keys)]))"

text \<open>Where the id lies in a frame: after the frame header, \<open>ts\<close>, \<open>epoch\<close>, the series name and two lengths.\<close>

definition id_offset :: "rstr \<Rightarrow> nat" where
  "id_offset series = FRAME_HEADER_BYTES + 16 + length series"

text \<open>The loop of \<open>decode_segment\<close>: one item of the reader.\<close>

record Decoding =
  dg_out :: Decoded
  dg_rejects :: RejectSink
  dg_batch :: Batch

definition reject_fault :: "u64 \<Rightarrow> bytes \<Rightarrow> FrameFault \<Rightarrow> Decoding \<Rightarrow> ('m, Decoding) eio" where
  "reject_fault segment buf fault s =
     (let out = (dg_out s)\<lparr>dc_frames_rejected := dc_frames_rejected (dg_out s) + 1\<rparr>;
          (out', copy) = (case fault of
              BadRecord offset len _ \<Rightarrow> (out, slice offset (offset + len) buf)
            | UnknownSchema offset len _ _ \<Rightarrow> (out, slice offset (offset + len) buf)
            | Undecodable offset _ \<Rightarrow>
                (out\<lparr>dc_bytes_skipped := dc_bytes_skipped out + (length buf - offset)\<rparr>, drop offset buf)) in
      seq (reject_append segment copy (dg_rejects s)) (\<lambda>rejects.
        ok (s\<lparr>dg_out := out', dg_rejects := rejects\<rparr>)))"

definition decode_item :: "Manifest \<Rightarrow> u64 \<Rightarrow> bytes \<Rightarrow> item \<Rightarrow> Decoding \<Rightarrow> ('m, Decoding) eio" where
  "decode_item m segment buf item s =
     (case item of
        Inl fault \<Rightarrow> reject_fault segment buf fault s
      | Inr (frame, vals, _) \<Rightarrow>
          let rec = fr_record frame;
              bs = slice (fr_offset frame) (fr_offset frame + fr_len frame) buf;
              out = dg_out s;
              (keys, cache) = cached_keys (dc_schemas out) m (rec_series rec) (rec_epoch rec);
              out' = out\<lparr>dc_touched := List.insert (rec_series rec) (dc_touched out), dc_schemas := cache\<rparr> in
          if \<not> matches_schema keys vals then
            seq (reject_append segment bs (dg_rejects s)) (\<lambda>rejects.
              ok (s\<lparr>dg_out := out'\<lparr>dc_frames_rejected := dc_frames_rejected out' + 1\<rparr>, dg_rejects := rejects\<rparr>))
          else
            ok (s\<lparr>dg_out := out'\<lparr>dc_rows := dc_rows out' + 1\<rparr>,
                  dg_batch := batch_push (rec_series rec, rec_epoch rec) (rec_ts rec) (id_offset (rec_series rec))
                    (length (rec_id rec)) (segment, of_nat (fr_offset frame)) bs (dg_batch s)\<rparr>))"

definition flush_quarantine :: "u64 \<Rightarrow> ('m, bool) eio" where
  "flush_quarantine i = best_effort (quarantine_segment i)"

definition decode_segment ::
  "(bytes \<Rightarrow> u32) \<Rightarrow> Manifest \<Rightarrow> u64 \<Rightarrow> bytes \<Rightarrow> RejectSink \<Rightarrow> Batch \<Rightarrow> ('m, Decoding) eio" where
  "decode_segment crc m segment buf rejects batch =
     (let s = \<lparr>dg_out = decoded_default, dg_rejects = rejects, dg_batch = batch\<rparr>;
          key_count = (\<lambda>series epoch. map_option length (man_schema m series epoch)) in
      case reader_new buf (length buf) key_count of
        Inl err \<Rightarrow>
          seq (flush_quarantine segment) (\<lambda>moved.
            ok (s\<lparr>dg_out := decoded_default\<lparr>dc_unreadable := True, dc_quarantined := moved, dc_bytes_skipped := length buf\<rparr>\<rparr>))
      | Inr reader \<Rightarrow> fold_io (decode_item m segment buf) (fst (read_all crc reader)) s)"

section \<open>Spilling\<close>

record Spill =
  spl_next :: nat
  spl_groups :: "(GroupKey \<times> path list) list"
  spl_touched :: "rstr list"

definition run_path :: "nat \<Rightarrow> path" where
  "run_path n = runs_dir @ [pad 10 n @ lit ''.run'']"

definition next_path :: "nat \<Rightarrow> path \<times> nat" where
  "next_path n = (run_path (n + 1), n + 1)"

definition clear_runs :: "('m, unit) eio" where
  "clear_runs = seq (best_effort (fs_remove_tree runs_dir)) (\<lambda>_. ok ())"

definition spill_new :: "('m, Spill) eio" where
  "spill_new = seq clear_runs (\<lambda>_. ok \<lparr>spl_next = 0, spl_groups = [], spl_touched = []\<rparr>)"

definition push_run :: "GroupKey \<times> path \<Rightarrow> (GroupKey \<times> path list) list \<Rightarrow> (GroupKey \<times> path list) list" where
  "push_run = (\<lambda>(key, p). AList.map_default key [p] (\<lambda>ps. ps @ [p]))"

definition spill_spill :: "Batch \<Rightarrow> Spill \<Rightarrow> ('m, Batch \<times> Spill) eio" where
  "spill_spill batch s =
     seq (lift_io (fs_mkdir runs_dir)) (\<lambda>_.
     seq (batch_spill next_path batch (spl_next s)) (\<lambda>(runs, batch', n).
     ok (batch', s\<lparr>spl_next := n, spl_groups := fold push_run runs (spl_groups s)\<rparr>)))"

section \<open>Phase 1: decoding within the budget\<close>

record Phase1 =
  ph_rejects :: RejectSink
  ph_spill :: Spill
  ph_batch :: Batch
  ph_consumed :: "u64 list"
  ph_rows :: nat
  ph_rejected :: nat
  ph_skipped :: nat
  ph_schemas :: "GroupKey \<rightharpoonup> KeyDef list"

definition phase1_start :: "u64 \<Rightarrow> Spill \<Rightarrow> Phase1" where
  "phase1_start cap spill =
     \<lparr>ph_rejects = reject_new cap, ph_spill = spill, ph_batch = batch_default, ph_consumed = [], ph_rows = 0,
      ph_rejected = 0, ph_skipped = 0, ph_schemas = Map.empty\<rparr>"

text \<open>What the loop takes over from a decoded segment: the counters, then, if it was readable, the rest.\<close>

definition note_decoded :: "Decoding \<Rightarrow> Phase1 \<Rightarrow> Phase1" where
  "note_decoded dg st =
     st\<lparr>ph_rejects := dg_rejects dg, ph_batch := dg_batch dg,
        ph_rejected := ph_rejected st + dc_frames_rejected (dg_out dg),
        ph_skipped := ph_skipped st + dc_bytes_skipped (dg_out dg)\<rparr>"

definition note_consumed :: "u64 \<Rightarrow> Decoded \<Rightarrow> Phase1 \<Rightarrow> Phase1" where
  "note_consumed i out st =
     st\<lparr>ph_consumed := ph_consumed st @ [i], ph_rows := ph_rows st + dc_rows out,
        ph_schemas := ph_schemas st ++ map_of (dc_schemas out),
        ph_spill := (ph_spill st)\<lparr>spl_touched := fold List.insert (dc_touched out) (spl_touched (ph_spill st))\<rparr>\<rparr>"

definition read_segment_into :: "path \<Rightarrow> ('m, bytes) eio" where
  "read_segment_into p = lift_io (fs_read p)"

fun decode_all :: "(bytes \<Rightarrow> u32) \<Rightarrow> Manifest \<Rightarrow> nat \<Rightarrow> u64 list \<Rightarrow> Phase1 \<Rightarrow> ('m, Phase1) eio" where
  "decode_all crc m budget [] st = ok st"
| "decode_all crc m budget (i # rest) st =
     seq (read_segment_into (segment_path i)) (\<lambda>buf.
     seq (decode_segment crc m i buf (ph_rejects st) (ph_batch st)) (\<lambda>dg.
       let st1 = note_decoded dg st in
       if dc_unreadable (dg_out dg) then
         if \<not> dc_quarantined (dg_out dg) then ok st1 else decode_all crc m budget rest st1
       else
         let st2 = note_consumed i (dg_out dg) st1 in
         if budget \<le> batch_bytes (ph_batch st2) \<and> rest \<noteq> [] then
           seq (spill_spill (ph_batch st2) (ph_spill st2)) (\<lambda>(batch, spill).
             decode_all crc m budget rest (st2\<lparr>ph_batch := batch, ph_spill := spill\<rparr>))
         else decode_all crc m budget rest st2))"

section \<open>Phase 2: one staged file per hour\<close>

type_synonym staged_file = "WrittenFile \<times> path"
type_synonym 's open_file = "nat \<times> rstr \<times> path \<times> 's PartitionWriter"

record Sink =
  snk_flush :: FlushConfig
  snk_first :: u64
  snk_last :: u64

definition finish_file :: "'s Parquet \<Rightarrow> GroupKey \<Rightarrow> 's open_file \<Rightarrow> staged_file list \<Rightarrow> ('m, staged_file list) eio" where
  "finish_file pq = (\<lambda>(series, epoch) (_, hour, p, writer) staged.
     seq (partition_finish pq writer) (\<lambda>rows.
       ok (staged @ [(\<lparr>wf_series = series, wf_epoch = epoch, wf_hour = hour, wf_rows = rows\<rparr>, p)])))"

definition staged_path :: "Sink \<Rightarrow> GroupKey \<Rightarrow> rstr \<Rightarrow> path" where
  "staged_path sink g hour = tmp_dir @ [fst g, hour, output_file_name (snk_first sink) (snk_last sink) (snd g)]"

definition open_hour :: "'s Parquet \<Rightarrow> Sink \<Rightarrow> GroupKey \<Rightarrow> KeyDef list \<Rightarrow> u64 \<Rightarrow> ('m, 's open_file) eio" where
  "open_hour pq sink g keys ts =
     (let hour = hour_partition ts; p = staged_path sink g hour in
      seq (lift_io (fs_mkdir (butlast p))) (\<lambda>_.
      seq (partition_create pq p (fst g) (snd g) keys (compression (snk_flush sink)) (unat (row_group_rows (snk_flush sink)))) (\<lambda>w.
      ok (unat ts div US_PER_HOUR, hour, p, w))))"

text \<open>The closure given to the merge; it carries the file being written and the files done.\<close>

definition sink_entry ::
  "'s Parquet \<Rightarrow> Sink \<Rightarrow> GroupKey \<Rightarrow> KeyDef list \<Rightarrow> Head \<Rightarrow> 's open_file option \<times> staged_file list \<Rightarrow>
     ('m, 's open_file option \<times> staged_file list) eio" where
  "sink_entry pq sink g keys entry = (\<lambda>(opened, staged).
     seq (case opened of
            Some f \<Rightarrow>
              if fst f = unat (hd_ts entry) div US_PER_HOUR then ok (f, staged)
              else seq (finish_file pq g f staged) (\<lambda>staged'.
                   seq (open_hour pq sink g keys (hd_ts entry)) (\<lambda>f'. ok (f', staged')))
          | None \<Rightarrow> seq (open_hour pq sink g keys (hd_ts entry)) (\<lambda>f'. ok (f', staged)))
       (\<lambda>((h, hour, p, writer), staged').
         case decode_verified (hd_frame entry) (length keys) of
           Inl _ \<Rightarrow> fail (Io (IoOther ''re-decoding a frame''))
         | Inr (rec, vals, extra, _) \<Rightarrow>
             seq (partition_append pq (rec_ts rec) (rec_id rec) vals extra (rec_data rec) writer) (\<lambda>writer'.
               ok (Some (h, hour, p, writer'), staged'))))"

definition merge_partition ::
  "'s Parquet \<Rightarrow> Sink \<Rightarrow> GroupKey \<Rightarrow> KeyDef list \<Rightarrow> path list \<Rightarrow> Src option \<Rightarrow> nat \<Rightarrow> staged_file list \<Rightarrow>
     ('m, MergeStats \<times> nat \<times> staged_file list) eio" where
  "merge_partition pq sink g keys runs in_memory n staged =
     seq (merge_bounded runs in_memory (unat (merge_fan_in (snk_flush sink))) next_path
           (sink_entry pq sink g keys) n (None, staged)) (\<lambda>(stats, n', opened, staged').
       case opened of
         None \<Rightarrow> ok (stats, n', staged')
       | Some f \<Rightarrow> seq (finish_file pq g f staged') (\<lambda>staged''. ok (stats, n', staged'')))"

record Staging =
  sg_next :: nat
  sg_runs :: "(GroupKey \<times> path list) list"
  sg_memory :: "(GroupKey \<times> MemRun) list"
  sg_staged :: "staged_file list"
  sg_emitted :: nat
  sg_deduplicated :: nat

text \<open>One turn of the loop over the groups: the runs and the in-memory source of the group are taken.\<close>

definition stage_group ::
  "'s Parquet \<Rightarrow> Sink \<Rightarrow> (GroupKey \<rightharpoonup> KeyDef list) \<Rightarrow> GroupKey \<Rightarrow> Staging \<Rightarrow> ('m, Staging) eio" where
  "stage_group pq sink schemas g s =
     (let runs = (case map_of (sg_runs s) g of None \<Rightarrow> [] | Some ps \<Rightarrow> ps);
          in_memory = map_option MemSource (map_of (sg_memory s) g);
          keys = (case schemas g of None \<Rightarrow> [] | Some ks \<Rightarrow> ks) in
      seq (merge_partition pq sink g keys runs in_memory (sg_next s) (sg_staged s)) (\<lambda>(stats, n, staged).
        ok \<lparr>sg_next = n, sg_runs = AList.delete g (sg_runs s), sg_memory = AList.delete g (sg_memory s),
            sg_staged = staged, sg_emitted = sg_emitted s + ms_emitted stats,
            sg_deduplicated = sg_deduplicated s + ms_deduplicated stats\<rparr>))"

definition staging_start :: "Phase1 \<Rightarrow> Staging" where
  "staging_start st =
     \<lparr>sg_next = spl_next (ph_spill st), sg_runs = spl_groups (ph_spill st),
      sg_memory = fst (into_sources (ph_batch st)), sg_staged = [], sg_emitted = 0, sg_deduplicated = 0\<rparr>"

definition staging_groups :: "Staging \<Rightarrow> GroupKey list" where
  "staging_groups s = sort (remdups (map fst (sg_memory s) @ map fst (sg_runs s)))"

definition stage_outputs :: "'s Parquet \<Rightarrow> Sink \<Rightarrow> Phase1 \<Rightarrow> ('m, Staging) eio" where
  "stage_outputs pq sink st =
     seq (lift_io (fs_mkdir tmp_dir)) (\<lambda>_.
       fold_io (stage_group pq sink (ph_schemas st)) (staging_groups (staging_start st)) (staging_start st))"

section \<open>Phases 3 to 5: commit, promote, delete\<close>

text \<open>The directories between \<open>tmp/\<close> and a staged file.\<close>

function parents_below :: "path \<Rightarrow> path \<Rightarrow> path list" where
  "parents_below root p =
     (if p = [] \<or> p = root then [] else p # parents_below root (butlast p))"
  by auto
termination by (relation "measure (\<lambda>(_, p). length p)") (auto simp: length_greater_0_conv [symmetric] simp del: length_greater_0_conv)

declare parents_below.simps [simp del]

definition fsync_staging :: "path list \<Rightarrow> ('m, unit) eio" where
  "fsync_staging staged =
     seq (for_each (\<lambda>dir. lift_io (fsync_dir dir))
           (sort (remdups (concat (map (\<lambda>p. parents_below tmp_dir (butlast p)) staged))))) (\<lambda>_.
     lift_io (fsync_dir tmp_dir))"

definition promote :: "path \<Rightarrow> ('m, unit) eio" where
  "promote staged =
     (if \<not> prefix tmp_dir staged then fail (Config ''not under tmp/'')
      else
        let dest = SERIES_DIR # drop (length tmp_dir) staged; dir = butlast dest in
        seq (lift_io (fs_mkdir dir)) (\<lambda>_.
        seq (lift_io (fs_rename staged dest)) (\<lambda>_.
        seq (lift_io (fsync_dir dir)) (\<lambda>_.
        seq (lift_io (fsync_dir (butlast dir))) (\<lambda>_.
        lift_io (fsync_dir [SERIES_DIR]))))))"

definition delete_segments :: "u64 list \<Rightarrow> ('m, unit) eio" where
  "delete_segments ids =
     seq (for_each (\<lambda>i. remove_if_present (segment_path i)) ids) (\<lambda>_. lift_io (fsync_dir wal_dir))"

definition regenerate_view :: "Manifest \<Rightarrow> rstr \<Rightarrow> ('m, unit) eio" where
  "regenerate_view m name =
     seq (best_effort (seq (fs_mkdir (series_dir name)) (\<lambda>_.
           fs_write_file (series_dir name @ [VIEW_FILE]) (view_sql name (history_of m name))))) (\<lambda>_. ok ())"

definition regenerate_views :: "Manifest \<Rightarrow> rstr list \<Rightarrow> ('m, unit) eio" where
  "regenerate_views m series = for_each (regenerate_view m) (sort series)"

type_synonym ('m, 'a) flush = "(Manifest \<times> 'm Disk_scheme, Error, 'a) fallible"

definition on_disk :: "('m, 'a) eio \<Rightarrow> ('m, 'a) flush" where
  "on_disk e = (\<lambda>(m, d). case e d of (r, d') \<Rightarrow> (r, (m, d')))"

definition commit_watermark :: "(Manifest \<Rightarrow> string + bytes) \<Rightarrow> u64 \<Rightarrow> u64 \<Rightarrow> ('m, unit) flush" where
  "commit_watermark to_json now last_segment = (\<lambda>(m, d).
     let m' = m\<lparr>last_flushed_segment := max (last_flushed_segment m) last_segment, last_flush_at := Some now\<rparr> in
     case manifest_commit to_json m' d of (r, d') \<Rightarrow> (r, (m', d')))"

definition publish :: "path list \<Rightarrow> u64 list \<Rightarrow> rstr list \<Rightarrow> ('m, unit) flush" where
  "publish staged consumed touched = (\<lambda>(m, d).
     on_disk (seq (for_each promote staged) (\<lambda>_.
              seq (delete_segments consumed) (\<lambda>_.
              regenerate_views m touched))) (m, d))"

definition flush_outcome :: "Phase1 \<Rightarrow> Staging \<Rightarrow> FlushOutcome" where
  "flush_outcome st sg =
     \<lparr>segments_consumed = ph_consumed st, files_written = map fst (sg_staged sg), rows_written = sg_emitted sg,
      rows_deduplicated = sg_deduplicated sg + deduplicated (snd (into_sources (ph_batch st))),
      frames_rejected = ph_rejected st, bytes_skipped = ph_skipped st\<rparr>"

definition flush_ids ::
  "'s Parquet \<Rightarrow> (bytes \<Rightarrow> u32) \<Rightarrow> (Manifest \<Rightarrow> string + bytes) \<Rightarrow> u64 \<Rightarrow> Config \<Rightarrow> u64 list \<Rightarrow> Spill \<Rightarrow>
     ('m, FlushOutcome) flush" where
  "flush_ids pq crc to_json now cfg ids spill = (\<lambda>(m, d).
     seq (on_disk (decode_all crc m (unat (memory_budget_bytes (cfg_flush cfg))) ids
            (phase1_start (reject_max_bytes (cfg_limits cfg)) spill))) (\<lambda>st.
       if ph_consumed st = [] then
         ok (outcome_default\<lparr>frames_rejected := ph_rejected st, bytes_skipped := ph_skipped st\<rparr>)
       else if ph_rows st = 0 \<and> ph_rejected st = 0 \<and> ph_skipped st = 0 then ok outcome_default
       else
         let sink = \<lparr>snk_flush = cfg_flush cfg, snk_first = hd (ph_consumed st), snk_last = last (ph_consumed st)\<rparr> in
         seq (on_disk (stage_outputs pq sink st)) (\<lambda>sg.
         let staged = map snd (sg_staged sg) in
         seq (on_disk (fsync_staging staged)) (\<lambda>_.
         seq (commit_watermark to_json now (snk_last sink)) (\<lambda>_.
         seq (publish staged (ph_consumed st) (spl_touched (ph_spill st))) (\<lambda>_.
         ok (flush_outcome st sg)))))) (m, d))"

text \<open>\<open>Drop for Spill\<close> runs whichever way the flush ends.\<close>

definition always_then :: "('s, 'e, 'a) fallible \<Rightarrow> ('s, 'e, unit) fallible \<Rightarrow> ('s, 'e, 'a) fallible" where
  "always_then m fin s = (case m s of (r, s') \<Rightarrow> (r, snd (fin s')))"

definition flush_run ::
  "'s Parquet \<Rightarrow> (bytes \<Rightarrow> u32) \<Rightarrow> (Manifest \<Rightarrow> string + bytes) \<Rightarrow> u64 \<Rightarrow> Config \<Rightarrow> u64 list \<Rightarrow>
     ('m, FlushOutcome) flush" where
  "flush_run pq crc to_json now cfg segments =
     (let ids = remdups_adj (sort segments) in
      if ids = [] then ok outcome_default
      else seq (on_disk spill_new) (\<lambda>spill.
             always_then (flush_ids pq crc to_json now cfg ids spill) (on_disk clear_runs)))"

section \<open>Cleaning up after an interrupted flush\<close>

text \<open>The last component of a path, the name of the file.\<close>

definition file_range :: "path \<Rightarrow> (u64 \<times> u64 \<times> u32) option" where
  "file_range p = parse_output_file_name (last p)"

definition output_files :: "('m, (path \<times> u64 \<times> u64 \<times> u32) list) eio" where
  "output_files =
     seq (scan_partitions [SERIES_DIR]) (\<lambda>ps.
       ok (sort_key fst (List.map_filter (\<lambda>p. map_option (\<lambda>r. (p, r)) (file_range p)) ps)))"

definition staged_files :: "('m, (path \<times> (u64 \<times> u64 \<times> u32) option) list) eio" where
  "staged_files = seq (scan_partitions tmp_dir) (\<lambda>ps. ok (sort_key fst (map (\<lambda>p. (p, file_range p)) ps)))"

definition committed :: "u64 \<Rightarrow> (u64 \<times> u64 \<times> u32) option \<Rightarrow> bool" where
  "committed watermark r = (case r of None \<Rightarrow> False | Some (_, last_segment, _) \<Rightarrow> last_segment \<le> watermark)"

definition settle_staged :: "u64 \<Rightarrow> path \<times> (u64 \<times> u64 \<times> u32) option \<Rightarrow> ('m, unit) eio" where
  "settle_staged watermark = (\<lambda>(p, r).
     if committed watermark r then promote p else lift_io (fs_remove p))"

definition remove_empty :: "path \<Rightarrow> ('m, unit) eio" where
  "remove_empty dir = seq (best_effort (fs_remove_dir dir)) (\<lambda>_. ok ())"

definition remove_flat :: "path \<Rightarrow> ('m, unit) eio" where
  "remove_flat p = seq (best_effort (fs_stat p)) (\<lambda>_. seq (best_effort (fs_remove p)) (\<lambda>_. ok ()))"

text \<open>An orphan in \<open>series/\<close>; the directories it leaves are the ones to try to remove afterwards.\<close>

definition remove_orphan :: "u64 \<Rightarrow> path \<times> u64 \<times> u64 \<times> u32 \<Rightarrow> path list \<Rightarrow> ('m, path list) eio" where
  "remove_orphan watermark = (\<lambda>(p, r) emptied.
     if committed watermark (Some r) then ok emptied
     else seq (best_effort (fs_remove p)) (\<lambda>gone. ok (if gone then emptied @ [butlast p] else emptied)))"

definition sweep_uncommitted :: "u64 \<Rightarrow> ('m, unit) eio" where
  "sweep_uncommitted watermark =
     seq clear_runs (\<lambda>_.
     seq staged_files (\<lambda>staged.
     seq (for_each (settle_staged watermark) staged) (\<lambda>_.
     seq (for_each (\<lambda>hour. seq (remove_empty hour) (\<lambda>_. remove_empty (butlast hour)))
           (sort (remdups (map (\<lambda>(p, _). butlast p) staged)))) (\<lambda>_.
     seq (scan_files tmp_dir) (\<lambda>flat.
     seq (for_each remove_flat flat) (\<lambda>_.
     seq output_files (\<lambda>outputs.
     seq (fold_io (remove_orphan watermark) outputs []) (\<lambda>emptied.
     for_each remove_empty (sort (remdups emptied))))))))))"

definition require_manifest_for_output :: "('m, unit) eio" where
  "require_manifest_for_output =
     seq output_files (\<lambda>outputs.
     seq staged_files (\<lambda>staged.
       if map fst outputs @ map fst (filter (\<lambda>(_, r). r \<noteq> None) staged) = [] then ok ()
       else fail (Config ''output files but no manifest'')))"

end
