(* ===== verification/Orc_Merge_Laws.thy ===== *)
theory Orc_Merge_Laws
  imports Orc_Merge
begin

text \<open>
  Laws of the merge (\<open>src/src/flush/merge.rs\<close>). What a merge owes is \<open>first_arrivals\<close>: of every
  \<open>(ts, id)\<close> the record that arrived first, in order. A trait implementation is a \<open>source\<close> of a list
  of heads; the in-memory run, the run file and the box around them are instances, the merge of
  any number of them emits the first arrivals of everything they hold, and merging in several
  rounds over run files changes nothing.
\<close>

section \<open>First arrivals\<close>

definition ts_id :: "Head \<Rightarrow> u64 \<times> bytes" where
  "ts_id h = (hd_ts h, hd_id h)"

definition first_of :: "Head set \<Rightarrow> Head \<Rightarrow> bool" where
  "first_of H h \<longleftrightarrow> (\<forall>h'\<in>H. ts_id h' = ts_id h \<longrightarrow> hd_arrival h \<le> hd_arrival h')"

definition first_arrivals :: "Head list \<Rightarrow> Head list" where
  "first_arrivals hs = sort_key head_key (filter (first_of (set hs)) (remdups hs))"

lemma head_key_split: "head_key h \<le> head_key h' \<longleftrightarrow>
    ts_id h < ts_id h' \<or> ts_id h = ts_id h' \<and> hd_arrival h \<le> hd_arrival h'"
  by (auto simp: head_key_def ts_id_def less_eq_prod_def less_prod_def)

lemma head_key_ts_id: "head_key h \<le> head_key h' \<Longrightarrow> ts_id h \<le> ts_id h'"
  by (auto simp: head_key_split)

lemma set_first_arrivals [simp]: "set (first_arrivals hs) = {h \<in> set hs. first_of (set hs) h}"
  by (auto simp: first_arrivals_def)

lemma sorted_first_arrivals: "sorted (map head_key (first_arrivals hs))"
  by (simp add: first_arrivals_def)

text \<open>A list that is sorted and has the right elements is the list of first arrivals.\<close>

lemma first_arrivals_unique:
  assumes inj: "inj_on head_key (set hs)" and strict: "sorted_wrt (<) (map head_key L)"
    and elems: "set L = {h \<in> set hs. first_of (set hs) h}"
  shows "first_arrivals hs = L"
  unfolding first_arrivals_def
proof (rule sort_key_inj_key_eq)
  let ?F = "filter (first_of (set hs)) (remdups hs)"
  have "distinct L" using strict by (metis distinct_map strict_sorted_iff)
  moreover have "set ?F = set L" using elems by auto
  ultimately show "mset ?F = mset L" using set_eq_iff_mset_eq_distinct [of ?F L] by simp
  show "inj_on head_key (set ?F)" by (rule inj_on_subset [OF inj]) auto
  show "sorted (map head_key L)" using strict by (metis strict_sorted_iff)
qed

lemma first_arrivals_strict:
  assumes "inj_on head_key (set hs)"
  shows "sorted_wrt (<) (map head_key (first_arrivals hs))"
proof -
  have "distinct (map head_key (filter (first_of (set hs)) (remdups hs)))"
    by (auto simp: distinct_map intro: inj_on_subset [OF assms(1)])
  then have "distinct (map head_key (first_arrivals hs))"
    by (simp add: first_arrivals_def distinct_map)
  with sorted_first_arrivals show ?thesis by (simp add: strict_sorted_iff)
qed

lemma first_arrivals_cong:
  assumes "inj_on head_key (set hs)" "set hs' = set hs"
  shows "first_arrivals hs' = first_arrivals hs"
  by (rule first_arrivals_unique) (use assms first_arrivals_strict in auto)

text \<open>Taking first arrivals of a part early does not change the first arrivals of the whole.\<close>

lemma first_exists:
  assumes "h \<in> H" "finite H"
  shows "\<exists>h'\<in>H. ts_id h' = ts_id h \<and> first_of H h'"
proof -
  let ?S = "{h' \<in> H. ts_id h' = ts_id h}"
  have "finite (hd_arrival ` ?S)" "hd_arrival ` ?S \<noteq> {}" using assms by auto
  then obtain h' where "h' \<in> ?S" "hd_arrival h' = Min (hd_arrival ` ?S)" by (metis (no_types, lifting) Min_in imageE)
  moreover from this have "first_of H h'" using \<open>finite (hd_arrival ` ?S)\<close> by (auto simp: first_of_def)
  ultimately show ?thesis by auto
qed

lemma first_of_union:
  assumes "h \<in> A \<union> B" "finite A"
  shows "first_of (A \<union> B) h \<longleftrightarrow> first_of ({a \<in> A. first_of A a} \<union> B) h"
proof
  assume r: "first_of ({a \<in> A. first_of A a} \<union> B) h"
  have "hd_arrival h \<le> hd_arrival h'" if h': "h' \<in> A \<union> B" "ts_id h' = ts_id h" for h'
  proof (cases "h' \<in> B")
    case False
    with h' obtain a where "a \<in> A" "ts_id a = ts_id h'" "first_of A a"
      using first_exists [of h' A] assms(2) by auto
    with r h' False have "hd_arrival h \<le> hd_arrival a" "hd_arrival a \<le> hd_arrival h'"
      by (auto simp: first_of_def)
    then show ?thesis by order
  qed (use r h' in \<open>auto simp: first_of_def\<close>)
  then show "first_of (A \<union> B) h" by (simp add: first_of_def)
qed (auto simp: first_of_def)

lemma first_arrivals_part:
  assumes inj: "inj_on head_key (set (as @ bs))"
  shows "first_arrivals (first_arrivals as @ bs) = first_arrivals (as @ bs)"
proof (rule first_arrivals_unique)
  let ?A = "set as" and ?B = "set bs"
  let ?F = "{a \<in> ?A. first_of ?A a}"
  have "{h \<in> ?F \<union> ?B. first_of (?F \<union> ?B) h} = {h \<in> ?A \<union> ?B. first_of (?A \<union> ?B) h}"
  proof (rule set_eqI)
    fix h
    have "h \<in> ?F" if "h \<in> ?A" "first_of (?A \<union> ?B) h" using that by (auto simp: first_of_def)
    then show "h \<in> {h \<in> ?F \<union> ?B. first_of (?F \<union> ?B) h} \<longleftrightarrow> h \<in> {h \<in> ?A \<union> ?B. first_of (?A \<union> ?B) h}"
      using first_of_union [of h ?A ?B] by blast
  qed
  then show "set (first_arrivals (as @ bs)) =
      {h \<in> set (first_arrivals as @ bs). first_of (set (first_arrivals as @ bs)) h}" by auto
  show "inj_on head_key (set (first_arrivals as @ bs))"
    by (rule inj_on_subset [OF inj]) auto
qed (rule first_arrivals_strict [OF inj])

lemma length_first_arrivals: "length (first_arrivals hs) \<le> length hs"
  by (simp add: first_arrivals_def) (metis length_filter_le length_remdups_leq le_trans)

section \<open>What the loop emits\<close>

text \<open>The heads in order, each compared with the \<open>(ts, id)\<close> emitted last.\<close>

fun emit :: "(u64 \<times> bytes) option \<Rightarrow> Head list \<Rightarrow> Head list" where
  "emit last_key [] = []"
| "emit last_key (h # hs) =
     (if last_key = Some (ts_id h) then emit last_key hs else h # emit (Some (ts_id h)) hs)"

lemma length_emit: "length (emit k hs) \<le> length hs"
  by (induction k hs rule: emit.induct) auto

lemma set_emit: "set (emit k hs) \<subseteq> set hs"
  by (induction k hs rule: emit.induct) auto

lemma first_of_Cons:
  assumes "sorted (map head_key (h # hs))" "h' \<in> set hs"
  shows "first_of (set (h # hs)) h' \<longleftrightarrow> first_of (set hs) h' \<and> (ts_id h' = ts_id h \<longrightarrow> hd_arrival h' = hd_arrival h)"
proof -
  have "head_key h \<le> head_key h'" using assms by auto
  then have "ts_id h' = ts_id h \<Longrightarrow> hd_arrival h \<le> hd_arrival h'" by (auto simp: head_key_split)
  then show ?thesis by (auto simp: first_of_def intro: order.antisym)
qed

lemma emit_elems:
  assumes "sorted (map head_key hs)" "inj_on head_key (set hs)" "\<forall>k. last_key = Some k \<longrightarrow> (\<forall>h\<in>set hs. k \<le> ts_id h)"
  shows "set (emit last_key hs) = {h \<in> set hs. first_of (set hs) h \<and> last_key \<noteq> Some (ts_id h)}"
  using assms
proof (induction last_key hs rule: emit.induct)
  case (2 last_key h hs)
  have first: "first_of (set (h # hs)) h"
    using 2(3) by (auto simp: first_of_def head_key_split)
  have same: "h' = h" if "h' \<in> set hs" "ts_id h' = ts_id h" "hd_arrival h' = hd_arrival h" for h'
    using that 2(4) by (auto simp: inj_on_def head_key_def ts_id_def)
  have above: "\<forall>h'\<in>set hs. ts_id h \<le> ts_id h'"
    using 2(3) by (auto simp: head_key_ts_id)
  have later: "first_of (set (h # hs)) h' \<longleftrightarrow> first_of (set hs) h' \<and> (ts_id h' = ts_id h \<longrightarrow> h' = h)" if "h' \<in> set hs" for h'
    using first_of_Cons [OF 2(3) that] same [OF that] by auto
  show ?case
  proof (cases "last_key = Some (ts_id h)")
    case True
    with 2 have "set (emit last_key hs) = {h \<in> set hs. first_of (set hs) h \<and> last_key \<noteq> Some (ts_id h)}" by auto
    with True later first show ?thesis by (auto simp del: set_simps) (auto simp: later)
  next
    case False
    with 2 above have IH: "set (emit (Some (ts_id h)) hs) = {h' \<in> set hs. first_of (set hs) h' \<and> ts_id h \<noteq> ts_id h'}" by auto
    have "last_key \<noteq> Some (ts_id h')" if "h' \<in> set hs" for h'
    proof
      assume "last_key = Some (ts_id h')"
      with 2(5) that above have "ts_id h' \<le> ts_id h" "ts_id h \<le> ts_id h'" by auto
      with \<open>last_key = Some (ts_id h')\<close> False show False by auto
    qed
    with False IH later first show ?thesis by (auto simp del: set_simps) (auto simp: later)
  qed
qed simp

lemma emit_strict:
  assumes "sorted (map head_key hs)" "inj_on head_key (set hs)"
  shows "sorted_wrt (<) (map head_key (emit last_key hs)) \<and>
    (\<forall>k. last_key = Some k \<longrightarrow> (\<forall>h\<in>set hs. k \<le> ts_id h) \<longrightarrow> (\<forall>h\<in>set (emit last_key hs). k < ts_id h))"
  using assms
proof (induction last_key hs rule: emit.induct)
  case (2 last_key h hs)
  have above: "\<forall>h'\<in>set hs. ts_id h \<le> ts_id h'"
    using 2(3) by (auto simp: head_key_ts_id)
  show ?case
  proof (cases "last_key = Some (ts_id h)")
    case False
    with 2 above have IH: "sorted_wrt (<) (map head_key (emit (Some (ts_id h)) hs))"
      "\<forall>h'\<in>set (emit (Some (ts_id h)) hs). ts_id h < ts_id h'" by auto
    then have "\<forall>h'\<in>set (emit (Some (ts_id h)) hs). head_key h < head_key h'"
      by (auto simp: less_le_not_le [of "head_key _"] head_key_split)
    moreover have "k < ts_id h" if "last_key = Some k" "\<forall>h\<in>set (h # hs). k \<le> ts_id h" for k
      using that False by (auto simp: order.strict_iff_order)
    ultimately show ?thesis using False IH by (auto dest: order.strict_trans)
  qed (use 2 in auto)
qed simp

lemma emit_first_arrivals:
  assumes "sorted (map head_key hs)" "inj_on head_key (set hs)"
  shows "emit None hs = first_arrivals hs"
  by (rule first_arrivals_unique [symmetric])
    (use assms emit_elems [OF assms, of None] emit_strict [OF assms, of None] in auto)

section \<open>Sources\<close>

text \<open>
  The contract of \<open>trait Source\<close>: a source holds a list of heads, shows the first one, and
  \<open>advance\<close> moves to the next without touching the files; it fails only when a call is refused.
\<close>

locale source =
  fixes head :: "'s \<Rightarrow> Head"
    and advance :: "'s \<Rightarrow> ('m, 's \<times> bool) eio"
    and holds :: "'s \<Rightarrow> Head list \<Rightarrow> bool"
  assumes head_first: "holds s (h # hs) \<Longrightarrow> head s = h"
    and advance_next: "holds s (h # hs) \<Longrightarrow>
      triple (at k R) (advance s)
        (\<lambda>(s', again). at k (\<lambda>c. R c \<and> again = (hs \<noteq> []) \<and> (again \<longrightarrow> holds s' hs)))
        (\<lambda>_. at k (\<lambda>c. R c \<and> \<not> k))"
begin

text \<open>A source among others: the heap's bookkeeping on one step of the merge.\<close>

definition holds_all :: "'s list \<Rightarrow> nat list \<Rightarrow> (nat \<Rightarrow> Head list) \<Rightarrow> bool" where
  "holds_all sources is Ls \<longleftrightarrow>
     (\<forall>i\<in>set is. i < length sources \<and> holds (sources ! i) (Ls i) \<and> Ls i \<noteq> [] \<and> sorted (map head_key (Ls i)))"

lemma holds_all_head: "holds_all sources is Ls \<Longrightarrow> i \<in> set is \<Longrightarrow> head (sources ! i) = hd (Ls i)"
  using head_first [of "sources ! i" "hd (Ls i)" "tl (Ls i)"] by (auto simp: holds_all_def)

lemma holds_all_least:
  assumes "holds_all sources is Ls" "i \<in> set is" "h \<in> set (Ls i)"
  shows "head_key (head (sources ! i)) \<le> head_key h"
proof -
  obtain x xs where L: "Ls i = x # xs" using assms by (cases "Ls i") (auto simp: holds_all_def)
  moreover have "sorted (map head_key (Ls i))" using assms by (simp add: holds_all_def)
  ultimately show ?thesis using assms holds_all_head [OF assms(1,2)] by auto
qed

lemma advance_all:
  assumes all: "holds_all sources is Ls" "i \<in> set is" "distinct is"
  shows "triple (at k R) (advance (sources ! i))
      (\<lambda>(s', again). at k (\<lambda>c. R c \<and> again = (tl (Ls i) \<noteq> []) \<and>
          holds_all (sources[i := s']) (if again then is else filter (\<lambda>j. j \<noteq> i) is) (Ls(i := tl (Ls i)))))
      (\<lambda>_. at k (\<lambda>c. R c \<and> \<not> k))"
proof -
  have i: "holds (sources ! i) (hd (Ls i) # tl (Ls i))" "sorted (map head_key (tl (Ls i)))" "i < length sources"
    using all by (auto simp: holds_all_def sorted_tl map_tl)
  have others: "j < length sources \<and> holds (sources[i := s'] ! j) (Ls j) \<and> Ls j \<noteq> [] \<and> sorted (map head_key (Ls j))"
    if "j \<in> set is" "j \<noteq> i" for j s' using all(1) that by (auto simp: holds_all_def)
  have "holds_all (sources[i := s']) (if again then is else filter (\<lambda>j. j \<noteq> i) is) (Ls(i := tl (Ls i)))"
    if "again = (tl (Ls i) \<noteq> [])" "again \<longrightarrow> holds s' (tl (Ls i))" for s' again
    using that i others by (auto simp: holds_all_def split: if_splits)
  then show ?thesis
    by (intro triple_conseq [OF advance_next [OF i(1), of k R]]) (auto simp: at_def)
qed

end

text \<open>The in-memory run holds what its entries from the position on say.\<close>

definition mem_holds :: "MemRun \<Rightarrow> Head list \<Rightarrow> bool" where
  "mem_holds r hs \<longleftrightarrow> hs = map (entry_head (mr_arena r)) (drop (mr_pos r) (mr_entries r))"

lemma mem_holds_Cons:
  assumes "mem_holds r (h # hs)"
  shows "mem_head r = h \<and> hs = map (entry_head (mr_arena r)) (drop (Suc (mr_pos r)) (mr_entries r)) \<and> mr_pos r < length (mr_entries r)"
proof -
  have lt: "mr_pos r < length (mr_entries r)"
    using assms by (metis mem_holds_def drop_all list.distinct(1) list.simps(8) not_le)
  with assms show ?thesis by (simp add: mem_holds_def mem_head_def Cons_nth_drop_Suc [symmetric])
qed

interpretation mem_source: source mem_head mem_advance mem_holds
proof
  fix s h hs k R
  assume s: "mem_holds s (h # hs)"
  show "mem_head s = h" using mem_holds_Cons [OF s] by simp
  show "triple (at k R) (mem_advance s)
      (\<lambda>(s', again). at k (\<lambda>c. R c \<and> again = (hs \<noteq> []) \<and> (again \<longrightarrow> mem_holds s' hs)))
      (\<lambda>_. at k (\<lambda>c. R c \<and> \<not> k))"
    using mem_holds_Cons [OF s]
    by (auto simp: triple_def mem_advance_def mem_holds_def at_def Let_def)
qed

text \<open>
  A run file is the entries one after the other; \<open>wf_head\<close> is what the reader can take apart
  again, and every record the flush has decoded satisfies it.
\<close>

definition run_entry :: "Head \<Rightarrow> bytes" where
  "run_entry h = le64 (fst (hd_arrival h)) @ le64 (snd (hd_arrival h)) @ hd_frame h"

definition run_bytes :: "Head list \<Rightarrow> bytes" where
  "run_bytes hs = concat (map run_entry hs)"

definition wf_head :: "Head \<Rightarrow> bool" where
  "wf_head h \<longleftrightarrow> verified_sort_key (hd_frame h) = Inr (hd_ts h, hd_id h, length (hd_frame h))"

definition run_holds :: "RunReader \<Rightarrow> Head list \<Rightarrow> bool" where
  "run_holds r hs \<longleftrightarrow>
     (\<exists>rest. hs = run_head r # rest \<and> rr_input r = run_bytes rest \<and> (\<forall>h\<in>set rest. wf_head h))"

lemma run_bytes_simps [simp]: "run_bytes [] = []" "run_bytes (h # hs) = run_entry h @ run_bytes hs"
  "run_bytes (xs @ ys) = run_bytes xs @ run_bytes ys"
  by (simp_all add: run_bytes_def)

lemma fst_Inr: "fst p = Inr x \<longleftrightarrow> (\<exists>s. p = (Inr x, s))"
  by (cases p) auto

lemma wf_head_frame:
  assumes "wf_head h"
  shows "8 \<le> length (hd_frame h)" "length (hd_frame h) = 8 + unat (from_le (take 4 (hd_frame h)) :: u32)"
  using assms
  by (auto simp: wf_head_def verified_sort_key_def frame_extent_def fst_Inr result_simps FRAME_HEADER_BYTES_def
      Let_def split: if_splits)

text \<open>An entry at the front of the input is read back as the head it was written from.\<close>

lemma fetch_triple: "triple (at k R) fetch (\<lambda>_. at k R) (\<lambda>_. at k (\<lambda>c. R c \<and> \<not> k))"
  unfolding fetch_def by (rule triple_attempt) (auto simp: triple_def at_def)

lemma io_corrupt_triple:
  assumes "triple P m Q (\<lambda>_. E)" shows "triple P (io_corrupt m) Q (\<lambda>_. E)"
  using assms by (fastforce simp: io_corrupt_def triple_def split: prod.splits sum.splits)

lemma read_exact_or_eof_some:
  assumes "length x = n" "x \<noteq> []"
  shows "triple (at k R) (read_exact_or_eof n (x @ rest)) (\<lambda>y. at k (\<lambda>c. R c \<and> y = Some (x, rest))) (\<lambda>_. at k (\<lambda>c. R c \<and> \<not> k))"
  unfolding read_exact_or_eof_def
  by (rule triple_seq [OF fetch_triple]) (use assms in \<open>auto simp: triple_def at_def\<close>)

lemma read_exact_some:
  assumes "length x = n"
  shows "triple (at k R) (read_exact n (x @ rest)) (\<lambda>y. at k (\<lambda>c. R c \<and> y = (x, rest))) (\<lambda>_. at k (\<lambda>c. R c \<and> \<not> k))"
  unfolding read_exact_def
  by (rule triple_seq [OF fetch_triple]) (use assms in \<open>auto simp: triple_def at_def\<close>)

lemma read_exact_or_eof_none:
  "triple (at k R) (read_exact_or_eof n []) (\<lambda>y. at k (\<lambda>c. R c \<and> y = None)) (\<lambda>_. at k (\<lambda>c. R c \<and> \<not> k))"
  unfolding read_exact_or_eof_def
  by (rule triple_seq [OF fetch_triple]) (auto simp: triple_def at_def)

lemma entry_parts:
  assumes "length a = 8" "length b = 8"
  shows "slice 0 8 (a @ b @ f) = a" "slice 8 16 (a @ b @ f) = b" "slice 16 20 (a @ b @ f) = take 4 f"
    "drop 16 (a @ b @ f) = f"
  using assms by (simp_all add: slice_def)

lemma read_next_entry:
  assumes "wf_head h" "rr_input r = run_entry h @ rest"
  shows "triple (at k R) (read_next r)
    (\<lambda>(r', again). at k (\<lambda>c. R c \<and> again \<and> run_head r' = h \<and> rr_input r' = rest))
    (\<lambda>_. at k (\<lambda>c. R c \<and> \<not> k))"
proof -
  define entry where "entry = le64 (fst (hd_arrival h)) @ le64 (snd (hd_arrival h)) @ take 8 (hd_frame h)"
  define payload where "payload = drop 8 (hd_frame h)"
  have input: "rr_input r = entry @ payload @ rest"
    using assms(2) by (simp add: run_entry_def entry_def payload_def)
  have len: "length entry = ARRIVAL_BYTES + FRAME_HEADER_BYTES" "entry \<noteq> []"
    using wf_head_frame(1) [OF assms(1)] by (auto simp: entry_def ARRIVAL_BYTES_def FRAME_HEADER_BYTES_def)
  have payload: "length payload = unat (from_le (take 4 (hd_frame h)) :: u32)"
    using wf_head_frame(2) [OF assms(1)] unfolding payload_def length_drop by linarith
  have parts: "from_le (slice 0 8 entry) = fst (hd_arrival h)" "from_le (slice 8 16 entry) = snd (hd_arrival h)"
    "slice 16 20 entry = take 4 (hd_frame h)" "drop ARRIVAL_BYTES entry @ payload = hd_frame h"
    by (simp_all add: entry_def payload_def entry_parts ARRIVAL_BYTES_def)
  show ?thesis
    unfolding read_next_def input
  proof (intro triple_seq [OF io_corrupt_triple [OF read_exact_or_eof_some [OF len(1,2)]]] triple_at_known,
      simp only: option.case prod.case Let_def parts,
      intro triple_seq [OF io_corrupt_triple [OF read_exact_some [OF payload]]] triple_at_known)
    show "triple (at k R)
       ((case x of (payload, rest') \<Rightarrow>
           case verified_sort_key (drop ARRIVAL_BYTES entry @ payload) of
             Inl _ \<Rightarrow> fail (Io (corrupt_run ''undecodable entry''))
           | Inr (ts, i, _) \<Rightarrow> ok (\<lparr>rr_input = rest', rr_ts = ts, rr_arrival = (fst (hd_arrival h), snd (hd_arrival h)),
               rr_frame = drop ARRIVAL_BYTES entry @ payload, rr_id = i\<rparr>, True)))
       (\<lambda>(r', again). at k (\<lambda>c. R c \<and> again \<and> run_head r' = h \<and> rr_input r' = rest))
       (\<lambda>_. at k (\<lambda>c. R c \<and> \<not> k))" if "x = (payload, rest)" for x
      using assms(1) by (simp add: that parts wf_head_def triple_def run_head_def at_def)
  qed
qed

lemma read_next_end:
  assumes "rr_input r = []"
  shows "triple (at k R) (read_next r) (\<lambda>(r', again). at k (\<lambda>c. R c \<and> \<not> again)) (\<lambda>_. at k (\<lambda>c. R c \<and> \<not> k))"
  unfolding read_next_def assms
  by (intro triple_seq [OF io_corrupt_triple [OF read_exact_or_eof_none]] triple_at_known)
    (simp add: triple_def at_def)

lemma run_next:
  assumes "rr_input r = run_bytes hs" "\<forall>h\<in>set hs. wf_head h"
  shows "triple (at k R) (read_next r)
    (\<lambda>(r', again). at k (\<lambda>c. R c \<and> again = (hs \<noteq> []) \<and> (again \<longrightarrow> run_holds r' hs)))
    (\<lambda>_. at k (\<lambda>c. R c \<and> \<not> k))"
proof (cases hs)
  case Nil
  with assms have "rr_input r = []" by simp
  from read_next_end [OF this] show ?thesis by (rule triple_conseq) (auto simp: at_def Nil)
next
  case (Cons h rest)
  with assms have "wf_head h" "rr_input r = run_entry h @ run_bytes rest" by auto
  from read_next_entry [OF this, of k R] show ?thesis
    by (rule triple_conseq) (use assms(2) in \<open>auto simp: at_def Cons run_holds_def\<close>)
qed

interpretation run_source: source run_head run_advance run_holds
proof
  fix s h hs k R
  assume s: "run_holds s (h # hs)"
  then show "run_head s = h" by (simp add: run_holds_def)
  from s show "triple (at k R) (run_advance s)
      (\<lambda>(s', again). at k (\<lambda>c. R c \<and> again = (hs \<noteq> []) \<and> (again \<longrightarrow> run_holds s' hs)))
      (\<lambda>_. at k (\<lambda>c. R c \<and> \<not> k))"
    unfolding run_advance_def by (intro run_next) (auto simp: run_holds_def)
qed

text \<open>The box is a source because both trait implementations are.\<close>

fun src_holds :: "Src \<Rightarrow> Head list \<Rightarrow> bool" where
  "src_holds (MemSource r) hs = mem_holds r hs"
| "src_holds (RunSource r) hs = run_holds r hs"

lemma boxed_advance:
  assumes "triple (at k R) m (\<lambda>(s', again). at k (\<lambda>c. R c \<and> again = b \<and> (again \<longrightarrow> P s'))) E"
    "\<And>s. P s \<Longrightarrow> src_holds (box s) hs"
  shows "triple (at k R) (seq m (\<lambda>(s', again). ok (box s', again)))
    (\<lambda>(s', again). at k (\<lambda>c. R c \<and> again = b \<and> (again \<longrightarrow> src_holds s' hs))) E"
  by (rule triple_seq [OF assms(1)]) (use assms(2) in \<open>auto simp: triple_def at_def\<close>)

interpretation boxed: source src_head src_advance src_holds
proof
  fix s h hs k R
  assume s: "src_holds s (h # hs)"
  show "src_head s = h"
    using s mem_source.head_first run_source.head_first by (cases s) auto
  show "triple (at k R) (src_advance s)
      (\<lambda>(s', again). at k (\<lambda>c. R c \<and> again = (hs \<noteq> []) \<and> (again \<longrightarrow> src_holds s' hs)))
      (\<lambda>_. at k (\<lambda>c. R c \<and> \<not> k))"
  proof (cases s)
    case (MemSource r)
    with s boxed_advance [OF mem_source.advance_next, of r h hs MemSource hs k R] show ?thesis by simp
  next
    case (RunSource r)
    with s boxed_advance [OF run_source.advance_next, of r h hs RunSource hs k R] show ?thesis by simp
  qed
qed

section \<open>The merge loop\<close>

text \<open>
  \<open>ready sources heap Ls\<close>: the heap orders the sources that still hold something; source \<open>i\<close> of them
  holds \<open>Ls i\<close>.
\<close>

definition heap_key :: "Src list \<Rightarrow> nat \<Rightarrow> u64 \<times> bytes \<times> u64 \<times> u64" where
  "heap_key sources i = head_key (src_head (sources ! i))"

definition ready :: "Src list \<Rightarrow> nat list \<Rightarrow> (nat \<Rightarrow> Head list) \<Rightarrow> bool" where
  "ready sources heap Ls \<longleftrightarrow>
     boxed.holds_all sources heap Ls \<and> distinct heap \<and> heap_above (heap_key sources) 0 heap"

definition pending :: "nat list \<Rightarrow> (nat \<Rightarrow> Head list) \<Rightarrow> Head multiset" where
  "pending heap Ls = (\<Sum>i\<in>set heap. mset (Ls i))"

lemma src_less_key: "src_less sources = (\<lambda>a b. heap_key sources a < heap_key sources b)"
  by (rule ext)+ (simp add: src_less_def heap_key_def)

lemma in_pending: "h \<in># pending heap Ls \<longleftrightarrow> (\<exists>i\<in>set heap. h \<in> set (Ls i))"
proof -
  have "h \<in># (\<Sum>i\<in>A. mset (Ls i)) \<longleftrightarrow> (\<exists>i\<in>A. h \<in> set (Ls i))" if "finite A" for A
    using that by (induction A) auto
  then show ?thesis by (simp add: pending_def)
qed

lemma pending_least:
  assumes "ready sources (root # heap) Ls" "h \<in># pending (root # heap) Ls"
  shows "head_key (hd (Ls root)) \<le> head_key h"
proof -
  obtain i where i: "i \<in> set (root # heap)" "h \<in> set (Ls i)" using assms(2) by (auto simp: in_pending)
  then obtain j where j: "j < length (root # heap)" "i = (root # heap) ! j" by (metis in_set_conv_nth)
  have all: "boxed.holds_all sources (root # heap) Ls" using assms(1) by (simp add: ready_def)
  have "heap_key sources root \<le> heap_key sources i"
    using heap_root_least [of "heap_key sources" "root # heap" j] assms(1) j by (simp add: ready_def)
  also have "\<dots> \<le> head_key h" using boxed.holds_all_least [OF all i] by (simp add: heap_key_def)
  finally show ?thesis using boxed.holds_all_head [OF all, of root] by (simp add: heap_key_def)
qed

lemma ready_next:
  assumes r: "ready sources heap Ls" and heap: "heap = root # rest"
    and all: "boxed.holds_all (sources[root := s']) (if again then heap else filter (\<lambda>j. j \<noteq> root) heap) (Ls(root := tl (Ls root)))"
    and again: "again = (tl (Ls root) \<noteq> [])"
    and heap': "heap' = sift_down (src_less (sources[root := s']))
      (if again then heap else butlast (list_swap heap 0 (length heap - 1))) 0"
  shows "ready (sources[root := s']) heap' (Ls(root := tl (Ls root))) \<and>
    pending heap Ls = add_mset (hd (Ls root)) (pending heap' (Ls(root := tl (Ls root))))"
proof -
  let ?key = "heap_key (sources[root := s'])" and ?is = "if again then heap else filter (\<lambda>j. j \<noteq> root) heap"
  let ?h = "if again then heap else butlast (list_swap heap 0 (length heap - 1))"
  have d: "distinct heap" and above: "heap_above (heap_key sources) 0 heap" and root: "Ls root \<noteq> []"
    using r heap by (auto simp: ready_def boxed.holds_all_def)
  have "root \<noteq> heap ! k" if "0 < k" "k < length heap" for k
    using d heap that nth_eq_iff_index_eq [of heap k 0] by auto
  then have "\<forall>k. 0 < k \<and> k < length heap \<longrightarrow> ?key (heap ! k) = heap_key sources (heap ! k)"
    by (simp add: heap_key_def)
  then have "heap_but ?key 0 0 ?h"
    using heap_root_changed [OF above] heap_popped [OF above] heap by auto
  from sift_down_correct [OF src_less_key this] have up: "heap_above ?key 0 heap'" "mset heap' = mset ?h"
    by (auto simp: heap')
  have "mset ?h = mset ?is"
  proof (cases again)
    case False
    have "filter (\<lambda>j. j \<noteq> root) rest = rest" using d heap by (auto simp: filter_id_conv)
    with False mset_popped [of heap] heap show ?thesis by simp
  qed simp
  with up have eq: "mset heap' = mset ?is" by simp
  have same: "set heap' = set ?is" "distinct heap'"
    using mset_eq_setD [OF eq] mset_eq_imp_distinct_iff [OF eq] d by auto
  have "boxed.holds_all (sources[root := s']) heap' (Ls(root := tl (Ls root)))"
    using all same(1) by (simp add: boxed.holds_all_def)
  moreover have "pending heap Ls = mset (Ls root) + (\<Sum>i\<in>set heap - {root}. mset (Ls i))"
    using heap by (simp add: pending_def sum.remove [of "insert root (set rest)" root])
  moreover have "mset (Ls root) = add_mset (hd (Ls root)) (mset (tl (Ls root)))" using root by (cases "Ls root") auto
  moreover have "(\<Sum>i\<in>set heap - {root}. mset ((Ls(root := tl (Ls root))) i)) = (\<Sum>i\<in>set heap - {root}. mset (Ls i))"
    by (rule sum.cong) auto
  moreover have "pending heap' (Ls(root := tl (Ls root))) =
      mset (tl (Ls root)) + (\<Sum>i\<in>set heap - {root}. mset ((Ls(root := tl (Ls root))) i))"
  proof (cases again)
    case True
    with same heap show ?thesis
      by (simp add: pending_def sum.remove [of "insert root (set rest)" root] del: fun_upd_apply) simp
  next
    case False
    with same have "set heap' = set heap - {root}" by auto
    with False again show ?thesis by (simp add: pending_def)
  qed
  ultimately show ?thesis using up same by (simp add: ready_def)
qed

lemma merge_loop_unfold:
  "merge_loop sink sources heap last_key stats w =
     (case heap of
        [] \<Rightarrow> ok (stats, w)
      | root # _ \<Rightarrow>
          if length sources \<le> root then fail (Io (IoOther ''index out of bounds''))
          else
            let h = src_head (sources ! root); duplicate = (last_key = Some (hd_ts h, hd_id h)) in
            seq (if duplicate then ok w else sink h w) (\<lambda>w1.
            seq (src_advance (sources ! root)) (\<lambda>(src, again).
              let sources' = sources[root := src];
                  heap' = (if again then heap else butlast (list_swap heap 0 (length heap - 1))) in
              merge_loop sink sources' (sift_down (src_less sources') heap' 0)
                (if duplicate then last_key else Some (hd_ts h, hd_id h))
                (if duplicate then stats\<lparr>ms_deduplicated := ms_deduplicated stats + 1\<rparr>
                 else stats\<lparr>ms_emitted := ms_emitted stats + 1\<rparr>) w1)))"
  by (rule ext) (subst merge_loop.simps, auto simp: seq_def Let_def split: list.splits prod.splits sum.splits)

text \<open>
  The sink accumulates: \<open>J hs w\<close> holds of its value and the files once it has been given \<open>hs\<close>.
\<close>

definition tallied :: "MergeStats \<Rightarrow> (u64 \<times> bytes) option \<Rightarrow> Head list \<Rightarrow> MergeStats \<Rightarrow> bool" where
  "tallied stats last_key L stats' \<longleftrightarrow>
     ms_emitted stats' = ms_emitted stats + length (emit last_key L) \<and>
     ms_deduplicated stats' = ms_deduplicated stats + (length L - length (emit last_key L))"

definition counted :: "bool \<Rightarrow> MergeStats \<Rightarrow> MergeStats" where
  "counted duplicate stats =
     (if duplicate then stats\<lparr>ms_deduplicated := ms_deduplicated stats + 1\<rparr>
      else stats\<lparr>ms_emitted := ms_emitted stats + 1\<rparr>)"

lemma tallied_Cons:
  assumes "tallied (counted (last_key = Some (ts_id h)) stats) (Some (ts_id h)) L stats'"
  shows "tallied stats last_key (h # L) stats'"
  using assms length_emit [of "Some (ts_id h)" L]
  by (auto simp: tallied_def counted_def Suc_diff_le split: if_splits)

text \<open>One round: the head of the root source is emitted or dropped, the source moves on.\<close>

lemma merge_round:
  assumes r: "ready sources heap Ls" and heap: "heap = root # rest" and h: "h = hd (Ls root)"
    and dup: "dup \<longleftrightarrow> last_key = Some (ts_id h)"
    and sink: "\<And>w. triple (at k (J hs w)) (sink h w) (\<lambda>w'. at k (J (hs @ [h]) w')) (\<lambda>_. at k E)"
    and E: "\<And>hs w c. J hs w c \<Longrightarrow> \<not> k \<Longrightarrow> E c"
    and loop: "\<And>w1 sources' heap' Ls'. ready sources' heap' Ls' \<Longrightarrow> pending heap Ls = add_mset h (pending heap' Ls') \<Longrightarrow>
      triple (at k (J (if dup then hs else hs @ [h]) w1))
        (merge_loop sink sources' heap' (Some (ts_id h)) (counted dup stats) w1) Q (\<lambda>_. at k E)"
  shows "triple (at k (J hs w)) (merge_loop sink sources heap last_key stats w) Q (\<lambda>_. at k E)"
proof -
  have all: "boxed.holds_all sources heap Ls" "root \<in> set heap" "distinct heap"
    using r heap by (auto simp: ready_def)
  have head: "src_head (sources ! root) = h" "root < length sources"
    using all boxed.holds_all_head [OF all(1,2)] by (auto simp: h boxed.holds_all_def)
  let ?J = "J (if dup then hs else hs @ [h])"
  have first: "triple (at k (J hs w)) (if dup then ok w else sink h w) (\<lambda>w1. at k (?J w1)) (\<lambda>_. at k E)"
    using sink [of w] by (simp add: triple_def)
  have adv: "triple (at k (?J w1)) (src_advance (sources ! root))
      (\<lambda>(s', again). at k (\<lambda>c. ?J w1 c \<and> again = (tl (Ls root) \<noteq> []) \<and>
          boxed.holds_all (sources[root := s']) (if again then heap else filter (\<lambda>j. j \<noteq> root) heap) (Ls(root := tl (Ls root)))))
      (\<lambda>_. at k E)" for w1
    by (rule triple_conseq [OF boxed.advance_all [OF all, of k "?J w1"]]) (auto simp: at_def E)
  have go: "triple
      (at k (\<lambda>c. ?J w1 c \<and> again = (tl (Ls root) \<noteq> []) \<and>
          boxed.holds_all (sources[root := s']) (if again then heap else filter (\<lambda>j. j \<noteq> root) heap) (Ls(root := tl (Ls root)))))
      (merge_loop sink (sources[root := s']) (sift_down (src_less (sources[root := s']))
        (if again then heap else butlast (list_swap heap 0 (length heap - 1))) 0) (Some (ts_id h)) (counted dup stats) w1)
      Q (\<lambda>_. at k E)" for w1 s' again
    using loop [of _ _ _ w1] ready_next [OF r heap _ _ refl, of s' again, folded h]
    by (fastforce simp: triple_def at_def)
  have "merge_loop sink sources heap last_key stats w =
      seq (if dup then ok w else sink h w) (\<lambda>w1. seq (src_advance (sources ! root)) (\<lambda>(s', again).
        merge_loop sink (sources[root := s']) (sift_down (src_less (sources[root := s']))
          (if again then heap else butlast (list_swap heap 0 (length heap - 1))) 0) (Some (ts_id h)) (counted dup stats) w1))"
    using head by (subst merge_loop_unfold) (auto simp: heap dup ts_id_def counted_def Let_def intro!: arg_cong2 [where f = seq] ext)
  moreover have "triple (at k (?J w1)) (seq (src_advance (sources ! root)) (\<lambda>(s', again).
        merge_loop sink (sources[root := s']) (sift_down (src_less (sources[root := s']))
          (if again then heap else butlast (list_swap heap 0 (length heap - 1))) 0) (Some (ts_id h)) (counted dup stats) w1))
      Q (\<lambda>_. at k E)" for w1
    by (rule triple_seq [OF adv]) (simp only: split_beta go)
  ultimately show ?thesis by (metis (no_types, lifting) triple_seq [OF first])
qed

lemma pending_nonempty:
  assumes "ready sources heap Ls" "i \<in> set heap" shows "hd (Ls i) \<in># pending heap Ls"
proof -
  have "Ls i \<noteq> []" using assms by (auto simp: ready_def boxed.holds_all_def)
  with assms(2) show ?thesis by (auto simp: in_pending intro!: bexI [of _ i])
qed

lemma merge_loop_correct:
  assumes sink: "\<And>hs h w. h \<in># all \<Longrightarrow> \<forall>h'\<in>set hs. head_key h' \<le> head_key h \<Longrightarrow>
      triple (at k (J hs w)) (sink h w) (\<lambda>w'. at k (J (hs @ [h]) w')) (\<lambda>_. at k E)"
    and E: "\<And>hs w c. J hs w c \<Longrightarrow> \<not> k \<Longrightarrow> E c"
    and ready: "ready sources heap Ls" and sub: "pending heap Ls \<subseteq># all"
    and above: "\<forall>h'\<in>set hs. \<forall>x\<in>#pending heap Ls. head_key h' \<le> head_key x"
  shows "triple (at k (J hs w)) (merge_loop sink sources heap last_key stats w)
    (\<lambda>(stats', w'). at k (\<lambda>c. \<exists>L. mset L = pending heap Ls \<and> sorted (map head_key L) \<and>
        tallied stats last_key L stats' \<and> J (hs @ emit last_key L) w' c))
    (\<lambda>_. at k E)"
  using ready sub above
proof (induction "size (pending heap Ls)" arbitrary: sources heap Ls last_key stats hs w)
  case 0
  then have "heap = []" using pending_nonempty [OF 0(2)] by (cases heap) auto
  then show ?case
    by (auto simp: merge_loop_unfold triple_def at_def pending_def tallied_def intro!: exI [of _ "[]"])
next
  case (Suc n)
  have "heap \<noteq> []" using Suc(2) by (auto simp: pending_def)
  then obtain root rest where heap: "heap = root # rest" by (cases heap) auto
  define h where "h = hd (Ls root)"
  have here: "h \<in># all" using Suc(3,4) heap pending_nonempty [OF Suc(3), of root] by (auto simp: h_def dest: mset_subset_eqD)
  let ?dup = "last_key = Some (ts_id h)"
  show ?case
  proof (rule merge_round [where J = J and E = E and hs = hs, OF Suc(3) heap h_def refl])
    show "triple (at k (J hs w)) (sink h w) (\<lambda>w'. at k (J (hs @ [h]) w')) (\<lambda>_. at k E)" for w
      using Suc(5) heap pending_nonempty [OF Suc(3), of root] by (intro sink [OF here]) (auto simp: h_def)
    show "J hs w c \<Longrightarrow> \<not> k \<Longrightarrow> E c" for hs w c by (rule E)
  next
    fix w1 sources' heap' Ls'
    assume r: "ready sources' heap' Ls'" "pending heap Ls = add_mset h (pending heap' Ls')"
    let ?hs = "if ?dup then hs else hs @ [h]"
    have IH: "triple (at k (J ?hs w1)) (merge_loop sink sources' heap' (Some (ts_id h)) (counted ?dup stats) w1)
      (\<lambda>(stats', w'). at k (\<lambda>c. \<exists>L. mset L = pending heap' Ls' \<and> sorted (map head_key L) \<and>
        tallied (counted ?dup stats) (Some (ts_id h)) L stats' \<and> J (?hs @ emit (Some (ts_id h)) L) w' c)) (\<lambda>_. at k E)"
    proof (rule Suc(1))
      show "\<forall>h'\<in>set ?hs. \<forall>x\<in>#pending heap' Ls'. head_key h' \<le> head_key x"
        using Suc(5) r(2) pending_least [OF Suc(3) [unfolded heap]] heap by (auto simp: h_def)
    qed (use Suc(2,4) r in \<open>auto dest: mset_subset_eq_insertD subset_mset.less_imp_le\<close>)
    have "\<exists>L'. mset L' = pending heap Ls \<and> sorted (map head_key L') \<and>
        tallied stats last_key L' stats' \<and> J (hs @ emit last_key L') w' c"
      if L: "mset L = pending heap' Ls'" "sorted (map head_key L)" "tallied (counted ?dup stats) (Some (ts_id h)) L stats'"
        "J (?hs @ emit (Some (ts_id h)) L) w' c" for L stats' w' c
    proof (intro exI [of _ "h # L"] conjI)
      show "mset (h # L) = pending heap Ls" using r L by simp
      have "head_key h \<le> head_key x" if "x \<in> set L" for x
        using pending_least [OF Suc(3) [unfolded heap], of x] r(2) L(1) that heap
        by (metis h_def insert_iff set_mset_add_mset_insert set_mset_mset)
      then show "sorted (map head_key (h # L))" using L(2) by auto
      show "tallied stats last_key (h # L) stats'" by (rule tallied_Cons [OF L(3)])
      show "J (hs @ emit last_key (h # L)) w' c" using L(4) by (auto split: if_splits)
    qed
    then show "triple (at k (J ?hs w1)) (merge_loop sink sources' heap' (Some (ts_id h)) (counted ?dup stats) w1)
      (\<lambda>(stats', w'). at k (\<lambda>c. \<exists>L. mset L = pending heap Ls \<and> sorted (map head_key L) \<and>
        tallied stats last_key L stats' \<and> J (hs @ emit last_key L) w' c)) (\<lambda>_. at k E)"
      by (intro triple_conseq [OF IH]) (auto simp: at_def split: prod.splits)
  qed
qed

section \<open>A whole merge\<close>

definition merge_stats :: "Head list \<Rightarrow> MergeStats" where
  "merge_stats hs =
     \<lparr>ms_emitted = length (first_arrivals hs), ms_deduplicated = length hs - length (first_arrivals hs)\<rparr>"

lemma sum_mset_concat: "(\<Sum>i = 0..<length Ls. mset (Ls ! i)) = mset (concat Ls)"
proof (induction Ls rule: rev_induct)
  case (snoc L Ls)
  have "(\<Sum>i = 0..<length Ls. mset ((Ls @ [L]) ! i)) = (\<Sum>i = 0..<length Ls. mset (Ls ! i))"
    by (rule sum.cong) (simp_all add: nth_append)
  with snoc show ?case by simp
qed simp

lemma heapify_ready:
  assumes "list_all2 src_holds sources Ls" "\<forall>L\<in>set Ls. L \<noteq> [] \<and> sorted (map head_key L)"
  shows "ready sources (heapify (src_less sources) (length sources)) ((!) Ls)"
    "pending (heapify (src_less sources) (length sources)) ((!) Ls) = mset (concat Ls)"
proof -
  let ?heap = "heapify (src_less sources) (length sources)"
  have heap: "heap_above (heap_key sources) 0 ?heap" "mset ?heap = mset [0..<length sources]"
    using heapify_correct [OF src_less_key, of sources "length sources"] by auto
  have len: "length Ls = length sources" using assms(1) by (simp add: list_all2_lengthD)
  have set: "set ?heap = {0..<length sources}" using mset_eq_setD [OF heap(2)] by simp
  have "distinct ?heap" using mset_eq_imp_distinct_iff [OF heap(2)] by simp
  then show "ready sources ?heap ((!) Ls)"
    using heap(1) assms len set by (auto simp: ready_def boxed.holds_all_def list_all2_conv_all_nth)
  show "pending ?heap ((!) Ls) = mset (concat Ls)" using sum_mset_concat [of Ls] len by (simp add: pending_def set)
qed

lemma merge_correct:
  assumes sink: "\<And>hs h w. h \<in> set (concat Ls) \<Longrightarrow> \<forall>h'\<in>set hs. head_key h' \<le> head_key h \<Longrightarrow>
      triple (at k (J hs w)) (sink h w) (\<lambda>w'. at k (J (hs @ [h]) w')) (\<lambda>_. at k E)"
    and E: "\<And>hs w c. J hs w c \<Longrightarrow> \<not> k \<Longrightarrow> E c"
    and holds: "list_all2 src_holds sources Ls" "\<forall>L\<in>set Ls. L \<noteq> [] \<and> sorted (map head_key L)"
    and inj: "inj_on head_key (set (concat Ls))"
  shows "triple (at k (J [] w)) (merge sink sources w)
    (\<lambda>(stats, w'). at k (\<lambda>c. stats = merge_stats (concat Ls) \<and> J (first_arrivals (concat Ls)) w' c))
    (\<lambda>_. at k E)"
proof -
  note ready = heapify_ready [OF holds]
  have loop: "triple (at k (J [] w)) (merge sink sources w)
    (\<lambda>(stats, w'). at k (\<lambda>c. \<exists>L. mset L = mset (concat Ls) \<and> sorted (map head_key L) \<and>
        tallied stats_default None L stats \<and> J ([] @ emit None L) w' c)) (\<lambda>_. at k E)"
    unfolding merge_def ready(2) [symmetric]
    by (rule merge_loop_correct [where all = "mset (concat Ls)"]) (use sink E ready in auto)
  have "stats = merge_stats (concat Ls) \<and> emit None L = first_arrivals (concat Ls)"
    if "mset L = mset (concat Ls)" "sorted (map head_key L)" "tallied stats_default None L stats" for L stats
  proof -
    have set: "set L = set (concat Ls)" and len: "length L = length (concat Ls)"
      using that(1) by (metis set_mset_mset, metis size_mset)
    have "emit None L = first_arrivals (concat Ls)"
      using emit_first_arrivals [OF that(2)] inj set first_arrivals_cong [OF inj set] by simp
    with that(3) len show ?thesis by (simp add: tallied_def merge_stats_def stats_default_def)
  qed
  then show ?thesis by (intro triple_conseq [OF loop]) (fastforce simp: at_def)+
qed

section \<open>Run files\<close>

text \<open>
  \<open>buffered c0 p x w c\<close>: the files are \<open>c0\<close> except for \<open>p\<close>, whose bytes and the writer's buffer
  together are \<open>x\<close>.
\<close>

definition buffered :: "(path \<rightharpoonup> bytes) \<Rightarrow> path \<Rightarrow> bytes \<Rightarrow> BufWriter \<Rightarrow> (path \<rightharpoonup> bytes) \<Rightarrow> bool" where
  "buffered c0 p x w c \<longleftrightarrow> bw_path w = p \<and> length (bw_buf w) \<le> bw_cap w \<and>
     (\<exists>cs. c = c0(p \<mapsto> cs) \<and> cs @ bw_buf w = x)"

lemma at_appended:
  assumes "appended p x d d'" "content d p = Some cs" "at k R d"
  shows "content d' = (content d)(p \<mapsto> cs @ x) \<and> wf_disk d' \<and> (k \<longrightarrow> calm d')"
  using assms by (auto simp: appended_def at_def)

lemma buf_write_triple:
  "triple (at k (buffered c0 p x w)) (buf_io (buf_write_all bs) w)
     (\<lambda>w'. at k (buffered c0 p (x @ bs) w')) (\<lambda>_. at k (\<lambda>c. scribbled c0 p c \<and> \<not> k))"
proof -
  have "case buf_io (buf_write_all bs) w d of
      (Inr w', d') \<Rightarrow> at k (buffered c0 p (x @ bs) w') d'
    | (Inl e, d') \<Rightarrow> at k (\<lambda>c. scribbled c0 p c \<and> \<not> k) d'" if d: "at k (buffered c0 p x w) d" for d
  proof -
    obtain cs where cs: "bw_path w = p" "length (bw_buf w) \<le> bw_cap w" "content d = c0(p \<mapsto> cs)" "cs @ bw_buf w = x"
      using d by (auto simp: at_def buffered_def)
    obtain r w' d' where run: "buf_write_all bs (w, d) = (r, (w', d'))" by (metis prod.exhaust)
    have "content d (bw_path w) = Some cs" using cs by simp
    from buf_write_all_spec [OF run this cs(2)] obtain y where w': "bw_path w' = p" "length (bw_buf w') \<le> bw_cap w'"
      and calm: "calm d \<longrightarrow> r = Inr ()" and y: "appended p y d d'" "r = Inr () \<longrightarrow> y @ bw_buf w' = bw_buf w @ bs"
      using cs(1) by auto
    have d': "content d' = c0(p \<mapsto> cs @ y)" "wf_disk d'" "k \<longrightarrow> calm d'"
      using at_appended [OF y(1) _ d, of cs] cs by auto
    show ?thesis
    proof (cases r)
      case (Inl e)
      with calm d have "\<not> k" by (auto simp: at_def)
      with Inl run d' show ?thesis by (auto simp: buf_io_def at_def scribbled_def)
    next
      case (Inr u)
      with y(2) have "(cs @ y) @ bw_buf w' = x @ bs" using cs(4) by simp
      with Inr run d' w' show ?thesis by (auto simp: buf_io_def at_def buffered_def intro!: exI [of _ "cs @ y"])
    qed
  qed
  then show ?thesis unfolding triple_def by blast
qed

lemma buf_flush_triple:
  "triple (at k (buffered c0 p x w)) (buf_io flush_buf w)
     (\<lambda>_. at k (\<lambda>c. c = c0(p \<mapsto> x))) (\<lambda>_. at k (\<lambda>c. scribbled c0 p c \<and> \<not> k))"
proof -
  have "case buf_io flush_buf w d of
      (Inr w', d') \<Rightarrow> at k (\<lambda>c. c = c0(p \<mapsto> x)) d'
    | (Inl e, d') \<Rightarrow> at k (\<lambda>c. scribbled c0 p c \<and> \<not> k) d'" if d: "at k (buffered c0 p x w) d" for d
  proof -
    obtain cs where cs: "bw_path w = p" "content d = c0(p \<mapsto> cs)" "cs @ bw_buf w = x"
      using d by (auto simp: at_def buffered_def)
    obtain r w' d' where run: "flush_buf (w, d) = (r, (w', d'))" by (metis prod.exhaust)
    have "content d (bw_path w) = Some cs" using cs by simp
    from flush_buf_moves [OF run this] obtain y where y: "bw_buf w = y @ bw_buf w'" "appended p y d d'"
      "r = Inr () \<longrightarrow> bw_buf w' = []" "calm d \<longrightarrow> r = Inr ()" using cs(1) by auto
    have d': "content d' = c0(p \<mapsto> cs @ y)" "wf_disk d'" "k \<longrightarrow> calm d'"
      using at_appended [OF y(2) _ d, of cs] cs by auto
    show ?thesis
      using run d' y cs d by (cases r) (auto simp: buf_io_def at_def scribbled_def)
  qed
  then show ?thesis unfolding triple_def by blast
qed

text \<open>The run writer, given heads one after the other, has their entries in its file at the end.\<close>

definition written :: "(path \<rightharpoonup> bytes) \<Rightarrow> path \<Rightarrow> Head list \<Rightarrow> RunWriter \<Rightarrow> (path \<rightharpoonup> bytes) \<Rightarrow> bool" where
  "written c0 p hs w c \<longleftrightarrow> rw_entries w = length hs \<and> buffered c0 p (run_bytes hs) (rw_out w) c"

lemma run_create_triple:
  "triple (at k (\<lambda>c. c = c0)) (run_create p) (\<lambda>w. at k (written c0 p [] w)) (\<lambda>_. at k (\<lambda>c. c = c0 \<and> \<not> k))"
  unfolding run_create_def
proof (rule triple_seq [where Q = "\<lambda>_. at k (\<lambda>c. c = c0(p \<mapsto> []))"])
  show "triple (at k (\<lambda>c. c = c0)) (lift_io (fs_create p)) (\<lambda>_. at k (\<lambda>c. c = c0(p \<mapsto> []))) (\<lambda>_. at k (\<lambda>c. c = c0 \<and> \<not> k))"
    by (rule triple_lift_io, rule triple_at_pre [OF fs_create_triple]) simp
qed (auto simp: triple_def at_def written_def buffered_def buf_new_def)

lemma run_push_triple:
  "triple (at k (written c0 p hs w)) (run_push (hd_arrival h) (hd_frame h) w)
     (\<lambda>w'. at k (written c0 p (hs @ [h]) w')) (\<lambda>_. at k (\<lambda>c. scribbled c0 p c \<and> \<not> k))"
  unfolding written_def [of c0 p hs w] run_push_def
proof (rule triple_at_assume, rule triple_seq [OF buf_write_triple], rule triple_seq [OF buf_write_triple],
    rule triple_seq [OF buf_write_triple])
  fix o3 assume "rw_entries w = length hs"
  then show "triple (at k (buffered c0 p (((run_bytes hs @ le64 (fst (hd_arrival h))) @ le64 (snd (hd_arrival h))) @ hd_frame h) o3))
      (ok \<lparr>rw_out = o3, rw_entries = rw_entries w + 1\<rparr>) (\<lambda>w'. at k (written c0 p (hs @ [h]) w'))
      (\<lambda>_. at k (\<lambda>c. scribbled c0 p c \<and> \<not> k))"
    by (simp add: triple_def at_def written_def run_entry_def)
qed

lemma run_finish_triple:
  "triple (at k (written c0 p hs w)) (run_finish w)
     (\<lambda>n. at k (\<lambda>c. c = c0(p \<mapsto> run_bytes hs) \<and> n = length hs)) (\<lambda>_. at k (\<lambda>c. scribbled c0 p c \<and> \<not> k))"
  unfolding written_def run_finish_def
  by (rule triple_at_assume, rule triple_seq [OF buf_flush_triple]) (simp add: triple_def at_def)

section \<open>Opening runs\<close>

definition hold :: "(path \<Rightarrow> Head list) \<Rightarrow> path list \<Rightarrow> (path \<rightharpoonup> bytes) \<Rightarrow> bool" where
  "hold F runs c \<longleftrightarrow> (\<forall>p\<in>set runs. c p = Some (run_bytes (F p)))"

definition sound_runs :: "(path \<Rightarrow> Head list) \<Rightarrow> path list \<Rightarrow> bool" where
  "sound_runs F runs \<longleftrightarrow> distinct runs \<and>
     (\<forall>p\<in>set runs. sorted (map head_key (F p)) \<and> (\<forall>h\<in>set (F p). wf_head h))"

lemma run_open_triple:
  assumes there: "\<And>c. R c \<Longrightarrow> c p = Some (run_bytes hs)" and wf: "\<forall>h\<in>set hs. wf_head h"
  shows "triple (at k R) (run_open p)
    (\<lambda>r. at k (\<lambda>c. R c \<and> (case r of None \<Rightarrow> hs = [] | Some r' \<Rightarrow> hs \<noteq> [] \<and> run_holds r' hs)))
    (\<lambda>_. at k (\<lambda>c. R c \<and> \<not> k))"
  unfolding run_open_def
proof (rule triple_seq)
  show "triple (at k R) (lift_io (fs_read p)) (\<lambda>bs. at k (\<lambda>c. R c \<and> bs = run_bytes hs)) (\<lambda>_. at k (\<lambda>c. R c \<and> \<not> k))"
    by (rule triple_lift_io, rule triple_at_pre [OF fs_read_triple]) (auto dest: there)
  show "triple (at k (\<lambda>c. R c \<and> bs = run_bytes hs))
      (seq (read_next \<lparr>rr_input = bs, rr_ts = 0, rr_arrival = (0, 0), rr_frame = [], rr_id = []\<rparr>)
        (\<lambda>(r, again). ok (if again then Some r else None)))
      (\<lambda>r. at k (\<lambda>c. R c \<and> (case r of None \<Rightarrow> hs = [] | Some r' \<Rightarrow> hs \<noteq> [] \<and> run_holds r' hs)))
      (\<lambda>_. at k (\<lambda>c. R c \<and> \<not> k))" for bs
    by (rule triple_at_known, rule triple_seq [OF run_next]) (use wf in \<open>auto simp: triple_def at_def\<close>)
qed

lemma open_runs_triple:
  assumes there: "\<And>c. R c \<Longrightarrow> hold F runs c" and sound: "sound_runs F runs"
  shows "triple (at k R) (open_runs runs)
    (\<lambda>out. at k (\<lambda>c. R c \<and> list_all2 src_holds out (filter (\<lambda>L. L \<noteq> []) (map F runs))))
    (\<lambda>_. at k (\<lambda>c. R c \<and> \<not> k))"
proof -
  let ?J = "\<lambda>ps out c. R c \<and> list_all2 src_holds out (filter (\<lambda>L. L \<noteq> []) (map F ps))"
  have "triple (at k (?J ps out)) (seq (run_open p) (\<lambda>r. ok (case r of None \<Rightarrow> out | Some r' \<Rightarrow> out @ [RunSource r'])))
      (\<lambda>out'. at k (?J (ps @ [p]) out')) (\<lambda>_. at k (\<lambda>c. R c \<and> \<not> k))" if "p \<in> set runs" for ps p out
  proof (rule triple_seq)
    have wf: "\<forall>h\<in>set (F p). wf_head h" using sound that by (simp add: sound_runs_def)
    show "triple (at k (?J ps out)) (run_open p)
        (\<lambda>r. at k (\<lambda>c. ?J ps out c \<and> (case r of None \<Rightarrow> F p = [] | Some r' \<Rightarrow> F p \<noteq> [] \<and> run_holds r' (F p))))
        (\<lambda>_. at k (\<lambda>c. R c \<and> \<not> k))"
      by (rule triple_conseq [OF run_open_triple [of "?J ps out" p "F p" k, OF _ wf]])
        (use there that in \<open>auto simp: hold_def at_def\<close>)
  qed (auto simp: triple_def at_def list_all2_appendI split: option.splits)
  from fold_io_triple [of runs k ?J, OF this, of "[]" "[]"] show ?thesis
    by (simp add: open_runs_def)
qed

section \<open>Rounds\<close>

text \<open>
  What a round of merging owes: fewer heads, the same first arrivals whatever else is merged with
  them, and a count of what it dropped.
\<close>

abbreviation heads :: "(path \<Rightarrow> Head list) \<Rightarrow> path list \<Rightarrow> Head list" where
  "heads F runs \<equiv> concat (map F runs)"

definition reduces :: "Head list \<Rightarrow> Head list \<Rightarrow> nat \<Rightarrow> bool" where
  "reduces hs hs' dropped \<longleftrightarrow> set hs' \<subseteq> set hs \<and> length hs' + dropped = length hs \<and>
     (\<forall>M. inj_on head_key (set hs \<union> set M) \<longrightarrow> first_arrivals (hs' @ M) = first_arrivals (hs @ M))"

lemma reduces_refl: "reduces hs hs 0"
  by (simp add: reduces_def)

lemma reduces_trans:
  assumes "reduces hs hs' m" "reduces hs' hs'' n" shows "reduces hs hs'' (m + n)"
proof -
  have "first_arrivals (hs'' @ M) = first_arrivals (hs @ M)" if "inj_on head_key (set hs \<union> set M)" for M
  proof -
    have "inj_on head_key (set hs' \<union> set M)" by (rule inj_on_subset [OF that]) (use assms in \<open>auto simp: reduces_def\<close>)
    with that assms show ?thesis by (simp add: reduces_def)
  qed
  with assms show ?thesis by (auto simp: reduces_def)
qed

lemma reduces_merge:
  assumes "mset (B @ Rst) = mset hs"
  shows "reduces hs (Rst @ first_arrivals B) (length B - length (first_arrivals B))"
proof -
  have sets: "set B \<union> set Rst = set hs" and len: "length B + length Rst = length hs"
    using arg_cong [OF assms, of set_mset] arg_cong [OF assms, of size] by auto
  have "length (first_arrivals B) \<le> length B" by (rule length_first_arrivals)
  moreover have "first_arrivals ((Rst @ first_arrivals B) @ M) = first_arrivals (hs @ M)"
    if inj: "inj_on head_key (set hs \<union> set M)" for M
  proof -
    have inj': "inj_on head_key (set (B @ Rst @ M))" using inj sets by (simp add: Un_assoc [symmetric])
    have "first_arrivals ((Rst @ first_arrivals B) @ M) = first_arrivals (first_arrivals B @ Rst @ M)"
      by (rule first_arrivals_cong) (use inj' in \<open>auto intro: inj_on_subset\<close>)
    also have "\<dots> = first_arrivals (B @ Rst @ M)" by (rule first_arrivals_part [OF inj'])
    also have "\<dots> = first_arrivals (hs @ M)" by (rule first_arrivals_cong) (use inj sets in auto)
    finally show ?thesis .
  qed
  ultimately show ?thesis using sets len by (auto simp: reduces_def)
qed

lemma run_size_triple: "triple (at k R) (run_size p) (\<lambda>_. at k R) E"
proof -
  have "triple (at k R) (attempt (on_file p (\<lambda>bs. ok (length bs)))) (\<lambda>_. at k R) (\<lambda>_. at k R)"
    by (rule triple_attempt) (auto simp: triple_def on_file_def at_def split: option.splits)
  then show ?thesis by (fastforce simp: triple_def run_size_def split: prod.splits sum.splits)
qed

lemma with_sizes_triple: "triple (at k R) (with_sizes ps) (\<lambda>sized. at k (\<lambda>c. R c \<and> map snd sized = ps)) E"
proof (induction ps)
  case (Cons p ps)
  have "triple (at k (\<lambda>c. R c \<and> map snd rest = ps)) (ok ((n, p) # rest))
      (\<lambda>sized. at k (\<lambda>c. R c \<and> map snd sized = p # ps)) E" for n rest
    by (auto simp: triple_def at_def)
  then show ?case by (auto intro!: triple_seq [OF run_size_triple] triple_seq [OF Cons])
qed (simp add: triple_def at_def)

lemma sort_by_size_triple: "triple (at k R) (sort_by_size runs) (\<lambda>qs. at k (\<lambda>c. R c \<and> mset qs = mset runs)) E"
  unfolding sort_by_size_def
  by (rule triple_seq [OF with_sizes_triple]) (auto simp: triple_def at_def)

text \<open>Merging some runs into a new one.\<close>

lemma merge_into_triple:
  assumes batch: "sound_runs F batch" "inj_on head_key (set (heads F batch))" and new: "p \<notin> set batch"
    and there: "hold F batch c1"
  shows "triple (at k (\<lambda>c. c = c1)) (merge_into p batch)
    (\<lambda>stats. at k (\<lambda>c. stats = merge_stats (heads F batch) \<and> c = c1(p \<mapsto> run_bytes (first_arrivals (heads F batch)))))
    (\<lambda>_. at k (\<lambda>c. scribbled c1 p c \<and> \<not> k))"
proof -
  let ?Ls = "filter (\<lambda>L. L \<noteq> []) (map F batch)" and ?J = "written c1 p" and ?E = "\<lambda>c. scribbled c1 p c \<and> \<not> k"
  let ?push = "\<lambda>h. run_push (hd_arrival h) (hd_frame h)"
  have J: "hold F batch c" "scribbled c1 p c" if "?J hs w c" for hs w c
    using that new there by (auto simp: written_def buffered_def hold_def scribbled_def)
  have Ls: "concat ?Ls = heads F batch" by (induction batch) auto
  have sorted: "\<forall>L\<in>set ?Ls. L \<noteq> [] \<and> sorted (map head_key L)" using batch(1) by (auto simp: sound_runs_def)
  have create: "triple (at k (\<lambda>c. c = c1)) (run_create p) (\<lambda>w. at k (?J [] w)) (\<lambda>_. at k ?E)"
    by (rule triple_conseq [OF run_create_triple]) (auto simp: at_def scribbled_def fun_upd_idem intro: exI [of _ "c1 p"])
  have opened: "triple (at k (?J [] w)) (open_runs batch) (\<lambda>out. at k (\<lambda>c. ?J [] w c \<and> list_all2 src_holds out ?Ls)) (\<lambda>_. at k ?E)" for w
    by (rule triple_conseq [OF open_runs_triple [of "?J [] w", OF _ batch(1)]]) (use J in \<open>auto simp: at_def\<close>)
  have merged: "triple (at k (?J [] w)) (merge ?push sources w)
      (\<lambda>(stats, w'). at k (\<lambda>c. stats = merge_stats (heads F batch) \<and> ?J (first_arrivals (heads F batch)) w' c)) (\<lambda>_. at k ?E)"
    if "list_all2 src_holds sources ?Ls" for sources w
    using merge_correct [where J = ?J and k = k and E = ?E and sink = ?push, OF run_push_triple _ that sorted] batch(2) J(2)
    by (simp add: Ls)
  have finished: "triple (at k (\<lambda>c. stats = merge_stats (heads F batch) \<and> ?J (first_arrivals (heads F batch)) w c)) (seq (run_finish w) (\<lambda>_. ok stats))
    (\<lambda>stats. at k (\<lambda>c. stats = merge_stats (heads F batch) \<and> c = c1(p \<mapsto> run_bytes (first_arrivals (heads F batch)))))
    (\<lambda>_. at k ?E)" for stats w
    by (rule triple_at_assume, rule triple_seq [OF run_finish_triple]) (auto simp: triple_def at_def)
  have "triple (at k (\<lambda>c. ?J [] w c \<and> list_all2 src_holds sources ?Ls))
      (seq (merge ?push sources w) (\<lambda>(stats, w'). seq (run_finish w') (\<lambda>_. ok stats)))
      (\<lambda>stats. at k (\<lambda>c. stats = merge_stats (heads F batch) \<and> c = c1(p \<mapsto> run_bytes (first_arrivals (heads F batch)))))
      (\<lambda>_. at k ?E)" for sources w
    by (subst conj_commute, rule triple_at_assume, rule triple_seq [OF merged], assumption) (simp only: split_beta finished)
  then show ?thesis
    unfolding merge_into_def by (intro triple_seq [OF create] triple_seq [OF opened])
qed

definition outside :: "path set \<Rightarrow> (path \<rightharpoonup> bytes) \<Rightarrow> (path \<rightharpoonup> bytes) \<Rightarrow> bool" where
  "outside T c0 c \<longleftrightarrow> (\<forall>q. q \<notin> T \<longrightarrow> c q = c0 q)"

text \<open>
  The contract of the closure that names runs: every name is new. \<open>later n\<close> are the names still to
  come. A merge touches only its own runs and names still to come, the set \<open>T\<close> below.
\<close>

locale run_names =
  fixes next_run :: "'n \<Rightarrow> path \<times> 'n" and later :: "'n \<Rightarrow> path set"
  assumes next_later: "fst (next_run n) \<in> later n"
    and later_shrinks: "later (snd (next_run n)) \<subseteq> later n - {fst (next_run n)}"
begin

definition ours :: "path set \<Rightarrow> path list \<Rightarrow> 'n \<Rightarrow> bool" where
  "ours T runs n \<longleftrightarrow> set runs \<subseteq> T \<and> later n \<subseteq> T \<and> set runs \<inter> later n = {}"

lemma remove_inputs_triple:
  assumes "set batch \<subseteq> T" "set batch \<inter> set runs = {}"
  shows "triple (at k (\<lambda>c. hold F runs c \<and> outside T c0 c))
    (for_each (\<lambda>q. seq (best_effort (fs_remove q)) (\<lambda>_. ok ())) batch)
    (\<lambda>_. at k (\<lambda>c. hold F runs c \<and> outside T c0 c)) E"
proof (rule triple_for_each)
  fix q assume q: "q \<in> set batch"
  let ?I = "\<lambda>c. hold F runs c \<and> outside T c0 c"
  have gone: "?I (c(q := None))" if "?I c" for c
    using that q assms by (auto simp: hold_def outside_def)
  have "triple (at k ?I) (best_effort (fs_remove q)) (\<lambda>_. at k ?I) E"
    by (rule triple_best_effort, rule triple_at_pre [OF fs_remove_triple]) (use gone in auto)
  then show "triple (at k ?I) (seq (best_effort (fs_remove q)) (\<lambda>_. ok ())) (\<lambda>_. at k ?I) E"
    by (rule triple_seq) (simp add: triple_def)
qed

text \<open>One round keeps the runs in order.\<close>

definition kept :: "path set \<Rightarrow> (path \<rightharpoonup> bytes) \<Rightarrow> Head list \<Rightarrow> path list \<Rightarrow> 'n \<Rightarrow> nat \<Rightarrow> (path \<rightharpoonup> bytes) \<Rightarrow> bool" where
  "kept T c0 hs runs n dropped c \<longleftrightarrow> outside T c0 c \<and> ours T runs n \<and>
     (\<exists>F. sound_runs F runs \<and> hold F runs c \<and> reduces hs (heads F runs) dropped)"

lemma new_run:
  assumes "sound_runs F runs" "ours T runs n" "mset (batch @ rest) = mset runs" "next_run n = (p, n')"
    "inj_on head_key (set (heads F runs))"
  defines "F' \<equiv> F(p := first_arrivals (heads F batch))"
  shows "sound_runs F' (rest @ [p])" "ours T (rest @ [p]) n'" "set batch \<inter> set (rest @ [p]) = {}"
    "reduces (heads F runs) (heads F' (rest @ [p])) (ms_deduplicated (merge_stats (heads F batch)))"
    "p \<notin> set batch" "sound_runs F batch" "inj_on head_key (set (heads F batch))"
    "hold F batch c1 \<Longrightarrow> hold F rest c1 \<Longrightarrow> hold F' (rest @ [p]) (c1(p \<mapsto> run_bytes (first_arrivals (heads F batch))))"
proof -
  have set: "set runs = set batch \<union> set rest" using arg_cong [OF assms(3), of set_mset] by auto
  have dist: "distinct (batch @ rest)" using assms(1) mset_eq_imp_distinct_iff [OF assms(3)] by (simp add: sound_runs_def)
  have p: "p \<in> later n" "p \<notin> set runs" "later n' \<subseteq> later n - {p}" "p \<in> T"
    using next_later [of n] later_shrinks [of n] assms(2,4) by (auto simp: ours_def)
  then have rest: "map F' rest = map F rest" using set by (auto simp: F'_def)
  have "\<forall>h\<in>set (heads F batch). wf_head h" using assms(1) set by (auto simp: sound_runs_def)
  then show "sound_runs F' (rest @ [p])"
    using assms(1) set p dist by (auto simp: sound_runs_def F'_def sorted_first_arrivals)
  show "ours T (rest @ [p]) n'" "set batch \<inter> set (rest @ [p]) = {}" "p \<notin> set batch"
    using assms(2) p set dist by (auto simp: ours_def)
  show "sound_runs F batch" using assms(1) set dist by (auto simp: sound_runs_def)
  show "inj_on head_key (set (heads F batch))" by (rule inj_on_subset [OF assms(5)]) (use set in auto)
  have "image_mset F (mset (batch @ rest)) = image_mset F (mset runs)" using assms(3) by simp
  then have "mset (map F (batch @ rest)) = mset (map F runs)" by simp
  then have "mset (heads F batch @ heads F rest) = mset (heads F runs)"
    by (metis concat_append map_append mset_concat mset_map sum_mset_sum_list)
  from reduces_merge [OF this]
  show "reduces (heads F runs) (heads F' (rest @ [p])) (ms_deduplicated (merge_stats (heads F batch)))"
    by (simp add: merge_stats_def rest) (simp add: F'_def)
  show "hold F' (rest @ [p]) (c1(p \<mapsto> run_bytes (first_arrivals (heads F batch))))" if "hold F rest c1"
    using that p set by (auto simp: hold_def F'_def)
qed

lemma merge_pass_triple:
  assumes inj: "inj_on head_key (set hs)"
  shows "triple (at k (kept T c0 hs runs n dropped)) (merge_pass fan_in in_memory next_run runs n)
    (\<lambda>(runs', n', more_dropped). at k (kept T c0 hs runs' n' (dropped + more_dropped)))
    (\<lambda>_. at k (\<lambda>c. outside T c0 c \<and> \<not> k))"
proof (rule triple_at_fix)
  fix c1 assume "kept T c0 hs runs n dropped c1"
  then obtain F where F: "outside T c0 c1" "ours T runs n" "sound_runs F runs" "hold F runs c1" "reduces hs (heads F runs) dropped"
    by (auto simp: kept_def)
  obtain p n' where p: "next_run n = (p, n')" by fastforce
  have inj': "inj_on head_key (set (heads F runs))" using F(5) inj by (auto simp: reduces_def intro: inj_on_subset)
  let ?taken = "runs_taken (length runs) in_memory fan_in" and ?E = "\<lambda>_. at k (\<lambda>c. outside T c0 c \<and> \<not> k)"
  have body: "triple (at k (\<lambda>c. c = c1))
      (seq (merge_into p (take ?taken by_size)) (\<lambda>stats.
        seq (for_each (\<lambda>q. seq (best_effort (fs_remove q)) (\<lambda>_. ok ())) (take ?taken by_size)) (\<lambda>_.
          ok (drop ?taken by_size @ [p], n', ms_deduplicated stats))))
      (\<lambda>(runs', n', more_dropped). at k (kept T c0 hs runs' n' (dropped + more_dropped))) ?E"
    if "mset by_size = mset runs" for by_size
  proof -
    define batch rest where "batch = take ?taken by_size" and "rest = drop ?taken by_size"
    have split: "mset (batch @ rest) = mset runs" using that by (simp add: batch_def rest_def)
    have sets: "set runs = set batch \<union> set rest" using arg_cong [OF split, of set_mset] by auto
    note new = new_run [OF F(3,2) split p inj']
    let ?F = "F(p := first_arrivals (heads F batch))" and ?c = "c1(p \<mapsto> run_bytes (first_arrivals (heads F batch)))"
    have holds: "hold F batch c1" "hold F rest c1" using F(4) sets by (auto simp: hold_def)
    have p': "p \<in> T" using next_later [of n] p F(2) by (auto simp: ours_def)
    have out: "outside T c0 ?c" "scribbled c1 p c \<Longrightarrow> outside T c0 c" for c
      using F(1) p' by (auto simp: outside_def scribbled_def)
    have made: "triple (at k (\<lambda>c. c = c1)) (merge_into p batch)
        (\<lambda>stats. at k (\<lambda>c. stats = merge_stats (heads F batch) \<and> (hold ?F (rest @ [p]) c \<and> outside T c0 c))) ?E"
      by (rule triple_conseq [OF merge_into_triple [OF new(6,7,5) holds(1)]])
        (use new(8) [OF holds] out in \<open>auto simp: at_def\<close>)
    have removed: "triple (at k (\<lambda>c. hold ?F (rest @ [p]) c \<and> outside T c0 c))
        (for_each (\<lambda>q. seq (best_effort (fs_remove q)) (\<lambda>_. ok ())) batch)
        (\<lambda>_. at k (\<lambda>c. hold ?F (rest @ [p]) c \<and> outside T c0 c)) ?E"
      by (rule remove_inputs_triple) (use F(2) sets new(3) in \<open>auto simp: ours_def\<close>)
    have "kept T c0 hs (rest @ [p]) n' (dropped + ms_deduplicated (merge_stats (heads F batch))) c"
      if "hold ?F (rest @ [p]) c" "outside T c0 c" for c
      using that new(1,2) reduces_trans [OF F(5) new(4)] by (auto simp: kept_def)
    then have "triple (at k (\<lambda>c. stats = merge_stats (heads F batch) \<and> (hold ?F (rest @ [p]) c \<and> outside T c0 c)))
      (seq (for_each (\<lambda>q. seq (best_effort (fs_remove q)) (\<lambda>_. ok ())) batch) (\<lambda>_. ok (rest @ [p], n', ms_deduplicated stats)))
      (\<lambda>(runs', n', more_dropped). at k (kept T c0 hs runs' n' (dropped + more_dropped))) ?E" for stats
      by (intro triple_at_assume triple_seq [OF removed]) (auto simp: triple_def at_def)
    then show ?thesis by (fold batch_def rest_def) (rule triple_seq [OF made])
  qed
  show "triple (at k (\<lambda>c. c = c1)) (merge_pass fan_in in_memory next_run runs n)
      (\<lambda>(runs', n', more_dropped). at k (kept T c0 hs runs' n' (dropped + more_dropped))) ?E"
    unfolding merge_pass_def Let_def p prod.case
    by (rule triple_seq [OF sort_by_size_triple]) (rule triple_at_known, rule body)
qed

lemma merge_down_unfold:
  "merge_down fan_in in_memory next_run runs n dropped =
     (if length runs + of_bool in_memory \<le> max 2 fan_in then ok (runs, n, dropped)
      else seq (merge_pass (max 2 fan_in) (of_bool in_memory) next_run runs n) (\<lambda>(runs', n', j).
        merge_down fan_in in_memory next_run runs' n' (dropped + j)))"
  by (rule ext) (subst merge_down.simps, auto simp: seq_def split: prod.splits sum.splits)

lemma merge_down_triple:
  assumes inj: "inj_on head_key (set hs)"
  shows "triple (at k (kept T c0 hs runs n dropped)) (merge_down fan_in in_memory next_run runs n dropped)
    (\<lambda>(runs', n', dropped'). at k (\<lambda>c. kept T c0 hs runs' n' dropped' c \<and>
        length runs' + of_bool in_memory \<le> max 2 fan_in))
    (\<lambda>_. at k (\<lambda>c. outside T c0 c \<and> \<not> k))"
proof -
  let ?Q = "\<lambda>(runs', n', dropped'). at k (\<lambda>c. kept T c0 hs runs' n' dropped' c \<and>
        length runs' + of_bool in_memory \<le> max 2 fan_in)"
  have "case merge_down fan_in in_memory next_run runs n dropped d of
      (Inr x, d') \<Rightarrow> ?Q x d' | (Inl e, d') \<Rightarrow> at k (\<lambda>c. outside T c0 c \<and> \<not> k) d'" if "at k (kept T c0 hs runs n dropped) d" for d
    using that
  proof (induction "length runs" arbitrary: runs n dropped d rule: less_induct)
    case less
    show ?case
    proof (cases "length runs + of_bool in_memory \<le> max 2 fan_in")
      case True
      with less(2) show ?thesis by (simp add: merge_down_unfold at_def)
    next
      case False
      let ?pass = "merge_pass (max 2 fan_in) (of_bool in_memory) next_run runs n d"
      note t = merge_pass_triple [OF inj, where fan_in = "max 2 fan_in" and in_memory = "of_bool in_memory"]
      obtain r d1 where pass: "?pass = (r, d1)" by fastforce
      show ?thesis
      proof (cases r)
        case (Inl e)
        with False pass triple_Inl [OF t less(2), of e d1] show ?thesis by (simp add: merge_down_unfold)
      next
        case (Inr x)
        then obtain runs' n' j where x: "r = Inr (runs', n', j)" by (cases x) auto
        have "length runs' < length runs"
          by (rule merge_pass_shrinks [OF pass [unfolded x]]) (use False in auto)
        moreover have "at k (kept T c0 hs runs' n' (dropped + j)) d1"
          using triple_Inr [OF t less(2) pass [unfolded x]] by simp
        ultimately show ?thesis using less(1) [of runs' n' "dropped + j" d1] False pass x
          by (simp add: merge_down_unfold [of _ _ runs])
      qed
    qed
  qed
  then show ?thesis unfolding triple_def by blast
qed

text \<open>
  The bounded merge: the sink is given the first arrivals of all heads, in the runs and in memory,
  whatever the fan-in; the statistics count every head once.
\<close>

definition mem_heads :: "Src option \<Rightarrow> Head list \<Rightarrow> bool" where
  "mem_heads memory M \<longleftrightarrow>
     (case memory of None \<Rightarrow> M = [] | Some s \<Rightarrow> M \<noteq> [] \<and> src_holds s M \<and> sorted (map head_key M))"

lemma final_merge_triple:
  assumes sink: "\<And>hs h w. h \<in> set (heads F runs @ M) \<Longrightarrow> \<forall>h'\<in>set hs. head_key h' \<le> head_key h \<Longrightarrow>
      triple (at k (J hs w)) (sink h w) (\<lambda>w'. at k (J (hs @ [h]) w')) (\<lambda>_. at k E)"
    and E: "\<And>hs w c. J hs w c \<Longrightarrow> \<not> k \<Longrightarrow> E c"
    and sound: "sound_runs F runs" and mem: "mem_heads memory M"
    and inj: "inj_on head_key (set (heads F runs @ M))"
  shows "triple (at k (\<lambda>c. J [] w c \<and> hold F runs c))
    (seq (open_runs runs) (\<lambda>sources. merge sink (sources @ (case memory of None \<Rightarrow> [] | Some s \<Rightarrow> [s])) w))
    (\<lambda>(stats, w'). at k (\<lambda>c. stats = merge_stats (heads F runs @ M) \<and> J (first_arrivals (heads F runs @ M)) w' c))
    (\<lambda>_. at k E)"
proof -
  let ?R = "filter (\<lambda>L. L \<noteq> []) (map F runs)" and ?M = "case memory of None \<Rightarrow> [] | Some s \<Rightarrow> [M]"
  have all: "concat (?R @ ?M) = heads F runs @ M"
  proof -
    have "concat ?R = heads F runs" by (induction runs) auto
    then show ?thesis using mem by (auto simp: mem_heads_def split: option.splits)
  qed
  have sorted: "\<forall>L\<in>set (?R @ ?M). L \<noteq> [] \<and> sorted (map head_key L)"
    using sound mem by (auto simp: sound_runs_def mem_heads_def split: option.splits)
  have opened: "triple (at k (\<lambda>c. J [] w c \<and> hold F runs c)) (open_runs runs)
      (\<lambda>out. at k (\<lambda>c. list_all2 src_holds out ?R \<and> J [] w c)) (\<lambda>_. at k E)"
    by (rule triple_conseq [OF open_runs_triple [of "\<lambda>c. J [] w c \<and> hold F runs c", OF _ sound]])
      (auto simp: at_def E)
  have "triple (at k (J [] w)) (merge sink (sources @ (case memory of None \<Rightarrow> [] | Some s \<Rightarrow> [s])) w)
      (\<lambda>(stats, w'). at k (\<lambda>c. stats = merge_stats (heads F runs @ M) \<and> J (first_arrivals (heads F runs @ M)) w' c))
      (\<lambda>_. at k E)" if "list_all2 src_holds sources ?R" for sources
  proof -
    have "list_all2 src_holds (sources @ (case memory of None \<Rightarrow> [] | Some s \<Rightarrow> [s])) (?R @ ?M)"
      using that mem by (auto simp: mem_heads_def list_all2_appendI split: option.splits)
    from merge_correct [where J = J and E = E and sink = sink, OF _ _ this sorted, unfolded all, OF sink _ inj] E
    show ?thesis by blast
  qed
  then show ?thesis by (intro triple_seq [OF opened] triple_at_assume)
qed

lemma merge_kept_triple:
  assumes sink: "\<And>hs h w. h \<in> set (hs0 @ M) \<Longrightarrow> \<forall>h'\<in>set hs. head_key h' \<le> head_key h \<Longrightarrow>
      triple (at k (J hs w)) (sink h w) (\<lambda>w'. at k (J (hs @ [h]) w')) (\<lambda>_. at k E)"
    and E: "\<And>hs w c. J hs w c \<Longrightarrow> \<not> k \<Longrightarrow> E c"
    and local: "\<And>hs w c c'. J hs w c \<Longrightarrow> outside T c c' \<Longrightarrow> J hs w c'" "J [] w c1"
    and mem: "mem_heads memory M" and inj: "inj_on head_key (set (hs0 @ M))"
  shows "triple (at k (kept T c1 hs0 runs n dropped))
    (seq (open_runs runs) (\<lambda>sources.
      seq (merge sink (sources @ (case memory of None \<Rightarrow> [] | Some s \<Rightarrow> [s])) w) (\<lambda>(stats, w').
        ok (stats\<lparr>ms_deduplicated := ms_deduplicated stats + dropped\<rparr>, n, w'))))
    (\<lambda>(stats, n', w'). at k (\<lambda>c. stats = merge_stats (hs0 @ M) \<and> later n' \<subseteq> T \<and> J (first_arrivals (hs0 @ M)) w' c))
    (\<lambda>_. at k E)"
proof (rule triple_at_fix)
  fix c2 assume "kept T c1 hs0 runs n dropped c2"
  then obtain F where F: "outside T c1 c2" "ours T runs n" "sound_runs F runs" "hold F runs c2"
    and red: "reduces hs0 (heads F runs) dropped" by (auto simp: kept_def)
  have sub: "set (heads F runs @ M) \<subseteq> set (hs0 @ M)" using red by (auto simp: reduces_def)
  have same: "first_arrivals (heads F runs @ M) = first_arrivals (hs0 @ M)"
    using red inj by (simp add: reduces_def)
  have J2: "J [] w c2" using local F(1) by blast
  have stats: "(merge_stats (heads F runs @ M))\<lparr>ms_deduplicated := ms_deduplicated (merge_stats (heads F runs @ M)) + dropped\<rparr>
      = merge_stats (hs0 @ M)"
    using red same length_first_arrivals [of "heads F runs @ M"] by (auto simp: merge_stats_def reduces_def)
  have main: "triple (at k (\<lambda>c. c = c2))
      (seq (open_runs runs) (\<lambda>sources. merge sink (sources @ (case memory of None \<Rightarrow> [] | Some s \<Rightarrow> [s])) w))
      (\<lambda>(stats, w'). at k (\<lambda>c. stats = merge_stats (heads F runs @ M) \<and> J (first_arrivals (hs0 @ M)) w' c)) (\<lambda>_. at k E)"
    unfolding same [symmetric]
    by (rule triple_pre [OF final_merge_triple [OF _ _ F(3) mem]])
      (use sink E sub J2 F(4) inj_on_subset [OF inj sub] in \<open>auto simp: at_def\<close>)
  show "triple (at k (\<lambda>c. c = c2))
      (seq (open_runs runs) (\<lambda>sources.
        seq (merge sink (sources @ (case memory of None \<Rightarrow> [] | Some s \<Rightarrow> [s])) w) (\<lambda>(stats, w').
          ok (stats\<lparr>ms_deduplicated := ms_deduplicated stats + dropped\<rparr>, n, w'))))
      (\<lambda>(stats, n', w'). at k (\<lambda>c. stats = merge_stats (hs0 @ M) \<and> later n' \<subseteq> T \<and> J (first_arrivals (hs0 @ M)) w' c))
      (\<lambda>_. at k E)"
    unfolding seq_assoc [symmetric]
    by (rule triple_seq [OF main]) (use stats F(2) in \<open>auto simp: triple_def at_def ours_def\<close>)
qed

lemma merge_bounded_triple:
  assumes sink: "\<And>hs h w. h \<in> set (heads F runs @ M) \<Longrightarrow> \<forall>h'\<in>set hs. head_key h' \<le> head_key h \<Longrightarrow>
      triple (at k (J hs w)) (sink h w) (\<lambda>w'. at k (J (hs @ [h]) w')) (\<lambda>_. at k E)"
    and E: "\<And>hs w c. J hs w c \<Longrightarrow> \<not> k \<Longrightarrow> E c"
    and local: "\<And>hs w c c'. J hs w c \<Longrightarrow> outside T c c' \<Longrightarrow> J hs w c'"
    and sound: "sound_runs F runs" "ours T runs n" and mem: "mem_heads memory M"
    and inj: "inj_on head_key (set (heads F runs @ M))"
  shows "triple (at k (\<lambda>c. J [] w c \<and> hold F runs c)) (merge_bounded runs memory fan_in next_run sink n w)
    (\<lambda>(stats, n', w'). at k (\<lambda>c. stats = merge_stats (heads F runs @ M) \<and> later n' \<subseteq> T \<and>
        J (first_arrivals (heads F runs @ M)) w' c))
    (\<lambda>_. at k E)"
proof (rule triple_at_fix)
  fix c1 assume c1: "J [] w c1 \<and> hold F runs c1"
  let ?hs = "heads F runs"
  have inj': "inj_on head_key (set ?hs)" by (rule inj_on_subset [OF inj]) auto
  have start: "kept T c1 ?hs runs n 0 c1"
    using c1 sound reduces_refl by (auto simp: kept_def outside_def)
  have lost: "E c" if "outside T c1 c" "\<not> k" for c using that c1 local E by blast
  have down: "triple (at k (\<lambda>c. c = c1)) (merge_down fan_in (memory \<noteq> None) next_run runs n 0)
      (\<lambda>(runs', n', dropped). at k (kept T c1 ?hs runs' n' dropped)) (\<lambda>_. at k E)"
    by (rule triple_conseq [OF merge_down_triple [OF inj', of k T c1]]) (use start lost in \<open>auto simp: at_def\<close>)
  show "triple (at k (\<lambda>c. c = c1)) (merge_bounded runs memory fan_in next_run sink n w)
    (\<lambda>(stats, n', w'). at k (\<lambda>c. stats = merge_stats (heads F runs @ M) \<and> later n' \<subseteq> T \<and>
        J (first_arrivals (heads F runs @ M)) w' c)) (\<lambda>_. at k E)"
    unfolding merge_bounded_def by (rule triple_seq3 [OF down], rule merge_kept_triple) (use c1 sink E local mem inj in blast)+
qed

end

end
