(* ===== verification/Orc_Batch.thy ===== *)
theory Orc_Batch
  imports Orc_Merge_Laws
begin

text \<open>
  Laws of the in-memory batch (\<open>Batch\<close> of \<open>src/src/flush/merge.rs\<close>). The batch stands for the list
  of records pushed into it, with their groups; sorting it, cutting it into ranges, writing it out
  as runs or merging it from memory all give, per group in order, the first arrivals.
\<close>

section \<open>The records of a batch\<close>

definition batch_records :: "Batch \<Rightarrow> (GroupKey \<times> Head) list" where
  "batch_records b = map (\<lambda>e. (groups b ! unat (me_group e), entry_head (arena b) e)) (entries b)"

definition wf_entry :: "Batch \<Rightarrow> MemEntry \<Rightarrow> bool" where
  "wf_entry b e \<longleftrightarrow> unat (me_group e) < length (groups b) \<and>
     me_frame e + unat (me_frame_len e) \<le> length (arena b) \<and>
     unat (me_id_off e) + unat (me_id_len e) \<le> unat (me_frame_len e)"

definition wf_batch :: "Batch \<Rightarrow> bool" where
  "wf_batch b \<longleftrightarrow> distinct (groups b) \<and> length (groups b) < 2 ^ 32 \<and> (\<forall>e\<in>set (entries b). wf_entry b e)"

lemma position_Some: "position P xs = Some i \<Longrightarrow> i < length xs \<and> P (xs ! i)"
  by (induction xs arbitrary: i) (auto split: if_splits)

lemma position_None: "position P xs = None \<Longrightarrow> x \<in> set xs \<Longrightarrow> \<not> P x"
  by (induction xs) (auto split: if_splits)

text \<open>Interning finds the group or adds it at the end; the groups there keep their places.\<close>

lemma intern_correct:
  assumes "wf_batch b" "length (groups b) < 2 ^ 32 - 1" "intern g b = (i, b')"
  shows "wf_batch b' \<and> arena b' = arena b \<and> entries b' = entries b \<and> deduplicated b' = deduplicated b \<and>
    unat i < length (groups b') \<and> groups b' ! unat i = g \<and>
    (\<exists>gs. groups b' = groups b @ gs)"
proof (cases "entries b \<noteq> [] \<and> groups b ! unat (me_group (last (entries b))) = g")
  case True
  with assms show ?thesis by (auto simp: intern_def wf_batch_def wf_entry_def)
next
  case again: False
  show ?thesis
  proof (cases "position (\<lambda>k. k = g) (groups b)")
    case (Some j)
    with again assms(3) have "i = of_nat j" "b' = b" by (auto simp: intern_def)
    moreover from position_Some [OF Some] have "j < length (groups b)" "groups b ! j = g" by auto
    moreover from this assms(2) have "unat (of_nat j :: u32) = j" by (simp add: unat_of_nat)
    ultimately show ?thesis using assms(1) by simp
  next
    case None
    with again assms(3) have "i = of_nat (length (groups b))" "b' = b\<lparr>groups := groups b @ [g]\<rparr>" by (auto simp: intern_def)
    moreover have "g \<notin> set (groups b)" using position_None [OF None] by blast
    moreover have "unat (of_nat (length (groups b)) :: u32) = length (groups b)" using assms(2) by (simp add: unat_of_nat)
    ultimately show ?thesis using assms by (auto simp: wf_batch_def wf_entry_def)
  qed
qed

lemma slice_append: "b \<le> length xs \<Longrightarrow> slice a b (xs @ ys) = slice a b xs"
  by (simp add: slice_def)

lemma slice_shift: "slice (length xs + a) (length xs + b) (xs @ ys) = slice a b ys"
  by (simp add: slice_def)

lemma slice_whole: "slice 0 (length xs) xs = xs"
  by (simp add: slice_def)

lemma entry_head_append:
  assumes "wf_entry b e" shows "entry_head (arena b @ xs) e = entry_head (arena b) e"
  using assms by (simp add: wf_entry_def entry_head_def entry_id_def entry_frame_def slice_append Let_def)

lemma batch_push_correct:
  assumes "wf_batch b" "length (groups b) < 2 ^ 32 - 1" "id_off + id_len \<le> length frame"
    "id_off < 2 ^ 16" "id_len < 2 ^ 16" "length frame < 2 ^ 32"
  shows "wf_batch (batch_push g ts id_off id_len arrival frame b) \<and>
    batch_records (batch_push g ts id_off id_len arrival frame b) = batch_records b @
      [(g, \<lparr>hd_ts = ts, hd_id = slice id_off (id_off + id_len) frame, hd_arrival = arrival, hd_frame = frame\<rparr>)]"
proof -
  obtain i b' where i: "intern g b = (i, b')" by fastforce
  from intern_correct [OF assms(1,2) i] obtain gs where
    b': "wf_batch b'" "arena b' = arena b" "entries b' = entries b" "unat i < length (groups b')"
    "groups b' ! unat i = g" "groups b' = groups b @ gs" by auto
  have exact: "unat (of_nat (length frame) :: u32) = length frame" "unat (of_nat id_off :: u16) = id_off"
    "unat (of_nat id_len :: u16) = id_len" using assms(4-) by (simp_all add: unat_of_nat)
  let ?e = "\<lparr>me_ts = ts, me_arrival = arrival, me_frame = length (arena b), me_frame_len = of_nat (length frame),
      me_group = i, me_id_off = of_nat id_off, me_id_len = of_nat id_len\<rparr>"
  let ?b = "b'\<lparr>arena := arena b @ frame, entries := entries b @ [?e]\<rparr>"
  have push: "batch_push g ts id_off id_len arrival frame b = ?b" using i b' by (simp add: batch_push_def Let_def)
  have old: "wf_entry b e" "wf_entry ?b e" if "e \<in> set (entries b)" for e
    using that assms(1) b' by (auto simp: wf_batch_def wf_entry_def)
  have new: "wf_entry ?b ?e" using b' assms(3) exact by (simp add: wf_entry_def)
  have head: "entry_head (arena b @ frame) ?e =
      \<lparr>hd_ts = ts, hd_id = slice id_off (id_off + id_len) frame, hd_arrival = arrival, hd_frame = frame\<rparr>"
    using exact slice_shift [of "arena b" id_off "id_off + id_len" frame] slice_shift [of "arena b" 0 "length frame" frame]
    by (simp add: entry_head_def entry_id_def entry_frame_def Let_def slice_whole add.assoc)
  have "groups b' ! unat (me_group e) = groups b ! unat (me_group e)" if "e \<in> set (entries b)" for e
    using old(1) [OF that] b'(6) by (simp add: wf_entry_def nth_append)
  with old new head b' show ?thesis
    unfolding push by (auto simp: wf_batch_def batch_records_def entry_head_append)
qed

section \<open>Sorting\<close>

lemma insort_key_cong:
  assumes "\<And>y. y \<in> set ys \<Longrightarrow> f x \<le> f y \<longleftrightarrow> g x \<le> g y"
  shows "insort_key f x ys = insort_key g x ys"
  using assms by (induction ys) auto

lemma sort_key_cong:
  assumes "\<And>x y. x \<in> set xs \<Longrightarrow> y \<in> set xs \<Longrightarrow> f x \<le> f y \<longleftrightarrow> g x \<le> g y"
  shows "sort_key f xs = sort_key g xs"
  using assms
proof (induction xs)
  case (Cons x xs)
  then have "sort_key f xs = sort_key g xs" by simp
  then show ?case using Cons.prems by (auto intro!: insort_key_cong)
qed simp

lemma map_sort_key: "map m (sort_key (\<lambda>x. f (m x)) xs) = sort_key f (map m xs)"
proof -
  have "map m (insort_key (\<lambda>x. f (m x)) x ys) = insort_key f (m x) (map m ys)" for x ys
    by (induction ys) auto
  then show ?thesis by (induction xs) auto
qed

lemma dedup_from_cong:
  assumes "\<And>a b. a \<in> set (x # xs) \<Longrightarrow> b \<in> set (x # xs) \<Longrightarrow> P a b \<longleftrightarrow> Q a b"
  shows "dedup_from P x xs = dedup_from Q x xs"
  using assms by (induction xs arbitrary: x) auto

lemma dedup_by_cong:
  assumes "\<And>a b. a \<in> set xs \<Longrightarrow> b \<in> set xs \<Longrightarrow> P a b \<longleftrightarrow> Q a b"
  shows "dedup_by P xs = dedup_by Q xs"
  using assms by (cases xs) (auto intro!: dedup_from_cong)

text \<open>The table of ranks orders group indices as the group keys are ordered.\<close>

lemma fold_positions:
  assumes "distinct ps" "set ps \<subseteq> {0..<length xs}" "i < length ps"
  shows "fold (\<lambda>(pos, g) order. order[g := pos]) (enumerate k ps) xs ! (ps ! i) = k + i"
  using assms
proof (induction ps arbitrary: k xs i)
  case (Cons p ps)
  show ?case
  proof (cases i)
    case 0
    have "fold (\<lambda>(pos, g) order. order[g := pos]) (enumerate k' ps) ys ! p = ys ! p" if "p \<notin> set ps" for k' ps ys
      using that by (induction ps arbitrary: k' ys) auto
    with 0 Cons.prems show ?thesis by simp
  next
    case (Suc j)
    with Cons.IH [of "xs[p := k]" j "Suc k"] Cons.prems show ?thesis by auto
  qed
qed simp

lemma group_order_le:
  assumes "distinct gs" "i < length gs" "j < length gs"
  shows "group_order gs ! i \<le> group_order gs ! j \<longleftrightarrow> gs ! i \<le> gs ! j"
proof -
  define rank where "rank = sort_key (\<lambda>g. gs ! g) [0..<length gs]"
  have rank: "distinct rank" "set rank = {0..<length gs}" "length rank = length gs" by (simp_all add: rank_def)
  have sorted: "sorted (map ((!) gs) rank)" by (simp add: rank_def)
  have "inj_on ((!) gs) (set rank)" using assms(1) rank(2) by (simp add: inj_on_nth)
  then have "sorted_wrt (<) (map ((!) gs) rank)" using sorted rank(1) by (simp add: strict_sorted_iff distinct_map)
  then have lt: "gs ! (rank ! a) < gs ! (rank ! b)" if "a < b" "b < length rank" for a b
    using that sorted_wrt_nth_less [of "(<)" "map ((!) gs) rank" a b] by simp
  have strict: "gs ! (rank ! a) \<le> gs ! (rank ! b) \<longleftrightarrow> a \<le> b" if "a < length rank" "b < length rank" for a b
    using lt [of a b] lt [of b a] that by (cases a b rule: linorder_cases) auto
  have order: "group_order gs ! (rank ! a) = a" if "a < length rank" for a
    using fold_positions [of rank "replicate (length gs) 0" a 0] that rank by (auto simp: group_order_def rank_def [symmetric] Let_def)
  obtain a b where "a < length rank" "rank ! a = i" "b < length rank" "rank ! b = j"
    using assms(2,3) rank(2) by (metis atLeast0LessThan in_set_conv_nth lessThan_iff)
  with order strict show ?thesis by metis
qed

definition record_key :: "GroupKey \<times> Head \<Rightarrow> GroupKey \<times> u64 \<times> bytes \<times> u64 \<times> u64" where
  "record_key r = (fst r, head_key (snd r))"

definition record_id :: "GroupKey \<times> Head \<Rightarrow> GroupKey \<times> u64 \<times> bytes" where
  "record_id r = (fst r, ts_id (snd r))"

lemma batch_sort_records:
  assumes "wf_batch b"
  shows "batch_records (batch_sort b) = dedup_key record_id (sort_key record_key (batch_records b))"
proof -
  let ?m = "\<lambda>e. (groups b ! unat (me_group e), entry_head (arena b) e)"
  have g: "unat (me_group e) < length (groups b)" if "e \<in> set (entries b)" for e
    using assms that by (auto simp: wf_batch_def wf_entry_def)
  have d: "distinct (groups b)" using assms by (simp add: wf_batch_def)
  have le: "sort_entry_key b x \<le> sort_entry_key b y \<longleftrightarrow> record_key (?m x) \<le> record_key (?m y)"
    if "x \<in> set (entries b)" "y \<in> set (entries b)" for x y
  proof -
    let ?x = "unat (me_group x)" and ?y = "unat (me_group y)"
    note le = group_order_le [OF d g [OF that(1)] g [OF that(2)]] group_order_le [OF d g [OF that(2)] g [OF that(1)]]
    have "group_order (groups b) ! ?x < group_order (groups b) ! ?y \<longleftrightarrow> groups b ! ?x < groups b ! ?y"
      "group_order (groups b) ! ?x = group_order (groups b) ! ?y \<longleftrightarrow> groups b ! ?x = groups b ! ?y"
      using le by (auto simp: less_le_not_le [of "group_order (groups b) ! _"] less_le_not_le [of "groups b ! _"] order.eq_iff)
    with le(1) show ?thesis
      by (simp add: sort_entry_key_def record_key_def head_key_def entry_head_def)
  qed
  have same: "me_group x = me_group y \<and> me_ts x = me_ts y \<and> entry_id (arena b) x = entry_id (arena b) y \<longleftrightarrow>
      record_id (?m x) = record_id (?m y)" if "x \<in> set (entries b)" "y \<in> set (entries b)" for x y
    using nth_eq_iff_index_eq [OF d g [OF that(1)] g [OF that(2)]]
    by (auto simp: record_id_def ts_id_def entry_head_def unsigned_word_eqI)
  have "batch_records (batch_sort b) = map ?m (dedup_by (\<lambda>later first. record_id (?m later) = record_id (?m first))
      (sort_key (\<lambda>e. record_key (?m e)) (entries b)))"
    using sort_key_cong [of "entries b", OF le] same
    by (simp add: batch_records_def batch_sort_def Let_def) (rule arg_cong [where f = "map ?m"], rule dedup_by_cong, simp)
  also have "\<dots> = dedup_key record_id (sort_key record_key (batch_records b))"
    unfolding batch_records_def map_sort_key [symmetric] by (rule dedup_by_map [symmetric])
  finally show ?thesis .
qed

section \<open>Ranges\<close>

text \<open>Cutting a list where a key changes; \<open>ranges_from\<close> cuts the entries where the group changes.\<close>

function chunks :: "('a \<Rightarrow> 'k) \<Rightarrow> 'a list \<Rightarrow> ('k \<times> 'a list) list" where
  "chunks f [] = []"
| "chunks f (x # xs) = (f x, x # takeWhile (\<lambda>y. f y = f x) xs) # chunks f (dropWhile (\<lambda>y. f y = f x) xs)"
  by pat_completeness auto
termination
  by (relation "measure (\<lambda>(_, xs). length xs)") (auto simp: length_dropWhile_le le_imp_less_Suc)

lemma chunks_map: "chunks f (map m xs) = map (\<lambda>(k, ys). (k, map m ys)) (chunks (\<lambda>x. f (m x)) xs)"
proof (induction "\<lambda>x. f (m x)" xs rule: chunks.induct)
  case (2 x xs)
  then show ?case by (simp add: takeWhile_map dropWhile_map comp_def)
qed simp

lemma chunks_cong:
  assumes "\<And>x y. x \<in> set xs \<Longrightarrow> y \<in> set xs \<Longrightarrow> f x = f y \<longleftrightarrow> g x = g y"
  shows "chunks f xs = map (\<lambda>(_, ys). (f (hd ys), ys)) (chunks g xs)"
  using assms
proof (induction g xs rule: chunks.induct)
  case (2 g x xs)
  have "takeWhile (\<lambda>y. f y = f x) xs = takeWhile (\<lambda>y. g y = g x) xs" "dropWhile (\<lambda>y. f y = f x) xs = dropWhile (\<lambda>y. g y = g x) xs"
    using 2(2) by (auto intro!: takeWhile_cong dropWhile_cong)
  moreover have "chunks f (dropWhile (\<lambda>y. g y = g x) xs) = map (\<lambda>(_, ys). (f (hd ys), ys)) (chunks g (dropWhile (\<lambda>y. g y = g x) xs))"
    using 2 by (auto dest: set_dropWhileD)
  ultimately show ?case by simp
qed simp

lemma chunks_nonempty: "(k, ys) \<in> set (chunks f xs) \<Longrightarrow> ys \<noteq> [] \<and> f (hd ys) = k \<and> set ys \<subseteq> set xs"
  by (induction f xs rule: chunks.induct) (auto dest: set_takeWhileD set_dropWhileD)

lemma position_takeWhile:
  "(case position (\<lambda>y. \<not> P y) xs of None \<Rightarrow> length xs | Some n \<Rightarrow> n) = length (takeWhile P xs)"
  by (induction xs) (auto split: option.splits)

lemma slice_takeWhile: "slice n (n + length (takeWhile P (drop n xs))) xs = takeWhile P (drop n xs)"
  by (simp add: slice_def takeWhile_eq_take [symmetric])

lemma drop_takeWhile: "drop (n + length (takeWhile P (drop n xs))) xs = dropWhile P (drop n xs)"
  by (simp add: dropWhile_eq_drop [of P] add.commute)

lemma ranges_chunks:
  "map (\<lambda>(key, lo, hi). (key, slice lo hi es)) (ranges_from es gs start) =
   map (\<lambda>(g, ys). (gs ! unat g, ys)) (chunks me_group (drop start es))"
proof (induction es gs start rule: ranges_from.induct)
  case (1 es gs start)
  show ?case
  proof (cases "length es \<le> start")
    case True
    then show ?thesis by (simp add: ranges_from.simps)
  next
    case False
    let ?g = "me_group (es ! start)" and ?P = "\<lambda>e. me_group e = me_group (es ! start)"
    have split: "drop start es = es ! start # drop (Suc start) es" using False by (simp add: Cons_nth_drop_Suc)
    define len where "len = length (takeWhile ?P (drop start es))"
    have len: "(case position (\<lambda>e. me_group e \<noteq> ?g) (drop start es) of None \<Rightarrow> length es - start | Some n \<Rightarrow> n) = len"
      using position_takeWhile [where P = ?P and xs = "drop start es"] by (simp add: len_def split: option.splits)
    have head: "takeWhile ?P (drop start es) = es ! start # takeWhile ?P (drop (Suc start) es)"
      and rest: "dropWhile ?P (drop start es) = dropWhile ?P (drop (Suc start) es)" by (simp_all add: split)
    have "ranges_from es gs start = (gs ! unat ?g, start, start + len) # ranges_from es gs (start + len)"
      using False len by (subst ranges_from.simps) (simp add: Let_def)
    moreover have "map (\<lambda>(key, lo, hi). (key, slice lo hi es)) (ranges_from es gs (start + len)) =
        map (\<lambda>(g, ys). (gs ! unat g, ys)) (chunks me_group (drop (start + len) es))"
      using 1 False len by (simp add: Let_def)
    moreover have "chunks me_group (drop start es) =
        (?g, takeWhile ?P (drop start es)) # chunks me_group (dropWhile ?P (drop start es))"
      unfolding head rest by (subst split) simp
    ultimately show ?thesis by (simp add: slice_takeWhile drop_takeWhile len_def)
  qed
qed

lemma chunks_sorted:
  fixes f :: "'a \<Rightarrow> 'k::linorder"
  assumes "sorted (map f xs)"
  shows "chunks f xs = map (\<lambda>k. (k, filter (\<lambda>x. f x = k) xs)) (sorted_list_of_set (f ` set xs))"
  using assms
proof (induction f xs rule: chunks.induct)
  case (2 f x xs)
  let ?P = "\<lambda>y. f y = f x"
  define ys where "ys = dropWhile ?P xs"
  have sorted: "sorted (map f ys)" using 2(2) by (simp add: ys_def dropWhile_eq_drop drop_map [symmetric] sorted_wrt_drop)
  have xs: "xs = takeWhile ?P xs @ ys" by (simp add: ys_def)
  have gt: "f x < f y" if "y \<in> set ys" for y
  proof -
    have "ys \<noteq> []" using that by auto
    then obtain z zs where ys: "ys = z # zs" by (cases ys) auto
    have "f z \<noteq> f x" using ys hd_dropWhile [of ?P xs] by (auto simp: ys_def)
    moreover have "z \<in> set xs" using ys xs by (metis in_set_conv_decomp Un_iff set_append)
    ultimately have "f x < f z" using 2(2) by (auto simp: order.strict_iff_order)
    also have "f z \<le> f y" using that ys sorted by auto
    finally show ?thesis .
  qed
  have keys: "f ` set (x # xs) = insert (f x) (f ` set ys)"
  proof -
    have "f ` set xs = f ` set (takeWhile ?P xs) \<union> f ` set ys" by (subst xs) (simp add: image_Un)
    moreover have "f ` set (takeWhile ?P xs) \<subseteq> {f x}" by (auto dest: set_takeWhileD)
    ultimately show ?thesis by auto
  qed
  have "f x \<notin> f ` set ys" using gt by force
  then have "sorted_list_of_set (f ` set (x # xs)) = insort (f x) (sorted_list_of_set (f ` set ys))"
    unfolding keys by simp
  then have "sorted_list_of_set (f ` set (x # xs)) = f x # sorted_list_of_set (f ` set ys)"
    using gt by (subst (asm) insort_is_Cons) (auto simp: less_imp_le)
  moreover have "filter (\<lambda>y. f y = f x) (x # xs) = x # takeWhile ?P xs"
  proof -
    have "filter ?P ys = []" using gt by (force simp: filter_empty_conv)
    moreover have "filter ?P (takeWhile ?P xs) = takeWhile ?P xs" by (auto simp: filter_id_conv dest: set_takeWhileD)
    ultimately have "filter ?P xs = takeWhile ?P xs" by (metis append_Nil2 filter_append xs)
    then show ?thesis by simp
  qed
  moreover have "filter (\<lambda>y. f y = f z) (x # xs) = filter (\<lambda>y. f y = f z) ys" if "z \<in> set ys" for z
  proof -
    have "filter (\<lambda>y. f y = f z) (takeWhile ?P xs) = []" using gt [OF that] by (auto simp: filter_empty_conv dest: set_takeWhileD)
    then have "filter (\<lambda>y. f y = f z) xs = filter (\<lambda>y. f y = f z) ys" by (metis append_Nil filter_append xs)
    with gt [OF that] show ?thesis by auto
  qed
  moreover have "chunks f ys = map (\<lambda>k. (k, filter (\<lambda>x. f x = k) ys)) (sorted_list_of_set (f ` set ys))"
    using 2(1) sorted by (simp add: ys_def)
  ultimately show ?case by (auto simp: ys_def)
qed simp

text \<open>On a sorted list \<open>dedup\<close> keeps the least element of every key.\<close>

lemma dedup_key_from_elems:
  fixes f :: "'a \<Rightarrow> 'k::linorder" and key :: "'a \<Rightarrow> 'l::linorder"
  assumes "sorted (map key (x # xs))" "inj_on key (set (x # xs))" "\<And>a b. key a \<le> key b \<Longrightarrow> f a \<le> f b"
  shows "set (dedup_key_from f x xs) = {y \<in> set xs. f y \<noteq> f x \<and> (\<forall>z\<in>set xs. f z = f y \<longrightarrow> key y \<le> key z)}"
  using assms
proof (induction xs arbitrary: x)
  case (Cons y xs)
  have above: "key y \<le> key z" if "z \<in> set xs" for z using Cons.prems(1) that by auto
  show ?case
  proof (cases "f y = f x")
    case True
    have IH: "set (dedup_key_from f x xs) = {z \<in> set xs. f z \<noteq> f x \<and> (\<forall>w\<in>set xs. f w = f z \<longrightarrow> key z \<le> key w)}"
      by (rule Cons.IH) (use Cons.prems in auto)
    then show ?thesis by (auto simp: True)
  next
    case False
    have IH: "set (dedup_key_from f y xs) = {z \<in> set xs. f z \<noteq> f y \<and> (\<forall>w\<in>set xs. f w = f z \<longrightarrow> key z \<le> key w)}"
      by (rule Cons.IH) (use Cons.prems in auto)
    have "f z \<noteq> f x" if "z \<in> set xs" "f z \<noteq> f y" for z
      using False that Cons.prems(1) Cons.prems(3) [of x y] Cons.prems(3) [of y z] by auto
    moreover have "z = y" if "z \<in> set xs" "key z \<le> key y" for z
      by (rule inj_onD [OF Cons.prems(2)]) (use that above in \<open>auto intro: order.antisym\<close>)
    ultimately show ?thesis using False above IH by auto
  qed
qed simp

lemma dedup_key_elems:
  fixes f :: "'a \<Rightarrow> 'k::linorder" and key :: "'a \<Rightarrow> 'l::linorder"
  assumes "sorted (map key xs)" "inj_on key (set xs)" "\<And>a b. key a \<le> key b \<Longrightarrow> f a \<le> f b"
  shows "set (dedup_key f xs) = {y \<in> set xs. \<forall>z\<in>set xs. f z = f y \<longrightarrow> key y \<le> key z}"
proof (cases xs)
  case (Cons x ys)
  have "set (dedup_key_from f x ys) = {y \<in> set ys. f y \<noteq> f x \<and> (\<forall>z\<in>set ys. f z = f y \<longrightarrow> key y \<le> key z)}"
    by (rule dedup_key_from_elems) (use assms Cons in auto)
  moreover have "key x \<le> key z" if "z \<in> set ys" for z using assms(1) Cons that by auto
  moreover have "z = x" if "z \<in> set ys" "key z \<le> key x" for z
    by (rule inj_onD [OF assms(2)]) (use that calculation(2) Cons in \<open>auto intro: order.antisym\<close>)
  ultimately show ?thesis using Cons by auto
qed simp

section \<open>Grouping\<close>

text \<open>What the records of a batch come to, per group in the order of the group keys.\<close>

definition grouped :: "(GroupKey \<times> Head) list \<Rightarrow> (GroupKey \<times> Head list) list" where
  "grouped rs =
     map (\<lambda>g. (g, first_arrivals (map snd (filter (\<lambda>r. fst r = g) rs)))) (sorted_list_of_set (fst ` set rs))"

lemma sorted_wrt_subseq: "subseq xs ys \<Longrightarrow> sorted_wrt P ys \<Longrightarrow> sorted_wrt P xs"
  by (induction rule: list_emb.induct) (auto dest: list_emb_set)

lemma record_key_mono: "record_key r \<le> record_key r' \<Longrightarrow> record_id r \<le> record_id r'"
  by (auto simp: record_key_def record_id_def dest: head_key_ts_id)

lemma in_group: "h \<in> set (map snd (filter (\<lambda>r. fst r = g) rs)) \<longleftrightarrow> (g, h) \<in> set rs"
  by force

lemma group_first_arrivals:
  assumes inj: "inj_on record_key (set rs)"
  defines "rs' \<equiv> dedup_key record_id (sort_key record_key rs)"
  shows "map snd (filter (\<lambda>r. fst r = g) rs') = first_arrivals (map snd (filter (\<lambda>r. fst r = g) rs))"
proof (rule first_arrivals_unique [symmetric])
  let ?H = "map snd (filter (\<lambda>r. fst r = g) rs)"
  have inj': "inj_on record_key (set (sort_key record_key rs))" using inj by simp
  have elems: "set rs' = {r \<in> set rs. \<forall>r'\<in>set rs. record_id r' = record_id r \<longrightarrow> record_key r \<le> record_key r'}"
    unfolding rs'_def using dedup_key_elems [OF _ inj' record_key_mono] by simp
  show "inj_on head_key (set ?H)"
  proof (rule inj_onI)
    fix h h' assume "h \<in> set ?H" "h' \<in> set ?H" "head_key h = head_key h'"
    then have "(g, h) \<in> set rs" "(g, h') \<in> set rs" "record_key (g, h) = record_key (g, h')" by (auto simp: record_key_def)
    with inj show "h = h'" by (auto dest: inj_onD)
  qed
  have "subseq (map record_key rs') (map record_key (sort_key record_key rs))"
    by (rule subseq_map) (simp add: rs'_def subseq_dedup_by)
  then have "sorted (map record_key rs')" by (rule sorted_wrt_subseq) simp
  moreover have "distinct (map record_key rs')"
  proof -
    have "sorted (map record_id (sort_key record_key rs))"
      using sorted_sort_key [of record_key rs] unfolding sorted_map
      by (rule sorted_wrt_mono_rel [rotated]) (rule record_key_mono)
    then have "distinct (map record_id rs')" using dedup_key_strict strict_sorted_iff unfolding rs'_def by blast
    then show ?thesis using inj elems by (auto simp: distinct_map intro: inj_on_subset)
  qed
  ultimately have "sorted_wrt (\<lambda>r r'. record_key r < record_key r') rs'"
    by (simp add: strict_sorted_iff sorted_wrt_map [symmetric])
  then have "sorted_wrt (\<lambda>r r'. record_key r < record_key r') (filter (\<lambda>r. fst r = g) rs')" by (rule sorted_wrt_filter)
  then have "sorted_wrt (\<lambda>r r'. head_key (snd r) < head_key (snd r')) (filter (\<lambda>r. fst r = g) rs')"
    by (rule sorted_wrt_mono_rel [rotated]) (auto simp: record_key_def)
  then show "sorted_wrt (<) (map head_key (map snd (filter (\<lambda>r. fst r = g) rs')))" by (simp add: sorted_wrt_map)
  show "set (map snd (filter (\<lambda>r. fst r = g) rs')) = {h \<in> set ?H. first_of (set ?H) h}"
  proof (rule set_eqI)
    fix h
    have "(g, h) \<in> set rs' \<longleftrightarrow> (g, h) \<in> set rs \<and> (\<forall>h'. (g, h') \<in> set rs \<longrightarrow> ts_id h' = ts_id h \<longrightarrow> hd_arrival h \<le> hd_arrival h')"
      unfolding elems by (auto simp: record_id_def record_key_def head_key_split)
    then show "h \<in> set (map snd (filter (\<lambda>r. fst r = g) rs')) \<longleftrightarrow> h \<in> {h \<in> set ?H. first_of (set ?H) h}"
      by (simp add: in_group first_of_def Ball_def del: set_map)
  qed
qed

lemma batch_sort_simps [simp]: "arena (batch_sort b) = arena b" "groups (batch_sort b) = groups b"
  by (simp_all add: batch_sort_def Let_def)

lemma batch_sort_wf: "wf_batch b \<Longrightarrow> wf_batch (batch_sort b)"
  using set_dedup_by by (fastforce simp: wf_batch_def wf_entry_def batch_sort_def Let_def)

text \<open>The ranges of the sorted batch, as heads.\<close>

definition range_heads :: "Batch \<Rightarrow> GroupKey \<times> nat \<times> nat \<Rightarrow> GroupKey \<times> Head list" where
  "range_heads b = (\<lambda>(key, lo, hi). (key, map (entry_head (arena b)) (slice lo hi (entries b))))"

lemma group_ranges_chunks:
  assumes "wf_batch b"
  shows "map (range_heads b) (group_ranges b) = map (\<lambda>(g, rs). (g, map snd rs)) (chunks fst (batch_records b))"
proof -
  let ?m = "\<lambda>e. (groups b ! unat (me_group e), entry_head (arena b) e)"
  have same: "groups b ! unat (me_group x) = groups b ! unat (me_group y) \<longleftrightarrow> me_group x = me_group y"
    if "x \<in> set (entries b)" "y \<in> set (entries b)" for x y
    using that assms by (auto simp: wf_batch_def wf_entry_def nth_eq_iff_index_eq unsigned_word_eqI)
  have "map (range_heads b) (group_ranges b) = map (\<lambda>(k, es). (k, map (entry_head (arena b)) es))
      (map (\<lambda>(key, lo, hi). (key, slice lo hi (entries b))) (ranges_from (entries b) (groups b) 0))"
    by (simp add: range_heads_def group_ranges_def split_beta)
  also have "\<dots> = map (\<lambda>(g, es). (groups b ! unat g, map (entry_head (arena b)) es)) (chunks me_group (entries b))"
    unfolding ranges_chunks by (simp add: split_beta comp_def)
  also have "\<dots> = map (\<lambda>(g, es). (groups b ! unat (me_group (hd es)), map (entry_head (arena b)) es)) (chunks me_group (entries b))"
    by (rule map_cong) (auto dest: chunks_nonempty)
  also have "\<dots> = map (\<lambda>(g, es). (g, map (entry_head (arena b)) es)) (chunks (\<lambda>e. groups b ! unat (me_group e)) (entries b))"
    by (subst chunks_cong [of "entries b" _ me_group, OF same]) (auto simp: split_beta)
  also have "\<dots> = map (\<lambda>(g, rs). (g, map snd rs)) (chunks fst (batch_records b))"
    unfolding batch_records_def chunks_map by (simp add: split_beta comp_def)
  finally show ?thesis .
qed

lemma batch_sort_grouped:
  assumes "wf_batch b" "inj_on record_key (set (batch_records b))"
  shows "map (range_heads (batch_sort b)) (group_ranges (batch_sort b)) = grouped (batch_records b)"
proof -
  let ?rs = "batch_records b" and ?rs' = "batch_records (batch_sort b)"
  have rs': "?rs' = dedup_key record_id (sort_key record_key ?rs)" by (rule batch_sort_records [OF assms(1)])
  have "fst ` set ?rs' = fst ` set ?rs"
  proof -
    have "record_id ` set ?rs' = record_id ` set ?rs" unfolding rs' dedup_key_image by simp
    then have "fst ` record_id ` set ?rs' = fst ` record_id ` set ?rs" by simp
    then show ?thesis by (simp add: image_image record_id_def)
  qed
  moreover have "sorted (map fst ?rs')"
  proof -
    have "subseq (map fst ?rs') (map fst (sort_key record_key ?rs))"
      by (rule subseq_map) (simp add: rs' subseq_dedup_by)
    moreover have "sorted (map fst (sort_key record_key ?rs))"
      using sorted_sort_key [of record_key ?rs] unfolding sorted_map
      by (rule sorted_wrt_mono_rel [rotated]) (auto simp: record_key_def)
    ultimately show ?thesis by (rule sorted_wrt_subseq)
  qed
  ultimately show ?thesis
    using group_first_arrivals [OF assms(2)]
    by (simp add: group_ranges_chunks [OF batch_sort_wf [OF assms(1)]] chunks_sorted grouped_def rs')
qed

text \<open>The sources the last batch gives: what they hold.\<close>

lemma into_sources_grouped:
  assumes "wf_batch b" "inj_on record_key (set (batch_records b))"
  shows "list_all2 (\<lambda>(key, r) (key', hs). key = key' \<and> mem_holds r hs) (fst (into_sources b)) (grouped (batch_records b))"
proof -
  let ?b = "batch_sort b"
  have "list_all2 (\<lambda>(key, r) (key', hs). key = key' \<and> mem_holds r hs)
      (map (\<lambda>(key, lo, hi). (key, \<lparr>mr_arena = arena ?b, mr_entries = slice lo hi (entries ?b), mr_pos = 0\<rparr>)) (group_ranges ?b))
      (map (range_heads ?b) (group_ranges ?b))"
    by (simp add: list_all2_conv_all_nth split_beta range_heads_def mem_holds_def)
  then show ?thesis by (simp add: into_sources_def Let_def batch_sort_grouped [OF assms])
qed

section \<open>Spilling\<close>

context run_names
begin

definition spilled :: "(path \<rightharpoonup> bytes) \<Rightarrow> 'n \<Rightarrow> (GroupKey \<times> Head list) list \<Rightarrow> (GroupKey \<times> path) list \<Rightarrow> 'n \<Rightarrow> (path \<rightharpoonup> bytes) \<Rightarrow> bool" where
  "spilled c0 n0 gs out n c \<longleftrightarrow>
     list_all2 (\<lambda>(key, p) (key', hs). key = key' \<and> c p = Some (run_bytes hs)) out gs \<and>
     distinct (map snd out) \<and> set (map snd out) \<subseteq> later n0 - later n \<and> later n \<subseteq> later n0 \<and> outside (later n0) c0 c"

lemma spilled_more:
  assumes "spilled c0 n0 gs out n c1" "next_run n = (p, n')"
  shows "spilled c0 n0 (gs @ [(key, hs)]) (out @ [(key, p)]) n' (c1(p \<mapsto> run_bytes hs))"
    "scribbled c1 p c \<Longrightarrow> outside (later n0) c0 c"
proof -
  have p: "p \<in> later n" "later n' \<subseteq> later n - {p}" "p \<in> later n0" "p \<notin> set (map snd out)"
    using next_later [of n] later_shrinks [of n] assms by (auto simp: spilled_def)
  have "(c1(p \<mapsto> run_bytes hs)) q = c1 q" if "(key', q) \<in> set out" for key' q using that p(4) by force
  then have "list_all2 (\<lambda>(key, q) (key', hs'). key = key' \<and> (c1(p \<mapsto> run_bytes hs)) q = Some (run_bytes hs')) out gs"
    using assms(1) unfolding spilled_def by (auto elim!: list.rel_mono_strong [OF conjunct1])
  then show "spilled c0 n0 (gs @ [(key, hs)]) (out @ [(key, p)]) n' (c1(p \<mapsto> run_bytes hs))"
    using assms(1) p by (auto simp: spilled_def outside_def intro!: list_all2_appendI)
  show "scribbled c1 p c \<Longrightarrow> outside (later n0) c0 c"
    using assms(1) p by (auto simp: spilled_def outside_def scribbled_def)
qed

lemma spill_group_triple:
  "triple (at k (spilled c0 n0 gs out n)) (spill_group b next_run (key, lo, hi) (out, n))
     (\<lambda>(out', n'). at k (spilled c0 n0 (gs @ [range_heads b (key, lo, hi)]) out' n'))
     (\<lambda>_. at k (\<lambda>c. outside (later n0) c0 c \<and> \<not> k))"
proof (rule triple_at_fix)
  fix c1 assume c1: "spilled c0 n0 gs out n c1"
  obtain p n' where p: "next_run n = (p, n')" by fastforce
  let ?E = "\<lambda>c. outside (later n0) c0 c \<and> \<not> k" and ?es = "slice lo hi (entries b)"
  let ?J = "\<lambda>es. written c1 p (map (entry_head (arena b)) es)"
  note lost = spilled_more(2) [OF c1 p]
  have create: "triple (at k (\<lambda>c. c = c1)) (run_create p) (\<lambda>w. at k (?J [] w)) (\<lambda>_. at k ?E)"
    by (rule triple_conseq [OF run_create_triple]) (use c1 in \<open>auto simp: at_def spilled_def\<close>)
  have push: "triple (at k (?J es w)) (run_push (me_arrival e) (entry_frame (arena b) e) w)
      (\<lambda>w'. at k (?J (es @ [e]) w')) (\<lambda>_. at k ?E)" for es e w
    using run_push_triple [of k c1 p "map (entry_head (arena b)) es" w "entry_head (arena b) e"] lost
    by (auto elim!: triple_conseq simp: at_def entry_head_def)
  have pushes: "triple (at k (?J [] w)) (fold_io (\<lambda>e. run_push (me_arrival e) (entry_frame (arena b) e)) ?es w)
      (\<lambda>w'. at k (?J ?es w')) (\<lambda>_. at k ?E)" for w
    using fold_io_triple [of ?es k ?J, OF push, of "[]"] by simp
  have finish: "triple (at k (?J ?es w)) (run_finish w)
      (\<lambda>_. at k (spilled c0 n0 (gs @ [range_heads b (key, lo, hi)]) (out @ [(key, p)]) n')) (\<lambda>_. at k ?E)" for w
    by (rule triple_conseq [OF run_finish_triple])
      (use lost spilled_more(1) [OF c1 p, of key "map (entry_head (arena b)) ?es"] in \<open>auto simp: at_def range_heads_def\<close>)
  show "triple (at k (\<lambda>c. c = c1)) (spill_group b next_run (key, lo, hi) (out, n))
     (\<lambda>(out', n'). at k (spilled c0 n0 (gs @ [range_heads b (key, lo, hi)]) out' n')) (\<lambda>_. at k ?E)"
    unfolding spill_group_def prod.case p Let_def
    by (rule triple_seq [OF create], rule triple_seq [OF pushes], rule triple_seq [OF finish]) (simp add: triple_def)
qed

text \<open>A spilled batch is in run files, group by group, and empty.\<close>

lemma batch_spill_triple:
  assumes "wf_batch b" "inj_on record_key (set (batch_records b))"
  shows "triple (at k (\<lambda>c. c = c0)) (batch_spill next_run b n)
    (\<lambda>(out, b', n'). at k (\<lambda>c. spilled c0 n (grouped (batch_records b)) out n' c \<and>
        b' = batch_default\<lparr>deduplicated := deduplicated (batch_sort b)\<rparr>))
    (\<lambda>_. at k (\<lambda>c. outside (later n) c0 c \<and> \<not> k))"
proof -
  let ?b = "batch_sort b" and ?E = "\<lambda>_. at k (\<lambda>c. outside (later n) c0 c \<and> \<not> k)"
  let ?J = "\<lambda>rs on. spilled c0 n (map (range_heads ?b) rs) (fst on) (snd on)"
  have "triple (at k (?J rs on)) (spill_group ?b next_run r on) (\<lambda>on'. at k (?J (rs @ [r]) on')) ?E" for rs r on
    using spill_group_triple [of k c0 n "map (range_heads ?b) rs" "fst on" "snd on" ?b "fst r" "fst (snd r)" "snd (snd r)"]
    by (simp add: split_def)
  from fold_io_triple [of "group_ranges ?b" k ?J, OF this, of "[]" "([], n)"]
  have "triple (at k (spilled c0 n [] [] n)) (fold_io (spill_group ?b next_run) (group_ranges ?b) ([], n))
      (\<lambda>(out, n'). at k (spilled c0 n (grouped (batch_records b)) out n')) ?E"
    by (simp add: batch_sort_grouped [OF assms] split_def)
  then have main: "triple (at k (\<lambda>c. c = c0)) (fold_io (spill_group ?b next_run) (group_ranges ?b) ([], n))
      (\<lambda>(out, n'). at k (spilled c0 n (grouped (batch_records b)) out n')) ?E"
    by (rule triple_at_pre) (simp add: spilled_def outside_def)
  show ?thesis
    unfolding batch_spill_def Let_def
    by (rule triple_seq [OF main]) (auto simp: triple_def at_def batch_default_def)
qed

end

end
