(* ===== verification/Orc_Parquet_Laws.thy ===== *)
theory Orc_Parquet_Laws
  imports Orc_Parquet
begin

text \<open>
  Laws of the column builder and the output files. The builder's columns are a function of the rows
  appended (\<open>columns_of\<close>), a row group of a range of them holds exactly the chunks of those rows
  (\<open>group_chunks\<close>), the chunks of a row group determine its rows, and the streaming writer gives the
  file \<open>write_file\<close> gives.
\<close>

section \<open>String columns\<close>

definition str_column_of :: "rstr list \<Rightarrow> StrColumn" where
  "str_column_of xs = \<lparr>sc_bytes = concat xs, sc_ends = map (\<lambda>i. length (concat (take (Suc i) xs))) [0..<length xs]\<rparr>"

lemma str_column_of_Nil: "str_column_default = str_column_of []"
  by (simp add: str_column_default_def str_column_of_def)

lemma str_push_of: "str_push s (str_column_of xs) = str_column_of (xs @ [s])"
  by (auto simp: str_push_def str_column_of_def)

lemma fold_str_push: "fold (\<lambda>p. str_push (f p)) ps (str_column_of xs) = str_column_of (xs @ map f ps)"
  by (induction ps arbitrary: xs) (simp_all add: str_push_of)

lemma str_start_of: "i \<le> length xs \<Longrightarrow> str_start (str_column_of xs) i = length (concat (take i xs))"
  by (cases i) (auto simp: str_start_def str_column_of_def)

lemma slice_slice: "a \<le> lo \<Longrightarrow> lo \<le> hi \<Longrightarrow> hi \<le> b \<Longrightarrow> slice (lo - a) (hi - a) (slice a b xs) = slice lo hi xs"
  by (simp add: slice_def take_drop drop_drop min_def)

lemma slice_concat:
  assumes "i < length xs"
  shows "slice (length (concat (take i xs))) (length (concat (take (Suc i) xs))) (concat xs) = xs ! i"
proof -
  have "concat xs = concat (take i xs) @ xs ! i @ concat (drop (Suc i) xs)"
    using assms by (metis append_assoc concat.simps(2) concat_append id_take_nth_drop)
  moreover have "length (concat (take (Suc i) xs)) = length (concat (take i xs)) + length (xs ! i)"
    using assms by (simp add: take_Suc_conv_app_nth)
  ultimately show ?thesis by (simp add: slice_def)
qed

lemma length_concat_take_mono: "i \<le> j \<Longrightarrow> length (concat (take i xs)) \<le> length (concat (take j xs))"
proof (induction j)
  case (Suc j)
  then show ?case
    by (cases "i = Suc j"; cases "j < length xs") (auto simp: take_Suc_conv_app_nth le_Suc_eq)
qed simp

lemma slice_nth_map: "hi \<le> length xs \<Longrightarrow> map (\<lambda>i. xs ! i) [lo..<hi] = slice lo hi xs"
  by (rule nth_equalityI) (auto simp: slice_def)

lemma str_arrays_of:
  assumes "hi \<le> length xs"
  shows "str_arrays (str_column_of xs) lo hi = slice lo hi xs"
proof (cases "hi \<le> lo")
  case True
  then show ?thesis by (simp add: str_arrays_def slice_def)
next
  case False
  let ?off = "\<lambda>i. length (concat (take i xs))"
  have ends: "sc_ends (str_column_of xs) ! i = ?off (Suc i)" if "i < length xs" for i
    using that by (simp add: str_column_of_def)
  have "slice (str_start (str_column_of xs) i - ?off lo) (sc_ends (str_column_of xs) ! i - ?off lo)
      (slice (?off lo) (?off hi) (concat xs)) = xs ! i" if "i \<in> {lo..<hi}" for i
  proof -
    have i: "i < length xs" "lo \<le> i" "Suc i \<le> hi" using that assms by auto
    then show ?thesis
      using slice_slice [of "?off lo" "?off i" "?off (Suc i)" "?off hi" "concat xs"] slice_concat [OF i(1)]
      by (simp add: ends str_start_of length_concat_take_mono)
  qed
  then have "map (\<lambda>i. slice (str_start (str_column_of xs) i - ?off lo) (sc_ends (str_column_of xs) ! i - ?off lo)
      (slice (?off lo) (?off hi) (concat xs))) [lo..<hi] = map (\<lambda>i. xs ! i) [lo..<hi]"
    by simp
  moreover have "sc_ends (str_column_of xs) ! (hi - 1) = ?off hi" using False assms ends [of "hi - 1"] by simp
  ultimately show ?thesis
    using False assms by (simp add: str_arrays_def str_start_of slice_nth_map Let_def) (simp add: str_column_of_def)
qed

section \<open>Key columns\<close>

definition fits_type :: "KeyType \<Rightarrow> Value \<Rightarrow> bool" where
  "fits_type ty v \<longleftrightarrow> v = VNull \<or> value_key_type v = Some ty"

fun bool_of :: "Value \<Rightarrow> bool option" where "bool_of (VBool b) = Some b" | "bool_of _ = None"
fun i64_of :: "Value \<Rightarrow> u64 option" where "i64_of (VI64 i) = Some i" | "i64_of _ = None"
fun f64_of :: "Value \<Rightarrow> u64 option" where "f64_of (VF64 x) = Some x" | "f64_of _ = None"
fun str_of :: "Value \<Rightarrow> rstr option" where "str_of (VStr s) = Some s" | "str_of _ = None"

definition values_of :: "KeyType \<Rightarrow> Value list \<Rightarrow> Values" where
  "values_of ty vs =
     (case ty of
        KBool \<Rightarrow> BoolValues (List.map_filter bool_of vs)
      | KI64 \<Rightarrow> I64Values (List.map_filter i64_of vs)
      | KF64 \<Rightarrow> F64Values (List.map_filter f64_of vs)
      | KStr \<Rightarrow> StrValues (str_column_of (List.map_filter str_of vs)))"

definition def_level :: "Value \<Rightarrow> int" where
  "def_level v = (if v = VNull then 0 else 1)"

definition key_column_of :: "KeyType \<Rightarrow> Value list \<Rightarrow> KeyColumn" where
  "key_column_of ty vs = \<lparr>kc_vals = values_of ty vs, kc_defs = map def_level vs\<rparr>"

lemma map_filter_append: "List.map_filter f (xs @ ys) = List.map_filter f xs @ List.map_filter f ys"
  by (simp add: List.map_filter_def)

lemma map_filter_single: "List.map_filter f [x] = (case f x of None \<Rightarrow> [] | Some y \<Rightarrow> [y])"
  by (simp add: List.map_filter_def split: option.splits)

lemma key_column_new_of: "key_column_new ty = key_column_of ty []"
  by (cases ty) (simp_all add: key_column_new_def key_column_of_def values_of_def str_column_of_Nil List.map_filter_def)

lemma column_key_type_of [simp]: "column_key_type (key_column_of ty vs) = ty"
  by (cases ty) (simp_all add: column_key_type_def key_column_of_def values_of_def)

lemma key_append_of:
  "key_append v series key (key_column_of ty vs) =
     (if fits_type ty v then (Inr (), key_column_of ty (vs @ [v]))
      else (Inl (TypeMismatch series key ty (value_key_type v)), key_column_of ty vs))"
  by (cases v; cases ty)
    (simp_all add: key_append_def fits_type_def, simp_all add: key_column_of_def values_of_def map_filter_append
      map_filter_single def_level_def str_push_of column_key_type_def)

definition key_columns_of :: "KeyType list \<Rightarrow> Value list list \<Rightarrow> KeyColumn list" where
  "key_columns_of tys cs = map (\<lambda>(ty, vs). key_column_of ty vs) (zip tys cs)"

lemma append_keys_of:
  assumes "length tys = length names" "length cs = length names" "list_all2 fits_type tys vs"
  shows "append_keys series names vs (key_columns_of tys cs) =
    (Inr (), key_columns_of tys (map (\<lambda>(c, v). c @ [v]) (zip cs vs)))"
  using assms(3,1,2)
proof (induction tys vs arbitrary: names cs rule: list_all2_induct)
  case (Cons ty tys v vs)
  then obtain n ns c cs' where "names = n # ns" "cs = c # cs'" by (cases names; cases cs) auto
  with Cons show ?case by (simp add: key_columns_of_def key_append_of)
qed (simp add: key_columns_of_def)

text \<open>A value of the wrong type is an error.\<close>

lemma append_keys_rejects:
  assumes "length tys = length names" "length cs = length names" "length vs = length names" "\<not> list_all2 fits_type tys vs"
  shows "\<exists>key ty got ks. append_keys series names vs (key_columns_of tys cs) = (Inl (TypeMismatch series key ty got), ks)"
  using assms
proof (induction names arbitrary: tys cs vs)
  case (Cons n ns)
  then obtain ty tys' c cs' v vs' where "tys = ty # tys'" "cs = c # cs'" "vs = v # vs'"
    by (cases tys; cases cs; cases vs) auto
  moreover have "\<exists>key ty got ks. append_keys series ns vs' (key_columns_of tys' cs') = (Inl (TypeMismatch series key ty got), ks)"
    if "\<not> list_all2 fits_type tys' vs'" using Cons that calculation by auto
  ultimately show ?case
    using Cons.prems(4) by (cases "fits_type ty v") (fastforce simp: key_columns_of_def key_append_of)+
qed simp

section \<open>Rows\<close>

definition key_types :: "KeyDef list \<Rightarrow> KeyType list" where
  "key_types defs = map key_ty defs"

definition accepted :: "KeyDef list \<Rightarrow> Row \<Rightarrow> bool" where
  "accepted defs r \<longleftrightarrow> list_all2 fits_type (key_types defs) (row_keys r) \<and> unat (row_ts r) \<le> i64_max"

text \<open>The values of the key columns, column by column, and the entries of the maps.\<close>

definition key_values :: "KeyDef list \<Rightarrow> Row list \<Rightarrow> Value list list" where
  "key_values defs rows = map (\<lambda>i. map (\<lambda>r. row_keys r ! i) rows) [0..<length defs]"

definition extras :: "Row list \<Rightarrow> (rstr \<times> rstr) list" where
  "extras rows = concat (map (\<lambda>r. canonical (row_extra r)) rows)"

definition columns_of :: "rstr \<Rightarrow> PqType \<Rightarrow> KeyDef list \<Rightarrow> Row list \<Rightarrow> Columns" where
  "columns_of series schema defs rows =
     \<lparr>c_series = series, c_schema = schema, c_key_names = map key_name defs, c_rows = length rows,
      c_ts = map row_ts rows, c_id = str_column_of (map row_id rows),
      c_keys = key_columns_of (key_types defs) (key_values defs rows),
      c_extra_keys = str_column_of (map fst (extras rows)), c_extra_values = str_column_of (map snd (extras rows)),
      c_extra_counts = map (\<lambda>r. length (canonical (row_extra r))) rows,
      c_data = str_column_of (map row_data rows)\<rparr>"

abbreviation append_row :: "Row \<Rightarrow> (Columns, Error, unit) fallible" where
  "append_row r \<equiv> row_append (row_ts r) (row_id r) (row_keys r) (row_extra r) (row_data r)"

lemma columns_of_simps [simp]: "c_rows (columns_of series schema defs rows) = length rows"
  "c_schema (columns_of series schema defs rows) = schema" "length (c_keys (columns_of series schema defs rows)) = length defs"
  by (simp_all add: columns_of_def key_columns_of_def key_types_def key_values_def)

lemma row_builder_new_of:
  "row_builder_new pq series defs = rbind (parquet_schema pq defs) (\<lambda>schema. Inr (columns_of series schema defs []))"
proof -
  have "map (\<lambda>k. key_column_new (key_ty k)) defs = key_columns_of (key_types defs) (key_values defs [])"
    by (rule nth_equalityI) (simp_all add: key_columns_of_def key_types_def key_values_def key_column_new_of)
  then show ?thesis
    by (simp add: row_builder_new_def columns_of_def str_column_of_Nil extras_def)
qed

lemma key_values_snoc:
  assumes "length (row_keys r) = length defs"
  shows "map (\<lambda>(c, v). c @ [v]) (zip (key_values defs rows) (row_keys r)) = key_values defs (rows @ [r])"
  by (rule nth_equalityI) (use assms in \<open>simp_all add: key_values_def\<close>)

lemma length_key_columns [simp]: "length (key_columns_of (key_types defs) (key_values defs rows)) = length defs"
  by (simp add: key_columns_of_def key_types_def key_values_def)

lemma kept_extra: "(if is_canonical extra then extra else map (\<lambda>i. extra ! i) (extra_order extra)) = canonical extra"
  by (simp add: canonical_id extra_order_canonical)

text \<open>Appending an accepted row.\<close>

lemma row_append_of:
  assumes "accepted defs r"
  shows "append_row r (columns_of series schema defs rows) = (Inr (), columns_of series schema defs (rows @ [r]))"
proof -
  have len: "length (row_keys r) = length defs"
    using assms by (auto simp: accepted_def key_types_def dest: list_all2_lengthD)
  have keys: "append_keys series (map key_name defs) (row_keys r) (key_columns_of (key_types defs) (key_values defs rows)) =
      (Inr (), key_columns_of (key_types defs) (key_values defs (rows @ [r])))"
    using append_keys_of [of "key_types defs" "map key_name defs" "key_values defs rows" "row_keys r" series] assms
      key_values_snoc [OF len, of rows] by (simp add: accepted_def key_types_def key_values_def)
  show ?thesis
    using assms keys len unfolding row_append_def kept_extra
    by (simp add: columns_of_def accepted_def str_push_of fold_str_push extras_def not_less Let_def)
qed

text \<open>Every other row is refused: wrong arity, a timestamp out of range or a value of the wrong type.\<close>

lemma row_append_refuses:
  assumes "\<not> accepted defs r"
  shows "\<exists>e c'. append_row r (columns_of series schema defs rows) = (Inl e, c') \<and>
    (if length (row_keys r) \<noteq> length defs then e = KeyArity series (length defs) (length (row_keys r))
     else if unat (row_ts r) > i64_max then e = Config ''ts is past the largest instant Parquet can record''
     else \<exists>key ty got. e = TypeMismatch series key ty got)"
proof (cases "length (row_keys r) \<noteq> length defs \<or> unat (row_ts r) > i64_max")
  case True
  then show ?thesis by (auto simp: row_append_def columns_of_def)
next
  case False
  with assms have "\<not> list_all2 fits_type (key_types defs) (row_keys r)" by (simp add: accepted_def)
  then have "\<exists>key ty got ks. append_keys series (map key_name defs) (row_keys r)
      (key_columns_of (key_types defs) (key_values defs rows)) = (Inl (TypeMismatch series key ty got), ks)"
    by (intro append_keys_rejects) (use False in \<open>auto simp: key_types_def key_values_def\<close>)
  with False show ?thesis by (auto simp: row_append_def columns_of_def Let_def)
qed

lemma row_builder_clear_of:
  "row_builder_clear (columns_of series schema defs rows) = columns_of series schema defs []"
proof -
  have "clear_values (values_of ty vs) = values_of ty []" for ty vs
    by (cases ty) (simp_all add: values_of_def List.map_filter_def str_column_of_Nil)
  then have "map (\<lambda>k. \<lparr>kc_vals = clear_values (kc_vals k), kc_defs = []\<rparr>) (key_columns_of (key_types defs) (key_values defs rows))
      = key_columns_of (key_types defs) (key_values defs [])"
    by (intro nth_equalityI) (simp_all add: key_columns_of_def key_types_def key_values_def key_column_of_def)
  then show ?thesis by (simp add: row_builder_clear_def columns_of_def str_column_of_Nil extras_def)
qed

section \<open>Row groups\<close>

text \<open>The chunks of a list of rows, without columns or cursors.\<close>

definition key_chunk :: "KeyType \<Rightarrow> Value list \<Rightarrow> Chunk" where
  "key_chunk ty vs =
     (case ty of
        KBool \<Rightarrow> BoolChunk (List.map_filter bool_of vs) (Some (map def_level vs))
      | KI64 \<Rightarrow> Int64Chunk (List.map_filter i64_of vs) (Some (map def_level vs))
      | KF64 \<Rightarrow> DoubleChunk (List.map_filter f64_of vs) (Some (map def_level vs))
      | KStr \<Rightarrow> BytesChunk (List.map_filter str_of vs) (Some (map def_level vs)) None)"

definition extra_levels :: "Row list \<Rightarrow> MapLevels" where
  "extra_levels rows = map_levels (map (\<lambda>r. length (canonical (row_extra r))) rows)"

definition group_chunks :: "KeyDef list \<Rightarrow> Row list \<Rightarrow> Chunk list" where
  "group_chunks defs rows =
     [Int64Chunk (map row_ts rows) None, BytesChunk (map row_id rows) None None] @
     map (\<lambda>(ty, vs). key_chunk ty vs) (zip (key_types defs) (key_values defs rows)) @
     [BytesChunk (map fst (extras rows)) (Some (ml_key_defs (extra_levels rows))) (Some (ml_reps (extra_levels rows))),
      BytesChunk (map snd (extras rows)) (Some (ml_value_defs (extra_levels rows))) (Some (ml_reps (extra_levels rows))),
      BytesChunk (map row_data rows) None None]"

definition present :: "Value list \<Rightarrow> nat" where
  "present vs = length (filter (\<lambda>d. d = 1) (map def_level vs))"

definition cursors_at :: "KeyDef list \<Rightarrow> Row list \<Rightarrow> Cursors" where
  "cursors_at defs rows =
     \<lparr>cu_keys = map present (key_values defs rows),
      cu_extra = length (extras rows)\<rparr>"

lemma map_filter_present:
  assumes "\<forall>v\<in>set vs. v = VNull \<and> f v = None \<or> v \<noteq> VNull \<and> f v \<noteq> None"
  shows "length (List.map_filter f vs) = length (filter (\<lambda>d. d = 1) (map def_level vs))"
  using assms by (induction vs) (auto simp: List.map_filter_def def_level_def)

text \<open>A range of a list of present values is the present values of the range.\<close>

lemma slice_map_filter:
  assumes "lo \<le> hi" "\<And>n. length (List.map_filter f (take n vs)) = cnt n"
  shows "slice (cnt lo) (cnt hi) (List.map_filter f vs) = List.map_filter f (slice lo hi vs)"
proof -
  have "vs = take lo vs @ slice lo hi vs @ drop hi vs"
    using assms(1) by (simp add: slice_def) (metis append_assoc append_take_drop_id le_add_diff_inverse take_add)
  then have all: "List.map_filter f vs = List.map_filter f (take lo vs) @ List.map_filter f (slice lo hi vs) @ List.map_filter f (drop hi vs)"
    by (metis map_filter_append)
  have "take hi vs = take lo vs @ slice lo hi vs"
    using assms(1) by (simp add: slice_def) (metis le_add_diff_inverse take_add)
  then have "cnt hi = cnt lo + length (List.map_filter f (slice lo hi vs))"
    using assms(2) by (metis length_append map_filter_append)
  with all show ?thesis by (simp add: slice_def assms(2) [symmetric])
qed

lemma values_present:
  assumes "\<forall>v\<in>set vs. fits_type ty v"
  shows "ty = KBool \<Longrightarrow> length (List.map_filter bool_of vs) = length (filter (\<lambda>d. d = 1) (map def_level vs))"
    "ty = KI64 \<Longrightarrow> length (List.map_filter i64_of vs) = length (filter (\<lambda>d. d = 1) (map def_level vs))"
    "ty = KF64 \<Longrightarrow> length (List.map_filter f64_of vs) = length (filter (\<lambda>d. d = 1) (map def_level vs))"
    "ty = KStr \<Longrightarrow> length (List.map_filter str_of vs) = length (filter (\<lambda>d. d = 1) (map def_level vs))"
proof -
  have "v = VNull \<and> f v = None \<or> v \<noteq> VNull \<and> f v \<noteq> None"
    if "v \<in> set vs" "f VNull = None" "\<And>v. value_key_type v = Some ty \<Longrightarrow> f v \<noteq> None" for v and f :: "Value \<Rightarrow> 'a option"
    using assms that by (auto simp: fits_type_def)
  note p = map_filter_present [OF ballI, OF this]
  have [simp]: "value_key_type v = Some KBool \<Longrightarrow> bool_of v \<noteq> None" "value_key_type v = Some KI64 \<Longrightarrow> i64_of v \<noteq> None"
    "value_key_type v = Some KF64 \<Longrightarrow> f64_of v \<noteq> None" "value_key_type v = Some KStr \<Longrightarrow> str_of v \<noteq> None" for v
    by (cases v; simp)+
  show "ty = KBool \<Longrightarrow> length (List.map_filter bool_of vs) = length (filter (\<lambda>d. d = 1) (map def_level vs))"
    "ty = KI64 \<Longrightarrow> length (List.map_filter i64_of vs) = length (filter (\<lambda>d. d = 1) (map def_level vs))"
    "ty = KF64 \<Longrightarrow> length (List.map_filter f64_of vs) = length (filter (\<lambda>d. d = 1) (map def_level vs))"
    "ty = KStr \<Longrightarrow> length (List.map_filter str_of vs) = length (filter (\<lambda>d. d = 1) (map def_level vs))"
    by (rule p; simp)+
qed

lemma slice_map: "slice a b (map f xs) = map f (slice a b xs)"
  by (simp add: slice_def take_map drop_map)

lemma present_split: "lo \<le> hi \<Longrightarrow> present (take lo vs) + present (slice lo hi vs) = present (take hi vs)"
proof -
  assume "lo \<le> hi"
  then have "take hi vs = take lo vs @ slice lo hi vs" by (simp add: slice_def) (metis le_add_diff_inverse take_add)
  then show ?thesis by (simp add: present_def)
qed

lemma key_column_chunk:
  assumes fits: "\<forall>v\<in>set vs. fits_type ty v" and "lo \<le> hi"
  shows "values_chunk (kc_vals (key_column_of ty vs)) (present (take lo vs)) (present (take hi vs)) (map def_level (slice lo hi vs)) =
    key_chunk ty (slice lo hi vs)"
proof -
  have "\<forall>v\<in>set (take n vs). fits_type ty v" for n using fits by (meson in_set_takeD)
  note cnt = values_present [OF this, folded present_def] and all = values_present [OF fits, folded present_def]
  have le: "present (take hi vs) \<le> present vs"
    by (metis append_take_drop_id filter_append le_add1 length_append map_append present_def)
  show ?thesis
    using cnt all le
    by (cases ty) (simp_all add: key_column_of_def values_of_def key_chunk_def str_arrays_of
        slice_map_filter [OF assms(2), where cnt = "\<lambda>n. present (take n vs)"])
qed

lemma key_chunks_of:
  assumes "length tys = length cs" "\<forall>(ty, vs)\<in>set (zip tys cs). \<forall>v\<in>set vs. fits_type ty v" "lo \<le> hi"
  shows "key_chunks lo hi (key_columns_of tys cs) (map (\<lambda>vs. present (take lo vs)) cs) =
    (map (\<lambda>(ty, vs). key_chunk ty vs) (zip tys (map (slice lo hi) cs)), map (\<lambda>vs. present (take hi vs)) cs)"
  using assms(1,2)
proof (induction tys cs rule: list_induct2)
  case (Cons ty tys vs cs)
  have p: "present (take lo vs) + length (filter (\<lambda>d. d = 1) (map def_level (slice lo hi vs))) = present (take hi vs)"
    using present_split [OF assms(3)] by (simp add: present_def)
  have "kc_defs (key_column_of ty vs) = map def_level vs" by (simp add: key_column_of_def)
  with Cons p key_column_chunk [of vs ty, OF _ assms(3)] show ?case
    by (simp add: key_columns_of_def slice_map Let_def)
qed (simp add: key_columns_of_def)

lemma sum_extras: "sum_list (map (\<lambda>r. length (canonical (row_extra r))) rows) = length (extras rows)"
  by (simp add: extras_def length_concat comp_def)

text \<open>A group cut from the columns of many rows is the group of the rows it covers.\<close>

lemma columns_group_of:
  assumes rows: "\<forall>r\<in>set rows. accepted defs r" and range: "lo \<le> hi" "hi \<le> length rows"
  shows "columns_group (columns_of series schema defs rows) lo hi (cursors_at defs (take lo rows)) =
    (group_chunks defs (slice lo hi rows), cursors_at defs (take hi rows))"
proof -
  have tk: "key_values defs (take n rows) = map (take n) (key_values defs rows)"
    and sl: "key_values defs (slice lo hi rows) = map (slice lo hi) (key_values defs rows)" for n
    by (simp_all add: key_values_def take_map slice_map)
  have fits: "\<forall>(ty, vs)\<in>set (zip (key_types defs) (key_values defs rows)). \<forall>v\<in>set vs. fits_type ty v"
    using rows by (auto simp: set_zip key_values_def key_types_def accepted_def list_all2_conv_all_nth)
  have keys: "key_chunks lo hi (key_columns_of (key_types defs) (key_values defs rows)) (cu_keys (cursors_at defs (take lo rows))) =
      (map (\<lambda>(ty, vs). key_chunk ty vs) (zip (key_types defs) (key_values defs (slice lo hi rows))), cu_keys (cursors_at defs (take hi rows)))"
    using key_chunks_of [OF _ fits range(1)]
    by (simp add: cursors_at_def tk sl comp_def) (simp add: key_types_def key_values_def comp_def)
  have split: "take hi rows = take lo rows @ slice lo hi rows" "rows = take lo rows @ slice lo hi rows @ drop hi rows"
    using range by (simp_all add: slice_def) (metis le_add_diff_inverse take_add, metis append_assoc append_take_drop_id le_add_diff_inverse take_add)
  have ex: "extras (take hi rows) = extras (take lo rows) @ extras (slice lo hi rows)"
    "extras rows = extras (take lo rows) @ extras (slice lo hi rows) @ extras (drop hi rows)"
    by (subst split, simp add: extras_def)+
  then have "slice (length (extras (take lo rows))) (length (extras (take hi rows))) (extras rows) = extras (slice lo hi rows)"
    "length (extras (take hi rows)) \<le> length (extras rows)" by (simp_all add: slice_def)
  moreover have "length (extras (take lo rows)) + sum_list (slice lo hi (map (\<lambda>r. length (canonical (row_extra r))) rows)) = length (extras (take hi rows))"
    by (simp add: slice_map sum_extras ex(1))
  ultimately show ?thesis
    using keys range
    by (simp add: columns_group_def columns_of_def group_chunks_def extra_levels_def str_arrays_of slice_map Let_def
        map_levels_def cursors_at_def)
qed

section \<open>Whole files\<close>

text \<open>What the package makes of a list of row groups.\<close>

fun pq_groups :: "'s Parquet \<Rightarrow> 's \<Rightarrow> Chunk list list \<Rightarrow> string + ('s \<times> bytes)" where
  "pq_groups pq st [] = Inr (st, [])"
| "pq_groups pq st (g # gs) =
     rbind (pq_group pq st g) (\<lambda>(st', b). rbind (pq_groups pq st' gs) (\<lambda>(st'', bs). Inr (st'', b @ bs)))"

definition pq_started :: "'s Parquet \<Rightarrow> PqType \<Rightarrow> WriterProps \<Rightarrow> Chunk list list \<Rightarrow> string + ('s \<times> bytes)" where
  "pq_started pq schema props gs =
     rbind (pq_open pq schema props) (\<lambda>(st, b0). rbind (pq_groups pq st gs) (\<lambda>(st', b1). Inr (st', b0 @ b1)))"

definition pq_file :: "'s Parquet \<Rightarrow> PqType \<Rightarrow> WriterProps \<Rightarrow> Chunk list list \<Rightarrow> string + bytes" where
  "pq_file pq schema props gs =
     rbind (pq_started pq schema props gs) (\<lambda>(st, b). rbind (pq_close pq st) (\<lambda>b2. Inr (b @ b2)))"

lemma pq_groups_append:
  "pq_groups pq st (gs @ hs) =
     rbind (pq_groups pq st gs) (\<lambda>(st', b). rbind (pq_groups pq st' hs) (\<lambda>(st'', b'). Inr (st'', b @ b')))"
proof (induction gs arbitrary: st)
  case Nil
  then show ?case by (cases "pq_groups pq st hs") (auto simp: rbind_def)
next
  case (Cons g gs)
  then show ?case by (auto simp: rbind_def split: sum.splits prod.splits)
qed

lemma pq_started_append:
  "pq_started pq schema props (gs @ hs) =
     rbind (pq_started pq schema props gs) (\<lambda>(st, b). rbind (pq_groups pq st hs) (\<lambda>(st', b'). Inr (st', b @ b')))"
  by (auto simp: pq_started_def pq_groups_append rbind_def split: sum.splits prod.splits)

lemma pq_started_fails: "isl (pq_started pq schema props gs) \<Longrightarrow> isl (pq_file pq schema props (gs @ hs))"
  by (auto simp: pq_file_def pq_started_append rbind_def split: sum.splits prod.splits)

text \<open>Rows cut into groups of \<open>n\<close>.\<close>

function groups_of :: "nat \<Rightarrow> 'a list \<Rightarrow> 'a list list" where
  "groups_of n xs = (if xs = [] then [] else take (max 1 n) xs # groups_of n (drop (max 1 n) xs))"
  by pat_completeness auto
termination
  by (relation "measure (\<lambda>(_, xs). length xs)") auto

declare groups_of.simps [simp del]

lemma groups_of_max: "groups_of (max 1 n) xs = groups_of n xs"
proof (induction n xs rule: groups_of.induct)
  case (1 n xs)
  then show ?case by (subst (1 2) groups_of.simps) simp
qed

lemma groups_of_Nil [simp]: "groups_of n [] = []"
  by (simp add: groups_of.simps)

lemma groups_of_append:
  assumes "\<forall>g\<in>set full. length g = max 1 n"
  shows "groups_of n (concat full @ ys) = full @ groups_of n ys"
  using assms
proof (induction full)
  case (Cons g full)
  then show ?case by (subst groups_of.simps) auto
qed simp

lemma groups_of_short: "ys \<noteq> [] \<Longrightarrow> length ys \<le> max 1 n \<Longrightarrow> groups_of n ys = [ys]"
  by (subst groups_of.simps) simp

section \<open>Writing them\<close>

lemma of_result_triple: "triple (at k R) (of_result r) (\<lambda>x. at k (\<lambda>c. R c \<and> r = Inr x)) (\<lambda>_. at k (\<lambda>c. R c \<and> isl r))"
  by (cases r) (simp_all add: of_result_def triple_def)

lemma isl_rbind: "isl r \<Longrightarrow> isl (rbind r f)"
  by (cases r) auto

lemma isl_pq_err [simp]: "isl (pq_err what r) = isl r" and pq_err_Inr [simp]: "pq_err what r = Inr x \<longleftrightarrow> r = Inr x"
  by (cases r; simp add: pq_err_def)+

lemma write_bytes_simps:
  "write_bytes p (Inl e) = fail e" "write_bytes p (Inr (x, b)) = seq (lift_io (fs_write p b)) (\<lambda>_. ok x)"
  by (rule ext, simp add: write_bytes_def of_result_def)+

lemma write_bytes_triple:
  "triple (at k (\<lambda>c. c = c0(p \<mapsto> bs))) (write_bytes p r)
     (\<lambda>x. at k (\<lambda>c. \<exists>b. r = Inr (x, b) \<and> c = c0(p \<mapsto> bs @ b))) (\<lambda>_. at k (\<lambda>c. scribbled c0 p c \<and> (isl r \<or> \<not> k)))"
proof (cases r)
  case (Inl e)
  then show ?thesis by (auto simp: write_bytes_simps triple_def at_def scribbled_def)
next
  case (Inr xb)
  obtain x b where xb: "xb = (x, b)" by fastforce
  show ?thesis
    unfolding Inr xb write_bytes_simps
  proof (rule triple_seq)
    show "triple (at k (\<lambda>c. c = c0(p \<mapsto> bs))) (lift_io (fs_write p b)) (\<lambda>_. at k (\<lambda>c. c = c0(p \<mapsto> bs @ b)))
        (\<lambda>_. at k (\<lambda>c. scribbled c0 p c \<and> (isl (Inr (x, b)) \<or> \<not> k)))"
      by (rule triple_lift_io, rule triple_at_pre [OF fs_write_triple]) (auto simp: scribbled_def)
  qed (auto simp: triple_def at_def)
qed

lemma write_groups_unfold:
  "write_groups pq p cols n start cursors st =
     (if c_rows cols \<le> start then ok st
      else
        let fin = min (start + max 1 n) (c_rows cols);
            (chunks, cursors') = columns_group cols start fin cursors in
        seq (write_bytes p (pq_err ''writing parquet'' (pq_group pq st chunks))) (\<lambda>st'.
          write_groups pq p cols n fin cursors' st'))"
  by (rule ext) (subst write_groups.simps, auto simp: seq_def Let_def split: prod.splits sum.splits)

lemma write_groups_triple:
  assumes rows: "\<forall>r\<in>set rows. accepted defs r"
  shows "triple (at k (\<lambda>c. c = c0(p \<mapsto> bs)))
    (write_groups pq p (columns_of series schema defs rows) n start (cursors_at defs (take start rows)) st :: ('m, 's) eio)
    (\<lambda>st'. at k (\<lambda>c. \<exists>b. pq_groups pq st (map (group_chunks defs) (groups_of n (drop start rows))) = Inr (st', b) \<and> c = c0(p \<mapsto> bs @ b)))
    (\<lambda>_. at k (\<lambda>c. scribbled c0 p c \<and> (isl (pq_groups pq st (map (group_chunks defs) (groups_of n (drop start rows)))) \<or> \<not> k)))"
proof (induction "length rows - start" arbitrary: start st bs rule: less_induct)
  case less
  show ?case
  proof (cases "length rows \<le> start")
    case True
    then show ?thesis by (simp add: write_groups_unfold columns_of_def triple_def at_def)
  next
    case False
    define fin where "fin = min (start + max 1 n) (length rows)"
    have fin: "start < fin" "fin \<le> length rows" using False by (auto simp: fin_def)
    let ?g = "group_chunks defs (slice start fin rows)" and ?cols = "columns_of series schema defs rows"
    let ?rest = "map (group_chunks defs) (groups_of n (drop fin rows))"
    have groups: "map (group_chunks defs) (groups_of n (drop start rows)) = ?g # ?rest"
    proof -
      have "take (max 1 n) (drop start rows) = slice start fin rows" "drop (max 1 n) (drop start rows) = drop fin rows"
        using False by (auto simp: slice_def fin_def min_def add.commute)
      then show ?thesis using False by (subst groups_of.simps) simp
    qed
    have unfold: "write_groups pq p ?cols n start (cursors_at defs (take start rows)) st =
        seq (write_bytes p (pq_err ''writing parquet'' (pq_group pq st ?g))) (\<lambda>st'.
          write_groups pq p ?cols n fin (cursors_at defs (take fin rows)) st')"
      using False fin columns_group_of [OF rows, of start fin series schema]
      by (subst write_groups_unfold) (simp add: fin_def [symmetric, unfolded One_nat_def] Let_def)
    have first: "triple (at k (\<lambda>c. c = c0(p \<mapsto> bs)))
        (write_bytes p (pq_err ''writing parquet'' (pq_group pq st ?g)) :: ('m, 's) eio)
        (\<lambda>st'. at k (\<lambda>c. \<exists>b. pq_group pq st ?g = Inr (st', b) \<and> c = c0(p \<mapsto> bs @ b)))
        (\<lambda>_. at k (\<lambda>c. scribbled c0 p c \<and> (isl (pq_groups pq st (?g # ?rest)) \<or> \<not> k)))"
      by (rule triple_conseq [OF write_bytes_triple]) (auto simp: at_def isl_rbind)
    show ?thesis
      unfolding unfold groups
    proof (rule triple_seq [OF first])
      fix st'
      show "triple (at k (\<lambda>c. \<exists>b. pq_group pq st ?g = Inr (st', b) \<and> c = c0(p \<mapsto> bs @ b)))
          (write_groups pq p ?cols n fin (cursors_at defs (take fin rows)) st' :: ('m, 's) eio)
          (\<lambda>st''. at k (\<lambda>c. \<exists>b. pq_groups pq st (?g # ?rest) = Inr (st'', b) \<and> c = c0(p \<mapsto> bs @ b)))
          (\<lambda>_. at k (\<lambda>c. scribbled c0 p c \<and> (isl (pq_groups pq st (?g # ?rest)) \<or> \<not> k)))"
      proof (rule triple_at_fix, elim exE conjE)
        fix c1 b assume b: "pq_group pq st ?g = Inr (st', b)" "c1 = c0(p \<mapsto> bs @ b)"
        show "triple (at k (\<lambda>c. c = c1)) (write_groups pq p ?cols n fin (cursors_at defs (take fin rows)) st' :: ('m, 's) eio)
          (\<lambda>st''. at k (\<lambda>c. \<exists>b. pq_groups pq st (?g # ?rest) = Inr (st'', b) \<and> c = c0(p \<mapsto> bs @ b)))
          (\<lambda>_. at k (\<lambda>c. scribbled c0 p c \<and> (isl (pq_groups pq st (?g # ?rest)) \<or> \<not> k)))"
          unfolding b(2)
          by (rule triple_conseq [OF less(1) [of fin "bs @ b" st']])
            (use fin False b(1) in \<open>auto simp: at_def rbind_def split: sum.splits\<close>)
      qed
    qed
  qed
qed

lemma close_file_triple:
  "triple (at k (\<lambda>c. c = c0(p \<mapsto> bs))) (close_file pq p st)
     (\<lambda>_. at k (\<lambda>c. \<exists>b. pq_close pq st = Inr b \<and> c = c0(p \<mapsto> bs @ b)))
     (\<lambda>_. at k (\<lambda>c. scribbled c0 p c \<and> (isl (pq_close pq st) \<or> \<not> k)))"
  unfolding close_file_def
proof (rule triple_seq)
  let ?Q = "\<lambda>_. at k (\<lambda>c. \<exists>b. pq_close pq st = Inr b \<and> c = c0(p \<mapsto> bs @ b))"
    and ?E = "\<lambda>_. at k (\<lambda>c. scribbled c0 p c \<and> (isl (pq_close pq st) \<or> \<not> k))"
  show "triple (at k (\<lambda>c. c = c0(p \<mapsto> bs))) (write_bytes p (rbind (pq_err ''closing parquet'' (pq_close pq st)) (\<lambda>bs. Inr ((), bs)))) ?Q ?E"
    by (cases "pq_close pq st"; rule triple_conseq [OF write_bytes_triple]) (simp_all add: at_def pq_err_def)
  show "triple (?Q u) (lift_io (fs_sync p)) ?Q ?E" for u
    by (rule triple_lift_io, rule triple_at_pre [OF quiet_triples(1)]) (auto simp: scribbled_def)
qed

text \<open>The reference: one set of columns, cut into groups.\<close>

definition file_result :: "'s Parquet \<Rightarrow> rstr \<Rightarrow> u32 \<Rightarrow> rstr \<Rightarrow> PqType \<Rightarrow> Chunk list list \<Rightarrow> Error + bytes" where
  "file_result pq series epoch compr schema gs =
     rbind (writer_properties series epoch compr) (\<lambda>props. pq_err ''parquet'' (pq_file pq schema props gs))"

lemma seq_ok: "seq (ok x) f = f x"
  by (rule ext) simp

lemma triple_at_ex:
  assumes "\<And>b. P b \<Longrightarrow> triple (at k (\<lambda>c. c = f b)) m Q E"
  shows "triple (at k (\<lambda>c. \<exists>b. P b \<and> c = f b)) m Q E"
  using assms by (fastforce simp: triple_def at_def)

lemma create_triple:
  "triple (at k (\<lambda>c. c = c0)) (lift_io (fs_create p)) (\<lambda>_. at k (\<lambda>c. c = c0(p \<mapsto> [])))
     (\<lambda>_. at k (\<lambda>c. scribbled c0 p c \<and> (b \<or> \<not> k)))"
  by (rule triple_lift_io, rule triple_at_pre [OF fs_create_triple]) (auto simp: scribbled_def fun_upd_idem intro: exI [of _ "c0 p"])

lemma open_triple:
  "triple (at k (\<lambda>c. c = c0(p \<mapsto> []))) (write_bytes p (pq_err what (pq_open pq schema props)))
     (\<lambda>st. at k (\<lambda>c. \<exists>b0. pq_started pq schema props [] = Inr (st, b0) \<and> c = c0(p \<mapsto> b0)))
     (\<lambda>_. at k (\<lambda>c. scribbled c0 p c \<and> (isl (pq_started pq schema props []) \<or> \<not> k)))"
  by (cases "pq_open pq schema props"; rule triple_conseq [OF write_bytes_triple])
    (auto simp: at_def pq_started_def pq_err_def)

lemma close_started_triple:
  assumes "pq_started pq schema props gs = Inr (st, bs)"
  shows "triple (at k (\<lambda>c. c = c0(p \<mapsto> bs))) (close_file pq p st)
    (\<lambda>_. at k (\<lambda>c. \<exists>bs. pq_file pq schema props gs = Inr bs \<and> c = c0(p \<mapsto> bs)))
    (\<lambda>_. at k (\<lambda>c. scribbled c0 p c \<and> (isl (pq_file pq schema props gs) \<or> \<not> k)))"
  by (rule triple_conseq [OF close_file_triple]) (auto simp: at_def pq_file_def assms isl_rbind)

lemma write_file_triple:
  assumes rows: "\<forall>r\<in>set rows. accepted defs r"
    and res_def: "res = file_result pq series epoch compr schema (map (group_chunks defs) (groups_of n rows))"
  shows "triple (at k (\<lambda>c. c = c0)) (write_file pq p (columns_of series schema defs rows) series epoch compr n)
    (\<lambda>_. at k (\<lambda>c. \<exists>bs. res = Inr bs \<and> c = c0(p \<mapsto> bs)))
    (\<lambda>_. at k (\<lambda>c. scribbled c0 p c \<and> (isl res \<or> \<not> k)))"
proof (cases "writer_properties series epoch compr")
  case (Inl e)
  then show ?thesis
    by (auto simp: write_file_def of_result_def triple_def at_def res_def file_result_def scribbled_def fun_upd_idem
        intro: exI [of _ "c0 p"])
next
  case (Inr props)
  let ?gs = "map (group_chunks defs) (groups_of n rows)" and ?cols = "columns_of series schema defs rows"
  have res: "isl res = isl (pq_file pq schema props ?gs)" "res = Inr bs \<longleftrightarrow> pq_file pq schema props ?gs = Inr bs" for bs
    by (simp_all add: res_def file_result_def Inr)
  have start: "cursors_start ?cols = cursors_at defs (take 0 rows)"
    by (simp add: cursors_start_def cursors_at_def key_values_def present_def extras_def map_replicate_const)
  have opened: "triple (at k (\<lambda>c. c = c0(p \<mapsto> []))) (write_bytes p (pq_err ''opening parquet writer'' (pq_open pq (c_schema ?cols) props)))
      (\<lambda>st. at k (\<lambda>c. \<exists>b0. pq_started pq schema props [] = Inr (st, b0) \<and> c = c0(p \<mapsto> b0)))
      (\<lambda>_. at k (\<lambda>c. scribbled c0 p c \<and> (isl res \<or> \<not> k)))"
    by (rule triple_conseq [OF open_triple]) (use pq_started_fails [of pq schema props "[]" ?gs] in \<open>auto simp: at_def res\<close>)
  have grouped: "triple (at k (\<lambda>c. c = c0(p \<mapsto> b0))) (write_groups pq p ?cols (max 1 n) 0 (cursors_start ?cols) st)
      (\<lambda>st'. at k (\<lambda>c. \<exists>b. pq_started pq schema props ?gs = Inr (st', b) \<and> c = c0(p \<mapsto> b)))
      (\<lambda>_. at k (\<lambda>c. scribbled c0 p c \<and> (isl res \<or> \<not> k)))"
    if "pq_started pq schema props [] = Inr (st, b0)" for st b0
    using that pq_started_append [of pq schema props "[]" ?gs] unfolding start res(1)
    by (intro triple_conseq [OF write_groups_triple [OF rows, where start = 0 and n = "max 1 n", unfolded groups_of_max]])
      (auto simp: at_def pq_file_def isl_rbind)
  have closed: "triple (at k (\<lambda>c. c = c0(p \<mapsto> b))) (close_file pq p st)
      (\<lambda>_. at k (\<lambda>c. \<exists>bs. res = Inr bs \<and> c = c0(p \<mapsto> bs))) (\<lambda>_. at k (\<lambda>c. scribbled c0 p c \<and> (isl res \<or> \<not> k)))"
    if "pq_started pq schema props ?gs = Inr (st, b)" for st b
    using close_started_triple [OF that] by (simp add: res)
  show ?thesis
    unfolding write_file_def Inr of_result_def sum.case seq_ok
    by (rule triple_seq [OF create_triple], rule triple_seq [OF opened],
        rule triple_at_ex, rule triple_seq [OF grouped], assumption, rule triple_at_ex, rule closed)
qed

text \<open>
  The streaming writer after \<open>rows\<close>: the full groups are in the file, the rest is in the builder.
\<close>

definition streaming ::
  "'s Parquet \<Rightarrow> path \<Rightarrow> rstr \<Rightarrow> PqType \<Rightarrow> WriterProps \<Rightarrow> KeyDef list \<Rightarrow> nat \<Rightarrow> (path \<rightharpoonup> bytes) \<Rightarrow> Row list \<Rightarrow>
     's PartitionWriter \<Rightarrow> (path \<rightharpoonup> bytes) \<Rightarrow> bool" where
  "streaming pq p series schema props defs n c0 rows w c \<longleftrightarrow>
     pw_path w = p \<and> pw_group_rows w = max 1 n \<and> pw_rows w = length rows \<and>
     (\<exists>full rest b. rows = concat full @ rest \<and> (\<forall>g\<in>set full. length g = max 1 n) \<and> length rest < max 1 n \<and>
        pw_builder w = columns_of series schema defs rest \<and>
        pq_started pq schema props (map (group_chunks defs) full) = Inr (pw_writer w, b) \<and> c = c0(p \<mapsto> b))"

lemma streamingI:
  assumes "pw_path w = p" "pw_group_rows w = max 1 n" "pw_rows w = length rows" "rows = concat full @ rest"
    "\<forall>g\<in>set full. length g = max 1 n" "length rest < max 1 n" "pw_builder w = columns_of series schema defs rest"
    "pq_started pq schema props (map (group_chunks defs) full) = Inr (pw_writer w, b)" "c = c0(p \<mapsto> b)"
  shows "streaming pq p series schema props defs n c0 rows w c"
  using assms unfolding streaming_def by blast

definition append_rows :: "'s Parquet \<Rightarrow> Row \<Rightarrow> 's PartitionWriter \<Rightarrow> ('m, 's PartitionWriter) eio" where
  "append_rows pq r = partition_append pq (row_ts r) (row_id r) (row_keys r) (row_extra r) (row_data r)"

lemma write_group_triple:
  assumes rows: "\<forall>r\<in>set rest. accepted defs r" "rest \<noteq> []"
    and w: "pw_path w = p" "pw_builder w = columns_of series schema defs rest"
    and b: "pq_started pq schema props gs = Inr (pw_writer w, b)"
  shows "triple (at k (\<lambda>c. c = c0(p \<mapsto> b))) (partition_write_group pq w)
    (\<lambda>w'. at k (\<lambda>c. \<exists>st b'. pq_started pq schema props (gs @ [group_chunks defs rest]) = Inr (st, b') \<and>
        w' = w\<lparr>pw_writer := st, pw_builder := columns_of series schema defs []\<rparr> \<and> c = c0(p \<mapsto> b')))
    (\<lambda>_. at k (\<lambda>c. scribbled c0 p c \<and> (isl (pq_started pq schema props (gs @ [group_chunks defs rest])) \<or> \<not> k)))"
proof -
  let ?cols = "columns_of series schema defs rest" and ?g = "group_chunks defs rest"
  have start: "cursors_start ?cols = cursors_at defs (take 0 rest)"
    by (simp add: cursors_start_def cursors_at_def key_values_def present_def extras_def map_replicate_const)
  have grp: "columns_group ?cols 0 (length rest) (cursors_start ?cols) = (?g, cursors_at defs rest)"
    using columns_group_of [OF rows(1), of 0 "length rest" series schema] unfolding start by (simp add: slice_def)
  have after: "pq_started pq schema props (gs @ [?g]) = rbind (pq_group pq (pw_writer w) ?g) (\<lambda>(st, b'). Inr (st, b @ b'))"
    by (cases "pq_group pq (pw_writer w) ?g") (auto simp: pq_started_append b)
  have wr: "triple (at k (\<lambda>c. c = c0(p \<mapsto> b))) (write_bytes p (pq_err ''writing parquet'' (pq_group pq (pw_writer w) ?g)))
      (\<lambda>st. at k (\<lambda>c. \<exists>b'. pq_started pq schema props (gs @ [?g]) = Inr (st, b') \<and> c = c0(p \<mapsto> b')))
      (\<lambda>_. at k (\<lambda>c. scribbled c0 p c \<and> (isl (pq_started pq schema props (gs @ [?g])) \<or> \<not> k)))"
    by (rule triple_conseq [OF write_bytes_triple]) (auto simp: at_def after isl_rbind)
  show ?thesis
    unfolding partition_write_group_def w grp Let_def prod.case columns_of_simps row_builder_clear_of
    using rows(2) by (auto intro!: triple_seq [OF wr]) (auto simp: triple_def at_def)
qed

lemma streaming_append:
  assumes r: "accepted defs r" and rows: "\<forall>r\<in>set rows. accepted defs r"
  shows "triple (at k (streaming pq p series schema props defs n c0 rows w)) (append_rows pq r w :: ('m, 's PartitionWriter) eio)
    (\<lambda>w'. at k (streaming pq p series schema props defs n c0 (rows @ [r]) w'))
    (\<lambda>_. at k (\<lambda>c. scribbled c0 p c \<and>
      (isl (pq_started pq schema props (map (group_chunks defs) (groups_of n (rows @ [r])))) \<and>
         (\<forall>rs. groups_of n ((rows @ [r]) @ rs) = groups_of n (rows @ [r]) @ groups_of n rs) \<or> \<not> k)))"
proof (rule triple_at_fix)
  fix c1 assume "streaming pq p series schema props defs n c0 rows w c1"
  then obtain full rest b where w: "pw_path w = p" "pw_group_rows w = max 1 n" "pw_rows w = length rows"
    "pw_builder w = columns_of series schema defs rest" and full: "rows = concat full @ rest" "\<forall>g\<in>set full. length g = max 1 n"
    "length rest < max 1 n" and b: "pq_started pq schema props (map (group_chunks defs) full) = Inr (pw_writer w, b)" "c1 = c0(p \<mapsto> b)"
    by (auto simp: streaming_def)
  let ?w = "w\<lparr>pw_builder := columns_of series schema defs (rest @ [r]), pw_rows := length rows + 1\<rparr>"
  have step: "(append_rows pq r w :: ('m, 's PartitionWriter) eio) =
      (if max 1 n \<le> length (rest @ [r]) then partition_write_group pq ?w else ok ?w)"
    using row_append_of [OF r, of series schema rest] w by (auto simp: append_rows_def partition_append_def Let_def)
  show "triple (at k (\<lambda>c. c = c1)) (append_rows pq r w :: ('m, 's PartitionWriter) eio)
    (\<lambda>w'. at k (streaming pq p series schema props defs n c0 (rows @ [r]) w'))
    (\<lambda>_. at k (\<lambda>c. scribbled c0 p c \<and>
      (isl (pq_started pq schema props (map (group_chunks defs) (groups_of n (rows @ [r])))) \<and>
         (\<forall>rs. groups_of n ((rows @ [r]) @ rs) = groups_of n (rows @ [r]) @ groups_of n rs) \<or> \<not> k)))"
  proof (cases "max 1 n \<le> length (rest @ [r])")
    case False
    then show ?thesis
      unfolding step using w full b by (auto simp: triple_def at_def streaming_def intro!: exI [of _ full])
  next
    case True
    let ?full = "full @ [rest @ [r]]"
    have whole: "\<forall>g\<in>set ?full. length g = max 1 n" "rows @ [r] = concat ?full" using True full by auto
    have split: "groups_of n ((rows @ [r]) @ rs) = ?full @ groups_of n rs" for rs
      unfolding whole(2) by (rule groups_of_append [OF whole(1)])
    have acc: "\<forall>x\<in>set (rest @ [r]). accepted defs x" using r rows full(1) by auto
    have st: "pq_started pq schema props (map (group_chunks defs) full) = Inr (pw_writer ?w, b)" using b by simp
    have "streaming pq p series schema props defs n c0 (rows @ [r]) (?w\<lparr>pw_writer := st, pw_builder := columns_of series schema defs []\<rparr>) (c0(p \<mapsto> b'))"
      if "pq_started pq schema props (map (group_chunks defs) full @ [group_chunks defs (rest @ [r])]) = Inr (st, b')" for st b'
      using that whole w unfolding streaming_def by (intro conjI exI [of _ ?full] exI [of _ "[]"] exI [of _ b']) auto
    note new = this
    have eq: "(append_rows pq r w :: ('m, 's PartitionWriter) eio) = partition_write_group pq ?w" using step True by simp
    have wr: "triple (at k (\<lambda>c. c = c0(p \<mapsto> b))) (partition_write_group pq ?w :: ('m, 's PartitionWriter) eio)
      (\<lambda>w'. at k (\<lambda>c. \<exists>st b'. pq_started pq schema props (map (group_chunks defs) full @ [group_chunks defs (rest @ [r])]) = Inr (st, b') \<and>
          w' = ?w\<lparr>pw_writer := st, pw_builder := columns_of series schema defs []\<rparr> \<and> c = c0(p \<mapsto> b')))
      (\<lambda>_. at k (\<lambda>c. scribbled c0 p c \<and> (isl (pq_started pq schema props (map (group_chunks defs) full @ [group_chunks defs (rest @ [r])])) \<or> \<not> k)))"
      by (rule write_group_triple [OF acc _ _ _ st]) (simp_all add: w)
    have all: "groups_of n (rows @ [r]) = ?full" using split [of "[]"] by simp
    show ?thesis
      unfolding b(2) eq all split
      by (rule triple_conseq [OF wr]) (use new in \<open>auto simp: at_def simp del: PartitionWriter.simps\<close>)
  qed
qed

definition stream_file ::
  "'s Parquet \<Rightarrow> path \<Rightarrow> rstr \<Rightarrow> u32 \<Rightarrow> KeyDef list \<Rightarrow> rstr \<Rightarrow> nat \<Rightarrow> Row list \<Rightarrow> ('m, nat) eio" where
  "stream_file pq p series epoch defs compr n rows =
     seq (partition_create pq p series epoch defs compr n) (\<lambda>w.
     seq (fold_io (append_rows pq) rows w) (\<lambda>w'. partition_finish pq w'))"

lemma streaming_new:
  assumes "pq_started pq schema props [] = Inr (st, b0)"
  shows "streaming pq p series schema props defs n c0 []
    \<lparr>pw_path = p, pw_writer = st, pw_builder = columns_of series schema defs [], pw_group_rows = max 1 n, pw_rows = 0\<rparr> (c0(p \<mapsto> b0))"
  by (rule streamingI [where full = "[]" and rest = "[]" and b = b0]) (simp_all add: assms)

lemma streaming_create:
  assumes "writer_properties series epoch compr = Inr props" "parquet_schema pq defs = Inr schema"
  shows "triple (at k (\<lambda>c. c = c0)) (partition_create pq p series epoch defs compr n)
    (\<lambda>w. at k (streaming pq p series schema props defs n c0 [] w))
    (\<lambda>_. at k (\<lambda>c. scribbled c0 p c \<and> (isl (pq_started pq schema props []) \<or> \<not> k)))"
  unfolding partition_create_def assms row_builder_new_of rbind_Inr of_result_def sum.case seq_ok columns_of_simps
  by (rule triple_seq [OF create_triple], rule triple_seq [OF open_triple], rule triple_at_ex)
    (simp add: triple_def at_def streaming_new [unfolded One_nat_def])

lemma streaming_finish:
  fixes pq :: "'s Parquet"
  assumes rows: "\<forall>r\<in>set rows. accepted defs r"
  shows "triple (at k (streaming pq p series schema props defs n c0 rows w)) (partition_finish pq w :: ('m, nat) eio)
    (\<lambda>m. at k (\<lambda>c. m = length rows \<and> (\<exists>bs. pq_file pq schema props (map (group_chunks defs) (groups_of n rows)) = Inr bs \<and> c = c0(p \<mapsto> bs))))
    (\<lambda>_. at k (\<lambda>c. scribbled c0 p c \<and> (isl (pq_file pq schema props (map (group_chunks defs) (groups_of n rows))) \<or> \<not> k)))"
proof (rule triple_at_fix)
  fix c1 assume "streaming pq p series schema props defs n c0 rows w c1"
  then obtain full rest b where w: "pw_path w = p" "pw_rows w = length rows"
    "pw_builder w = columns_of series schema defs rest" and full: "rows = concat full @ rest" "\<forall>g\<in>set full. length g = max 1 n"
    "length rest < max 1 n" and b: "pq_started pq schema props (map (group_chunks defs) full) = Inr (pw_writer w, b)" "c1 = c0(p \<mapsto> b)"
    by (auto simp: streaming_def)
  let ?gs = "map (group_chunks defs) (groups_of n rows)"
  let ?E = "\<lambda>_. at k (\<lambda>c. scribbled c0 p c \<and> (isl (pq_file pq schema props ?gs) \<or> \<not> k))"
  have last: "triple (at k (\<lambda>c. c = c1)) (partition_write_group pq w :: ('m, 's PartitionWriter) eio)
      (\<lambda>w'. at k (\<lambda>c. \<exists>b'. (pw_path w' = p \<and> pw_rows w' = length rows \<and> pq_started pq schema props ?gs = Inr (pw_writer w', b')) \<and> c = c0(p \<mapsto> b'))) ?E"
  proof (cases "rest = []")
    case True
    have "groups_of n rows = full" using groups_of_append [OF full(2), of "[]"] True full(1) by simp
    with True w b show ?thesis by (auto simp: partition_write_group_def triple_def at_def)
  next
    case False
    have gs: "?gs = map (group_chunks defs) full @ [group_chunks defs rest]"
      using groups_of_append [OF full(2), of rest] groups_of_short [OF False, of n] full by simp
    have acc: "\<forall>x\<in>set rest. accepted defs x" using rows full(1) by auto
    show ?thesis
      unfolding b(2) gs
      by (rule triple_conseq [OF write_group_triple [OF acc False w(1,3) b(1)]])
        (use w pq_started_fails [of pq schema props _ "[]"] in \<open>auto simp: at_def\<close>)
  qed
  have fin: "triple (at k (\<lambda>c. \<exists>b'. (pw_path w' = p \<and> pw_rows w' = length rows \<and> pq_started pq schema props ?gs = Inr (pw_writer w', b')) \<and> c = c0(p \<mapsto> b')))
      (seq (close_file pq (pw_path w') (pw_writer w')) (\<lambda>_. ok (pw_rows w')) :: ('m, nat) eio)
      (\<lambda>m. at k (\<lambda>c. m = length rows \<and> (\<exists>bs. pq_file pq schema props ?gs = Inr bs \<and> c = c0(p \<mapsto> bs)))) ?E" for w'
    by (rule triple_at_ex, elim conjE, simp only:, rule triple_seq [OF close_started_triple], assumption) (auto simp: triple_def at_def)
  show "triple (at k (\<lambda>c. c = c1)) (partition_finish pq w :: ('m, nat) eio)
    (\<lambda>m. at k (\<lambda>c. m = length rows \<and> (\<exists>bs. pq_file pq schema props ?gs = Inr bs \<and> c = c0(p \<mapsto> bs)))) ?E"
    unfolding partition_finish_def by (rule triple_seq [OF last]) (rule fin)
qed

text \<open>The whole stream.\<close>

lemma streaming_loop:
  assumes "\<forall>r\<in>set (rows @ more_rows). accepted defs r"
  shows "triple (at k (streaming pq p series schema props defs n c0 rows w)) (fold_io (append_rows pq) more_rows w :: ('m, 's PartitionWriter) eio)
    (\<lambda>w'. at k (streaming pq p series schema props defs n c0 (rows @ more_rows) w'))
    (\<lambda>_. at k (\<lambda>c. scribbled c0 p c \<and> (isl (pq_file pq schema props (map (group_chunks defs) (groups_of n (rows @ more_rows)))) \<or> \<not> k)))"
  using assms
proof (induction more_rows arbitrary: rows w)
  case (Cons r rs)
  have step: "triple (at k (streaming pq p series schema props defs n c0 rows w)) (append_rows pq r w :: ('m, 's PartitionWriter) eio)
      (\<lambda>w'. at k (streaming pq p series schema props defs n c0 (rows @ [r]) w'))
      (\<lambda>_. at k (\<lambda>c. scribbled c0 p c \<and> (isl (pq_file pq schema props (map (group_chunks defs) (groups_of n (rows @ r # rs)))) \<or> \<not> k)))"
  proof (rule triple_conseq [OF streaming_append])
    fix e s assume "at k (\<lambda>c. scribbled c0 p c \<and> (isl (pq_started pq schema props (map (group_chunks defs) (groups_of n (rows @ [r])))) \<and>
        (\<forall>rs. groups_of n ((rows @ [r]) @ rs) = groups_of n (rows @ [r]) @ groups_of n rs) \<or> \<not> k)) s"
    then have "isl (pq_started pq schema props (map (group_chunks defs) (groups_of n (rows @ [r])))) \<and>
        groups_of n ((rows @ [r]) @ rs) = groups_of n (rows @ [r]) @ groups_of n rs \<or> \<not> k"
      and s: "wf_disk s" "k \<longrightarrow> calm s" "scribbled c0 p (content s)" unfolding at_def by blast+
    then have "isl (pq_file pq schema props (map (group_chunks defs) (groups_of n (rows @ r # rs)))) \<or> \<not> k"
      using pq_started_fails [of pq schema props "map (group_chunks defs) (groups_of n (rows @ [r]))" "map (group_chunks defs) (groups_of n rs)"]
      by auto
    with s show "at k (\<lambda>c. scribbled c0 p c \<and> (isl (pq_file pq schema props (map (group_chunks defs) (groups_of n (rows @ r # rs)))) \<or> \<not> k)) s"
      by (simp add: at_def)
  qed (use Cons.prems in auto)
  have "triple (at k (streaming pq p series schema props defs n c0 (rows @ [r]) w')) (fold_io (append_rows pq) rs w' :: ('m, 's PartitionWriter) eio)
      (\<lambda>w'. at k (streaming pq p series schema props defs n c0 (rows @ r # rs) w'))
      (\<lambda>_. at k (\<lambda>c. scribbled c0 p c \<and> (isl (pq_file pq schema props (map (group_chunks defs) (groups_of n (rows @ r # rs)))) \<or> \<not> k)))" for w'
    using Cons.IH [of "rows @ [r]" w'] Cons.prems by simp
  then show ?case unfolding fold_io.simps by (rule triple_seq [OF step])
qed (simp add: triple_def)

lemma stream_file_triple:
  assumes rows: "\<forall>r\<in>set rows. accepted defs r" and schema: "parquet_schema pq defs = Inr schema"
    and res_def: "res = file_result pq series epoch compr schema (map (group_chunks defs) (groups_of n rows))"
  shows "triple (at k (\<lambda>c. c = c0)) (stream_file pq p series epoch defs compr n rows)
    (\<lambda>m. at k (\<lambda>c. m = length rows \<and> (\<exists>bs. res = Inr bs \<and> c = c0(p \<mapsto> bs))))
    (\<lambda>_. at k (\<lambda>c. scribbled c0 p c \<and> (isl res \<or> \<not> k)))"
proof (cases "writer_properties series epoch compr")
  case (Inl e)
  then show ?thesis
    by (auto simp: stream_file_def partition_create_def of_result_def triple_def at_def res_def file_result_def scribbled_def
        fun_upd_idem intro: exI [of _ "c0 p"])
next
  case (Inr props)
  let ?gs = "map (group_chunks defs) (groups_of n rows)"
  have res: "isl res = isl (pq_file pq schema props ?gs)" "res = Inr bs \<longleftrightarrow> pq_file pq schema props ?gs = Inr bs" for bs
    by (simp_all add: res_def file_result_def Inr)
  have create: "triple (at k (\<lambda>c. c = c0)) (partition_create pq p series epoch defs compr n)
      (\<lambda>w. at k (streaming pq p series schema props defs n c0 [] w)) (\<lambda>_. at k (\<lambda>c. scribbled c0 p c \<and> (isl res \<or> \<not> k)))"
    by (rule triple_conseq [OF streaming_create [OF Inr schema]])
      (use pq_started_fails [of pq schema props "[]" ?gs] in \<open>auto simp: at_def res\<close>)
  have loop: "triple (at k (streaming pq p series schema props defs n c0 [] w)) (fold_io (append_rows pq) rows w)
      (\<lambda>w'. at k (streaming pq p series schema props defs n c0 rows w')) (\<lambda>_. at k (\<lambda>c. scribbled c0 p c \<and> (isl res \<or> \<not> k)))" for w
    using streaming_loop [of "[]" rows defs k pq p series schema props n c0 w] rows by (simp add: res)
  show ?thesis
    unfolding stream_file_def
    by (rule triple_seq [OF create], rule triple_seq [OF loop]) (use streaming_finish [OF rows] in \<open>simp add: res\<close>)
qed

text \<open>Rows the builder refuses stop both writers.\<close>

lemma accepted_prefix:
  assumes "\<not> (\<forall>r\<in>set rows. accepted defs r)"
  obtains good r rest where "rows = good @ r # rest" "\<forall>r\<in>set good. accepted defs r" "\<not> accepted defs r"
  using assms split_list_first_prop [of rows "\<lambda>r. \<not> accepted defs r"] by auto

lemma fold_io_append: "fold_io f (xs @ ys) w = seq (fold_io f xs w) (fold_io f ys)"
proof (induction xs arbitrary: w)
  case (Cons x xs)
  then have "fold_io f (xs @ ys) = (\<lambda>w. seq (fold_io f xs w) (fold_io f ys))" by (intro ext) simp
  then show ?case by (simp add: seq_assoc)
qed (simp add: seq_ok)

lemma triple_never:
  assumes "triple P m (\<lambda>_ _. False) E" "P s" shows "isl (fst (m s))"
  using triple_Inr [OF assms] by (cases "m s"; cases "fst (m s)") auto

lemma stream_file_refuses:
  fixes d :: "'m Disk_scheme"
  assumes "\<not> (\<forall>r\<in>set rows. accepted defs r)" "wf_disk d"
  shows "isl (fst (stream_file pq p series epoch defs compr n rows d))"
proof -
  obtain good r rest where rows: "rows = good @ r # rest" "\<forall>r\<in>set good. accepted defs r" "\<not> accepted defs r"
    using accepted_prefix [OF assms(1)] by blast
  have "isl (fst (stream_file pq p series epoch defs compr n rows d))"
    if props: "writer_properties series epoch compr = Inr props" and schema: "parquet_schema pq defs = Inr schema" for props schema
  proof -
    have bad: "triple (at False (streaming pq p series schema props defs n (content d) good w))
        (fold_io (append_rows pq) (r # rest) w) (\<lambda>_ _. False) (\<lambda>_ _. True)" for w
    proof (rule triple_at_fix)
      fix c assume "streaming pq p series schema props defs n (content d) good w c"
      then obtain xs where "pw_builder w = columns_of series schema defs xs" by (auto simp: streaming_def)
      with row_append_refuses [OF rows(3), of series schema xs]
      show "triple (at False (\<lambda>c'. c' = c)) (fold_io (append_rows pq) (r # rest) w) (\<lambda>_ _. False) (\<lambda>_ _. True)"
        by (auto simp: append_rows_def partition_append_def triple_def)
    qed
    have create: "triple (at False (\<lambda>c. c = content d)) (partition_create pq p series epoch defs compr n)
        (\<lambda>w. at False (streaming pq p series schema props defs n (content d) [] w)) (\<lambda>_ _. True)"
      by (rule triple_conseq [OF streaming_create [OF props schema]]) auto
    have loop: "triple (at False (streaming pq p series schema props defs n (content d) [] w)) (fold_io (append_rows pq) good w)
        (\<lambda>w'. at False (streaming pq p series schema props defs n (content d) good w')) (\<lambda>_ _. True)" for w
      by (rule triple_conseq [OF streaming_loop [of "[]"]]) (use rows(2) in auto)
    have "triple (at False (\<lambda>c. c = content d)) (stream_file pq p series epoch defs compr n rows :: ('m, nat) eio) (\<lambda>_ _. False) (\<lambda>_ _. True)"
      unfolding stream_file_def rows(1) fold_io_append seq_assoc
      by (rule triple_seq [OF create], rule triple_seq [OF loop], rule triple_seq [OF bad]) (simp add: triple_def)
    from triple_never [OF this] show ?thesis using assms(2) by (simp add: at_def)
  qed
  then show ?thesis
    by (cases "writer_properties series epoch compr"; cases "parquet_schema pq defs")
      (auto simp: stream_file_def partition_create_def of_result_def row_builder_new_def seq_ok)
qed

definition reference_file ::
  "'s Parquet \<Rightarrow> path \<Rightarrow> rstr \<Rightarrow> u32 \<Rightarrow> KeyDef list \<Rightarrow> rstr \<Rightarrow> nat \<Rightarrow> Row list \<Rightarrow> ('m, unit) eio" where
  "reference_file pq p series epoch defs compr n rows =
     seq (of_result (row_builder_new pq series defs)) (\<lambda>b.
       case for_each append_row rows b of
         (Inl e, _) \<Rightarrow> fail e
       | (Inr _, cols) \<Rightarrow> write_file pq p cols series epoch compr n)"

lemma for_each_append_row:
  assumes "\<forall>r\<in>set more_rows. accepted defs r"
  shows "for_each append_row more_rows (columns_of series schema defs rows) = (Inr (), columns_of series schema defs (rows @ more_rows))"
  using assms by (induction more_rows arbitrary: rows) (simp_all add: row_append_of)

lemma for_each_append: "for_each f (xs @ ys) s = seq (for_each f xs) (\<lambda>_. for_each f ys) s"
  by (induction xs arbitrary: s) (auto simp: seq_def split: prod.splits sum.splits)

lemma for_each_refuses:
  assumes "\<not> (\<forall>r\<in>set rows. accepted defs r)"
  shows "\<exists>e c. for_each append_row rows (columns_of series schema defs []) = (Inl e, c)"
proof -
  obtain good r rest where rows: "rows = good @ r # rest" "\<forall>r\<in>set good. accepted defs r" "\<not> accepted defs r"
    using accepted_prefix [OF assms] by blast
  then show ?thesis
    using row_append_refuses [OF rows(3), of series schema good] for_each_append_row [OF rows(2), of series schema "[]"]
    by (auto simp: for_each_append)
qed

text \<open>
  Claim C38. Streaming a partition row by row, as the flush does, gives the file that building all
  its columns first and writing them in one go gives, byte for byte, for every list of rows, every
  row group size and whatever the parquet package does with the groups; on a disk that refuses no call the two
  succeed together, rows the column builder refuses included.
\<close>

theorem streaming_is_write_file:
  assumes "wf_disk d"
    and "stream_file pq p series epoch defs compr n rows d = (r, d1)"
    and "reference_file pq p series epoch defs compr n rows d = (r', d2)"
  shows "(\<not> isl r \<and> \<not> isl r' \<longrightarrow> r = Inr (length rows) \<and> content d1 = content d2) \<and>
    (calm d \<longrightarrow> isl r = isl r')"
proof (cases "(\<forall>r\<in>set rows. accepted defs r) \<and> \<not> isl (parquet_schema pq defs)")
  case True
  then obtain schema where schema: "parquet_schema pq defs = Inr schema" and rows: "\<forall>r\<in>set rows. accepted defs r"
    by (cases "parquet_schema pq defs") auto
  let ?res = "file_result pq series epoch compr schema (map (group_chunks defs) (groups_of n rows))"
  have ref: "write_file pq p (columns_of series schema defs rows) series epoch compr n d = (r', d2)"
    using assms(3) for_each_append_row [OF rows, of series schema "[]"]
    by (simp add: reference_file_def row_builder_new_of schema of_result_def seq_ok)
  have d: "at k (\<lambda>c. c = content d) d \<longleftrightarrow> (k \<longrightarrow> calm d)" for k using assms(1) by (simp add: at_def)
  note s = stream_file_triple [OF rows schema refl, where ?c0.0 = "content d" and p = p and series = series and epoch = epoch and compr = compr and n = n]
  note w = write_file_triple [OF rows refl, where ?c0.0 = "content d" and p = p and series = series and epoch = epoch and compr = compr and n = n and pq = pq and schema = schema]
  have "m = length rows \<and> (\<exists>bs. ?res = Inr bs \<and> content d1 = (content d)(p \<mapsto> bs))" if "r = Inr m" for m
    using triple_Inr [OF s [where k = False], of d m d1] assms(2) that d [of False] by (auto simp: at_def)
  moreover have "isl ?res \<or> \<not> calm d" if "r = Inl e" for e
    using triple_Inl [OF s [where k = "calm d"], of d e d1] assms(2) that d [of "calm d"] by (auto simp: at_def)
  moreover have "\<exists>bs. ?res = Inr bs \<and> content d2 = (content d)(p \<mapsto> bs)" if "r' = Inr u" for u
    using triple_Inr [OF w [where k = False], of d u d2] ref that d [of False] by (auto simp: at_def)
  moreover have "isl ?res \<or> \<not> calm d" if "r' = Inl e" for e
    using triple_Inl [OF w [where k = "calm d"], of d e d2] ref that d [of "calm d"] by (auto simp: at_def)
  ultimately show ?thesis by (cases r; cases r'; cases ?res) auto
next
  case False
  have "isl r" using False assms stream_file_refuses [OF _ assms(1), of rows defs pq p series epoch compr n]
    by (cases "parquet_schema pq defs"; cases "writer_properties series epoch compr")
      (auto simp: stream_file_def partition_create_def row_builder_new_def of_result_def seq_ok)
  moreover have "isl r'"
  proof (cases "parquet_schema pq defs")
    case (Inl e)
    with assms(3) show ?thesis by (auto simp: reference_file_def row_builder_new_of of_result_def)
  next
    case (Inr schema)
    with False for_each_refuses [of rows defs series schema]
    obtain e c where "for_each append_row rows (columns_of series schema defs []) = (Inl e, c)" by auto
    with Inr assms(3) show ?thesis by (auto simp: reference_file_def row_builder_new_of of_result_def seq_ok)
  qed
  ultimately show ?thesis by simp
qed

section \<open>Reading a row group back\<close>

text \<open>
  Record assembly: a definition level says whether a value is there, a repetition level of zero opens
  a row. An optional column of one level, and a map with its entries.
\<close>

fun fill :: "('a \<Rightarrow> Value) \<Rightarrow> int list \<Rightarrow> 'a list \<Rightarrow> Value list" where
  "fill con [] xs = []"
| "fill con (d # ds) xs = (if d = 0 then VNull # fill con ds xs else con (hd xs) # fill con ds (tl xs))"

fun chunk_values :: "Chunk \<Rightarrow> Value list" where
  "chunk_values (BoolChunk xs (Some ds)) = fill VBool ds xs"
| "chunk_values (Int64Chunk xs (Some ds)) = fill VI64 ds xs"
| "chunk_values (DoubleChunk xs (Some ds)) = fill VF64 ds xs"
| "chunk_values (BytesChunk xs (Some ds) None) = fill VStr ds xs"
| "chunk_values _ = []"

function assemble :: "(int \<times> int) list \<Rightarrow> 'e list \<Rightarrow> 'e list list" where
  "assemble [] es = []"
| "assemble ((rep, def) # ls) es =
     (if def = 0 then [] # assemble ls es
      else let n = Suc (length (takeWhile (\<lambda>l. fst l = 1) ls)) in
           take n es # assemble (dropWhile (\<lambda>l. fst l = 1) ls) (drop n es))"
  by pat_completeness auto
termination
  by (relation "measure (\<lambda>(ls, _). length ls)") (auto simp: length_dropWhile_le le_imp_less_Suc)

fun chunk_maps :: "Chunk \<Rightarrow> Chunk \<Rightarrow> (rstr \<times> rstr) list list" where
  "chunk_maps (BytesChunk ks (Some ds) (Some rs)) (BytesChunk vs (Some ds') (Some rs')) =
     (if rs = rs' \<and> map (\<lambda>d. if d = 0 then 0 else 2) ds = ds' then assemble (zip rs ds) (zip ks vs) else [])"
| "chunk_maps _ _ = []"

fun plain_i64 :: "Chunk \<Rightarrow> u64 list" where "plain_i64 (Int64Chunk xs None) = xs" | "plain_i64 _ = []"
fun plain_bytes :: "Chunk \<Rightarrow> bytes list" where "plain_bytes (BytesChunk xs None None) = xs" | "plain_bytes _ = []"

definition read_group :: "nat \<Rightarrow> Chunk list \<Rightarrow> Row list" where
  "read_group keys chunks =
     map (\<lambda>i. \<lparr>row_ts = plain_i64 (chunks ! 0) ! i, row_id = plain_bytes (chunks ! 1) ! i,
               row_keys = map (\<lambda>j. chunk_values (chunks ! (2 + j)) ! i) [0..<keys],
               row_extra = chunk_maps (chunks ! (2 + keys)) (chunks ! (3 + keys)) ! i,
               row_data = plain_bytes (chunks ! (4 + keys)) ! i\<rparr>)
       [0..<length (plain_i64 (chunks ! 0))]"

lemma fill_map_filter:
  assumes "\<forall>v\<in>set vs. v = VNull \<or> (\<exists>x. f v = Some x \<and> con x = v)" "f VNull = None"
  shows "fill con (map def_level vs) (List.map_filter f vs) = vs"
  using assms by (induction vs) (auto simp: def_level_def List.map_filter_def)

lemma chunk_values_key_chunk:
  assumes "\<forall>v\<in>set vs. fits_type ty v"
  shows "chunk_values (key_chunk ty vs) = vs"
proof -
  have "v = VNull \<or> (\<exists>x. bool_of v = Some x \<and> VBool x = v)" if "fits_type KBool v" for v using that by (cases v) (auto simp: fits_type_def)
  moreover have "v = VNull \<or> (\<exists>x. i64_of v = Some x \<and> VI64 x = v)" if "fits_type KI64 v" for v using that by (cases v) (auto simp: fits_type_def)
  moreover have "v = VNull \<or> (\<exists>x. f64_of v = Some x \<and> VF64 x = v)" if "fits_type KF64 v" for v using that by (cases v) (auto simp: fits_type_def)
  moreover have "v = VNull \<or> (\<exists>x. str_of v = Some x \<and> VStr x = v)" if "fits_type KStr v" for v using that by (cases v) (auto simp: fits_type_def)
  ultimately show ?thesis using assms by (cases ty; simp add: key_chunk_def; intro fill_map_filter; (simp | blast))
qed

text \<open>The levels of a list of maps take their entries apart again.\<close>

definition slots :: "nat \<Rightarrow> (int \<times> int) list" where
  "slots n = (if n = 0 then [(0, 0)] else (0, 1) # replicate (n - 1) (1, 1))"

lemma map_levels_slots:
  "zip (ml_reps (map_levels counts)) (ml_key_defs (map_levels counts)) = concat (map slots counts)"
  "ml_value_defs (map_levels counts) = map (\<lambda>d. if d = 0 then 0 else 2) (ml_key_defs (map_levels counts))"
proof -
  have reps: "map (\<lambda>i. if i = 0 then 0 else 1) [0..<n] = (0 :: int) # replicate (n - 1) 1" if "n \<noteq> 0" for n
    using that by (intro nth_equalityI) (auto simp: nth_Cons split: nat.splits)
  have one: "zip (if n = 0 then [0] else map (\<lambda>i. if i = 0 then 0 else 1) [0..<n]) (if n = 0 then [0] else replicate n (1 :: int)) = slots n" for n
    by (cases n) (simp_all add: reps slots_def zip_replicate del: upt_Suc)
  have len: "length (if n = 0 then [0 :: int] else map (\<lambda>i. if i = 0 then 0 else 1) [0..<n]) = length (if n = 0 then [0 :: int] else replicate n 1)" for n
    by simp
  show "zip (ml_reps (map_levels counts)) (ml_key_defs (map_levels counts)) = concat (map slots counts)"
  proof (induction counts)
    case (Cons n ns)
    then show ?case using one [of n] len [of n] by (simp add: map_levels_def zip_append)
  qed (simp add: map_levels_def)
  show "ml_value_defs (map_levels counts) = map (\<lambda>d. if d = 0 then 0 else 2) (ml_key_defs (map_levels counts))"
    by (induction counts) (simp_all add: map_levels_def)
qed

lemma slots_head: "concat (map slots counts) = [] \<or> fst (hd (concat (map slots counts))) = 0"
  by (cases counts) (auto simp: slots_def)

lemma slots_simps: "slots 0 = [(0, 0)]" "slots (Suc n) = (0, 1) # replicate n (1, 1)"
  by (simp_all add: slots_def)

lemma while_run:
  assumes "ls = [] \<or> fst (hd ls) = 0"
  shows "takeWhile (\<lambda>l. fst l = 1) (replicate n (1 :: int, 1 :: int) @ ls) = replicate n (1, 1)"
    "dropWhile (\<lambda>l. fst l = 1) (replicate n (1 :: int, 1 :: int) @ ls) = ls"
  using assms by (induction n; cases ls; simp)+

lemma assemble_slots: "assemble (concat (map slots (map length ms))) (concat ms) = ms"
proof (induction ms)
  case (Cons m ms)
  let ?rest = "concat (map slots (map length ms))"
  show ?case
  proof (cases m)
    case Nil
    have "assemble ((0, 0) # ?rest) (concat ms) = [] # ms" using Cons by (subst assemble.simps) simp
    with Nil show ?thesis by (simp add: slots_simps)
  next
    case (Cons e es)
    have "assemble ((0, 1) # replicate (length es) (1, 1) @ ?rest) (m @ concat ms) = m # ms"
      using Cons.IH while_run [OF slots_head, of "length es" "map length ms"] Cons
      by (subst assemble.simps) (simp del: replicate.simps map_map)
    with Cons show ?thesis by (simp add: slots_simps)
  qed
qed simp

lemma extra_chunks_maps:
  "chunk_maps
     (BytesChunk (map fst (extras rows)) (Some (ml_key_defs (extra_levels rows))) (Some (ml_reps (extra_levels rows))))
     (BytesChunk (map snd (extras rows)) (Some (ml_value_defs (extra_levels rows))) (Some (ml_reps (extra_levels rows)))) =
   map (\<lambda>r. canonical (row_extra r)) rows"
  using assemble_slots [of "map (\<lambda>r. canonical (row_extra r)) rows"]
  by (simp add: extra_levels_def map_levels_slots extras_def zip_map_fst_snd comp_def)

lemma group_read_back:
  assumes rows: "\<forall>r\<in>set rows. accepted defs r"
    and cols_def: "cols = columns_of series schema defs rows"
  shows "read_group (length defs) (fst (columns_group cols 0 (length rows) (cursors_start cols))) =
    map (\<lambda>r. r\<lparr>row_extra := canonical (row_extra r)\<rparr>) rows"
proof -
  have start: "cursors_start cols = cursors_at defs (take 0 rows)"
    by (simp add: cols_def cursors_start_def cursors_at_def key_values_def present_def extras_def map_replicate_const)
  have grp: "fst (columns_group cols 0 (length rows) (cursors_start cols)) = group_chunks defs rows"
    using columns_group_of [OF rows, of 0 "length rows" series schema] unfolding start by (simp add: slice_def cols_def)
  have key: "chunk_values (key_chunk (key_ty (defs ! j)) (map (\<lambda>r. row_keys r ! j) rows)) = map (\<lambda>r. row_keys r ! j) rows"
    if "j < length defs" for j
    by (rule chunk_values_key_chunk) (use rows that in \<open>auto simp: accepted_def key_types_def list_all2_conv_all_nth\<close>)
  let ?n = "length defs" and ?g = "group_chunks defs rows"
  have nths: "?g ! 0 = Int64Chunk (map row_ts rows) None" "?g ! 1 = BytesChunk (map row_id rows) None None"
    "\<And>j. j < ?n \<Longrightarrow> ?g ! (2 + j) = key_chunk (key_ty (defs ! j)) (map (\<lambda>r. row_keys r ! j) rows)"
    "?g ! (2 + ?n) = BytesChunk (map fst (extras rows)) (Some (ml_key_defs (extra_levels rows))) (Some (ml_reps (extra_levels rows)))"
    "?g ! (3 + ?n) = BytesChunk (map snd (extras rows)) (Some (ml_value_defs (extra_levels rows))) (Some (ml_reps (extra_levels rows)))"
    "?g ! (4 + ?n) = BytesChunk (map row_data rows) None None"
    by (simp_all add: group_chunks_def nth_append key_types_def key_values_def)
  have keys: "map (\<lambda>j. chunk_values (?g ! (2 + j)) ! i) [0..<?n] = row_keys (rows ! i)" if "i < length rows" for i
  proof -
    have "map (\<lambda>j. chunk_values (?g ! (2 + j)) ! i) [0..<?n] = map (\<lambda>j. row_keys (rows ! i) ! j) [0..<?n]"
      by (rule map_cong [OF refl]) (simp only: nths(3) key set_upt atLeastLessThan_iff nth_map that)
    moreover have "accepted defs (rows ! i)" using rows that by simp
    then have "length (row_keys (rows ! i)) = ?n" by (auto simp: accepted_def key_types_def dest!: list_all2_lengthD)
    ultimately show ?thesis by (metis map_nth)
  qed
  have "read_group ?n ?g = map (\<lambda>i. (rows ! i)\<lparr>row_extra := canonical (row_extra (rows ! i))\<rparr>) [0..<length rows]"
    unfolding read_group_def nths extra_chunks_maps
    by (rule map_cong) (simp_all add: keys [simplified])
  also have "\<dots> = map (\<lambda>r. r\<lparr>row_extra := canonical (row_extra r)\<rparr>) rows"
    by (rule nth_equalityI) simp_all
  finally show ?thesis by (simp add: grp)
qed

text \<open>
  Claim C39. A row group holds its rows: from the columns the builder has after any list of rows it
  accepts, the chunks handed to the parquet package determine, by the assembly rules of the
  format, exactly those rows in order (their \<open>extra\<close> in canonical form), nulls, empty maps and empty
  strings included. The builder accepts exactly the rows whose values fit the declared keys and whose timestamp
  fits a signed 64-bit integer.
\<close>

theorem row_group_roundtrip:
  assumes "row_builder_new pq series defs = Inr b"
  shows "(case for_each append_row rows b of
      (Inr _, cols) \<Rightarrow> (\<forall>r\<in>set rows. accepted defs r) \<and>
        read_group (length defs) (fst (columns_group cols 0 (c_rows cols) (cursors_start cols))) =
          map (\<lambda>r. r\<lparr>row_extra := canonical (row_extra r)\<rparr>) rows
    | (Inl _, _) \<Rightarrow> \<exists>r\<in>set rows. \<not> accepted defs r)"
proof -
  from assms obtain schema where b: "b = columns_of series schema defs []" by (auto simp: row_builder_new_of rbind_eq_Inr)
  show ?thesis
  proof (cases "\<forall>r\<in>set rows. accepted defs r")
    case False
    obtain e c where "for_each append_row rows (columns_of series schema defs []) = (Inl e, c)"
      using for_each_refuses [OF False] by blast
    with False show ?thesis unfolding b by simp
  next
    case True
    with group_read_back [OF True refl, of series schema] for_each_append_row [OF True, of series schema "[]"] show ?thesis
      by (simp add: b)
  qed
qed

section \<open>File names\<close>

lemma split_str_Some: "split_once_str sep s = Some (l, r) \<Longrightarrow> s = l @ sep @ r"
proof (induction s arbitrary: l)
  case Nil
  then show ?case by (auto simp: split_once_str.simps [of sep "[]"] split: if_splits)
next
  case (Cons b s)
  then show ?case
    by (auto simp: split_once_str.simps [of sep "b # s"] prefix_def split: if_splits) 
qed

lemma split_str_first:
  assumes "x \<notin> set l" shows "split_once_str (x # sep) (l @ (x # sep) @ r) = Some (l, r)"
  using assms
proof (induction l)
  case Nil
  then show ?case by (simp add: split_once_str.simps)
next
  case (Cons b l)
  then show ?case by (subst split_once_str.simps) auto
qed

lemma parse_segment_field_iff: "parse_segment_field s = Some i \<longleftrightarrow> s = pad SEGMENT_ID_DIGITS (unat i)"
proof -
  have "parse_segment_field s = parse_segment_name (s @ dot # SEGMENT_EXT)"
    by (auto simp: parse_segment_field_def parse_segment_name_def)
  then show ?thesis using parse_segment_name_iff [of "s @ dot # SEGMENT_EXT" i] by (simp add: segment_name_def)
qed

definition output_name_with :: "u64 \<Rightarrow> u64 \<Rightarrow> rstr \<Rightarrow> rstr" where
  "output_name_with f l epoch =
     pad 10 (unat f) @ lit ''-'' @ pad 10 (unat l) @ lit ''.e'' @ epoch @ lit ''.parquet''"

lemma digits_not: "all_digits s \<Longrightarrow> \<not> is_digit b \<Longrightarrow> b \<notin> set s"
  by (auto simp: all_digits_def list_all_iff)

lemma rsplit_output:
  assumes "all_digits epoch"
  shows "rsplit_once (lit ''.e'') (rng @ lit ''.e'' @ epoch) = Some (rng, epoch)"
proof -
  have "101 \<notin> set (rev epoch)" using digits_not [OF assms, of 101] by (simp add: is_digit_def)
  from split_str_first [OF this, of "[46]" "rev rng"] show ?thesis
    by (simp add: rsplit_once_def lit_def)
qed

lemma parse_output_name_with:
  assumes "all_digits epoch" "epoch \<noteq> []" "undec epoch < 2 ^ 32"
  shows "parse_output_file_name (output_name_with f l epoch) = Some (f, l, of_nat (undec epoch))"
proof -
  let ?range = "pad 10 (unat f) @ lit ''-'' @ pad 10 (unat l)"
  have name: "output_name_with f l epoch = (?range @ lit ''.e'' @ epoch) @ lit ''.parquet''"
    by (simp add: output_name_with_def)
  have "45 \<notin> set (pad 10 (unat f))" using digits_not [OF all_digits_pad, of 45] by (simp add: is_digit_def)
  from split_str_first [OF this, of "[]" "pad 10 (unat l)"]
  have "split_once_str (lit ''-'') ?range = Some (pad 10 (unat f), pad 10 (unat l))" by (simp add: lit_def)
  moreover have "parse_segment_field (pad 10 (unat i)) = Some i" for i
    using parse_segment_field_iff [of "pad 10 (unat i)" i] by (simp add: SEGMENT_ID_DIGITS_def)
  ultimately show ?thesis
    unfolding parse_output_file_name_def name strip_suffix_append
    using assms rsplit_output [OF assms(1), of ?range] by (simp add: parse_unsigned_digits)
qed

lemma parse_output_name: "parse_output_file_name (output_file_name f l e) = Some (f, l, e)"
proof -
  have "unat e < 2 ^ 32" using unat_less_pow [of e] by simp
  then show ?thesis using parse_output_name_with [of "dec (unat e)" f l] by (simp add: output_file_name_def output_name_with_def)
qed

text \<open>
  The name of an output file gives back its segment range and epoch, and every name that
  parses is that of the parsed range with the epoch in decimal, possibly with leading zeros: a
  name of any other shape is left alone.
\<close>

lemma output_names_roundtrip:
  "parse_output_file_name (output_file_name f l e) = Some (f, l, e) \<and>
   (parse_output_file_name name = Some (f, l, e) \<longleftrightarrow>
      (\<exists>epoch. all_digits epoch \<and> epoch \<noteq> [] \<and> undec epoch = unat e \<and>
        name = pad 10 (unat f) @ lit ''-'' @ pad 10 (unat l) @ lit ''.e'' @ epoch @ lit ''.parquet''))"
proof (intro conjI iffI)
  show "parse_output_file_name (output_file_name f l e) = Some (f, l, e)" by (rule parse_output_name)
  assume "parse_output_file_name name = Some (f, l, e)"
  then obtain rest rng epoch first last_part e' where p: "strip_suffix (lit ''.parquet'') name = Some rest"
    "rsplit_once (lit ''.e'') rest = Some (rng, epoch)" "split_once_str (lit ''-'') rng = Some (first, last_part)"
    "all_digits epoch" "epoch \<noteq> []" "parse_segment_field first = Some f" "parse_segment_field last_part = Some l"
    "parse_unsigned (2 ^ 32 - 1) epoch = Some e'" "e = of_nat e'"
    by (auto simp: parse_output_file_name_def bind_eq_Some_conv split: if_splits)
  have "rev rest = rev epoch @ rev (lit ''.e'') @ rev rng"
    using p(2) split_str_Some by (auto simp: rsplit_once_def)
  then have "rest = rng @ lit ''.e'' @ epoch" by (metis append_assoc rev_append rev_rev_ident)
  moreover have "undec epoch = unat e"
    using p(8,9) unfolding parse_unsigned_digits [OF p(4,5)] by (auto simp: unat_of_nat split: if_splits)
  ultimately show "\<exists>epoch. all_digits epoch \<and> epoch \<noteq> [] \<and> undec epoch = unat e \<and>
      name = pad 10 (unat f) @ lit ''-'' @ pad 10 (unat l) @ lit ''.e'' @ epoch @ lit ''.parquet''"
    using p split_str_Some [OF p(3)]
    by (intro exI [of _ epoch]) (auto simp: strip_suffix_Some parse_segment_field_iff SEGMENT_ID_DIGITS_def)
next
  assume "\<exists>epoch. all_digits epoch \<and> epoch \<noteq> [] \<and> undec epoch = unat e \<and>
      name = pad 10 (unat f) @ lit ''-'' @ pad 10 (unat l) @ lit ''.e'' @ epoch @ lit ''.parquet''"
  then show "parse_output_file_name name = Some (f, l, e)"
    using parse_output_name_with unat_less_pow [of e] by (fastforce simp: output_name_with_def)
qed

section \<open>Concrete instances\<close>

text \<open>A package that writes row groups as their row counts between a first and a last byte.\<close>

definition demo_parquet :: "nat Parquet" where
  "demo_parquet =
     \<lparr>pq_build = Inr, pq_open = (\<lambda>_ _. Inr (0, [80])),
      pq_group = (\<lambda>st chunks. Inr (st + 1, [of_nat (length (plain_i64 (hd chunks)))])),
      pq_close = (\<lambda>st. Inr [of_nat st])\<rparr>"

definition pq_row :: "u64 \<Rightarrow> Row" where
  "pq_row ts = \<lparr>row_ts = ts, row_id = [], row_keys = [VNull], row_extra = [([98], [1]), ([97], [])], row_data = [7]\<rparr>"

definition pq_keys :: "KeyDef list" where
  "pq_keys = [\<lparr>key_name = [107], key_ty = KI64, key_nullable = True\<rparr>]"

definition pq_disk :: Disk where
  "pq_disk = \<lparr>files = [], faults = (\<lambda>_. Done), ops = 0, stable = (\<lambda>_. None), linked = (\<lambda>_. False)\<rparr>"

theorem streaming_is_write_file_witness:
  "content (snd (stream_file demo_parquet [[1]] [115] 0 pq_keys (lit ''lz4'') 2 (map pq_row [1, 2, 3]) pq_disk)) =
   content (snd (reference_file demo_parquet [[1]] [115] 0 pq_keys (lit ''lz4'') 2 (map pq_row [1, 2, 3]) pq_disk))"
proof -
  have "fst (stream_file demo_parquet [[1]] [115] 0 pq_keys (lit ''lz4'') 2 (map pq_row [1, 2, 3]) pq_disk) = Inr 3"
    "fst (reference_file demo_parquet [[1]] [115] 0 pq_keys (lit ''lz4'') 2 (map pq_row [1, 2, 3]) pq_disk) = Inr ()"
    by code_simp+
  moreover have "wf_disk pq_disk" by (simp add: pq_disk_def wf_disk_def)
  ultimately show ?thesis
    using streaming_is_write_file [OF _ surjective_pairing surjective_pairing, of pq_disk demo_parquet "[[1]]" "[115]" 0 pq_keys
        "lit ''lz4''" 2 "map pq_row [1, 2, 3]"] by simp
qed

theorem row_group_roundtrip_witness:
  "\<exists>b cols. row_builder_new demo_parquet [115] pq_keys = Inr b \<and>
     for_each append_row (map pq_row [1, 2]) b = (Inr (), cols) \<and>
     read_group 1 (fst (columns_group cols 0 (c_rows cols) (cursors_start cols))) =
       map (\<lambda>ts. (pq_row ts)\<lparr>row_extra := canonical [([98], [1]), ([97], [])]\<rparr>) [1, 2]"
proof -
  obtain b where b: "row_builder_new demo_parquet [115] pq_keys = Inr b"
    by (simp add: row_builder_new_def parquet_schema_def utf8_def pq_err_def demo_parquet_def pq_keys_def key_field_def)
  have "\<forall>r\<in>set (map pq_row [1, 2]). accepted pq_keys r"
    by (simp add: pq_row_def pq_keys_def accepted_def key_types_def fits_type_def i64_max_def)
  with row_group_roundtrip [OF b, of "map pq_row [1, 2]"] show ?thesis
    using b by (auto simp: pq_keys_def pq_row_def split: prod.splits sum.splits)
qed

end
