(* ===== verification/Orc_Staging.thy ===== *)
theory Orc_Staging
  imports Orc_Planner Orc_Batch Orc_Parquet_Laws
begin

text \<open>
  Laws of the second phase of a flush (\<open>Sink::merge_partition\<close> of \<open>src/src/flush/planner.rs\<close>): the merged
  records of a series and epoch, in order, become one staged file per hour, each the file the
  reference writer would make of the hour's rows.
\<close>

section \<open>Names of runs\<close>

lemma run_path_inject [simp]: "run_path m = run_path n \<longleftrightarrow> m = n"
  by (simp add: run_path_def)

interpretation runs: run_names next_path "\<lambda>n. run_path ` {m. n < m}"
  by unfold_locales (auto simp: next_path_def)

section \<open>The files of a group\<close>

definition hour_of :: "Head \<Rightarrow> nat" where
  "hour_of h = unat (hd_ts h) div US_PER_HOUR"

text \<open>The records of a group cut into hours; they are sorted, so an hour is one piece.\<close>

definition hours :: "Head list \<Rightarrow> Head list list" where
  "hours hs = map snd (chunks hour_of hs)"

definition head_row :: "KeyDef list \<Rightarrow> Head \<Rightarrow> Row" where
  "head_row keys h =
     (case decode_verified (hd_frame h) (length keys) of
        Inl _ \<Rightarrow> \<lparr>row_ts = 0, row_id = [], row_keys = [], row_extra = [], row_data = []\<rparr>
      | Inr (rec, vals, extra, _) \<Rightarrow>
          \<lparr>row_ts = rec_ts rec, row_id = rec_id rec, row_keys = vals, row_extra = extra, row_data = rec_data rec\<rparr>)"

definition readable :: "KeyDef list \<Rightarrow> Head \<Rightarrow> bool" where
  "readable keys h \<longleftrightarrow> \<not> isl (decode_verified (hd_frame h) (length keys))"

definition output_bytes :: "'s Parquet \<Rightarrow> FlushConfig \<Rightarrow> GroupKey \<Rightarrow> KeyDef list \<Rightarrow> Head list \<Rightarrow> Error + bytes" where
  "output_bytes pq flush g keys hs =
     rbind (parquet_schema pq keys) (\<lambda>schema.
       file_result pq (fst g) (snd g) (compression flush) schema
         (map (group_chunks keys) (groups_of (unat (row_group_rows flush)) (map (head_row keys) hs))))"

definition hour_file :: "Sink \<Rightarrow> GroupKey \<Rightarrow> Head list \<Rightarrow> staged_file" where
  "hour_file sink g ys =
     (let hour = hour_partition (hd_ts (hd ys)) in
      (\<lparr>wf_series = fst g, wf_epoch = snd g, wf_hour = hour, wf_rows = length ys\<rparr>, staged_path sink g hour))"

definition stored :: "'s Parquet \<Rightarrow> Sink \<Rightarrow> GroupKey \<Rightarrow> KeyDef list \<Rightarrow> Head list \<Rightarrow> (path \<rightharpoonup> bytes) \<Rightarrow> bool" where
  "stored pq sink g keys hs c \<longleftrightarrow>
     (\<forall>ys\<in>set (hours hs). \<exists>bs. output_bytes pq (snk_flush sink) g keys ys = Inr bs \<and>
        c (snd (hour_file sink g ys)) = Some bs)"

definition outs :: "Sink \<Rightarrow> GroupKey \<Rightarrow> path set" where
  "outs sink g = range (staged_path sink g)"

text \<open>The package and the configuration refuse nothing.\<close>

definition pq_willing :: "'s Parquet \<Rightarrow> bool" where
  "pq_willing pq \<longleftrightarrow> (\<forall>t. \<not> isl (pq_build pq t)) \<and> (\<forall>t p. \<not> isl (pq_open pq t p)) \<and>
     (\<forall>st cs. \<not> isl (pq_group pq st cs)) \<and> (\<forall>st. \<not> isl (pq_close pq st))"

definition willing :: "'s Parquet \<Rightarrow> FlushConfig \<Rightarrow> bool" where
  "willing pq flush \<longleftrightarrow> pq_willing pq \<and> compression flush \<in> set SUPPORTED_COMPRESSION"

lemma not_isl: "\<not> isl r \<longleftrightarrow> (\<exists>x. r = Inr x)"
  by (cases r) auto

lemma total_rbind: "\<not> isl r \<Longrightarrow> (\<And>x. \<not> isl (f x)) \<Longrightarrow> \<not> isl (rbind r f)"
  by (cases r) auto

lemma willing_schema:
  assumes "pq_willing pq" shows "\<not> isl (parquet_schema pq keys)"
proof -
  have s: "\<not> isl (pq_err what (pq_build pq t))" for t what using assms by (simp add: pq_willing_def)
  have u: "\<not> isl (utf8 pq name rep)" for name rep using s by (simp add: utf8_def)
  have f: "\<not> isl (key_field pq kd)" for kd using s u by (simp add: key_field_def)
  have "\<not> isl (key_fields pq kds)" for kds
    by (induction kds) (simp_all add: total_rbind f)
  then show ?thesis unfolding parquet_schema_def using s u by (intro total_rbind) auto
qed

lemma willing_properties: "compr \<in> set SUPPORTED_COMPRESSION \<Longrightarrow> \<not> isl (writer_properties series epoch compr)"
  by (auto simp: SUPPORTED_COMPRESSION_def writer_properties_def)

lemma willing_groups: "pq_willing pq \<Longrightarrow> \<not> isl (pq_groups pq st gs)"
proof (induction gs arbitrary: st)
  case (Cons x gs)
  obtain st' b where "pq_group pq st x = Inr (st', b)" using Cons.prems by (fastforce simp: pq_willing_def not_isl)
  moreover obtain y where "pq_groups pq st' gs = Inr y" using Cons by (fastforce simp: not_isl)
  ultimately show ?case by (cases y) simp
qed simp

lemma willing_started: assumes "pq_willing pq" shows "\<not> isl (pq_started pq schema props gs)"
proof -
  obtain st b where "pq_open pq schema props = Inr (st, b)" using assms by (fastforce simp: pq_willing_def not_isl)
  moreover obtain y where "pq_groups pq st gs = Inr y" using willing_groups [OF assms] by (fastforce simp: not_isl)
  ultimately show ?thesis by (cases y) (simp add: pq_started_def)
qed

lemma willing_file: assumes "pq_willing pq" shows "\<not> isl (pq_file pq schema props gs)"
proof -
  obtain st b where "pq_started pq schema props gs = Inr (st, b)" using willing_started [OF assms] by (fastforce simp: not_isl)
  moreover obtain y where "pq_close pq st = Inr y" using assms by (fastforce simp: pq_willing_def not_isl)
  ultimately show ?thesis by (simp add: pq_file_def)
qed

lemmas willing_rules = willing_schema willing_properties willing_started willing_file

section \<open>Cutting into hours\<close>

lemma chunks_append:
  assumes "cur \<noteq> []" "\<forall>y\<in>set cur. f y = h" "past = [] \<or> f (last past) \<noteq> h"
  shows "chunks f (past @ cur) = chunks f past @ [(h, cur)]"
  using assms
proof (induction f past rule: chunks.induct)
  case (1 f)
  then obtain x xs where cur: "cur = x # xs" by (cases cur) auto
  have "takeWhile (\<lambda>y. f y = h) xs = xs" "dropWhile (\<lambda>y. f y = h) xs = []" "f x = h" using 1 cur by auto
  then show ?case by (simp only: cur append_Nil chunks.simps append.simps)
next
  case (2 f x xs)
  show ?case
  proof (cases "\<forall>y\<in>set xs. f y = f x")
    case True
    then have "f (last (x # xs)) = f x" by (cases "xs = []") auto
    with 2(4) have ne: "f x \<noteq> h" by auto
    obtain c cs where cur: "cur = c # cs" using 2(2) by (cases cur) auto
    have "takeWhile (\<lambda>y. f y = f x) (xs @ cur) = xs" "dropWhile (\<lambda>y. f y = f x) (xs @ cur) = cur"
      using True 2(3) ne cur by (simp_all add: takeWhile_append dropWhile_append)
    moreover have "chunks f cur = [(h, cur)]"
      using 2(3) cur by (simp add: takeWhile_eq_all_conv [THEN iffD2] dropWhile_eq_Nil_conv [THEN iffD2])
    moreover have "takeWhile (\<lambda>y. f y = f x) xs = xs" "dropWhile (\<lambda>y. f y = f x) xs = []" using True by auto
    ultimately show ?thesis by (simp only: append_Cons chunks.simps append_Nil)
  next
    case False
    have "takeWhile (\<lambda>y. f y = f x) (xs @ cur) = takeWhile (\<lambda>y. f y = f x) xs"
      "dropWhile (\<lambda>y. f y = f x) (xs @ cur) = dropWhile (\<lambda>y. f y = f x) xs @ cur"
      using False by (auto simp: takeWhile_append dropWhile_append)
    moreover have "last (dropWhile (\<lambda>y. f y = f x) xs) = last (x # xs)"
    proof -
      have "dropWhile (\<lambda>y. f y = f x) xs \<noteq> []" using False by (simp add: dropWhile_eq_Nil_conv)
      then show ?thesis by (metis last_ConsR last_appendR takeWhile_dropWhile_id append_is_Nil_conv)
    qed
    then have "dropWhile (\<lambda>y. f y = f x) xs = [] \<or> f (last (dropWhile (\<lambda>y. f y = f x) xs)) \<noteq> h" using 2(4) by auto
    ultimately show ?thesis using 2(1) [OF 2(2,3)] by simp
  qed
qed

lemma hours_append:
  assumes "cur \<noteq> []" "\<forall>y\<in>set cur. hour_of y = h" "\<forall>y\<in>set past. hour_of y \<noteq> h"
  shows "hours (past @ cur) = hours past @ [cur]"
  unfolding hours_def by (subst chunks_append [where h = h]) (use assms last_in_set in \<open>auto\<close>)

lemma in_hours: "ys \<in> set (hours hs) \<Longrightarrow> ys \<noteq> [] \<and> set ys \<subseteq> set hs"
  unfolding hours_def using chunks_nonempty by fastforce

lemma head_key_ts: "head_key h' \<le> head_key h \<Longrightarrow> hd_ts h' \<le> hd_ts h"
  by (auto simp: head_key_def less_eq_prod_def less_prod_def)

lemma hour_of_mono: "hd_ts h \<le> hd_ts h' \<Longrightarrow> hour_of h \<le> hour_of h'"
  by (simp add: hour_of_def div_le_mono word_le_nat_alt)

section \<open>The file being written\<close>

text \<open>
  \<open>past\<close> is stored, \<open>cur\<close>, all of one hour, is on its way into the open file. \<open>T\<close> are the run files,
  which the merge changes meanwhile; \<open>c0\<close> are the files when the merge of the group began.
\<close>

definition hour_named :: "nat \<Rightarrow> rstr \<Rightarrow> bool" where
  "hour_named h hour \<longleftrightarrow> (\<forall>ts. unat ts div US_PER_HOUR = h \<longrightarrow> hour_partition ts = hour)"

definition writing ::
  "'s Parquet \<Rightarrow> Sink \<Rightarrow> GroupKey \<Rightarrow> KeyDef list \<Rightarrow> path set \<Rightarrow> (path \<rightharpoonup> bytes) \<Rightarrow> staged_file list \<Rightarrow>
     Head list \<Rightarrow> Head list \<Rightarrow> 's open_file \<Rightarrow> staged_file list \<Rightarrow> (path \<rightharpoonup> bytes) \<Rightarrow> bool" where
  "writing pq sink g keys T c0 staged0 past cur f staged c \<longleftrightarrow>
     (case f of (h, hour, p, w) \<Rightarrow> \<exists>c1 schema props.
        (\<forall>y\<in>set cur. hour_of y = h) \<and> (\<forall>y\<in>set past. hour_of y \<noteq> h) \<and> hour_named h hour \<and> p = staged_path sink g hour \<and>
        staged = staged0 @ map (hour_file sink g) (hours past) \<and>
        parquet_schema pq keys = Inr schema \<and> writer_properties (fst g) (snd g) (compression (snk_flush sink)) = Inr props \<and>
        streaming pq p (fst g) schema props keys (unat (row_group_rows (snk_flush sink))) c1 (map (head_row keys) cur) w c \<and>
        stored pq sink g keys past c1 \<and> outside (T \<union> outs sink g) c0 c1)"

definition fine :: "'s Parquet \<Rightarrow> FlushConfig \<Rightarrow> KeyDef list \<Rightarrow> Head list \<Rightarrow> bool" where
  "fine pq flush keys hs \<longleftrightarrow> willing pq flush \<and> (\<forall>h\<in>set hs. accepted keys (head_row keys h))"

text \<open>What is left when a call fails: only the group's own files and the runs have changed.\<close>

definition spoilt :: "bool \<Rightarrow> Sink \<Rightarrow> GroupKey \<Rightarrow> path set \<Rightarrow> (path \<rightharpoonup> bytes) \<Rightarrow> bool \<Rightarrow> (path \<rightharpoonup> bytes) \<Rightarrow> bool" where
  "spoilt k sink g T c0 good c \<longleftrightarrow> outside (T \<union> outs sink g) c0 c \<and> (\<not> k \<or> \<not> good)"

lemma spoiltI: "outside (T \<union> outs sink g) c0 c1 \<Longrightarrow> scribbled c1 (staged_path sink g hour) c \<Longrightarrow> \<not> k \<or> \<not> good \<Longrightarrow>
    spoilt k sink g T c0 good c"
  by (auto simp: spoilt_def outside_def scribbled_def outs_def)

lemma hour_named: "hour_named (unat ts div US_PER_HOUR) (hour_partition ts)"
  by (auto simp: hour_named_def hour_partition_same_hour)

lemma hour_file_path:
  assumes "hour_named h hour" "ys \<noteq> []" "\<forall>y\<in>set ys. hour_of y = h"
  shows "hour_file sink g ys = (\<lparr>wf_series = fst g, wf_epoch = snd g, wf_hour = hour, wf_rows = length ys\<rparr>, staged_path sink g hour)"
proof -
  have "hour_of (hd ys) = h" using assms(2,3) by (cases ys) auto
  then have "hour_partition (hd_ts (hd ys)) = hour" using assms(1) by (simp add: hour_named_def hour_of_def)
  then show ?thesis by (simp add: hour_file_def Let_def)
qed

lemma stored_other_hour:
  assumes "stored pq sink g keys past c1" "\<forall>y\<in>set past. hour_of y \<noteq> h" "hour_named h hour" "h = unat (ts :: u64) div US_PER_HOUR"
  shows "stored pq sink g keys past (c1(staged_path sink g hour := x))"
proof -
  have "snd (hour_file sink g ys) \<noteq> staged_path sink g hour" if "ys \<in> set (hours past)" for ys
  proof -
    have "hd ys \<in> set past" using in_hours [OF that] by auto
    then have "hour_of (hd ys) \<noteq> h" using assms(2) by blast
    moreover have "hour = hour_partition ts" using assms(3,4) by (simp add: hour_named_def)
    ultimately show ?thesis
      by (simp add: hour_file_def Let_def staged_path_def tmp_dir_def assms(4) hour_partition_same_hour hour_of_def)
  qed
  with assms(1) show ?thesis by (auto simp: stored_def)
qed

lemma stored_append:
  assumes "stored pq sink g keys past c" "cur \<noteq> []" "\<forall>y\<in>set cur. hour_of y = h" "\<forall>y\<in>set past. hour_of y \<noteq> h"
    "hour_named h hour" "output_bytes pq (snk_flush sink) g keys cur = Inr bs" "c (staged_path sink g hour) = Some bs"
  shows "stored pq sink g keys (past @ cur) c"
  using assms by (auto simp: stored_def hours_append [OF assms(2-4)] hour_file_path [OF assms(5,2,3)])

text \<open>Finishing the open file.\<close>

lemma finish_file_triple:
  fixes pq :: "'s Parquet"
  assumes rows: "\<forall>h\<in>set cur. accepted keys (head_row keys h)" and cur: "cur \<noteq> []" and all: "good \<Longrightarrow> willing pq (snk_flush sink)"
  shows "triple (at k (writing pq sink g keys T c0 staged0 past cur f staged)) (finish_file pq g f staged :: ('m, staged_file list) eio)
    (\<lambda>staged'. at k (\<lambda>c. staged' = staged0 @ map (hour_file sink g) (hours (past @ cur)) \<and>
        stored pq sink g keys (past @ cur) c \<and> outside (T \<union> outs sink g) c0 c))
    (\<lambda>_. at k (spoilt k sink g T c0 good))"
proof -
  obtain h hour p w where f: "f = (h, hour, p, w)" by (cases f) auto
  show ?thesis
  proof (rule triple_at_fix)
    fix c2 assume c2: "writing pq sink g keys T c0 staged0 past cur f staged c2"
    then obtain c1 schema props where c1: "\<forall>y\<in>set cur. hour_of y = h" "\<forall>y\<in>set past. hour_of y \<noteq> h" "hour_named h hour"
      "p = staged_path sink g hour" "staged = staged0 @ map (hour_file sink g) (hours past)"
      "parquet_schema pq keys = Inr schema" "writer_properties (fst g) (snd g) (compression (snk_flush sink)) = Inr props"
      "streaming pq p (fst g) schema props keys (unat (row_group_rows (snk_flush sink))) c1 (map (head_row keys) cur) w c2"
      "stored pq sink g keys past c1" "outside (T \<union> outs sink g) c0 c1"
      by (auto simp: writing_def f)
    let ?gs = "map (group_chunks keys) (groups_of (unat (row_group_rows (snk_flush sink))) (map (head_row keys) cur))"
    let ?Q = "\<lambda>staged' c. staged' = staged0 @ map (hour_file sink g) (hours (past @ cur)) \<and>
        stored pq sink g keys (past @ cur) c \<and> outside (T \<union> outs sink g) c0 c"
    have h: "h = unat (hd_ts (hd cur)) div US_PER_HOUR" using c1(1) cur by (auto simp: hour_of_def)
    have acc: "\<forall>r\<in>set (map (head_row keys) cur). accepted keys r" using rows by auto
    have made: "?Q (staged @ [hour_file sink g cur]) (c1(p \<mapsto> bs))" if "pq_file pq schema props ?gs = Inr bs" for bs
    proof -
      have "output_bytes pq (snk_flush sink) g keys cur = Inr bs" using that c1(6,7) by (simp add: output_bytes_def file_result_def)
      moreover have "stored pq sink g keys past (c1(p \<mapsto> bs))" unfolding c1(4) by (rule stored_other_hour [OF c1(9,2,3) h])
      ultimately show ?thesis using c1 cur
        by (auto simp: hours_append [OF cur c1(1,2)] outside_def outs_def intro!: stored_append [OF _ cur c1(1,2,3)])
    qed
    have lost: "spoilt k sink g T c0 good c" if "scribbled c1 p c" "isl (pq_file pq schema props ?gs) \<or> \<not> k" for c
      using that all willing_file [of pq schema props ?gs]
      by (intro spoiltI [OF c1(10), of hour]) (auto simp: c1(4) willing_def)
    have "triple (at k (\<lambda>c. c = c2)) (partition_finish pq w :: ('m, nat) eio)
        (\<lambda>m. at k (\<lambda>c. ?Q (staged @ [(\<lparr>wf_series = fst g, wf_epoch = snd g, wf_hour = hour, wf_rows = m\<rparr>, p)]) c))
        (\<lambda>_. at k (spoilt k sink g T c0 good))"
      by (rule triple_conseq [OF streaming_finish [OF acc]])
        (use c1(8) made hour_file_path [OF c1(3) cur c1(1)] c1(4) lost in \<open>auto simp: at_def\<close>)
    then show "triple (at k (\<lambda>c. c = c2)) (finish_file pq g f staged :: ('m, staged_file list) eio)
        (\<lambda>staged'. at k (?Q staged')) (\<lambda>_. at k (spoilt k sink g T c0 good))"
      unfolding finish_file_def f prod.case split_beta fst_conv snd_conv by (rule triple_seq) (simp add: triple_def at_def)
  qed
qed

text \<open>Opening the file of the next hour.\<close>

lemma open_hour_triple:
  fixes pq :: "'s Parquet"
  assumes good: "good \<Longrightarrow> willing pq (snk_flush sink)" and new: "\<forall>y\<in>set past. hour_of y \<noteq> unat ts div US_PER_HOUR"
  shows "triple (at k (\<lambda>c. stored pq sink g keys past c \<and> outside (T \<union> outs sink g) c0 c)) (open_hour pq sink g keys ts :: ('m, 's open_file) eio)
    (\<lambda>f. at k (\<lambda>c. fst f = unat ts div US_PER_HOUR \<and>
        writing pq sink g keys T c0 staged0 past [] f (staged0 @ map (hour_file sink g) (hours past)) c))
    (\<lambda>_. at k (spoilt k sink g T c0 good))"
proof (rule triple_at_fix)
  fix c1 assume c1: "stored pq sink g keys past c1 \<and> outside (T \<union> outs sink g) c0 c1"
  let ?hour = "hour_partition ts" and ?compr = "compression (snk_flush sink)" and ?n = "unat (row_group_rows (snk_flush sink))"
  let ?p = "staged_path sink g ?hour"
  let ?Q = "\<lambda>f c. fst f = unat ts div US_PER_HOUR \<and>
      writing pq sink g keys T c0 staged0 past [] f (staged0 @ map (hour_file sink g) (hours past)) c"
  let ?E = "\<lambda>_. at k (spoilt k sink g T c0 good)"
  have out: "outside (T \<union> outs sink g) c0 c1" using c1 by blast
  have mk: "triple (at k (\<lambda>c. c = c1)) (lift_io (fs_mkdir (butlast ?p))) (\<lambda>_. at k (\<lambda>c. c = c1)) ?E"
    by (rule triple_lift_io, rule triple_at_pre [OF quiet_triples(3)]) (use out in \<open>auto simp: spoilt_def\<close>)
  have create: "triple (at k (\<lambda>c. c = c1)) (partition_create pq ?p (fst g) (snd g) keys ?compr ?n)
      (\<lambda>w. at k (?Q (unat ts div US_PER_HOUR, ?hour, ?p, w))) ?E"
  proof (cases "\<exists>props schema. writer_properties (fst g) (snd g) ?compr = Inr props \<and> parquet_schema pq keys = Inr schema")
    case True
    then obtain props schema where ps: "writer_properties (fst g) (snd g) ?compr = Inr props" "parquet_schema pq keys = Inr schema" by blast
    have "spoilt k sink g T c0 good c" if "scribbled c1 ?p c" "isl (pq_started pq schema props []) \<or> \<not> k" for c
      using that good willing_started [of pq schema props "[]"] by (intro spoiltI [OF out, of ?hour]) (auto simp: willing_def)
    with ps c1 new hour_named [of ts] show ?thesis
      by (intro triple_conseq [OF streaming_create [OF ps]]) (auto simp: at_def writing_def)
  next
    case False
    then have "\<not> good"
      using good willing_schema [of pq keys] willing_properties [of ?compr "fst g" "snd g"] by (auto simp: willing_def not_isl)
    moreover from False have "isl (writer_properties (fst g) (snd g) ?compr) \<or> isl (parquet_schema pq keys)" by (metis not_isl)
    ultimately show ?thesis
      using out by (cases "writer_properties (fst g) (snd g) ?compr"; cases "parquet_schema pq keys")
        (auto simp: partition_create_def of_result_def seq_ok triple_def at_def spoilt_def row_builder_new_def)
  qed
  show "triple (at k (\<lambda>c. c = c1)) (open_hour pq sink g keys ts :: ('m, 's open_file) eio) (\<lambda>f. at k (?Q f)) ?E"
    unfolding open_hour_def Let_def
    by (rule triple_seq [OF mk], rule triple_seq [OF create]) (simp add: triple_def)
qed

text \<open>The row of an entry goes into the open file.\<close>

lemma append_entry_triple:
  fixes pq :: "'s Parquet"
  assumes h: "readable keys h" "hour_of h = hi" and rows: "\<forall>h\<in>set cur. accepted keys (head_row keys h)"
    and good: "good \<Longrightarrow> willing pq (snk_flush sink) \<and> accepted keys (head_row keys h)"
  shows "triple (at k (writing pq sink g keys T c0 staged0 past cur (hi, hour, p, w) staged)) (append_rows pq (head_row keys h) w :: ('m, 's PartitionWriter) eio)
    (\<lambda>w'. at k (\<lambda>c. accepted keys (head_row keys h) \<and> writing pq sink g keys T c0 staged0 past (cur @ [h]) (hi, hour, p, w') staged c))
    (\<lambda>_. at k (spoilt k sink g T c0 good))"
proof (rule triple_at_fix)
  let ?n = "unat (row_group_rows (snk_flush sink))" and ?E = "\<lambda>_. at k (spoilt k sink g T c0 good)"
  fix c2 assume c2: "writing pq sink g keys T c0 staged0 past cur (hi, hour, p, w) staged c2"
  then obtain c1 schema props where c1: "\<forall>y\<in>set cur. hour_of y = hi" "\<forall>y\<in>set past. hour_of y \<noteq> hi" "hour_named hi hour"
    "p = staged_path sink g hour" "staged = staged0 @ map (hour_file sink g) (hours past)"
    "parquet_schema pq keys = Inr schema" "writer_properties (fst g) (snd g) (compression (snk_flush sink)) = Inr props"
    "streaming pq p (fst g) schema props keys ?n c1 (map (head_row keys) cur) w c2"
    "stored pq sink g keys past c1" "outside (T \<union> outs sink g) c0 c1"
    by (auto simp: writing_def)
  show "triple (at k (\<lambda>c. c = c2)) (append_rows pq (head_row keys h) w :: ('m, 's PartitionWriter) eio)
      (\<lambda>w'. at k (\<lambda>c. accepted keys (head_row keys h) \<and> writing pq sink g keys T c0 staged0 past (cur @ [h]) (hi, hour, p, w') staged c)) ?E"
  proof (cases "accepted keys (head_row keys h)")
    case True
    have acc: "\<forall>r\<in>set (map (head_row keys) cur). accepted keys r" using rows by auto
    have lost: "spoilt k sink g T c0 good c" if "scribbled c1 p c" "isl (pq_started pq schema props gs) \<or> \<not> k" for c gs
      using that good willing_started [of pq schema props gs] by (intro spoiltI [OF c1(10), of hour]) (auto simp: c1(4) willing_def)
    have "writing pq sink g keys T c0 staged0 past (cur @ [h]) (hi, hour, p, w') staged c"
      if "streaming pq p (fst g) schema props keys ?n c1 (map (head_row keys) cur @ [head_row keys h]) w' c" for w' c
      using that c1 h(2) unfolding writing_def by auto
    with True lost c1(8) show ?thesis
      by (intro triple_conseq [OF streaming_append [OF True acc]]) (auto simp: at_def)
  next
    case False
    from c1(8) obtain xs b where xs: "pw_builder w = columns_of (fst g) schema keys xs" "c2 = c1(p \<mapsto> b)" by (auto simp: streaming_def)
    have "spoilt k sink g T c0 good c2" using False good xs(2) by (intro spoiltI [OF c1(10), of hour]) (auto simp: c1(4) scribbled_def)
    with row_append_refuses [OF False, of "fst g" schema xs] xs(1) show ?thesis
      by (auto simp: append_rows_def partition_append_def triple_def at_def)
  qed
qed

section \<open>A whole group\<close>

text \<open>The sink after it was given \<open>hs\<close>.\<close>

definition streamed ::
  "'s Parquet \<Rightarrow> Sink \<Rightarrow> GroupKey \<Rightarrow> KeyDef list \<Rightarrow> path set \<Rightarrow> (path \<rightharpoonup> bytes) \<Rightarrow> staged_file list \<Rightarrow>
     Head list \<Rightarrow> 's open_file option \<times> staged_file list \<Rightarrow> (path \<rightharpoonup> bytes) \<Rightarrow> bool" where
  "streamed pq sink g keys T c0 staged0 hs w c \<longleftrightarrow>
     sorted (map hd_ts hs) \<and> (\<forall>h\<in>set hs. accepted keys (head_row keys h)) \<and>
     (case fst w of
        None \<Rightarrow> hs = [] \<and> snd w = staged0 \<and> outside T c0 c
      | Some f \<Rightarrow> \<exists>past cur. hs = past @ cur \<and> cur \<noteq> [] \<and> writing pq sink g keys T c0 staged0 past cur f (snd w) c)"

lemma outside_mono: "outside T c0 c \<Longrightarrow> T \<subseteq> U \<Longrightarrow> outside U c0 c"
  by (auto simp: outside_def)

lemma writing_outside:
  assumes "writing pq sink g keys T c0 staged0 past cur f staged c" "outside T c c'" "T \<inter> outs sink g = {}"
  shows "writing pq sink g keys T c0 staged0 past cur f staged c'"
proof -
  obtain h hour p w where f: "f = (h, hour, p, w)" by (cases f) auto
  from assms(1) obtain c1 schema props where c1: "p = staged_path sink g hour"
      "streaming pq p (fst g) schema props keys (unat (row_group_rows (snk_flush sink))) c1 (map (head_row keys) cur) w c"
      "stored pq sink g keys past c1" "outside (T \<union> outs sink g) c0 c1"
    and same: "(\<forall>y\<in>set cur. hour_of y = h) \<and> (\<forall>y\<in>set past. hour_of y \<noteq> h) \<and> hour_named h hour \<and>
      staged = staged0 @ map (hour_file sink g) (hours past) \<and>
      parquet_schema pq keys = Inr schema \<and> writer_properties (fst g) (snd g) (compression (snk_flush sink)) = Inr props"
    by (auto simp: writing_def f)
  from c1(2) obtain b where b: "c = c1(p \<mapsto> b)" by (auto simp: streaming_def)
  have p: "p \<in> outs sink g" "p \<notin> T" using c1(1) assms(3) by (auto simp: outs_def)
  define c1' where "c1' = c'(p := c1 p)"
  have agree: "c1' q = c1 q" if "q \<notin> T" for q using that assms(2) b by (auto simp: c1'_def outside_def)
  have c': "c' = c1'(p \<mapsto> b)" using assms(2) b p by (auto simp: c1'_def outside_def fun_eq_iff)
  have "streaming pq p (fst g) schema props keys (unat (row_group_rows (snk_flush sink))) c1' (map (head_row keys) cur) w c'"
    using c1(2) unfolding streaming_def b c' by (metis fun_upd_same option.inject)
  moreover have "stored pq sink g keys past c1'"
  proof -
    have "snd (hour_file sink g ys) \<notin> T" for ys using assms(3) by (auto simp: hour_file_def Let_def outs_def)
    with c1(3) agree show ?thesis by (auto simp: stored_def)
  qed
  moreover have "outside (T \<union> outs sink g) c0 c1'" using c1(4) agree by (auto simp: outside_def)
  ultimately show ?thesis using same c1(1) unfolding writing_def f by blast
qed

lemma streamed_outside:
  assumes "streamed pq sink g keys T c0 staged0 hs w c" "outside T c c'" "T \<inter> outs sink g = {}"
  shows "streamed pq sink g keys T c0 staged0 hs w c'"
  using assms writing_outside [OF _ assms(2,3)]
  by (fastforce simp: streamed_def outside_def split: option.splits)

lemma streamed_spoilt:
  assumes "streamed pq sink g keys T c0 staged0 hs w c" "\<not> k" shows "spoilt k sink g T c0 good c"
proof (cases "fst w")
  case None
  with assms show ?thesis by (auto simp: streamed_def spoilt_def outside_def)
next
  case (Some f)
  obtain h hour p pw where f: "f = (h, hour, p, pw)" by (cases f) auto
  with assms(1) Some obtain past cur where "writing pq sink g keys T c0 staged0 past cur (h, hour, p, pw) (snd w) c"
    by (auto simp: streamed_def)
  then obtain c1 b where "outside (T \<union> outs sink g) c0 c1" "c = c1(p \<mapsto> b)" "p = staged_path sink g hour"
    by (auto simp: writing_def streaming_def)
  with assms(2) show ?thesis by (intro spoiltI [of _ _ _ _ c1 hour]) (auto simp: scribbled_def)
qed

text \<open>The file an entry belongs to is open before its row is appended.\<close>

definition turn_hour :: "'s Parquet \<Rightarrow> Sink \<Rightarrow> GroupKey \<Rightarrow> KeyDef list \<Rightarrow> Head \<Rightarrow> 's open_file option \<times> staged_file list \<Rightarrow>
     ('m, 's open_file \<times> staged_file list) eio" where
  "turn_hour pq sink g keys entry = (\<lambda>(opened, staged).
     case opened of
       Some f \<Rightarrow>
         if fst f = unat (hd_ts entry) div US_PER_HOUR then ok (f, staged)
         else seq (finish_file pq g f staged) (\<lambda>staged'.
              seq (open_hour pq sink g keys (hd_ts entry)) (\<lambda>f'. ok (f', staged')))
     | None \<Rightarrow> seq (open_hour pq sink g keys (hd_ts entry)) (\<lambda>f'. ok (f', staged)))"

definition turned ::
  "'s Parquet \<Rightarrow> Sink \<Rightarrow> GroupKey \<Rightarrow> KeyDef list \<Rightarrow> path set \<Rightarrow> (path \<rightharpoonup> bytes) \<Rightarrow> staged_file list \<Rightarrow> Head list \<Rightarrow> Head \<Rightarrow>
     's open_file \<Rightarrow> staged_file list \<Rightarrow> (path \<rightharpoonup> bytes) \<Rightarrow> bool" where
  "turned pq sink g keys T c0 staged0 hs h f staged c \<longleftrightarrow>
     fst f = hour_of h \<and> sorted (map hd_ts hs) \<and> (\<forall>h\<in>set hs. accepted keys (head_row keys h)) \<and>
     (\<exists>past cur. hs = past @ cur \<and> writing pq sink g keys T c0 staged0 past cur f staged c)"

text \<open>All records so far are of other hours: the next file is opened.\<close>

definition turning :: "KeyDef list \<Rightarrow> Head list \<Rightarrow> Head \<Rightarrow> bool" where
  "turning keys hs h \<longleftrightarrow> sorted (map hd_ts hs) \<and> (\<forall>h\<in>set hs. accepted keys (head_row keys h)) \<and>
     (\<forall>y\<in>set hs. hour_of y \<noteq> hour_of h)"

lemma fresh_hour_triple:
  fixes pq :: "'s Parquet"
  assumes good: "good \<Longrightarrow> willing pq (snk_flush sink)" and new: "turning keys hs h"
  shows "triple (at k (\<lambda>c. staged = staged0 @ map (hour_file sink g) (hours hs) \<and> stored pq sink g keys hs c \<and> outside (T \<union> outs sink g) c0 c))
      (seq (open_hour pq sink g keys (hd_ts h)) (\<lambda>f'. ok (f', staged)) :: ('m, 's open_file \<times> staged_file list) eio)
      (\<lambda>(f, staged'). at k (turned pq sink g keys T c0 staged0 hs h f staged')) (\<lambda>_. at k (spoilt k sink g T c0 good))"
proof (rule triple_at_assume)
  assume a: "staged = staged0 @ map (hour_file sink g) (hours hs)"
  show "triple (at k (\<lambda>c. stored pq sink g keys hs c \<and> outside (T \<union> outs sink g) c0 c))
      (seq (open_hour pq sink g keys (hd_ts h)) (\<lambda>f'. ok (f', staged)) :: ('m, 's open_file \<times> staged_file list) eio)
      (\<lambda>(f, staged'). at k (turned pq sink g keys T c0 staged0 hs h f staged')) (\<lambda>_. at k (spoilt k sink g T c0 good))"
    by (rule triple_seq [OF open_hour_triple [where ?staged0.0 = staged0, OF good]])
      (use a new in \<open>auto simp: hour_of_def triple_def at_def turned_def turning_def intro: exI [of _ hs]\<close>)
qed

lemma next_hour_triple:
  fixes pq :: "'s Parquet"
  assumes good: "good \<Longrightarrow> willing pq (snk_flush sink)" and new: "turning keys hs h" and hs: "hs = past @ cur" "cur \<noteq> []"
  shows "triple (at k (writing pq sink g keys T c0 staged0 past cur f staged))
      (seq (finish_file pq g f staged) (\<lambda>staged'. seq (open_hour pq sink g keys (hd_ts h)) (\<lambda>f'. ok (f', staged')))
        :: ('m, 's open_file \<times> staged_file list) eio)
      (\<lambda>(f, staged'). at k (turned pq sink g keys T c0 staged0 hs h f staged')) (\<lambda>_. at k (spoilt k sink g T c0 good))"
proof -
  have "\<forall>h\<in>set cur. accepted keys (head_row keys h)" using new hs by (auto simp: turning_def)
  note finish = finish_file_triple [where good = good, OF this hs(2) good]
  show ?thesis
    by (rule triple_seq [OF finish], assumption) (unfold hs(1) [symmetric], rule fresh_hour_triple [OF good new], assumption)
qed

lemma writing_turns:
  assumes w: "writing pq sink g keys T c0 staged0 past cur f staged c" "cur \<noteq> []"
    and hs: "sorted (map hd_ts (past @ cur))" "\<forall>h\<in>set (past @ cur). accepted keys (head_row keys h)"
    and last: "\<forall>h'\<in>set (past @ cur). head_key h' \<le> head_key h" and other: "fst f \<noteq> hour_of h"
  shows "turning keys (past @ cur) h"
proof -
  have le: "hour_of h' \<le> hour_of h" if "h' \<in> set (past @ cur)" for h'
    using last that by (intro hour_of_mono head_key_ts) blast
  have cur: "\<forall>y\<in>set cur. hour_of y = fst f" using w(1) by (cases f) (auto simp: writing_def)
  obtain y where y: "y \<in> set cur" using w(2) by (cases cur) auto
  have "hour_of x \<noteq> hour_of h" if "x \<in> set (past @ cur)" for x
  proof -
    have "hour_of x \<le> fst f"
    proof (cases "x \<in> set past")
      case True
      then have "hd_ts x \<le> hd_ts y" using hs(1) y by (auto simp: sorted_append)
      then show ?thesis using hour_of_mono cur y by metis
    qed (use that cur in auto)
    moreover have "fst f < hour_of h" using le [of y] cur y other by auto
    ultimately show ?thesis by simp
  qed
  with hs show ?thesis by (simp add: turning_def)
qed

lemma turn_hour_triple:
  fixes pq :: "'s Parquet"
  assumes good: "good \<Longrightarrow> willing pq (snk_flush sink)" and last: "\<forall>h'\<in>set hs. head_key h' \<le> head_key h"
  shows "triple (at k (streamed pq sink g keys T c0 staged0 hs w)) (turn_hour pq sink g keys h w :: ('m, 's open_file \<times> staged_file list) eio)
    (\<lambda>(f, staged). at k (turned pq sink g keys T c0 staged0 hs h f staged)) (\<lambda>_. at k (spoilt k sink g T c0 good))"
proof (rule triple_at_fix)
  fix c1 assume c1: "streamed pq sink g keys T c0 staged0 hs w c1"
  obtain opened staged where w: "w = (opened, staged)" by fastforce
  show "triple (at k (\<lambda>c. c = c1)) (turn_hour pq sink g keys h w :: ('m, 's open_file \<times> staged_file list) eio)
    (\<lambda>(f, staged). at k (turned pq sink g keys T c0 staged0 hs h f staged)) (\<lambda>_. at k (spoilt k sink g T c0 good))"
  proof (cases opened)
    case None
    with c1 have hs: "hs = []" "staged = staged0" "outside T c0 c1" by (auto simp: streamed_def w)
    show ?thesis
      unfolding turn_hour_def w None prod.case option.case hs(1)
      by (rule triple_pre [OF fresh_hour_triple [OF good]])
        (use hs in \<open>auto simp: at_def outside_def stored_def hours_def turning_def\<close>)
  next
    case (Some f)
    with c1 obtain past cur where pc: "hs = past @ cur" "cur \<noteq> []" "sorted (map hd_ts hs)"
      "\<forall>h\<in>set hs. accepted keys (head_row keys h)" "writing pq sink g keys T c0 staged0 past cur f staged c1"
      by (auto simp: streamed_def w)
    show ?thesis
    proof (cases "fst f = hour_of h")
      case True
      then have "(turn_hour pq sink g keys h w :: ('m, 's open_file \<times> staged_file list) eio) = ok (f, staged)"
        by (simp add: turn_hour_def w Some hour_of_def)
      with True pc show ?thesis by (auto simp: triple_def at_def turned_def)
    next
      case False
      then have eq: "(turn_hour pq sink g keys h w :: ('m, 's open_file \<times> staged_file list) eio) =
          seq (finish_file pq g f staged) (\<lambda>staged'. seq (open_hour pq sink g keys (hd_ts h)) (\<lambda>f'. ok (f', staged')))"
        by (simp add: turn_hour_def w Some hour_of_def)
      have "turning keys hs h" using writing_turns [OF pc(5,2)] pc(1,3,4) last False by simp
      with pc(5) show ?thesis
        unfolding eq by (intro triple_pre [OF next_hour_triple [OF good _ pc(1,2)]]) (auto simp: at_def)
    qed
  qed
qed

lemma sink_entry_triple:
  fixes pq :: "'s Parquet"
  assumes good: "good \<Longrightarrow> willing pq (snk_flush sink) \<and> accepted keys (head_row keys h)"
    and last: "\<forall>h'\<in>set hs. head_key h' \<le> head_key h" and h: "readable keys h"
  shows "triple (at k (streamed pq sink g keys T c0 staged0 hs w)) (sink_entry pq sink g keys h w :: ('m, 's open_file option \<times> staged_file list) eio)
    (\<lambda>w'. at k (streamed pq sink g keys T c0 staged0 (hs @ [h]) w')) (\<lambda>_. at k (spoilt k sink g T c0 good))"
proof -
  have turn: "triple (at k (streamed pq sink g keys T c0 staged0 hs w)) (turn_hour pq sink g keys h w :: ('m, 's open_file \<times> staged_file list) eio)
    (\<lambda>(f, staged). at k (turned pq sink g keys T c0 staged0 hs h f staged)) (\<lambda>_. at k (spoilt k sink g T c0 good))"
    by (rule turn_hour_triple [OF _ last]) (use good in blast)
  have sorted: "sorted (map hd_ts (hs @ [h]))" if "sorted (map hd_ts hs)"
    using that last by (auto simp: sorted_append head_key_ts)
  have append: "triple (at k (turned pq sink g keys T c0 staged0 hs h (hi, hour, p, writer) staged))
      (seq (append_rows pq (head_row keys h) writer) (\<lambda>writer'. ok (Some (hi, hour, p, writer'), staged)) :: ('m, 's open_file option \<times> staged_file list) eio)
      (\<lambda>w'. at k (streamed pq sink g keys T c0 staged0 (hs @ [h]) w')) (\<lambda>_. at k (spoilt k sink g T c0 good))" for hi hour p writer staged
  proof (rule triple_at_fix)
    fix c1 assume "turned pq sink g keys T c0 staged0 hs h (hi, hour, p, writer) staged c1"
    then obtain past cur where pc: "hi = hour_of h" "sorted (map hd_ts hs)" "\<forall>h\<in>set hs. accepted keys (head_row keys h)"
      "hs = past @ cur" "writing pq sink g keys T c0 staged0 past cur (hi, hour, p, writer) staged c1" by (auto simp: turned_def)
    have rows: "\<forall>h\<in>set cur. accepted keys (head_row keys h)" using pc by auto
    have first: "triple (at k (\<lambda>c. c = c1)) (append_rows pq (head_row keys h) writer :: ('m, 's PartitionWriter) eio)
        (\<lambda>w'. at k (\<lambda>c. accepted keys (head_row keys h) \<and> writing pq sink g keys T c0 staged0 past (cur @ [h]) (hi, hour, p, w') staged c))
        (\<lambda>_. at k (spoilt k sink g T c0 good))"
      by (rule triple_pre [OF append_entry_triple [OF h pc(1) [symmetric] rows good]]) (use pc(5) in \<open>auto simp: at_def\<close>)
    have done': "streamed pq sink g keys T c0 staged0 (hs @ [h]) (Some (hi, hour, p, w'), staged) c"
      if "accepted keys (head_row keys h)" "writing pq sink g keys T c0 staged0 past (cur @ [h]) (hi, hour, p, w') staged c" for w' c
      using that pc(2,3,4) sorted unfolding streamed_def by fastforce
    show "triple (at k (\<lambda>c. c = c1))
      (seq (append_rows pq (head_row keys h) writer) (\<lambda>writer'. ok (Some (hi, hour, p, writer'), staged)) :: ('m, 's open_file option \<times> staged_file list) eio)
      (\<lambda>w'. at k (streamed pq sink g keys T c0 staged0 (hs @ [h]) w')) (\<lambda>_. at k (spoilt k sink g T c0 good))"
      by (rule triple_seq [OF first]) (use done' in \<open>auto simp: triple_def at_def\<close>)
  qed
  obtain rec vals extra n where dec: "decode_verified (hd_frame h) (length keys) = Inr (rec, vals, extra, n)"
    using h by (cases "decode_verified (hd_frame h) (length keys)") (auto simp: readable_def)
  have eq: "(sink_entry pq sink g keys h w :: ('m, 's open_file option \<times> staged_file list) eio) =
      seq (turn_hour pq sink g keys h w) (\<lambda>((hi, hour, p, writer), staged).
        seq (append_rows pq (head_row keys h) writer) (\<lambda>writer'. ok (Some (hi, hour, p, writer'), staged)))"
    by (cases w) (simp add: sink_entry_def turn_hour_def dec append_rows_def head_row_def)
  show ?thesis
    unfolding eq by (rule triple_seq [OF turn]) (auto simp: split_beta intro: append)
qed

lemma finish_streamed_triple:
  fixes pq :: "'s Parquet"
  assumes good: "good \<Longrightarrow> willing pq (snk_flush sink)"
  shows "triple (at k (streamed pq sink g keys T c0 staged0 hs (opened, staged)))
    ((case opened of None \<Rightarrow> ok staged | Some f \<Rightarrow> finish_file pq g f staged) :: ('m, staged_file list) eio)
    (\<lambda>staged'. at k (\<lambda>c. staged' = staged0 @ map (hour_file sink g) (hours hs) \<and> stored pq sink g keys hs c \<and>
        (\<forall>h\<in>set hs. accepted keys (head_row keys h)) \<and> outside (T \<union> outs sink g) c0 c))
    (\<lambda>_. at k (spoilt k sink g T c0 good))"
proof (rule triple_at_fix)
  fix c1 assume c1: "streamed pq sink g keys T c0 staged0 hs (opened, staged) c1"
  show "triple (at k (\<lambda>c. c = c1)) ((case opened of None \<Rightarrow> ok staged | Some f \<Rightarrow> finish_file pq g f staged) :: ('m, staged_file list) eio)
    (\<lambda>staged'. at k (\<lambda>c. staged' = staged0 @ map (hour_file sink g) (hours hs) \<and> stored pq sink g keys hs c \<and>
        (\<forall>h\<in>set hs. accepted keys (head_row keys h)) \<and> outside (T \<union> outs sink g) c0 c))
    (\<lambda>_. at k (spoilt k sink g T c0 good))"
  proof (cases opened)
    case None
    with c1 show ?thesis by (auto simp: streamed_def triple_def at_def stored_def hours_def outside_def)
  next
    case (Some f)
    with c1 obtain past cur where pc: "hs = past @ cur" "cur \<noteq> []" "\<forall>h\<in>set hs. accepted keys (head_row keys h)"
      "writing pq sink g keys T c0 staged0 past cur f staged c1" by (auto simp: streamed_def)
    then have rows: "\<forall>h\<in>set cur. accepted keys (head_row keys h)" by auto
    from pc show ?thesis
      unfolding Some option.case
      by (intro triple_conseq [OF finish_file_triple [where good = good, OF rows pc(2) good]]) (auto simp: at_def)
  qed
qed

text \<open>A group: its first arrivals are stored, hour by hour, and counted.\<close>

lemma merge_partition_triple:
  fixes pq :: "'s Parquet"
  assumes all_def: "all = heads F runs @ M" and good: "good \<Longrightarrow> fine pq (snk_flush sink) keys all"
    and readable: "\<forall>h\<in>set all. readable keys h" and T: "T \<inter> outs sink g = {}"
    and sound: "sound_runs F runs" "runs.ours T runs n" and mem: "runs.mem_heads in_memory M" and inj: "inj_on head_key (set all)"
  shows "triple (at k (\<lambda>c. c = c0 \<and> hold F runs c)) (merge_partition pq sink g keys runs in_memory n staged0 :: ('m, MergeStats \<times> nat \<times> staged_file list) eio)
    (\<lambda>(stats, n', staged'). at k (\<lambda>c. stats = merge_stats all \<and> run_path ` {m. n' < m} \<subseteq> T \<and>
        staged' = staged0 @ map (hour_file sink g) (hours (first_arrivals all)) \<and>
        stored pq sink g keys (first_arrivals all) c \<and> (\<forall>h\<in>set (first_arrivals all). accepted keys (head_row keys h)) \<and>
        outside (T \<union> outs sink g) c0 c))
    (\<lambda>_. at k (spoilt k sink g T c0 good))"
proof -
  let ?J = "streamed pq sink g keys T c0 staged0" and ?E = "spoilt k sink g T c0 good"
  have merged: "triple (at k (\<lambda>c. c = c0 \<and> hold F runs c))
      (merge_bounded runs in_memory (unat (merge_fan_in (snk_flush sink))) next_path (sink_entry pq sink g keys) n (None, staged0)
        :: ('m, MergeStats \<times> nat \<times> 's open_file option \<times> staged_file list) eio)
      (\<lambda>(stats, n', w'). at k (\<lambda>c. stats = merge_stats all \<and> run_path ` {m. n' < m} \<subseteq> T \<and> ?J (first_arrivals all) w' c)) (\<lambda>_. at k ?E)"
    unfolding all_def
  proof (rule triple_pre [OF runs.merge_bounded_triple [where J = ?J and E = ?E and T = T, OF _ _ _ sound mem]])
    show "inj_on head_key (set (heads F runs @ M))" using inj all_def by simp
    fix hs h w assume h: "h \<in> set (heads F runs @ M)" "\<forall>h'\<in>set hs. head_key h' \<le> head_key h"
    show "triple (at k (?J hs w)) (sink_entry pq sink g keys h w :: ('m, 's open_file option \<times> staged_file list) eio) (\<lambda>w'. at k (?J (hs @ [h]) w')) (\<lambda>_. at k ?E)"
      by (rule sink_entry_triple [OF _ h(2)]) (use good readable h(1) all_def in \<open>auto simp: fine_def\<close>)
  next
    show "?J hs w c \<Longrightarrow> \<not> k \<Longrightarrow> ?E c" for hs w c by (rule streamed_spoilt)
    show "?J hs w c \<Longrightarrow> outside T c c' \<Longrightarrow> ?J hs w c'" for hs w c c' by (rule streamed_outside [OF _ _ T])
  qed (auto simp: at_def streamed_def outside_def)
  have eq: "(case opened of None \<Rightarrow> ok (stats, n', staged') | Some f \<Rightarrow> seq (finish_file pq g f staged') (\<lambda>staged''. ok (stats, n', staged''))) =
      seq (case opened of None \<Rightarrow> ok staged' | Some f \<Rightarrow> finish_file pq g f staged') (\<lambda>staged''. ok (stats, n', staged''))"
    for opened staged' and stats :: MergeStats and n' :: nat by (cases opened) (simp_all add: fun_eq_iff)
  have fin: "triple (at k (\<lambda>c. stats = merge_stats all \<and> run_path ` {m. n' < m} \<subseteq> T \<and> ?J (first_arrivals all) (opened, staged') c))
      (seq (case opened of None \<Rightarrow> ok staged' | Some f \<Rightarrow> finish_file pq g f staged') (\<lambda>staged''. ok (stats, n', staged''))
         :: ('m, MergeStats \<times> nat \<times> staged_file list) eio)
      (\<lambda>(stats, n', staged'). at k (\<lambda>c. stats = merge_stats all \<and> run_path ` {m. n' < m} \<subseteq> T \<and>
        staged' = staged0 @ map (hour_file sink g) (hours (first_arrivals all)) \<and>
        stored pq sink g keys (first_arrivals all) c \<and> (\<forall>h\<in>set (first_arrivals all). accepted keys (head_row keys h)) \<and>
        outside (T \<union> outs sink g) c0 c)) (\<lambda>_. at k ?E)" for stats n' opened staged'
    by (rule triple_at_assume, rule triple_at_assume, rule triple_seq [OF finish_streamed_triple])
      (use good in \<open>auto simp: triple_def at_def fine_def\<close>)
  show ?thesis
    unfolding merge_partition_def eq
    by (rule triple_seq [OF merged]) (simp only: split_paired_all prod.case fin)
qed

section \<open>Paths of staged files\<close>

lemma dec_inject [simp]: "dec m = dec n \<longleftrightarrow> m = n"
  by (metis undec_dec)

lemma staged_path_inject: "staged_path sink g hour = staged_path sink g' hour' \<longleftrightarrow> g = g' \<and> hour = hour'"
  by (cases g; cases g') (auto simp: staged_path_def output_file_name_def unsigned_word_eqI)

lemma outs_disjoint: "g \<noteq> g' \<Longrightarrow> outs sink g \<inter> outs sink g' = {}"
  by (auto simp: outs_def staged_path_inject)

lemma run_path_not_staged: "run_path n \<noteq> staged_path sink g hour"
  by (simp add: run_path_def runs_dir_def staged_path_def tmp_dir_def)

lemma stored_path: "ys \<in> set (hours hs) \<Longrightarrow> snd (hour_file sink g ys) \<in> outs sink g"
  by (simp add: hour_file_def Let_def outs_def)

lemma stored_cong:
  assumes "stored pq sink g keys hs c" "outside U c c'" "U \<inter> outs sink g = {}"
  shows "stored pq sink g keys hs c'"
  using assms stored_path unfolding stored_def outside_def by (metis (no_types, lifting) IntI empty_iff)

end
