(* ===== verification/Orc_Outputs.thy ===== *)
theory Orc_Outputs
  imports Orc_Staging
begin

text \<open>
  The second phase of a flush over all groups (\<open>run\<close> of \<open>src/src/flush/planner.rs\<close>, phase 2): every
  group's first arrivals are stored in its staged files, and the counters add up.
\<close>

lemma fold_io_prefix_triple:
  assumes "\<And>ys x zs w. ys0 @ xs = ys @ x # zs \<Longrightarrow> triple (at k (J ys w)) (f x w) (\<lambda>w'. at k (J (ys @ [x]) w')) E"
  shows "triple (at k (J ys0 w)) (fold_io f xs w) (\<lambda>w'. at k (J (ys0 @ xs) w')) E"
  using assms
proof (induction xs arbitrary: ys0 w)
  case (Cons x xs)
  have "triple (at k (J (ys0 @ [x]) w')) (fold_io f xs w') (\<lambda>w''. at k (J ((ys0 @ [x]) @ xs) w'')) E" for w'
    by (rule Cons.IH) (use Cons.prems in simp)
  then show ?case
    unfolding fold_io.simps by (intro triple_seq [OF Cons.prems [of ys0 x xs w]]) simp_all
qed (simp add: triple_def)

section \<open>What is ready to be merged\<close>

definition runs_of :: "Staging \<Rightarrow> GroupKey \<Rightarrow> path list" where
  "runs_of s g = (case map_of (sg_runs s) g of None \<Rightarrow> [] | Some ps \<Rightarrow> ps)"

definition memory_of :: "Staging \<Rightarrow> GroupKey \<Rightarrow> Src option" where
  "memory_of s g = map_option MemSource (map_of (sg_memory s) g)"

definition keys_of :: "(GroupKey \<rightharpoonup> KeyDef list) \<Rightarrow> GroupKey \<Rightarrow> KeyDef list" where
  "keys_of schemas g = (case schemas g of None \<Rightarrow> [] | Some ks \<Rightarrow> ks)"

definition arrived :: "(path \<Rightarrow> Head list) \<Rightarrow> (GroupKey \<Rightarrow> Head list) \<Rightarrow> Staging \<Rightarrow> GroupKey \<Rightarrow> Head list" where
  "arrived F M s g = heads F (runs_of s g) @ M g"

definition later :: "nat \<Rightarrow> path set" where
  "later n = run_path ` {m. n < m}"

definition group_ready :: "KeyDef list \<Rightarrow> (path \<Rightarrow> Head list) \<Rightarrow> (GroupKey \<Rightarrow> Head list) \<Rightarrow> Staging \<Rightarrow> GroupKey \<Rightarrow> bool" where
  "group_ready keys F M s g \<longleftrightarrow>
     sound_runs F (runs_of s g) \<and> set (runs_of s g) \<subseteq> range run_path - later (sg_next s) \<and>
     runs.mem_heads (memory_of s g) (M g) \<and> inj_on head_key (set (arrived F M s g)) \<and>
     (\<forall>h\<in>set (arrived F M s g). readable keys h)"

definition ready :: "(GroupKey \<Rightarrow> KeyDef list) \<Rightarrow> (path \<Rightarrow> Head list) \<Rightarrow> (GroupKey \<Rightarrow> Head list) \<Rightarrow> Staging \<Rightarrow> bool" where
  "ready keys F M s \<longleftrightarrow> (\<forall>g. group_ready (keys g) F M s g) \<and>
     (\<forall>g g'. g \<noteq> g' \<longrightarrow> set (runs_of s g) \<inter> set (runs_of s g') = {})"

lemma readyD:
  assumes "ready keys F M s"
  shows "group_ready (keys g) F M s g" "set (runs_of s g) \<subseteq> range run_path" "set (runs_of s g) \<inter> later (sg_next s) = {}"
    "g \<noteq> g' \<Longrightarrow> set (runs_of s g) \<inter> set (runs_of s g') = {}"
proof -
  show g: "group_ready (keys g) F M s g" using assms unfolding ready_def by blast
  then show "set (runs_of s g) \<subseteq> range run_path" "set (runs_of s g) \<inter> later (sg_next s) = {}" by (auto simp: group_ready_def)
  show "g \<noteq> g' \<Longrightarrow> set (runs_of s g) \<inter> set (runs_of s g') = {}" using assms unfolding ready_def by blast
qed

text \<open>The run files that may have changed, and the staged files, once the groups \<open>gs\<close> are done.\<close>

definition used_runs :: "Staging \<Rightarrow> GroupKey list \<Rightarrow> path set" where
  "used_runs s gs = later (sg_next s) \<union> (\<Union>g\<in>set gs. set (runs_of s g))"

definition all_outs :: "Sink \<Rightarrow> GroupKey list \<Rightarrow> path set" where
  "all_outs sink gs = (\<Union>g\<in>set gs. outs sink g)"

definition group_files :: "Sink \<Rightarrow> (GroupKey \<Rightarrow> Head list) \<Rightarrow> GroupKey list \<Rightarrow> staged_file list" where
  "group_files sink A gs = concat (map (\<lambda>g. map (hour_file sink g) (hours (first_arrivals (A g)))) gs)"

definition all_stored ::
  "'s Parquet \<Rightarrow> Sink \<Rightarrow> (GroupKey \<Rightarrow> KeyDef list) \<Rightarrow> (GroupKey \<Rightarrow> Head list) \<Rightarrow> GroupKey list \<Rightarrow> (path \<rightharpoonup> bytes) \<Rightarrow> bool" where
  "all_stored pq sink keys A gs c \<longleftrightarrow> (\<forall>g\<in>set gs. stored pq sink g (keys g) (first_arrivals (A g)) c)"

definition staged_upto ::
  "'s Parquet \<Rightarrow> Sink \<Rightarrow> (GroupKey \<Rightarrow> KeyDef list) \<Rightarrow> (GroupKey \<Rightarrow> Head list) \<Rightarrow> (path \<rightharpoonup> bytes) \<Rightarrow> Staging \<Rightarrow>
     GroupKey list \<Rightarrow> Staging \<Rightarrow> (path \<rightharpoonup> bytes) \<Rightarrow> bool" where
  "staged_upto pq sink keys A c0 s0 gs s c \<longleftrightarrow>
     sg_runs s = fold AList.delete gs (sg_runs s0) \<and> sg_memory s = fold AList.delete gs (sg_memory s0) \<and>
     sg_staged s = sg_staged s0 @ group_files sink A gs \<and> later (sg_next s) \<subseteq> used_runs s0 gs \<and>
     sg_emitted s = sg_emitted s0 + (\<Sum>g\<leftarrow>gs. ms_emitted (merge_stats (A g))) \<and>
     sg_deduplicated s = sg_deduplicated s0 + (\<Sum>g\<leftarrow>gs. ms_deduplicated (merge_stats (A g))) \<and>
     all_stored pq sink keys A gs c \<and> (\<forall>g\<in>set gs. \<forall>h\<in>set (first_arrivals (A g)). accepted (keys g) (head_row (keys g) h)) \<and>
     outside (used_runs s0 gs \<union> all_outs sink gs) c0 c"

lemma map_of_fold_delete: "g \<notin> set gs \<Longrightarrow> map_of (fold AList.delete gs xs) g = map_of xs g"
  by (induction gs arbitrary: xs) (auto simp: AList.delete_conv)

lemma outside_trans: "outside T c0 c1 \<Longrightarrow> outside U c1 c \<Longrightarrow> T \<subseteq> V \<Longrightarrow> U \<subseteq> V \<Longrightarrow> outside V c0 c"
  unfolding outside_def by (metis subsetD)

lemma outside_weaken: "outside T c0 c \<Longrightarrow> T \<subseteq> V \<Longrightarrow> outside V c0 c"
  by (auto simp: outside_def)

lemma run_not_out: "run_path n \<notin> all_outs sink gs"
  by (auto simp: all_outs_def outs_def run_path_not_staged)

lemma runs_not_outs: "T \<subseteq> range run_path \<Longrightarrow> T \<inter> outs sink g = {}"
  using run_path_not_staged by (fastforce simp: outs_def)

lemma used_runs_are_runs: "ready keys F M s \<Longrightarrow> used_runs s gs \<subseteq> range run_path"
  using readyD(2) [of keys F M s] unfolding used_runs_def later_def by blast

lemma next_group_runs:
  assumes "ready keys F M s0" "g \<notin> set ys"
  shows "set (runs_of s0 g) \<inter> (used_runs s0 ys \<union> all_outs sink ys) = {}"
proof -
  have "set (runs_of s0 g) \<inter> set (runs_of s0 g') = {}" if "g' \<in> set ys" for g'
    by (rule readyD(4) [OF assms(1)]) (use assms(2) that in blast)
  moreover have "set (runs_of s0 g) \<inter> all_outs sink ys = {}" using readyD(2) [OF assms(1)] run_not_out by fastforce
  ultimately show ?thesis using readyD(3) [OF assms(1), of g] unfolding used_runs_def by blast
qed

lemma ready_ours:
  assumes "ready keys F M s0" "g \<notin> set ys" "later n \<subseteq> used_runs s0 ys"
  shows "runs.ours (used_runs s0 (ys @ [g])) (runs_of s0 g) n"
  unfolding runs.ours_def unfolding later_def [symmetric] using next_group_runs [OF assms(1,2)] assms(3) unfolding used_runs_def by fastforce

text \<open>One group: its runs and the batch's share are as they were when the phase began.\<close>

definition out_paths :: "Sink \<Rightarrow> path set" where
  "out_paths sink = (\<Union>g. outs sink g)"

lemma staged_upto_more:
  assumes upto: "staged_upto pq sink keys A c0 s0 ys s c1" and fresh: "g \<notin> set ys"
    and st: "stored pq sink g (keys g) (first_arrivals (A g)) c" "\<forall>h\<in>set (first_arrivals (A g)). accepted (keys g) (head_row (keys g) h)"
    and out: "outside (used_runs s0 (ys @ [g]) \<union> outs sink g) c1 c" "later n \<subseteq> used_runs s0 (ys @ [g])"
    and runs: "used_runs s0 (ys @ [g]) \<subseteq> range run_path"
  shows "staged_upto pq sink keys A c0 s0 (ys @ [g])
    \<lparr>sg_next = n, sg_runs = AList.delete g (sg_runs s), sg_memory = AList.delete g (sg_memory s),
     sg_staged = sg_staged s @ map (hour_file sink g) (hours (first_arrivals (A g))),
     sg_emitted = sg_emitted s + ms_emitted (merge_stats (A g)),
     sg_deduplicated = sg_deduplicated s + ms_deduplicated (merge_stats (A g))\<rparr> c"
proof -
  have old: "stored pq sink g' (keys g') (first_arrivals (A g')) c" if "g' \<in> set ys" for g'
  proof (rule stored_cong [OF _ out(1)])
    show "stored pq sink g' (keys g') (first_arrivals (A g')) c1" using upto that by (simp add: staged_upto_def all_stored_def)
    have "g' \<noteq> g" using that fresh by blast
    then show "(used_runs s0 (ys @ [g]) \<union> outs sink g) \<inter> outs sink g' = {}"
      using outs_disjoint [of g' g sink] runs_not_outs [OF runs] by blast
  qed
  have "outside (used_runs s0 (ys @ [g]) \<union> all_outs sink (ys @ [g])) c0 c"
    by (rule outside_trans [OF _ out(1), of "used_runs s0 ys \<union> all_outs sink ys" c0])
      (use upto in \<open>auto simp: staged_upto_def used_runs_def all_outs_def\<close>)
  with upto old st out(2) show ?thesis
    by (auto simp: staged_upto_def all_stored_def group_files_def)
qed

lemma stage_group_triple:
  fixes pq :: "'s Parquet"
  assumes ready: "ready (keys_of schemas) F M s0" and fresh: "g \<notin> set ys"
    and A_def: "A = arrived F M s0" and good: "good \<Longrightarrow> fine pq (snk_flush sink) (keys_of schemas g) (A g)"
    and held: "hold F (runs_of s0 g) c0"
  shows "triple (at k (staged_upto pq sink (keys_of schemas) A c0 s0 ys s)) (stage_group pq sink schemas g s :: ('m, Staging) eio)
    (\<lambda>s'. at k (staged_upto pq sink (keys_of schemas) A c0 s0 (ys @ [g]) s'))
    (\<lambda>_. at k (\<lambda>c. outside (range run_path \<union> out_paths sink) c0 c \<and> (\<not> k \<or> \<not> good)))"
proof (rule triple_at_fix)
  fix c1 assume c1: "staged_upto pq sink (keys_of schemas) A c0 s0 ys s c1"
  let ?keys = "keys_of schemas g" and ?T = "used_runs s0 (ys @ [g])" and ?runs = "runs_of s0 g"
  let ?E = "\<lambda>c. outside (range run_path \<union> out_paths sink) c0 c \<and> (\<not> k \<or> \<not> good)"
  have same: "runs_of s g = ?runs" "memory_of s g = memory_of s0 g"
    using c1 fresh by (simp_all add: staged_upto_def runs_of_def memory_of_def map_of_fold_delete)
  have T: "?T \<subseteq> range run_path" by (rule used_runs_are_runs [OF ready])
  note disj = runs_not_outs [OF T]
  have group: "sound_runs F ?runs" "runs.mem_heads (memory_of s0 g) (M g)" "inj_on head_key (set (A g))" "\<forall>h\<in>set (A g). readable ?keys h"
    using readyD(1) [OF ready, of g] by (auto simp: group_ready_def A_def)
  have ours: "runs.ours ?T ?runs (sg_next s)" by (rule ready_ours [OF ready fresh]) (use c1 in \<open>simp add: staged_upto_def\<close>)
  have hold: "hold F ?runs c1"
    using held c1 next_group_runs [OF ready fresh, of sink] by (force simp: hold_def staged_upto_def outside_def)
  have eq: "stage_group pq sink schemas g s = (seq (merge_partition pq sink g ?keys ?runs (memory_of s0 g) (sg_next s) (sg_staged s)) (\<lambda>(stats, n, staged).
        ok \<lparr>sg_next = n, sg_runs = AList.delete g (sg_runs s), sg_memory = AList.delete g (sg_memory s),
            sg_staged = staged, sg_emitted = sg_emitted s + ms_emitted stats,
            sg_deduplicated = sg_deduplicated s + ms_deduplicated stats\<rparr>) :: ('m, Staging) eio)"
    unfolding same [symmetric] unfolding stage_group_def Let_def runs_of_def memory_of_def keys_of_def ..
  have old: "outside (range run_path \<union> out_paths sink) c0 c1"
  proof (rule outside_weaken)
    show "outside (used_runs s0 ys \<union> all_outs sink ys) c0 c1" using c1 by (simp add: staged_upto_def)
    show "used_runs s0 ys \<union> all_outs sink ys \<subseteq> range run_path \<union> out_paths sink"
      using used_runs_are_runs [OF ready, of ys] unfolding all_outs_def out_paths_def by blast
  qed
  have lost: "outside (range run_path \<union> out_paths sink) c0 c" if "outside (?T \<union> outs sink g) c1 c" for c
    by (rule outside_trans [OF old that]) (use T in \<open>auto simp: out_paths_def\<close>)
  have part: "triple (at k (\<lambda>c. c = c1)) (merge_partition pq sink g ?keys ?runs (memory_of s0 g) (sg_next s) (sg_staged s) :: ('m, MergeStats \<times> nat \<times> staged_file list) eio)
      (\<lambda>(stats, n, staged). at k (\<lambda>c. stats = merge_stats (A g) \<and> later n \<subseteq> ?T \<and>
        staged = sg_staged s @ map (hour_file sink g) (hours (first_arrivals (A g))) \<and>
        stored pq sink g ?keys (first_arrivals (A g)) c \<and> (\<forall>h\<in>set (first_arrivals (A g)). accepted ?keys (head_row ?keys h)) \<and>
        outside (?T \<union> outs sink g) c1 c))
      (\<lambda>_. at k ?E)"
    unfolding later_def
    by (rule triple_conseq [OF merge_partition_triple [where k = k and F = F and ?c0.0 = c1 and good = good, OF _ good group(4) disj group(1) ours group(2,3)]])
      (use hold lost in \<open>auto simp: at_def spoilt_def A_def arrived_def split_beta\<close>)
  show "triple (at k (\<lambda>c. c = c1)) (stage_group pq sink schemas g s :: ('m, Staging) eio)
    (\<lambda>s'. at k (staged_upto pq sink (keys_of schemas) A c0 s0 (ys @ [g]) s')) (\<lambda>_. at k ?E)"
    unfolding eq
    by (rule triple_seq [OF part]) (use staged_upto_more [OF c1 fresh _ _ _ _ T] in \<open>auto simp: triple_def at_def\<close>)
qed

text \<open>All groups.\<close>

lemma stage_outputs_triple:
  fixes pq :: "'s Parquet"
  assumes s0: "s0 = staging_start st" "ready (keys_of (ph_schemas st)) F M s0" and A_def: "A = arrived F M s0"
    and good: "\<And>g. good \<Longrightarrow> fine pq (snk_flush sink) (keys_of (ph_schemas st) g) (A g)"
    and held: "\<And>g. hold F (runs_of s0 g) c0"
  shows "triple (at k (\<lambda>c. c = c0)) (stage_outputs pq sink st :: ('m, Staging) eio)
    (\<lambda>s. at k (staged_upto pq sink (keys_of (ph_schemas st)) A c0 s0 (staging_groups s0) s))
    (\<lambda>_. at k (\<lambda>c. outside (range run_path \<union> out_paths sink) c0 c \<and> (\<not> k \<or> \<not> good)))"
proof -
  let ?J = "staged_upto pq sink (keys_of (ph_schemas st)) A c0 s0"
  let ?E = "\<lambda>_. at k (\<lambda>c. outside (range run_path \<union> out_paths sink) c0 c \<and> (\<not> k \<or> \<not> good))"
  have mk: "triple (at k (\<lambda>c. c = c0)) (lift_io (fs_mkdir tmp_dir) :: ('m, unit) eio) (\<lambda>_. at k (?J [] s0)) ?E"
    by (rule triple_lift_io, rule triple_conseq [OF quiet_triples(3) [where Q = "\<lambda>_ c. c = c0" and E = "\<lambda>_ c. c = c0 \<and> \<not> k"]])
      (auto simp: at_def staged_upto_def group_files_def all_stored_def used_runs_def outside_def)
  have distinct: "distinct (staging_groups s0)" by (simp add: staging_groups_def)
  have step: "triple (at k (?J ys s)) (stage_group pq sink (ph_schemas st) g s :: ('m, Staging) eio) (\<lambda>s'. at k (?J (ys @ [g]) s')) ?E"
    if "[] @ staging_groups s0 = ys @ g # zs" for ys g zs s
    by (rule stage_group_triple [OF s0(2) _ A_def good held]) (use that distinct in auto)
  show ?thesis
    unfolding stage_outputs_def s0(1) [symmetric]
    by (rule triple_seq [OF mk])
      (use fold_io_prefix_triple [where k = k and J = ?J and E = ?E and ?ys0.0 = "[]" and xs = "staging_groups s0", OF step] in simp)
qed

end
