(* ===== verification/Orc_Decoding.thy ===== *)
theory Orc_Decoding
  imports Orc_Outputs
begin

text \<open>
  Laws of the first phase of a flush (\<open>decode_segment\<close>, \<open>Spill\<close> and the decoding loop of \<open>run\<close> in
  \<open>src/src/flush/planner.rs\<close>): what a segment holds is a list of records, decoding gathers exactly
  the records of the consumed segments, and spilling them changes nothing but where they are.
\<close>

text \<open>Groups are pairs; statements about all groups are kept as they are.\<close>

declare split_paired_All [simp del] split_paired_Ex [simp del]

section \<open>What a segment holds\<close>

definition lookup :: "Manifest \<Rightarrow> key_lookup" where
  "lookup m = (\<lambda>series epoch. map_option length (man_schema m series epoch))"

definition schema_keys :: "Manifest \<Rightarrow> GroupKey \<Rightarrow> KeyDef list" where
  "schema_keys m g = (case man_schema m (fst g) (snd g) of None \<Rightarrow> [] | Some ks \<Rightarrow> ks)"

definition item_records :: "Manifest \<Rightarrow> u64 \<Rightarrow> bytes \<Rightarrow> item \<Rightarrow> (GroupKey \<times> Head) list" where
  "item_records m i buf it =
     (case it of
        Inl _ \<Rightarrow> []
      | Inr (frame, vals, _) \<Rightarrow>
          let rec = fr_record frame; g = (rec_series rec, rec_epoch rec) in
          if matches_schema (schema_keys m g) vals
          then [(g, \<lparr>hd_ts = rec_ts rec, hd_id = rec_id rec, hd_arrival = (i, of_nat (fr_offset frame)),
                    hd_frame = slice (fr_offset frame) (fr_offset frame + fr_len frame) buf\<rparr>)]
          else [])"

definition segment_items :: "(bytes \<Rightarrow> u32) \<Rightarrow> Manifest \<Rightarrow> bytes \<Rightarrow> item list" where
  "segment_items crc m buf =
     (case reader_new buf (length buf) (lookup m) of Inl _ \<Rightarrow> [] | Inr r \<Rightarrow> fst (read_all crc r))"

definition segment_records :: "(bytes \<Rightarrow> u32) \<Rightarrow> Manifest \<Rightarrow> u64 \<Rightarrow> bytes \<Rightarrow> (GroupKey \<times> Head) list" where
  "segment_records crc m i buf = concat (map (item_records m i buf) (segment_items crc m buf))"

text \<open>What every yielded frame satisfies.\<close>

definition item_sound :: "Manifest \<Rightarrow> bytes \<Rightarrow> item \<Rightarrow> bool" where
  "item_sound m buf it \<longleftrightarrow>
     (case it of
        Inl _ \<Rightarrow> True
      | Inr (frame, vals, extra) \<Rightarrow>
          let rec = fr_record frame; bs = slice (fr_offset frame) (fr_offset frame + fr_len frame) buf; n = id_offset (rec_series rec) in
          \<exists>keys. man_schema m (rec_series rec) (rec_epoch rec) = Some keys \<and>
            decode_verified bs (length keys) = Inr (rec, vals, extra, length bs) \<and>
            n + length (rec_id rec) \<le> length bs \<and> slice n (n + length (rec_id rec)) bs = rec_id rec \<and>
            length (rec_id rec) < 2 ^ 16 \<and> length bs \<le> length buf)"

lemma decode_decode_verified:
  assumes "decode crc f k lim = Inr (rec, vals, extra, n)" "n = length f"
  shows "decode_verified f k = Inr (rec, vals, extra, length f)"
proof -
  obtain p where p: "frame_payload crc f lim = Inr (p, n)" "decode_payload p n k = Inr (rec, vals, extra, n)"
    using assms decode_payload_inv by (fastforce simp: decode_def rbind_eq_Inr)
  note inv = frame_payload_inv [OF p(1)]
  then have "f = seal_frame crc p" using assms(2) by simp
  with inv have "frame_extent f usize_max = Inr (p, n)"
    using frame_extent_seal [of p usize_max crc "[]"] u32_le_usize by auto
  with p assms(2) show ?thesis by (simp add: decode_verified_def)
qed

lemma decoded_id:
  assumes "decode crc f k lim = Inr (rec, vals, extra, length f)"
  shows "id_offset (rec_series rec) + length (rec_id rec) \<le> length f \<and>
    slice (id_offset (rec_series rec)) (id_offset (rec_series rec) + length (rec_id rec)) f = rec_id rec \<and>
    length (rec_id rec) < 2 ^ 16"
proof -
  from decode_inv [OF assms] have f: "f = seal_frame crc (enc_record rec vals extra)" and fits: "record_fits rec vals extra" by auto
  have "f = (le32 (of_nat (length (enc_record rec vals extra))) @ le32 (crc (le32 (of_nat (length (enc_record rec vals extra))) @ enc_record rec vals extra)) @
      le64 (rec_ts rec) @ le32 (rec_epoch rec) @ le16 (of_nat (length (rec_series rec))) @ rec_series rec @ le16 (of_nat (length (rec_id rec)))) @ rec_id rec @
      (concat (map enc_value vals) @ enc_extra extra @ enc_str32 (rec_data rec))" (is "_ = ?a @ _ @ ?z")
    unfolding f seal_frame_def Let_def by (simp add: enc_record_def enc_fixed_def enc_str16_def)
  moreover have "length ?a = id_offset (rec_series rec)" by (simp add: id_offset_def FRAME_HEADER_BYTES_def)
  ultimately show ?thesis
    using fits by (auto simp: slice_def record_fits_def str16_fits_def u16_max_def)
qed

lemma prefix_of_decoded:
  assumes "decode crc f k lim = Inr (rec, vals, extra, n)" "validate_prefix crc f lim = Inr p"
  shows "pre_series p = rec_series rec \<and> pre_epoch p = rec_epoch rec"
proof -
  from assms(1) obtain q where q: "frame_payload crc f lim = Inr (q, n)" "decode_payload q n k = Inr (rec, vals, extra, n)"
    using decode_payload_inv by (fastforce simp: decode_def rbind_eq_Inr)
  then obtain c where "read_record k (cursor_new q) = (Inr (rec, vals, extra), c)"
    by (auto simp: decode_payload_def split: prod.splits sum.splits if_splits)
  from fst_read_fixed [OF this] q(1) assms(2) show ?thesis by (auto simp: validate_prefix_def)
qed

lemma read_one_sound:
  assumes "is_frame (frame_len crc lim) f" "read_one crc (lookup m) lim off f = Inr (fr, vals, extra)"
    "slice off (off + length f) buf = f" "length f \<le> length buf"
  shows "item_sound m buf (Inr (fr, vals, extra)) \<and> fr_offset fr = off \<and> fr_len fr = length f"
proof -
  from assms(2) obtain p k rec n where r: "validate_prefix crc f lim = Inr p" "lookup m (pre_series p) (pre_epoch p) = Some k"
    "decode crc f k lim = Inr (rec, vals, extra, n)" "fr = \<lparr>fr_record = rec, fr_offset = off, fr_len = length f\<rparr>"
    by (auto simp: read_one_def split: sum.splits option.splits prod.splits)
  have n: "n = length f" by (rule frame_decode_len [OF assms(1) r(3)])
  have "pre_series p = rec_series rec \<and> pre_epoch p = rec_epoch rec" using prefix_of_decoded [OF r(3) r(1)] by simp
  with r(2) obtain keys where keys: "man_schema m (rec_series rec) (rec_epoch rec) = Some keys" "k = length keys"
    by (auto simp: lookup_def)
  have "decode_verified f (length keys) = Inr (rec, vals, extra, length f)"
    using decode_decode_verified [OF r(3) n] keys(2) by simp
  with keys(1) decoded_id [OF r(3) [unfolded n]] r(4) assms(3,4) show ?thesis
    by (simp add: item_sound_def Let_def)
qed

text \<open>All items of a segment, and the arrivals of its records, which ascend.\<close>

lemma slice_middle: "length xs = off \<Longrightarrow> buf = xs @ f @ zs \<Longrightarrow> slice off (off + length f) buf = f"
  by (simp add: slice_def)

lemma read_each_sound:
  assumes "buf = xs @ concat fs @ left" "length xs = off" "list_all (is_frame (frame_len crc lim)) fs"
  shows "list_all (item_sound m buf) (read_each crc (lookup m) lim off fs)"
  using assms
proof (induction fs arbitrary: xs off)
  case (Cons f fs)
  have f: "slice off (off + length f) buf = f" "length f \<le> length buf"
    using Cons.prems slice_middle [of xs off buf f "concat fs @ left"] by auto
  have "item_sound m buf (read_one crc (lookup m) lim off f)"
  proof (cases "read_one crc (lookup m) lim off f")
    case (Inr it)
    then show ?thesis using read_one_sound [OF _ _ f] Cons.prems(3) by (cases it) auto
  qed (simp add: item_sound_def)
  moreover have "list_all (item_sound m buf) (read_each crc (lookup m) lim (off + length f) fs)"
    by (rule Cons.IH [of "xs @ f"]) (use Cons.prems in auto)
  ultimately show ?case by simp
qed simp

definition position_of :: "GroupKey \<times> Head \<Rightarrow> nat" where
  "position_of r = unat (snd (hd_arrival (snd r)))"

lemma item_records_single:
  assumes "r \<in> set (item_records m i buf it)"
  obtains fr vals extra where "it = Inr (fr, vals, extra)" "item_records m i buf it = [r]"
    "hd_arrival (snd r) = (i, of_nat (fr_offset fr))"
  using assms by (cases it) (auto simp: item_records_def Let_def split: if_splits)

lemma read_each_arrivals:
  assumes "list_all (is_frame (frame_len crc lim)) fs" "off + length (concat fs) < 2 ^ 64"
  shows "sorted_wrt (<) (map position_of (concat (map (item_records m i buf) (read_each crc (lookup m) lim off fs)))) \<and>
    (\<forall>r\<in>set (concat (map (item_records m i buf) (read_each crc (lookup m) lim off fs))). off \<le> position_of r \<and> fst (hd_arrival (snd r)) = i)"
  using assms
proof (induction fs arbitrary: off)
  case (Cons f fs)
  let ?it = "read_one crc (lookup m) lim off f"
  let ?rest = "concat (map (item_records m i buf) (read_each crc (lookup m) lim (off + length f) fs))"
  have IH: "sorted_wrt (<) (map position_of ?rest)" "\<forall>r\<in>set ?rest. off + length f \<le> position_of r \<and> fst (hd_arrival (snd r)) = i"
    using Cons.IH [of "off + length f"] Cons.prems by auto
  have pos: "position_of r = off \<and> fst (hd_arrival (snd r)) = i \<and> item_records m i buf ?it = [r]" if "r \<in> set (item_records m i buf ?it)" for r
  proof (rule item_records_single [OF that])
    fix fr vals extra assume a: "?it = Inr (fr, vals, extra)" "item_records m i buf ?it = [r]" "hd_arrival (snd r) = (i, of_nat (fr_offset fr))"
    then have "fr_offset fr = off" by (auto simp: read_one_def split: sum.splits option.splits prod.splits)
    with a Cons.prems(2) show ?thesis by (simp add: position_of_def unat_of_nat)
  qed
  have f: "0 < length f" using Cons.prems(1) by (simp add: is_frame_def)
  show ?case
  proof (cases "item_records m i buf ?it")
    case Nil
    with IH f show ?thesis by force
  next
    case (Cons r rs)
    with pos [of r] have r: "position_of r = off" "fst (hd_arrival (snd r)) = i" "item_records m i buf ?it = [r]" by auto
    have "off < position_of r'" if "r' \<in> set ?rest" for r'
    proof -
      have "off + length f \<le> position_of r'" using IH(2) that by blast
      with f show ?thesis by linarith
    qed
    with IH r show ?thesis by (simp add: sorted_wrt_append) (use f in fastforce)
  qed
qed simp

lemma segment_items_split:
  assumes "parse_segment_header buf = Inr j"
  obtains xs fs left where "buf = xs @ concat fs @ left" "length xs = SEGMENT_HEADER_BYTES"
    "list_all (is_frame (frame_len crc (length buf))) fs"
    "segment_items crc m buf = read_each crc (lookup m) (length buf) SEGMENT_HEADER_BYTES fs @ read_left crc (length buf) (length buf - length left) left"
proof -
  obtain fs left where split: "split_as (frame_len crc (length buf)) (drop SEGMENT_HEADER_BYTES buf) fs left"
    using vp.split_as_exists by blast
  have "segment_items crc m buf = read_each crc (lookup m) (length buf) SEGMENT_HEADER_BYTES fs @ read_left crc (length buf) (length buf - length left) left"
    using read_segment_split [OF assms split, of "lookup m"]
    by (auto simp: segment_items_def read_segment_items_def rbind_eq_Inr)
  moreover have "buf = take SEGMENT_HEADER_BYTES buf @ concat fs @ left" using split by (metis append_take_drop_id split_as_def)
  moreover have "length (take SEGMENT_HEADER_BYTES buf) = SEGMENT_HEADER_BYTES" using header_length [OF assms] by simp
  moreover have "list_all (is_frame (frame_len crc (length buf))) fs" using split by (simp add: split_as_def)
  ultimately show ?thesis by (intro that)
qed

lemma read_left_faults: "it \<in> set (read_left crc lim off left) \<Longrightarrow> isl it"
  by (auto simp: read_left_def split: if_splits sum.splits)

lemma segment_items_sound: "list_all (item_sound m buf) (segment_items crc m buf)"
proof (cases "parse_segment_header buf")
  case (Inr j)
  then obtain xs fs left where s: "buf = xs @ concat fs @ left" "length xs = SEGMENT_HEADER_BYTES"
    "list_all (is_frame (frame_len crc (length buf))) fs"
    "segment_items crc m buf = read_each crc (lookup m) (length buf) SEGMENT_HEADER_BYTES fs @ read_left crc (length buf) (length buf - length left) left"
    by (rule segment_items_split)
  moreover have "item_sound m buf it" if "isl it" for it using that by (cases it) (auto simp: item_sound_def)
  ultimately show ?thesis using read_each_sound [OF s(1-3)] read_left_faults by (auto simp: list_all_iff)
qed (simp add: segment_items_def reader_new_def)

lemma segment_records_arrivals:
  assumes "length buf < 2 ^ 32"
  shows "distinct (map (\<lambda>r. hd_arrival (snd r)) (segment_records crc m i buf))"
    "\<forall>r\<in>set (segment_records crc m i buf). fst (hd_arrival (snd r)) = i"
proof -
  have "sorted_wrt (<) (map position_of (segment_records crc m i buf)) \<and> (\<forall>r\<in>set (segment_records crc m i buf). fst (hd_arrival (snd r)) = i)"
  proof (cases "parse_segment_header buf")
    case (Inr j)
    then obtain xs fs left where s: "buf = xs @ concat fs @ left" "length xs = SEGMENT_HEADER_BYTES"
      "list_all (is_frame (frame_len crc (length buf))) fs"
      "segment_items crc m buf = read_each crc (lookup m) (length buf) SEGMENT_HEADER_BYTES fs @ read_left crc (length buf) (length buf - length left) left"
      by (rule segment_items_split)
    have "item_records m i buf it = []" if "isl it" for it using that by (cases it) (auto simp: item_records_def)
    then have "concat (map (item_records m i buf) (read_left crc (length buf) (length buf - length left) left)) = []"
      using read_left_faults by (auto simp: concat_eq_Nil_conv)
    then have rs: "segment_records crc m i buf = concat (map (item_records m i buf) (read_each crc (lookup m) (length buf) SEGMENT_HEADER_BYTES fs))"
      by (simp only: segment_records_def s(4) map_append concat_append append_Nil2)
    have "length buf = SEGMENT_HEADER_BYTES + length (concat fs) + length left" using arg_cong [OF s(1), of length] s(2) by simp
    then have "SEGMENT_HEADER_BYTES + length (concat fs) < 2 ^ 64" using assms by simp
    then show ?thesis unfolding rs using read_each_arrivals [OF s(3)] by blast
  qed (simp add: segment_records_def segment_items_def reader_new_def)
  then show "\<forall>r\<in>set (segment_records crc m i buf). fst (hd_arrival (snd r)) = i"
    and "distinct (map (\<lambda>r. hd_arrival (snd r)) (segment_records crc m i buf))"
    by (auto simp: strict_sorted_iff distinct_map inj_on_def position_of_def)
qed

section \<open>Decoding a segment\<close>

text \<open>What the rejects sink does is its own.\<close>

definition beside_rejects :: "((path \<rightharpoonup> bytes) \<Rightarrow> bool) \<Rightarrow> bool" where
  "beside_rejects R \<longleftrightarrow> (\<forall>c c'. R c \<longrightarrow> outside (range reject_path) c c' \<longrightarrow> R c')"

lemma beside_rejectsD: "beside_rejects R \<Longrightarrow> R c \<Longrightarrow> R (c(reject_path i := x))"
  by (auto simp: beside_rejects_def outside_def)

lemma add_size_triple: "triple (at k R) (add_size p acc :: ('m, u64) eio) (\<lambda>_. at k R) E"
proof -
  have stat: "triple (at k R) (fs_stat p :: ('m, nat) io) (\<lambda>_. at k R) (\<lambda>_. at k R)"
    by (rule triple_conseq [OF tree_call_triples(3) [where Q' = "\<lambda>_. R" and E = "\<lambda>_. R"]]) (auto simp: at_def)
  show ?thesis using stat unfolding triple_def add_size_def by (auto split: prod.splits sum.splits)
qed

lemma dir_bytes_triple: "triple (at k R) (dir_bytes dir :: ('m, u64) eio) (\<lambda>_. at k R) E"
proof -
  have list: "triple (at k R) (scan_files dir :: ('m, path list) eio) (\<lambda>_. at k R) E"
    by (rule triple_conseq [OF scan_files_triple]) (auto simp: at_def)
  have "triple (at k R) (fold_io add_size ps w :: ('m, u64) eio) (\<lambda>_. at k R) E" for ps w
    by (rule fold_io_triple [where J = "\<lambda>_ _. R"]) (rule add_size_triple)
  then show ?thesis unfolding dir_bytes_def by (intro triple_seq [OF list])
qed

lemma reject_write_triple:
  assumes "beside_rejects R"
  shows "triple (at k R) (reject_write i frame :: ('m, unit) io) (\<lambda>_. at k R) (\<lambda>_. at k R)"
  unfolding reject_write_def
  by (rule triple_at_pre, (rule triple_rules)+) (auto intro: beside_rejectsD [OF assms])

lemma reject_append_triple:
  assumes "beside_rejects R"
  shows "triple (at k R) (reject_append i frame s :: ('m, RejectSink) eio) (\<lambda>_. at k R) E"
proof -
  have used: "triple (at k R) ((case rj_used s of Some used \<Rightarrow> ok used | None \<Rightarrow> dir_bytes rejects_dir) :: ('m, u64) eio) (\<lambda>_. at k R) E"
    by (cases "rj_used s") (auto simp: triple_ok intro: dir_bytes_triple triple_ok)
  have "triple (at k R) (best_effort (reject_write i frame) :: ('m, bool) eio) (\<lambda>_. at k R) E"
    by (rule triple_best_effort) (rule reject_write_triple [OF assms])
  then have "triple (at k R) (seq (best_effort (reject_write i frame)) (\<lambda>written. ok (f written)) :: ('m, RejectSink) eio) (\<lambda>_. at k R) E" for f
    by (rule triple_seq) (simp add: triple_def)
  then show ?thesis unfolding reject_append_def Let_def by (intro triple_seq [OF used]) (simp add: triple_def)
qed

definition schemas_of :: "Manifest \<Rightarrow> GroupKey set" where
  "schemas_of m = {g. man_schema m (fst g) (snd g) \<noteq> None}"

text \<open>
  The bounds that keep the batch's packed fields exact: fewer than \<open>2 ^ 32 - 1\<close> series epochs, and
  series names whose length leaves room for the offset of the id in 16 bits.
\<close>

definition flushable :: "Manifest \<Rightarrow> bool" where
  "flushable m \<longleftrightarrow> finite (schemas_of m) \<and> card (schemas_of m) < 2 ^ 32 - 1 \<and> (\<forall>g\<in>schemas_of m. length (fst g) \<le> 65511)"

definition cache_sound :: "Manifest \<Rightarrow> keys_cache \<Rightarrow> bool" where
  "cache_sound m cache \<longleftrightarrow> (\<forall>(g, ks)\<in>set cache. ks = schema_keys m g)"

lemma cached_keys_correct:
  assumes "cache_sound m cache" "cached_keys cache m s e = (keys, cache')"
  shows "keys = schema_keys m (s, e) \<and> cache_sound m cache' \<and> set cache \<subseteq> set cache' \<and> (s, e) \<in> fst ` set cache'"
proof (cases "position (\<lambda>(g, _). g = (s, e)) cache")
  case None
  with assms show ?thesis by (auto simp: cached_keys_def cache_sound_def schema_keys_def Let_def split_beta)
next
  case (Some j)
  from position_Some [OF this] have j: "j < length cache" "fst (cache ! j) = (s, e)" by (auto simp: split_beta)
  then have "cache ! j \<in> set cache" by simp
  then have "snd (cache ! j) = schema_keys m (s, e)" using assms(1) j(2) by (fastforce simp: cache_sound_def split_beta)
  moreover have "(s, e) \<in> fst ` set cache" using j by (metis image_eqI nth_mem)
  ultimately show ?thesis using assms Some by (simp add: cached_keys_def)
qed

definition decoding_upto :: "Manifest \<Rightarrow> u64 \<Rightarrow> bytes \<Rightarrow> Batch \<Rightarrow> item list \<Rightarrow> Decoding \<Rightarrow> bool" where
  "decoding_upto m i buf b0 its dg \<longleftrightarrow>
     (let rs = concat (map (item_records m i buf) its) in
      wf_batch (dg_batch dg) \<and> set (groups (dg_batch dg)) \<subseteq> schemas_of m \<and> deduplicated (dg_batch dg) = deduplicated b0 \<and>
      batch_records (dg_batch dg) = batch_records b0 @ rs \<and> dc_rows (dg_out dg) = length rs \<and> \<not> dc_unreadable (dg_out dg) \<and>
      cache_sound m (dc_schemas (dg_out dg)) \<and> fst ` set rs \<subseteq> fst ` set (dc_schemas (dg_out dg)))"

lemma groups_few:
  assumes "flushable m" "wf_batch b" "set (groups b) \<subseteq> schemas_of m"
  shows "length (groups b) < 2 ^ 32 - 1"
proof -
  have "length (groups b) = card (set (groups b))" using assms(2) by (simp add: wf_batch_def distinct_card)
  also have "\<dots> \<le> card (schemas_of m)" using assms by (auto simp: flushable_def intro: card_mono)
  finally show ?thesis using assms(1) by (simp add: flushable_def)
qed

lemma batch_push_groups: "set (groups (batch_push g ts id_off id_len arrival frame b)) \<subseteq> insert g (set (groups b))"
  by (auto simp: batch_push_def intern_def Let_def split: option.splits if_splits)

lemma batch_push_dedup [simp]: "deduplicated (batch_push g ts id_off id_len arrival frame b) = deduplicated b"
  by (auto simp: batch_push_def intern_def Let_def split: option.splits if_splits)

text \<open>A record that matches its schema is pushed whole.\<close>

lemma push_item:
  assumes up: "decoding_upto m i buf b0 its dg" and it: "item_sound m buf (Inr (fr, vals, extra))"
    and small: "flushable m" "length buf < 2 ^ 32"
    and rec: "rec = fr_record fr" "g = (rec_series rec, rec_epoch rec)" "bs = slice (fr_offset fr) (fr_offset fr + fr_len fr) buf"
  defines "b \<equiv> batch_push g (rec_ts rec) (id_offset (rec_series rec)) (length (rec_id rec)) (i, of_nat (fr_offset fr)) bs (dg_batch dg)"
  shows "wf_batch b \<and> set (groups b) \<subseteq> schemas_of m \<and> deduplicated b = deduplicated b0 \<and>
    batch_records b = batch_records (dg_batch dg) @ [(g, \<lparr>hd_ts = rec_ts rec, hd_id = rec_id rec, hd_arrival = (i, of_nat (fr_offset fr)), hd_frame = bs\<rparr>)]"
proof -
  from it obtain keys where keys: "man_schema m (rec_series rec) (rec_epoch rec) = Some keys"
    and n: "id_offset (rec_series rec) + length (rec_id rec) \<le> length bs" "length (rec_id rec) < 2 ^ 16" "length bs \<le> length buf"
    "slice (id_offset (rec_series rec)) (id_offset (rec_series rec) + length (rec_id rec)) bs = rec_id rec"
    by (auto simp: item_sound_def Let_def rec)
  have g: "g \<in> schemas_of m" using keys by (simp add: schemas_of_def rec)
  then have "id_offset (rec_series rec) < 2 ^ 16"
    using small(1) by (auto simp: flushable_def id_offset_def FRAME_HEADER_BYTES_def rec)
  moreover have wf: "wf_batch (dg_batch dg)" "set (groups (dg_batch dg)) \<subseteq> schemas_of m" using up by (auto simp: decoding_upto_def Let_def)
  ultimately have "wf_batch b \<and> batch_records b = batch_records (dg_batch dg) @ [(g, \<lparr>hd_ts = rec_ts rec,
      hd_id = slice (id_offset (rec_series rec)) (id_offset (rec_series rec) + length (rec_id rec)) bs, hd_arrival = (i, of_nat (fr_offset fr)), hd_frame = bs\<rparr>)]"
    unfolding b_def by (intro batch_push_correct groups_few [OF small(1)]) (use n small(2) in auto)
  moreover have "set (groups b) \<subseteq> schemas_of m" unfolding b_def using batch_push_groups wf(2) g by fastforce
  ultimately show ?thesis using n(4) up by (simp add: b_def decoding_upto_def Let_def)
qed

lemma reject_fault_triple:
  assumes "beside_rejects R" "decoding_upto m i buf b0 its dg"
  shows "triple (at k R) (reject_fault i buf fault dg :: ('m, Decoding) eio)
    (\<lambda>dg'. at k (\<lambda>c. decoding_upto m i buf b0 (its @ [Inl fault]) dg' \<and> R c)) E"
proof -
  obtain out copy where eq: "reject_fault i buf fault dg =
      (seq (reject_append i copy (dg_rejects dg)) (\<lambda>rejects. ok (dg\<lparr>dg_out := out, dg_rejects := rejects\<rparr>)) :: ('m, Decoding) eio)"
    and out: "dc_rows out = dc_rows (dg_out dg)" "dc_unreadable out = dc_unreadable (dg_out dg)" "dc_schemas out = dc_schemas (dg_out dg)"
    by (cases fault) (auto simp: reject_fault_def Let_def)
  have "decoding_upto m i buf b0 (its @ [Inl fault]) (dg\<lparr>dg_out := out, dg_rejects := rejects\<rparr>)" for rejects
    using assms(2) out by (simp add: decoding_upto_def item_records_def)
  then show ?thesis
    unfolding eq by (intro triple_seq [OF reject_append_triple [OF assms(1)]]) (auto simp: triple_def at_def)
qed

lemma decode_item_triple:
  assumes R: "beside_rejects R" and small: "flushable m" "length buf < 2 ^ 32" and it: "item_sound m buf it"
  shows "triple (at k (\<lambda>c. decoding_upto m i buf b0 its dg \<and> R c)) (decode_item m i buf it dg :: ('m, Decoding) eio)
    (\<lambda>dg'. at k (\<lambda>c. decoding_upto m i buf b0 (its @ [it]) dg' \<and> R c)) E"
proof (rule triple_at_assume)
  assume up: "decoding_upto m i buf b0 its dg"
  show "triple (at k R) (decode_item m i buf it dg :: ('m, Decoding) eio)
    (\<lambda>dg'. at k (\<lambda>c. decoding_upto m i buf b0 (its @ [it]) dg' \<and> R c)) E"
  proof (cases it)
    case (Inl fault)
    then show ?thesis unfolding decode_item_def by (simp add: reject_fault_triple [OF R up])
  next
    case (Inr x)
    obtain fr vals extra where x: "x = (fr, vals, extra)" by (cases x)
    define rec where "rec = fr_record fr"
    let ?g = "(rec_series rec, rec_epoch rec)" and ?bs = "slice (fr_offset fr) (fr_offset fr + fr_len fr) buf"
    obtain keys cache where ck: "cached_keys (dc_schemas (dg_out dg)) m (rec_series rec) (rec_epoch rec) = (keys, cache)" by fastforce
    have sound: "cache_sound m (dc_schemas (dg_out dg))" using up by (simp add: decoding_upto_def Let_def)
    note cache = cached_keys_correct [OF sound ck]
    let ?out = "(dg_out dg)\<lparr>dc_touched := List.insert (rec_series rec) (dc_touched (dg_out dg)), dc_schemas := cache\<rparr>"
    have old: "fst ` set (concat (map (item_records m i buf) its)) \<subseteq> fst ` set cache"
      by (rule subset_trans [OF _ image_mono [of "set (dc_schemas (dg_out dg))"]]) (use up cache in \<open>simp_all add: decoding_upto_def Let_def\<close>)
    show ?thesis
    proof (cases "matches_schema keys vals")
      case True
      note push = push_item [OF up it [unfolded Inr x] small rec_def refl refl]
      have "item_records m i buf it = [(?g, \<lparr>hd_ts = rec_ts rec, hd_id = rec_id rec, hd_arrival = (i, of_nat (fr_offset fr)), hd_frame = ?bs\<rparr>)]"
        using True cache by (simp add: item_records_def Inr x Let_def rec_def)
      then have "decoding_upto m i buf b0 (its @ [it]) (dg\<lparr>dg_out := ?out\<lparr>dc_rows := dc_rows ?out + 1\<rparr>,
          dg_batch := batch_push ?g (rec_ts rec) (id_offset (rec_series rec)) (length (rec_id rec)) (i, of_nat (fr_offset fr)) ?bs (dg_batch dg)\<rparr>)"
        using push up cache old by (simp add: decoding_upto_def Let_def)
      then show ?thesis
        using True unfolding decode_item_def Inr x by (simp add: Let_def ck rec_def [symmetric] triple_def at_def)
    next
      case False
      then have "item_records m i buf it = []" using cache by (simp add: item_records_def Inr x Let_def rec_def)
      then have "decoding_upto m i buf b0 (its @ [it]) (dg\<lparr>dg_out := ?out\<lparr>dc_frames_rejected := n\<rparr>, dg_rejects := rejects\<rparr>)" for n rejects
        using up cache old by (simp add: decoding_upto_def Let_def)
      then show ?thesis
        using False unfolding decode_item_def Inr x
        by (simp add: Let_def ck rec_def [symmetric], intro triple_seq [OF reject_append_triple [OF R]]) (auto simp: triple_def at_def)
    qed
  qed
qed

text \<open>A segment: its records are in the batch, or it is unreadable and, if that could be done, out of the way.\<close>

definition moved_aside :: "u64 \<Rightarrow> bytes \<Rightarrow> (path \<rightharpoonup> bytes) \<Rightarrow> (path \<rightharpoonup> bytes)" where
  "moved_aside i buf c = c(segment_path i := None, corrupt_path i \<mapsto> buf)"

lemma decode_segment_triple:
  assumes R: "beside_rejects R" and small: "flushable m" "length buf < 2 ^ 32"
    and b: "wf_batch b" "set (groups b) \<subseteq> schemas_of m" and there: "\<And>c. R c \<Longrightarrow> c (segment_path i) = Some buf"
  shows "triple (at k R) (decode_segment crc m i buf rejects b :: ('m, Decoding) eio)
    (\<lambda>dg. at k (\<lambda>c. if isl (parse_segment_header buf)
        then dc_unreadable (dg_out dg) \<and> dg_batch dg = b \<and> (if dc_quarantined (dg_out dg) then \<exists>c'. R c' \<and> c = moved_aside i buf c' else \<not> k \<and> (\<exists>c'. R c' \<and> (c = c' \<or> c = moved_aside i buf c')))
        else R c \<and> decoding_upto m i buf b (segment_items crc m buf) dg)) E"
proof -
  let ?s = "\<lparr>dg_out = decoded_default, dg_rejects = rejects, dg_batch = b\<rparr>"
  show ?thesis
  proof (cases "parse_segment_header buf")
    case (Inl err)
    have q: "triple (at k R) (quarantine_segment i :: ('m, path) io) (\<lambda>_. at k (\<lambda>c. \<exists>c'. R c' \<and> c = moved_aside i buf c'))
        (\<lambda>_. at k (\<lambda>c. \<not> k \<and> (\<exists>c'. R c' \<and> (c = c' \<or> c = moved_aside i buf c'))))"
      by (rule triple_at_pre [OF quarantine_segment_triple]) (use there in \<open>force simp: moved_aside_def\<close>)
    have moved: "triple (at k R) (flush_quarantine i :: ('m, bool) eio) (\<lambda>moved. at k (\<lambda>c. if moved then \<exists>c'. R c' \<and> c = moved_aside i buf c' else \<not> k \<and> (\<exists>c'. R c' \<and> (c = c' \<or> c = moved_aside i buf c')))) E"
      unfolding flush_quarantine_def by (rule triple_best_effort) (use q in simp)
    have eq: "decode_segment crc m i buf rejects b = (seq (flush_quarantine i) (\<lambda>moved.
        ok (?s\<lparr>dg_out := decoded_default\<lparr>dc_unreadable := True, dc_quarantined := moved, dc_bytes_skipped := length buf\<rparr>\<rparr>)) :: ('m, Decoding) eio)"
      using Inl by (simp add: decode_segment_def reader_new_def Let_def)
    show ?thesis
      unfolding eq by (rule triple_seq [OF moved]) (use Inl in \<open>auto simp: triple_def at_def\<close>)
  next
    case (Inr j)
    have start: "decoding_upto m i buf b [] ?s" using b by (simp add: decoding_upto_def decoded_default_def cache_sound_def)
    have items: "decode_segment crc m i buf rejects b = (fold_io (decode_item m i buf) (segment_items crc m buf) ?s :: ('m, Decoding) eio)"
      using Inr by (auto simp: decode_segment_def segment_items_def reader_new_def lookup_def Let_def)
    have "triple (at k (\<lambda>c. decoding_upto m i buf b [] ?s \<and> R c)) (fold_io (decode_item m i buf) (segment_items crc m buf) ?s :: ('m, Decoding) eio)
        (\<lambda>dg. at k (\<lambda>c. decoding_upto m i buf b ([] @ segment_items crc m buf) dg \<and> R c)) E"
      by (rule fold_io_triple [where J = "\<lambda>its dg c. decoding_upto m i buf b its dg \<and> R c"], rule decode_item_triple [OF R small])
        (use segment_items_sound [of m buf crc] in \<open>auto simp: list_all_iff\<close>)
    then show ?thesis unfolding items by (rule triple_conseq) (use Inr start in \<open>auto simp: at_def\<close>)
  qed
qed

section \<open>Spilling\<close>

definition of_group :: "GroupKey \<Rightarrow> (GroupKey \<times> Head) list \<Rightarrow> Head list" where
  "of_group g rs = map snd (filter (\<lambda>r. fst r = g) rs)"

definition run_of :: "(GroupKey \<times> path list) list \<Rightarrow> GroupKey \<Rightarrow> path list" where
  "run_of xs g = (case map_of xs g of None \<Rightarrow> [] | Some ps \<Rightarrow> ps)"

lemma of_group_simps [simp]:
  "of_group g [] = []" "of_group g (rs @ rs') = of_group g rs @ of_group g rs'"
  "of_group g (map (Pair g') hs) = (if g = g' then hs else [])"
  by (auto simp: of_group_def filter_map comp_def)

text \<open>
  The records \<open>R\<close> are in the run files \<open>xs\<close> and in memory, \<open>pool\<close>, but for \<open>dropped\<close> later arrivals;
  \<open>N\<close> are names still free.
\<close>

definition gathered_group :: "(path \<Rightarrow> Head list) \<Rightarrow> Head list \<Rightarrow> path list \<Rightarrow> path set \<Rightarrow> Head list \<Rightarrow> bool" where
  "gathered_group F hs runs N pool \<longleftrightarrow>
     distinct runs \<and> set runs \<subseteq> range run_path - N \<and> (\<forall>p\<in>set runs. sorted (map head_key (F p))) \<and>
     (\<exists>d. reduces hs (heads F runs @ pool) d)"

definition run_total :: "(path \<Rightarrow> Head list) \<Rightarrow> (GroupKey \<times> path list) list \<Rightarrow> nat" where
  "run_total F xs = (\<Sum>x\<leftarrow>xs. length (heads F (snd x)))"

definition gathered :: "(path \<Rightarrow> Head list) \<Rightarrow> (GroupKey \<times> Head) list \<Rightarrow> (GroupKey \<times> path list) list \<Rightarrow> path set \<Rightarrow>
    (GroupKey \<times> Head) list \<Rightarrow> nat \<Rightarrow> bool" where
  "gathered F R xs N pool dropped \<longleftrightarrow>
     distinct (map fst xs) \<and> (\<forall>g. gathered_group F (of_group g R) (run_of xs g) N (of_group g pool)) \<and>
     (\<forall>g g'. g \<noteq> g' \<longrightarrow> set (run_of xs g) \<inter> set (run_of xs g') = {}) \<and>
     length R = dropped + run_total F xs + length pool"

lemma run_of_push: "run_of (push_run (g, p) xs) g' = (if g' = g then run_of xs g @ [p] else run_of xs g')"
  by (induction xs) (auto simp: run_of_def push_run_def split: option.splits)

lemma push_run_keys: "distinct (map fst xs) \<Longrightarrow> distinct (map fst (push_run (g, p) xs)) \<and> set (map fst (push_run (g, p) xs)) = insert g (set (map fst xs))"
  by (induction xs) (auto simp: push_run_def)

lemma run_total_push: "run_total F (push_run (g, p) xs) = run_total F xs + length (F p)"
  by (induction xs) (auto simp: push_run_def run_total_def)

lemma run_total_cong: "(\<And>x p. x \<in> set xs \<Longrightarrow> p \<in> set (snd x) \<Longrightarrow> F p = F' p) \<Longrightarrow> run_total F xs = run_total F' xs"
  unfolding run_total_def
  by (intro arg_cong [where f = sum_list] map_cong refl arg_cong [where f = length] arg_cong [where f = concat]) blast

lemma in_run_of: "distinct (map fst xs) \<Longrightarrow> x \<in> set xs \<Longrightarrow> run_of xs (fst x) = snd x"
  by (cases x) (simp add: run_of_def)

text \<open>Moving one group of the pool to a new run file.\<close>

lemma gathered_move:
  assumes gat: "gathered F R xs N (map (Pair g) hs @ pool) dropped" and p: "p \<in> N" "p \<in> range run_path" and hs: "sorted (map head_key hs)"
  shows "gathered (F(p := hs)) R (push_run (g, p) xs) (N - {p}) pool dropped"
proof -
  let ?F = "F(p := hs)"
  have grp: "gathered_group F (of_group g' R) (run_of xs g') N (of_group g' (map (Pair g) hs @ pool))" for g'
    using gat unfolding gathered_def by blast
  have new: "p \<notin> set (run_of xs g')" for g' using grp [of g'] p(1) by (auto simp: gathered_group_def)
  then have same: "map ?F (run_of xs g') = map F (run_of xs g')" for g' by auto
  have "gathered_group ?F (of_group g' R) (run_of (push_run (g, p) xs) g') (N - {p}) (of_group g' pool)" for g'
    using grp [of g'] new [of g'] p hs unfolding gathered_group_def run_of_push by (auto simp: same)
  moreover have "run_total ?F (push_run (g, p) xs) = run_total F xs + length hs"
  proof -
    have "distinct (map fst xs)" using gat by (simp add: gathered_def)
    then have "q \<noteq> p" if "x \<in> set xs" "q \<in> set (snd x)" for x q using that new in_run_of by metis
    then have "run_total ?F xs = run_total F xs" by (intro run_total_cong) auto
    then show ?thesis by (simp add: run_total_push)
  qed
  moreover have "set (run_of (push_run (g, p) xs) a) \<inter> set (run_of (push_run (g, p) xs) b) = {}" if "a \<noteq> b" for a b
    using gat new that unfolding gathered_def by (auto simp: run_of_push split: if_splits)
  ultimately show ?thesis
    using gat push_run_keys [of xs g p] by (simp add: gathered_def)
qed

lemma gathered_fewer: "gathered F R xs N pool dropped \<Longrightarrow> N' \<subseteq> N \<Longrightarrow> gathered F R xs N' pool dropped"
  unfolding gathered_def gathered_group_def by blast

definition pooled :: "(GroupKey \<times> Head list) list \<Rightarrow> (GroupKey \<times> Head) list" where
  "pooled gs = concat (map (\<lambda>(g, hs). map (Pair g) hs) gs)"

lemma pooled_simps [simp]: "pooled [] = []" "pooled ((g, hs) # gs) = map (Pair g) hs @ pooled gs"
  by (simp_all add: pooled_def)

lemma gathered_moves:
  assumes "list_all2 (\<lambda>(key, p) (key', hs). key = key' \<and> c p = Some (run_bytes hs)) out gs" "distinct (map snd out)"
    "\<forall>x\<in>set gs. sorted (map head_key (snd x))" "gathered F R xs N (pooled gs) dropped"
    "set (map snd out) \<subseteq> N \<inter> range run_path" "\<And>g. hold F (run_of xs g) c"
  shows "\<exists>F'. gathered F' R (fold push_run out xs) (N - set (map snd out)) [] dropped \<and> (\<forall>g. hold F' (run_of (fold push_run out xs) g) c)"
  using assms
proof (induction out gs arbitrary: F xs N rule: list_all2_induct)
  case (Cons o' out x gs)
  obtain g p hs where op: "o' = (g, p)" "x = (g, hs)" "c p = Some (run_bytes hs)" using Cons.hyps(1) by (cases o'; cases x) auto
  have move: "gathered (F(p := hs)) R (push_run (g, p) xs) (N - {p}) (pooled gs) dropped"
    by (rule gathered_move) (use Cons.prems op in auto)
  have p: "p \<in> N" using Cons.prems(4) op(1) by simp
  have old: "p \<notin> set (run_of xs g')" for g'
  proof -
    have "gathered_group F (of_group g' R) (run_of xs g') N (of_group g' (pooled (x # gs)))" using Cons.prems(3) unfolding gathered_def by blast
    with p show ?thesis by (auto simp: gathered_group_def)
  qed
  have held: "hold (F(p := hs)) (run_of (push_run (g, p) xs) g') c" for g'
    using Cons.prems(5) [of g'] Cons.prems(5) [of g] old [of g'] old [of g] op(3) by (auto simp: hold_def run_of_push)
  have "p \<notin> set (map snd out)" "set (map snd out) \<subseteq> N \<inter> range run_path" using Cons.prems(1,4) op(1) by simp_all
  then have free: "set (map snd out) \<subseteq> (N - {p}) \<inter> range run_path" by blast
  have "distinct (map snd out)" "\<forall>x\<in>set gs. sorted (map head_key (snd x))" using Cons.prems(1,2) by auto
  then obtain F' where "gathered F' R (fold push_run out (push_run (g, p) xs)) (N - {p} - set (map snd out)) [] dropped \<and>
      (\<forall>g'. hold F' (run_of (fold push_run out (push_run (g, p) xs)) g') c)"
    using Cons.IH [OF _ _ move free held] by blast
  moreover have "N - {p} - set (map snd out) = N - set (map snd (o' # out))" by (simp add: op(1) Diff_insert [symmetric] set_diff_eq)
  ultimately show ?case unfolding op(1) fold_simps by (intro exI [of _ F']) simp
qed auto

text \<open>Sorting the batch drops later arrivals and orders what is left by group.\<close>

lemma concat_chunks: "concat (map snd (chunks f xs)) = xs"
  by (induction f xs rule: chunks.induct) (simp_all add: takeWhile_dropWhile_id)

lemma grouped_total:
  assumes "wf_batch b" "inj_on record_key (set (batch_records b))"
  shows "length (concat (map snd (grouped (batch_records b)))) = length (entries (batch_sort b))"
proof -
  have "length (concat (map snd (grouped (batch_records b)))) = length (concat (map snd (map (\<lambda>(g, rs). (g, map snd rs)) (chunks fst (batch_records (batch_sort b))))))"
    by (simp add: group_ranges_chunks [OF batch_sort_wf [OF assms(1)]] batch_sort_grouped [OF assms, symmetric])
  also have "\<dots> = length (concat (map snd (chunks fst (batch_records (batch_sort b)))))"
    by (simp add: length_concat split_beta comp_def)
  finally show ?thesis by (simp add: concat_chunks batch_records_def)
qed

lemma batch_sort_dropped: "wf_batch b \<Longrightarrow> deduplicated (batch_sort b) + length (entries (batch_sort b)) = deduplicated b + length (entries b)"
proof -
  define kept where "kept = entries (batch_sort b)"
  have "subseq kept (sort_key (sort_entry_key b) (entries b))" by (simp add: kept_def batch_sort_def Let_def subseq_dedup_by)
  then have "length kept \<le> length (entries b)" using list_emb_length by fastforce
  moreover have "deduplicated (batch_sort b) = deduplicated b + (length (entries b) - length kept)"
    by (simp add: kept_def batch_sort_def Let_def)
  ultimately show ?thesis by (simp add: kept_def)
qed

lemma of_group_pooled:
  "distinct (map fst gs) \<Longrightarrow> of_group g (pooled gs) = (case map_of gs g of None \<Rightarrow> [] | Some hs \<Rightarrow> hs)"
proof (induction gs)
  case (Cons x gs)
  have "map_of gs g = None" if "fst x = g" using Cons.prems that by (auto simp: map_of_eq_None_iff)
  with Cons show ?case by (cases x) auto
qed simp

lemma grouped_keys: "map fst (grouped rs) = sorted_list_of_set (fst ` set rs)"
  by (simp add: grouped_def comp_def)

lemma of_group_grouped: "of_group g (pooled (grouped rs)) = first_arrivals (of_group g rs)"
proof -
  have "distinct (map fst (grouped rs))" by (simp add: grouped_keys)
  moreover have "map_of (grouped rs) g = (if g \<in> fst ` set rs then Some (first_arrivals (of_group g rs)) else None)"
    unfolding grouped_def of_group_def by (simp add: map_of_map_restrict)
  moreover have "of_group g rs = []" if "g \<notin> fst ` set rs" using that by (auto simp: of_group_def filter_empty_conv)
  ultimately show ?thesis by (auto simp: of_group_pooled first_arrivals_def)
qed

lemma length_pooled: "length (pooled gs) = length (concat (map snd gs))"
  by (induction gs) auto

lemma gathered_sort:
  assumes gat: "gathered F R xs N (batch_records b) (deduplicated b)" and b: "wf_batch b" "inj_on record_key (set (batch_records b))"
  shows "gathered F R xs N (pooled (grouped (batch_records b))) (deduplicated (batch_sort b))"
proof -
  let ?rs = "batch_records b"
  have "gathered_group F (of_group g R) (run_of xs g) N (of_group g (pooled (grouped ?rs)))" for g
  proof -
    have grp: "gathered_group F (of_group g R) (run_of xs g) N (of_group g ?rs)" using gat unfolding gathered_def by blast
    then obtain d where d: "reduces (of_group g R) (heads F (run_of xs g) @ of_group g ?rs) d" by (auto simp: gathered_group_def)
    have "reduces (heads F (run_of xs g) @ of_group g ?rs) (heads F (run_of xs g) @ first_arrivals (of_group g ?rs))
        (length (of_group g ?rs) - length (first_arrivals (of_group g ?rs)))"
      by (rule reduces_merge) simp
    with reduces_trans [OF d] grp show ?thesis by (auto simp: gathered_group_def of_group_grouped)
  qed
  moreover have "length R = deduplicated (batch_sort b) + run_total F xs + length (pooled (grouped ?rs))"
    using gat batch_sort_dropped [OF b(1)] grouped_total [OF b] by (simp add: gathered_def length_pooled batch_records_def)
  ultimately show ?thesis using gat by (simp add: gathered_def)
qed


lemma reduces_append: "reduces hs hs' d \<Longrightarrow> reduces (hs @ xs) (hs' @ xs) d"
proof -
  assume r: "reduces hs hs' d"
  have "first_arrivals ((hs' @ xs) @ M) = first_arrivals ((hs @ xs) @ M)" if "inj_on head_key (set (hs @ xs) \<union> set M)" for M
  proof -
    have "inj_on head_key (set hs \<union> set (xs @ M))" using that by (simp add: Un_assoc)
    then show ?thesis using r unfolding reduces_def by (metis append_assoc)
  qed
  with r show "reduces (hs @ xs) (hs' @ xs) d" by (auto simp: reduces_def)
qed

lemma gathered_add: "gathered F R xs N pool dropped \<Longrightarrow> gathered F (R @ rs) xs N (pool @ rs) dropped"
  unfolding gathered_def gathered_group_def using reduces_append by fastforce

text \<open>Every record of a segment can be read again, from a run or from memory.\<close>

definition sound_record :: "Manifest \<Rightarrow> GroupKey \<times> Head \<Rightarrow> bool" where
  "sound_record m r \<longleftrightarrow> fst r \<in> schemas_of m \<and> wf_head (snd r) \<and> readable (schema_keys m (fst r)) (snd r) \<and>
     (accepted (schema_keys m (fst r)) (head_row (schema_keys m (fst r)) (snd r)) \<longleftrightarrow> unat (hd_ts (snd r)) \<le> i64_max)"

lemma matches_fits:
  assumes "matches_schema keys vals" shows "list_all2 fits_type (key_types keys) vals"
proof -
  have "v = VNull \<or> (\<exists>ty. value_key_type v = Some ty)" for v by (cases v) simp_all
  then show ?thesis
    using assms
    by (fastforce simp: matches_schema_def key_types_def list_all2_conv_all_nth list_all_length fits_type_def split: option.splits)
qed

lemma segment_records_sound: "\<forall>r\<in>set (segment_records crc m i buf). sound_record m r"
proof -
  have "sound_record m r" if "item_sound m buf it" "r \<in> set (item_records m i buf it)" for it r
  proof (cases it)
    case (Inr x)
    obtain fr vals extra where x: "x = (fr, vals, extra)" by (cases x)
    let ?rec = "fr_record fr" and ?bs = "slice (fr_offset fr) (fr_offset fr + fr_len fr) buf"
    from that(1) obtain keys where keys: "man_schema m (rec_series ?rec) (rec_epoch ?rec) = Some keys"
      "decode_verified ?bs (length keys) = Inr (?rec, vals, extra, length ?bs)" by (auto simp: item_sound_def Inr x Let_def)
    have r: "fst r = (rec_series ?rec, rec_epoch ?rec)" "hd_frame (snd r) = ?bs" "hd_ts (snd r) = rec_ts ?rec" "hd_id (snd r) = rec_id ?rec"
      "matches_schema (schema_keys m (fst r)) vals"
      using that(2) by (auto simp: item_records_def Inr x Let_def split: if_splits)
    then have "schema_keys m (fst r) = keys" using keys by (simp add: schema_keys_def)
    with r keys sort_key_agrees [OF keys(2)] matches_fits [OF r(5)] show ?thesis
      by (simp add: sound_record_def schemas_of_def wf_head_def readable_def accepted_def head_row_def)
  qed (use that in \<open>simp add: item_records_def\<close>)
  then show ?thesis using segment_items_sound [of m buf crc] by (auto simp: segment_records_def list_all_iff)
qed

section \<open>The loop over the segments\<close>

text \<open>The directories of the layout are apart.\<close>

lemmas layout_defs = run_path_def runs_dir_def RUNS_DIR_def segment_path_def corrupt_path_def wal_dir_def WAL_DIR_def
  reject_path_def rejects_dir_def REJECTS_DIR_def

lemma paths_apart [simp]:
  "run_path n \<noteq> segment_path i" "run_path n \<noteq> corrupt_path i" "run_path n \<noteq> reject_path i"
  "reject_path i \<noteq> segment_path j" "reject_path i \<noteq> corrupt_path j"
  by (simp_all add: layout_defs lit_def)

declare paths_apart [symmetric, simp]

lemma paths_apart_ranges [simp]:
  "segment_path i \<notin> range run_path" "corrupt_path i \<notin> range run_path" "segment_path i \<notin> range reject_path" "corrupt_path i \<notin> range reject_path"
  "run_path n \<notin> range reject_path" "run_path n \<notin> range segment_path" "run_path n \<notin> range corrupt_path"
  using paths_apart by (metis imageE)+

lemma corrupt_path_inject [simp]: "corrupt_path i = corrupt_path j \<longleftrightarrow> i = j"
  by (simp add: corrupt_path_def corrupt_name_inject)


definition all_records :: "(bytes \<Rightarrow> u32) \<Rightarrow> Manifest \<Rightarrow> (u64 \<times> bytes) list \<Rightarrow> (GroupKey \<times> Head) list" where
  "all_records crc m cs = concat (map (\<lambda>(i, buf). segment_records crc m i buf) cs)"

lemma all_records_sound: "r \<in> set (all_records crc m cs) \<Longrightarrow> sound_record m r"
  using segment_records_sound by (auto simp: all_records_def)

lemma all_records_inj:
  assumes "distinct (map fst cs)" "\<forall>x\<in>set cs. length (snd x) < 2 ^ 32"
  shows "inj_on record_key (set (all_records crc m cs))"
proof -
  have "distinct (map (\<lambda>r. hd_arrival (snd r)) (all_records crc m cs)) \<and> (\<forall>r\<in>set (all_records crc m cs). fst (hd_arrival (snd r)) \<in> fst ` set cs)"
    using assms
  proof (induction cs)
    case (Cons x cs)
    obtain i buf where x: "x = (i, buf)" by (cases x)
    have "length buf < 2 ^ 32" using Cons.prems(2) x by simp
    note seg = segment_records_arrivals [OF this, of crc m i]
    have IH: "distinct (map (\<lambda>r. hd_arrival (snd r)) (all_records crc m cs))" "\<forall>r\<in>set (all_records crc m cs). fst (hd_arrival (snd r)) \<in> fst ` set cs"
      using Cons by simp_all
    have all: "all_records crc m (x # cs) = segment_records crc m i buf @ all_records crc m cs" by (simp add: all_records_def x)
    have "i \<notin> fst ` set cs" using Cons.prems(1) x by simp
    then have "hd_arrival (snd r) \<noteq> hd_arrival (snd r')" if "r \<in> set (segment_records crc m i buf)" "r' \<in> set (all_records crc m cs)" for r r'
      using seg(2) IH(2) that by fastforce
    then have "set (map (\<lambda>r. hd_arrival (snd r)) (segment_records crc m i buf)) \<inter> set (map (\<lambda>r. hd_arrival (snd r)) (all_records crc m cs)) = {}"
      unfolding set_map by blast
    with seg(1) IH(1) have "distinct (map (\<lambda>r. hd_arrival (snd r)) (all_records crc m (x # cs)))" unfolding all map_append distinct_append by blast
    moreover have "\<forall>r\<in>set (all_records crc m (x # cs)). fst (hd_arrival (snd r)) \<in> fst ` set (x # cs)"
      unfolding all set_append using seg(2) IH(2) x by (simp add: ball_Un)
    ultimately show ?case ..
  qed (simp add: all_records_def)
  then show ?thesis by (auto simp: distinct_map inj_on_def record_key_def head_key_def)
qed

definition aside :: "(path \<rightharpoonup> bytes) \<Rightarrow> (path \<rightharpoonup> bytes) \<Rightarrow> u64 \<Rightarrow> bool" where
  "aside c0 c j \<longleftrightarrow> (\<exists>bs. c0 (segment_path j) = Some bs \<and> isl (parse_segment_header bs) \<and> c (segment_path j) = None \<and> c (corrupt_path j) = Some bs)"

definition held :: "(path \<rightharpoonup> bytes) \<Rightarrow> (path \<rightharpoonup> bytes) \<Rightarrow> u64 \<Rightarrow> bool" where
  "held c0 c j \<longleftrightarrow> c (segment_path j) = c0 (segment_path j) \<and> c (corrupt_path j) = c0 (corrupt_path j) \<or> aside c0 c j"

text \<open>What the first phase leaves of the files: \<open>wal/\<close> as it was but for quarantined segments, \<open>rejects/\<close> and \<open>runs/\<close> apart.\<close>

definition wal_kept :: "(path \<rightharpoonup> bytes) \<Rightarrow> (path \<rightharpoonup> bytes) \<Rightarrow> bool" where
  "wal_kept c0 c \<longleftrightarrow> (\<forall>j. held c0 c j) \<and>
     outside (range run_path \<union> range reject_path \<union> range segment_path \<union> range corrupt_path) c0 c"

definition taken_files :: "(path \<rightharpoonup> bytes) \<Rightarrow> u64 list \<Rightarrow> u64 list \<Rightarrow> (u64 \<times> bytes) list \<Rightarrow> (path \<rightharpoonup> bytes) \<Rightarrow> bool" where
  "taken_files c0 taken left cs c \<longleftrightarrow>
     wal_kept c0 c \<and> (\<forall>j\<in>set taken. j \<in> fst ` set cs \<or> aside c0 c j) \<and>
     (\<forall>j\<in>set left. c (segment_path j) = c0 (segment_path j)) \<and>
     (\<forall>x\<in>set cs. c0 (segment_path (fst x)) = Some (snd x) \<and> \<not> isl (parse_segment_header (snd x)) \<and> length (snd x) < 2 ^ 32) \<and>
     subseq (map fst cs) taken"

definition taken_state :: "(bytes \<Rightarrow> u32) \<Rightarrow> Manifest \<Rightarrow> (u64 \<times> bytes) list \<Rightarrow> Phase1 \<Rightarrow> bool" where
  "taken_state crc m cs st \<longleftrightarrow>
     ph_consumed st = map fst cs \<and> ph_rows st = length (all_records crc m cs) \<and>
     wf_batch (ph_batch st) \<and> set (groups (ph_batch st)) \<subseteq> schemas_of m \<and>
     (\<forall>g ks. ph_schemas st g = Some ks \<longrightarrow> ks = schema_keys m g) \<and> fst ` set (all_records crc m cs) \<subseteq> dom (ph_schemas st)"

definition runs_hold :: "(GroupKey \<times> Head) list \<Rightarrow> Spill \<Rightarrow> Batch \<Rightarrow> (path \<rightharpoonup> bytes) \<Rightarrow> bool" where
  "runs_hold R sp b c \<longleftrightarrow>
     (\<exists>F. gathered F R (spl_groups sp) (later (spl_next sp)) (batch_records b) (deduplicated b) \<and> (\<forall>g. hold F (run_of (spl_groups sp) g) c))"

definition decoded_all ::
  "(bytes \<Rightarrow> u32) \<Rightarrow> Manifest \<Rightarrow> (path \<rightharpoonup> bytes) \<Rightarrow> u64 list \<Rightarrow> u64 list \<Rightarrow> (u64 \<times> bytes) list \<Rightarrow> Phase1 \<Rightarrow> (path \<rightharpoonup> bytes) \<Rightarrow> bool" where
  "decoded_all crc m c0 taken left cs st c \<longleftrightarrow>
     taken_files c0 taken left cs c \<and> taken_state crc m cs st \<and> runs_hold (all_records crc m cs) (ph_spill st) (ph_batch st) c"

lemma runs_hold_cong:
  assumes "runs_hold R sp b c" "\<And>n. c' (run_path n) = c (run_path n)" shows "runs_hold R sp b c'"
proof -
  obtain F where F: "gathered F R (spl_groups sp) (later (spl_next sp)) (batch_records b) (deduplicated b)" "\<forall>g. hold F (run_of (spl_groups sp) g) c"
    using assms(1) unfolding runs_hold_def by blast
  have "hold F (run_of (spl_groups sp) g) c'" for g
  proof -
    have "gathered_group F (of_group g R) (run_of (spl_groups sp) g) (later (spl_next sp)) (of_group g (batch_records b))" using F(1) unfolding gathered_def by blast
    then have "set (run_of (spl_groups sp) g) \<subseteq> range run_path" unfolding gathered_group_def by blast
    then show ?thesis using F(2) assms(2) unfolding hold_def by force
  qed
  with F(1) show ?thesis unfolding runs_hold_def by blast
qed

lemma taken_files_cong:
  assumes "taken_files c0 taken left cs c" "\<And>j. c' (segment_path j) = c (segment_path j)" "\<And>j. c' (corrupt_path j) = c (corrupt_path j)"
    "outside (range run_path \<union> range reject_path) c c'"
  shows "taken_files c0 taken left cs c'"
proof -
  have as: "aside c0 c' j \<longleftrightarrow> aside c0 c j" "held c0 c' j \<longleftrightarrow> held c0 c j" for j by (simp_all add: aside_def held_def assms(2,3))
  have "wal_kept c0 c'" using assms(1,4) by (auto simp: taken_files_def wal_kept_def as outside_def)
  with assms(1) show ?thesis by (simp add: taken_files_def as assms(2))
qed

text \<open>Spilling keeps the records.\<close>

lemma pool_subset:
  assumes "gathered F R xs N pool dropped" shows "set pool \<subseteq> set R"
proof
  fix r assume r: "r \<in> set pool"
  have "gathered_group F (of_group (fst r) R) (run_of xs (fst r)) N (of_group (fst r) pool)" using assms unfolding gathered_def by blast
  then have "set (of_group (fst r) pool) \<subseteq> set (of_group (fst r) R)" by (auto simp: gathered_group_def reduces_def)
  moreover have "snd r \<in> set (of_group (fst r) pool)" using r by (auto simp: of_group_def)
  ultimately have "snd r \<in> set (of_group (fst r) R)" by blast
  then show "r \<in> set R" by (auto simp: of_group_def prod_eq_iff)
qed

lemma grouped_sorted: "x \<in> set (grouped rs) \<Longrightarrow> sorted (map head_key (snd x))"
  by (auto simp: grouped_def sorted_first_arrivals)

lemma subseq_keeps_distinct: "subseq xs ys \<Longrightarrow> distinct ys \<Longrightarrow> distinct xs"
  by (induction rule: list_emb.induct) (auto dest: list_emb_set)

lemma spill_gathered:
  assumes gat: "gathered F R (spl_groups sp) (later (spl_next sp)) (batch_records b) (deduplicated b)" "\<And>g. hold F (run_of (spl_groups sp) g) c1"
    and b: "wf_batch b" "inj_on record_key (set (batch_records b))"
    and out: "runs.spilled c1 (spl_next sp) (grouped (batch_records b)) out n c"
  shows "\<exists>F'. gathered F' R (fold push_run out (spl_groups sp)) (later n) [] (deduplicated (batch_sort b)) \<and> (\<forall>g. hold F' (run_of (fold push_run out (spl_groups sp)) g) c)"
proof -
  note s = out [unfolded runs.spilled_def, folded later_def]
  have keep: "hold F (run_of (spl_groups sp) g) c" for g
  proof -
    have "gathered_group F (of_group g R) (run_of (spl_groups sp) g) (later (spl_next sp)) (of_group g (batch_records b))" using gat(1) unfolding gathered_def by blast
    then show ?thesis using gat(2) [of g] s by (auto simp: gathered_group_def hold_def outside_def)
  qed
  have names: "set (map snd out) \<subseteq> later (spl_next sp) \<inter> range run_path" using s by (auto simp: later_def)
  have "\<exists>F'. gathered F' R (fold push_run out (spl_groups sp)) (later (spl_next sp) - set (map snd out)) [] (deduplicated (batch_sort b)) \<and>
      (\<forall>g. hold F' (run_of (fold push_run out (spl_groups sp)) g) c)"
    by (rule gathered_moves [OF _ _ _ gathered_sort [OF gat(1) b] names keep]) (use s grouped_sorted in auto)
  moreover have "later n \<subseteq> later (spl_next sp) - set (map snd out)" using s by blast
  ultimately show ?thesis using gathered_fewer by blast
qed

lemma wal_kept_runs: "wal_kept c0 c1 \<Longrightarrow> outside (range run_path) c1 c \<Longrightarrow> wal_kept c0 c"
  unfolding wal_kept_def held_def aside_def outside_def by simp

lemma decoded_all_spilled:
  assumes c1: "decoded_all crc m c0 taken left cs st c1"
    and F: "gathered F (all_records crc m cs) (spl_groups (ph_spill st)) (later (spl_next (ph_spill st))) (batch_records (ph_batch st)) (deduplicated (ph_batch st))"
      "\<And>g. hold F (run_of (spl_groups (ph_spill st)) g) c1"
    and b: "wf_batch (ph_batch st)" "inj_on record_key (set (batch_records (ph_batch st)))"
    and out: "runs.spilled c1 (spl_next (ph_spill st)) (grouped (batch_records (ph_batch st))) out n c"
  shows "decoded_all crc m c0 taken left cs (st\<lparr>ph_batch := batch_default\<lparr>deduplicated := deduplicated (batch_sort (ph_batch st))\<rparr>,
      ph_spill := (ph_spill st)\<lparr>spl_next := n, spl_groups := fold push_run out (spl_groups (ph_spill st))\<rparr>\<rparr>) c"
proof -
  have only: "outside (range run_path) c1 c"
    by (rule outside_weaken [of "later (spl_next (ph_spill st))"]) (use out in \<open>auto simp: runs.spilled_def later_def\<close>)
  have "taken_files c0 taken left cs c"
    by (rule taken_files_cong [of c0 taken left cs c1]) (use c1 only in \<open>auto simp: decoded_all_def outside_def\<close>)
  moreover have "runs_hold (all_records crc m cs) ((ph_spill st)\<lparr>spl_next := n, spl_groups := fold push_run out (spl_groups (ph_spill st))\<rparr>)
      (batch_default\<lparr>deduplicated := deduplicated (batch_sort (ph_batch st))\<rparr>) c"
    using spill_gathered [OF F b out] by (simp add: runs_hold_def batch_default_def batch_records_def)
  ultimately show ?thesis
    using c1 by (simp add: decoded_all_def taken_state_def wf_batch_def batch_default_def)
qed

lemma spill_spill_triple:
  assumes taken: "distinct taken"
  shows "triple (at k (decoded_all crc m c0 taken left cs st)) (spill_spill (ph_batch st) (ph_spill st) :: ('m, Batch \<times> Spill) eio)
    (\<lambda>(batch, spill). at k (decoded_all crc m c0 taken left cs (st\<lparr>ph_batch := batch, ph_spill := spill\<rparr>)))
    (\<lambda>_. at k (\<lambda>c. wal_kept c0 c \<and> \<not> k))"
proof (rule triple_at_fix)
  fix c1 assume c1: "decoded_all crc m c0 taken left cs st c1"
  let ?b = "ph_batch st" and ?sp = "ph_spill st" and ?R = "all_records crc m cs"
  have cs: "distinct (map fst cs)" "\<forall>x\<in>set cs. length (snd x) < 2 ^ 32"
    using c1 by (auto simp: decoded_all_def taken_files_def intro: subseq_keeps_distinct [OF _ taken])
  obtain F where F: "gathered F ?R (spl_groups ?sp) (later (spl_next ?sp)) (batch_records ?b) (deduplicated ?b)" "\<forall>g. hold F (run_of (spl_groups ?sp) g) c1"
    using c1 by (auto simp: decoded_all_def runs_hold_def)
  have b: "wf_batch ?b" "inj_on record_key (set (batch_records ?b))"
    using c1 inj_on_subset [OF all_records_inj [OF cs] pool_subset [OF F(1)]] by (simp_all add: decoded_all_def taken_state_def)
  have kept: "wal_kept c0 c1" using c1 by (simp add: decoded_all_def taken_files_def)
  have lost: "wal_kept c0 c" if "outside (later (spl_next ?sp)) c1 c" for c
    by (rule wal_kept_runs [OF kept]) (use that in \<open>auto simp: outside_def later_def\<close>)
  have spill: "triple (at k (\<lambda>c. c = c1)) (batch_spill next_path ?b (spl_next ?sp) :: ('m, _) eio)
      (\<lambda>(out, b', n). at k (\<lambda>c. runs.spilled c1 (spl_next ?sp) (grouped (batch_records ?b)) out n c \<and>
        b' = batch_default\<lparr>deduplicated := deduplicated (batch_sort ?b)\<rparr>))
      (\<lambda>_. at k (\<lambda>c. wal_kept c0 c \<and> \<not> k))"
    by (rule triple_conseq [OF runs.batch_spill_triple [OF b]]) (use lost in \<open>auto simp: at_def later_def\<close>)
  have mk: "triple (at k (\<lambda>c. c = c1)) (lift_io (fs_mkdir runs_dir) :: ('m, unit) eio) (\<lambda>_. at k (\<lambda>c. c = c1)) (\<lambda>_. at k (\<lambda>c. wal_kept c0 c \<and> \<not> k))"
    by (rule triple_lift_io, rule triple_conseq [OF quiet_triples(3) [where Q = "\<lambda>_ c. c = c1" and E = "\<lambda>_ c. c = c1 \<and> \<not> k"]]) (use kept in \<open>auto simp: at_def\<close>)
  have fin: "decoded_all crc m c0 taken left cs (st\<lparr>ph_batch := batch_default\<lparr>deduplicated := deduplicated (batch_sort ?b)\<rparr>,
      ph_spill := ?sp\<lparr>spl_next := n, spl_groups := fold push_run out (spl_groups ?sp)\<rparr>\<rparr>) c"
    if "runs.spilled c1 (spl_next ?sp) (grouped (batch_records ?b)) out n c" for out n c
    by (rule decoded_all_spilled [OF c1 F(1) _ b that]) (use F(2) in blast)
  show "triple (at k (\<lambda>c. c = c1)) (spill_spill ?b ?sp :: ('m, Batch \<times> Spill) eio)
    (\<lambda>(batch, spill). at k (decoded_all crc m c0 taken left cs (st\<lparr>ph_batch := batch, ph_spill := spill\<rparr>)))
    (\<lambda>_. at k (\<lambda>c. wal_kept c0 c \<and> \<not> k))"
    unfolding spill_spill_def
    by (rule triple_seq [OF mk], rule triple_seq [OF spill]) (use fin in \<open>auto simp: triple_def at_def split_beta\<close>)
qed

text \<open>The steps of the loop: a segment is quarantined, or its records are taken over.\<close>

lemma decoded_all_cong:
  assumes "ph_spill st' = ph_spill st" "ph_batch st' = ph_batch st" "ph_consumed st' = ph_consumed st" "ph_rows st' = ph_rows st" "ph_schemas st' = ph_schemas st"
  shows "decoded_all crc m c0 taken left cs st' c = decoded_all crc m c0 taken left cs st c"
  using assms by (simp add: decoded_all_def taken_state_def)

lemma decoded_all_beside: "beside_rejects (decoded_all crc m c0 taken left cs st)"
  unfolding beside_rejects_def decoded_all_def
  by (auto intro: runs_hold_cong taken_files_cong simp: outside_def)

lemma decoded_all_aside:
  assumes d: "decoded_all crc m c0 taken (i # left) cs st c'" "c' (segment_path i) = Some buf" and new: "i \<notin> set left" and bad: "isl (parse_segment_header buf)"
  shows "decoded_all crc m c0 (taken @ [i]) left cs st (moved_aside i buf c')"
proof -
  let ?c = "moved_aside i buf c'"
  note f = d(1) [unfolded decoded_all_def taken_files_def]
  have i: "c0 (segment_path i) = Some buf" using f d(2) by auto
  then have as: "aside c0 ?c i" using bad by (simp add: aside_def moved_aside_def)
  have other: "?c (segment_path j) = c' (segment_path j)" "?c (corrupt_path j) = c' (corrupt_path j)" if "j \<noteq> i" for j
    using that by (auto simp: moved_aside_def)
  have aside: "aside c0 ?c j" if "aside c0 c' j" for j using that as other by (cases "j = i") (simp_all add: aside_def)
  have "held c0 ?c j" for j using f as other by (cases "j = i") (auto simp: wal_kept_def held_def aside_def)
  moreover have "outside (range run_path \<union> range reject_path \<union> range segment_path \<union> range corrupt_path) c0 ?c"
    using f by (auto simp: wal_kept_def outside_def moved_aside_def)
  ultimately have "wal_kept c0 ?c" by (simp add: wal_kept_def)
  moreover have "\<forall>j\<in>set left. ?c (segment_path j) = c0 (segment_path j)" using f other(1) new by (metis list.set_intros(2))
  moreover have "subseq (map fst cs) (taken @ [i])" using f by (auto intro: subseq_order.trans)
  moreover have "\<forall>j\<in>set (taken @ [i]). j \<in> fst ` set cs \<or> aside c0 ?c j" using f aside as by auto
  ultimately have "taken_files c0 (taken @ [i]) left cs ?c" using f unfolding taken_files_def by blast
  moreover have "runs_hold (all_records crc m cs) (ph_spill st) (ph_batch st) ?c"
    by (rule runs_hold_cong [of _ _ _ c']) (use f in \<open>auto simp: moved_aside_def\<close>)
  ultimately show ?thesis using f by (simp add: decoded_all_def)
qed

lemma decoded_all_consumed:
  assumes d: "decoded_all crc m c0 taken (i # left) cs st c" "c (segment_path i) = Some buf" "length buf < 2 ^ 32"
    and dg: "decoding_upto m i buf (ph_batch st) (segment_items crc m buf) dg" "\<not> isl (parse_segment_header buf)"
  shows "decoded_all crc m c0 (taken @ [i]) left (cs @ [(i, buf)]) (note_consumed i (dg_out dg) (note_decoded dg st)) c"
proof -
  let ?rs = "segment_records crc m i buf" and ?st = "note_consumed i (dg_out dg) (note_decoded dg st)"
  note t = d(1) [unfolded decoded_all_def taken_files_def taken_state_def]
  have R: "all_records crc m (cs @ [(i, buf)]) = all_records crc m cs @ ?rs" by (simp add: all_records_def)
  have up: "wf_batch (dg_batch dg)" "set (groups (dg_batch dg)) \<subseteq> schemas_of m" "deduplicated (dg_batch dg) = deduplicated (ph_batch st)"
    "batch_records (dg_batch dg) = batch_records (ph_batch st) @ ?rs" "dc_rows (dg_out dg) = length ?rs"
    "cache_sound m (dc_schemas (dg_out dg))" "fst ` set ?rs \<subseteq> fst ` set (dc_schemas (dg_out dg))"
    using dg(1) by (simp_all add: decoding_upto_def Let_def segment_records_def)
  have "taken_files c0 (taken @ [i]) left (cs @ [(i, buf)]) c"
    using t d(2,3) dg(2) unfolding taken_files_def by (simp add: list_emb_append_mono)
  moreover have "ks = schema_keys m g" if "(ph_schemas st ++ map_of (dc_schemas (dg_out dg))) g = Some ks" for g ks
  proof (cases "map_of (dc_schemas (dg_out dg)) g")
    case None
    then have "ph_schemas st g = Some ks" using that by (simp add: map_add_def)
    then show ?thesis using t by blast
  next
    case (Some ks')
    then have "(g, ks) \<in> set (dc_schemas (dg_out dg))" using that by (simp add: map_add_def map_of_SomeD)
    then show ?thesis using up(6) by (auto simp: cache_sound_def)
  qed
  moreover have "fst ` set (all_records crc m cs @ ?rs) \<subseteq> dom (ph_schemas st ++ map_of (dc_schemas (dg_out dg)))"
    using t up(7) by (simp add: dom_map_of_conv_image_fst image_Un le_supI1 le_supI2)
  ultimately have "taken_files c0 (taken @ [i]) left (cs @ [(i, buf)]) c" "taken_state crc m (cs @ [(i, buf)]) ?st"
    using t up unfolding taken_state_def R by (simp_all add: note_consumed_def note_decoded_def)
  moreover have "runs_hold (all_records crc m (cs @ [(i, buf)])) (ph_spill ?st) (ph_batch ?st) c"
  proof -
    obtain F where F: "gathered F (all_records crc m cs) (spl_groups (ph_spill st)) (later (spl_next (ph_spill st))) (batch_records (ph_batch st)) (deduplicated (ph_batch st))"
      "\<forall>g. hold F (run_of (spl_groups (ph_spill st)) g) c"
      using t unfolding runs_hold_def by blast
    with gathered_add [OF F(1), of ?rs] show ?thesis
      unfolding runs_hold_def R by (intro exI [of _ F]) (simp add: note_consumed_def note_decoded_def up(3,4))
  qed
  ultimately show ?thesis by (simp add: decoded_all_def)
qed

text \<open>How the loop ends: every segment tried was taken over or is aside; all were tried if nothing is refused.\<close>

definition decoded :: "(bytes \<Rightarrow> u32) \<Rightarrow> Manifest \<Rightarrow> bool \<Rightarrow> (path \<rightharpoonup> bytes) \<Rightarrow> u64 list \<Rightarrow> Phase1 \<Rightarrow> (path \<rightharpoonup> bytes) \<Rightarrow> bool" where
  "decoded crc m k c0 ids st c \<longleftrightarrow>
     (\<exists>taken cs. decoded_all crc m c0 taken [] cs st c \<and> prefix taken ids \<and> (k \<longrightarrow> taken = ids))"

definition undecoded :: "bool \<Rightarrow> (path \<rightharpoonup> bytes) \<Rightarrow> u64 list \<Rightarrow> (path \<rightharpoonup> bytes) \<Rightarrow> bool" where
  "undecoded k c0 ids c \<longleftrightarrow> wal_kept c0 c \<and> (\<not> k \<or> (\<exists>i\<in>set ids. c0 (segment_path i) = None))"

lemma decoded_all_left: "decoded_all crc m c0 taken left cs st c \<Longrightarrow> decoded_all crc m c0 taken [] cs st c"
  by (simp add: decoded_all_def taken_files_def)

lemma taken_kept: "decoded_all crc m c0 taken left cs st c \<Longrightarrow> wal_kept c0 c"
  by (simp add: decoded_all_def taken_files_def)

lemma wal_kept_aside:
  assumes "wal_kept c0 c'" "c' (segment_path i) = Some buf" "c0 (segment_path i) = Some buf" "isl (parse_segment_header buf)"
  shows "wal_kept c0 (moved_aside i buf c')"
proof -
  have "held c0 (moved_aside i buf c') j" for j
    using assms by (cases "j = i") (auto simp: wal_kept_def held_def aside_def moved_aside_def)
  moreover have "outside (range run_path \<union> range reject_path \<union> range segment_path \<union> range corrupt_path) c0 (moved_aside i buf c')"
    using assms(1) by (auto simp: wal_kept_def outside_def moved_aside_def)
  ultimately show ?thesis by (simp add: wal_kept_def)
qed

lemma read_segment_triple:
  "triple (at k (decoded_all crc m c0 taken (i # left) cs st)) (read_segment_into (segment_path i) :: ('m, bytes) eio)
    (\<lambda>buf. at k (\<lambda>c. decoded_all crc m c0 taken (i # left) cs st c \<and> c (segment_path i) = Some buf))
    (\<lambda>_. at k (\<lambda>c. wal_kept c0 c \<and> (\<not> k \<or> c0 (segment_path i) = None)))"
  unfolding read_segment_into_def
  by (rule triple_lift_io, rule triple_at_pre [OF fs_read_triple])
    (auto simp: decoded_all_def taken_files_def)

text \<open>What follows a decoded segment, the rest of the loop being \<open>rem\<close>.\<close>

definition after_segment :: "nat \<Rightarrow> u64 \<Rightarrow> bool \<Rightarrow> Phase1 \<Rightarrow> (Phase1 \<Rightarrow> ('m, Phase1) eio) \<Rightarrow> Decoding \<Rightarrow> ('m, Phase1) eio" where
  "after_segment budget i final st rem dg =
     (let st1 = note_decoded dg st in
      if dc_unreadable (dg_out dg) then
        if \<not> dc_quarantined (dg_out dg) then ok st1 else rem st1
      else
        let st2 = note_consumed i (dg_out dg) st1 in
        if budget \<le> batch_bytes (ph_batch st2) \<and> \<not> final then
          seq (spill_spill (ph_batch st2) (ph_spill st2)) (\<lambda>(batch, spill). rem (st2\<lparr>ph_batch := batch, ph_spill := spill\<rparr>))
        else rem st2)"

definition segment_done :: "(bytes \<Rightarrow> u32) \<Rightarrow> Manifest \<Rightarrow> bool \<Rightarrow> u64 \<Rightarrow> bytes \<Rightarrow> Batch \<Rightarrow> ((path \<rightharpoonup> bytes) \<Rightarrow> bool) \<Rightarrow> Decoding \<Rightarrow> (path \<rightharpoonup> bytes) \<Rightarrow> bool" where
  "segment_done crc m k i buf b R dg c \<longleftrightarrow>
     (if isl (parse_segment_header buf)
      then dc_unreadable (dg_out dg) \<and> dg_batch dg = b \<and>
        (if dc_quarantined (dg_out dg) then \<exists>c'. R c' \<and> c = moved_aside i buf c' else \<not> k \<and> (\<exists>c'. R c' \<and> (c = c' \<or> c = moved_aside i buf c')))
      else R c \<and> decoding_upto m i buf b (segment_items crc m buf) dg)"

lemma after_segment_triple:
  fixes rem :: "Phase1 \<Rightarrow> ('m, Phase1) eio"
  assumes rem: "\<And>cs' st'. triple (at k (decoded_all crc m c0 (taken @ [i]) rest cs' st')) (rem st') (\<lambda>st'. at k (decoded crc m k c0 (taken @ i # rest) st')) (\<lambda>_. at k (undecoded k c0 (i # rest)))"
    and buf: "length buf < 2 ^ 32" and ids: "distinct (taken @ i # rest)"
    and R: "R = (\<lambda>c. decoded_all crc m c0 taken (i # rest) cs st c \<and> c (segment_path i) = Some buf)"
  shows "triple (at k (segment_done crc m k i buf (ph_batch st) R dg)) (after_segment budget i final st rem dg)
    (\<lambda>st'. at k (decoded crc m k c0 (taken @ i # rest) st')) (\<lambda>_. at k (undecoded k c0 (i # rest)))"
proof (rule triple_at_fix)
  fix c1 assume c1: "segment_done crc m k i buf (ph_batch st) R dg c1"
  let ?Q = "\<lambda>st'. at k (decoded crc m k c0 (taken @ i # rest) st')" and ?E = "\<lambda>_. at k (undecoded k c0 (i # rest))"
  let ?st1 = "note_decoded dg st" let ?st2 = "note_consumed i (dg_out dg) ?st1"
  show "triple (at k (\<lambda>c. c = c1)) (after_segment budget i final st rem dg) ?Q ?E"
  proof (cases "isl (parse_segment_header buf)")
    case True
    with c1 have dg: "dc_unreadable (dg_out dg)" "dg_batch dg = ph_batch st" by (auto simp: segment_done_def)
    have st1: "decoded_all crc m c0 ts left cs ?st1 c = decoded_all crc m c0 ts left cs st c" for ts left c
      by (rule decoded_all_cong) (simp_all add: note_decoded_def dg(2))
    have aside: "decoded_all crc m c0 (taken @ [i]) rest cs ?st1 (moved_aside i buf c')" if "R c'" for c'
      using decoded_all_aside [OF _ _ _ True] that ids by (auto simp: R st1)
    show ?thesis
    proof (cases "dc_quarantined (dg_out dg)")
      case quarantined: True
      with c1 True have "decoded_all crc m c0 (taken @ [i]) rest cs ?st1 c1" using aside by (auto simp: segment_done_def)
      then show ?thesis
        unfolding after_segment_def Let_def using dg(1) quarantined by (auto intro: triple_at_pre [OF rem])
    next
      case False
      with c1 True obtain c' where c': "R c'" "c1 = c' \<or> c1 = moved_aside i buf c'" "\<not> k" by (auto simp: segment_done_def)
      have "decoded crc m k c0 (taken @ i # rest) ?st1 c1"
        using c'(2)
      proof
        assume "c1 = c'"
        then have "decoded_all crc m c0 taken [] cs ?st1 c1" using c'(1) decoded_all_left by (auto simp: R st1)
        then show ?thesis using c'(3) unfolding decoded_def by (intro exI [of _ taken] exI [of _ cs]) simp
      next
        assume "c1 = moved_aside i buf c'"
        then have "decoded_all crc m c0 (taken @ [i]) [] cs ?st1 c1" using decoded_all_left [OF aside [OF c'(1)]] by simp
        then show ?thesis using c'(3) unfolding decoded_def by (intro exI [of _ "taken @ [i]"] exI [of _ cs]) simp
      qed
      then show ?thesis unfolding after_segment_def Let_def using dg(1) False by (auto simp: triple_def at_def)
    qed
  next
    case False
    with c1 have dg: "decoding_upto m i buf (ph_batch st) (segment_items crc m buf) dg" "R c1" by (auto simp: segment_done_def)
    then have st2: "decoded_all crc m c0 (taken @ [i]) rest (cs @ [(i, buf)]) ?st2 c1"
      using decoded_all_consumed [OF _ _ buf dg(1) False] by (simp add: R)
    have spill: "triple (at k (\<lambda>c. c = c1)) (spill_spill (ph_batch ?st2) (ph_spill ?st2) :: ('m, Batch \<times> Spill) eio)
        (\<lambda>(batch, spill). at k (decoded_all crc m c0 (taken @ [i]) rest (cs @ [(i, buf)]) (?st2\<lparr>ph_batch := batch, ph_spill := spill\<rparr>))) ?E"
      by (rule triple_conseq [OF spill_spill_triple [where st = ?st2]]) (use ids st2 in \<open>auto simp: at_def undecoded_def\<close>)
    have "\<not> dc_unreadable (dg_out dg)" using dg(1) by (simp add: decoding_upto_def Let_def)
    moreover have "triple (at k (\<lambda>c. c = c1)) (rem ?st2) ?Q ?E" by (rule triple_at_pre [OF rem]) (use st2 in simp)
    moreover have "triple (at k (\<lambda>c. c = c1)) (seq (spill_spill (ph_batch ?st2) (ph_spill ?st2)) (\<lambda>(batch, spill). rem (?st2\<lparr>ph_batch := batch, ph_spill := spill\<rparr>))) ?Q ?E"
      by (rule triple_seq [OF spill]) (simp only: split_paired_all prod.case rem)
    ultimately show ?thesis unfolding after_segment_def Let_def by simp
  qed
qed

lemma decode_all_triple:
  assumes m: "flushable m" and small: "\<forall>i\<in>set left. \<forall>bs. c0 (segment_path i) = Some bs \<longrightarrow> length bs < 2 ^ 32" and ids: "distinct (taken @ left)"
  shows "triple (at k (decoded_all crc m c0 taken left cs st)) (decode_all crc m budget left st :: ('m, Phase1) eio)
    (\<lambda>st'. at k (decoded crc m k c0 (taken @ left) st')) (\<lambda>_. at k (undecoded k c0 left))"
  using small ids
proof (induction left arbitrary: taken cs st)
  case Nil
  then show ?case by (auto simp: triple_def at_def decoded_def)
next
  case (Cons i rest)
  let ?Q = "\<lambda>st'. at k (decoded crc m k c0 (taken @ i # rest) st')" and ?E = "\<lambda>_. at k (undecoded k c0 (i # rest))"
  have rem: "triple (at k (decoded_all crc m c0 (taken @ [i]) rest cs' st')) (decode_all crc m budget rest st' :: ('m, Phase1) eio) ?Q ?E" for cs' st'
    by (rule triple_conseq [OF Cons.IH [of "taken @ [i]"]]) (use Cons.prems in \<open>auto simp: at_def undecoded_def\<close>)
  have read: "triple (at k (decoded_all crc m c0 taken (i # rest) cs st)) (read_segment_into (segment_path i) :: ('m, bytes) eio)
      (\<lambda>buf. at k (\<lambda>c. decoded_all crc m c0 taken (i # rest) cs st c \<and> c (segment_path i) = Some buf)) ?E"
    by (rule triple_conseq [OF read_segment_triple]) (auto simp: at_def undecoded_def)
  have body: "triple (at k (\<lambda>c. decoded_all crc m c0 taken (i # rest) cs st c \<and> c (segment_path i) = Some buf))
      (seq (decode_segment crc m i buf (ph_rejects st) (ph_batch st)) (after_segment budget i (rest = []) st (decode_all crc m budget rest)) :: ('m, Phase1) eio) ?Q ?E" for buf
  proof (rule triple_at_fix)
    let ?R = "\<lambda>c. decoded_all crc m c0 taken (i # rest) cs st c \<and> c (segment_path i) = Some buf"
    fix c1 assume c1: "?R c1"
    have buf: "length buf < 2 ^ 32" using c1 Cons.prems(1) by (auto simp: decoded_all_def taken_files_def)
    have b: "wf_batch (ph_batch st)" "set (groups (ph_batch st)) \<subseteq> schemas_of m" using c1 by (auto simp: decoded_all_def taken_state_def)
    have R: "beside_rejects ?R" using decoded_all_beside [of crc m c0 taken "i # rest" cs st] by (auto simp: beside_rejects_def outside_def)
    have dec: "triple (at k (\<lambda>c. c = c1)) (decode_segment crc m i buf (ph_rejects st) (ph_batch st) :: ('m, Decoding) eio)
        (\<lambda>dg. at k (segment_done crc m k i buf (ph_batch st) ?R dg)) ?E"
      by (rule triple_conseq [OF decode_segment_triple [OF R m buf b]]) (use c1 in \<open>auto simp: at_def segment_done_def\<close>)
    show "triple (at k (\<lambda>c. c = c1)) (seq (decode_segment crc m i buf (ph_rejects st) (ph_batch st)) (after_segment budget i (rest = []) st (decode_all crc m budget rest)) :: ('m, Phase1) eio) ?Q ?E"
      by (rule triple_seq [OF dec], rule after_segment_triple [OF rem buf _ refl]) (use Cons.prems(2) in simp)
  qed
  have eq: "decode_all crc m budget (i # rest) st = (seq (read_segment_into (segment_path i)) (\<lambda>buf.
      seq (decode_segment crc m i buf (ph_rejects st) (ph_batch st)) (after_segment budget i (rest = []) st (decode_all crc m budget rest))) :: ('m, Phase1) eio)"
    by (simp add: after_segment_def [abs_def])
  show ?case unfolding eq by (rule triple_seq [OF read body])
qed

end
