(* ===== verification/Orc_Flush.thy ===== *)
theory Orc_Flush
  imports Orc_Decoding
begin

text \<open>
  The flush as a whole (\<open>run\<close> of \<open>src/src/flush/planner.rs\<close>): what the first phase gathered is
  what the second stores, the commit comes after everything is stored and before anything is
  deleted, and so no record is lost whatever call is refused.
\<close>

section \<open>From the first phase to the second\<close>

lemma first_arrivals_nonempty: "hs \<noteq> [] \<Longrightarrow> first_arrivals hs \<noteq> []"
proof -
  assume hs: "hs \<noteq> []"
  let ?k = "Min (head_key ` set hs)"
  have "?k \<in> head_key ` set hs" using hs by (intro Min_in) auto
  then obtain h where h: "h \<in> set hs" "head_key h = ?k" by auto
  have "head_key h \<le> head_key h'" if "h' \<in> set hs" for h' using that h(2) by simp
  then have "first_of (set hs) h" by (fastforce simp: first_of_def head_key_split)
  with h(1) have "h \<in> set (first_arrivals hs)" by simp
  then show ?thesis by (metis empty_iff empty_set)
qed

lemma run_of_start: "runs_of (staging_start st) g = run_of (spl_groups (ph_spill st)) g"
  by (simp add: runs_of_def run_of_def staging_start_def)

text \<open>The share of a group in the last batch.\<close>

definition batch_share :: "Batch \<Rightarrow> GroupKey \<Rightarrow> Head list" where
  "batch_share b g = of_group g (pooled (grouped (batch_records b)))"

lemma list_all2_map_of:
  "list_all2 (\<lambda>(k, v) (k', w). k = k' \<and> P v w) xs ys \<Longrightarrow>
     rel_option P (map_of xs g) (map_of ys g)"
  by (induction rule: list_all2_induct) auto

lemma share_mem_heads:
  assumes "wf_batch (ph_batch st)" "inj_on record_key (set (batch_records (ph_batch st)))"
  shows "runs.mem_heads (memory_of (staging_start st) g) (batch_share (ph_batch st) g)"
proof -
  let ?b = "ph_batch st" let ?rs = "batch_records ?b"
  have rel: "rel_option mem_holds (map_of (fst (into_sources ?b)) g) (map_of (grouped ?rs) g)"
    by (rule list_all2_map_of [OF into_sources_grouped [OF assms]])
  have share: "batch_share ?b g = (case map_of (grouped ?rs) g of None \<Rightarrow> [] | Some hs \<Rightarrow> hs)"
    unfolding batch_share_def by (rule of_group_pooled) (simp add: grouped_keys)
  show ?thesis
  proof (cases "map_of (grouped ?rs) g")
    case None
    with rel share show ?thesis by (simp add: runs.mem_heads_def memory_of_def staging_start_def)
  next
    case (Some hs)
    then have "(g, hs) \<in> set (grouped ?rs)" by (rule map_of_SomeD)
    then have hs: "g \<in> fst ` set ?rs" "hs = first_arrivals (of_group g ?rs)" by (auto simp: grouped_def of_group_def)
    then have "of_group g ?rs \<noteq> []" by (auto simp: of_group_def filter_empty_conv)
    with hs have "hs \<noteq> []" "sorted (map head_key hs)" using first_arrivals_nonempty sorted_first_arrivals by auto
    with rel share Some show ?thesis
      by (auto simp: runs.mem_heads_def memory_of_def staging_start_def option_rel_Some2)
  qed
qed

text \<open>What the end of the first phase gives: the sources are ready, and hold what was decoded.\<close>

definition group_records :: "(GroupKey \<times> Head) list \<Rightarrow> GroupKey \<Rightarrow> Head list" where
  "group_records R g = first_arrivals (of_group g R)"

definition sources_of :: "(path \<Rightarrow> Head list) \<Rightarrow> Phase1 \<Rightarrow> GroupKey \<Rightarrow> Head list" where
  "sources_of F st = arrived F (batch_share (ph_batch st)) (staging_start st)"

definition prepared :: "(bytes \<Rightarrow> u32) \<Rightarrow> Manifest \<Rightarrow> (u64 \<times> bytes) list \<Rightarrow> Phase1 \<Rightarrow> (path \<Rightarrow> Head list) \<Rightarrow> bool" where
  "prepared crc m cs st F \<longleftrightarrow>
     (let R = all_records crc m cs; A = sources_of F st in
      ready (keys_of (ph_schemas st)) F (batch_share (ph_batch st)) (staging_start st) \<and>
      (\<forall>g. first_arrivals (A g) = group_records R g \<and> set (A g) \<subseteq> set (of_group g R)) \<and>
      wf_batch (ph_batch st) \<and> inj_on record_key (set (batch_records (ph_batch st))) \<and>
      length R = deduplicated (batch_sort (ph_batch st)) + run_total F (spl_groups (ph_spill st)) + length (pooled (grouped (batch_records (ph_batch st)))) \<and>
      distinct (map fst (spl_groups (ph_spill st))))"

lemma in_of_group: "h \<in> set (of_group g R) \<longleftrightarrow> (g, h) \<in> set R"
  unfolding of_group_def by (rule in_group)

lemma known_schema:
  assumes "taken_state crc m cs st" "h \<in> set (of_group g (all_records crc m cs))"
  shows "keys_of (ph_schemas st) g = schema_keys m g"
proof -
  have "g \<in> fst ` set (all_records crc m cs)" using assms(2) by (force simp: in_of_group)
  then obtain ks where "ph_schemas st g = Some ks" using assms(1) unfolding taken_state_def by blast
  then show ?thesis using assms(1) by (simp add: taken_state_def keys_of_def)
qed

lemma prepared_group:
  assumes gat: "gathered F R (spl_groups (ph_spill st)) (later (spl_next (ph_spill st))) (pooled (grouped (batch_records (ph_batch st)))) dropped"
    and inj: "inj_on record_key (set R)"
  shows "set (sources_of F st g) \<subseteq> set (of_group g R)" "first_arrivals (sources_of F st g) = group_records R g"
    "inj_on head_key (set (of_group g R))" "gathered_group F (of_group g R) (run_of (spl_groups (ph_spill st)) g) (later (spl_next (ph_spill st))) (batch_share (ph_batch st) g)"
proof -
  show grp: "gathered_group F (of_group g R) (run_of (spl_groups (ph_spill st)) g) (later (spl_next (ph_spill st))) (batch_share (ph_batch st) g)"
    using gat unfolding gathered_def batch_share_def by blast
  then obtain d where d: "reduces (of_group g R) (sources_of F st g) d"
    by (auto simp: gathered_group_def sources_of_def arrived_def run_of_start)
  then show "set (sources_of F st g) \<subseteq> set (of_group g R)" by (simp add: reduces_def)
  show inj': "inj_on head_key (set (of_group g R))"
    using inj unfolding inj_on_def by (metis in_of_group prod.inject record_key_def fst_conv snd_conv)
  have "first_arrivals (sources_of F st g @ []) = first_arrivals (of_group g R @ [])"
    using d inj' unfolding reduces_def by (metis empty_set sup_bot.right_neutral)
  then show "first_arrivals (sources_of F st g) = group_records R g" by (simp add: group_records_def)
qed

lemma decoded_prepared:
  assumes d: "decoded_all crc m c0 taken left cs st c" and taken: "distinct taken"
  obtains F where "prepared crc m cs st F" "\<And>g. hold F (runs_of (staging_start st) g) c"
proof -
  let ?R = "all_records crc m cs" and ?b = "ph_batch st" and ?xs = "spl_groups (ph_spill st)"
  note t = d [unfolded decoded_all_def]
  have cs: "distinct (map fst cs)" "\<forall>x\<in>set cs. length (snd x) < 2 ^ 32"
    using t by (auto simp: taken_files_def intro: subseq_keeps_distinct [OF _ taken])
  note inj = all_records_inj [OF cs, of crc m]
  obtain F where F: "gathered F ?R ?xs (later (spl_next (ph_spill st))) (batch_records ?b) (deduplicated ?b)" "\<forall>g. hold F (run_of ?xs g) c"
    using t unfolding runs_hold_def by blast
  have b: "wf_batch ?b" "inj_on record_key (set (batch_records ?b))"
    using t inj_on_subset [OF inj pool_subset [OF F(1)]] by (simp_all add: taken_state_def)
  note gat = gathered_sort [OF F(1) b]
  note grp = prepared_group [OF gat inj]
  have sound: "sound_record m (g, h)" if "h \<in> set (sources_of F st g)" for g h
    using grp(1) [of g] that by (intro all_records_sound) (auto simp: in_of_group)
  have "group_ready (keys_of (ph_schemas st) g) F (batch_share ?b) (staging_start st) g" for g
  proof -
    have "wf_head h" if "p \<in> set (run_of ?xs g)" "h \<in> set (F p)" for p h
    proof -
      have "h \<in> set (sources_of F st g)" using that by (auto simp: sources_of_def arrived_def run_of_start)
      then show ?thesis using sound by (simp add: sound_record_def)
    qed
    then have runs: "sound_runs F (run_of ?xs g)" "set (run_of ?xs g) \<subseteq> range run_path - later (spl_next (ph_spill st))"
      using grp(4) [of g] unfolding sound_runs_def gathered_group_def by blast+
    have read: "readable (keys_of (ph_schemas st) g) h" if h: "h \<in> set (sources_of F st g)" for h
    proof -
      have "h \<in> set (of_group g ?R)" using grp(1) h by blast
      with known_schema t have "keys_of (ph_schemas st) g = schema_keys m g" by blast
      then show ?thesis using sound [OF h] by (simp add: sound_record_def)
    qed
    have "inj_on head_key (set (sources_of F st g))" by (rule inj_on_subset [OF grp(3) grp(1)])
    with runs read share_mem_heads [OF b] show ?thesis
      unfolding group_ready_def sources_of_def run_of_start by (simp add: staging_start_def)
  qed
  moreover have "set (runs_of (staging_start st) g) \<inter> set (runs_of (staging_start st) g') = {}" if "g \<noteq> g'" for g g'
    using gat that unfolding gathered_def run_of_start by blast
  ultimately have "prepared crc m cs st F"
    unfolding prepared_def Let_def ready_def using grp(1,2) gat b by (simp add: gathered_def)
  then show ?thesis using that F(2) by (simp add: run_of_start)
qed

lemma source_group:
  assumes "wf_batch (ph_batch st)" "inj_on record_key (set (batch_records (ph_batch st)))" "sources_of F st g \<noteq> []"
  shows "g \<in> set (staging_groups (staging_start st))"
proof (rule ccontr)
  assume "g \<notin> set (staging_groups (staging_start st))"
  then have no: "map_of (fst (into_sources (ph_batch st))) g = None" "map_of (spl_groups (ph_spill st)) g = None"
    by (simp_all add: staging_groups_def staging_start_def map_of_eq_None_iff)
  then have "run_of (spl_groups (ph_spill st)) g = []" "batch_share (ph_batch st) g = []"
    using share_mem_heads [OF assms(1,2), of g] by (simp_all add: run_of_def runs.mem_heads_def memory_of_def staging_start_def)
  then show False using assms(3) by (simp add: sources_of_def arrived_def run_of_start)
qed

text \<open>The counters.\<close>

lemma sum_over_groups:
  assumes "finite K" "fst ` set xs \<subseteq> K" "distinct (map fst xs)" "\<And>g. g \<notin> fst ` set xs \<Longrightarrow> f g = 0" "\<And>x. x \<in> set xs \<Longrightarrow> f (fst x) = h (snd x)"
  shows "(\<Sum>g\<in>K. f g) = (\<Sum>x\<leftarrow>xs. h (snd x) :: nat)"
proof -
  have "(\<Sum>g\<in>K. f g) = (\<Sum>g\<in>fst ` set xs. f g)" by (rule sum.mono_neutral_right) (use assms in auto)
  also have "\<dots> = (\<Sum>g\<leftarrow>map fst xs. f g)" by (metis assms(3) set_map sum.distinct_set_conv_list)
  also have "\<dots> = (\<Sum>x\<leftarrow>xs. h (snd x))" using assms(5) by (simp add: comp_def cong: map_cong)
  finally show ?thesis .
qed

lemma staging_groups_start:
  "set (staging_groups (staging_start st)) = fst ` set (fst (into_sources (ph_batch st))) \<union> fst ` set (spl_groups (ph_spill st))"
  "distinct (staging_groups (staging_start st))"
  by (simp_all add: staging_groups_def staging_start_def)

lemma prepared_total:
  assumes "prepared crc m cs st F"
  shows "(\<Sum>g\<leftarrow>staging_groups (staging_start st). length (sources_of F st g)) + deduplicated (snd (into_sources (ph_batch st))) =
    length (all_records crc m cs)"
proof -
  let ?xs = "spl_groups (ph_spill st)" and ?gs = "grouped (batch_records (ph_batch st))"
  let ?K = "set (staging_groups (staging_start st))"
  have keys: "map fst (fst (into_sources (ph_batch st))) = map fst ?gs"
    using into_sources_grouped [of "ph_batch st"] assms by (auto simp: prepared_def Let_def list_all2_conv_all_nth split_beta intro!: nth_equalityI)
  have mem: "fst ` set ?gs \<subseteq> ?K" using keys by (metis (no_types) Un_upper1 set_map staging_groups_start(1))
  have "(\<Sum>g\<in>?K. length (sources_of F st g)) = (\<Sum>g\<in>?K. length (heads F (run_of ?xs g))) + (\<Sum>g\<in>?K. length (batch_share (ph_batch st) g))"
    by (simp add: sources_of_def arrived_def run_of_start sum.distrib)
  also have "(\<Sum>g\<in>?K. length (heads F (run_of ?xs g))) = run_total F ?xs"
    unfolding run_total_def
  proof (rule sum_over_groups)
    show "distinct (map fst ?xs)" using assms by (simp add: prepared_def Let_def)
    then show "length (heads F (run_of ?xs (fst x))) = length (heads F (snd x))" if "x \<in> set ?xs" for x using in_run_of that by metis
    show "length (heads F (run_of ?xs g)) = 0" if "g \<notin> fst ` set ?xs" for g using that by (simp add: run_of_def map_of_eq_None_iff [THEN iffD2])
  qed (simp_all add: staging_groups_start)
  also have "(\<Sum>g\<in>?K. length (batch_share (ph_batch st) g)) = (\<Sum>x\<leftarrow>?gs. length (snd x))"
  proof (rule sum_over_groups [OF _ mem])
    show d: "distinct (map fst ?gs)" by (simp add: grouped_keys)
    show "length (batch_share (ph_batch st) (fst x)) = length (snd x)" if "x \<in> set ?gs" for x
      using of_group_pooled [OF d] map_of_is_SomeI [OF d, of "fst x" "snd x"] that by (simp add: batch_share_def)
    show "length (batch_share (ph_batch st) g) = 0" if "g \<notin> fst ` set ?gs" for g
      using of_group_pooled [OF d] that by (simp add: batch_share_def map_of_eq_None_iff [THEN iffD2])
  qed simp
  also have "(\<Sum>x\<leftarrow>?gs. length (snd x)) = length (pooled ?gs)" by (simp add: length_pooled length_concat comp_def)
  finally have "(\<Sum>g\<in>?K. length (sources_of F st g)) = run_total F ?xs + length (pooled ?gs)" .
  then have "(\<Sum>g\<leftarrow>staging_groups (staging_start st). length (sources_of F st g)) = run_total F ?xs + length (pooled ?gs)"
    by (metis staging_groups_start(2) sum.distinct_set_conv_list)
  then show ?thesis using assms by (simp add: prepared_def Let_def into_sources_def)
qed

section \<open>Where files are\<close>

definition dest :: "path \<Rightarrow> path" where
  "dest p = SERIES_DIR # drop (length tmp_dir) p"

definition view_path :: "rstr \<Rightarrow> path" where
  "view_path name = series_dir name @ [VIEW_FILE]"

lemma out_pathsE:
  assumes "p \<in> out_paths sink" obtains a b e where "p = [TMP_DIR, a, b, e]"
  using assms unfolding out_paths_def outs_def staged_path_def tmp_dir_def by auto

lemma dest_inject: "p \<in> out_paths sink \<Longrightarrow> q \<in> out_paths sink \<Longrightarrow> dest p = dest q \<longleftrightarrow> p = q"
  by (erule out_pathsE, erule out_pathsE) (simp add: dest_def tmp_dir_def)

lemma dirs_apart [simp]: "SERIES_DIR \<noteq> TMP_DIR" "TMP_DIR \<noteq> SERIES_DIR"
  by (simp_all add: SERIES_DIR_def TMP_DIR_def lit_def)

lemma dest_not_out: "p \<in> out_paths sink \<Longrightarrow> dest p \<notin> out_paths sink"
  using out_pathsE [of "dest p" sink] by (auto simp: dest_def)

lemmas short_paths = run_path_def runs_dir_def segment_path_def corrupt_path_def wal_dir_def reject_path_def rejects_dir_def
  manifest_path_def manifest_tmp_path_def view_path_def series_dir_def

lemma out_not_short:
  assumes "p \<in> out_paths sink"
  shows "p \<noteq> run_path n" "p \<noteq> segment_path i" "p \<noteq> corrupt_path i" "p \<noteq> reject_path i" "p \<noteq> manifest_path" "p \<noteq> manifest_tmp_path" "p \<noteq> view_path name"
    "dest p \<noteq> run_path n" "dest p \<noteq> segment_path i" "dest p \<noteq> corrupt_path i" "dest p \<noteq> reject_path i" "dest p \<noteq> manifest_path" "dest p \<noteq> manifest_tmp_path" "dest p \<noteq> view_path name"
  by (rule out_pathsE [OF assms], simp add: dest_def tmp_dir_def short_paths)+

lemma out_length: "p \<in> out_paths sink \<Longrightarrow> length p = 4" "p \<in> dest ` out_paths sink \<Longrightarrow> length p = 4"
  by (auto elim!: out_pathsE simp: dest_def tmp_dir_def)

lemma short_not_out [simp]:
  "run_path n \<notin> out_paths sink" "segment_path i \<notin> out_paths sink" "corrupt_path i \<notin> out_paths sink" "reject_path i \<notin> out_paths sink"
  "manifest_path \<notin> out_paths sink" "manifest_tmp_path \<notin> out_paths sink" "view_path name \<notin> out_paths sink"
  "segment_path i \<notin> dest ` out_paths sink" "corrupt_path i \<notin> dest ` out_paths sink" "manifest_path \<notin> dest ` out_paths sink" "view_path name \<notin> dest ` out_paths sink"
  by (auto simp del: image_iff dest!: out_length simp: short_paths)

lemma short_apart [simp]:
  "manifest_path \<noteq> run_path n" "manifest_path \<noteq> segment_path i" "manifest_path \<noteq> corrupt_path i" "manifest_path \<noteq> reject_path i" "manifest_path \<noteq> view_path name"
  "manifest_tmp_path \<noteq> segment_path i" "manifest_tmp_path \<noteq> corrupt_path i" "manifest_tmp_path \<noteq> run_path n"
  "view_path name \<noteq> segment_path i" "view_path name \<noteq> corrupt_path i" "view_path name \<noteq> run_path n" "view_path name \<noteq> reject_path i"
  by (simp_all add: short_paths)

declare short_apart [symmetric, simp]

lemma staged_in_outs: "snd (hour_file sink g ys) \<in> out_paths sink"
  by (auto simp: hour_file_def Let_def out_paths_def outs_def)

section \<open>Rows in files\<close>

text \<open>Every row of the given records is in its staged file, or in the file that was published from it.\<close>

definition in_place :: "path \<Rightarrow> bytes \<Rightarrow> (path \<rightharpoonup> bytes) \<Rightarrow> bool" where
  "in_place p bs c \<longleftrightarrow> c p = Some bs \<or> c p = None \<and> c (dest p) = Some bs"

definition stored_rows :: "'s Parquet \<Rightarrow> Sink \<Rightarrow> Manifest \<Rightarrow> (GroupKey \<times> Head) list \<Rightarrow> (path \<rightharpoonup> bytes) \<Rightarrow> bool" where
  "stored_rows pq sink m R c \<longleftrightarrow> (\<forall>g. stored pq sink g (schema_keys m g) (group_records R g) c)"

definition safe_rows :: "'s Parquet \<Rightarrow> Sink \<Rightarrow> Manifest \<Rightarrow> (GroupKey \<times> Head) list \<Rightarrow> (path \<rightharpoonup> bytes) \<Rightarrow> bool" where
  "safe_rows pq sink m R c \<longleftrightarrow>
     (\<forall>g. \<forall>ys\<in>set (hours (group_records R g)). \<exists>bs. output_bytes pq (snk_flush sink) g (schema_keys m g) ys = Inr bs \<and>
        in_place (snd (hour_file sink g ys)) bs c)"

lemma stored_safe: "stored_rows pq sink m R c \<Longrightarrow> safe_rows pq sink m R c"
  unfolding stored_rows_def stored_def safe_rows_def in_place_def by blast

lemma stored_rows_cong: "stored_rows pq sink m R c \<Longrightarrow> (\<And>p. p \<in> out_paths sink \<Longrightarrow> c' p = c p) \<Longrightarrow> stored_rows pq sink m R c'"
  unfolding stored_rows_def stored_def by (simp add: staged_in_outs)

lemma safe_rows_cong:
  assumes "safe_rows pq sink m R c" "\<And>p. p \<in> out_paths sink \<Longrightarrow> c' p = c p \<and> c' (dest p) = c (dest p)"
  shows "safe_rows pq sink m R c'"
  using assms unfolding safe_rows_def in_place_def by (simp add: staged_in_outs)

section \<open>Publishing\<close>

lemma for_each_prefix_triple:
  assumes "\<And>ys x zs. ys0 @ xs = ys @ x # zs \<Longrightarrow> triple (at k (J ys)) (f x) (\<lambda>_. at k (J (ys @ [x]))) E"
  shows "triple (at k (J ys0)) (for_each f xs) (\<lambda>_. at k (J (ys0 @ xs))) E"
  using assms
proof (induction xs arbitrary: ys0)
  case (Cons x xs)
  have "triple (at k (J (ys0 @ [x]))) (for_each f xs) (\<lambda>_. at k (J ((ys0 @ [x]) @ xs))) E"
    by (rule Cons.IH) (use Cons.prems in simp)
  then show ?case
    unfolding for_each_Cons by (intro triple_seq [OF Cons.prems [of ys0 x xs]]) simp_all
qed (simp add: triple_def)

text \<open>\<open>c1\<close> are the files at the commit; the staged files \<open>ps\<close> have been renamed.\<close>

definition promoted :: "Sink \<Rightarrow> (path \<rightharpoonup> bytes) \<Rightarrow> path list \<Rightarrow> (path \<rightharpoonup> bytes) \<Rightarrow> bool" where
  "promoted sink c1 ps c \<longleftrightarrow>
     (\<forall>p\<in>out_paths sink. if p \<in> set ps then c p = None \<and> c (dest p) = c1 p else c p = c1 p) \<and>
     outside (out_paths sink \<union> dest ` out_paths sink) c1 c"

lemma promoted_safe:
  assumes "stored_rows pq sink m R c1" "promoted sink c1 ps c" shows "safe_rows pq sink m R c"
proof -
  have "in_place p bs c" if "p \<in> out_paths sink" "c1 p = Some bs" for p bs
    using assms(2) that by (auto simp: promoted_def in_place_def split: if_splits)
  then have "in_place (snd (hour_file sink g ys)) bs c" if "c1 (snd (hour_file sink g ys)) = Some bs" for g ys bs
    using that staged_in_outs by blast
  with assms(1) show ?thesis unfolding stored_rows_def stored_def safe_rows_def by meson
qed

lemma promoted_more:
  assumes c: "promoted sink c1 ps c" and p: "p \<in> out_paths sink" "p \<notin> set ps" "c1 p = Some bs"
  shows "promoted sink c1 (ps @ [p]) (c(p := None, dest p \<mapsto> bs))"
proof -
  let ?c = "c(p := None, dest p \<mapsto> bs)"
  have "if q \<in> set (ps @ [p]) then ?c q = None \<and> ?c (dest q) = c1 q else ?c q = c1 q" if q: "q \<in> out_paths sink" for q
  proof (cases "q = p")
    case False
    have "dest q \<noteq> dest p" "q \<noteq> dest p" "dest q \<noteq> p" using False dest_inject [OF q p(1)] dest_not_out [OF p(1)] dest_not_out [OF q] p(1) q by auto
    moreover have "if q \<in> set ps then c q = None \<and> c (dest q) = c1 q else c q = c1 q" using c q unfolding promoted_def by blast
    ultimately show ?thesis using False by simp
  qed (use p dest_not_out [OF p(1)] in auto)
  moreover have "outside (out_paths sink \<union> dest ` out_paths sink) c1 ?c" using c p(1) by (auto simp: promoted_def outside_def)
  ultimately show ?thesis unfolding promoted_def by blast
qed

lemma promote_triple:
  assumes p: "p \<in> out_paths sink" "p \<notin> set ps" "c1 p = Some bs"
  shows "triple (at k (promoted sink c1 ps)) (promote p :: ('m, unit) eio) (\<lambda>_. at k (promoted sink c1 (ps @ [p])))
    (\<lambda>_. at k (\<lambda>c. \<not> k \<and> (\<exists>ps'. promoted sink c1 ps' c)))"
proof -
  have pre: "prefix tmp_dir p" by (rule out_pathsE [OF p(1)]) (simp add: tmp_dir_def)
  have there: "c p = Some bs" if "promoted sink c1 ps c" for c using that p by (auto simp: promoted_def)
  have moved: "promoted sink c1 (ps @ [p]) (c(p := None, dest p \<mapsto> bs))" if "promoted sink c1 ps c" for c by (rule promoted_more [OF that p])
  have eq: "promote p = (seq (lift_io (fs_mkdir (butlast (dest p)))) (\<lambda>_. seq (lift_io (fs_rename p (dest p))) (\<lambda>_. seq (lift_io (fsync_dir (butlast (dest p)))) (\<lambda>_.
      seq (lift_io (fsync_dir (butlast (butlast (dest p))))) (\<lambda>_. lift_io (fsync_dir [SERIES_DIR]))))) :: ('m, unit) eio)"
    using pre by (simp add: promote_def dest_def Let_def)
  let ?Q = "promoted sink c1 (ps @ [p])" and ?E = "\<lambda>c. \<not> k \<and> (\<exists>ps'. promoted sink c1 ps' c)"
  have rename: "triple (at k (promoted sink c1 ps)) (lift_io (fs_rename p (dest p)) :: ('m, unit) eio) (\<lambda>_. at k ?Q) (\<lambda>_. at k ?E)"
  proof (rule triple_lift_io, rule triple_at_pre [OF fs_rename_triple])
    fix c assume c: "promoted sink c1 ps c"
    show "(\<forall>b. c p = Some b \<longrightarrow> ?Q (c(p := None, dest p \<mapsto> b))) \<and> (c p = None \<longrightarrow> ?E c) \<and> (\<not> k \<longrightarrow> ?E c)"
      unfolding there [OF c] using moved [OF c] c by blast
  qed
  have quiet: "triple (at k (promoted sink c1 qs)) (lift_io (fs_mkdir dir) :: ('m, unit) eio) (\<lambda>_. at k (promoted sink c1 qs)) (\<lambda>_. at k ?E)"
    "triple (at k (promoted sink c1 qs)) (lift_io (fsync_dir dir) :: ('m, unit) eio) (\<lambda>_. at k (promoted sink c1 qs)) (\<lambda>_. at k ?E)" for qs dir
    by (rule triple_lift_io, rule triple_at_pre [OF quiet_triples(3)], blast)
      (rule triple_lift_io, rule triple_at_pre [OF quiet_triples(2)], blast)
  show ?thesis
    unfolding eq by (rule triple_seq [OF quiet(1)], rule triple_seq [OF rename], (rule triple_seq [OF quiet(2)])+, rule quiet(2))
qed

lemma promotes_triple:
  assumes "distinct ps" "set ps \<subseteq> out_paths sink" "\<forall>p\<in>set ps. c1 p \<noteq> None"
  shows "triple (at k (\<lambda>c. c = c1)) (for_each promote ps :: ('m, unit) eio) (\<lambda>_. at k (promoted sink c1 ps))
    (\<lambda>_. at k (\<lambda>c. \<not> k \<and> (\<exists>ps'. promoted sink c1 ps' c)))"
proof -
  have "triple (at k (promoted sink c1 [])) (for_each promote ps :: ('m, unit) eio) (\<lambda>_. at k (promoted sink c1 ps))
      (\<lambda>_. at k (\<lambda>c. \<not> k \<and> (\<exists>ps'. promoted sink c1 ps' c)))"
  proof (rule for_each_prefix_triple [where J = "promoted sink c1" and ?ys0.0 = "[]", unfolded append_Nil])
    fix ys x zs assume xs: "ps = ys @ x # zs"
    then obtain bs where "c1 x = Some bs" using assms(3) by auto
    then show "triple (at k (promoted sink c1 ys)) (promote x :: ('m, unit) eio) (\<lambda>_. at k (promoted sink c1 (ys @ [x])))
        (\<lambda>_. at k (\<lambda>c. \<not> k \<and> (\<exists>ps'. promoted sink c1 ps' c)))"
      by (intro promote_triple) (use assms(1,2) xs in auto)
  qed
  then show ?thesis by (rule triple_pre) (auto simp: at_def promoted_def outside_def)
qed

text \<open>Deleting the consumed segments, and writing the views.\<close>

definition removed :: "path set \<Rightarrow> (path \<rightharpoonup> bytes) \<Rightarrow> (path \<rightharpoonup> bytes) \<Rightarrow> bool" where
  "removed D c1 c \<longleftrightarrow> (\<forall>q. c q = c1 q \<or> q \<in> D \<and> c q = None)"

lemma delete_segments_triple:
  "triple (at k (\<lambda>c. c = c1)) (delete_segments ids :: ('m, unit) eio)
    (\<lambda>_. at k (\<lambda>c. removed (segment_path ` set ids) c1 c \<and> (\<forall>i\<in>set ids. c (segment_path i) = None)))
    (\<lambda>_. at k (\<lambda>c. \<not> k \<and> removed (segment_path ` set ids) c1 c))"
proof -
  let ?J = "\<lambda>ys c. removed (segment_path ` set ids) c1 c \<and> (\<forall>i\<in>set ys. c (segment_path i) = None)"
  let ?E = "\<lambda>_. at k (\<lambda>c. \<not> k \<and> removed (segment_path ` set ids) c1 c)"
  have "triple (at k (?J ys)) (remove_if_present (segment_path i) :: ('m, unit) eio) (\<lambda>_. at k (?J (ys @ [i]))) ?E" if "ids = ys @ i # zs" for ys i zs
    by (rule triple_at_pre [OF remove_if_present_triple]) (use that in \<open>auto simp: removed_def\<close>)
  from for_each_prefix_triple [where J = ?J and ?ys0.0 = "[]" and xs = ids and k = k and E = ?E and f = "\<lambda>i. remove_if_present (segment_path i)", unfolded append_Nil, OF this]
  have del: "triple (at k (\<lambda>c. c = c1)) (for_each (\<lambda>i. remove_if_present (segment_path i)) ids :: ('m, unit) eio) (\<lambda>_. at k (?J ids)) ?E"
    by (rule triple_pre) (auto simp: at_def removed_def)
  have "triple (at k (?J ids)) (lift_io (fsync_dir wal_dir) :: ('m, unit) eio) (\<lambda>_. at k (?J ids)) ?E"
    by (rule triple_lift_io, rule triple_at_pre [OF quiet_triples(2)]) auto
  with del show ?thesis unfolding delete_segments_def by (intro triple_seq)
qed

lemma regenerate_views_triple:
  assumes "\<And>c c'. R c \<Longrightarrow> outside (range view_path) c c' \<Longrightarrow> R c'"
  shows "triple (at k R) (regenerate_views m names :: ('m, unit) eio) (\<lambda>_. at k R) E"
proof -
  have up: "R (c(view_path name := x))" if "R c" for c name x by (rule assms [OF that]) (auto simp: outside_def)
  have "triple (at k R) (seq (fs_mkdir (series_dir name)) (\<lambda>_. fs_write_file (view_path name) (view_sql name (history_of m name))) :: ('m, unit) io)
      (\<lambda>_. at k R) (\<lambda>_. at k R)" for name
    by (rule triple_at_pre, (rule triple_rules)+) (auto intro: up)
  then have "triple (at k R) (regenerate_view m name :: ('m, unit) eio) (\<lambda>_. at k R) E" for name
    unfolding regenerate_view_def view_path_def [symmetric]
    by (intro triple_seq [OF triple_best_effort [where Q = "\<lambda>_. at k R"]]) (simp_all add: triple_def)
  then show ?thesis unfolding regenerate_views_def by (intro triple_for_each)
qed

lemma fsync_staging_triple: "triple (at k R) (fsync_staging ps :: ('m, unit) eio) (\<lambda>_. at k R) (\<lambda>_. at k (\<lambda>c. R c \<and> \<not> k))"
proof -
  have "triple (at k R) (lift_io (fsync_dir dir) :: ('m, unit) eio) (\<lambda>_. at k R) (\<lambda>_. at k (\<lambda>c. R c \<and> \<not> k))" for dir
    by (rule triple_lift_io, rule triple_at_pre [OF quiet_triples(2)]) auto
  then show ?thesis unfolding fsync_staging_def by (intro triple_seq [OF triple_for_each])
qed

section \<open>What has been staged\<close>

lemma hours_of_sorted:
  assumes "sorted (map head_key hs)"
  shows "hours hs = map (\<lambda>k. filter (\<lambda>h. hour_of h = k) hs) (sorted_list_of_set (hour_of ` set hs))"
proof -
  have "sorted (map hour_of hs)"
    using assms unfolding sorted_map by (rule sorted_wrt_mono_rel [rotated]) (blast intro: hour_of_mono head_key_ts)
  then show ?thesis by (simp add: hours_def chunks_sorted comp_def)
qed

lemma group_paths_distinct: "distinct (map snd (map (hour_file sink g) (hours (first_arrivals hs))))"
proof -
  let ?hs = "first_arrivals hs" let ?cut = "\<lambda>k. filter (\<lambda>h. hour_of h = k) ?hs"
  have "snd (hour_file sink g (?cut k)) \<noteq> snd (hour_file sink g (?cut k'))" if "k \<in> hour_of ` set ?hs" "k' \<in> hour_of ` set ?hs" "k \<noteq> k'" for k k'
  proof -
    have cut: "hour_of (hd (?cut k)) = k" if "k \<in> hour_of ` set ?hs" for k
      using that hd_in_set [of "?cut k"] by (auto simp: filter_empty_conv)
    have "hour_of (hd (?cut k)) \<noteq> hour_of (hd (?cut k'))" using cut that by simp
    then show ?thesis by (simp add: hour_file_def Let_def staged_path_inject hour_partition_same_hour hour_of_def)
  qed
  then have inj: "inj_on (\<lambda>k. snd (hour_file sink g (?cut k))) (hour_of ` set ?hs)" by (intro inj_onI) blast
  have "map snd (map (hour_file sink g) (hours ?hs)) = map (\<lambda>k. snd (hour_file sink g (?cut k))) (sorted_list_of_set (hour_of ` set ?hs))"
    by (simp add: hours_of_sorted [OF sorted_first_arrivals] comp_def)
  then show ?thesis using inj by (simp add: distinct_map del: set_first_arrivals)
qed

lemma group_files_paths:
  assumes "distinct gs"
  shows "distinct (map snd (group_files sink A gs)) \<and> set (map snd (group_files sink A gs)) \<subseteq> all_outs sink gs"
  using assms
proof (induction gs)
  case (Cons g gs)
  let ?fs = "map (hour_file sink g) (hours (first_arrivals (A g)))"
  have split: "group_files sink A (g # gs) = ?fs @ group_files sink A gs" by (simp add: group_files_def)
  have "set (map snd ?fs) \<subseteq> outs sink g" by (auto simp: hour_file_def Let_def outs_def)
  moreover have "outs sink g \<inter> all_outs sink gs = {}" using Cons.prems outs_disjoint [of g] by (fastforce simp: all_outs_def)
  ultimately show ?case
    using Cons group_paths_distinct [of sink g "A g"] unfolding split by (fastforce simp: all_outs_def)
qed (simp add: group_files_def)

lemma group_in_groups:
  assumes prep: "prepared crc m cs st F" and g: "group_records (all_records crc m cs) g \<noteq> []"
  shows "g \<in> set (staging_groups (staging_start st))"
proof -
  have "first_arrivals (sources_of F st g) = group_records (all_records crc m cs) g" using prep by (simp add: prepared_def Let_def)
  then have "sources_of F st g \<noteq> []" using g by (auto simp: first_arrivals_def)
  then show ?thesis using prep by (intro source_group [of st F]) (simp_all add: prepared_def Let_def)
qed

lemma staged_rows:
  assumes prep: "prepared crc m cs st F" and st: "taken_state crc m cs st"
    and upto: "staged_upto pq sink (keys_of (ph_schemas st)) (sources_of F st) c1 (staging_start st) (staging_groups (staging_start st)) sg c"
  shows "stored_rows pq sink m (all_records crc m cs) c"
proof -
  have "stored pq sink g (schema_keys m g) (group_records (all_records crc m cs) g) c" for g
  proof (cases "of_group g (all_records crc m cs)")
    case Nil
    then show ?thesis by (simp add: group_records_def first_arrivals_def stored_def hours_def)
  next
    case (Cons h hs)
    have A: "first_arrivals (sources_of F st g) = group_records (all_records crc m cs) g" using prep by (simp add: prepared_def Let_def)
    have "group_records (all_records crc m cs) g \<noteq> []" using Cons by (simp add: group_records_def first_arrivals_nonempty)
    then have "g \<in> set (staging_groups (staging_start st))" by (rule group_in_groups [OF prep])
    moreover have "keys_of (ph_schemas st) g = schema_keys m g" by (rule known_schema [OF st, of h]) (simp add: Cons)
    ultimately show ?thesis using upto A by (fastforce simp: staged_upto_def all_stored_def)
  qed
  then show ?thesis by (simp add: stored_rows_def)
qed

section \<open>The phases put together\<close>

definition touched_paths :: "Sink \<Rightarrow> path set" where
  "touched_paths sink = {p. below runs_dir p} \<union> range reject_path \<union> range segment_path \<union> range corrupt_path \<union>
     out_paths sink \<union> dest ` out_paths sink \<union> {manifest_path, manifest_tmp_path} \<union> range view_path"

definition sink_for :: "Config \<Rightarrow> (u64 \<times> bytes) list \<Rightarrow> Sink" where
  "sink_for cfg cs = \<lparr>snk_flush = cfg_flush cfg, snk_first = fst (hd cs), snk_last = fst (last cs)\<rparr>"

definition marked :: "Manifest \<Rightarrow> u64 \<Rightarrow> u64 \<Rightarrow> Manifest" where
  "marked m now last_segment = m\<lparr>last_flushed_segment := max (last_flushed_segment m) last_segment, last_flush_at := Some now\<rparr>"

text \<open>\<open>cs\<close> are the segments consumed, in order; all that were tried before the last of them are consumed or aside.\<close>

definition walked :: "(path \<rightharpoonup> bytes) \<Rightarrow> u64 list \<Rightarrow> (u64 \<times> bytes) list \<Rightarrow> (path \<rightharpoonup> bytes) \<Rightarrow> bool" where
  "walked c0 taken cs c \<longleftrightarrow>
     subseq (map fst cs) taken \<and> (\<forall>j\<in>set taken. j \<in> fst ` set cs \<or> aside c0 c j) \<and>
     (\<forall>x\<in>set cs. c0 (segment_path (fst x)) = Some (snd x) \<and> \<not> isl (parse_segment_header (snd x)))"

text \<open>Nothing committed: every segment is in \<open>wal/\<close> or aside.\<close>

definition unflushed :: "Sink \<Rightarrow> (path \<rightharpoonup> bytes) \<Rightarrow> (path \<rightharpoonup> bytes) \<Rightarrow> bool" where
  "unflushed sink c0 c \<longleftrightarrow> (\<forall>j. held c0 c j) \<and> outside (touched_paths sink) c0 c \<and> c manifest_path = c0 manifest_path"

definition flushed ::
  "'s Parquet \<Rightarrow> (bytes \<Rightarrow> u32) \<Rightarrow> Config \<Rightarrow> Manifest \<Rightarrow> bytes \<Rightarrow> (path \<rightharpoonup> bytes) \<Rightarrow> u64 list \<Rightarrow> (u64 \<times> bytes) list \<Rightarrow> (path \<rightharpoonup> bytes) \<Rightarrow> bool" where
  "flushed pq crc cfg m json c0 taken cs c \<longleftrightarrow>
     (\<forall>j. held c0 c j \<or> j \<in> fst ` set cs \<and> c (segment_path j) = None) \<and> outside (touched_paths (sink_for cfg cs)) c0 c \<and>
     c manifest_path = Some (json @ [10]) \<and> walked c0 taken cs c \<and> safe_rows pq (sink_for cfg cs) m (all_records crc m cs) c"

lemma below_runs [simp]:
  "\<not> below runs_dir (segment_path i)" "\<not> below runs_dir (corrupt_path i)" "\<not> below runs_dir manifest_path" "\<not> below runs_dir (dest q)" "below runs_dir (run_path n)"
  by (auto simp: below_def layout_defs dest_def manifest_path_def SERIES_DIR_def MANIFEST_FILE_def lit_def)

lemma out_not_below [simp]: "p \<in> out_paths sink \<Longrightarrow> \<not> below runs_dir p"
  by (erule out_pathsE) (simp add: below_def runs_dir_def RUNS_DIR_def TMP_DIR_def lit_def)

lemma manifest_not_in [simp]:
  "manifest_path \<notin> range run_path" "manifest_path \<notin> range reject_path" "manifest_path \<notin> range segment_path" "manifest_path \<notin> range corrupt_path" "manifest_path \<notin> range view_path"
  using short_apart by blast+

lemma unflushed_cong:
  assumes "unflushed sink c0 c" "outside ({p. below runs_dir p} \<union> out_paths sink) c c'" shows "unflushed sink c0 c'"
proof -
  have "c' (segment_path j) = c (segment_path j)" "c' (corrupt_path j) = c (corrupt_path j)" "c' manifest_path = c manifest_path" for j
    using assms(2) unfolding outside_def by auto
  moreover have "outside (touched_paths sink) c0 c'" by (rule outside_trans [OF _ assms(2)]) (use assms(1) in \<open>auto simp: unflushed_def touched_paths_def\<close>)
  ultimately show ?thesis using assms(1) by (simp add: unflushed_def held_def aside_def)
qed

lemma kept_unflushed: "wal_kept c0 c \<Longrightarrow> unflushed sink c0 c"
  unfolding wal_kept_def unflushed_def
  by (auto elim!: outside_weaken simp: touched_paths_def) (simp add: outside_def)

lemma decoded_walked: "decoded_all crc m c0 taken left cs st c \<Longrightarrow> walked c0 taken cs c"
  unfolding decoded_all_def taken_files_def walked_def by blast

lemma walked_cong:
  assumes "walked c0 taken cs c" "\<And>j. c (segment_path j) = None \<Longrightarrow> c' (segment_path j) = None" "\<And>j. c' (corrupt_path j) = c (corrupt_path j)"
  shows "walked c0 taken cs c'"
proof -
  have "aside c0 c' j" if "aside c0 c j" for j using that assms(2,3) by (auto simp: aside_def)
  with assms(1) show ?thesis unfolding walked_def by blast
qed

text \<open>The staged files and the counters once the second phase is over.\<close>

definition total_rows :: "(GroupKey \<times> Head) list \<Rightarrow> nat" where
  "total_rows R = (\<Sum>g\<in>fst ` set R. length (group_records R g))"

definition staging_done :: "Sink \<Rightarrow> (GroupKey \<times> Head) list \<Rightarrow> Phase1 \<Rightarrow> Staging \<Rightarrow> (path \<rightharpoonup> bytes) \<Rightarrow> bool" where
  "staging_done sink R st sg c \<longleftrightarrow>
     (let ps = map snd (sg_staged sg) in
      distinct ps \<and> set ps \<subseteq> out_paths sink \<and> (\<forall>p\<in>set ps. c p \<noteq> None) \<and>
      (\<forall>g. \<forall>ys\<in>set (hours (group_records R g)). snd (hour_file sink g ys) \<in> set ps) \<and>
      sg_emitted sg = total_rows R \<and> sg_emitted sg + sg_deduplicated sg + deduplicated (snd (into_sources (ph_batch st))) = length R \<and>
      (\<forall>r\<in>set R. unat (hd_ts (snd r)) \<le> i64_max))"

lemma group_records_empty:
  assumes "g \<notin> fst ` set R" shows "group_records R g = []"
proof -
  have "of_group g R = []" using assms by (auto simp: of_group_def filter_empty_conv)
  then show ?thesis by (simp add: group_records_def first_arrivals_def)
qed

lemma staging_counts:
  assumes prep: "prepared crc m cs st F"
    and upto: "staged_upto pq sink keys (sources_of F st) c1 (staging_start st) (staging_groups (staging_start st)) sg c"
  shows "sg_emitted sg = total_rows (all_records crc m cs)"
    "sg_emitted sg + sg_deduplicated sg + deduplicated (snd (into_sources (ph_batch st))) = length (all_records crc m cs)"
proof -
  let ?R = "all_records crc m cs" and ?gs = "staging_groups (staging_start st)" and ?A = "sources_of F st"
  have A: "first_arrivals (?A g) = group_records ?R g" for g using prep by (simp add: prepared_def Let_def)
  have e: "sg_emitted sg = (\<Sum>g\<leftarrow>?gs. length (group_records ?R g))" "sg_deduplicated sg = (\<Sum>g\<leftarrow>?gs. length (?A g) - length (group_records ?R g))"
    using upto by (simp_all add: staged_upto_def merge_stats_def A staging_start_def)
  have le: "length (group_records ?R g) \<le> length (?A g)" for g unfolding A [symmetric] by (rule length_first_arrivals)
  have "sg_emitted sg = (\<Sum>g\<in>set ?gs. length (group_records ?R g))" using e(1) staging_groups_start(2) by (metis sum.distinct_set_conv_list)
  also have "\<dots> = (\<Sum>g\<in>fst ` set ?R \<union> set ?gs. length (group_records ?R g))"
    by (rule sum.mono_neutral_left) (use group_in_groups [OF prep] in auto)
  also have "\<dots> = total_rows ?R"
    unfolding total_rows_def by (rule sum.mono_neutral_right) (auto simp: group_records_empty)
  finally show "sg_emitted sg = total_rows ?R" .
  have "sg_emitted sg + sg_deduplicated sg = (\<Sum>g\<leftarrow>?gs. length (?A g))"
    unfolding e sum_list_addf [symmetric] using le by simp
  then show "sg_emitted sg + sg_deduplicated sg + deduplicated (snd (into_sources (ph_batch st))) = length ?R"
    using prepared_total [OF prep] by simp
qed

lemma first_arrival_exists:
  assumes "h \<in> set hs" obtains h' where "h' \<in> set (first_arrivals hs)" "ts_id h' = ts_id h" "hd_arrival h' \<le> hd_arrival h"
proof -
  let ?S = "{h' \<in> set hs. ts_id h' = ts_id h}"
  have ne: "hd_arrival ` ?S \<noteq> {}" "finite (hd_arrival ` ?S)" using assms by auto
  from Min_in [OF ne(2,1)] obtain h' where h': "h' \<in> ?S" "hd_arrival h' = Min (hd_arrival ` ?S)" by (auto simp del: Min_in)
  then have "\<forall>h2\<in>?S. hd_arrival h' \<le> hd_arrival h2" using ne(2) by simp
  then show ?thesis using h'(1) assms by (intro that [of h']) (auto simp: first_of_def)
qed

lemma staged_in_range:
  assumes prep: "prepared crc m cs st F" and st: "taken_state crc m cs st" and r: "r \<in> set (all_records crc m cs)"
    and upto: "staged_upto pq sink (keys_of (ph_schemas st)) (sources_of F st) c1 (staging_start st) (staging_groups (staging_start st)) sg c"
  shows "unat (hd_ts (snd r)) \<le> i64_max"
proof -
  let ?R = "all_records crc m cs" and ?g = "fst r"
  have "snd r \<in> set (of_group ?g ?R)" using r by (simp add: in_of_group)
  then obtain h where h: "h \<in> set (group_records ?R ?g)" "ts_id h = ts_id (snd r)" unfolding group_records_def by (rule first_arrival_exists)
  then have mem: "h \<in> set (of_group ?g ?R)" by (simp add: group_records_def)
  have "?g \<in> set (staging_groups (staging_start st))" using group_in_groups [OF prep] h(1) by (metis empty_iff list.set(1))
  moreover have "h \<in> set (first_arrivals (sources_of F st ?g))" using prep h(1) by (simp add: prepared_def Let_def del: set_first_arrivals)
  ultimately have "accepted (keys_of (ph_schemas st) ?g) (head_row (keys_of (ph_schemas st) ?g) h)" using upto unfolding staged_upto_def by blast
  moreover have "sound_record m (?g, h)" using mem all_records_sound by (simp add: in_of_group)
  ultimately have "unat (hd_ts h) \<le> i64_max" using known_schema [OF st mem] by (simp add: sound_record_def)
  then show ?thesis using h(2) by (simp add: ts_id_def)
qed

lemma staging_is_done:
  assumes prep: "prepared crc m cs st F" and st: "taken_state crc m cs st"
    and upto: "staged_upto pq sink (keys_of (ph_schemas st)) (sources_of F st) c1 (staging_start st) (staging_groups (staging_start st)) sg c"
  shows "staging_done sink (all_records crc m cs) st sg c"
proof -
  let ?R = "all_records crc m cs" and ?gs = "staging_groups (staging_start st)"
  have A: "first_arrivals (sources_of F st g) = group_records ?R g" for g using prep by (simp add: prepared_def Let_def)
  have files: "sg_staged sg = group_files sink (sources_of F st) ?gs" using upto by (simp add: staged_upto_def staging_start_def)
  have paths: "distinct (map snd (sg_staged sg))" "set (map snd (sg_staged sg)) \<subseteq> all_outs sink ?gs"
    using group_files_paths [OF staging_groups_start(2)] unfolding files by blast+
  have there: "c p \<noteq> None" if p: "p \<in> set (map snd (sg_staged sg))" for p
  proof -
    obtain g ys where g: "g \<in> set ?gs" "ys \<in> set (hours (first_arrivals (sources_of F st g)))" "p = snd (hour_file sink g ys)"
      using p by (auto simp: files group_files_def)
    then show ?thesis using upto by (fastforce simp: staged_upto_def all_stored_def stored_def)
  qed
  have covers: "snd (hour_file sink g ys) \<in> set (map snd (sg_staged sg))" if "ys \<in> set (hours (group_records ?R g))" for g ys
  proof -
    have "group_records ?R g \<noteq> []" using that by (auto simp: hours_def)
    then have "g \<in> set ?gs" by (rule group_in_groups [OF prep])
    then show ?thesis using that by (force simp: files group_files_def A)
  qed
  have "all_outs sink ?gs \<subseteq> out_paths sink" by (auto simp: all_outs_def out_paths_def)
  with paths have "set (map snd (sg_staged sg)) \<subseteq> out_paths sink" by blast
  with paths(1) there covers staging_counts [OF prep upto] staged_in_range [OF prep st _ upto] show ?thesis unfolding staging_done_def Let_def by blast
qed

lemma staging_done_cong:
  assumes "staging_done sink R st sg c" "\<And>p. p \<in> out_paths sink \<Longrightarrow> c' p = c p" shows "staging_done sink R st sg c'"
proof -
  note d = assms(1) [unfolded staging_done_def Let_def]
  have "c' p \<noteq> None" if "p \<in> set (map snd (sg_staged sg))" for p
  proof -
    have "p \<in> out_paths sink" "c p \<noteq> None" using d that by blast+
    then show ?thesis using assms(2) by simp
  qed
  with d show ?thesis unfolding staging_done_def Let_def by (intro conjI ballI) simp_all
qed

lemma stage_phase_triple:
  fixes pq :: "'s Parquet"
  assumes d: "decoded_all crc m c0 taken left cs st c1" "distinct taken" and sink: "sink = sink_for cfg cs" and R: "R = all_records crc m cs"
    and good: "good \<Longrightarrow> willing pq (cfg_flush cfg) \<and> (\<forall>r\<in>set R. unat (hd_ts (snd r)) \<le> i64_max)"
  shows "triple (at k (\<lambda>c. c = c1)) (stage_outputs pq sink st :: ('m, Staging) eio)
    (\<lambda>sg. at k (\<lambda>c. unflushed sink c0 c \<and> walked c0 taken cs c \<and> stored_rows pq sink m R c \<and> staging_done sink R st sg c))
    (\<lambda>_. at k (\<lambda>c. unflushed sink c0 c \<and> (\<not> k \<or> \<not> good)))"
proof -
  obtain F where F: "prepared crc m cs st F" "\<And>g. hold F (runs_of (staging_start st) g) c1" using decoded_prepared [OF d(1,2)] by blast
  have st: "taken_state crc m cs st" and kept: "wal_kept c0 c1" using d(1) by (auto simp: decoded_all_def taken_files_def)
  have before: "unflushed sink c0 c1" "walked c0 taken cs c1" using kept_unflushed [OF kept] decoded_walked [OF d(1)] by auto
  have fine: "fine pq (snk_flush sink) (keys_of (ph_schemas st) g) (sources_of F st g)" if good for g
  proof -
    have sub: "set (sources_of F st g) \<subseteq> set (of_group g R)" using F(1) by (simp add: prepared_def Let_def R)
    have "accepted (keys_of (ph_schemas st) g) (head_row (keys_of (ph_schemas st) g) h)" if h: "h \<in> set (of_group g R)" for h
    proof -
      have "(g, h) \<in> set R" using h by (simp add: in_of_group)
      then have "sound_record m (g, h)" "unat (hd_ts h) \<le> i64_max" using good [OF \<open>good\<close>] all_records_sound R by fastforce+
      then show ?thesis using known_schema [OF st] h R by (simp add: sound_record_def)
    qed
    then show ?thesis using good [OF that] sub by (auto simp: fine_def sink sink_for_def)
  qed
  have runs: "outside ({p. below runs_dir p} \<union> out_paths sink) c1 c" if "outside (range run_path \<union> out_paths sink) c1 c" for c
    by (rule outside_weaken [OF that]) auto
  have after: "unflushed sink c0 c \<and> walked c0 taken cs c" if "outside (range run_path \<union> out_paths sink) c1 c" for c
  proof -
    have "c (segment_path j) = c1 (segment_path j)" "c (corrupt_path j) = c1 (corrupt_path j)" for j using that by (auto simp: outside_def)
    then have "walked c0 taken cs c" by (intro walked_cong [OF before(2)]) auto
    then show ?thesis using unflushed_cong [OF before(1) runs [OF that]] by blast
  qed
  have post: "unflushed sink c0 c \<and> walked c0 taken cs c \<and> stored_rows pq sink m R c \<and> staging_done sink R st sg c"
    if up: "staged_upto pq sink (keys_of (ph_schemas st)) (sources_of F st) c1 (staging_start st) (staging_groups (staging_start st)) sg c" for sg c
  proof -
    have "ready (keys_of (ph_schemas st)) F (batch_share (ph_batch st)) (staging_start st)" using F(1) by (simp add: prepared_def Let_def)
    note used = used_runs_are_runs [OF this, of "staging_groups (staging_start st)"]
    have "outside (range run_path \<union> out_paths sink) c1 c"
      by (rule outside_weaken [of "used_runs (staging_start st) (staging_groups (staging_start st)) \<union> all_outs sink (staging_groups (staging_start st))"])
        (use up used in \<open>auto simp: staged_upto_def all_outs_def out_paths_def\<close>)
    then show ?thesis using after staged_rows [OF F(1) st up] staging_is_done [OF F(1) st up] R by blast
  qed
  show ?thesis
    by (rule triple_conseq [OF stage_outputs_triple [OF refl _ sources_of_def fine F(2)]])
      (use F(1) post after in \<open>auto simp: at_def prepared_def Let_def\<close>)
qed

section \<open>From the commit on\<close>

text \<open>The files at the commit, and how publication keeps what they say.\<close>

definition at_commit ::
  "'s Parquet \<Rightarrow> (bytes \<Rightarrow> u32) \<Rightarrow> Config \<Rightarrow> Manifest \<Rightarrow> bytes \<Rightarrow> (path \<rightharpoonup> bytes) \<Rightarrow> u64 list \<Rightarrow> (u64 \<times> bytes) list \<Rightarrow> (path \<rightharpoonup> bytes) \<Rightarrow> bool" where
  "at_commit pq crc cfg m json c0 taken cs c \<longleftrightarrow>
     (\<forall>j. held c0 c j) \<and> outside (touched_paths (sink_for cfg cs)) c0 c \<and> c manifest_path = Some (json @ [10]) \<and> walked c0 taken cs c \<and>
     stored_rows pq (sink_for cfg cs) m (all_records crc m cs) c"

lemma at_commit_promoted:
  assumes "at_commit pq crc cfg m json c0 taken cs c1" "promoted (sink_for cfg cs) c1 ps c"
  shows "flushed pq crc cfg m json c0 taken cs c \<and> (\<forall>j. c (segment_path j) = c1 (segment_path j))"
proof -
  let ?sink = "sink_for cfg cs"
  have out: "outside (out_paths ?sink \<union> dest ` out_paths ?sink) c1 c" using assms(2) by (simp add: promoted_def)
  then have same: "c (segment_path j) = c1 (segment_path j)" "c (corrupt_path j) = c1 (corrupt_path j)" "c manifest_path = c1 manifest_path" for j
    unfolding outside_def by simp_all
  have "outside (touched_paths ?sink) c0 c" by (rule outside_trans [OF _ out]) (use assms(1) in \<open>auto simp: at_commit_def touched_paths_def\<close>)
  moreover have "walked c0 taken cs c" by (rule walked_cong [of _ _ _ c1]) (use assms(1) same in \<open>auto simp: at_commit_def\<close>)
  moreover have "safe_rows pq ?sink m (all_records crc m cs) c" by (rule promoted_safe [OF _ assms(2)]) (use assms(1) in \<open>simp add: at_commit_def\<close>)
  ultimately show ?thesis using assms(1) same by (simp add: flushed_def at_commit_def held_def aside_def)
qed

lemma removed_other: "removed (segment_path ` S) c1 c \<Longrightarrow> (\<And>i. q \<noteq> segment_path i) \<Longrightarrow> c q = c1 q"
  unfolding removed_def by blast

lemma flushed_removed:
  assumes "flushed pq crc cfg m json c0 taken cs c1" "removed (segment_path ` fst ` set cs) c1 c"
  shows "flushed pq crc cfg m json c0 taken cs c"
proof -
  let ?sink = "sink_for cfg cs"
  have same: "c q = c1 q" if "q \<notin> range segment_path" for q using assms(2) that unfolding removed_def by blast
  have cm: "c (corrupt_path j) = c1 (corrupt_path j)" "c manifest_path = c1 manifest_path" for j by (rule same, force)+
  have seg: "c (segment_path j) = c1 (segment_path j) \<or> j \<in> fst ` set cs \<and> c (segment_path j) = None" for j
    using assms(2) unfolding removed_def by (metis (no_types, lifting) imageE segment_path_inject)
  have "held c0 c j \<or> j \<in> fst ` set cs \<and> c (segment_path j) = None" for j
    using seg [of j] cm assms(1) by (auto simp: flushed_def held_def aside_def)
  moreover have "outside (touched_paths ?sink) c0 c"
    by (rule outside_trans [of "touched_paths ?sink" c0 c1 "range segment_path"]) (use assms(1) same in \<open>auto simp: flushed_def touched_paths_def outside_def\<close>)
  moreover have "walked c0 taken cs c"
  proof (rule walked_cong [of _ _ _ c1])
    show "c (segment_path j) = None" if "c1 (segment_path j) = None" for j using seg [of j] that by auto
  qed (use assms(1) cm in \<open>simp_all add: flushed_def\<close>)
  moreover have "safe_rows pq ?sink m (all_records crc m cs) c"
  proof (rule safe_rows_cong [of _ _ _ _ c1])
    show "c p = c1 p \<and> c (dest p) = c1 (dest p)" if "p \<in> out_paths ?sink" for p
      using removed_other [OF assms(2)] out_not_short(2,9) [OF that] by simp
  qed (use assms(1) in \<open>simp add: flushed_def\<close>)
  ultimately show ?thesis using assms(1) cm by (simp add: flushed_def)
qed

lemma flushed_beside:
  assumes "flushed pq crc cfg m json c0 taken cs c1" "outside S c1 c" "S \<subseteq> touched_paths (sink_for cfg cs)"
    "range segment_path \<inter> S = {}" "range corrupt_path \<inter> S = {}" "manifest_path \<notin> S" "(out_paths (sink_for cfg cs) \<union> dest ` out_paths (sink_for cfg cs)) \<inter> S = {}"
  shows "flushed pq crc cfg m json c0 taken cs c"
proof -
  let ?sink = "sink_for cfg cs"
  have same: "c q = c1 q" if "q \<notin> S" for q using assms(2) that by (auto simp: outside_def)
  have cm: "c (corrupt_path j) = c1 (corrupt_path j)" "c manifest_path = c1 manifest_path" "c (segment_path j) = c1 (segment_path j)" for j
    by (rule same; use assms(4-6) in blast)+
  have "outside (touched_paths ?sink) c0 c" by (rule outside_trans [OF _ assms(2) subset_refl assms(3)]) (use assms(1) in \<open>simp add: flushed_def\<close>)
  moreover have "walked c0 taken cs c" by (rule walked_cong [of _ _ _ c1]) (use assms(1) cm in \<open>auto simp: flushed_def\<close>)
  moreover have "safe_rows pq ?sink m (all_records crc m cs) c"
  proof (rule safe_rows_cong [of _ _ _ _ c1])
    show "c p = c1 p \<and> c (dest p) = c1 (dest p)" if "p \<in> out_paths ?sink" for p using assms(7) that by (intro conjI same) blast+
  qed (use assms(1) in \<open>simp add: flushed_def\<close>)
  ultimately show ?thesis using assms(1) cm by (simp add: flushed_def held_def aside_def)
qed

lemma flushed_views:
  assumes "flushed pq crc cfg m json c0 taken cs c1" "outside (range view_path) c1 c"
  shows "flushed pq crc cfg m json c0 taken cs c"
proof (rule flushed_beside [OF assms])
  have "p \<notin> range view_path" "dest p \<notin> range view_path" if "p \<in> out_paths (sink_for cfg cs)" for p
    using out_not_short(7,14) [OF that] by (simp_all add: image_iff)
  then show "(out_paths (sink_for cfg cs) \<union> dest ` out_paths (sink_for cfg cs)) \<inter> range view_path = {}" by blast
qed (auto simp: touched_paths_def)

lemma flushed_runs:
  assumes "flushed pq crc cfg m json c0 taken cs c1" "outside {p. below runs_dir p} c1 c"
  shows "flushed pq crc cfg m json c0 taken cs c"
  by (rule flushed_beside [OF assms]) (auto simp: touched_paths_def)

text \<open>Everything is published and the consumed segments are gone.\<close>

definition published :: "'s Parquet \<Rightarrow> Config \<Rightarrow> (bytes \<Rightarrow> u32) \<Rightarrow> Manifest \<Rightarrow> (u64 \<times> bytes) list \<Rightarrow> (path \<rightharpoonup> bytes) \<Rightarrow> bool" where
  "published pq cfg crc m cs c \<longleftrightarrow>
     (let sink = sink_for cfg cs; R = all_records crc m cs in
      \<forall>g. \<forall>ys\<in>set (hours (group_records R g)). \<exists>bs. output_bytes pq (snk_flush sink) g (schema_keys m g) ys = Inr bs \<and>
        c (dest (snd (hour_file sink g ys))) = Some bs)"

lemma promoted_published:
  assumes "at_commit pq crc cfg m json c0 taken cs c1" "promoted (sink_for cfg cs) c1 ps c"
    "\<forall>g. \<forall>ys\<in>set (hours (group_records (all_records crc m cs) g)). snd (hour_file (sink_for cfg cs) g ys) \<in> set ps"
  shows "published pq cfg crc m cs c"
proof -
  have "c (dest p) = c1 p" if "p \<in> set ps" "p \<in> out_paths (sink_for cfg cs)" for p using assms(2) that by (auto simp: promoted_def)
  then have "c (dest (snd (hour_file (sink_for cfg cs) g ys))) = c1 (snd (hour_file (sink_for cfg cs) g ys))"
    if "ys \<in> set (hours (group_records (all_records crc m cs) g))" for g ys
    using assms(3) that staged_in_outs by blast
  then show ?thesis using assms(1) unfolding published_def at_commit_def stored_rows_def stored_def Let_def by metis
qed

lemma published_cong: "published pq cfg crc m cs c \<Longrightarrow> (\<And>p. p \<in> out_paths (sink_for cfg cs) \<Longrightarrow> c' (dest p) = c (dest p)) \<Longrightarrow> published pq cfg crc m cs c'"
  unfolding published_def Let_def by (simp add: staged_in_outs)

lemma publish_files_triple:
  fixes pq :: "'s Parquet"
  assumes c1: "at_commit pq crc cfg m json c0 taken cs c1" and done': "staging_done (sink_for cfg cs) (all_records crc m cs) st sg c1"
  shows "triple (at k (\<lambda>c. c = c1))
    (seq (for_each promote (map snd (sg_staged sg))) (\<lambda>_. seq (delete_segments (map fst cs)) (\<lambda>_. regenerate_views m' names)) :: ('m, unit) eio)
    (\<lambda>_. at k (\<lambda>c. flushed pq crc cfg m json c0 taken cs c \<and> published pq cfg crc m cs c \<and> (\<forall>x\<in>set cs. c (segment_path (fst x)) = None)))
    (\<lambda>_. at k (\<lambda>c. \<not> k \<and> flushed pq crc cfg m json c0 taken cs c))"
proof -
  let ?sink = "sink_for cfg cs" and ?ps = "map snd (sg_staged sg)"
  let ?E = "\<lambda>_. at k (\<lambda>c. \<not> k \<and> flushed pq crc cfg m json c0 taken cs c)"
  let ?P = "\<lambda>c. flushed pq crc cfg m json c0 taken cs c \<and> published pq cfg crc m cs c"
  let ?Q = "\<lambda>c. ?P c \<and> (\<forall>x\<in>set cs. c (segment_path (fst x)) = None)"
  have moved: "?P c" if "promoted ?sink c1 ?ps c" for c
    using at_commit_promoted [OF c1 that] promoted_published [OF c1 that] done' by (simp add: staging_done_def Let_def)
  have ps: "distinct ?ps" "set ?ps \<subseteq> out_paths ?sink" "\<forall>p\<in>set ?ps. c1 p \<noteq> None" using done' by (simp_all add: staging_done_def Let_def)
  have lost: "flushed pq crc cfg m json c0 taken cs c" if "promoted ?sink c1 qs c" for qs c using at_commit_promoted [OF c1 that] by simp
  have promote: "triple (at k (\<lambda>c. c = c1)) (for_each promote ?ps :: ('m, unit) eio) (\<lambda>_. at k ?P) ?E"
    by (rule triple_at_conseq [OF promotes_triple [OF ps]]) (use moved lost in blast)+
  have gone: "?P c" if P: "?P c2" and gone: "removed (segment_path ` set (map fst cs)) c2 c" for c2 c
  proof -
    have "c (dest p) = c2 (dest p)" if "p \<in> out_paths ?sink" for p
      by (rule removed_other [OF gone]) (rule out_not_short(9) [OF that])
    then have "published pq cfg crc m cs c" using P by (intro published_cong [of pq cfg crc m cs c2 c]) simp_all
    moreover have "flushed pq crc cfg m json c0 taken cs c" by (rule flushed_removed [of _ _ _ _ _ _ _ _ c2]) (use P gone in simp_all)
    ultimately show ?thesis by simp
  qed
  have delete: "triple (at k ?P) (delete_segments (map fst cs) :: ('m, unit) eio) (\<lambda>_. at k ?Q) ?E"
  proof (rule triple_at_fix)
    fix c2 assume c2: "?P c2"
    show "triple (at k (\<lambda>c. c = c2)) (delete_segments (map fst cs) :: ('m, unit) eio) (\<lambda>_. at k ?Q) ?E"
    proof (rule triple_at_conseq [OF delete_segments_triple])
      show "?Q c" if "removed (segment_path ` set (map fst cs)) c2 c \<and> (\<forall>i\<in>set (map fst cs). c (segment_path i) = None)" for c
        using gone [OF c2] that by simp
      show "\<not> k \<and> flushed pq crc cfg m json c0 taken cs c" if "\<not> k \<and> removed (segment_path ` set (map fst cs)) c2 c" for c
        using gone [OF c2] that by simp
    qed
  qed
  have views: "triple (at k ?Q) (regenerate_views m' names :: ('m, unit) eio) (\<lambda>_. at k ?Q) ?E"
  proof (rule regenerate_views_triple)
    fix c c' assume c: "?Q c" and out: "outside (range view_path) c c'"
    have "c' (dest p) = c (dest p)" if "p \<in> out_paths ?sink" for p using out out_not_short(14) [OF that] by (auto simp: outside_def)
    then have "published pq cfg crc m cs c'" using c by (intro published_cong [of pq cfg crc m cs c c']) simp_all
    moreover have "flushed pq crc cfg m json c0 taken cs c'" by (rule flushed_views [OF _ out]) (use c in simp)
    moreover have "c' (segment_path j) = c (segment_path j)" for j
    proof -
      have "segment_path j \<notin> range view_path" by auto
      with out show ?thesis by (simp add: outside_def)
    qed
    ultimately show "?Q c'" using c by simp
  qed
  show ?thesis by (rule triple_seq [OF promote], rule triple_seq [OF delete], rule triple_conseq [OF views]) auto
qed

section \<open>The whole flush\<close>

text \<open>Predicates on the manifest in memory and the files.\<close>

definition pair_at :: "bool \<Rightarrow> (Manifest \<Rightarrow> (path \<rightharpoonup> bytes) \<Rightarrow> bool) \<Rightarrow> Manifest \<times> 'm Disk_scheme \<Rightarrow> bool" where
  "pair_at k P s \<longleftrightarrow> at k (P (fst s)) (snd s)"

lemma on_disk_triple:
  assumes "\<And>m. triple (at k (P m)) e (\<lambda>x. at k (Q x m)) (\<lambda>x. at k (E x m))"
  shows "triple (pair_at k P) (on_disk e) (\<lambda>x. pair_at k (Q x)) (\<lambda>x. pair_at k (E x))"
  by (rule tripleI) (auto simp: pair_at_def on_disk_def split: prod.splits dest: triple_Inr [OF assms] triple_Inl [OF assms])

text \<open>How a flush may end, whatever is refused: nothing was committed, or everything consumed is safe.\<close>

definition settled ::
  "'s Parquet \<Rightarrow> (bytes \<Rightarrow> u32) \<Rightarrow> (Manifest \<Rightarrow> string + bytes) \<Rightarrow> u64 \<Rightarrow> Config \<Rightarrow> Manifest \<Rightarrow> (path \<rightharpoonup> bytes) \<Rightarrow> u64 list \<Rightarrow>
     Manifest \<Rightarrow> (path \<rightharpoonup> bytes) \<Rightarrow> bool" where
  "settled pq crc to_json now cfg m c0 ids m' c \<longleftrightarrow>
     (\<exists>sink. unflushed sink c0 c) \<or>
     (\<exists>taken cs json. prefix taken ids \<and> cs \<noteq> [] \<and> m' = marked m now (fst (last cs)) \<and> to_json m' = Inr json \<and> flushed pq crc cfg m json c0 taken cs c)"

lemma commit_watermark_triple:
  fixes pq :: "'s Parquet"
  assumes cs: "cs \<noteq> []" "prefix taken ids" and sink: "sink = sink_for cfg cs" and m': "m' = marked m now (fst (last cs))"
    and c1: "unflushed sink c0 c1" "walked c0 taken cs c1" "stored_rows pq sink m (all_records crc m cs) c1" "staging_done sink (all_records crc m cs) st sg c1"
  shows "triple (pair_at k (\<lambda>m1 c. m1 = m \<and> c = c1)) (commit_watermark to_json now (snk_last sink) :: ('m, unit) flush)
    (\<lambda>_. pair_at k (\<lambda>m1 c. m1 = m' \<and> (\<exists>json. to_json m' = Inr json \<and> at_commit pq crc cfg m json c0 taken cs c \<and> staging_done sink (all_records crc m cs) st sg c)))
    (\<lambda>_. pair_at k (\<lambda>m1 c. settled pq crc to_json now cfg m c0 ids m1 c \<and> (\<not> k \<or> isl (to_json m'))))"
proof -
  have last: "m\<lparr>last_flushed_segment := max (last_flushed_segment m) (snk_last sink), last_flush_at := Some now\<rparr> = m'"
    by (simp add: m' marked_def sink sink_for_def)
  let ?E = "\<lambda>c. settled pq crc to_json now cfg m c0 ids m' c \<and> (\<not> k \<or> isl (to_json m'))"
  let ?Q = "\<lambda>c. \<exists>json. to_json m' = Inr json \<and> at_commit pq crc cfg m json c0 taken cs c \<and> staging_done sink (all_records crc m cs) st sg c"
  have old: "settled pq crc to_json now cfg m c0 ids m' c1" using c1(1) by (auto simp: settled_def)
  have commit: "triple (at k (\<lambda>c. c = c1)) (manifest_commit to_json m' :: ('m, unit) eio) (\<lambda>_. at k ?Q) (\<lambda>_. at k ?E)"
  proof (cases "to_json m'")
    case (Inl why)
    then show ?thesis using old by (auto simp: manifest_commit_def triple_def at_def)
  next
    case (Inr json)
    have new: "at_commit pq crc cfg m json c0 taken cs c \<and> staging_done sink (all_records crc m cs) st sg c"
      if c: "committing c1 json c" "c manifest_path = Some (json @ [10])" for c
    proof -
      have same: "c p = c1 p" if "p \<noteq> manifest_path" "p \<noteq> manifest_tmp_path" for p using c(1) that by (simp add: committing_def)
      then have out: "c p = c1 p" if "p \<in> out_paths sink" for p using out_not_short(5,6) [OF that] by simp
      have seg: "c (segment_path j) = c1 (segment_path j)" "c (corrupt_path j) = c1 (corrupt_path j)" for j by (rule same; simp)+
      have "stored_rows pq sink m (all_records crc m cs) c" by (rule stored_rows_cong [OF c1(3) out])
      moreover have "staging_done sink (all_records crc m cs) st sg c" by (rule staging_done_cong [OF c1(4) out])
      moreover have "walked c0 taken cs c" by (rule walked_cong [OF c1(2)]) (simp_all add: seg)
      moreover have "outside (touched_paths sink) c0 c"
        by (rule outside_trans [of "touched_paths sink" c0 c1 "{manifest_path, manifest_tmp_path}"]) (use c1(1) same in \<open>auto simp: unflushed_def outside_def touched_paths_def\<close>)
      ultimately show ?thesis using c1(1) c(2) seg by (simp add: at_commit_def sink unflushed_def held_def aside_def)
    qed
    have fail: "settled pq crc to_json now cfg m c0 ids m' c" if c: "committing c1 json c" for c
    proof (cases "c manifest_path = c1 manifest_path")
      case True
      have same: "c p = c1 p" if "p \<noteq> manifest_tmp_path" for p using c True that by (cases "p = manifest_path") (simp_all add: committing_def)
      have seg: "c (segment_path j) = c1 (segment_path j)" "c (corrupt_path j) = c1 (corrupt_path j)" "c manifest_path = c1 manifest_path" for j by (rule same; simp)+
      have "outside (touched_paths sink) c0 c"
        by (rule outside_trans [of "touched_paths sink" c0 c1 "{manifest_tmp_path}"]) (use c1(1) same in \<open>auto simp: unflushed_def outside_def touched_paths_def\<close>)
      then have "unflushed sink c0 c" using c1(1) seg by (simp add: unflushed_def held_def aside_def)
      then show ?thesis by (auto simp: settled_def)
    next
      case False
      then have "at_commit pq crc cfg m json c0 taken cs c" using new [OF c] c by (auto simp: committing_def)
      moreover have "promoted (sink_for cfg cs) c [] c" by (simp add: promoted_def outside_def)
      ultimately have "flushed pq crc cfg m json c0 taken cs c" using at_commit_promoted by blast
      then show ?thesis using cs m' Inr by (auto simp: settled_def)
    qed
    show ?thesis
      by (rule triple_conseq [OF manifest_commit_triple [of to_json m' json, OF Inr]]) (use new fail Inr in \<open>auto simp: at_def\<close>)
  qed
  have run: "\<exists>d d'. s = (m, d) \<and> at k (\<lambda>c. c = c1) d \<and> manifest_commit to_json m' d = (r, d') \<and> s' = (m', d')"
    if "pair_at k (\<lambda>m1 c. m1 = m \<and> c = c1) s" "commit_watermark to_json now (snk_last sink) s = (r, s')" for s s' :: "Manifest \<times> 'm Disk_scheme" and r
    using that last by (cases s) (auto simp: pair_at_def at_def commit_watermark_def Let_def split: prod.splits)
  show ?thesis
    by (rule tripleI) (use run triple_Inr [OF commit] triple_Inl [OF commit] in \<open>fastforce simp: pair_at_def\<close>)+
qed

text \<open>Nothing in the way: the packages accept, every segment is there, every timestamp fits the output format.\<close>

definition fit :: "'s Parquet \<Rightarrow> (bytes \<Rightarrow> u32) \<Rightarrow> (Manifest \<Rightarrow> string + bytes) \<Rightarrow> u64 \<Rightarrow> Config \<Rightarrow> Manifest \<Rightarrow> (path \<rightharpoonup> bytes) \<Rightarrow> u64 list \<Rightarrow> bool" where
  "fit pq crc to_json now cfg m c0 ids \<longleftrightarrow>
     willing pq (cfg_flush cfg) \<and> (\<forall>w. \<not> isl (to_json (marked m now w))) \<and>
     (\<forall>i\<in>set ids. \<exists>buf. c0 (segment_path i) = Some buf \<and> (\<forall>r\<in>set (segment_records crc m i buf). unat (hd_ts (snd r)) \<le> i64_max))"

end
