(* ===== verification/Orc_Flush_Run.thy ===== *)
theory Orc_Flush_Run
  imports Orc_Flush
begin

text \<open>
  The whole of \<open>Planner::run\<close>: whatever is refused, a flush leaves every record it was given
  in \<open>wal/\<close>, set aside, or in an output file the committed manifest covers; and a flush that
  nothing stands in the way of returns, with every file published and the counts that add up.
\<close>

section \<open>The manifest in memory and the files\<close>

lemma on_disk_fixed:
  assumes "triple (at k P) e (\<lambda>x. at k (Q x)) (\<lambda>x. at k (E x))"
  shows "triple (pair_at k (\<lambda>m1 c. m1 = m \<and> P c)) (on_disk e) (\<lambda>x. pair_at k (\<lambda>m1 c. m1 = m \<and> Q x c)) (\<lambda>x. pair_at k (\<lambda>m1 c. m1 = m \<and> E x c))"
proof (rule on_disk_triple)
  fix m1
  show "triple (at k (\<lambda>c. m1 = m \<and> P c)) e (\<lambda>x. at k (\<lambda>c. m1 = m \<and> Q x c)) (\<lambda>x. at k (\<lambda>c. m1 = m \<and> E x c))"
    by (rule triple_at_assume) (rule triple_at_conseq [OF assms]; simp)
qed

lemma pair_conseq:
  assumes "triple (pair_at k P) e (\<lambda>x. pair_at k (Q x)) (\<lambda>x. pair_at k (E x))"
    "\<And>m c. P' m c \<Longrightarrow> P m c" "\<And>x m c. Q x m c \<Longrightarrow> Q' x m c" "\<And>x m c. E x m c \<Longrightarrow> E' x m c"
  shows "triple (pair_at k P') e (\<lambda>x. pair_at k (Q' x)) (\<lambda>x. pair_at k (E' x))"
  by (rule triple_conseq [OF assms(1)]) (auto simp: pair_at_def at_def assms(2-))

lemma pair_fix:
  assumes "\<And>m c1. P m c1 \<Longrightarrow> triple (pair_at k (\<lambda>m1 c. m1 = m \<and> c = c1)) e Q E" shows "triple (pair_at k P) e Q E"
  using assms by (fastforce simp: triple_def pair_at_def at_def)

lemma triple_same:
  assumes "triple P e Q E" "\<And>s. P s \<Longrightarrow> e' s = e s" shows "triple P e' Q E"
  using assms by (simp add: triple_def)

text \<open>What a flush that returns has done.\<close>

definition reported ::
  "'s Parquet \<Rightarrow> (bytes \<Rightarrow> u32) \<Rightarrow> u64 \<Rightarrow> Config \<Rightarrow> Manifest \<Rightarrow> (u64 \<times> bytes) list \<Rightarrow> FlushOutcome \<Rightarrow> Manifest \<Rightarrow> (path \<rightharpoonup> bytes) \<Rightarrow> bool" where
  "reported pq crc now cfg m cs out m' c \<longleftrightarrow>
     (let R = all_records crc m cs in
      m' = marked m now (fst (last cs)) \<and> published pq cfg crc m cs c \<and> (\<forall>x\<in>set cs. c (segment_path (fst x)) = None) \<and>
      segments_consumed out = map fst cs \<and> rows_written out = total_rows R \<and> rows_written out + rows_deduplicated out = length R \<and>
      (\<forall>r\<in>set R. unat (hd_ts (snd r)) \<le> i64_max))"

definition completed ::
  "'s Parquet \<Rightarrow> (bytes \<Rightarrow> u32) \<Rightarrow> u64 \<Rightarrow> Config \<Rightarrow> Manifest \<Rightarrow> bool \<Rightarrow> (path \<rightharpoonup> bytes) \<Rightarrow> u64 list \<Rightarrow> FlushOutcome \<Rightarrow> Manifest \<Rightarrow> (path \<rightharpoonup> bytes) \<Rightarrow> bool" where
  "completed pq crc now cfg m k c0 ids out m' c \<longleftrightarrow>
     (\<exists>taken cs. prefix taken ids \<and> (k \<longrightarrow> taken = ids) \<and> walked c0 taken cs c \<and>
        (all_records crc m cs \<noteq> [] \<longrightarrow> reported pq crc now cfg m cs out m' c))"

section \<open>After the first phase\<close>

definition finish_flush ::
  "'s Parquet \<Rightarrow> (Manifest \<Rightarrow> string + bytes) \<Rightarrow> u64 \<Rightarrow> Sink \<Rightarrow> Phase1 \<Rightarrow> ('m, FlushOutcome) flush" where
  "finish_flush pq to_json now sink st =
     seq (on_disk (stage_outputs pq sink st)) (\<lambda>sg.
     seq (on_disk (fsync_staging (map snd (sg_staged sg)))) (\<lambda>_.
     seq (commit_watermark to_json now (snk_last sink)) (\<lambda>_.
     seq (publish (map snd (sg_staged sg)) (ph_consumed st) (spl_touched (ph_spill st))) (\<lambda>_.
     ok (flush_outcome st sg)))))"

text \<open>What is true of the files once everything is staged.\<close>

definition staged_all ::
  "'s Parquet \<Rightarrow> (bytes \<Rightarrow> u32) \<Rightarrow> Config \<Rightarrow> Manifest \<Rightarrow> (path \<rightharpoonup> bytes) \<Rightarrow> u64 list \<Rightarrow> (u64 \<times> bytes) list \<Rightarrow> Phase1 \<Rightarrow> Staging \<Rightarrow> (path \<rightharpoonup> bytes) \<Rightarrow> bool" where
  "staged_all pq crc cfg m c0 taken cs st sg c \<longleftrightarrow>
     unflushed (sink_for cfg cs) c0 c \<and> walked c0 taken cs c \<and> stored_rows pq (sink_for cfg cs) m (all_records crc m cs) c \<and>
     staging_done (sink_for cfg cs) (all_records crc m cs) st sg c"

lemma taken_fits:
  assumes "decoded_all crc m c0 taken left cs st c1" "prefix taken ids" "fit pq crc to_json now cfg m c0 ids"
  shows "willing pq (cfg_flush cfg) \<and> (\<forall>r\<in>set (all_records crc m cs). unat (hd_ts (snd r)) \<le> i64_max)"
proof -
  have "subseq (map fst cs) taken" using assms(1) by (simp add: decoded_all_def taken_files_def)
  then have "fst x \<in> set ids" if "x \<in> set cs" for x using that set_mono_prefix [OF assms(2)] by (force elim: list_emb_set)
  moreover have "c0 (segment_path (fst x)) = Some (snd x)" if "x \<in> set cs" for x using assms(1) that by (simp add: decoded_all_def taken_files_def)
  ultimately show ?thesis using assms(3) by (fastforce simp: fit_def all_records_def)
qed

lemma publish_triple:
  fixes pq :: "'s Parquet"
  assumes c1: "at_commit pq crc cfg m json c0 taken cs c1" "staging_done (sink_for cfg cs) (all_records crc m cs) st sg c1"
  shows "triple (pair_at k (\<lambda>m1 c. m1 = m' \<and> c = c1)) (publish (map snd (sg_staged sg)) (map fst cs) names :: ('m, unit) flush)
    (\<lambda>_. pair_at k (\<lambda>m1 c. m1 = m' \<and> flushed pq crc cfg m json c0 taken cs c \<and> published pq cfg crc m cs c \<and> (\<forall>x\<in>set cs. c (segment_path (fst x)) = None)))
    (\<lambda>_. pair_at k (\<lambda>m1 c. m1 = m' \<and> \<not> k \<and> flushed pq crc cfg m json c0 taken cs c))"
proof -
  note files = on_disk_fixed [OF publish_files_triple [OF c1, where m' = m' and names = names], where m = m']
  show ?thesis by (rule triple_same [OF files]) (auto simp: publish_def pair_at_def at_def)
qed

lemma outcome_reported:
  assumes "ph_consumed st = map fst cs" "staging_done (sink_for cfg cs) (all_records crc m cs) st sg c2"
    "published pq cfg crc m cs c" "\<forall>x\<in>set cs. c (segment_path (fst x)) = None"
  shows "reported pq crc now cfg m cs (flush_outcome st sg) (marked m now (fst (last cs))) c"
  using assms by (simp add: reported_def flush_outcome_def staging_done_def Let_def)

text \<open>Once the manifest is committed, publishing settles the flush, and completes it if it is not refused.\<close>

lemma publish_settles:
  fixes pq :: "'s Parquet"
  assumes d: "decoded_all crc m c0 taken left cs st c1" "prefix taken ids" "k \<longrightarrow> taken = ids" and cs: "cs \<noteq> []" and m': "m' = marked m now (fst (last cs))"
  shows "triple (pair_at k (\<lambda>m1 c. m1 = m' \<and> (\<exists>json. to_json m' = Inr json \<and> at_commit pq crc cfg m json c0 taken cs c \<and>
        staging_done (sink_for cfg cs) (all_records crc m cs) st sg c)))
      (publish (map snd (sg_staged sg)) (ph_consumed st) names :: ('m, unit) flush)
      (\<lambda>_. pair_at k (\<lambda>m1 c. settled pq crc to_json now cfg m c0 ids m1 c \<and> completed pq crc now cfg m k c0 ids (flush_outcome st sg) m1 c))
      (\<lambda>_. pair_at k (\<lambda>m1 c. settled pq crc to_json now cfg m c0 ids m1 c \<and> \<not> k))"
proof (rule pair_fix, elim conjE exE, hypsubst)
  fix c2 json assume c2: "to_json m' = Inr json" "at_commit pq crc cfg m json c0 taken cs c2" "staging_done (sink_for cfg cs) (all_records crc m cs) st sg c2"
  have consumed: "ph_consumed st = map fst cs" using d(1) by (simp add: decoded_all_def taken_state_def)
  have new: "settled pq crc to_json now cfg m c0 ids m' c" if "flushed pq crc cfg m json c0 taken cs c" for c
    using that c2(1) d(2) cs m' by (auto simp: settled_def)
  have "settled pq crc to_json now cfg m c0 ids m' c \<and> completed pq crc now cfg m k c0 ids (flush_outcome st sg) m' c"
    if c: "flushed pq crc cfg m json c0 taken cs c" "published pq cfg crc m cs c" "\<forall>x\<in>set cs. c (segment_path (fst x)) = None" for c
  proof -
    have "reported pq crc now cfg m cs (flush_outcome st sg) m' c" unfolding m' by (rule outcome_reported [OF consumed c2(3) c(2,3)])
    moreover have "walked c0 taken cs c" using c(1) by (simp add: flushed_def)
    ultimately show ?thesis using new [OF c(1)] d(2,3) unfolding completed_def by blast
  qed
  then show "triple (pair_at k (\<lambda>m1 c. m1 = m' \<and> c = c2)) (publish (map snd (sg_staged sg)) (ph_consumed st) names :: ('m, unit) flush)
    (\<lambda>_. pair_at k (\<lambda>m1 c. settled pq crc to_json now cfg m c0 ids m1 c \<and> completed pq crc now cfg m k c0 ids (flush_outcome st sg) m1 c))
    (\<lambda>_. pair_at k (\<lambda>m1 c. settled pq crc to_json now cfg m c0 ids m1 c \<and> \<not> k))"
    unfolding consumed by (intro pair_conseq [OF publish_triple [OF c2(2,3)]]) (use new in blast)+
qed

lemma finish_flush_triple:
  fixes pq :: "'s Parquet"
  assumes d: "decoded_all crc m c0 taken left cs st c1" "distinct taken" "prefix taken ids" "k \<longrightarrow> taken = ids" and cs: "cs \<noteq> []"
    and good: "good \<Longrightarrow> fit pq crc to_json now cfg m c0 ids"
  shows "triple (pair_at k (\<lambda>m1 c. m1 = m \<and> c = c1)) (finish_flush pq to_json now (sink_for cfg cs) st :: ('m, FlushOutcome) flush)
    (\<lambda>out. pair_at k (\<lambda>m1 c. settled pq crc to_json now cfg m c0 ids m1 c \<and> completed pq crc now cfg m k c0 ids out m1 c))
    (\<lambda>_. pair_at k (\<lambda>m1 c. settled pq crc to_json now cfg m c0 ids m1 c \<and> (\<not> k \<or> \<not> good)))"
proof -
  let ?sink = "sink_for cfg cs" and ?m' = "marked m now (fst (last cs))"
  let ?E = "\<lambda>_. pair_at k (\<lambda>m1 c. settled pq crc to_json now cfg m c0 ids m1 c \<and> (\<not> k \<or> \<not> good))"
  have old: "settled pq crc to_json now cfg m c0 ids m1 c" if "unflushed ?sink c0 c" for m1 c using that by (auto simp: settled_def)
  have stage: "triple (pair_at k (\<lambda>m1 c. m1 = m \<and> c = c1)) (on_disk (stage_outputs pq ?sink st) :: ('m, Staging) flush)
      (\<lambda>sg. pair_at k (\<lambda>m1 c. m1 = m \<and> staged_all pq crc cfg m c0 taken cs st sg c)) ?E"
    by (rule pair_conseq [OF on_disk_fixed [OF stage_phase_triple [OF d(1,2) refl refl, where good = good, OF taken_fits [OF d(1,3) good]]]])
      (use old in \<open>simp_all add: staged_all_def\<close>)
  have fsync: "triple (pair_at k (\<lambda>m1 c. m1 = m \<and> staged_all pq crc cfg m c0 taken cs st sg c)) (on_disk (fsync_staging (map snd (sg_staged sg))) :: ('m, unit) flush)
      (\<lambda>_. pair_at k (\<lambda>m1 c. m1 = m \<and> staged_all pq crc cfg m c0 taken cs st sg c)) ?E" for sg
    by (rule pair_conseq [OF on_disk_fixed [OF fsync_staging_triple]]) (use old in \<open>auto simp: staged_all_def\<close>)
  let ?C = "\<lambda>sg m1 c. m1 = ?m' \<and> (\<exists>json. to_json ?m' = Inr json \<and> at_commit pq crc cfg m json c0 taken cs c \<and> staging_done ?sink (all_records crc m cs) st sg c)"
  have commit: "triple (pair_at k (\<lambda>m1 c. m1 = m \<and> staged_all pq crc cfg m c0 taken cs st sg c)) (commit_watermark to_json now (snk_last ?sink) :: ('m, unit) flush)
      (\<lambda>_. pair_at k (?C sg)) ?E" for sg
  proof (rule pair_fix, elim conjE, hypsubst)
    fix c2 assume "staged_all pq crc cfg m c0 taken cs st sg c2"
    then show "triple (pair_at k (\<lambda>m1 c. m1 = m \<and> c = c2)) (commit_watermark to_json now (snk_last ?sink) :: ('m, unit) flush) (\<lambda>_. pair_at k (?C sg)) ?E"
      by (intro pair_conseq [OF commit_watermark_triple [OF cs d(3) refl refl]])
        (use good in \<open>auto simp: staged_all_def fit_def\<close>)
  qed
  have publish: "triple (pair_at k (?C sg)) (publish (map snd (sg_staged sg)) (ph_consumed st) names :: ('m, unit) flush)
      (\<lambda>_. pair_at k (\<lambda>m1 c. settled pq crc to_json now cfg m c0 ids m1 c \<and> completed pq crc now cfg m k c0 ids (flush_outcome st sg) m1 c)) ?E" for sg names
    by (rule pair_conseq [OF publish_settles [OF d(1,3,4) cs refl]]) auto
  show ?thesis
    unfolding finish_flush_def
    by (rule triple_seq [OF stage], rule triple_seq [OF fsync], rule triple_seq [OF commit], rule triple_seq [OF publish]) (rule triple_ok)
qed

section \<open>Both phases\<close>

abbreviation no_spill :: Spill where
  "no_spill \<equiv> \<lparr>spl_next = 0, spl_groups = [], spl_touched = []\<rparr>"

lemma decoding_starts: "decoded_all crc m c0 [] ids [] (phase1_start cap no_spill) c0"
proof -
  have "taken_files c0 [] ids [] c0" by (simp add: taken_files_def wal_kept_def held_def outside_def)
  moreover have "taken_state crc m [] (phase1_start cap no_spill)"
    by (simp add: taken_state_def phase1_start_def all_records_def batch_default_def wf_batch_def)
  moreover have "runs_hold (all_records crc m []) no_spill batch_default c0"
    by (auto simp: runs_hold_def gathered_def gathered_group_def run_of_def all_records_def batch_default_def batch_records_def
        run_total_def hold_def intro: reduces_refl)
  ultimately show ?thesis by (simp add: decoded_all_def phase1_start_def)
qed

definition resume_flush ::
  "'s Parquet \<Rightarrow> (Manifest \<Rightarrow> string + bytes) \<Rightarrow> u64 \<Rightarrow> Config \<Rightarrow> Phase1 \<Rightarrow> ('m, FlushOutcome) flush" where
  "resume_flush pq to_json now cfg st =
     (if ph_consumed st = [] then ok (outcome_default\<lparr>frames_rejected := ph_rejected st, bytes_skipped := ph_skipped st\<rparr>)
      else if ph_rows st = 0 \<and> ph_rejected st = 0 \<and> ph_skipped st = 0 then ok outcome_default
      else finish_flush pq to_json now \<lparr>snk_flush = cfg_flush cfg, snk_first = hd (ph_consumed st), snk_last = last (ph_consumed st)\<rparr> st)"

lemma resume_flush_triple:
  fixes pq :: "'s Parquet"
  assumes d: "decoded crc m k c0 ids st c1" "distinct ids" and good: "good \<Longrightarrow> fit pq crc to_json now cfg m c0 ids"
  shows "triple (pair_at k (\<lambda>m1 c. m1 = m \<and> c = c1)) (resume_flush pq to_json now cfg st :: ('m, FlushOutcome) flush)
    (\<lambda>out. pair_at k (\<lambda>m1 c. settled pq crc to_json now cfg m c0 ids m1 c \<and> completed pq crc now cfg m k c0 ids out m1 c))
    (\<lambda>_. pair_at k (\<lambda>m1 c. settled pq crc to_json now cfg m c0 ids m1 c \<and> (\<not> k \<or> \<not> good)))"
proof -
  obtain taken cs where t: "decoded_all crc m c0 taken [] cs st c1" "prefix taken ids" "k \<longrightarrow> taken = ids" using d(1) unfolding decoded_def by blast
  have st: "ph_consumed st = map fst cs" "ph_rows st = length (all_records crc m cs)" using t(1) by (simp_all add: decoded_all_def taken_state_def)
  have "distinct taken" using t(2) d(2) by (auto simp: prefix_def)
  note finish = finish_flush_triple [OF t(1) this t(2,3) _ good]
  have idle: "settled pq crc to_json now cfg m c0 ids m c1 \<and> completed pq crc now cfg m k c0 ids out m c1" if "all_records crc m cs = []" for out
    using kept_unflushed [OF taken_kept [OF t(1)]] decoded_walked [OF t(1)] t(2,3) that unfolding settled_def completed_def by blast
  show ?thesis
  proof (cases "cs = [] \<or> ph_rows st = 0 \<and> ph_rejected st = 0 \<and> ph_skipped st = 0")
    case True
    then have "all_records crc m cs = []" using st(2) by (auto simp: all_records_def)
    then show ?thesis using idle True st(1) by (auto simp: resume_flush_def triple_def pair_at_def at_def)
  next
    case False
    then have "\<lparr>snk_flush = cfg_flush cfg, snk_first = hd (ph_consumed st), snk_last = last (ph_consumed st)\<rparr> = sink_for cfg cs"
      by (simp add: sink_for_def st(1) hd_map last_map)
    then show ?thesis using finish False st(1) by (auto simp: resume_flush_def)
  qed
qed

lemma flush_ids_triple:
  fixes pq :: "'s Parquet"
  assumes m: "flushable m" and small: "\<forall>i\<in>set ids. \<forall>bs. c0 (segment_path i) = Some bs \<longrightarrow> length bs < 2 ^ 32" and ids: "distinct ids"
    and good: "good \<Longrightarrow> fit pq crc to_json now cfg m c0 ids"
  shows "triple (pair_at k (\<lambda>m1 c. m1 = m \<and> c = c0)) (flush_ids pq crc to_json now cfg ids no_spill :: ('m, FlushOutcome) flush)
    (\<lambda>out. pair_at k (\<lambda>m1 c. settled pq crc to_json now cfg m c0 ids m1 c \<and> completed pq crc now cfg m k c0 ids out m1 c))
    (\<lambda>_. pair_at k (\<lambda>m1 c. settled pq crc to_json now cfg m c0 ids m1 c \<and> (\<not> k \<or> \<not> good)))" (is "triple ?P _ ?Q ?E")
proof -
  let ?start = "phase1_start (reject_max_bytes (cfg_limits cfg)) no_spill" and ?budget = "unat (memory_budget_bytes (cfg_flush cfg))"
  have bad: "settled pq crc to_json now cfg m c0 ids m c \<and> (\<not> k \<or> \<not> good)" if "undecoded k c0 ids c" for c
    using that kept_unflushed good by (fastforce simp: undecoded_def settled_def fit_def)
  have decode: "triple (at k (\<lambda>c. c = c0)) (decode_all crc m ?budget ids ?start :: ('m, Phase1) eio)
      (\<lambda>st. at k (decoded crc m k c0 ids st)) (\<lambda>_. at k (undecoded k c0 ids))"
    by (rule triple_at_pre [OF decode_all_triple [OF m small, of "[]" k crc "[]", simplified]])
      (use ids decoding_starts in auto)
  have first: "triple ?P (on_disk (decode_all crc m ?budget ids ?start) :: ('m, Phase1) flush)
      (\<lambda>st. pair_at k (\<lambda>m1 c. m1 = m \<and> decoded crc m k c0 ids st c)) ?E"
    by (rule pair_conseq [OF on_disk_fixed [OF decode]]) (use bad in auto)
  have rest: "triple (pair_at k (\<lambda>m1 c. m1 = m \<and> decoded crc m k c0 ids st c)) (resume_flush pq to_json now cfg st :: ('m, FlushOutcome) flush) ?Q ?E" for st
    by (rule pair_fix, elim conjE, hypsubst) (rule resume_flush_triple [OF _ ids good])
  have both: "triple ?P (seq (on_disk (decode_all crc m ?budget ids ?start)) (resume_flush pq to_json now cfg)) ?Q ?E"
    by (rule triple_seq [OF first rest])
  have "flush_ids pq crc to_json now cfg ids no_spill (m, d) =
      seq (on_disk (decode_all crc m ?budget ids ?start)) (resume_flush pq to_json now cfg) (m, d)" for d :: "'m Disk_scheme"
    unfolding flush_ids_def resume_flush_def [abs_def] finish_flush_def Let_def by simp
  then show ?thesis by (intro triple_same [OF both]) (auto simp: pair_at_def at_def)
qed

section \<open>The run files come and go\<close>

lemma sorted_once: "sorted (xs :: 'a :: linorder list) \<Longrightarrow> distinct (remdups_adj xs)"
  by (induction xs rule: remdups_adj.induct) (auto simp: less_le)

abbreviation runs_only :: "(path \<rightharpoonup> bytes) \<Rightarrow> (path \<rightharpoonup> bytes) \<Rightarrow> bool" where
  "runs_only \<equiv> outside {p. below runs_dir p}"

lemma runs_only_same [simp]:
  assumes "runs_only c c'"
  shows "c' (segment_path i) = c (segment_path i)" "c' (corrupt_path i) = c (corrupt_path i)" "c' manifest_path = c manifest_path" "c' (dest p) = c (dest p)"
  using assms by (simp_all add: outside_def)

lemma clear_runs_triple:
  assumes "\<And>c c'. R c \<Longrightarrow> runs_only c c' \<Longrightarrow> Q c'"
  shows "triple (at k R) (clear_runs :: ('m, unit) eio) (\<lambda>_. at k Q) E"
proof -
  have "triple (at k R) (fs_remove_tree runs_dir :: ('m, unit) io) (\<lambda>_. at k Q) (\<lambda>_. at k Q)"
    by (rule fs_remove_tree_triple, erule assms) (auto simp: outside_def)
  note triple_best_effort [where Q = "\<lambda>_. at k Q", OF this]
  then show ?thesis unfolding clear_runs_def by (rule triple_seq) (rule triple_ok)
qed

lemma settled_runs:
  assumes "settled pq crc to_json now cfg m c0 ids m1 c" "runs_only c c'" shows "settled pq crc to_json now cfg m c0 ids m1 c'"
proof -
  have "unflushed sink c0 c'" if "unflushed sink c0 c" for sink by (rule unflushed_cong [OF that outside_weaken [OF assms(2)]]) auto
  with assms(1) flushed_runs [OF _ assms(2)] show ?thesis unfolding settled_def by blast
qed

lemma completed_runs:
  assumes "completed pq crc now cfg m k c0 ids out m1 c" "runs_only c c'" shows "completed pq crc now cfg m k c0 ids out m1 c'"
proof -
  have "walked c0 taken cs c'" if "walked c0 taken cs c" for taken cs by (rule walked_cong [OF that]) (use assms(2) in simp_all)
  moreover have "reported pq crc now cfg m cs out m1 c'" if "reported pq crc now cfg m cs out m1 c" for cs
    using that published_cong [of pq cfg crc m cs c c'] assms(2) by (simp add: reported_def Let_def)
  ultimately show ?thesis using assms(1) unfolding completed_def by blast
qed

lemma started_over:
  assumes "runs_only c0 c1"
  shows "settled pq crc to_json now cfg m c1 ids m1 c \<Longrightarrow> settled pq crc to_json now cfg m c0 ids m1 c"
    "completed pq crc now cfg m k c1 ids out m1 c \<Longrightarrow> completed pq crc now cfg m k c0 ids out m1 c"
    "fit pq crc to_json now cfg m c0 ids \<Longrightarrow> fit pq crc to_json now cfg m c1 ids"
proof -
  have held: "held c1 c j = held c0 c j" "aside c1 c j = aside c0 c j" for c j using assms by (simp_all add: held_def aside_def)
  have walked: "walked c1 taken cs c = walked c0 taken cs c" for taken cs c using assms by (simp add: walked_def held)
  have out: "outside (touched_paths sink) c0 c" if "outside (touched_paths sink) c1 c" for sink c
    by (rule outside_trans [OF assms that]) (auto simp: touched_paths_def)
  show "settled pq crc to_json now cfg m c1 ids m1 c \<Longrightarrow> settled pq crc to_json now cfg m c0 ids m1 c"
    unfolding settled_def unflushed_def flushed_def walked held using out assms by (elim disjE exE conjE) (simp_all, blast+)
  show "completed pq crc now cfg m k c1 ids out m1 c \<Longrightarrow> completed pq crc now cfg m k c0 ids out m1 c" by (simp add: completed_def walked)
  show "fit pq crc to_json now cfg m c0 ids \<Longrightarrow> fit pq crc to_json now cfg m c1 ids" using assms by (simp add: fit_def)
qed

lemma always_then_triple:
  assumes "triple P e Q E" "\<And>x. triple (Q x) fin (\<lambda>_. Q x) (\<lambda>_. Q x)" "\<And>x. triple (E x) fin (\<lambda>_. E x) (\<lambda>_. E x)"
  shows "triple P (always_then e fin) Q E"
proof -
  have after: "A (snd (fin s))" if "triple A fin (\<lambda>_. A) (\<lambda>_. A)" "A s" for A s
    using that by (cases "fin s") (auto simp: triple_def split: sum.splits)
  show ?thesis
    by (rule tripleI) (auto simp: always_then_def split: prod.splits intro: after [OF assms(2)] after [OF assms(3)] dest: triple_Inr [OF assms(1)] triple_Inl [OF assms(1)])
qed

lemma flush_run_triple:
  fixes pq :: "'s Parquet"
  assumes m: "flushable m" and small: "\<forall>i\<in>set ids. \<forall>bs. c0 (segment_path i) = Some bs \<longrightarrow> length bs < 2 ^ 32"
    and good: "good \<Longrightarrow> fit pq crc to_json now cfg m c0 ids" and ids: "ids = remdups_adj (sort segments)"
  shows "triple (pair_at k (\<lambda>m1 c. m1 = m \<and> c = c0)) (flush_run pq crc to_json now cfg segments :: ('m, FlushOutcome) flush)
    (\<lambda>out. pair_at k (\<lambda>m1 c. settled pq crc to_json now cfg m c0 ids m1 c \<and> completed pq crc now cfg m k c0 ids out m1 c))
    (\<lambda>_. pair_at k (\<lambda>m1 c. settled pq crc to_json now cfg m c0 ids m1 c \<and> (\<not> k \<or> \<not> good)))" (is "triple ?P _ ?Q ?E")
proof -
  have dist: "distinct ids" unfolding ids by (rule sorted_once) simp
  have idle: "settled pq crc to_json now cfg m c0 [] m c0 \<and> completed pq crc now cfg m k c0 [] out m c0" for out
  proof -
    have "wal_kept c0 c0" by (simp add: wal_kept_def held_def outside_def)
    moreover have "walked c0 [] [] c0" by (simp add: walked_def)
    ultimately show ?thesis using kept_unflushed unfolding settled_def completed_def by (fastforce simp: all_records_def)
  qed
  have clear: "triple (pair_at k R) (on_disk clear_runs :: ('m, unit) flush) (\<lambda>_. pair_at k R) (\<lambda>_. pair_at k R)"
    if "\<And>m c c'. R m c \<Longrightarrow> runs_only c c' \<Longrightarrow> R m c'" for R by (rule on_disk_triple, rule clear_runs_triple) (rule that)
  have new: "triple (at k (\<lambda>c. c = c0)) (spill_new :: ('m, Spill) eio) (\<lambda>sp. at k (\<lambda>c. sp = no_spill \<and> runs_only c0 c)) (\<lambda>_. at k (\<lambda>_. False))"
    unfolding spill_new_def
    by (rule triple_seq [OF clear_runs_triple [where Q = "runs_only c0"]]) (auto simp: triple_def)
  have start: "triple ?P (on_disk spill_new :: ('m, Spill) flush) (\<lambda>sp. pair_at k (\<lambda>m1 c. m1 = m \<and> sp = no_spill \<and> runs_only c0 c)) ?E"
    by (rule pair_conseq [OF on_disk_fixed [OF new]]) auto
  have rest: "triple (pair_at k (\<lambda>m1 c. m1 = m \<and> sp = no_spill \<and> runs_only c0 c)) (flush_ids pq crc to_json now cfg ids sp :: ('m, FlushOutcome) flush) ?Q ?E" for sp
  proof (rule pair_fix, elim conjE, hypsubst)
    fix c1 assume c1: "runs_only c0 c1"
    show "triple (pair_at k (\<lambda>m1 c. m1 = m \<and> c = c1)) (flush_ids pq crc to_json now cfg ids no_spill :: ('m, FlushOutcome) flush) ?Q ?E"
      by (rule pair_conseq [OF flush_ids_triple [OF m _ dist, where ?c0.0 = c1 and good = good]])
        (use small c1 good started_over [OF c1] in auto)
  qed
  show ?thesis
  proof (cases "ids = []")
    case True
    then show ?thesis using idle ids by (auto simp: flush_run_def Let_def triple_def pair_at_def at_def)
  next
    case False
    have "triple (pair_at k (\<lambda>m1 c. m1 = m \<and> sp = no_spill \<and> runs_only c0 c))
        (always_then (flush_ids pq crc to_json now cfg ids sp) (on_disk clear_runs) :: ('m, FlushOutcome) flush) ?Q ?E" for sp
      by (rule always_then_triple [OF rest]; rule clear) (auto elim: settled_runs completed_runs)
    from triple_seq [OF start this] show ?thesis using False ids by (simp add: flush_run_def Let_def)
  qed
qed

section \<open>What becomes of each segment\<close>

text \<open>The records a flush is given: those of the segments with the given ids, as the reader decodes them.\<close>

definition given_records :: "(bytes \<Rightarrow> u32) \<Rightarrow> Manifest \<Rightarrow> (path \<rightharpoonup> bytes) \<Rightarrow> u64 set \<Rightarrow> (GroupKey \<times> Head) set" where
  "given_records crc m c I = {r. \<exists>i\<in>I. \<exists>bs. c (segment_path i) = Some bs \<and> r \<in> set (segment_records crc m i bs)}"

text \<open>
  A record of a group is in an output file: the file holds the rows of records that were given, and
  among them the first that arrived under the record's timestamp and id. This is the record itself,
  or an earlier one that it repeats; the row stored for it is the decoded frame and has that
  timestamp and id. The file is of an hour that is staged or already published, and the watermark
  covers it, so that a restart promotes it.
\<close>

definition in_output ::
  "'s Parquet \<Rightarrow> Config \<Rightarrow> Manifest \<Rightarrow> (GroupKey \<times> Head) set \<Rightarrow> u64 \<Rightarrow> (path \<rightharpoonup> bytes) \<Rightarrow> GroupKey \<times> Head \<Rightarrow> bool" where
  "in_output pq cfg m R watermark c r \<longleftrightarrow>
     (let keys = schema_keys m (fst r); group = {h. (fst r, h) \<in> R} in
      \<exists>sink ys bs. \<exists>h\<in>set ys. set ys \<subseteq> group \<and> first_of group h \<and> ts_id h = ts_id (snd r) \<and>
        (h = snd r \<or> hd_arrival h < hd_arrival (snd r)) \<and>
        (row_ts (head_row keys h), row_id (head_row keys h)) = ts_id (snd r) \<and> snk_last sink \<le> watermark \<and>
        output_bytes pq (cfg_flush cfg) (fst r) keys ys = Inr bs \<and> in_place (snd (hour_file sink (fst r) ys)) bs c)"

lemma record_row:
  assumes "r \<in> set (segment_records crc m i buf)"
  shows "(row_ts (head_row (schema_keys m (fst r)) (snd r)), row_id (head_row (schema_keys m (fst r)) (snd r))) = ts_id (snd r)"
proof -
  from assms obtain fr vals extra where it: "Inr (fr, vals, extra) \<in> set (segment_items crc m buf)" and r: "r \<in> set (item_records m i buf (Inr (fr, vals, extra)))"
    by (auto simp: segment_records_def item_records_def split: sum.splits prod.splits)
  have "item_sound m buf (Inr (fr, vals, extra))" using segment_items_sound [of m buf crc] it by (auto simp: list_all_iff)
  with r show ?thesis by (auto simp: item_sound_def item_records_def schema_keys_def head_row_def ts_id_def Let_def split: if_splits)
qed

lemma unreadable_records: "isl (parse_segment_header bs) \<Longrightarrow> segment_records crc m i bs = []"
  by (auto simp: segment_records_def segment_items_def reader_new_def isl_def)

lemma hours_cover: "h \<in> set hs \<Longrightarrow> \<exists>ys\<in>set (hours hs). h \<in> set ys"
proof -
  assume "h \<in> set hs"
  moreover have "concat (hours hs) = hs" by (simp add: hours_def concat_chunks)
  ultimately show ?thesis by (metis UN_E set_concat)
qed

lemma consumed_given:
  assumes "\<forall>x\<in>set cs. c0 (segment_path (fst x)) = Some (snd x)" "fst ` set cs \<subseteq> I"
  shows "set (all_records crc m cs) \<subseteq> given_records crc m c0 I"
  using assms by (fastforce simp: all_records_def given_records_def)

lemma all_records_row:
  "r \<in> set (all_records crc m cs) \<Longrightarrow>
     (row_ts (head_row (schema_keys m (fst r)) (snd r)), row_id (head_row (schema_keys m (fst r)) (snd r))) = ts_id (snd r)"
  unfolding all_records_def using record_row by fastforce

text \<open>A given record that was not consumed comes from a segment behind all that were.\<close>

lemma given_later:
  assumes r: "r \<in> given_records crc m c0 I" "r \<notin> set (all_records crc m cs)"
    and cs: "\<forall>x\<in>set cs. c0 (segment_path (fst x)) = Some (snd x)"
    and rest: "\<forall>i\<in>I. i \<in> fst ` set cs \<or> final < i \<or> (\<forall>bs. c0 (segment_path i) = Some bs \<longrightarrow> isl (parse_segment_header bs))"
    and small: "\<forall>i\<in>I. \<forall>bs. c0 (segment_path i) = Some bs \<longrightarrow> length bs < 2 ^ 32"
  shows "final < fst (hd_arrival (snd r))"
proof -
  from r(1) obtain i bs where i: "i \<in> I" "c0 (segment_path i) = Some bs" "r \<in> set (segment_records crc m i bs)" by (auto simp: given_records_def)
  have "i \<notin> fst ` set cs" using cs i r(2) by (fastforce simp: all_records_def)
  moreover have "\<not> isl (parse_segment_header bs)" using i(3) unreadable_records by fastforce
  ultimately have "final < i" using rest i(1,2) by blast
  then show ?thesis using segment_records_arrivals(2) [of bs crc m i] small i by auto
qed

lemma given_first:
  assumes h: "(g, h) \<in> set (all_records crc m cs)" "first_of (set (of_group g (all_records crc m cs))) h"
    and cs: "\<forall>x\<in>set cs. c0 (segment_path (fst x)) = Some (snd x)" "\<forall>x\<in>set cs. length (snd x) < 2 ^ 32" "\<forall>x\<in>set cs. fst x \<le> final"
    and rest: "\<forall>i\<in>I. i \<in> fst ` set cs \<or> final < i \<or> (\<forall>bs. c0 (segment_path i) = Some bs \<longrightarrow> isl (parse_segment_header bs))"
    and small: "\<forall>i\<in>I. \<forall>bs. c0 (segment_path i) = Some bs \<longrightarrow> length bs < 2 ^ 32"
  shows "first_of {h. (g, h) \<in> given_records crc m c0 I} h"
proof -
  have fst_h: "fst (hd_arrival h) \<le> final" using h(1) cs(2,3) segment_records_arrivals(2) by (fastforce simp: all_records_def)
  have "hd_arrival h \<le> hd_arrival h'" if h': "(g, h') \<in> given_records crc m c0 I" "ts_id h' = ts_id h" for h'
  proof (cases "(g, h') \<in> set (all_records crc m cs)")
    case True
    then show ?thesis using h(2) h'(2) by (simp add: first_of_def in_of_group)
  next
    case False
    from given_later [OF h'(1) this cs(1) rest small] fst_h show ?thesis by (auto simp: less_eq_prod_def)
  qed
  then show ?thesis by (simp add: first_of_def)
qed

lemma safe_row_in_output:
  assumes safe: "safe_rows pq (sink_for cfg cs) m (all_records crc m cs) c" and r: "r \<in> set (all_records crc m cs)" and w: "fst (last cs) \<le> w"
    and cs: "\<forall>x\<in>set cs. c0 (segment_path (fst x)) = Some (snd x)" "fst ` set cs \<subseteq> I" "distinct (map fst cs)" "\<forall>x\<in>set cs. fst x \<le> fst (last cs)"
    and rest: "\<forall>i\<in>I. i \<in> fst ` set cs \<or> fst (last cs) < i \<or> (\<forall>bs. c0 (segment_path i) = Some bs \<longrightarrow> isl (parse_segment_header bs))"
    and small: "\<forall>i\<in>I. \<forall>bs. c0 (segment_path i) = Some bs \<longrightarrow> length bs < 2 ^ 32"
  shows "in_output pq cfg m (given_records crc m c0 I) w c r"
proof -
  let ?R = "all_records crc m cs" and ?G = "given_records crc m c0 I" and ?g = "fst r"
  have "snd r \<in> set (of_group ?g ?R)" using r by (simp add: in_of_group)
  then obtain h where h: "h \<in> set (group_records ?R ?g)" "ts_id h = ts_id (snd r)" "hd_arrival h \<le> hd_arrival (snd r)"
    unfolding group_records_def by (rule first_arrival_exists)
  then have hR: "(?g, h) \<in> set ?R" and first: "first_of (set (of_group ?g ?R)) h" by (simp_all add: group_records_def in_of_group)
  from h(1) obtain ys where ys: "ys \<in> set (hours (group_records ?R ?g))" "h \<in> set ys" using hours_cover by blast
  with safe obtain bs where bs: "output_bytes pq (cfg_flush cfg) ?g (schema_keys m ?g) ys = Inr bs" "in_place (snd (hour_file (sink_for cfg cs) ?g ys)) bs c"
    by (fastforce simp: safe_rows_def sink_for_def)
  have "concat (hours (group_records ?R ?g)) = group_records ?R ?g" by (simp add: hours_def concat_chunks)
  then have "set ys \<subseteq> set (group_records ?R ?g)" using ys(1) by (metis UN_upper set_concat)
  then have sub: "set ys \<subseteq> {h. (?g, h) \<in> ?G}" using consumed_given [OF cs(1,2)] by (auto simp: group_records_def in_of_group)
  have small_cs: "\<forall>x\<in>set cs. length (snd x) < 2 ^ 32" using cs(1,2) small by fastforce
  have "first_of {h. (?g, h) \<in> ?G} h" by (rule given_first [OF hR first cs(1) small_cs cs(4) rest small])
  moreover have "h = snd r \<or> hd_arrival h < hd_arrival (snd r)"
  proof (cases "hd_arrival h = hd_arrival (snd r)")
    case True
    then have "record_key (?g, h) = record_key r" using h(2) by (simp add: record_key_def head_key_def ts_id_def)
    then show ?thesis using inj_onD [OF all_records_inj [OF cs(3) small_cs], of "(?g, h)" r] hR r by (metis snd_conv)
  qed (use h(3) in \<open>simp add: less_le\<close>)
  moreover have "(row_ts (head_row (schema_keys m ?g) h), row_id (head_row (schema_keys m ?g) h)) = ts_id (snd r)"
    using all_records_row [OF hR] h(2) by simp
  moreover have "snk_last (sink_for cfg cs) \<le> w" using w by (simp add: sink_for_def)
  ultimately show ?thesis using ys(2) h(2) sub bs unfolding in_output_def Let_def by blast
qed

lemma prefix_of_sorted:
  assumes "prefix xs ys" "sorted ys" "x \<in> set xs" "y \<in> set ys" "y \<le> (x :: 'a :: linorder)" shows "y \<in> set xs"
  using assms by (fastforce simp: prefix_def sorted_append)

lemma subseq_below_last:
  assumes "subseq (map fst cs) taken" "sorted taken" "cs \<noteq> []" "x \<in> set cs" shows "fst x \<le> fst (last cs)"
proof -
  have "sorted (map fst cs)" using assms(1,2) by (metis sorted_wrt_subseq)
  with assms(3,4) show ?thesis by (induction cs) (auto simp: last_ConsR split: if_splits)
qed

lemma flushed_segment:
  assumes f: "flushed pq crc cfg m json c0 taken cs c" "cs \<noteq> []" "prefix taken ids" and ids: "sorted ids" "i \<in> set ids"
    and bs: "c0 (segment_path i) = Some bs" and small: "\<forall>i\<in>set ids. \<forall>bs. c0 (segment_path i) = Some bs \<longrightarrow> length bs < 2 ^ 32" and dist: "distinct ids"
  shows "if i \<le> fst (last cs)
    then aside c0 c i \<or> (\<forall>r\<in>set (segment_records crc m i bs). \<forall>w\<ge>fst (last cs). in_output pq cfg m (given_records crc m c0 (set ids)) w c r)
    else held c0 c i"
proof -
  have sub: "subseq (map fst cs) taken" and walk: "\<forall>j\<in>set taken. j \<in> fst ` set cs \<or> aside c0 c j" "\<forall>x\<in>set cs. c0 (segment_path (fst x)) = Some (snd x)"
    and held: "held c0 c i \<or> i \<in> fst ` set cs" and safe: "safe_rows pq (sink_for cfg cs) m (all_records crc m cs) c"
    using f(1) by (auto simp: flushed_def walked_def)
  have "fst (last cs) \<in> set (map fst cs)" using f(2) by simp
  then have last: "fst (last cs) \<in> set taken" using sub by (blast elim: list_emb_set)
  have sorted: "sorted taken" using f(3) ids(1) by (auto simp: prefix_def sorted_append)
  have below: "\<forall>x\<in>set cs. fst x \<le> fst (last cs)" by (rule ballI) (rule subseq_below_last [OF sub sorted f(2)])
  obtain N where N: "map fst cs = nths taken N" using sub unfolding subseq_conv_nths ..
  have "set (map fst cs) \<subseteq> set taken" unfolding N by (rule set_nths_subset)
  then have consumed: "fst ` set cs \<subseteq> set ids" using set_mono_prefix [OF f(3)] by simp
  have "distinct taken" using dist f(3) by (auto simp: prefix_def)
  then have once: "distinct (map fst cs)" unfolding N by (rule distinct_nthsI)
  have rest: "\<forall>i\<in>set ids. i \<in> fst ` set cs \<or> fst (last cs) < i \<or> (\<forall>bs. c0 (segment_path i) = Some bs \<longrightarrow> isl (parse_segment_header bs))"
  proof
    fix j assume "j \<in> set ids"
    then have "j \<in> fst ` set cs \<or> aside c0 c j" if "j \<le> fst (last cs)"
      using prefix_of_sorted [OF f(3) ids(1) last] that walk(1) by blast
    then show "j \<in> fst ` set cs \<or> fst (last cs) < j \<or> (\<forall>bs. c0 (segment_path j) = Some bs \<longrightarrow> isl (parse_segment_header bs))"
      unfolding aside_def not_le [symmetric] by (metis option.inject)
  qed
  show ?thesis
  proof (cases "i \<le> fst (last cs)")
    case True
    then have "i \<in> set taken" by (rule prefix_of_sorted [OF f(3) ids(1) last ids(2)])
    moreover have "in_output pq cfg m (given_records crc m c0 (set ids)) w c r" if "i \<in> fst ` set cs" "r \<in> set (segment_records crc m i bs)" "fst (last cs) \<le> w" for r w
    proof -
      have "(i, bs) \<in> set cs" using that(1) walk(2) bs by auto
      then have "r \<in> set (all_records crc m cs)" using that(2) by (auto simp: all_records_def)
      from safe_row_in_output [OF safe this that(3) walk(2) consumed once below rest small] show ?thesis .
    qed
    ultimately show ?thesis unfolding if_P [OF True] using walk(1) by blast
  next
    case False
    then have "i \<notin> fst ` set cs" using below by auto
    then show ?thesis using held False by simp
  qed
qed

lemma settled_segment:
  assumes s: "settled pq crc to_json now cfg m c0 ids m1 c" and ids: "sorted ids" "i \<in> set ids" and i: "last_flushed_segment m < i"
    and bs: "c0 (segment_path i) = Some bs" and small: "\<forall>i\<in>set ids. \<forall>bs. c0 (segment_path i) = Some bs \<longrightarrow> length bs < 2 ^ 32" and dist: "distinct ids"
  shows "isl (parse_segment_header bs) \<and> c (corrupt_path i) = Some bs \<or>
    c (segment_path i) = Some bs \<and> (c manifest_path = c0 manifest_path \<or> last_flushed_segment m1 < i) \<or>
    i \<le> last_flushed_segment m1 \<and> (\<exists>json. to_json m1 = Inr json \<and> c manifest_path = Some (json @ [10])) \<and>
      (\<forall>r\<in>set (segment_records crc m i bs). in_output pq cfg m (given_records crc m c0 (set ids)) (last_flushed_segment m1) c r)"
proof -
  have aside: "isl (parse_segment_header bs) \<and> c (corrupt_path i) = Some bs" if "aside c0 c i" using that bs by (auto simp: aside_def)
  have held: "c (segment_path i) = Some bs \<or> isl (parse_segment_header bs) \<and> c (corrupt_path i) = Some bs" if "held c0 c i"
    using that aside bs unfolding held_def by auto
  from s consider (old) sink where "unflushed sink c0 c"
    | (new) taken cs json where "prefix taken ids" "cs \<noteq> []" "m1 = marked m now (fst (last cs))" "to_json m1 = Inr json" "flushed pq crc cfg m json c0 taken cs c"
    unfolding settled_def by blast
  then show ?thesis
  proof cases
    case old
    then show ?thesis using held by (auto simp: unflushed_def)
  next
    case new
    have mark: "last_flushed_segment m1 = max (last_flushed_segment m) (fst (last cs))" by (simp add: new(3) marked_def)
    have man: "c manifest_path = Some (json @ [10])" using new(5) by (simp add: flushed_def)
    note seg = flushed_segment [OF new(5,2,1) ids bs small dist]
    show ?thesis
    proof (cases "i \<le> fst (last cs)")
      case True
      then have "i \<le> last_flushed_segment m1" by (simp add: mark le_max_iff_disj)
      moreover have "fst (last cs) \<le> last_flushed_segment m1" by (simp add: mark)
      ultimately show ?thesis using seg [unfolded if_P [OF True]] aside man new(4) by blast
    next
      case False
      then have "last_flushed_segment m1 < i" using i by (simp add: mark)
      then show ?thesis using seg [unfolded if_not_P [OF False]] held by blast
    qed
  qed
qed

lemma settled_given:
  assumes "settled pq crc to_json now cfg m c0 (remdups_adj (sort segments)) m1 c" "i \<in> set segments" "last_flushed_segment m < i" "c0 (segment_path i) = Some bs"
    "\<forall>i\<in>set segments. \<forall>bs. c0 (segment_path i) = Some bs \<longrightarrow> length bs < 2 ^ 32"
  shows "isl (parse_segment_header bs) \<and> c (corrupt_path i) = Some bs \<or>
    c (segment_path i) = Some bs \<and> (c manifest_path = c0 manifest_path \<or> last_flushed_segment m1 < i) \<or>
    i \<le> last_flushed_segment m1 \<and> (\<exists>json. to_json m1 = Inr json \<and> c manifest_path = Some (json @ [10])) \<and>
      (\<forall>r\<in>set (segment_records crc m i bs). in_output pq cfg m (given_records crc m c0 (set segments)) (last_flushed_segment m1) c r)"
  using settled_segment [OF assms(1) _ _ assms(3,4)] assms(2,5) by (simp add: sorted_remdups_adj sorted_once)

lemma flush_run_ends:
  fixes pq :: "'s Parquet" and d :: "'m Disk_scheme"
  assumes "wf_disk d" "k \<Longrightarrow> calm d" "flushable m" "\<forall>i\<in>set segments. \<forall>bs. content d (segment_path i) = Some bs \<longrightarrow> length bs < 2 ^ 32"
    "good \<Longrightarrow> fit pq crc to_json now cfg m (content d) (remdups_adj (sort segments))"
    "flush_run pq crc to_json now cfg segments (m, d) = (r, (m', d'))"
  shows "(settled pq crc to_json now cfg m (content d) (remdups_adj (sort segments)) m' (content d') \<and>
    (case r of Inl _ \<Rightarrow> \<not> k \<or> \<not> good | Inr out \<Rightarrow> completed pq crc now cfg m k (content d) (remdups_adj (sort segments)) out m' (content d'))) \<and>
    wf_disk d' \<and> (k \<longrightarrow> calm d')"
proof -
  have pre: "pair_at k (\<lambda>m1 c. m1 = m \<and> c = content d) (m, d)" using assms(1,2) by (simp add: pair_at_def at_def)
  have small: "\<forall>i\<in>set (remdups_adj (sort segments)). \<forall>bs. content d (segment_path i) = Some bs \<longrightarrow> length bs < 2 ^ 32" using assms(4) by simp
  note flush = flush_run_triple [OF assms(3) small assms(5) refl, of good k]
  show ?thesis
  proof (cases r)
    case (Inl e)
    then show ?thesis using triple_Inl [OF flush pre] assms(6) by (fastforce simp: pair_at_def at_def)
  next
    case (Inr out)
    then show ?thesis using triple_Inr [OF flush pre] assms(6) by (fastforce simp: pair_at_def at_def)
  qed
qed

text \<open>
  Claim C1. No flush loses a record. For every outcome of every system call, and however
  \<open>Planner::run\<close> ends, each segment beyond the watermark that it was given is in one of three
  places: quarantined in full, because its header cannot be read; in \<open>wal/\<close> byte for byte, while
  the manifest on disk is the old one or the new watermark stays below the segment; or covered by
  the watermark of the manifest just committed, and then every record the segment holds is in an
  output file, staged or published, that the watermark covers. Such a file holds rows of records
  that were given to the flush and nothing else, among them the row decoded from the record's own
  frame or, if an earlier given record has the same series epoch, timestamp and id, the row of the
  first of these.\<close>

theorem flush_never_loses_a_record:
  fixes pq :: "'s Parquet" and d :: "'m Disk_scheme"
  assumes "wf_disk d" "flushable m" "\<forall>i\<in>set segments. \<forall>bs. content d (segment_path i) = Some bs \<longrightarrow> length bs < 2 ^ 32"
    and run: "flush_run pq crc to_json now cfg segments (m, d) = (r, (m', d'))"
    and i: "i \<in> set segments" "last_flushed_segment m < i" "content d (segment_path i) = Some bs"
  shows "isl (parse_segment_header bs) \<and> content d' (corrupt_path i) = Some bs \<or>
    content d' (segment_path i) = Some bs \<and> (content d' manifest_path = content d manifest_path \<or> last_flushed_segment m' < i) \<or>
    i \<le> last_flushed_segment m' \<and> (\<exists>json. to_json m' = Inr json \<and> content d' manifest_path = Some (json @ [10])) \<and>
      (\<forall>row\<in>set (segment_records crc m i bs). in_output pq cfg m (given_records crc m (content d) (set segments)) (last_flushed_segment m') (content d') row)"
proof (rule settled_given [OF _ i assms(3)])
  show "settled pq crc to_json now cfg m (content d) (remdups_adj (sort segments)) m' (content d')"
    using flush_run_ends [OF assms(1) _ assms(2,3) _ run, of False False] by (simp split: sum.splits)
qed

text \<open>The segments of a list that can be read, with their bytes.\<close>

definition readable_segments :: "(path \<rightharpoonup> bytes) \<Rightarrow> u64 list \<Rightarrow> (u64 \<times> bytes) list" where
  "readable_segments c ids =
     map (\<lambda>i. (i, the (c (segment_path i)))) (filter (\<lambda>i. \<not> isl (parse_segment_header (the (c (segment_path i))))) ids)"

lemma subseq_is_filter: "subseq xs ys \<Longrightarrow> distinct ys \<Longrightarrow> filter (\<lambda>y. y \<in> set xs) ys = xs"
proof (induction rule: list_emb.induct)
  case (list_emb_Cons xs ys y)
  then have "y \<notin> set xs" by (auto elim: list_emb_set)
  with list_emb_Cons show ?case by simp
next
  case (list_emb_Cons2 x y xs ys)
  then have "filter (\<lambda>z. z = x \<or> z \<in> set xs) ys = filter (\<lambda>z. z \<in> set xs) ys" by (intro filter_cong) auto
  with list_emb_Cons2 show ?case by simp
qed simp

lemma walked_all:
  assumes "walked c0 ids cs c" "distinct ids" shows "cs = readable_segments c0 ids"
proof -
  have sub: "subseq (map fst cs) ids" and there: "\<forall>x\<in>set cs. c0 (segment_path (fst x)) = Some (snd x) \<and> \<not> isl (parse_segment_header (snd x))"
    and rest: "\<forall>j\<in>set ids. j \<in> fst ` set cs \<or> aside c0 c j" using assms(1) by (auto simp: walked_def)
  have "\<not> isl (parse_segment_header (the (c0 (segment_path i)))) \<longleftrightarrow> i \<in> set (map fst cs)" if "i \<in> set ids" for i
    using rest there that by (fastforce simp: aside_def)
  then have "filter (\<lambda>i. \<not> isl (parse_segment_header (the (c0 (segment_path i))))) ids = filter (\<lambda>i. i \<in> set (map fst cs)) ids"
    by (rule filter_cong [OF refl])
  also have "\<dots> = map fst cs" by (rule subseq_is_filter [OF sub assms(2)])
  finally show ?thesis using there by (simp add: readable_segments_def map_idI)
qed

text \<open>
  Claim C12. A flush that nothing stands in the way of returns, and has then done all of its work.
  The packages accept what they are given, no call is refused, every segment is there and every
  timestamp fits the output format: then, if the readable segments hold any record, the watermark
  is raised to the last of them, each hour of each series epoch is published under \<open>series/\<close> as the
  file of its first arrivals in the order of timestamp and id, the segments are gone from \<open>wal/\<close>,
  and rows written and rows deduplicated add up to the records the segments held.\<close>

theorem flush_completes:
  fixes pq :: "'s Parquet" and d :: "'m Disk_scheme"
  assumes disk: "wf_disk d" "calm d" "flushable m" "\<forall>i\<in>set segments. \<forall>bs. content d (segment_path i) = Some bs \<longrightarrow> length bs < 2 ^ 32"
    and good: "fit pq crc to_json now cfg m (content d) (remdups_adj (sort segments))"
    and cs: "cs = readable_segments (content d) (remdups_adj (sort segments))" and R: "R = all_records crc m cs" "R \<noteq> []"
  shows "\<exists>out d'. flush_run pq crc to_json now cfg segments (m, d) = (Inr out, (marked m now (fst (last cs)), d')) \<and>
    published pq cfg crc m cs (content d') \<and> (\<forall>x\<in>set cs. content d' (segment_path (fst x)) = None) \<and>
    segments_consumed out = map fst cs \<and> rows_written out = total_rows R \<and> rows_written out + rows_deduplicated out = length R"
proof -
  obtain r m' d' where run: "flush_run pq crc to_json now cfg segments (m, d) = (r, (m', d'))" by (cases "flush_run pq crc to_json now cfg segments (m, d)") auto
  note ends = flush_run_ends [where k = True and good = True, OF disk good run]
  then obtain out where out: "r = Inr out" "completed pq crc now cfg m True (content d) (remdups_adj (sort segments)) out m' (content d')"
    by (auto split: sum.splits)
  have "distinct (remdups_adj (sort segments))" by (rule sorted_once) simp
  then have "reported pq crc now cfg m cs out m' (content d')"
    using out(2) R walked_all unfolding completed_def cs by blast
  then show ?thesis using run out(1) R(1) by (auto simp: reported_def Let_def)
qed

text \<open>
  Claim C15. One record can stop every flush. The output format stores timestamps as signed 64-bit
  numbers; if any record of any readable segment has a timestamp beyond that range, a flush of these
  segments fails, even on a disk that refuses nothing, and it fails again whenever it is retried.\<close>

theorem poison_timestamp_blocks_every_flush:
  fixes pq :: "'s Parquet" and d :: "'m Disk_scheme"
  assumes disk: "wf_disk d" "calm d" "flushable m" "\<forall>i\<in>set segments. \<forall>bs. content d (segment_path i) = Some bs \<longrightarrow> length bs < 2 ^ 32"
    and i: "i \<in> set segments" "content d (segment_path i) = Some bs" "\<not> isl (parse_segment_header bs)"
    and r: "r \<in> set (segment_records crc m i bs)" "i64_max < unat (hd_ts (snd r))"
  shows "isl (fst (flush_run pq crc to_json now cfg segments (m, d)))"
proof (rule ccontr)
  let ?ids = "remdups_adj (sort segments)"
  assume "\<not> isl (fst (flush_run pq crc to_json now cfg segments (m, d)))"
  then obtain out m' d' where run: "flush_run pq crc to_json now cfg segments (m, d) = (Inr out, (m', d'))"
    by (cases "flush_run pq crc to_json now cfg segments (m, d)") (auto simp: not_isl)
  from flush_run_ends [where k = True and good = False, OF disk _ run]
  have "completed pq crc now cfg m True (content d) ?ids out m' (content d')" by simp
  then obtain cs where cs: "walked (content d) ?ids cs (content d')" "all_records crc m cs \<noteq> [] \<longrightarrow> reported pq crc now cfg m cs out m' (content d')"
    unfolding completed_def by blast
  have "distinct ?ids" by (rule sorted_once) simp
  then have "(i, bs) \<in> set cs" using walked_all [OF cs(1)] i by (force simp: readable_segments_def)
  then have "r \<in> set (all_records crc m cs)" using r(1) by (auto simp: all_records_def)
  then have "unat (hd_ts (snd r)) \<le> i64_max" using cs(2) by (auto simp: reported_def Let_def)
  with r(2) show False by simp
qed

section \<open>Examples\<close>

text \<open>A log of one segment that holds the same record twice, and a disk that refuses its twelfth call.\<close>

definition flush_manifest :: Manifest where
  "flush_manifest = put_history demo_series [\<lparr>es_epoch = 1, es_keys = []\<rparr>] default_manifest"

definition flush_frame :: bytes where
  "flush_frame = [23, 0, 0, 0, 147, 0, 0, 0, 7, 0, 0, 0, 0, 0, 0, 0, 1, 0, 0, 0, 1, 0, 115, 0, 0, 0, 0, 0, 0, 0, 0]"

definition flush_segment :: bytes where
  "flush_segment = [111, 114, 99, 0, 1, 0, 1, 0, 0, 0, 0, 0, 0, 0] @ flush_frame @ flush_frame"

definition flush_disk :: "(nat \<Rightarrow> outcome) \<Rightarrow> Disk" where
  "flush_disk outcomes = \<lparr>files = [(segment_path 1, flush_segment)], faults = outcomes, ops = 0, stable = (\<lambda>_. None), linked = (\<lambda>_. False)\<rparr>"

lemma flush_disk_facts:
  "wf_disk (flush_disk outcomes)" "content (flush_disk outcomes) (segment_path 1) = Some flush_segment" "length flush_segment < 2 ^ 32"
  by (simp_all add: flush_disk_def wf_disk_def content_def flush_segment_def flush_frame_def)

lemma flush_manifest_facts: "flushable flush_manifest" "last_flushed_segment flush_manifest = 0"
proof -
  have "schemas_of flush_manifest = {(demo_series, 1)}"
    by (auto simp: schemas_of_def flush_manifest_def put_history_def man_schema_def default_manifest_def history_of_def split: if_splits)
  then show "flushable flush_manifest" by (simp add: flushable_def demo_series_def lit_def)
qed (simp add: flush_manifest_def put_history_def default_manifest_def)

lemma flush_records: "map (\<lambda>r. hd_ts (snd r)) (segment_records demo_crc flush_manifest 1 flush_segment) = [7, 7]"
  by code_simp

lemma flush_header: "\<not> isl (parse_segment_header flush_segment)"
  by code_simp

lemma flush_disk_calm: "calm (flush_disk (\<lambda>_. Done))"
  by (simp add: calm_def flush_disk_def)

lemma flush_disk_small: "\<forall>i\<in>set [1]. \<forall>bs. content (flush_disk outcomes) (segment_path i) = Some bs \<longrightarrow> length bs < 2 ^ 32"
  using flush_disk_facts(2,3) by simp

lemma flush_fit: "fit demo_parquet demo_crc demo_to_json 9 default_config flush_manifest (content (flush_disk (\<lambda>_. Done))) (remdups_adj (sort [1]))"
proof -
  have "unat (hd_ts (snd r)) \<le> i64_max" if "r \<in> set (segment_records demo_crc flush_manifest 1 flush_segment)" for r
  proof -
    have "hd_ts (snd r) \<in> set [7, 7]" using that unfolding flush_records [symmetric] by auto
    then show ?thesis by (auto simp: i64_max_def)
  qed
  then show ?thesis
    using flush_disk_facts(2) by (simp add: fit_def willing_def pq_willing_def demo_parquet_def demo_to_json_def default_config_def default_flush_def SUPPORTED_COMPRESSION_def)
qed

lemma flush_readable: "readable_segments (content (flush_disk (\<lambda>_. Done))) (remdups_adj (sort [1])) = [(1, flush_segment)]"
  using flush_header flush_disk_facts(2) by (simp add: readable_segments_def)

lemma flush_two: "all_records demo_crc flush_manifest [(1, flush_segment)] = segment_records demo_crc flush_manifest 1 flush_segment"
  "length (segment_records demo_crc flush_manifest 1 flush_segment) = 2"
  using arg_cong [OF flush_records, of length] by (simp_all add: all_records_def)

theorem flush_never_loses_a_record_witness:
  "let (r, m', d') = flush_run demo_parquet demo_crc demo_to_json 9 default_config [1] (flush_manifest, flush_disk (\<lambda>n. if n = 12 then Refused 0 else Done)) in
     content d' (segment_path 1) = Some flush_segment \<or> 1 \<le> last_flushed_segment m' \<and>
     (\<forall>row\<in>set (segment_records demo_crc flush_manifest 1 flush_segment). in_output demo_parquet default_config flush_manifest (given_records demo_crc flush_manifest (content (flush_disk (\<lambda>n. if n = 12 then Refused 0 else Done))) {1}) (last_flushed_segment m') (content d') row)"
proof -
  have "last_flushed_segment flush_manifest < 1" by (simp add: flush_manifest_facts(2))
  then have "content d' (segment_path 1) = Some flush_segment \<or> 1 \<le> last_flushed_segment m' \<and>
     (\<forall>row\<in>set (segment_records demo_crc flush_manifest 1 flush_segment). in_output demo_parquet default_config flush_manifest (given_records demo_crc flush_manifest (content (flush_disk outcomes)) {1}) (last_flushed_segment m') (content d') row)"
    if "flush_run demo_parquet demo_crc demo_to_json 9 default_config [1] (flush_manifest, flush_disk outcomes) = (r, m', d')" for outcomes r m' d'
    using flush_never_loses_a_record [OF flush_disk_facts(1) flush_manifest_facts(1) flush_disk_small that _ _ flush_disk_facts(2)] flush_header by auto
  then show ?thesis by (simp split: prod.splits)
qed

text \<open>The same record with a timestamp one beyond the range.\<close>

definition poison_segment :: bytes where
  "poison_segment = [111, 114, 99, 0, 1, 0, 1, 0, 0, 0, 0, 0, 0, 0] @
     [23, 0, 0, 0, 12, 1, 0, 0, 0, 0, 0, 0, 0, 0, 0, 128, 1, 0, 0, 0, 1, 0, 115, 0, 0, 0, 0, 0, 0, 0, 0]"

definition poison_disk :: Disk where
  "poison_disk = \<lparr>files = [(segment_path 1, poison_segment)], faults = (\<lambda>_. Done), ops = 0, stable = (\<lambda>_. None), linked = (\<lambda>_. False)\<rparr>"

lemma poison_records: "map (\<lambda>r. hd_ts (snd r)) (segment_records demo_crc flush_manifest 1 poison_segment) = [2 ^ 63]"
  by code_simp

lemma poison_header: "\<not> isl (parse_segment_header poison_segment)"
  by code_simp

theorem poison_timestamp_blocks_every_flush_witness:
  "isl (fst (flush_run demo_parquet demo_crc demo_to_json 9 default_config [1] (flush_manifest, poison_disk)))"
proof -
  obtain r where r: "r \<in> set (segment_records demo_crc flush_manifest 1 poison_segment)" "hd_ts (snd r) = 2 ^ 63"
    using poison_records by (cases "segment_records demo_crc flush_manifest 1 poison_segment") auto
  have disk: "wf_disk poison_disk" "calm poison_disk" "content poison_disk (segment_path 1) = Some poison_segment"
    by (simp_all add: wf_disk_def calm_def content_def poison_disk_def)
  have "\<forall>i\<in>set [1]. \<forall>bs. content poison_disk (segment_path i) = Some bs \<longrightarrow> length bs < 2 ^ 32" using disk(3) by (simp add: poison_segment_def)
  from poison_timestamp_blocks_every_flush [OF disk(1,2) flush_manifest_facts(1) this _ disk(3) poison_header r(1)] r(2) show ?thesis
    by (simp add: i64_max_def)
qed

theorem flush_completes_witness:
  "\<exists>out d'. flush_run demo_parquet demo_crc demo_to_json 9 default_config [1] (flush_manifest, flush_disk (\<lambda>_. Done)) =
       (Inr out, (marked flush_manifest 9 1, d')) \<and> content d' (segment_path 1) = None \<and> rows_written out + rows_deduplicated out = 2"
  using flush_completes [OF flush_disk_facts(1) flush_disk_calm flush_manifest_facts(1) flush_disk_small flush_fit refl refl]
  unfolding flush_readable flush_two(1) using flush_two(2) by fastforce

end
