(* ===== verification/Orc_Engine.thy ===== *)
theory Orc_Engine
  imports Orc_Writer_Laws Orc_Flush_Run
begin

text \<open>
  The engine (\<open>src/src/engine.rs\<close>): validation of appends, ingest of client-encoded frames, the
  flush that seals the log and runs the planner, and the order in which a data directory is opened.

  \<open>Inner\<close> is what the source shares between threads, but for the log writer, which is passed beside
  it, and the mutexes: every operation here is one thread's. An operation reads the wall clock once;
  the reading is its argument, as is the log's own clock. The thread-local encode buffer is cleared
  before every use, so it carries nothing from call to call and only its contents are modelled.
\<close>

section \<open>State\<close>

record Counters =
  ct_appended :: u64
  ct_rejected_ts :: u64
  ct_rejected_size :: u64
  ct_rejected_series :: u64
  ct_rejected_frames :: u64
  ct_flush_failures :: u64
  ct_rows_flushed :: u64
  ct_rows_deduplicated :: u64

definition counters_default :: Counters where
  "counters_default = \<lparr>ct_appended = 0, ct_rejected_ts = 0, ct_rejected_size = 0, ct_rejected_series = 0,
     ct_rejected_frames = 0, ct_flush_failures = 0, ct_rows_flushed = 0, ct_rows_deduplicated = 0\<rparr>"

record Stats =
  s_appended :: u64
  s_rejected_ts :: u64
  s_rejected_size :: u64
  s_rejected_series :: u64
  s_rejected_frames :: u64
  s_flush_failures :: u64
  s_rows_flushed :: u64
  s_rows_deduplicated :: u64
  s_wal_bytes :: u64
  s_wal_total_bytes :: u64
  s_segment :: u64

record RawIngest =
  raw_accepted :: nat
  raw_rejected :: nat
  raw_discarded_bytes :: nat

definition raw_default :: RawIngest where
  "raw_default = \<lparr>raw_accepted = 0, raw_rejected = 0, raw_discarded_bytes = 0\<rparr>"

record Inner =
  in_config :: Config
  in_manifest :: Manifest
  in_handles :: "rstr \<rightharpoonup> SeriesHandle"
  in_lock :: u32
  in_counters :: Counters
  in_ts_min :: u64
  in_ts_max_skew_us :: u64
  in_stop :: bool

type_synonym ('m, 'a) engine = "(Inner \<times> Shared \<times> 'm Disk_scheme, Error, 'a) fallible"

text \<open>Steps on the log, on the files and on the counters.\<close>

definition on_wal :: "('m, 'a) wal \<Rightarrow> ('m, 'a) engine" where
  "on_wal f = (\<lambda>(e, w, d). case f (w, d) of (r, (w', d')) \<Rightarrow> (r, (e, w', d')))"

definition on_files :: "('m, 'a) eio \<Rightarrow> ('m, 'a) engine" where
  "on_files f = (\<lambda>(e, w, d). case f d of (r, d') \<Rightarrow> (r, (e, w, d')))"

definition bump :: "(Counters \<Rightarrow> Counters) \<Rightarrow> Inner \<Rightarrow> Inner" where
  "bump f e = e\<lparr>in_counters := f (in_counters e)\<rparr>"

definition tally :: "(Counters \<Rightarrow> Counters) \<Rightarrow> ('m, unit) engine" where
  "tally f = (\<lambda>(e, w, d). (Inr (), (bump f e, w, d)))"

text \<open>A step that depends on what \<open>Inner\<close> holds.\<close>

definition asks :: "(Inner \<Rightarrow> ('m, 'a) engine) \<Rightarrow> ('m, 'a) engine" where
  "asks f = (\<lambda>(e, w, d). f e (e, w, d))"

definition saturating_add_u64 :: "u64 \<Rightarrow> u64 \<Rightarrow> u64" where
  "saturating_add_u64 a b = (if unat a + unat b < 2 ^ 64 then a + b else - 1)"

definition saturating_mul_u64 :: "u64 \<Rightarrow> u64 \<Rightarrow> u64" where
  "saturating_mul_u64 a b = (if unat a * unat b < 2 ^ 64 then a * b else - 1)"

definition saturating_sub_u64 :: "u64 \<Rightarrow> u64 \<Rightarrow> u64" where
  "saturating_sub_u64 a b = (if b \<le> a then a - b else 0)"

definition saturating_add_usize :: "nat \<Rightarrow> nat \<Rightarrow> nat" where
  "saturating_add_usize a b = min (2 ^ 64 - 1) (a + b)"

section \<open>Checks on a row\<close>

fun add_str :: "Value \<Rightarrow> nat \<Rightarrow> nat" where
  "add_str (VStr s) n = saturating_add_usize n (length s)"
| "add_str _ n = n"

definition oversize :: "Row \<Rightarrow> nat \<Rightarrow> nat option" where
  "oversize row limit =
     (let n = fold add_str (row_keys row) (saturating_add_usize (length (row_id row)) (length (row_data row))) in
      if limit < n then Some n else None)"

definition record_limit :: "Inner \<Rightarrow> nat" where
  "record_limit e = unat (max_record_bytes (cfg_limits (in_config e)))"

definition ts_upper_bound :: "u64 \<Rightarrow> Inner \<Rightarrow> u64 option" where
  "ts_upper_bound now e =
     (if now < in_ts_min e then None else Some (saturating_add_u64 now (in_ts_max_skew_us e)))"

definition count_rejected_ts :: "Counters \<Rightarrow> Counters" where
  "count_rejected_ts c = c\<lparr>ct_rejected_ts := ct_rejected_ts c + 1\<rparr>"

definition check_ts :: "u64 \<Rightarrow> u64 \<Rightarrow> ('m, unit) engine" where
  "check_ts now ts =
     asks (\<lambda>e. let hi = ts_upper_bound now e in
       if ts < in_ts_min e \<or> (case hi of None \<Rightarrow> False | Some m \<Rightarrow> m < ts) then
         seq (tally count_rejected_ts) (\<lambda>_. fail (TsOutOfRange ts (in_ts_min e) (case hi of None \<Rightarrow> - 1 | Some m \<Rightarrow> m)))
       else ok ())"

definition check_value :: "rstr \<Rightarrow> KeyDef \<times> Value \<Rightarrow> Error + unit" where
  "check_value series = (\<lambda>(def, val).
     case value_key_type val of
       None \<Rightarrow> if key_nullable def then Inr () else Inl (TypeMismatch series (key_name def) (key_ty def) None)
     | Some got \<Rightarrow> if got = key_ty def then Inr () else Inl (TypeMismatch series (key_name def) (key_ty def) (Some got)))"

definition check_row :: "u64 \<Rightarrow> SeriesHandle \<Rightarrow> Row \<Rightarrow> ('m, unit) engine" where
  "check_row now handle row =
     seq (check_ts now (row_ts row)) (\<lambda>_.
       if length (row_keys row) \<noteq> handle_arity handle then
         fail (KeyArity (sh_name handle) (handle_arity handle) (length (row_keys row)))
       else case check_each (check_value (sh_name handle)) (zip (sh_keys handle) (row_keys row)) of
              Inl err \<Rightarrow> fail err
            | Inr _ \<Rightarrow> ok ())"

section \<open>Appending\<close>

definition engine_series :: "Inner \<Rightarrow> rstr \<Rightarrow> Error + SeriesHandle" where
  "engine_series e name = ok_or (UnknownSeries name) (in_handles e name)"

definition count_rejected_size :: "Counters \<Rightarrow> Counters" where
  "count_rejected_size c = c\<lparr>ct_rejected_size := ct_rejected_size c + 1\<rparr>"

definition count_appended :: "nat \<Rightarrow> Counters \<Rightarrow> Counters" where
  "count_appended n c = c\<lparr>ct_appended := ct_appended c + of_nat n\<rparr>"

definition too_large :: "nat \<Rightarrow> nat \<Rightarrow> ('m, 'a) engine" where
  "too_large n limit = seq (tally count_rejected_size) (\<lambda>_. fail (RecordTooLarge n limit))"

definition check_size :: "Row \<Rightarrow> ('m, unit) engine" where
  "check_size row = asks (\<lambda>e.
     case oversize row (record_limit e) of Some n \<Rightarrow> too_large n (record_limit e) | None \<Rightarrow> ok ())"

text \<open>Encoding into the buffer, with the exact size check behind it.\<close>

definition encode_checked :: "(bytes \<Rightarrow> u32) \<Rightarrow> SeriesHandle \<Rightarrow> Row \<Rightarrow> bytes \<Rightarrow> ('m, bytes) engine" where
  "encode_checked crc handle row buf = asks (\<lambda>e.
     case encode crc (sh_name handle) (sh_epoch handle) row buf of
       (Inl err, _) \<Rightarrow> fail err
     | (Inr _, buf') \<Rightarrow>
         let n = length buf' - length buf in
         if record_limit e < n then too_large n (record_limit e) else ok buf')"

definition engine_append :: "(bytes \<Rightarrow> u32) \<Rightarrow> u64 \<Rightarrow> int \<Rightarrow> SeriesHandle \<Rightarrow> Row \<Rightarrow> ('m, unit) engine" where
  "engine_append crc now wal_now handle row =
     seq (check_row now handle row) (\<lambda>_.
     seq (check_size row) (\<lambda>_.
     seq (encode_checked crc handle row []) (\<lambda>buf.
     seq (on_wal (wal_append wal_now buf)) (\<lambda>_.
     tally (count_appended 1)))))"

fun encode_all :: "(bytes \<Rightarrow> u32) \<Rightarrow> SeriesHandle \<Rightarrow> Row list \<Rightarrow> bytes \<Rightarrow> ('m, bytes) engine" where
  "encode_all crc handle [] buf = ok buf"
| "encode_all crc handle (row # rows) buf = seq (encode_checked crc handle row buf) (encode_all crc handle rows)"

definition engine_append_batch :: "(bytes \<Rightarrow> u32) \<Rightarrow> u64 \<Rightarrow> int \<Rightarrow> SeriesHandle \<Rightarrow> Row list \<Rightarrow> ('m, unit) engine" where
  "engine_append_batch crc now wal_now handle rows =
     seq (for_each (\<lambda>row. seq (check_row now handle row) (\<lambda>_. check_size row)) rows) (\<lambda>_.
     seq (encode_all crc handle rows []) (\<lambda>buf.
     seq (on_wal (wal_append_batch wal_now buf)) (\<lambda>_.
     tally (count_appended (length rows)))))"

section \<open>Raw ingest\<close>

definition count_rejected_series :: "Counters \<Rightarrow> Counters" where
  "count_rejected_series c = c\<lparr>ct_rejected_series := ct_rejected_series c + 1\<rparr>"

definition count_rejected_frames :: "nat \<Rightarrow> Counters \<Rightarrow> Counters" where
  "count_rejected_frames n c = c\<lparr>ct_rejected_frames := ct_rejected_frames c + of_nat n\<rparr>"

definition known_series :: "Inner \<Rightarrow> Prefix \<Rightarrow> bool" where
  "known_series e p = (case in_handles e (pre_series p) of None \<Rightarrow> False | Some h \<Rightarrow> pre_epoch p \<le> sh_epoch h)"

text \<open>One frame of a batch: a refused one is only counted. The result tells whether it is kept.\<close>

definition take_frame :: "u64 \<Rightarrow> Prefix \<Rightarrow> ('m, bool) engine" where
  "take_frame now p = (\<lambda>s.
     case check_ts now (pre_ts p) s of
       (Inl _, s') \<Rightarrow> (Inr False, s')
     | (Inr _, s') \<Rightarrow>
         asks (\<lambda>e. if known_series e p then ok True else seq (tally count_rejected_series) (\<lambda>_. ok False)) s')"

function raw_loop :: "(bytes \<Rightarrow> u32) \<Rightarrow> u64 \<Rightarrow> bytes \<Rightarrow> RawIngest \<times> bytes \<Rightarrow> ('m, RawIngest \<times> bytes) engine" where
  "raw_loop crc now bs acc s =
     (if bs = [] then (Inr acc, s)
      else case validate_prefix crc bs (record_limit (fst s)) of
             Inl _ \<Rightarrow>
               (Inr ((fst acc)\<lparr>raw_rejected := raw_rejected (fst acc) + 1,
                               raw_discarded_bytes := raw_discarded_bytes (fst acc) + length bs\<rparr>, snd acc), s)
           | Inr p \<Rightarrow>
               (case take_frame now p s of
                  (Inr True, s') \<Rightarrow>
                    raw_loop crc now (drop (pre_frame_len p) bs)
                      ((fst acc)\<lparr>raw_accepted := raw_accepted (fst acc) + 1\<rparr>, snd acc @ take (pre_frame_len p) bs) s'
                | (_, s') \<Rightarrow>
                    raw_loop crc now (drop (pre_frame_len p) bs)
                      ((fst acc)\<lparr>raw_rejected := raw_rejected (fst acc) + 1\<rparr>, snd acc) s'))"
  by pat_completeness auto
termination
  by (relation "measure (\<lambda>(_, _, bs, _). length bs)") (auto dest: validate_prefix_progress)

declare raw_loop.simps [simp del]

definition append_raw :: "(bytes \<Rightarrow> u32) \<Rightarrow> u64 \<Rightarrow> int \<Rightarrow> bytes \<Rightarrow> ('m, RawIngest) engine" where
  "append_raw crc now wal_now bs =
     seq (raw_loop crc now bs (raw_default, [])) (\<lambda>(out, good).
     seq (if good \<noteq> [] then
            seq (on_wal (wal_append_batch wal_now good)) (\<lambda>_. tally (count_appended (raw_accepted out)))
          else ok ()) (\<lambda>_.
     seq (if 0 < raw_rejected out then tally (count_rejected_frames (raw_rejected out)) else ok ()) (\<lambda>_.
     ok out)))"

section \<open>Flushing\<close>

definition flush_overdue :: "u64 \<Rightarrow> Inner \<Rightarrow> bool" where
  "flush_overdue now e =
     (case last_flush_at (in_manifest e) of
        None \<Rightarrow> True
      | Some last_at \<Rightarrow> saturating_mul_u64 (interval_ms (cfg_flush (in_config e))) 1000 \<le> saturating_sub_u64 now last_at)"

definition count_flushed :: "FlushOutcome \<Rightarrow> Counters \<Rightarrow> Counters" where
  "count_flushed out c =
     c\<lparr>ct_flush_failures := 0, ct_rows_flushed := ct_rows_flushed c + of_nat (rows_written out),
       ct_rows_deduplicated := ct_rows_deduplicated c + of_nat (rows_deduplicated out)\<rparr>"

definition count_flush_failure :: "Counters \<Rightarrow> Counters" where
  "count_flush_failure c = c\<lparr>ct_flush_failures := ct_flush_failures c + 1\<rparr>"

definition run_planner ::
  "'s Parquet \<Rightarrow> (bytes \<Rightarrow> u32) \<Rightarrow> (Manifest \<Rightarrow> string + bytes) \<Rightarrow> u64 \<Rightarrow> u64 list \<Rightarrow> ('m, FlushOutcome) engine" where
  "run_planner pq crc to_json now ids = (\<lambda>(e, w, d).
     case flush_run pq crc to_json now (in_config e) ids (in_manifest e, d) of
       (Inr out, (m, d')) \<Rightarrow> (Inr out, (bump (count_flushed out) (e\<lparr>in_manifest := m\<rparr>), w, d'))
     | (Inl err, (m, d')) \<Rightarrow> (Inl err, (bump count_flush_failure (e\<lparr>in_manifest := m\<rparr>), w, d')))"

text \<open>After the segment is sealed and the segments are listed.\<close>

definition flush_listed ::
  "'s Parquet \<Rightarrow> (bytes \<Rightarrow> u32) \<Rightarrow> (Manifest \<Rightarrow> string + bytes) \<Rightarrow> u64 \<Rightarrow> u64 list \<Rightarrow> ('m, FlushOutcome) engine" where
  "flush_listed pq crc to_json now listed = (\<lambda>(e, w, d).
     let active = wal_segment w; floor = last_flushed_segment (in_manifest e) in
     seq (if 0 < ct_flush_failures (in_counters e) then on_files (sweep_uncommitted floor) else ok ()) (\<lambda>_.
       run_planner pq crc to_json now (filter (\<lambda>i. i < active \<and> floor < i) listed)) (e, w, d))"

definition engine_flush ::
  "'s Parquet \<Rightarrow> (bytes \<Rightarrow> u32) \<Rightarrow> (Manifest \<Rightarrow> string + bytes) \<Rightarrow> u64 \<Rightarrow> int \<Rightarrow> ('m, FlushOutcome) engine" where
  "engine_flush pq crc to_json now wal_now =
     seq (on_wal (seal wal_now)) (\<lambda>_.
     seq (on_files list_segments) (\<lambda>listed.
     flush_listed pq crc to_json now listed))"

text \<open>
  One turn of the flush timer, once its wait is over: the result tells whether it goes on. A failed
  flush is logged and ignored.
\<close>

definition flusher_turn ::
  "'s Parquet \<Rightarrow> (bytes \<Rightarrow> u32) \<Rightarrow> (Manifest \<Rightarrow> string + bytes) \<Rightarrow> u64 \<Rightarrow> int \<Rightarrow> bool \<Rightarrow> ('m, bool) engine" where
  "flusher_turn pq crc to_json now wal_now timed_out = asks (\<lambda>e.
     if in_stop e then ok False
     else if \<not> timed_out then ok True
     else (\<lambda>s. (Inr True, snd (engine_flush pq crc to_json now wal_now s))))"

section \<open>Opening and closing\<close>

fun open_handles :: "Manifest \<Rightarrow> SeriesConfig list \<Rightarrow> (rstr \<rightharpoonup> SeriesHandle) \<Rightarrow> Error + (rstr \<rightharpoonup> SeriesHandle)" where
  "open_handles m [] hs = Inr hs"
| "open_handles m (s # ss) hs =
     rbind (handle_new s (case current_epoch m (series_name s) of None \<Rightarrow> 0 | Some ep \<Rightarrow> ep)) (\<lambda>h.
       open_handles m ss (hs(series_name s \<mapsto> h)))"

definition open_parts :: "Config \<Rightarrow> Manifest \<Rightarrow> Error + (rstr \<rightharpoonup> SeriesHandle) \<times> u64" where
  "open_parts config m =
     rbind (open_handles m (cfg_series config) Map.empty) (\<lambda>handles.
     rbind (fst (ts_min_us (cfg_limits config))) (\<lambda>lo. Inr (handles, lo)))"

text \<open>\<open>Manifest::load\<close>, then \<open>reconcile\<close>, committed if it changed anything.\<close>

definition open_manifest ::
  "(bytes \<Rightarrow> string + Manifest) \<Rightarrow> (Manifest \<Rightarrow> string + bytes) \<Rightarrow> Config \<Rightarrow> ('m, Manifest) eio" where
  "open_manifest from_json to_json config =
     seq (\<lambda>d. if \<not> manifest_exists d then require_manifest_for_output d else (Inr (), d)) (\<lambda>_.
     seq (manifest_load from_json) (\<lambda>m.
       case reconcile config m of
         (Inl err, _) \<Rightarrow> fail err
       | (Inr changed, m') \<Rightarrow>
           seq (if changed then manifest_commit to_json m' else ok ()) (\<lambda>_. ok m')))"

text \<open>Everything between the lock and the writer: sweep, recovery, a fresh segment.\<close>

definition open_log :: "(bytes \<Rightarrow> u32) \<Rightarrow> Config \<Rightarrow> Manifest \<Rightarrow> ('m, Recovery \<times> Shared) eio" where
  "open_log crc config m =
     seq (sweep_uncommitted (last_flushed_segment m)) (\<lambda>_.
     seq (recover crc (last_flushed_segment m)) (\<lambda>rec.
     seq (wal_open \<lparr>opt_wal = cfg_wal config, opt_first_segment = rv_next_segment rec, opt_heartbeat = True\<rparr>) (\<lambda>w.
     ok (rec, w))))"

definition inner_new :: "Config \<Rightarrow> Manifest \<Rightarrow> (rstr \<rightharpoonup> SeriesHandle) \<Rightarrow> u32 \<Rightarrow> u64 \<Rightarrow> Inner" where
  "inner_new config m handles pid lo =
     \<lparr>in_config = config, in_manifest = m, in_handles = handles, in_lock = pid, in_counters = counters_default,
      in_ts_min = lo, in_ts_max_skew_us = saturating_mul_u64 (ts_max_skew_ms (cfg_limits config)) 1000, in_stop = False\<rparr>"

definition startup_flush ::
  "'s Parquet \<Rightarrow> (bytes \<Rightarrow> u32) \<Rightarrow> (Manifest \<Rightarrow> string + bytes) \<Rightarrow> u64 \<Rightarrow> int \<Rightarrow> Recovery \<Rightarrow> ('m, unit) engine" where
  "startup_flush pq crc to_json now wal_now rec = asks (\<lambda>e.
     if on_startup (cfg_flush (in_config e)) \<and> rv_pending rec \<noteq> [] \<and> flush_overdue now e
     then (\<lambda>s. (Inr (), snd (engine_flush pq crc to_json now wal_now s))) else ok ())"

definition engine_close :: "int \<Rightarrow> ('m, unit) engine" where
  "engine_close wal_now = (\<lambda>(e, w, d). on_wal (close_open wal_now) (e\<lparr>in_stop := True\<rparr>, w\<lparr>st_stop := True\<rparr>, d))"

text \<open>Starting the timer thread may fail; then the engine built so far is dropped, which closes the log.\<close>

definition spawn_flusher :: "int \<Rightarrow> ('m, unit) engine" where
  "spawn_flusher wal_now = asks (\<lambda>e.
     if interval_ms (cfg_flush (in_config e)) = 0 then ok ()
     else (\<lambda>s. case on_files (lift_io (attempt (ok ()))) s of
                 (Inr _, s') \<Rightarrow> (Inr (), s')
               | (Inl err, s') \<Rightarrow> (Inl err, snd (engine_close wal_now s'))))"

definition open_locked ::
  "'s Parquet \<Rightarrow> (bytes \<Rightarrow> u32) \<Rightarrow> (bytes \<Rightarrow> string + Manifest) \<Rightarrow> (Manifest \<Rightarrow> string + bytes) \<Rightarrow> u64 \<Rightarrow> int \<Rightarrow> Config \<Rightarrow> u32 \<Rightarrow>
     ('m, Inner \<times> Shared) eio" where
  "open_locked pq crc from_json to_json now wal_now config pid =
     seq (open_manifest from_json to_json config) (\<lambda>m.
     seq (open_log crc config m) (\<lambda>(rec, w).
     (\<lambda>d. case open_parts config m of
              Inl err \<Rightarrow> (Inl err, snd (snd (close_open wal_now (w\<lparr>st_stop := True\<rparr>, d))))
            | Inr (handles, lo) \<Rightarrow>
                (case seq (startup_flush pq crc to_json now wal_now rec) (\<lambda>_. spawn_flusher wal_now) (inner_new config m handles pid lo, w, d) of
                   (Inr _, (e, w', d')) \<Rightarrow> (Inr (e, w'), d')
                 | (Inl err, (_, _, d')) \<Rightarrow> (Inl err, d')))))"

text \<open>\<open>Engine::open_with\<close>. A failure after the lock was obtained drops it.\<close>

definition open_with ::
  "'s Parquet \<Rightarrow> (bytes \<Rightarrow> u32) \<Rightarrow> (bytes \<Rightarrow> string + Manifest) \<Rightarrow> (Manifest \<Rightarrow> string + bytes) \<Rightarrow> (rstr \<Rightarrow> rstr) \<Rightarrow>
     ('m LockDisk_scheme \<Rightarrow> 'm LockDisk_scheme) \<Rightarrow> u64 \<Rightarrow> int \<Rightarrow> bool \<Rightarrow> Config \<Rightarrow>
     ('m LockDisk_scheme, Error, Inner \<times> Shared) fallible" where
  "open_with pq crc from_json to_json to_lowercase others now wal_now force_unlock config =
     (case config_validate to_lowercase config of
        (Inl err, _) \<Rightarrow> fail err
      | (Inr _, config') \<Rightarrow>
          seq (acquire others force_unlock) (\<lambda>pid d.
            case open_locked pq crc from_json to_json now wal_now config' pid d of
              (Inr x, d') \<Rightarrow> (Inr x, d')
            | (Inl err, d') \<Rightarrow> (Inl err, snd (release pid d'))))"

definition engine_open where
  "engine_open pq crc from_json to_json to_lowercase others now wal_now config =
     open_with pq crc from_json to_json to_lowercase others now wal_now False config"

section \<open>Reporting\<close>

definition engine_stats :: "('m, Stats) engine" where
  "engine_stats = (\<lambda>(e, w, d).
     let ws = wal_stats w; c = in_counters e in
     case total_bytes d of
       (r, d') \<Rightarrow>
         (Inr \<lparr>s_appended = ct_appended c, s_rejected_ts = ct_rejected_ts c, s_rejected_size = ct_rejected_size c,
               s_rejected_series = ct_rejected_series c, s_rejected_frames = ct_rejected_frames c,
               s_flush_failures = ct_flush_failures c, s_rows_flushed = ct_rows_flushed c,
               s_rows_deduplicated = ct_rows_deduplicated c, s_wal_bytes = stat_segment_bytes ws,
               s_wal_total_bytes = (case r of Inr n \<Rightarrow> n | Inl _ \<Rightarrow> stat_segment_bytes ws),
               s_segment = stat_segment ws\<rparr>, (e, w, d')))"

definition accept_window :: "u64 \<Rightarrow> Inner \<Rightarrow> rstr \<times> rstr option" where
  "accept_window now e = (format_rfc3339_utc (in_ts_min e), map_option format_rfc3339_utc (ts_upper_bound now e))"

end
