(* ===== verification/Orc_Protocol.thy ===== *)
theory Orc_Protocol
  imports Orc_Engine
begin

text \<open>
  The control protocol (\<open>src/src/protocol.rs\<close>) and the sockets client and server talk through. The
  JSON form of requests and replies is the serde_json package's and a parameter of the operations.

  A ZeroMQ socket is what the source can see of it: every call may succeed or return an error, a
  message handed to a sending socket is queued, and a receiving socket returns messages. What comes
  of the \<open>n\<close>-th call is part of the state and arbitrary, as for the file system.
\<close>

section \<open>Messages\<close>

datatype ControlRequest = Ping | StatsReq | FlushReq | SchemaReq | ReloadConfig | Shutdown

record SeriesSchema =
  ss_name :: rstr
  ss_epoch :: u32
  ss_keys :: "KeyDef list"

record StatsPayload =
  sp_engine :: Stats
  sp_batches_received :: u64

record FlushPayload =
  fp_segments_consumed :: "u64 list"
  fp_rows_written :: nat
  fp_rows_deduplicated :: nat
  fp_frames_rejected :: nat

datatype ControlResponse =
    Pong rstr
  | StatsReply StatsPayload
  | Flushed FlushPayload
  | SchemaReply "SeriesSchema list" "u64 option"
  | ShuttingDown
  | ErrorReply string

text \<open>\<open>ControlResponse::error\<close>; how an error is displayed is left open.\<close>

definition response_error :: "('e \<Rightarrow> string) \<Rightarrow> 'e \<Rightarrow> ControlResponse" where
  "response_error display e = ErrorReply (display e)"

section \<open>Sockets\<close>

datatype ZmqError = EAGAIN | EINTR | ZmqOther string

definition zmq_err :: "ZmqError \<Rightarrow> Error" where
  "zmq_err e = Config (case e of EAGAIN \<Rightarrow> ''zeromq: EAGAIN'' | EINTR \<Rightarrow> ''zeromq: EINTR'' | ZmqOther s \<Rightarrow> ''zeromq: '' @ s)"

text \<open>One side's pair of sockets: the calls made, their outcomes, what was queued and the receive timeout.\<close>

record Wire =
  wr_calls :: nat
  wr_refuses :: "nat \<Rightarrow> ZmqError option"
  wr_arrives :: "nat \<Rightarrow> bytes"
  wr_sent :: "bytes list"
  wr_control_sent :: "bytes list"
  wr_rcvtimeo :: int

type_synonym ('m, 'a) net = "('m Wire_scheme, ZmqError, 'a) fallible"

text \<open>A call that has the given effect and value unless it is refused.\<close>

definition zmq_call :: "('m Wire_scheme \<Rightarrow> 'm Wire_scheme) \<Rightarrow> ('m Wire_scheme \<Rightarrow> 'a) \<Rightarrow> ('m, 'a) net" where
  "zmq_call effect result s =
     (let s' = s\<lparr>wr_calls := Suc (wr_calls s)\<rparr> in
      case wr_refuses s (wr_calls s) of Some e \<Rightarrow> (Inl e, s') | None \<Rightarrow> (Inr (result s), effect s'))"

definition zmq_option :: "('m, unit) net" where
  "zmq_option = zmq_call id (\<lambda>_. ())"

definition zmq_set_rcvtimeo :: "int \<Rightarrow> ('m, unit) net" where
  "zmq_set_rcvtimeo ms = zmq_call (\<lambda>s. s\<lparr>wr_rcvtimeo := ms\<rparr>) (\<lambda>_. ())"

definition zmq_push :: "bytes \<Rightarrow> ('m, unit) net" where
  "zmq_push msg = zmq_call (\<lambda>s. s\<lparr>wr_sent := wr_sent s @ [msg]\<rparr>) (\<lambda>_. ())"

definition zmq_control_send :: "bytes \<Rightarrow> ('m, unit) net" where
  "zmq_control_send msg = zmq_call (\<lambda>s. s\<lparr>wr_control_sent := wr_control_sent s @ [msg]\<rparr>) (\<lambda>_. ())"

definition zmq_recv :: "('m, bytes) net" where
  "zmq_recv = zmq_call id (\<lambda>s. wr_arrives s (wr_calls s))"

text \<open>\<open>map_err\<close> on the result of a call.\<close>

definition map_err :: "('e \<Rightarrow> 'f) \<Rightarrow> ('s, 'e, 'a) fallible \<Rightarrow> ('s, 'f, 'a) fallible" where
  "map_err f m s = (case m s of (Inl e, s') \<Rightarrow> (Inl (f e), s') | (Inr x, s') \<Rightarrow> (Inr x, s'))"

lemma map_err_eq [result_simps]:
  "map_err f m s = (Inr x, s') \<longleftrightarrow> m s = (Inr x, s')"
  "map_err f m s = (Inl e, s') \<longleftrightarrow> (\<exists>e'. m s = (Inl e', s') \<and> e = f e')"
  by (auto simp: map_err_def split: prod.splits sum.splits)

end
