(* ===== verification/Orc_Client.thy ===== *)
theory Orc_Client
  imports Orc_Protocol
begin

text \<open>
  The ingest client (\<open>src/src/client.rs\<close>): builder, handshake, control requests, and the buffer of
  encoded records that is sent as batches. The client's sockets are the \<open>Wire\<close> passed beside it;
  the encoder's scratch space carries nothing from call to call and is left out. Messages of
  configuration errors keep their fixed text and leave out the quoted endpoint.
\<close>

section \<open>State\<close>

datatype OnFull = Block | Drop

record RemoteSeries =
  rs_name :: rstr
  rs_epoch :: u32
  rs_keys :: "KeyDef list"

record ClientStats =
  records_sent :: u64
  records_dropped :: u64
  batches_sent :: u64
  bytes_sent :: u64

definition client_stats_default :: ClientStats where
  "client_stats_default = \<lparr>records_sent = 0, records_dropped = 0, batches_sent = 0, bytes_sent = 0\<rparr>"

record ClientBuilder =
  bd_ingest :: rstr
  bd_control :: "rstr option"
  bd_batch :: nat
  bd_sndhwm :: int
  bd_linger_ms :: int
  bd_on_full :: OnFull
  bd_control_timeout_ms :: int
  bd_max_batch_bytes :: nat

definition builder_default :: ClientBuilder where
  "builder_default = \<lparr>bd_ingest = lit ''tcp://127.0.0.1:5555'', bd_control = None, bd_batch = 1024, bd_sndhwm = 100000,
     bd_linger_ms = 2000, bd_on_full = Block, bd_control_timeout_ms = 5000, bd_max_batch_bytes = nat DEFAULT_MAX_BATCH_BYTES\<rparr>"

record Client =
  cl_schema :: "rstr \<rightharpoonup> RemoteSeries"
  cl_buf :: bytes
  cl_pending :: nat
  cl_batch :: nat
  cl_on_full :: OnFull
  cl_stats :: ClientStats
  cl_control_timeout_ms :: int
  cl_control_endpoint :: rstr
  cl_max_batch_bytes :: nat
  cl_configured_max_batch_bytes :: nat

type_synonym ('m, 'a) client = "(Client \<times> 'm Wire_scheme, Error, 'a) fallible"

section \<open>The builder\<close>

definition with_ingest :: "rstr \<Rightarrow> ClientBuilder \<Rightarrow> ClientBuilder" where
  "with_ingest endpoint b = b\<lparr>bd_ingest := endpoint\<rparr>"

definition with_control :: "rstr \<Rightarrow> ClientBuilder \<Rightarrow> ClientBuilder" where
  "with_control endpoint b = b\<lparr>bd_control := Some endpoint\<rparr>"

definition with_batch :: "nat \<Rightarrow> ClientBuilder \<Rightarrow> ClientBuilder" where
  "with_batch records b = b\<lparr>bd_batch := max records 1\<rparr>"

definition with_sndhwm :: "int \<Rightarrow> ClientBuilder \<Rightarrow> ClientBuilder" where
  "with_sndhwm hwm b = b\<lparr>bd_sndhwm := hwm\<rparr>"

definition with_linger_ms :: "int \<Rightarrow> ClientBuilder \<Rightarrow> ClientBuilder" where
  "with_linger_ms ms b = b\<lparr>bd_linger_ms := ms\<rparr>"

definition with_on_full :: "OnFull \<Rightarrow> ClientBuilder \<Rightarrow> ClientBuilder" where
  "with_on_full mode b = b\<lparr>bd_on_full := mode\<rparr>"

definition with_control_timeout_ms :: "int \<Rightarrow> ClientBuilder \<Rightarrow> ClientBuilder" where
  "with_control_timeout_ms ms b = b\<lparr>bd_control_timeout_ms := ms\<rparr>"

definition with_max_batch_bytes :: "nat \<Rightarrow> ClientBuilder \<Rightarrow> ClientBuilder" where
  "with_max_batch_bytes n b = b\<lparr>bd_max_batch_bytes := max n (BATCH_HEADER_BYTES + 1)\<rparr>"

text \<open>\<open>str::rsplit_once(':')\<close>.\<close>

fun rsplit_colon :: "rstr \<Rightarrow> (rstr \<times> rstr) option" where
  "rsplit_colon [] = None"
| "rsplit_colon (b # s) =
     (case rsplit_colon s of
        Some (head, port) \<Rightarrow> Some (b # head, port)
      | None \<Rightarrow> if b = 58 then Some ([], s) else None)"

definition default_control_endpoint :: "rstr \<Rightarrow> Error + rstr" where
  "default_control_endpoint ingest =
     rbind (ok_or (Config ''cannot derive a control endpoint; pass one explicitly'') (rsplit_colon ingest)) (\<lambda>(head, port).
     rbind (ok_or (Config ''cannot derive a control endpoint; pass one explicitly'') (parse_unsigned 65535 port)) (\<lambda>p.
     if p + 1 \<le> 65535 then Inr (head @ [58] @ dec (p + 1))
     else Inl (Config ''cannot derive a control endpoint: port has no successor; pass one explicitly'')))"

section \<open>Control requests\<close>

definition FLUSH_TIMEOUT_MS :: int where "FLUSH_TIMEOUT_MS = 600000"

definition on_wire :: "('m, 'a) net \<Rightarrow> (ZmqError \<Rightarrow> Error) \<Rightarrow> ('m, 'a) client" where
  "on_wire m f = (\<lambda>(cl, wr). case m wr of (Inl e, wr') \<Rightarrow> (Inl (f e), (cl, wr')) | (Inr x, wr') \<Rightarrow> (Inr x, (cl, wr')))"

definition lift_result :: "Error + 'a \<Rightarrow> ('s, Error, 'a) fallible" where
  "lift_result r = (case r of Inl e \<Rightarrow> fail e | Inr x \<Rightarrow> ok x)"

fun control_err :: "string \<Rightarrow> ZmqError \<Rightarrow> Error" where
  "control_err what EAGAIN = Config (''could not '' @ what @ '' the control socket in time; is an orc server running there?'')"
| "control_err what e = zmq_err e"

definition control_inner ::
  "(ControlRequest \<Rightarrow> string + bytes) \<Rightarrow> (bytes \<Rightarrow> string + ControlResponse) \<Rightarrow> ControlRequest \<Rightarrow> ('m, ControlResponse) client" where
  "control_inner to_json from_json req =
     seq (lift_result (map_sum Json id (to_json req))) (\<lambda>bs.
     seq (on_wire (zmq_control_send bs) (control_err ''send to'')) (\<lambda>_.
     seq (on_wire zmq_recv (control_err ''get a reply from'')) (\<lambda>reply.
     lift_result (map_sum Json id (from_json reply)))))"

text \<open>A flush waits longer for its reply; the timeout is restored afterwards, if that works.\<close>

definition control ::
  "(ControlRequest \<Rightarrow> string + bytes) \<Rightarrow> (bytes \<Rightarrow> string + ControlResponse) \<Rightarrow> ControlRequest \<Rightarrow> ('m, ControlResponse) client" where
  "control to_json from_json req =
     (if req = FlushReq then
        seq (on_wire (zmq_set_rcvtimeo FLUSH_TIMEOUT_MS) zmq_err) (\<lambda>_ s.
          case control_inner to_json from_json req s of
            (r, (cl, wr)) \<Rightarrow> (r, (cl, snd (zmq_set_rcvtimeo (cl_control_timeout_ms cl) wr))))
      else control_inner to_json from_json req)"

definition remote_of :: "SeriesSchema \<Rightarrow> RemoteSeries" where
  "remote_of s = \<lparr>rs_name = ss_name s, rs_epoch = ss_epoch s, rs_keys = ss_keys s\<rparr>"

definition adopt_schema :: "SeriesSchema list \<Rightarrow> u64 option \<Rightarrow> Client \<Rightarrow> Client" where
  "adopt_schema series limit cl =
     cl\<lparr>cl_schema := map_of (rev (map (\<lambda>s. (ss_name s, remote_of s)) series)),
        cl_max_batch_bytes := (case limit of
            Some server \<Rightarrow> min (cl_configured_max_batch_bytes cl) (unat server)
          | None \<Rightarrow> cl_configured_max_batch_bytes cl)\<rparr>"

definition refresh_schema ::
  "(ControlRequest \<Rightarrow> string + bytes) \<Rightarrow> (bytes \<Rightarrow> string + ControlResponse) \<Rightarrow> ('m, unit) client" where
  "refresh_schema to_json from_json =
     seq (control to_json from_json SchemaReq) (\<lambda>reply.
       case reply of
         SchemaReply series limit \<Rightarrow> (\<lambda>(cl, wr). (Inr (), (adopt_schema series limit cl, wr)))
       | ErrorReply message \<Rightarrow> fail (Config message)
       | _ \<Rightarrow> fail (Config ''unexpected reply to a schema request''))"

definition client_new :: "ClientBuilder \<Rightarrow> rstr \<Rightarrow> Client" where
  "client_new b endpoint =
     \<lparr>cl_schema = Map.empty, cl_buf = [], cl_pending = 0, cl_batch = bd_batch b, cl_on_full = bd_on_full b,
      cl_stats = client_stats_default, cl_control_timeout_ms = bd_control_timeout_ms b, cl_control_endpoint = endpoint,
      cl_max_batch_bytes = bd_max_batch_bytes b, cl_configured_max_batch_bytes = bd_max_batch_bytes b\<rparr>"

text \<open>
  Connecting: the push socket (created, two options, connected), then the control socket (created,
  five options, connected), then the handshake.
\<close>

definition connect ::
  "(ControlRequest \<Rightarrow> string + bytes) \<Rightarrow> (bytes \<Rightarrow> string + ControlResponse) \<Rightarrow> ClientBuilder \<Rightarrow>
     ('m Wire_scheme, Error, Client) fallible" where
  "connect to_json from_json b =
     seq (for_each (\<lambda>_. map_err zmq_err zmq_option) [1 :: nat, 2, 3]) (\<lambda>_.
     seq (map_err (\<lambda>_. Config ''connecting'') zmq_option) (\<lambda>_.
     seq (lift_result (case bd_control b of Some c \<Rightarrow> Inr c | None \<Rightarrow> default_control_endpoint (bd_ingest b))) (\<lambda>endpoint.
     seq (for_each (\<lambda>_. map_err zmq_err zmq_option) [1 :: nat, 2]) (\<lambda>_.
     seq (map_err zmq_err (zmq_set_rcvtimeo (bd_control_timeout_ms b))) (\<lambda>_.
     seq (for_each (\<lambda>_. map_err zmq_err zmq_option) [1 :: nat, 2, 3]) (\<lambda>_.
     seq (map_err (\<lambda>_. Config ''connecting'') zmq_option) (\<lambda>_.
     (\<lambda>wr. case refresh_schema to_json from_json (client_new b endpoint, wr) of
              (Inr _, (cl, wr')) \<Rightarrow> (Inr cl, wr')
            | (Inl e, (_, wr')) \<Rightarrow> (Inl e, wr')))))))))"

section \<open>Sending\<close>

definition client_series :: "Client \<Rightarrow> rstr \<Rightarrow> Error + RemoteSeries" where
  "client_series cl name = ok_or (UnknownSeries name) (cl_schema cl name)"

definition note_sent :: "nat \<Rightarrow> nat \<Rightarrow> ClientStats \<Rightarrow> ClientStats" where
  "note_sent records len st =
     st\<lparr>records_sent := records_sent st + of_nat records, batches_sent := batches_sent st + 1, bytes_sent := bytes_sent st + of_nat len\<rparr>"

definition note_dropped :: "nat \<Rightarrow> ClientStats \<Rightarrow> ClientStats" where
  "note_dropped records st = st\<lparr>records_dropped := records_dropped st + of_nat records\<rparr>"

definition batch_message :: "Client \<Rightarrow> bytes" where
  "batch_message cl = encode_batch_header [] (of_nat (cl_pending cl)) @ cl_buf cl"

definition emptied :: "(ClientStats \<Rightarrow> ClientStats) \<Rightarrow> Client \<Rightarrow> Client" where
  "emptied f cl = cl\<lparr>cl_stats := f (cl_stats cl), cl_buf := [], cl_pending := 0\<rparr>"

text \<open>
  The send flag only tells the socket whether to block, so a full queue shows as \<open>EAGAIN\<close> or as a
  call that takes longer; both are outcomes of \<open>zmq_push\<close>.
\<close>

definition client_flush :: "('m, unit) client" where
  "client_flush = (\<lambda>(cl, wr).
     if cl_pending cl = 0 then (Inr (), (cl, wr))
     else let size = BATCH_HEADER_BYTES + length (cl_buf cl) in
       if cl_max_batch_bytes cl < size then (Inl (BatchTooLarge size (cl_max_batch_bytes cl)), (cl, wr))
       else let msg = batch_message cl in
         case zmq_push msg wr of
           (Inr _, wr') \<Rightarrow> (Inr (), (emptied (note_sent (cl_pending cl) (length msg)) cl, wr'))
         | (Inl EAGAIN, wr') \<Rightarrow> (Inr (), (emptied (note_dropped (cl_pending cl)) cl, wr'))
         | (Inl e, wr') \<Rightarrow> (Inl (zmq_err e), (cl, wr')))"

text \<open>The frame is in the buffer and is counted; a full batch goes out.\<close>

definition count_record :: "('m, unit) client" where
  "count_record = (\<lambda>(cl, wr).
     let cl' = cl\<lparr>cl_pending := cl_pending cl + 1\<rparr> in
     if cl_batch cl' \<le> cl_pending cl' then client_flush (cl', wr) else (Inr (), (cl', wr)))"

definition put_buf :: "bytes \<Rightarrow> ('m, unit) client" where
  "put_buf bs = (\<lambda>(cl, wr). (Inr (), (cl\<lparr>cl_buf := bs\<rparr>, wr)))"

definition client_send :: "(bytes \<Rightarrow> u32) \<Rightarrow> RemoteSeries \<Rightarrow> Row \<Rightarrow> ('m, unit) client" where
  "client_send crc series row = (\<lambda>(cl, wr).
     let before = length (cl_buf cl) in
     case encode crc (rs_name series) (rs_epoch series) row (cl_buf cl) of
       (Inl e, buf) \<Rightarrow> (Inl e, (cl\<lparr>cl_buf := buf\<rparr>, wr))
     | (Inr _, buf) \<Rightarrow>
         let frame = length buf - before in
         if cl_max_batch_bytes cl < BATCH_HEADER_BYTES + frame then
           (Inl (BatchTooLarge (BATCH_HEADER_BYTES + frame) (cl_max_batch_bytes cl)), (cl\<lparr>cl_buf := take before buf\<rparr>, wr))
         else if 0 < before \<and> cl_max_batch_bytes cl < BATCH_HEADER_BYTES + length buf then
           seq (put_buf (take before buf)) (\<lambda>_.
           seq client_flush (\<lambda>_.
           seq (\<lambda>(cl', wr'). put_buf (cl_buf cl' @ drop before buf) (cl', wr')) (\<lambda>_.
           count_record))) (cl, wr)
         else seq (put_buf buf) (\<lambda>_. count_record) (cl, wr))"

text \<open>Dropping a client sends what is left, if that works.\<close>

definition client_drop :: "Client \<times> 'm Wire_scheme \<Rightarrow> 'm Wire_scheme" where
  "client_drop = (\<lambda>(cl, wr). if 0 < cl_pending cl then snd (snd (client_flush (cl, wr))) else wr)"

end
