(* ===== verification/Orc_Client_Laws.thy ===== *)
theory Orc_Client_Laws
  imports Orc_Client Orc_Codec_Laws
begin

text \<open>
  What a client promises: whatever its sockets do, the batches it hands over are well formed and
  within its limit, and together with what it reports as dropped and what it still buffers they are
  the records it was given, in order.
\<close>

section \<open>Batches\<close>

abbreviation remote_frame :: "(bytes \<Rightarrow> u32) \<Rightarrow> RemoteSeries \<Rightarrow> Row \<Rightarrow> bytes" where
  "remote_frame crc series row \<equiv> frame_of crc (rs_name series) (rs_epoch series) row"

definition message_of :: "bytes list \<Rightarrow> bytes" where
  "message_of fs = encode_batch_header [] (of_nat (length fs)) @ concat fs"

definition buffers :: "Client \<Rightarrow> bytes list \<Rightarrow> bool" where
  "buffers cl fs \<longleftrightarrow> cl_buf cl = concat fs \<and> cl_pending cl = length fs"

text \<open>
  The batches a client is done with, each with the fate it reported: handed to the socket, or
  dropped because its queue was full.
\<close>

type_synonym batches = "(bool \<times> bytes list) list"

definition sent :: "batches \<Rightarrow> bytes list list" where
  "sent bs = map snd (filter fst bs)"

definition dropped :: "batches \<Rightarrow> bytes list list" where
  "dropped bs = map snd (filter (\<lambda>b. \<not> fst b) bs)"

definition passed :: "batches \<Rightarrow> bytes list" where
  "passed bs = concat (map snd bs)"

definition accounts :: "batches \<Rightarrow> bytes list \<Rightarrow> Client \<times> 'm Wire_scheme \<Rightarrow> bool" where
  "accounts bs fs = (\<lambda>(cl, wr).
     buffers cl fs \<and> wr_sent wr = map message_of (sent bs) \<and> list_all (\<lambda>m. length m \<le> cl_configured_max_batch_bytes cl) (wr_sent wr) \<and>
     records_sent (cl_stats cl) = of_nat (length (concat (sent bs))) \<and> records_dropped (cl_stats cl) = of_nat (length (concat (dropped bs))) \<and>
     batches_sent (cl_stats cl) = of_nat (length (sent bs)) \<and> bytes_sent (cl_stats cl) = of_nat (length (concat (wr_sent wr))) \<and>
     cl_max_batch_bytes cl \<le> cl_configured_max_batch_bytes cl)"

lemma sent_simps [simp]: "sent (bs @ [(True, fs)]) = sent bs @ [fs]" "sent (bs @ [(False, fs)]) = sent bs"
  "dropped (bs @ [(True, fs)]) = dropped bs" "dropped (bs @ [(False, fs)]) = dropped bs @ [fs]"
  "passed (bs @ [(b, fs)]) = passed bs @ fs" "sent [] = []" "dropped [] = []" "passed [] = []"
  by (simp_all add: sent_def dropped_def passed_def)

lemma length_batch_header [simp]: "length (encode_batch_header [] n) = BATCH_HEADER_BYTES"
  by (simp add: encode_batch_header_def BATCH_HEADER_BYTES_def)

lemma length_message: "length (message_of fs) = BATCH_HEADER_BYTES + length (concat fs)"
  by (simp add: message_of_def)

lemma batch_message_of: "buffers cl fs \<Longrightarrow> batch_message cl = message_of fs"
  by (simp add: batch_message_def message_of_def buffers_def)

text \<open>A flush settles the buffered records as one batch, or leaves everything as it is.\<close>

lemma client_flush_accounts:
  assumes "accounts bs fs s" "client_flush s = (r, s')"
  shows "\<exists>bs' fs'. accounts bs' fs' s' \<and> passed bs' @ fs' = passed bs @ fs \<and> (r = Inr () \<longrightarrow> fs' = []) \<and>
    (r \<noteq> Inr () \<longrightarrow> fst s' = fst s \<and> bs' = bs \<and> fs' = fs) \<and> cl_max_batch_bytes (fst s') = cl_max_batch_bytes (fst s) \<and>
    cl_batch (fst s') = cl_batch (fst s)"
proof -
  obtain cl wr where s: "s = (cl, wr)" by (rule prod.exhaust)
  have b: "buffers cl fs" using assms(1) by (simp add: accounts_def s)
  show ?thesis
  proof (cases "cl_pending cl = 0 \<or> cl_max_batch_bytes cl < BATCH_HEADER_BYTES + length (cl_buf cl)")
    case True
    then show ?thesis using assms b by (intro exI [of _ bs] exI [of _ fs]) (auto simp: client_flush_def s buffers_def Let_def split: if_splits)
  next
    case False
    obtain rp wr' where p: "zmq_push (message_of fs) wr = (rp, wr')" by (rule prod.exhaust)
    have flush: "client_flush s = (case rp of Inr _ \<Rightarrow> (Inr (), (emptied (note_sent (length fs) (length (message_of fs))) cl, wr'))
        | Inl EAGAIN \<Rightarrow> (Inr (), (emptied (note_dropped (length fs)) cl, wr')) | Inl e \<Rightarrow> (Inl (zmq_err e), (cl, wr')))"
      using False b p by (simp add: client_flush_def s batch_message_of Let_def) (simp add: buffers_def split: sum.splits ZmqError.splits)
    have small: "length (message_of fs) \<le> cl_configured_max_batch_bytes cl"
      using False b assms(1) by (simp add: length_message accounts_def s buffers_def)
    have wr': "wr_sent wr' = (case rp of Inr _ \<Rightarrow> wr_sent wr @ [message_of fs] | Inl _ \<Rightarrow> wr_sent wr)"
      using p by (auto simp: zmq_push_def zmq_call_def Let_def split: option.splits)
    show ?thesis
    proof (cases rp)
      case (Inr u)
      then show ?thesis using assms flush wr' small
        by (intro exI [of _ "bs @ [(True, fs)]"] exI [of _ "[]"]) (auto simp: accounts_def s buffers_def emptied_def note_sent_def)
    next
      case (Inl e)
      show ?thesis
      proof (cases e)
        case EAGAIN
        then show ?thesis using assms flush wr' Inl
          by (intro exI [of _ "bs @ [(False, fs)]"] exI [of _ "[]"]) (auto simp: accounts_def s buffers_def emptied_def note_dropped_def)
      next
        case EINTR
        then show ?thesis using assms flush wr' Inl by (intro exI [of _ bs] exI [of _ fs]) (auto simp: accounts_def s)
      next
        case (ZmqOther x)
        then show ?thesis using assms flush wr' Inl by (intro exI [of _ bs] exI [of _ fs]) (auto simp: accounts_def s)
      qed
    qed
  qed
qed

lemma count_record_accounts:
  assumes "accounts bs fs (cl, wr)" "count_record (cl\<lparr>cl_buf := cl_buf cl @ f\<rparr>, wr) = (r, s')"
  shows "\<exists>bs' fs'. accounts bs' fs' s' \<and> passed bs' @ fs' = passed bs @ fs @ [f]"
proof -
  let ?cl = "cl\<lparr>cl_buf := cl_buf cl @ f, cl_pending := cl_pending cl + 1\<rparr>"
  have acc: "accounts bs (fs @ [f]) (?cl, wr)" using assms(1) by (auto simp: accounts_def buffers_def)
  show ?thesis
  proof (cases "cl_batch cl \<le> cl_pending cl + 1")
    case True
    with assms(2) have "client_flush (?cl, wr) = (r, s')" by (simp add: count_record_def Let_def)
    from client_flush_accounts [OF acc this] show ?thesis by auto
  next
    case False
    with assms(2) have "s' = (?cl, wr)" by (simp add: count_record_def Let_def)
    with acc show ?thesis by auto
  qed
qed

lemma client_send_accounts:
  assumes acc: "accounts bs fs s" and run: "client_send crc series row s = (r, s')"
  shows "\<exists>bs' fs'. accounts bs' fs' s' \<and>
    (passed bs' @ fs' = passed bs @ fs @ [remote_frame crc series row] \<or> r \<noteq> Inr () \<and> passed bs' @ fs' = passed bs @ fs)"
proof -
  let ?f = "remote_frame crc series row"
  obtain cl wr where s: "s = (cl, wr)" by (rule prod.exhaust)
  have same: ?thesis if "r \<noteq> Inr ()" "s' = s" using that acc by blast
  show ?thesis
  proof (cases "row_fits (rs_name series) row")
    case False
    from encode_oversize [OF this, of crc "rs_epoch series" "cl_buf cl"] run show ?thesis
      by (intro same) (auto simp: client_send_def s Let_def)
  next
    case fits: True
    note enc = encode_fits [OF fits, of crc "rs_epoch series" "cl_buf cl"]
    consider (large) "cl_max_batch_bytes cl < BATCH_HEADER_BYTES + length ?f"
      | (split) "\<not> cl_max_batch_bytes cl < BATCH_HEADER_BYTES + length ?f" "cl_buf cl \<noteq> []" "cl_max_batch_bytes cl < BATCH_HEADER_BYTES + length (cl_buf cl @ ?f)"
      | (room) "\<not> cl_max_batch_bytes cl < BATCH_HEADER_BYTES + length ?f" "\<not> (cl_buf cl \<noteq> [] \<and> cl_max_batch_bytes cl < BATCH_HEADER_BYTES + length (cl_buf cl @ ?f))"
      by blast
    then show ?thesis
    proof cases
      case large
      with run enc show ?thesis by (intro same) (auto simp: client_send_def s Let_def)
    next
      case split
      obtain r1 s1 where fl: "client_flush (cl, wr) = (r1, s1)" by (rule prod.exhaust)
      from client_flush_accounts [OF acc [unfolded s] fl] obtain bs1 fs1 where
        a1: "accounts bs1 fs1 s1" "passed bs1 @ fs1 = passed bs @ fs" by blast
      show ?thesis
      proof (cases r1)
        case (Inl e)
        with split run enc fl have "r = Inl e" "s' = s1" by (auto simp: client_send_def s Let_def put_buf_def seq_def)
        with a1 show ?thesis by blast
      next
        case (Inr u)
        obtain cl1 wr1 where s1: "s1 = (cl1, wr1)" by (rule prod.exhaust)
        with split run enc fl Inr have "count_record (cl1\<lparr>cl_buf := cl_buf cl1 @ ?f\<rparr>, wr1) = (r, s')"
          by (simp add: client_send_def s Let_def put_buf_def seq_def)
        from count_record_accounts [OF a1(1) [unfolded s1] this] a1(2) show ?thesis by (metis append.assoc)
      qed
    next
      case room
      with run enc have "count_record (cl\<lparr>cl_buf := cl_buf cl @ ?f\<rparr>, wr) = (r, s')"
        by (auto simp: client_send_def s Let_def put_buf_def seq_def)
      from count_record_accounts [OF acc [unfolded s] this] show ?thesis by blast
    qed
  qed
qed

section \<open>Control requests leave the batches alone\<close>

definition quiet :: "('m, 'a) client \<Rightarrow> bool" where
  "quiet m \<longleftrightarrow> (\<forall>s r s'. m s = (r, s') \<longrightarrow> fst s' = fst s \<and> wr_sent (snd s') = wr_sent (snd s))"

lemma quiet_seq: "quiet m \<Longrightarrow> (\<And>x. quiet (f x)) \<Longrightarrow> quiet (seq m f)"
  unfolding quiet_def seq_def by (fastforce split: prod.splits sum.splits)

lemma quiet_result: "quiet (lift_result r)"
  by (auto simp: quiet_def lift_result_def split: sum.splits)

lemma quiet_on_wire:
  assumes "\<And>wr r wr'. m wr = (r, wr') \<Longrightarrow> wr_sent wr' = wr_sent wr" shows "quiet (on_wire m f)"
  using assms unfolding quiet_def on_wire_def by (fastforce split: prod.splits sum.splits)

lemma quiet_calls: "quiet (on_wire (zmq_set_rcvtimeo ms) f)" "quiet (on_wire (zmq_control_send bs) f)" "quiet (on_wire zmq_recv f)"
  by (rule quiet_on_wire; auto simp: zmq_set_rcvtimeo_def zmq_control_send_def zmq_recv_def zmq_call_def Let_def split: option.splits)+

lemma quiet_control_inner: "quiet (control_inner to_json from_json req)"
  unfolding control_inner_def by (intro quiet_seq quiet_calls quiet_result)

lemma set_rcvtimeo_sent: "wr_sent (snd (zmq_set_rcvtimeo ms wr)) = wr_sent wr"
  by (simp add: zmq_set_rcvtimeo_def zmq_call_def Let_def split: option.splits)

lemma quiet_restored: "quiet m \<Longrightarrow> quiet (\<lambda>s. case m s of (r, (cl, wr)) \<Rightarrow> (r, (cl, snd (zmq_set_rcvtimeo (f cl) wr))))"
  unfolding quiet_def by (fastforce simp: set_rcvtimeo_sent split: prod.splits)

lemma quiet_control: "quiet (control to_json from_json req)"
  unfolding control_def by (simp add: quiet_seq quiet_calls quiet_control_inner quiet_restored)

lemma accounts_cong:
  "accounts bs fs (cl, wr) \<Longrightarrow> wr_sent wr' = wr_sent wr \<Longrightarrow> accounts bs fs (cl, wr')"
  by (auto simp: accounts_def)

lemma accounts_adopt: "accounts bs fs (cl, wr) \<Longrightarrow> accounts bs fs (adopt_schema series limit cl, wr)"
  by (auto simp: accounts_def adopt_schema_def buffers_def split: option.splits)

lemma control_accounts: "accounts bs fs s \<Longrightarrow> control to_json from_json req s = (r, s') \<Longrightarrow> accounts bs fs s'"
  using quiet_control [of to_json from_json req] accounts_cong unfolding quiet_def by (cases s; cases s') fastforce

lemma refresh_schema_accounts:
  assumes "accounts bs fs s" "refresh_schema to_json from_json s = (r, s')" shows "accounts bs fs s'"
proof -
  obtain rc s1 where c: "control to_json from_json SchemaReq s = (rc, s1)" by (rule prod.exhaust)
  note a = control_accounts [OF assms(1) c]
  show ?thesis
    using assms(2) c a accounts_adopt
    by (cases s1) (auto simp: refresh_schema_def seq_def split: sum.splits ControlResponse.splits)
qed

section \<open>The limit in force\<close>

text \<open>The limit a server announced in the reply a client has read last, if it is a handshake's.\<close>

definition announced :: "(bytes \<Rightarrow> string + ControlResponse) \<Rightarrow> 'm Wire_scheme \<Rightarrow> u64 option" where
  "announced from_json wr =
     (case from_json (wr_arrives wr (wr_calls wr - 1)) of Inr (SchemaReply _ limit) \<Rightarrow> limit | _ \<Rightarrow> None)"

text \<open>The smaller of the configured limit and the one the server announced, if it did.\<close>

definition in_force :: "nat \<Rightarrow> u64 option \<Rightarrow> nat" where
  "in_force configured server = (case server of Some n \<Rightarrow> min configured (unat n) | None \<Rightarrow> configured)"

definition pushed :: "Client \<times> 'm Wire_scheme \<Rightarrow> Client \<times> 'm Wire_scheme \<Rightarrow> bytes list" where
  "pushed s s' = drop (length (wr_sent (snd s))) (wr_sent (snd s'))"

text \<open>A call that keeps the client's limits and hands over messages within them.\<close>

definition bounded :: "('m, 'a) client \<Rightarrow> bool" where
  "bounded call \<longleftrightarrow> (\<forall>s r s'. call s = (r, s') \<longrightarrow>
     wr_sent (snd s') = wr_sent (snd s) @ pushed s s' \<and> list_all (\<lambda>m. length m \<le> cl_max_batch_bytes (fst s)) (pushed s s') \<and>
     cl_max_batch_bytes (fst s') = cl_max_batch_bytes (fst s) \<and> cl_configured_max_batch_bytes (fst s') = cl_configured_max_batch_bytes (fst s))"

lemma boundedI:
  assumes "\<And>s r s'. call s = (r, s') \<Longrightarrow> \<exists>ms. wr_sent (snd s') = wr_sent (snd s) @ ms \<and> list_all (\<lambda>m. length m \<le> cl_max_batch_bytes (fst s)) ms \<and>
     cl_max_batch_bytes (fst s') = cl_max_batch_bytes (fst s) \<and> cl_configured_max_batch_bytes (fst s') = cl_configured_max_batch_bytes (fst s)"
  shows "bounded call"
  unfolding bounded_def pushed_def using assms by fastforce

lemma bounded_seq:
  assumes "bounded m" "\<And>x. bounded (f x)" shows "bounded (seq m f)"
proof (rule boundedI)
  fix s r s' assume run: "seq m f s = (r, s')"
  obtain r1 s1 where m: "m s = (r1, s1)" by (rule prod.exhaust)
  note one = assms(1) [unfolded bounded_def, rule_format, OF m]
  show "\<exists>ms. wr_sent (snd s') = wr_sent (snd s) @ ms \<and> list_all (\<lambda>m. length m \<le> cl_max_batch_bytes (fst s)) ms \<and>
     cl_max_batch_bytes (fst s') = cl_max_batch_bytes (fst s) \<and> cl_configured_max_batch_bytes (fst s') = cl_configured_max_batch_bytes (fst s)"
  proof (cases r1)
    case (Inl e)
    then have "s' = s1" using run m by (simp add: seq_def)
    with one show ?thesis by blast
  next
    case (Inr x)
    then have "f x s1 = (r, s')" using run m by (simp add: seq_def)
    from assms(2) [unfolded bounded_def, rule_format, OF this] one show ?thesis
      by (intro exI [of _ "pushed s s1 @ pushed s1 s'"]) simp
  qed
qed

lemma bounded_still: "(\<And>s. snd (snd (call s)) = snd s \<and> cl_max_batch_bytes (fst (snd (call s))) = cl_max_batch_bytes (fst s) \<and>
    cl_configured_max_batch_bytes (fst (snd (call s))) = cl_configured_max_batch_bytes (fst s)) \<Longrightarrow> bounded call"
  by (rule boundedI) (metis append_Nil2 list.pred_inject(1) snd_conv)

lemma bounded_flush: "bounded client_flush"
proof (rule boundedI)
  fix s :: "Client \<times> 'm Wire_scheme" and r s' assume run: "client_flush s = (r, s')"
  obtain cl wr where s: "s = (cl, wr)" by (rule prod.exhaust)
  obtain rp wr' where p: "zmq_push (batch_message cl) wr = (rp, wr')" by (rule prod.exhaust)
  have wr': "wr_sent wr' = wr_sent wr @ (case rp of Inr _ \<Rightarrow> [batch_message cl] | Inl _ \<Rightarrow> [])"
    using p by (auto simp: zmq_push_def zmq_call_def Let_def split: option.splits)
  have len: "length (batch_message cl) = BATCH_HEADER_BYTES + length (cl_buf cl)" by (simp add: batch_message_def)
  show "\<exists>ms. wr_sent (snd s') = wr_sent (snd s) @ ms \<and> list_all (\<lambda>m. length m \<le> cl_max_batch_bytes (fst s)) ms \<and>
     cl_max_batch_bytes (fst s') = cl_max_batch_bytes (fst s) \<and> cl_configured_max_batch_bytes (fst s') = cl_configured_max_batch_bytes (fst s)"
    using run p wr' len by (auto simp: client_flush_def s Let_def emptied_def split: if_splits sum.splits ZmqError.splits)
qed

lemma bounded_count: "bounded count_record"
proof (rule boundedI)
  fix s :: "Client \<times> 'm Wire_scheme" and r s' assume run: "count_record s = (r, s')"
  obtain cl wr where s: "s = (cl, wr)" by (rule prod.exhaust)
  show "\<exists>ms. wr_sent (snd s') = wr_sent (snd s) @ ms \<and> list_all (\<lambda>m. length m \<le> cl_max_batch_bytes (fst s)) ms \<and>
     cl_max_batch_bytes (fst s') = cl_max_batch_bytes (fst s) \<and> cl_configured_max_batch_bytes (fst s') = cl_configured_max_batch_bytes (fst s)"
    using run bounded_flush [unfolded bounded_def, rule_format, of "(cl\<lparr>cl_pending := cl_pending cl + 1\<rparr>, wr)" r s']
    by (auto simp: count_record_def s Let_def split: if_splits)
qed

lemma bounded_choice: "(\<And>s. \<exists>call'. bounded call' \<and> call s = call' s) \<Longrightarrow> bounded call"
  unfolding bounded_def by metis

lemma bounded_send: "bounded (client_send crc series row)"
proof (rule bounded_choice)
  have put: "bounded (put_buf bs)" "bounded (\<lambda>(cl, wr). put_buf (cl_buf cl @ bs) (cl, wr))" for bs
    by (rule bounded_still; simp add: put_buf_def split: prod.splits)+
  have refuse: "bounded (\<lambda>(cl, wr). (Inl e, (cl\<lparr>cl_buf := bs\<rparr>, wr)))" for e :: Error and bs
    by (rule bounded_still) (simp split: prod.splits)
  have b_split: "bounded (seq (put_buf bs) (\<lambda>_. seq client_flush (\<lambda>_. seq (\<lambda>(cl, wr). put_buf (cl_buf cl @ bs') (cl, wr)) (\<lambda>_. count_record))))" for bs bs'
    by (intro bounded_seq put bounded_flush bounded_count)
  have b_room: "bounded (seq (put_buf bs) (\<lambda>_. count_record))" for bs by (intro bounded_seq put bounded_count)
  fix s :: "Client \<times> 'm Wire_scheme"
  obtain cl wr where s: "s = (cl, wr)" by (rule prod.exhaust)
  obtain re buf where enc: "encode crc (rs_name series) (rs_epoch series) row (cl_buf cl) = (re, buf)" by (rule prod.exhaust)
  show "\<exists>call'. bounded call' \<and> client_send crc series row s = call' s"
  proof (cases re)
    case (Inl e)
    then show ?thesis using refuse [of e buf] enc by (intro exI conjI) (assumption, simp add: client_send_def s)
  next
    case (Inr u)
    let ?before = "length (cl_buf cl)"
    let ?frame = "length buf - ?before"
    consider (large) "cl_max_batch_bytes cl < BATCH_HEADER_BYTES + ?frame"
      | (split) "\<not> cl_max_batch_bytes cl < BATCH_HEADER_BYTES + ?frame" "0 < ?before \<and> cl_max_batch_bytes cl < BATCH_HEADER_BYTES + length buf"
      | (room) "\<not> cl_max_batch_bytes cl < BATCH_HEADER_BYTES + ?frame" "\<not> (0 < ?before \<and> cl_max_batch_bytes cl < BATCH_HEADER_BYTES + length buf)" by blast
    then show ?thesis
    proof cases
      case large
      then show ?thesis using refuse [of "BatchTooLarge (BATCH_HEADER_BYTES + ?frame) (cl_max_batch_bytes cl)" "take ?before buf"] enc Inr
        by (intro exI conjI) (assumption, simp add: client_send_def s Let_def)
    next
      case split
      then show ?thesis using b_split [of "take ?before buf" "drop ?before buf"] enc Inr
        by (intro exI conjI) (assumption, simp add: client_send_def s Let_def)
    next
      case room
      then show ?thesis using b_room [of buf] enc Inr
        by (intro exI conjI) (assumption, auto simp: client_send_def s Let_def)
    qed
  qed
qed

lemma refresh_limit:
  assumes "refresh_schema to_json from_json s = (r, s')"
  shows "cl_configured_max_batch_bytes (fst s') = cl_configured_max_batch_bytes (fst s)" "wr_sent (snd s') = wr_sent (snd s)"
    "cl_max_batch_bytes (fst s') = (if r = Inr () then in_force (cl_configured_max_batch_bytes (fst s)) (announced from_json (snd s')) else cl_max_batch_bytes (fst s))"
proof -
  obtain rc s1 where c: "control to_json from_json SchemaReq s = (rc, s1)" by (rule prod.exhaust)
  have q: "fst s1 = fst s" "wr_sent (snd s1) = wr_sent (snd s)" using quiet_control [of to_json from_json SchemaReq] c unfolding quiet_def by blast+
  have reply: "from_json (wr_arrives (snd s1) (wr_calls (snd s1) - 1)) = Inr x" if "rc = Inr x" for x
    using c that by (cases s) (auto simp: control_def control_inner_def seq_def lift_result_def on_wire_def zmq_control_send_def zmq_recv_def zmq_call_def ok_def fail_def
        Let_def map_sum_def split: sum.splits prod.splits option.splits)
  show "cl_configured_max_batch_bytes (fst s') = cl_configured_max_batch_bytes (fst s)" "wr_sent (snd s') = wr_sent (snd s)"
    "cl_max_batch_bytes (fst s') = (if r = Inr () then in_force (cl_configured_max_batch_bytes (fst s)) (announced from_json (snd s')) else cl_max_batch_bytes (fst s))"
    using assms c q reply by (cases s1; auto simp: refresh_schema_def seq_def fail_def adopt_schema_def announced_def in_force_def split: sum.splits ControlResponse.splits)+
qed

section \<open>Runs\<close>

text \<open>
  The runs of a client after it has connected: the records offered to \<open>send\<close> and, of these, the ones
  \<open>send\<close> acknowledged, each as its frame; every message handed to the push socket, beside the limit
  the server had announced last at that time; and the limit announced last.
\<close>

inductive client_run ::
  "(bytes \<Rightarrow> u32) \<Rightarrow> (ControlRequest \<Rightarrow> string + bytes) \<Rightarrow> (bytes \<Rightarrow> string + ControlResponse) \<Rightarrow> bytes list \<Rightarrow> bytes list \<Rightarrow>
     (u64 option \<times> bytes) list \<Rightarrow> u64 option \<Rightarrow> Client \<times> 'm Wire_scheme \<Rightarrow> bool"
  for crc to_json from_json where
  client_start: "connect to_json from_json b wr = (Inr cl, wr') \<Longrightarrow> wr_sent wr = [] \<Longrightarrow>
    client_run crc to_json from_json [] [] [] (announced from_json wr') (cl, wr')"
| client_ack: "client_run crc to_json from_json acked offered out server s \<Longrightarrow> client_send crc series row s = (Inr (), s') \<Longrightarrow>
    client_run crc to_json from_json (acked @ [remote_frame crc series row]) (offered @ [remote_frame crc series row]) (out @ map (Pair server) (pushed s s')) server s'"
| client_nack: "client_run crc to_json from_json acked offered out server s \<Longrightarrow> client_send crc series row s = (Inl e, s') \<Longrightarrow>
    client_run crc to_json from_json acked (offered @ [remote_frame crc series row]) (out @ map (Pair server) (pushed s s')) server s'"
| client_flushes: "client_run crc to_json from_json acked offered out server s \<Longrightarrow> client_flush s = (r, s') \<Longrightarrow>
    client_run crc to_json from_json acked offered (out @ map (Pair server) (pushed s s')) server s'"
| client_asks: "client_run crc to_json from_json acked offered out server s \<Longrightarrow> control to_json from_json req s = (rc, s') \<Longrightarrow>
    client_run crc to_json from_json acked offered out server s'"
| client_refreshes: "client_run crc to_json from_json acked offered out server s \<Longrightarrow> refresh_schema to_json from_json s = (r, s') \<Longrightarrow>
    client_run crc to_json from_json acked offered out (if r = Inr () then announced from_json (snd s') else server) s'"

lemma client_new_accounts: "wr_sent wr = [] \<Longrightarrow> accounts [] [] (client_new b endpoint, wr)"
  by (simp add: accounts_def client_new_def buffers_def client_stats_default_def)

lemma keeps_silence:
  "keeps (\<lambda>wr. wr_sent wr = []) (map_err f zmq_option)" "keeps (\<lambda>wr. wr_sent wr = []) (map_err f (zmq_set_rcvtimeo ms))"
  "keeps (\<lambda>wr. wr_sent wr = []) (lift_result x)"
  by (auto simp: keeps_def triple_def map_err_def zmq_option_def zmq_set_rcvtimeo_def zmq_call_def lift_result_def Let_def split: prod.splits sum.splits option.splits)

lemma connect_accounts:
  assumes "connect to_json from_json b wr = (Inr cl, wr')" "wr_sent wr = []"
  shows "accounts [] [] (cl, wr')"
proof -
  let ?P = "\<lambda>wr. wr_sent wr = []" and ?E = "\<lambda>_ :: Error. \<lambda>_. True"
  have quiet: "triple ?P m (\<lambda>_. ?P) ?E" if "keeps ?P m" for m :: "('m Wire_scheme, Error, 'x) fallible"
    using that unfolding keeps_def by (rule triple_conseq) auto
  have last: "triple ?P (\<lambda>wr. case refresh_schema to_json from_json (client_new b endpoint, wr) of
      (Inr _, (cl, wr')) \<Rightarrow> (Inr cl, wr') | (Inl e, (_, wr')) \<Rightarrow> (Inl e, wr')) (\<lambda>cl wr. accounts [] [] (cl, wr)) ?E" for endpoint
    using refresh_schema_accounts [OF client_new_accounts] by (fastforce simp: triple_def split: prod.splits sum.splits)
  have "triple ?P (connect to_json from_json b) (\<lambda>cl wr. accounts [] [] (cl, wr)) ?E"
    unfolding connect_def by (intro triple_seq [OF quiet] keeps_for_each keeps_silence last)
  from triple_Inr [OF this] assms show ?thesis by blast
qed

lemma connect_limit:
  assumes "connect to_json from_json b wr = (Inr cl, wr')"
  shows "cl_max_batch_bytes cl = in_force (cl_configured_max_batch_bytes cl) (announced from_json wr')"
proof -
  let ?P = "\<lambda>_. True" and ?E = "\<lambda>_ :: Error. \<lambda>_. True"
  have any: "triple ?P m (\<lambda>_. ?P) ?E" for m :: "('m Wire_scheme, Error, 'x) fallible" by (simp add: triple_def split: prod.splits sum.splits)
  have last: "triple ?P (\<lambda>wr. case refresh_schema to_json from_json (client_new b endpoint, wr) of
      (Inr _, (cl, wr')) \<Rightarrow> (Inr cl, wr') | (Inl e, (_, wr')) \<Rightarrow> (Inl e, wr'))
      (\<lambda>cl wr. cl_max_batch_bytes cl = in_force (cl_configured_max_batch_bytes cl) (announced from_json wr)) ?E" for endpoint
    using refresh_limit by (fastforce simp: triple_def split: prod.splits sum.splits)
  have "triple ?P (connect to_json from_json b) (\<lambda>cl wr. cl_max_batch_bytes cl = in_force (cl_configured_max_batch_bytes cl) (announced from_json wr)) ?E"
    unfolding connect_def by (intro triple_seq [OF any] last)
  from triple_Inr [OF this] assms show ?thesis by blast
qed

text \<open>The messages and limits of a run.\<close>

definition within_limits :: "(u64 option \<times> bytes) list \<Rightarrow> u64 option \<Rightarrow> Client \<times> 'm Wire_scheme \<Rightarrow> bool" where
  "within_limits out server s \<longleftrightarrow> wr_sent (snd s) = map snd out \<and>
     cl_max_batch_bytes (fst s) = in_force (cl_configured_max_batch_bytes (fst s)) server \<and>
     list_all (\<lambda>(limit, m). length m \<le> in_force (cl_configured_max_batch_bytes (fst s)) limit) out"

lemma within_limits_bounded:
  assumes "bounded call" "call s = (r, s')" "within_limits out server s"
  shows "within_limits (out @ map (Pair server) (pushed s s')) server s'"
  using assms(1) [unfolded bounded_def, rule_format, OF assms(2)] assms(3) by (auto simp: within_limits_def list_all_iff comp_def)

definition kept_order :: "bytes list \<Rightarrow> bytes list \<Rightarrow> Client \<times> 'm Wire_scheme \<Rightarrow> bool" where
  "kept_order acked offered s \<longleftrightarrow>
     (\<exists>bs fs. accounts bs fs s \<and> subseq acked (passed bs @ fs) \<and> subseq (passed bs @ fs) offered)"

lemma kept_order_send:
  assumes "kept_order acked offered s" "client_send crc series row s = (r, s')"
  shows "kept_order (if r = Inr () then acked @ [remote_frame crc series row] else acked) (offered @ [remote_frame crc series row]) s'"
proof -
  let ?f = "remote_frame crc series row"
  from assms(1) obtain bs fs where *: "accounts bs fs s" "subseq acked (passed bs @ fs)" "subseq (passed bs @ fs) offered"
    unfolding kept_order_def by blast
  from client_send_accounts [OF *(1) assms(2)] obtain bs' fs' where
    new: "accounts bs' fs' s'" "passed bs' @ fs' = passed bs @ fs @ [?f] \<or> r \<noteq> Inr () \<and> passed bs' @ fs' = passed bs @ fs" by blast
  have "subseq (acked @ [?f]) ((passed bs @ fs) @ [?f])" "subseq ((passed bs @ fs) @ [?f]) (offered @ [?f])"
    by (intro list_emb_append_mono *(2,3) subseq_order.refl)+
  moreover have "subseq acked ((passed bs @ fs) @ [?f])" "subseq (passed bs @ fs) (offered @ [?f])"
    using *(2,3) by (auto intro: list_emb_append2 simp del: append_assoc)
  ultimately show ?thesis unfolding kept_order_def using new *(2) by (auto intro!: exI [of _ bs'] exI [of _ fs'])
qed

text \<open>
  What the operations other than \<open>send\<close> have in common: they settle or keep the buffered records,
  and neither add nor lose one.
\<close>

locale settling =
  fixes call :: "('m, 'a) client"
  assumes settles: "accounts bs fs s \<Longrightarrow> call s = (r, s') \<Longrightarrow> \<exists>bs' fs'. accounts bs' fs' s' \<and> passed bs' @ fs' = passed bs @ fs"
begin

lemma keeps_order:
  assumes "kept_order acked offered s" "call s = (r, s')" shows "kept_order acked offered s'"
proof -
  from assms(1) obtain bs fs where *: "accounts bs fs s" "subseq acked (passed bs @ fs)" "subseq (passed bs @ fs) offered"
    unfolding kept_order_def by blast
  from settles [OF *(1) assms(2)] *(2,3) show ?thesis unfolding kept_order_def by metis
qed

end

interpretation flushing: settling client_flush
  by unfold_locales (use client_flush_accounts in blast)

interpretation asking: settling "control to_json from_json req" for to_json from_json req
  by unfold_locales (blast intro: control_accounts)

interpretation refreshing: settling "refresh_schema to_json from_json" for to_json from_json
  by unfold_locales (blast intro: refresh_schema_accounts)

lemma client_run_order: "client_run crc to_json from_json acked offered out server s \<Longrightarrow> kept_order acked offered s"
proof (induction rule: client_run.induct)
  case (client_start b wr cl wr')
  then show ?case using connect_accounts by (fastforce simp: kept_order_def)
next
  case (client_ack acked offered out server s series row s')
  then show ?case using kept_order_send by fastforce
next
  case (client_nack acked offered out server s series row e s')
  then show ?case using kept_order_send by fastforce
qed (blast intro: flushing.keeps_order asking.keeps_order refreshing.keeps_order)+

lemma client_run_limits: "client_run crc to_json from_json acked offered out server s \<Longrightarrow> within_limits out server s"
proof (induction rule: client_run.induct)
  case (client_start b wr cl wr')
  then have "wr_sent wr' = []" using connect_accounts [of to_json from_json b wr cl wr'] by (simp add: accounts_def)
  then show ?case using connect_limit [OF client_start(1)] by (simp add: within_limits_def)
next
  case (client_asks acked offered out server s req rc s')
  have "fst s' = fst s \<and> wr_sent (snd s') = wr_sent (snd s)" using quiet_control client_asks.hyps(2) unfolding quiet_def by blast
  then show ?case using client_asks.IH by (simp add: within_limits_def)
next
  case (client_refreshes acked offered out server s r s')
  then show ?case using refresh_limit [OF client_refreshes.hyps(2)] by (simp add: within_limits_def)
qed (blast intro: within_limits_bounded bounded_send bounded_flush)+

section \<open>Properties of every run\<close>

text \<open>
  Claim C9. A client delivers in order and accounts for every record. Whatever its sockets do, in
  every sequence of sends, flushes, control requests and new handshakes: the messages handed to the
  push socket are well-formed batches (a header with the number of records, then their frames), and
  none is larger than the limit in force when it was handed over, the smaller of the configured one
  and the one the server announced in the last handshake; the batches sent, the batches reported as
  dropped and the records still buffered are together, in order, records that were given to \<open>send\<close>,
  and every record \<open>send\<close> acknowledged is among them; and all four counters, of records sent and
  dropped and of batches and bytes sent, are exact (modulo \<open>2^64\<close>).\<close>

theorem client_delivers_in_order:
  assumes "client_run crc to_json from_json acked offered out server (cl, wr)"
  shows "\<exists>bs fs. wr_sent wr = map message_of (sent bs) \<and> cl_buf cl = concat fs \<and> cl_pending cl = length fs \<and>
    subseq acked (passed bs @ fs) \<and> subseq (passed bs @ fs) offered \<and>
    wr_sent wr = map snd out \<and> list_all (\<lambda>(limit, m). length m \<le> in_force (cl_configured_max_batch_bytes cl) limit) out \<and>
    cl_max_batch_bytes cl = in_force (cl_configured_max_batch_bytes cl) server \<and>
    records_sent (cl_stats cl) = of_nat (length (concat (sent bs))) \<and> records_dropped (cl_stats cl) = of_nat (length (concat (dropped bs))) \<and>
    batches_sent (cl_stats cl) = of_nat (length (sent bs)) \<and> bytes_sent (cl_stats cl) = of_nat (length (concat (wr_sent wr)))"
proof -
  from client_run_order [OF assms] obtain bs fs where "accounts bs fs (cl, wr)" "subseq acked (passed bs @ fs)" "subseq (passed bs @ fs) offered"
    unfolding kept_order_def by blast
  then show ?thesis using client_run_limits [OF assms] by (intro exI [of _ bs] exI [of _ fs]) (simp add: within_limits_def accounts_def buffers_def)
qed

lemma client_flush_stuck:
  assumes "0 < cl_pending cl" "cl_max_batch_bytes cl < BATCH_HEADER_BYTES + length (cl_buf cl)"
  shows "client_flush (cl, wr) = (Inl (BatchTooLarge (BATCH_HEADER_BYTES + length (cl_buf cl)) (cl_max_batch_bytes cl)), (cl, wr))"
  using assms by (simp add: client_flush_def Let_def)

lemma client_send_stuck:
  assumes "0 < cl_pending cl" "cl_max_batch_bytes cl < BATCH_HEADER_BYTES + length (cl_buf cl)"
  shows "\<exists>e. client_send crc series row (cl, wr) = (Inl e, (cl, wr))"
proof (cases "row_fits (rs_name series) row")
  case False
  from encode_oversize [OF this, of crc "rs_epoch series" "cl_buf cl"] show ?thesis by (auto simp: client_send_def Let_def)
next
  case True
  show ?thesis
  proof (cases "cl_buf cl = []")
    case True
    then show ?thesis using \<open>row_fits (rs_name series) row\<close> assms(2) by (simp add: client_send_def encode_fits Let_def)
  next
    case False
    then show ?thesis
      using \<open>row_fits (rs_name series) row\<close> assms(2)
      by (simp add: client_send_def encode_fits Let_def put_buf_def seq_def client_flush_stuck [OF assms])
  qed
qed

text \<open>
  Claim C35. A lowered limit wedges a client. If a new handshake lowers the limit below what is
  already buffered, no flush and no \<open>send\<close> succeeds any more, for any record, each with an error that
  leaves the client as it is; dropping the client does not send the buffered records either. (The
  check in \<open>flush\<close> is commented as unreachable.)\<close>

theorem lowered_limit_wedges_client:
  assumes "0 < cl_pending cl" "cl_max_batch_bytes cl < BATCH_HEADER_BYTES + length (cl_buf cl)"
  shows "client_flush (cl, wr) = (Inl (BatchTooLarge (BATCH_HEADER_BYTES + length (cl_buf cl)) (cl_max_batch_bytes cl)), (cl, wr)) \<and>
    (\<exists>e. client_send crc series row (cl, wr) = (Inl e, (cl, wr))) \<and> client_drop (cl, wr) = wr"
  using client_flush_stuck [OF assms, of wr] client_send_stuck [OF assms] by (simp add: client_drop_def)

section \<open>Examples\<close>

text \<open>A server that lowers its limit to 20 bytes between two handshakes.\<close>

definition demo_reply :: "bytes \<Rightarrow> string + ControlResponse" where
  "demo_reply bs = Inr (SchemaReply [] (if bs = [0] then None else Some 20))"

definition demo_wire :: Wire where
  "demo_wire = \<lparr>wr_calls = 0, wr_refuses = (\<lambda>_. None), wr_arrives = (\<lambda>n. if n < 14 then [0] else [1]), wr_sent = [], wr_control_sent = [], wr_rcvtimeo = 0\<rparr>"

definition demo_remote :: RemoteSeries where
  "demo_remote = \<lparr>rs_name = demo_series, rs_epoch = 1, rs_keys = []\<rparr>"

lemma demo_remote_frame: "encode demo_crc (rs_name demo_remote) (rs_epoch demo_remote) demo_row buf = (Inr (), buf @ demo_frame)"
proof -
  have fits: "row_fits demo_series demo_row"
    using demo_encode encode_oversize [of demo_series demo_row demo_crc 1 "[]"] by fastforce
  have "frame_of demo_crc demo_series 1 demo_row = demo_frame"
    using encode_fits [OF fits, of demo_crc 1 "[]"] demo_encode by simp
  then show ?thesis using encode_fits [OF fits, of demo_crc 1 buf] by (simp add: demo_remote_def)
qed

lemma demo_wedged:
  "\<exists>cl wr. client_run demo_crc (\<lambda>_. Inr []) demo_reply [demo_frame] [demo_frame] [] (Some 20) (cl, wr :: Wire) \<and>
     cl_pending cl = 1 \<and> cl_buf cl = demo_frame \<and> cl_max_batch_bytes cl = 20"
proof -
  let ?b = builder_default
  let ?cl = "client_new ?b (lit ''tcp://127.0.0.1:5556'')"
  have ep: "default_control_endpoint (lit ''tcp://127.0.0.1:5555'') = Inr (lit ''tcp://127.0.0.1:5556'')" by code_simp
  have ctl: "bd_control ?b = None" by (simp add: builder_default_def)
  let ?wr = "demo_wire\<lparr>wr_calls := 13, wr_rcvtimeo := 5000, wr_control_sent := [[]]\<rparr>"
  have "connect (\<lambda>_. Inr []) demo_reply ?b demo_wire = (Inr ?cl, ?wr)"
    by (simp add: connect_def ctl ep seq_def map_err_def zmq_option_def zmq_set_rcvtimeo_def zmq_call_def demo_wire_def Let_def lift_result_def
        refresh_schema_def control_def control_inner_def on_wire_def zmq_control_send_def zmq_recv_def demo_reply_def adopt_schema_def client_new_def
        builder_default_def)
  then have start: "client_run demo_crc (\<lambda>_. Inr []) demo_reply [] [] [] (announced demo_reply ?wr) (?cl, ?wr)"
    by (rule client_run.client_start) (simp add: demo_wire_def)
  let ?cl1 = "?cl\<lparr>cl_buf := demo_frame, cl_pending := 1\<rparr>"
  have send: "client_send demo_crc demo_remote demo_row (?cl, ?wr) = (Inr (), (?cl1, ?wr))"
    by (simp add: client_send_def demo_remote_frame Let_def demo_frame_length client_new_def builder_default_def DEFAULT_MAX_BATCH_BYTES_def
        BATCH_HEADER_BYTES_def put_buf_def seq_def count_record_def)
  have frame: "remote_frame demo_crc demo_remote demo_row = demo_frame"
  proof -
    have "row_fits (rs_name demo_remote) demo_row"
      using demo_remote_frame [of "[]"] encode_oversize [of "rs_name demo_remote" demo_row demo_crc "rs_epoch demo_remote" "[]"] by fastforce
    from encode_fits [OF this, of demo_crc "rs_epoch demo_remote" "[]"] show ?thesis using demo_remote_frame [of "[]"] by simp
  qed
  from client_run.client_ack [OF start send] have sent: "client_run demo_crc (\<lambda>_. Inr []) demo_reply [demo_frame] [demo_frame] [] (announced demo_reply ?wr) (?cl1, ?wr)"
    by (simp add: frame pushed_def)
  let ?s2 = "(?cl1\<lparr>cl_max_batch_bytes := 20\<rparr>, ?wr\<lparr>wr_calls := 15, wr_control_sent := [[], []]\<rparr>)"
  have "refresh_schema (\<lambda>_. Inr []) demo_reply (?cl1, ?wr) = (Inr (), ?s2)"
    by (simp add: refresh_schema_def seq_def control_def control_inner_def lift_result_def on_wire_def zmq_control_send_def zmq_recv_def zmq_call_def
        demo_wire_def Let_def demo_reply_def adopt_schema_def client_new_def builder_default_def DEFAULT_MAX_BATCH_BYTES_def)
  from client_run.client_refreshes [OF sent this] show ?thesis
    by (intro exI [of _ "fst ?s2"] exI [of _ "snd ?s2"]) (simp add: announced_def demo_wire_def demo_reply_def)
qed

theorem client_delivers_in_order_witness:
  "\<exists>cl wr bs fs. client_run demo_crc (\<lambda>_. Inr []) demo_reply [demo_frame] [demo_frame] [] (Some 20) (cl, wr :: Wire) \<and> subseq [demo_frame] (passed bs @ fs) \<and>
     wr_sent wr = map message_of (sent bs) \<and> cl_max_batch_bytes cl = in_force (cl_configured_max_batch_bytes cl) (Some 20)"
proof -
  from demo_wedged obtain cl wr where run: "client_run demo_crc (\<lambda>_. Inr []) demo_reply [demo_frame] [demo_frame] [] (Some 20) (cl, wr :: Wire)" by blast
  from client_delivers_in_order [OF run] run show ?thesis by blast
qed

theorem lowered_limit_wedges_client_witness:
  "\<exists>cl wr. client_run demo_crc (\<lambda>_. Inr []) demo_reply [demo_frame] [demo_frame] [] (Some 20) (cl, wr :: Wire) \<and>
     client_flush (cl, wr) = (Inl (BatchTooLarge 73 20), (cl, wr)) \<and> client_drop (cl, wr) = wr"
proof -
  from demo_wedged obtain cl wr where run: "client_run demo_crc (\<lambda>_. Inr []) demo_reply [demo_frame] [demo_frame] [] (Some 20) (cl, wr :: Wire)"
    and cl: "cl_pending cl = 1" "cl_buf cl = demo_frame" "cl_max_batch_bytes cl = 20" by blast
  have "0 < cl_pending cl" "cl_max_batch_bytes cl < BATCH_HEADER_BYTES + length (cl_buf cl)"
    using cl by (simp_all add: demo_frame_length)
  from lowered_limit_wedges_client [OF this, where wr = wr and crc = demo_crc and series = demo_remote and row = demo_row] run cl show ?thesis
    by (auto simp: demo_frame_length BATCH_HEADER_BYTES_def)
qed

end
