(* ===== verification/Orc_Server.thy ===== *)
theory Orc_Server
  imports Orc_Protocol
begin

text \<open>
  The ingest server (\<open>src/src/server.rs\<close>): batches from the PULL socket go to the engine, control
  requests are answered, and a shutdown drains what is queued before the engine is closed. The
  server's sockets are the \<open>Wire\<close> passed beside it, with a call numbered as it happens; the engine
  is its own state. The wall clock, the log's clock and the reading of the drain's deadline are
  functions of the number of calls made so far. Logging is left out.
\<close>

section \<open>State\<close>

definition MAX_BATCHES_PER_POLL :: nat where "MAX_BATCHES_PER_POLL = 1024"

text \<open>What the server reads of the outside world at the \<open>n\<close>-th call.\<close>

record Clocks =
  ck_now :: "nat \<Rightarrow> u64"
  ck_wal :: "nat \<Rightarrow> int"
  ck_late :: "nat \<Rightarrow> bool"

record Server =
  sv_stop :: bool
  sv_batches :: u64
  sv_max_record_bytes :: nat
  sv_max_batch_bytes :: u64

type_synonym 'm served = "Server \<times> Wire \<times> Inner \<times> Shared \<times> 'm Disk_scheme"
type_synonym ('m, 'a) server = "('m served, Error, 'a) fallible"

definition server_new :: "Config \<Rightarrow> Server" where
  "server_new config =
     \<lparr>sv_stop = False, sv_batches = 0, sv_max_record_bytes = unat (max_record_bytes (cfg_limits config)),
      sv_max_batch_bytes = word_of_int (max (max_batch_bytes (cfg_server config)) 0)\<rparr>"

text \<open>Binding: the PULL socket (created, two options, bound), then the REP socket (created, bound).\<close>

definition bind :: "Config \<Rightarrow> (Wire, Error, Server) fallible" where
  "bind config =
     seq (for_each (\<lambda>_. map_err zmq_err zmq_option) [1 :: nat, 2, 3]) (\<lambda>_.
     seq (map_err (\<lambda>_. Config ''binding'') zmq_option) (\<lambda>_.
     seq (map_err zmq_err zmq_option) (\<lambda>_.
     seq (map_err (\<lambda>_. Config ''binding'') zmq_option) (\<lambda>_.
     ok (server_new config)))))"

definition on_socket :: "(Wire, ZmqError, 'a) fallible \<Rightarrow> ('m served, ZmqError, 'a) fallible" where
  "on_socket m = (\<lambda>(sv, wr, s). case m wr of (r, wr') \<Rightarrow> (r, (sv, wr', s)))"

definition note_batch :: "'m served \<Rightarrow> 'm served" where
  "note_batch = (\<lambda>(sv, s). (sv\<lparr>sv_batches := sv_batches sv + 1\<rparr>, s))"

section \<open>Ingest\<close>

text \<open>A batch with a bad header is dropped; a batch the log refuses is logged. Neither stops the server.\<close>

definition ingest_batch :: "(bytes \<Rightarrow> u32) \<Rightarrow> Clocks \<Rightarrow> bytes \<Rightarrow> 'm served \<Rightarrow> 'm served" where
  "ingest_batch crc ck bs = (\<lambda>(sv, wr, s).
     case parse_batch_header bs of
       Inl _ \<Rightarrow> (sv, wr, s)
     | Inr _ \<Rightarrow>
         (sv, wr, snd (append_raw crc (ck_now ck (wr_calls wr)) (ck_wal ck (wr_calls wr)) (drop BATCH_HEADER_BYTES bs) s)))"

text \<open>The loop of \<open>drain_ingest\<close>, for the given number of rounds.\<close>

fun drain_rounds :: "(bytes \<Rightarrow> u32) \<Rightarrow> Clocks \<Rightarrow> nat \<Rightarrow> ('m, unit) server" where
  "drain_rounds crc ck 0 s = (Inr (), s)"
| "drain_rounds crc ck (Suc n) s =
     (case on_socket zmq_recv s of
        (Inr bs, s') \<Rightarrow> drain_rounds crc ck n (ingest_batch crc ck bs (note_batch s'))
      | (Inl EAGAIN, s') \<Rightarrow> (Inr (), s')
      | (Inl EINTR, s') \<Rightarrow> drain_rounds crc ck n s'
      | (Inl e, s') \<Rightarrow> (Inl (zmq_err e), s'))"

definition drain_ingest :: "(bytes \<Rightarrow> u32) \<Rightarrow> Clocks \<Rightarrow> ('m, unit) server" where
  "drain_ingest crc ck = drain_rounds crc ck MAX_BATCHES_PER_POLL"

text \<open>
  The drain before closing: until the queue is empty or a batch has been read past the deadline. An
  interrupted call is repeated without a look at the clock, so nothing bounds the loop but the
  socket; \<open>None\<close> means that it does not end.
\<close>

partial_function (option) drain_for_shutdown ::
  "(bytes \<Rightarrow> u32) \<Rightarrow> Clocks \<Rightarrow> 'm served \<Rightarrow> ((Error + unit) \<times> 'm served) option" where
  "drain_for_shutdown crc ck s =
     (case on_socket zmq_recv s of
        (Inr bs, s') \<Rightarrow>
          let s'' = ingest_batch crc ck bs (note_batch s') in
          if ck_late ck (wr_calls (fst (snd s''))) then Some (Inr (), s'') else drain_for_shutdown crc ck s''
      | (Inl EAGAIN, s') \<Rightarrow> Some (Inr (), s')
      | (Inl EINTR, s') \<Rightarrow> drain_for_shutdown crc ck s'
      | (Inl e, s') \<Rightarrow> Some (Inl (zmq_err e), s'))"

section \<open>Control\<close>

text \<open>The handshake; \<open>handles\<close> are the engine's in the arbitrary order of its hash map.\<close>

definition server_schema :: "SeriesHandle list \<Rightarrow> SeriesSchema list" where
  "server_schema handles =
     sort_key ss_name (map (\<lambda>h. \<lparr>ss_name = sh_name h, ss_epoch = sh_epoch h, ss_keys = sh_keys h\<rparr>) handles)"

definition flush_payload :: "FlushOutcome \<Rightarrow> FlushPayload" where
  "flush_payload out = \<lparr>fp_segments_consumed = segments_consumed out, fp_rows_written = rows_written out,
     fp_rows_deduplicated = rows_deduplicated out, fp_frames_rejected = frames_rejected out\<rparr>"

text \<open>An engine operation run by the server.\<close>

definition engine_call :: "('m, 'a) engine \<Rightarrow> 'm served \<Rightarrow> (Error + 'a) \<times> 'm served" where
  "engine_call f = (\<lambda>(sv, wr, s). case f s of (r, s') \<Rightarrow> (r, (sv, wr, s')))"

definition handle_stats :: "'m served \<Rightarrow> ControlResponse \<times> 'm served" where
  "handle_stats = (\<lambda>s. case engine_call engine_stats s of
       (Inr st, s') \<Rightarrow> (StatsReply \<lparr>sp_engine = st, sp_batches_received = sv_batches (fst s')\<rparr>, s')
     | (Inl _, s') \<Rightarrow> (ErrorReply '''', s'))"

definition handle_flush ::
  "'s Parquet \<Rightarrow> (bytes \<Rightarrow> u32) \<Rightarrow> (Manifest \<Rightarrow> string + bytes) \<Rightarrow> (Error \<Rightarrow> string) \<Rightarrow> Clocks \<Rightarrow> 'm served \<Rightarrow> ControlResponse \<times> 'm served" where
  "handle_flush pq crc to_json display ck = (\<lambda>s. let n = wr_calls (fst (snd s)) in
     case engine_call (engine_flush pq crc to_json (ck_now ck n) (ck_wal ck n)) s of
       (Inr out, s') \<Rightarrow> (Flushed (flush_payload out), s')
     | (Inl e, s') \<Rightarrow> (response_error display e, s'))"

definition handle ::
  "'s Parquet \<Rightarrow> (bytes \<Rightarrow> u32) \<Rightarrow> (Manifest \<Rightarrow> string + bytes) \<Rightarrow> (Error \<Rightarrow> string) \<Rightarrow> rstr \<Rightarrow> SeriesHandle list \<Rightarrow> Clocks \<Rightarrow>
     ControlRequest \<Rightarrow> 'm served \<Rightarrow> ControlResponse \<times> 'm served" where
  "handle pq crc to_json display version handles ck req s =
     (case req of
        Ping \<Rightarrow> (Pong version, s)
      | StatsReq \<Rightarrow> handle_stats s
      | FlushReq \<Rightarrow> handle_flush pq crc to_json display ck s
      | SchemaReq \<Rightarrow> (SchemaReply (server_schema handles) (Some (sv_max_batch_bytes (fst s))), s)
      | ReloadConfig \<Rightarrow> (ErrorReply ''reload-config is not implemented yet; restart the server to adopt a new config'', s)
      | Shutdown \<Rightarrow> (ShuttingDown, ((fst s)\<lparr>sv_stop := True\<rparr>, snd s)))"

text \<open>\<open>fallback\<close> is the reply written by hand when a reply cannot be serialised.\<close>

definition serve_control ::
  "(ControlRequest \<Rightarrow> 'm served \<Rightarrow> ControlResponse \<times> 'm served) \<Rightarrow> (bytes \<Rightarrow> string + ControlRequest) \<Rightarrow>
     (ControlResponse \<Rightarrow> string + bytes) \<Rightarrow> (string \<Rightarrow> bytes) \<Rightarrow> ('m, unit) server" where
  "serve_control answer from_json to_json fallback s =
     (case on_socket zmq_recv s of
        (Inl EINTR, s') \<Rightarrow> (Inr (), s')
      | (Inl e, s') \<Rightarrow> (Inl (zmq_err e), s')
      | (Inr msg, s') \<Rightarrow>
          (case (case from_json msg of
                   Inr req \<Rightarrow> answer req s'
                 | Inl e \<Rightarrow> (ErrorReply (''unparseable request: '' @ e), s')) of
             (reply, s'') \<Rightarrow>
               map_err zmq_err (on_socket (zmq_control_send (case to_json reply of Inr bs \<Rightarrow> bs | Inl e \<Rightarrow> fallback e))) s''))"

section \<open>The loop\<close>

text \<open>
  One poll: an error, or which of the two sockets is readable. \<open>turn\<close> is the body of the loop of
  \<open>serve\<close> for a poll's result. A round of the loop also sees whether a holder of the stop handle has
  flipped it since the last round. \<open>serve\<close> runs on the rounds a run of the server sees, and is \<open>None\<close>
  if it has not stopped after them.
\<close>

type_synonym poll = "ZmqError + bool \<times> bool"
type_synonym round = "bool \<times> poll"

definition stop_handle :: "bool \<Rightarrow> 'm served \<Rightarrow> 'm served" where
  "stop_handle flipped = (\<lambda>(sv, s). (sv\<lparr>sv_stop := sv_stop sv \<or> flipped\<rparr>, s))"

definition turn :: "('m, unit) server \<Rightarrow> ('m, unit) server \<Rightarrow> bool \<times> bool \<Rightarrow> ('m, unit) server" where
  "turn drain answer = (\<lambda>(ingest, ctl).
     seq (if ingest then drain else ok ()) (\<lambda>_. if ctl then answer else ok ()))"

fun serve :: "('m, unit) server \<Rightarrow> ('m, unit) server \<Rightarrow> round list \<Rightarrow> 'm served \<Rightarrow> ((Error + unit) \<times> 'm served) option" where
  "serve drain answer [] s = (if sv_stop (fst s) then Some (Inr (), s) else None)"
| "serve drain answer ((flipped, poll) # rest) s =
     (let s = stop_handle flipped s in
      if sv_stop (fst s) then Some (Inr (), s)
      else case poll of
             Inl EINTR \<Rightarrow> serve drain answer rest s
           | Inl e \<Rightarrow> Some (Inl (zmq_err e), s)
           | Inr rd \<Rightarrow>
               (case turn drain answer rd s of
                  (Inl e, s') \<Rightarrow> Some (Inl e, s')
                | (Inr _, s') \<Rightarrow> serve drain answer rest s'))"

declare serve.simps [simp del]

definition shutdown :: "(bytes \<Rightarrow> u32) \<Rightarrow> Clocks \<Rightarrow> 'm served \<Rightarrow> ((Error + unit) \<times> 'm served) option" where
  "shutdown crc ck s =
     (case drain_for_shutdown crc ck s of
        None \<Rightarrow> None
      | Some (Inl e, s') \<Rightarrow> Some (Inl e, s')
      | Some (Inr _, s') \<Rightarrow> Some (engine_call (engine_close (ck_wal ck (wr_calls (fst (snd s'))))) s'))"

definition server_run ::
  "(bytes \<Rightarrow> u32) \<Rightarrow> Clocks \<Rightarrow> ('m, unit) server \<Rightarrow> round list \<Rightarrow> 'm served \<Rightarrow> ((Error + unit) \<times> 'm served) option" where
  "server_run crc ck answer rounds s =
     (case serve (drain_ingest crc ck) answer rounds s of
        None \<Rightarrow> None
      | Some (outcome, s') \<Rightarrow>
          (case shutdown crc ck s' of
             None \<Rightarrow> None
           | Some (closed, s'') \<Rightarrow> Some (case outcome of Inl e \<Rightarrow> Inl e | Inr _ \<Rightarrow> closed, s'')))"

end
