(* ===== verification/Orc_Sweep.thy ===== *)
theory Orc_Sweep
  imports Orc_Flush_Run
begin

text \<open>
  The clean-up after an interrupted flush (\<open>sweep_uncommitted\<close>): whatever call is refused, an output
  file the watermark covers is kept, staged or published, and nothing outside \<open>runs/\<close>, \<open>tmp/\<close> and
  \<open>series/\<close> is touched. A sweep that nothing stands in the way of leaves no staged file and no
  output file beyond the watermark, so that it completes a flush that was interrupted after its
  commit.
\<close>

section \<open>Covered output files\<close>

definition covered_out :: "u64 \<Rightarrow> path \<Rightarrow> bool" where
  "covered_out w p \<longleftrightarrow> (\<exists>a b e. p = [TMP_DIR, a, b, e]) \<and> committed w (file_range p)"

definition swept_dirs :: "path set" where
  "swept_dirs = {p. below runs_dir p \<or> below tmp_dir p \<or> below [SERIES_DIR] p}"

definition swept :: "u64 \<Rightarrow> (path \<rightharpoonup> bytes) \<Rightarrow> (path \<rightharpoonup> bytes) \<Rightarrow> bool" where
  "swept w c0 c \<longleftrightarrow>
     outside swept_dirs c0 c \<and>
     (\<forall>p bs. covered_out w p \<longrightarrow> in_place p bs c0 \<longrightarrow> in_place p bs c)"

lemma swept_refl: "swept w c c"
  by (simp add: swept_def outside_def)

lemma covered_outE:
  assumes "covered_out w p" obtains a b e where "p = [TMP_DIR, a, b, e]" "dest p = [SERIES_DIR, a, b, e]"
  using assms by (auto simp: covered_out_def dest_def tmp_dir_def)

lemma runs_apart [simp]: "RUNS_DIR \<noteq> TMP_DIR" "TMP_DIR \<noteq> RUNS_DIR" "RUNS_DIR \<noteq> SERIES_DIR" "SERIES_DIR \<noteq> RUNS_DIR"
  by (simp_all add: RUNS_DIR_def TMP_DIR_def SERIES_DIR_def lit_def)

text \<open>A change that spares the covered files.\<close>

lemma swept_spare:
  assumes "swept w c0 c" "S \<subseteq> swept_dirs"
    "\<And>p. covered_out w p \<Longrightarrow> p \<notin> S \<and> dest p \<notin> S" "outside S c c'"
  shows "swept w c0 c'"
proof -
  have same: "c' p = c p" if "p \<notin> S" for p using assms(4) that by (simp add: outside_def)
  have "in_place p bs c'" if "covered_out w p" "in_place p bs c0" for p bs
  proof -
    have "in_place p bs c" using assms(1) that unfolding swept_def by blast
    then show ?thesis using same assms(3) [OF that(1)] by (simp add: in_place_def)
  qed
  moreover have "outside swept_dirs c0 c'"
    by (rule outside_trans [OF _ assms(4) subset_refl assms(2)]) (use assms(1) in \<open>simp add: swept_def\<close>)
  ultimately show ?thesis unfolding swept_def by blast
qed

lemma swept_runs: "swept w c0 c \<Longrightarrow> runs_only c c' \<Longrightarrow> swept w c0 c'"
  by (rule swept_spare [where S = "{p. below runs_dir p}"]) (auto elim!: covered_outE simp: below_def runs_dir_def swept_dirs_def)

lemma outside_one: "outside {p} c (c(p := x))"
  by (simp add: outside_def)

lemma swept_drop:
  assumes "swept w c0 c" "below tmp_dir p \<or> below [SERIES_DIR] p" "\<And>q. covered_out w q \<Longrightarrow> q \<noteq> p \<and> dest q \<noteq> p"
  shows "swept w c0 (c(p := None))"
  by (rule swept_spare [OF assms(1) _ _ outside_one]) (use assms(2,3) in \<open>auto simp: swept_dirs_def\<close>)

text \<open>Staged files that are not covered, files that lie directly in \<open>tmp/\<close>, and orphans may go.\<close>

lemma droppable:
  assumes "covered_out w q"
  shows "p = [TMP_DIR, a, b, e] \<Longrightarrow> \<not> committed w (file_range p) \<Longrightarrow> q \<noteq> p \<and> dest q \<noteq> p"
    and "p = [TMP_DIR, e] \<Longrightarrow> q \<noteq> p \<and> dest q \<noteq> p"
    and "p = [SERIES_DIR, a, b, e] \<Longrightarrow> \<not> committed w (file_range p) \<Longrightarrow> q \<noteq> p \<and> dest q \<noteq> p"
proof -
  obtain a' b' e' where q: "q = [TMP_DIR, a', b', e']" "dest q = [SERIES_DIR, a', b', e']" using covered_outE [OF assms] .
  have "committed w (file_range q)" using assms by (simp add: covered_out_def)
  then have "committed w (file_range [x, a', b', e'])" for x by (simp add: q file_range_def)
  then show "p = [TMP_DIR, a, b, e] \<Longrightarrow> \<not> committed w (file_range p) \<Longrightarrow> q \<noteq> p \<and> dest q \<noteq> p"
    and "p = [TMP_DIR, e] \<Longrightarrow> q \<noteq> p \<and> dest q \<noteq> p"
    and "p = [SERIES_DIR, a, b, e] \<Longrightarrow> \<not> committed w (file_range p) \<Longrightarrow> q \<noteq> p \<and> dest q \<noteq> p"
    unfolding q(2) by (auto simp: q(1))
qed

lemma swept_promote:
  assumes "swept w c0 c" "p = [TMP_DIR, a, b, e]" "c p = Some bs" shows "swept w c0 (c(p := None, dest p \<mapsto> bs))"
proof -
  let ?c = "c(p := None, dest p \<mapsto> bs)"
  have d: "dest p = [SERIES_DIR, a, b, e]" by (simp add: assms(2) dest_def tmp_dir_def)
  have "in_place q bs' ?c" if q: "covered_out w q" "in_place q bs' c0" for q bs'
  proof -
    have "in_place q bs' c" using assms(1) q unfolding swept_def by blast
    moreover obtain a' b' e' where "q = [TMP_DIR, a', b', e']" "dest q = [SERIES_DIR, a', b', e']" using covered_outE [OF q(1)] .
    ultimately show ?thesis using assms(2,3) d by (auto simp: in_place_def)
  qed
  moreover have "outside swept_dirs c0 ?c"
  proof (rule outside_trans [of swept_dirs c0 c "{p, dest p}"])
    show "{p, dest p} \<subseteq> swept_dirs" by (simp add: assms(2) swept_dirs_def below_def tmp_dir_def dest_def)
  qed (use assms(1) in \<open>simp_all add: swept_def outside_def\<close>)
  ultimately show ?thesis unfolding swept_def by blast
qed

section \<open>Each step\<close>

text \<open>What is left of \<open>tmp/\<close> and \<open>series/\<close> while the sweep works.\<close>

definition sweeping :: "bool \<Rightarrow> u64 \<Rightarrow> (path \<rightharpoonup> bytes) \<Rightarrow> path set \<Rightarrow> (path \<rightharpoonup> bytes) \<Rightarrow> bool" where
  "sweeping k w c0 S c \<longleftrightarrow> swept w c0 c \<and> (k \<longrightarrow> partition_files tmp_dir c = S)"

lemma partition_tmp: "p \<in> partition_files tmp_dir c \<Longrightarrow> \<exists>a b e. p = [TMP_DIR, a, b, e]"
  by (auto simp: partition_files_def tmp_dir_def prefix_def numeral_3_eq_3 length_Suc_conv)

lemma partition_series: "p \<in> partition_files [SERIES_DIR] c \<Longrightarrow> \<exists>a b e. p = [SERIES_DIR, a, b, e]"
  by (auto simp: partition_files_def prefix_def numeral_3_eq_3 length_Suc_conv)

lemma promote_staged_triple:
  assumes p: "p = [TMP_DIR, a, b, e]"
  shows "triple (at k (\<lambda>c. sweeping k w c0 S c \<and> (k \<longrightarrow> p \<in> S))) (promote p :: ('m, unit) eio)
    (\<lambda>_. at k (sweeping k w c0 (S - {p}))) (\<lambda>_. at k (\<lambda>c. \<not> k \<and> swept w c0 c))"
proof -
  have d: "dest p = [SERIES_DIR, a, b, e]" by (simp add: p dest_def tmp_dir_def)
  have eq: "promote p = (seq (lift_io (fs_mkdir (butlast (dest p)))) (\<lambda>_. seq (lift_io (fs_rename p (dest p))) (\<lambda>_. seq (lift_io (fsync_dir (butlast (dest p)))) (\<lambda>_.
      seq (lift_io (fsync_dir (butlast (butlast (dest p))))) (\<lambda>_. lift_io (fsync_dir [SERIES_DIR]))))) :: ('m, unit) eio)"
    by (simp add: p promote_def dest_def tmp_dir_def Let_def)
  have moved: "sweeping k w c0 (S - {p}) (c(p := None, dest p \<mapsto> bs))" if "sweeping k w c0 S c" "c p = Some bs" for c bs
    using that swept_promote [of w c0 c p a b e bs] d p by (auto simp: sweeping_def partition_files_def tmp_dir_def)
  show ?thesis
    unfolding eq by (rule triple_at_pre, (rule triple_rules)+) (use moved in \<open>auto simp: sweeping_def partition_files_def\<close>)
qed

lemma settle_staged_triple:
  assumes p: "p = [TMP_DIR, a, b, e]"
  shows "triple (at k (\<lambda>c. sweeping k w c0 S c \<and> (k \<longrightarrow> p \<in> S))) (settle_staged w (p, file_range p) :: ('m, unit) eio)
    (\<lambda>_. at k (sweeping k w c0 (S - {p}))) (\<lambda>_. at k (\<lambda>c. \<not> k \<and> swept w c0 c))"
proof (cases "committed w (file_range p)")
  case True
  then show ?thesis using promote_staged_triple [OF p] by (simp add: settle_staged_def)
next
  case False
  have below: "below tmp_dir p" by (simp add: p below_def tmp_dir_def)
  have "swept w c0 (c(p := None))" if "swept w c0 c" for c
    by (rule swept_drop [OF that]) (use below droppable(1) [OF _ p False] in auto)
  then have gone: "sweeping k w c0 (S - {p}) (c(p := None))" if "sweeping k w c0 S c" for c
    using that by (auto simp: sweeping_def partition_files_def)
  have "triple (at k (\<lambda>c. sweeping k w c0 S c \<and> (k \<longrightarrow> p \<in> S))) (lift_io (fs_remove p) :: ('m, unit) eio)
    (\<lambda>_. at k (sweeping k w c0 (S - {p}))) (\<lambda>_. at k (\<lambda>c. \<not> k \<and> swept w c0 c))"
    by (rule triple_at_pre, (rule triple_rules)+) (use gone in \<open>auto simp: sweeping_def partition_files_def\<close>)
  with False show ?thesis by (simp add: settle_staged_def)
qed

section \<open>Listings name each file once\<close>

lemma scan_once:
  assumes "\<And>d :: 'm Disk_scheme. wf_disk d \<Longrightarrow> distinct (f d) \<and> (\<forall>q\<in>set (f d). butlast q = dir)"
  shows "triple (at k R) (scan f :: ('m, path list) eio) (\<lambda>qs. at k (\<lambda>c. R c \<and> distinct qs \<and> (\<forall>q\<in>set qs. butlast q = dir))) E"
proof (rule tripleI)
  fix d :: "'m Disk_scheme" and qs d' assume d: "at k R d" and r: "scan f d = (Inr qs, d')"
  then obtain n where "qs = f d \<or> qs = take n (f d)" "d' = d\<lparr>ops := Suc (ops d)\<rparr>"
    by (auto simp: scan_def Let_def split: outcome.splits)
  then show "at k (\<lambda>c. R c \<and> distinct qs \<and> (\<forall>q\<in>set qs. butlast q = dir)) d'"
    using d assms [of d] by (auto simp: at_def dest: in_set_takeD)
qed (auto simp: scan_def Let_def split: outcome.splits)

lemma butlast_take_Suc: "prefix dir p \<Longrightarrow> Suc (length dir) \<le> length p \<Longrightarrow> butlast (take (Suc (length dir)) p) = dir"
  by (auto simp: prefix_def take_Suc_conv_app_nth)

lemma scan_files_once: "triple (at k R) (scan_files dir) (\<lambda>qs. at k (\<lambda>c. R c \<and> distinct qs \<and> (\<forall>q\<in>set qs. butlast q = dir))) E"
  unfolding scan_files_def by (rule scan_once) (auto simp: files_in_def wf_disk_def)

lemma scan_dirs_once: "triple (at k R) (scan_dirs dir) (\<lambda>qs. at k (\<lambda>c. R c \<and> distinct qs \<and> (\<forall>q\<in>set qs. butlast q = dir))) E"
  unfolding scan_dirs_def by (rule scan_once) (auto simp: dirs_in_def butlast_take_Suc)

lemma scan_each_once:
  assumes f: "\<And>R dir E. triple (at k R) (f dir :: ('m, path list) eio) (\<lambda>qs. at k (\<lambda>c. R c \<and> distinct qs \<and> (\<forall>q\<in>set qs. butlast q = dir))) E"
    and dirs: "distinct dirs"
  shows "triple (at k R) (scan_each f dirs :: ('m, path list) eio) (\<lambda>qs. at k (\<lambda>c. R c \<and> distinct qs)) E"
proof -
  let ?J = "\<lambda>ds out c. R c \<and> (distinct ds \<longrightarrow> distinct out \<and> (\<forall>q\<in>set out. butlast q \<in> set ds))"
  have "triple (at k (?J ds out)) (seq (f dir) (\<lambda>ps. ok (out @ ps))) (\<lambda>out'. at k (?J (ds @ [dir]) out')) E" for ds out dir
    by (rule triple_seq [OF f]) (auto simp: triple_def at_def)
  from fold_io_triple [of dirs k ?J, OF this, of "[]" "[]"] show ?thesis
    unfolding scan_each_def by (elim triple_conseq) (use dirs in \<open>auto simp: at_def\<close>)
qed

lemma triple_at_assumed:
  assumes "P \<Longrightarrow> triple (at k R) m Q E" shows "triple (at k (\<lambda>c. R c \<and> P)) m Q E"
  using assms by (auto simp: triple_def at_def)

lemma scan_partitions_once: "triple (at k R) (scan_partitions root) (\<lambda>ps. at k (\<lambda>c. R c \<and> distinct ps)) E"
  unfolding scan_partitions_def
proof (rule triple_seq [OF scan_dirs_once], goal_cases)
  case (1 series)
  have hours: "triple (at k R) (scan_each scan_dirs series) (\<lambda>qs. at k (\<lambda>c. R c \<and> distinct qs)) E" if "distinct series"
    by (rule scan_each_once [OF scan_dirs_once that])
  have files: "triple (at k (\<lambda>c. R c \<and> distinct hours)) (scan_each scan_files hours) (\<lambda>ps. at k (\<lambda>c. R c \<and> distinct ps)) E" for hours
    by (rule triple_at_assumed) (rule scan_each_once [OF scan_files_once])
  have "triple (at k (\<lambda>c. R c \<and> distinct series)) (seq (scan_each scan_dirs series) (scan_each scan_files)) (\<lambda>ps. at k (\<lambda>c. R c \<and> distinct ps)) E"
    by (rule triple_at_assumed) (rule triple_seq [OF hours files])
  then show ?case by (rule triple_at_pre) simp
qed

lemma triple_both: "triple P m Q E \<Longrightarrow> triple P m Q' E \<Longrightarrow> triple P m (\<lambda>x s. Q x s \<and> Q' x s) E"
  by (auto simp: triple_def split: prod.splits sum.splits)

lemma scan_partitions_exact:
  "triple (at k R) (scan_partitions root)
     (\<lambda>ps. at k (\<lambda>c. R c \<and> distinct ps \<and> set ps \<subseteq> partition_files root c \<and> (k \<longrightarrow> set ps = partition_files root c))) E"
  by (rule triple_conseq [OF triple_both [OF scan_partitions_once scan_partitions_triple]]) (auto simp: at_def)

section \<open>The sweep\<close>

lemma staged_files_triple:
  "triple (at k (swept w c0)) (staged_files :: ('m, (path \<times> (u64 \<times> u64 \<times> u32) option) list) eio)
     (\<lambda>staged. at k (\<lambda>c. (distinct (map fst staged) \<and> (\<forall>x\<in>set staged. \<exists>p a b e. x = (p, file_range p) \<and> p = [TMP_DIR, a, b, e])) \<and>
        sweeping k w c0 (fst ` set staged) c)) E"
  unfolding staged_files_def
proof (rule triple_seq [OF scan_partitions_exact], goal_cases)
  case (1 ps)
  have "mset (map fst (sort_key fst (map (\<lambda>p. (p, file_range p)) ps))) = mset ps" by (simp add: comp_def multiset.map_comp)
  then have "distinct (map fst (sort_key fst (map (\<lambda>p. (p, file_range p)) ps))) = distinct ps" by (rule mset_eq_imp_distinct_iff)
  moreover have "fst ` set (sort_key fst (map (\<lambda>p. (p, file_range p)) ps)) = set ps" by (auto simp: image_image)
  moreover have "\<exists>a b e. p = [TMP_DIR, a, b, e]" if "set ps \<subseteq> partition_files tmp_dir c" "p \<in> set ps" for p c
    using that partition_tmp by blast
  ultimately show ?case by (auto simp: triple_def at_def sweeping_def)
qed

lemma settle_all_triple:
  assumes "distinct (map fst staged)" "\<forall>x\<in>set staged. \<exists>p a b e. x = (p, file_range p) \<and> p = [TMP_DIR, a, b, e]"
  shows "triple (at k (sweeping k w c0 (fst ` set staged))) (for_each (settle_staged w) staged :: ('m, unit) eio)
    (\<lambda>_. at k (sweeping k w c0 {})) (\<lambda>_. at k (\<lambda>c. \<not> k \<and> swept w c0 c))"
proof -
  let ?J = "\<lambda>ys. sweeping k w c0 (fst ` set staged - fst ` set ys)"
  have step: "triple (at k (?J ys)) (settle_staged w x :: ('m, unit) eio) (\<lambda>_. at k (?J (ys @ [x]))) (\<lambda>_. at k (\<lambda>c. \<not> k \<and> swept w c0 c))"
    if split: "[] @ staged = ys @ x # zs" for ys x zs
  proof -
    obtain p a b e where x: "x = (p, file_range p)" "p = [TMP_DIR, a, b, e]" using assms(2) split by fastforce
    have "p \<in> fst ` set staged - fst ` set ys" using assms(1) split x(1) by auto
    moreover have "fst ` set staged - fst ` set ys - {p} = fst ` set staged - fst ` set (ys @ [x])" using x(1) by auto
    ultimately show ?thesis using settle_staged_triple [OF x(2), of k w c0 "fst ` set staged - fst ` set ys"] unfolding x(1) [symmetric] by (simp add: x(1))
  qed
  show ?thesis using for_each_prefix_triple [where ?ys0.0 = "[]" and xs = staged and J = ?J, OF step] by simp
qed

lemma remove_empty_triple: "triple (at k R) (remove_empty dir :: ('m, unit) eio) (\<lambda>_. at k R) (\<lambda>_. at k (\<lambda>_. False))"
  unfolding remove_empty_def by (rule triple_at_pre, (rule triple_rules)+) simp

lemma remove_flat_triple:
  assumes p: "butlast p = tmp_dir" "p \<noteq> []"
  shows "triple (at k (sweeping k w c0 S)) (remove_flat p :: ('m, unit) eio) (\<lambda>_. at k (sweeping k w c0 S)) (\<lambda>_. at k (\<lambda>_. False))"
proof -
  obtain e where e: "p = [TMP_DIR, e]" using p by (metis append_butlast_last_id tmp_dir_def append.simps)
  have "swept w c0 (c(p := None))" if "swept w c0 c" for c
    by (rule swept_drop [OF that]) (use droppable(2) [OF _ e] e in \<open>auto simp: below_def tmp_dir_def\<close>)
  then have gone: "sweeping k w c0 S (c(p := None))" if "sweeping k w c0 S c" for c
    using that e by (auto simp: sweeping_def partition_files_def tmp_dir_def)
  show ?thesis
    unfolding remove_flat_def by (rule triple_at_pre, (rule triple_rules)+) (use gone in \<open>auto simp del: fun_upd_apply\<close>)
qed

text \<open>The output files that are kept.\<close>

definition orphans :: "u64 \<Rightarrow> (path \<rightharpoonup> bytes) \<Rightarrow> path set" where
  "orphans w c = {p \<in> partition_files [SERIES_DIR] c. file_range p \<noteq> None \<and> \<not> committed w (file_range p)}"

definition clearing :: "bool \<Rightarrow> u64 \<Rightarrow> (path \<rightharpoonup> bytes) \<Rightarrow> path set \<Rightarrow> (path \<rightharpoonup> bytes) \<Rightarrow> bool" where
  "clearing k w c0 S c \<longleftrightarrow> sweeping k w c0 {} c \<and> (k \<longrightarrow> orphans w c \<subseteq> S)"

definition is_output :: "path \<times> u64 \<times> u64 \<times> u32 \<Rightarrow> bool" where
  "is_output x \<longleftrightarrow> (\<exists>a b e. fst x = [SERIES_DIR, a, b, e]) \<and> file_range (fst x) = Some (snd x)"

lemma output_files_triple:
  "triple (at k (sweeping k w c0 {})) (output_files :: ('m, (path \<times> u64 \<times> u64 \<times> u32) list) eio)
     (\<lambda>found. at k (\<lambda>c. (\<forall>x\<in>set found. is_output x) \<and> clearing k w c0 (fst ` set found) c)) E"
  unfolding output_files_def
proof (rule triple_seq [OF scan_partitions_exact], goal_cases)
  case (1 ps)
  let ?found = "sort_key fst (List.map_filter (\<lambda>p. map_option (Pair p) (file_range p)) ps)"
  have mem: "x \<in> set ?found \<longleftrightarrow> fst x \<in> set ps \<and> file_range (fst x) = Some (snd x)" for x
    by (cases x) (force simp: map_filter_def)
  have "(\<forall>x\<in>set ?found. is_output x) \<and> clearing k w c0 (fst ` set ?found) c"
    if c: "sweeping k w c0 {} c" "set ps \<subseteq> partition_files [SERIES_DIR] c" "k \<longrightarrow> set ps = partition_files [SERIES_DIR] c" for c
  proof -
    have "is_output x" if "x \<in> set ?found" for x using that c(2) partition_series unfolding mem is_output_def by blast
    moreover have "p \<in> fst ` set ?found" if orphan: k "p \<in> orphans w c" for p
    proof -
      obtain r where "file_range p = Some r" "p \<in> set ps" using orphan c(3) by (auto simp: orphans_def)
      then have "(p, r) \<in> set ?found" unfolding mem by simp
      then show ?thesis by force
    qed
    ultimately show ?thesis using c(1) unfolding clearing_def by blast
  qed
  then show ?case by (intro triple_pre [OF triple_ok]) (unfold at_def, blast)
qed

lemma remove_orphan_triple:
  assumes x: "is_output x"
  shows "triple (at k (clearing k w c0 S)) (remove_orphan w x out :: ('m, path list) eio) (\<lambda>_. at k (clearing k w c0 (S - {fst x}))) (\<lambda>_. at k (\<lambda>_. False))"
proof (cases "committed w (Some (snd x))")
  case True
  then have "clearing k w c0 (S - {fst x}) c" if "clearing k w c0 S c" for c
    using that x by (auto simp: clearing_def orphans_def is_output_def)
  with True show ?thesis by (auto simp: remove_orphan_def triple_def at_def split: prod.splits)
next
  case False
  obtain a b e where p: "fst x = [SERIES_DIR, a, b, e]" and r: "file_range (fst x) = Some (snd x)" using x by (auto simp: is_output_def)
  have swept: "swept w c0 (c(fst x := None))" if "swept w c0 c" for c
    by (rule swept_drop [OF that]) (use droppable(3) [OF _ p] r False p in \<open>auto simp: below_def\<close>)
  have gone: "clearing k w c0 (S - {fst x}) (c(fst x := None))" if "clearing k w c0 S c" for c
    using that swept p by (auto simp: clearing_def sweeping_def orphans_def partition_files_def tmp_dir_def)
  have none: "clearing k w c0 (S - {fst x}) c" if "clearing k w c0 S c" "c (fst x) = None" for c
    using that by (auto simp: clearing_def orphans_def partition_files_def)
  have "triple (at k (clearing k w c0 S)) (best_effort (fs_remove (fst x)) :: ('m, bool) eio) (\<lambda>_. at k (clearing k w c0 (S - {fst x}))) (\<lambda>_. at k (\<lambda>_. False))"
    by (rule triple_at_pre, (rule triple_rules)+) (use gone none in \<open>auto simp del: fun_upd_apply simp: clearing_def\<close>)
  then have "triple (at k (clearing k w c0 S)) (seq (best_effort (fs_remove (fst x))) (\<lambda>gone. ok (if gone then out @ [butlast (fst x)] else out)) :: ('m, path list) eio)
      (\<lambda>_. at k (clearing k w c0 (S - {fst x}))) (\<lambda>_. at k (\<lambda>_. False))" by (rule triple_seq) (rule triple_ok)
  with False show ?thesis by (simp add: remove_orphan_def split_beta)
qed

lemma triple_no_error: "triple P m Q (\<lambda>_. at k (\<lambda>_. False)) \<Longrightarrow> triple P m Q E"
  by (erule triple_conseq) (auto simp: at_def)

text \<open>What a sweep leaves: nothing covered is lost; and, if no call was refused, nothing staged and no orphan.\<close>

definition tidy :: "u64 \<Rightarrow> (path \<rightharpoonup> bytes) \<Rightarrow> bool" where
  "tidy w c \<longleftrightarrow> partition_files tmp_dir c = {} \<and> orphans w c = {}"

lemma remove_orphans_triple:
  assumes "\<forall>x\<in>set found. is_output x"
  shows "triple (at k (clearing k w c0 (fst ` set found))) (fold_io (remove_orphan w) found [] :: ('m, path list) eio) (\<lambda>_. at k (clearing k w c0 {})) (\<lambda>_. at k (\<lambda>_. False))"
proof -
  have "triple (at k (clearing k w c0 (fst ` set found - fst ` set ys))) (remove_orphan w x out :: ('m, path list) eio)
      (\<lambda>_. at k (clearing k w c0 (fst ` set found - fst ` set (ys @ [x])))) (\<lambda>_. at k (\<lambda>_. False))" if x: "x \<in> set found" for ys x out
  proof -
    have "is_output x" using assms x by blast
    moreover have "fst ` set found - fst ` set (ys @ [x]) = fst ` set found - fst ` set ys - {fst x}" by auto
    ultimately show ?thesis using remove_orphan_triple by simp
  qed
  from fold_io_triple [where J = "\<lambda>ys _. clearing k w c0 (fst ` set found - fst ` set ys)", where xs = found and ys = "[]" and w = "[]", OF this] show ?thesis by simp
qed

lemma sweep_triple:
  "triple (at k (\<lambda>c. c = c0)) (sweep_uncommitted w :: ('m, unit) eio)
     (\<lambda>_. at k (\<lambda>c. swept w c0 c \<and> (k \<longrightarrow> tidy w c))) (\<lambda>_. at k (\<lambda>c. \<not> k \<and> swept w c0 c))"
proof -
  let ?E = "\<lambda>_ :: Error. at k (\<lambda>c. \<not> k \<and> swept w c0 c)"
  have clear: "triple (at k (\<lambda>c. c = c0)) (clear_runs :: ('m, unit) eio) (\<lambda>_. at k (swept w c0)) ?E"
    by (rule clear_runs_triple) (use swept_runs [OF swept_refl] in blast)
  have settle: "triple (at k (\<lambda>c. (distinct (map fst staged) \<and> (\<forall>x\<in>set staged. \<exists>p a b e. x = (p, file_range p) \<and> p = [TMP_DIR, a, b, e])) \<and> sweeping k w c0 (fst ` set staged) c))
      (for_each (settle_staged w) staged :: ('m, unit) eio) (\<lambda>_. at k (sweeping k w c0 {})) ?E" for staged
    by (rule triple_at_assume, elim conjE) (rule settle_all_triple)
  have empty: "triple (at k (sweeping k w c0 {})) (for_each (\<lambda>hour. seq (remove_empty hour) (\<lambda>_. remove_empty (butlast hour))) hours :: ('m, unit) eio) (\<lambda>_. at k (sweeping k w c0 {})) ?E" for hours
    by (rule triple_for_each, rule triple_seq [OF triple_no_error [OF remove_empty_triple]], rule triple_no_error [OF remove_empty_triple])
  have flat: "triple (at k (\<lambda>c. sweeping k w c0 {} c \<and> (\<forall>q\<in>set qs. butlast q = tmp_dir))) (for_each remove_flat qs :: ('m, unit) eio) (\<lambda>_. at k (sweeping k w c0 {})) ?E" for qs
  proof (rule triple_at_assumed, rule triple_for_each)
    fix q assume "\<forall>q\<in>set qs. butlast q = tmp_dir" "q \<in> set qs"
    then have "butlast q = tmp_dir" "q \<noteq> []" by (auto simp: tmp_dir_def)
    then show "triple (at k (sweeping k w c0 {})) (remove_flat q :: ('m, unit) eio) (\<lambda>_. at k (sweeping k w c0 {})) ?E"
      by (rule triple_no_error [OF remove_flat_triple])
  qed
  have scan: "triple (at k (sweeping k w c0 {})) (scan_files tmp_dir :: ('m, path list) eio) (\<lambda>qs. at k (\<lambda>c. sweeping k w c0 {} c \<and> (\<forall>q\<in>set qs. butlast q = tmp_dir))) ?E"
    by (rule triple_conseq [OF scan_files_once]) (auto simp: at_def)
  have orphans: "triple (at k (\<lambda>c. (\<forall>x\<in>set found. is_output x) \<and> clearing k w c0 (fst ` set found) c)) (fold_io (remove_orphan w) found [] :: ('m, path list) eio) (\<lambda>_. at k (clearing k w c0 {})) ?E" for found
    by (rule triple_at_assume, rule triple_no_error) (rule remove_orphans_triple)
  have last: "triple (at k (clearing k w c0 {})) (for_each remove_empty dirs :: ('m, unit) eio) (\<lambda>_. at k (\<lambda>c. swept w c0 c \<and> (k \<longrightarrow> tidy w c))) ?E" for dirs
    by (rule triple_conseq [OF triple_for_each [OF triple_no_error [OF remove_empty_triple]]])
      (auto simp: at_def clearing_def sweeping_def tidy_def)
  show ?thesis
    unfolding sweep_uncommitted_def
    by (rule triple_seq [OF clear], rule triple_seq [OF staged_files_triple], rule triple_seq [OF settle], rule triple_seq [OF empty],
        rule triple_seq [OF scan], rule triple_seq [OF flat], rule triple_seq [OF output_files_triple], rule triple_seq [OF orphans], rule last)
qed

section \<open>A restart finishes what was committed\<close>

text \<open>
  A record of a group is in a published file, as \<open>in_output\<close> states it: the file holds rows of given
  records, and among them the first that arrived under the record's timestamp and id.
\<close>

definition in_series ::
  "'s Parquet \<Rightarrow> Config \<Rightarrow> Manifest \<Rightarrow> (GroupKey \<times> Head) set \<Rightarrow> (path \<rightharpoonup> bytes) \<Rightarrow> GroupKey \<times> Head \<Rightarrow> bool" where
  "in_series pq cfg m R c r \<longleftrightarrow>
     (let keys = schema_keys m (fst r); group = {h. (fst r, h) \<in> R} in
      \<exists>sink ys bs. \<exists>h\<in>set ys. set ys \<subseteq> group \<and> first_of group h \<and> ts_id h = ts_id (snd r) \<and>
        (h = snd r \<or> hd_arrival h < hd_arrival (snd r)) \<and>
        (row_ts (head_row keys h), row_id (head_row keys h)) = ts_id (snd r) \<and>
        output_bytes pq (cfg_flush cfg) (fst r) keys ys = Inr bs \<and> c (dest (snd (hour_file sink (fst r) ys))) = Some bs)"

lemma hour_file_covered: "snk_last sink \<le> w \<Longrightarrow> covered_out w (snd (hour_file sink g ys))"
  by (simp add: covered_out_def hour_file_def staged_path_def tmp_dir_def file_range_def parse_output_name committed_def Let_def)

lemma swept_in_series:
  assumes "in_output pq cfg m R w c0 r" "swept w c0 c" "tidy w c" shows "in_series pq cfg m R c r"
proof -
  let ?keys = "schema_keys m (fst r)" and ?group = "{h. (fst r, h) \<in> R}"
  obtain sink ys bs h where h: "h \<in> set ys \<and> set ys \<subseteq> ?group \<and> first_of ?group h \<and> ts_id h = ts_id (snd r) \<and>
      (h = snd r \<or> hd_arrival h < hd_arrival (snd r)) \<and> (row_ts (head_row ?keys h), row_id (head_row ?keys h)) = ts_id (snd r)" and w: "snk_last sink \<le> w"
    and bs: "output_bytes pq (cfg_flush cfg) (fst r) ?keys ys = Inr bs" "in_place (snd (hour_file sink (fst r) ys)) bs c0"
    using assms(1) unfolding in_output_def Let_def by blast
  let ?p = "snd (hour_file sink (fst r) ys)"
  have cov: "covered_out w ?p" using hour_file_covered [OF w] .
  then have "in_place ?p bs c" using assms(2) bs(2) unfolding swept_def by blast
  moreover have "c ?p = None"
  proof (rule ccontr)
    assume "c ?p \<noteq> None"
    with cov have "?p \<in> partition_files tmp_dir c" by (auto simp: covered_out_def partition_files_def tmp_dir_def)
    with assms(3) show False by (simp add: tidy_def)
  qed
  ultimately have "c (dest ?p) = Some bs" by (simp add: in_place_def)
  then show ?thesis using h bs(1) unfolding in_series_def Let_def by blast
qed

text \<open>
  Claim C14. The sweep keeps what was committed. Whatever call is refused and however the sweep ends,
  every output file the watermark covers, staged in \<open>tmp/\<close> or published in \<open>series/\<close>, is still there
  with its bytes, staged or published, and no file outside \<open>runs/\<close>, \<open>tmp/\<close> and \<open>series/\<close> has changed:
  the log and the manifest are untouched. A sweep on a disk that refuses nothing succeeds and leaves
  no staged file and no output file beyond the watermark.\<close>

theorem sweep_keeps_committed_output:
  fixes d :: "'m Disk_scheme"
  assumes "wf_disk d" "sweep_uncommitted w d = (r, d')"
  shows "(\<forall>p bs. covered_out w p \<longrightarrow> in_place p bs (content d) \<longrightarrow> in_place p bs (content d')) \<and>
    (\<forall>p. p \<notin> swept_dirs \<longrightarrow> content d' p = content d p) \<and>
    (calm d \<longrightarrow> r = Inr () \<and> partition_files tmp_dir (content d') = {} \<and> orphans w (content d') = {})"
proof -
  have any: "swept w (content d) (content d')"
    using at_Inr [OF sweep_triple [where k = False and ?c0.0 = "content d"] _ assms(1)] at_Inl [OF sweep_triple [where k = False and ?c0.0 = "content d"] _ assms(1)] assms(2)
    by (cases r) auto
  moreover have "r = Inr () \<and> tidy w (content d')" if "calm d"
    using at_Inr [OF sweep_triple [where k = True and ?c0.0 = "content d"] _ assms(1)] at_Inl [OF sweep_triple [where k = True and ?c0.0 = "content d"] _ assms(1)] assms(2) that
    by (cases r) auto
  ultimately show ?thesis unfolding swept_def outside_def tidy_def by blast
qed

lemma sweep_calm:
  fixes d :: "'m Disk_scheme"
  assumes "wf_disk d" "calm d" obtains d' where "sweep_uncommitted w d = (Inr (), d')" "swept w (content d) (content d')" "tidy w (content d')" "wf_disk d'" "calm d'"
proof -
  obtain r d' where run: "sweep_uncommitted w d = (r, d')" by (cases "sweep_uncommitted w d")
  note sweep = sweep_triple [where k = True and ?c0.0 = "content d" and w = w]
  show ?thesis
  proof (cases r)
    case (Inl e)
    then show ?thesis using at_Inl [OF sweep _ assms(1)] run assms(2) by fastforce
  next
    case (Inr u)
    then show ?thesis using at_Inr [OF sweep _ assms(1)] run assms(2) that by fastforce
  qed
qed

text \<open>
  Claim C13. A restart finishes an interrupted flush. If a flush, under any outcome of every call,
  stopped after it had installed a new manifest, the sweep the next start runs with that manifest's
  watermark, on a disk that refuses nothing, succeeds and leaves every record of every readable
  segment the watermark newly covers in a file under \<open>series/\<close>. The file holds rows of records
  that were given to the flush, among them the row decoded from the record's own frame or, if an
  earlier given record has the same series epoch, timestamp and id, the row of the first of these.\<close>

theorem restart_finishes_the_flush:
  fixes pq :: "'s Parquet" and d d2 :: "'m Disk_scheme"
  assumes "wf_disk d" "flushable m" "\<forall>i\<in>set segments. \<forall>bs. content d (segment_path i) = Some bs \<longrightarrow> length bs < 2 ^ 32"
    and run: "flush_run pq crc to_json now cfg segments (m, d) = (r, (m', d'))" and new: "content d' manifest_path \<noteq> content d manifest_path"
    and restart: "wf_disk d2" "calm d2" "content d2 = content d'"
    and i: "i \<in> set segments" "last_flushed_segment m < i" "i \<le> last_flushed_segment m'" "content d (segment_path i) = Some bs" "\<not> isl (parse_segment_header bs)"
  shows "\<exists>d3. sweep_uncommitted (last_flushed_segment m') d2 = (Inr (), d3) \<and>
    (\<forall>row\<in>set (segment_records crc m i bs). in_series pq cfg m (given_records crc m (content d) (set segments)) (content d3) row)"
proof -
  obtain d3 where d3: "sweep_uncommitted (last_flushed_segment m') d2 = (Inr (), d3)" "swept (last_flushed_segment m') (content d') (content d3)" "tidy (last_flushed_segment m') (content d3)"
    using sweep_calm [OF restart(1,2), of "last_flushed_segment m'"] restart(3) by metis
  have "settled pq crc to_json now cfg m (content d) (remdups_adj (sort segments)) m' (content d')"
    using flush_run_ends [OF assms(1) _ assms(2,3) _ run, of False False] by (simp split: sum.splits)
  note settled_given [OF this i(1,2,4) assms(3)]
  moreover have "\<not> last_flushed_segment m' < i" using i(3) by simp
  ultimately have "\<forall>row\<in>set (segment_records crc m i bs). in_output pq cfg m (given_records crc m (content d) (set segments)) (last_flushed_segment m') (content d') row"
    using i(5) new by blast
  then show ?thesis using d3 swept_in_series by blast
qed

section \<open>Examples\<close>

definition sweep_path :: path where
  "sweep_path = [TMP_DIR, demo_series, demo_series, output_file_name 1 1 1]"

definition sweep_disk :: Disk where
  "sweep_disk = \<lparr>files = [(sweep_path, [80])], faults = (\<lambda>n. if n = 6 then Refused 0 else Done), ops = 0, stable = (\<lambda>_. None), linked = (\<lambda>_. False)\<rparr>"

theorem sweep_keeps_committed_output_witness:
  "in_place sweep_path [80] (content (snd (sweep_uncommitted 1 sweep_disk)))"
proof -
  have "wf_disk sweep_disk" by (simp add: wf_disk_def sweep_disk_def)
  note sweep_keeps_committed_output [OF this surjective_pairing]
  moreover have "covered_out 1 sweep_path" by (simp add: covered_out_def sweep_path_def file_range_def parse_output_name committed_def)
  moreover have "in_place sweep_path [80] (content sweep_disk)" by (simp add: in_place_def content_def sweep_disk_def)
  ultimately show ?thesis by blast
qed

text \<open>A flush that has returned has installed the new manifest.\<close>

lemma reported_installs:
  assumes "settled pq crc to_json now cfg m c0 ids m' c" "c0 (segment_path i) = Some bs" "\<not> isl (parse_segment_header bs)" "c (segment_path i) = None"
  shows "\<exists>json. c manifest_path = Some (json @ [10])"
proof -
  have "\<not> unflushed sink c0 c" for sink
  proof
    assume "unflushed sink c0 c"
    then have "held c0 c i" by (simp add: unflushed_def)
    then show False using assms(2-4) by (auto simp: held_def aside_def)
  qed
  then show ?thesis using assms(1) unfolding settled_def flushed_def by blast
qed

theorem restart_finishes_the_flush_witness:
  "\<exists>r m' d' d3. flush_run demo_parquet demo_crc demo_to_json 9 default_config [1] (flush_manifest, flush_disk (\<lambda>_. Done)) = (r, (m', d')) \<and>
     sweep_uncommitted 1 d' = (Inr (), d3) \<and>
     (\<forall>row\<in>set (segment_records demo_crc flush_manifest 1 flush_segment). in_series demo_parquet default_config flush_manifest (given_records demo_crc flush_manifest (content (flush_disk (\<lambda>_. Done))) {1}) (content d3) row)"
proof -
  obtain r m' d' where run: "flush_run demo_parquet demo_crc demo_to_json 9 default_config [1] (flush_manifest, flush_disk (\<lambda>_. Done)) = (r, (m', d'))" by (rule prod_cases3)
  note ends = flush_run_ends [where k = True and good = True, OF flush_disk_facts(1) flush_disk_calm flush_manifest_facts(1) flush_disk_small flush_fit run]
  then obtain out where out: "r = Inr out" "completed demo_parquet demo_crc 9 default_config flush_manifest True (content (flush_disk (\<lambda>_. Done))) (remdups_adj (sort [1])) out m' (content d')"
    by (auto split: sum.splits)
  have "reported demo_parquet demo_crc 9 default_config flush_manifest [(1, flush_segment)] out m' (content d')"
    using out(2) walked_all [of "content (flush_disk (\<lambda>_. Done))"] flush_two unfolding completed_def flush_readable [symmetric] by fastforce
  then have rep: "m' = marked flush_manifest 9 1" "content d' (segment_path 1) = None" by (simp_all add: reported_def Let_def)
  have w: "last_flushed_segment m' = 1" by (simp add: rep(1) marked_def flush_manifest_facts(2))
  have new: "content d' manifest_path \<noteq> content (flush_disk (\<lambda>_. Done)) manifest_path"
    using reported_installs [OF conjunct1 [OF conjunct1 [OF ends]] flush_disk_facts(2) flush_header rep(2)] by (auto simp: flush_disk_def content_def short_apart)
  have d': "wf_disk d'" "calm d'" using ends by simp_all
  show ?thesis
    using restart_finishes_the_flush [OF flush_disk_facts(1) flush_manifest_facts(1) flush_disk_small run new d' refl, of 1 flush_segment] flush_disk_facts(2) flush_header run w
    by (auto simp: flush_manifest_facts(2))
qed

end
