(* ===== verification/Orc_Engine_Laws.thy ===== *)
theory Orc_Engine_Laws
  imports Orc_Engine Orc_Sweep
begin

text \<open>
  What the engine promises: an accepted row is typed, in the window, and in the log as one frame
  that decodes to it; a refused row leaves the log alone; raw ingest takes exactly the whole frames
  it should.
\<close>

section \<open>The checks\<close>

definition in_window :: "u64 \<Rightarrow> Inner \<Rightarrow> u64 \<Rightarrow> bool" where
  "in_window now e ts \<longleftrightarrow> in_ts_min e \<le> ts \<and> (\<forall>m. ts_upper_bound now e = Some m \<longrightarrow> ts \<le> m)"

definition typed_row :: "KeyDef list \<Rightarrow> Value list \<Rightarrow> bool" where
  "typed_row keys vals \<longleftrightarrow> list_all2 (\<lambda>k v. case value_key_type v of None \<Rightarrow> key_nullable k | Some ty \<Rightarrow> ty = key_ty k) keys vals"

definition window_error :: "u64 \<Rightarrow> Inner \<Rightarrow> u64 \<Rightarrow> Error" where
  "window_error now e ts = TsOutOfRange ts (in_ts_min e) (case ts_upper_bound now e of None \<Rightarrow> - 1 | Some m \<Rightarrow> m)"

lemma check_ts_cases:
  "check_ts now ts (e, w, d) =
     (if in_window now e ts then (Inr (), (e, w, d)) else (Inl (window_error now e ts), (bump count_rejected_ts e, w, d)))"
  by (auto simp: check_ts_def asks_def tally_def in_window_def window_error_def Let_def seq_def not_le split: option.splits)

lemma check_value_Inr: "check_value series (k, v) = Inr () \<longleftrightarrow> (case value_key_type v of None \<Rightarrow> key_nullable k | Some ty \<Rightarrow> ty = key_ty k)"
  by (auto simp: check_value_def split: option.splits)

lemma check_values_Inr:
  assumes "length keys = length vals"
  shows "check_each (check_value series) (zip keys vals) = Inr () \<longleftrightarrow> typed_row keys vals"
  using assms by (auto simp: check_each_ok typed_row_def list_all2_iff check_value_Inr)

lemma typed_row_matches: "typed_row keys vals \<Longrightarrow> matches_schema keys vals"
  by (auto simp: typed_row_def matches_schema_def list_all2_iff list_all_iff split: option.splits)

lemma check_row_Inr:
  "check_row now h row (e, w, d) = (Inr (), s) \<longleftrightarrow> s = (e, w, d) \<and> in_window now e (row_ts row) \<and> typed_row (sh_keys h) (row_keys row)"
proof (cases "length (row_keys row) = handle_arity h")
  case True
  then have "check_each (check_value (sh_name h)) (zip (sh_keys h) (row_keys row)) = Inr () \<longleftrightarrow> typed_row (sh_keys h) (row_keys row)"
    by (intro check_values_Inr) (simp add: handle_arity_def)
  then show ?thesis using True by (auto simp: check_row_def seq_def check_ts_cases split: sum.splits)
next
  case False
  then have "\<not> typed_row (sh_keys h) (row_keys row)" by (auto simp: typed_row_def handle_arity_def list_all2_iff)
  with False show ?thesis by (auto simp: check_row_def seq_def check_ts_cases)
qed

text \<open>A refused check counts at most one rejection and touches neither the log nor the files.\<close>

definition only_counted :: "Inner \<Rightarrow> Inner \<Rightarrow> bool" where
  "only_counted e e' \<longleftrightarrow> e' \<in> {e, bump count_rejected_ts e, bump count_rejected_size e}"

lemma check_row_Inl: "check_row now h row (e, w, d) = (Inl err, s) \<Longrightarrow> \<exists>e'. s = (e', w, d) \<and> only_counted e e'"
  by (auto simp: check_row_def seq_def check_ts_cases only_counted_def split: if_splits sum.splits)

lemma check_size_Inr: "check_size row (e, w, d) = (Inr (), s) \<longleftrightarrow> s = (e, w, d) \<and> oversize row (record_limit e) = None"
  by (auto simp: check_size_def asks_def too_large_def tally_def seq_def split: option.splits)

lemma check_size_Inl: "check_size row (e, w, d) = (Inl err, s) \<Longrightarrow> s = (bump count_rejected_size e, w, d)"
  by (auto simp: check_size_def asks_def too_large_def tally_def seq_def split: option.splits)

section \<open>Encoding\<close>

abbreviation handle_frame :: "(bytes \<Rightarrow> u32) \<Rightarrow> SeriesHandle \<Rightarrow> Row \<Rightarrow> bytes" where
  "handle_frame crc h row \<equiv> frame_of crc (sh_name h) (sh_epoch h) row"

lemma encode_checked_cases:
  "encode_checked crc h row buf (e, w, d) =
     (if \<not> row_fits (sh_name h) row then (fst (map_prod (map_sum id (\<lambda>_. [])) id (encode crc (sh_name h) (sh_epoch h) row buf)), (e, w, d))
      else if record_limit e < length (handle_frame crc h row)
      then (Inl (RecordTooLarge (length (handle_frame crc h row)) (record_limit e)), (bump count_rejected_size e, w, d))
      else (Inr (buf @ handle_frame crc h row), (e, w, d)))"
proof (cases "row_fits (sh_name h) row")
  case True
  then show ?thesis by (simp add: encode_checked_def asks_def encode_fits Let_def too_large_def tally_def seq_def)
next
  case False
  from encode_oversize [OF this, of crc "sh_epoch h" buf] False show ?thesis by (auto simp: encode_checked_def asks_def)
qed

lemma encode_checked_Inr:
  "encode_checked crc h row buf (e, w, d) = (Inr buf', s) \<longleftrightarrow>
     s = (e, w, d) \<and> row_fits (sh_name h) row \<and> length (handle_frame crc h row) \<le> record_limit e \<and> buf' = buf @ handle_frame crc h row"
proof (cases "row_fits (sh_name h) row")
  case False
  from encode_oversize [OF this, of crc "sh_epoch h" buf] False show ?thesis by (auto simp: encode_checked_cases)
qed (auto simp: encode_checked_cases)

lemma encode_checked_Inl: "encode_checked crc h row buf (e, w, d) = (Inl err, s) \<Longrightarrow> \<exists>e'. s = (e', w, d) \<and> only_counted e e'"
  by (auto simp: encode_checked_cases only_counted_def split: if_splits)

lemma encode_all_Inr:
  "encode_all crc h rows buf (e, w, d) = (Inr buf', s) \<longleftrightarrow>
     s = (e, w, d) \<and> (\<forall>row\<in>set rows. row_fits (sh_name h) row \<and> length (handle_frame crc h row) \<le> record_limit e) \<and>
     buf' = buf @ concat (map (handle_frame crc h) rows)"
  by (induction rows arbitrary: buf) (auto simp: seq_eq_Inr encode_checked_Inr)

lemma encode_all_Inl: "encode_all crc h rows buf (e, w, d) = (Inl err, s) \<Longrightarrow> \<exists>e'. s = (e', w, d) \<and> only_counted e e'"
proof (induction rows arbitrary: buf)
  case (Cons row rows)
  then show ?case by (auto simp: seq_eq_Inl encode_checked_Inr dest: encode_checked_Inl)
qed simp

text \<open>What the log holds of an accepted row, and how a reader decodes it.\<close>

definition stored_as :: "(bytes \<Rightarrow> u32) \<Rightarrow> nat \<Rightarrow> SeriesHandle \<Rightarrow> Row \<Rightarrow> bytes \<Rightarrow> bool" where
  "stored_as crc limit h row f \<longleftrightarrow>
     is_frame (frame_len crc limit) f \<and> length f \<le> limit \<and>
     (\<forall>rest. decode crc (f @ rest) (length (sh_keys h)) limit =
        Inr (\<lparr>rec_ts = row_ts row, rec_epoch = sh_epoch h, rec_series = sh_name h, rec_id = row_id row, rec_data = row_data row\<rparr>,
             row_keys row, canonical (row_extra row), length f))"

lemma handle_frame_stored:
  assumes "row_fits (sh_name h) row" "length (handle_frame crc h row) \<le> limit" "utf8_valid (sh_name h)" "row_utf8 row" "length (row_keys row) = length (sh_keys h)"
  shows "stored_as crc limit h row (handle_frame crc h row)"
proof -
  have lim: "length (payload_of (sh_name h) (sh_epoch h) row) \<le> limit" using assms(2) by (simp add: frame_of_def)
  show ?thesis
    using frame_of_is_frame [OF assms(1,3,4) lim] decode_frame_of [OF assms(1,3,4) lim] assms(2,5) by (simp add: stored_as_def)
qed

text \<open>The cheap size check never refuses a row whose frame is within the limit.\<close>

lemma fold_add_str: "fold add_str vals n \<le> n + length (concat (map enc_value vals))"
proof (induction vals arbitrary: n)
  case (Cons v vals)
  have "add_str v n \<le> n + length (enc_value v)" by (cases v) (auto simp: saturating_add_usize_def enc_str32_def)
  with Cons [of "add_str v n"] show ?case by simp
qed simp

lemma oversize_is_large: "oversize row limit = Some n \<Longrightarrow> limit < length (handle_frame crc h row)"
proof -
  assume "oversize row limit = Some n"
  then have "limit < fold add_str (row_keys row) (saturating_add_usize (length (row_id row)) (length (row_data row)))"
    by (auto simp: oversize_def Let_def split: if_splits)
  also have "\<dots> \<le> length (row_id row) + length (row_data row) + length (concat (map enc_value (row_keys row)))"
    using fold_add_str [of "row_keys row"] by (rule order_trans) (simp add: saturating_add_usize_def)
  also have "\<dots> \<le> length (handle_frame crc h row)"
    by (simp add: frame_of_def payload_of_def enc_fixed_def enc_str16_def enc_str32_def)
  finally show ?thesis .
qed

section \<open>Appending\<close>

definition acceptable :: "(bytes \<Rightarrow> u32) \<Rightarrow> u64 \<Rightarrow> Inner \<Rightarrow> SeriesHandle \<Rightarrow> Row \<Rightarrow> bool" where
  "acceptable crc now e h row \<longleftrightarrow>
     in_window now e (row_ts row) \<and> typed_row (sh_keys h) (row_keys row) \<and> row_fits (sh_name h) row \<and>
     length (handle_frame crc h row) \<le> record_limit e"

definition screened :: "u64 \<Rightarrow> Inner \<Rightarrow> SeriesHandle \<Rightarrow> Row \<Rightarrow> bool" where
  "screened now e h row \<longleftrightarrow>
     in_window now e (row_ts row) \<and> typed_row (sh_keys h) (row_keys row) \<and> oversize row (record_limit e) = None"

lemma acceptable_screened: "acceptable crc now e h row \<Longrightarrow> screened now e h row"
  using oversize_is_large [of row "record_limit e" _ crc h] by (cases "oversize row (record_limit e)") (auto simp: acceptable_def screened_def)

lemma check_rows_Inr:
  "for_each (\<lambda>row. seq (check_row now h row) (\<lambda>_. check_size row)) rows (e, w, d) = (Inr (), s) \<longleftrightarrow>
     s = (e, w, d) \<and> (\<forall>row\<in>set rows. screened now e h row)"
proof (induction rows)
  case (Cons row rows)
  then show ?case by (auto simp: for_each_Cons seq_eq_Inr check_row_Inr check_size_Inr screened_def simp del: for_each.simps(2))
qed auto

lemma check_rows_Inl:
  assumes "for_each (\<lambda>row. seq (check_row now h row) (\<lambda>_. check_size row)) rows (e, w, d) = (Inl err, s)"
  shows "\<exists>e'. s = (e', w, d) \<and> only_counted e e'"
  using assms
proof (induction rows)
  case (Cons row rows)
  have "\<exists>e'. s = (e', w, d) \<and> only_counted e e'" if "check_size row (e, w, d) = (Inl err, s)"
    using check_size_Inl [OF that] by (auto simp: only_counted_def)
  with Cons show ?case
    by (auto simp: for_each_Cons seq_eq_Inr seq_eq_Inl check_row_Inr check_size_Inr dest: check_row_Inl simp del: for_each.simps(2))
qed simp

lemma on_wal_eq: "on_wal f (e, w, d) = (r, (e', w', d')) \<longleftrightarrow> f (w, d) = (r, (w', d')) \<and> e' = e"
  by (auto simp: on_wal_def split: prod.splits)

lemma append_batch_accepts:
  assumes "\<forall>row\<in>set rows. acceptable crc now e h row"
  shows "engine_append_batch crc now wal_now h rows (e, w, d) =
     (case append_bytes wal_now (concat (map (handle_frame crc h) rows)) (w, d) of
        (Inr _, (w', d')) \<Rightarrow> (Inr (), (bump (count_appended (length rows)) e, w', d'))
      | (Inl err, (w', d')) \<Rightarrow> (Inl err, (e, w', d')))"
proof -
  have "for_each (\<lambda>row. seq (check_row now h row) (\<lambda>_. check_size row)) rows (e, w, d) = (Inr (), (e, w, d))"
    unfolding check_rows_Inr using assms by (auto intro: acceptable_screened)
  moreover have "encode_all crc h rows [] (e, w, d) = (Inr (concat (map (handle_frame crc h) rows)), (e, w, d))"
    unfolding encode_all_Inr using assms by (simp add: acceptable_def)
  ultimately show ?thesis
    by (simp add: engine_append_batch_def seq_def on_wal_def wal_append_batch_def tally_def split: prod.splits sum.splits)
qed

lemma append_batch_refuses:
  assumes "\<not> (\<forall>row\<in>set rows. acceptable crc now e h row)"
  shows "\<exists>err e'. engine_append_batch crc now wal_now h rows (e, w, d) = (Inl err, (e', w, d)) \<and> only_counted e e'"
proof -
  obtain r s where checks: "for_each (\<lambda>row. seq (check_row now h row) (\<lambda>_. check_size row)) rows (e, w, d) = (r, s)" by (rule prod.exhaust)
  obtain r' s' where enc: "encode_all crc h rows [] (e, w, d) = (r', s')" by (rule prod.exhaust)
  show ?thesis
  proof (cases r)
    case (Inl err)
    with check_rows_Inl [OF checks [unfolded Inl]] checks show ?thesis by (auto simp: engine_append_batch_def)
  next
    case (Inr u)
    with checks have s: "s = (e, w, d)" and all: "\<forall>row\<in>set rows. screened now e h row" by (simp_all add: check_rows_Inr)
    show ?thesis
    proof (cases r')
      case (Inl err)
      with encode_all_Inl [OF enc [unfolded Inl]] checks enc \<open>r = Inr u\<close> s show ?thesis by (auto simp: engine_append_batch_def)
    next
      case (Inr buf)
      with enc all have "\<forall>row\<in>set rows. acceptable crc now e h row" by (auto simp: encode_all_Inr acceptable_def screened_def)
      with assms show ?thesis by contradiction
    qed
  qed
qed

text \<open>One row is a batch of one.\<close>

lemma append_is_batch: "engine_append crc now wal_now h row = engine_append_batch crc now wal_now h [row]"
  by (rule ext)
    (auto simp: engine_append_def engine_append_batch_def seq_def wal_append_def wal_append_batch_def split: prod.splits sum.splits)

section \<open>Raw ingest\<close>

text \<open>What the checks on a frame of a batch say; none of them depends on the counters.\<close>

definition frame_in_window :: "(bytes \<Rightarrow> u32) \<Rightarrow> u64 \<Rightarrow> Inner \<Rightarrow> bytes \<Rightarrow> bool" where
  "frame_in_window crc now e f = (case validate_prefix crc f (record_limit e) of Inl _ \<Rightarrow> False | Inr p \<Rightarrow> in_window now e (pre_ts p))"

definition frame_known :: "(bytes \<Rightarrow> u32) \<Rightarrow> Inner \<Rightarrow> bytes \<Rightarrow> bool" where
  "frame_known crc e f = (case validate_prefix crc f (record_limit e) of Inl _ \<Rightarrow> False | Inr p \<Rightarrow> known_series e p)"

definition frame_kept :: "(bytes \<Rightarrow> u32) \<Rightarrow> u64 \<Rightarrow> Inner \<Rightarrow> bytes \<Rightarrow> bool" where
  "frame_kept crc now e f \<longleftrightarrow> frame_in_window crc now e f \<and> frame_known crc e f"

definition count_refused :: "nat \<Rightarrow> nat \<Rightarrow> Counters \<Rightarrow> Counters" where
  "count_refused late unknown c =
     c\<lparr>ct_rejected_ts := ct_rejected_ts c + of_nat late, ct_rejected_series := ct_rejected_series c + of_nat unknown\<rparr>"

lemma bump_simps [simp]:
  "in_config (bump f e) = in_config e" "in_handles (bump f e) = in_handles e" "in_ts_min (bump f e) = in_ts_min e"
  "in_ts_max_skew_us (bump f e) = in_ts_max_skew_us e" "in_manifest (bump f e) = in_manifest e" "in_counters (bump f e) = f (in_counters e)"
  by (simp_all add: bump_def)

lemma checks_bump [simp]:
  "record_limit (bump f e) = record_limit e" "in_window now (bump f e) = in_window now e" "known_series (bump f e) = known_series e"
  by (auto simp: record_limit_def in_window_def ts_upper_bound_def known_series_def fun_eq_iff)

lemma frame_checks_bump [simp]:
  "frame_in_window crc now (bump f e) = frame_in_window crc now e" "frame_known crc (bump f e) = frame_known crc e"
  "frame_kept crc now (bump f e) = frame_kept crc now e"
  by (simp_all add: frame_in_window_def frame_known_def frame_kept_def fun_eq_iff split: sum.splits)

lemma bump_bump [simp]: "bump f (bump g e) = bump (\<lambda>c. f (g c)) e"
  by (simp add: bump_def)

lemma bump_same: "(\<And>c. f c = c) \<Longrightarrow> bump f e = e"
  by (simp add: bump_def)

lemma take_frame_cases:
  assumes "validate_prefix crc f (record_limit e) = Inr p"
  shows "take_frame now p (e, w, d) =
    (Inr (frame_kept crc now e f),
     (bump (count_refused (of_bool (\<not> frame_in_window crc now e f)) (of_bool (frame_in_window crc now e f \<and> \<not> frame_known crc e f))) e, w, d))"
  using assms
  by (auto simp: take_frame_def check_ts_cases asks_def tally_def seq_def frame_kept_def frame_in_window_def frame_known_def
      count_refused_def count_rejected_ts_def count_rejected_series_def bump_def)

definition raw_outcome :: "RawIngest \<Rightarrow> bytes list \<Rightarrow> bytes list \<Rightarrow> bytes \<Rightarrow> RawIngest" where
  "raw_outcome out good fs left =
     out\<lparr>raw_accepted := raw_accepted out + length good,
         raw_rejected := raw_rejected out + (length fs - length good) + of_bool (left \<noteq> []),
         raw_discarded_bytes := raw_discarded_bytes out + length left\<rparr>"

lemma raw_loop_frames:
  assumes "split_as (frame_len crc (record_limit e)) bs fs left"
  shows "raw_loop crc now bs (out, good) (e, w, d) =
    (Inr (raw_outcome out (filter (frame_kept crc now e) fs) fs left, good @ concat (filter (frame_kept crc now e) fs)),
     (bump (count_refused (length (filter (\<lambda>f. \<not> frame_in_window crc now e f) fs))
        (length (filter (\<lambda>f. frame_in_window crc now e f \<and> \<not> frame_known crc e f) fs))) e, w, d))"
  using assms
proof (induction fs arbitrary: bs out good e)
  case Nil
  show ?case
  proof (cases "bs = []")
    case True
    with Nil show ?thesis by (simp add: raw_loop.simps split_as_def raw_outcome_def bump_same count_refused_def)
  next
    case False
    with Nil obtain err where "left = bs" "validate_prefix crc bs (record_limit e) = Inl err"
      by (auto simp: split_as_def frame_len_def split: sum.splits)
    with False show ?thesis by (simp add: raw_loop.simps raw_outcome_def bump_same count_refused_def)
  qed
next
  case (Cons f fs)
  let ?lim = "record_limit e"
  from Cons.prems have bs: "bs = f @ concat fs @ left" and f: "is_frame (frame_len crc ?lim) f"
    and rest: "split_as (frame_len crc ?lim) (concat fs @ left) fs left" by (auto simp: split_as_def)
  then obtain p where p: "validate_prefix crc bs ?lim = Inr p" "pre_frame_len p = length f"
    using vp.is_frame_append [OF f, of "concat fs @ left"] by (auto simp: frame_len_Some)
  have pf: "validate_prefix crc f ?lim = Inr p"
    using validate_prefix_prefix_only [OF p(1), of "[]"] p(2) bs by simp
  have ne: "bs \<noteq> []" using bs f by (simp add: is_frame_def)
  let ?refused = "count_refused (of_bool (\<not> frame_in_window crc now e f)) (of_bool (frame_in_window crc now e f \<and> \<not> frame_known crc e f))"
  have step: "raw_loop crc now bs (out, good) (e, w, d) = raw_loop crc now (concat fs @ left)
      (if frame_kept crc now e f then (out\<lparr>raw_accepted := raw_accepted out + 1\<rparr>, good @ f)
       else (out\<lparr>raw_rejected := raw_rejected out + 1\<rparr>, good)) (bump ?refused e, w, d)"
    using ne p take_frame_cases [OF pf, of now w d] bs by (subst raw_loop.simps) (auto split: bool.splits)
  have "length (filter (frame_kept crc now e) fs) \<le> length fs" by simp
  then show ?case
    using rest unfolding step
    by (cases "frame_kept crc now e f")
      (auto simp: Cons.IH raw_outcome_def frame_kept_def Suc_diff_le count_refused_def intro!: arg_cong [where f = "\<lambda>g. bump g e"])
qed

definition raw_refused :: "(bytes \<Rightarrow> u32) \<Rightarrow> u64 \<Rightarrow> Inner \<Rightarrow> bytes list \<Rightarrow> Counters \<Rightarrow> Counters" where
  "raw_refused crc now e fs = count_refused (length (filter (\<lambda>f. \<not> frame_in_window crc now e f) fs))
     (length (filter (\<lambda>f. frame_in_window crc now e f \<and> \<not> frame_known crc e f) fs))"

lemma append_raw_cases:
  fixes crc now e fs
  defines "good \<equiv> filter (frame_kept crc now e) fs"
  assumes "split_as (frame_len crc (record_limit e)) bs fs left"
  shows "append_raw crc now wal_now bs (e, w, d) =
    (let out = raw_outcome raw_default good fs left; e1 = bump (raw_refused crc now e fs) e;
         rejected = bump (count_rejected_frames (raw_rejected out)) in
     if good = [] then (Inr out, (rejected e1, w, d))
     else case append_bytes wal_now (concat good) (w, d) of
            (Inl err, (w', d')) \<Rightarrow> (Inl err, (e1, w', d'))
          | (Inr _, (w', d')) \<Rightarrow> (Inr out, (rejected (bump (count_appended (length good)) e1), w', d')))"
proof -
  have none: "concat good = [] \<longleftrightarrow> good = []"
    using assms(2) by (fastforce simp: good_def split_as_def list_all_iff is_frame_def)
  have acc: "raw_accepted (raw_outcome raw_default good fs left) = length good" by (simp add: raw_outcome_def raw_default_def)
  have counted: "(if 0 < n then tally (count_rejected_frames n) else ok ()) = tally (count_rejected_frames n)" for n
    by (auto simp: tally_def fun_eq_iff bump_same count_rejected_frames_def)
  have loop: "raw_loop crc now bs (raw_default, []) (e, w, d) =
      (Inr (raw_outcome raw_default good fs left, concat good), (bump (raw_refused crc now e fs) e, w, d))"
    by (simp add: raw_loop_frames [OF assms(2)] good_def raw_refused_def)
  show ?thesis
  proof (cases "good = []")
    case True
    then show ?thesis unfolding append_raw_def counted Let_def using loop by (simp add: tally_def)
  next
    case False
    with none have "concat good \<noteq> []" by blast
    then show ?thesis
      unfolding append_raw_def counted Let_def using loop False
      by (simp add: seq_def acc tally_def on_wal_def wal_append_batch_def del: concat_eq_Nil_conv split: prod.splits sum.splits)
  qed
qed

end
