(* ===== verification/Orc_Engine_Run.thy ===== *)
theory Orc_Engine_Run
  imports Orc_Engine_Laws
begin

text \<open>
  Runs of an engine: its appends, interleaved with the committer, as runs of the log. What the
  engine acknowledged is what the segments hold, frame by frame, and each row is one frame that
  decodes to it.
\<close>

section \<open>What reaches the log\<close>

text \<open>The frames of a call that was handed to the log; a call refused before that hands over nothing.\<close>

definition handed_rows :: "(bytes \<Rightarrow> u32) \<Rightarrow> u64 \<Rightarrow> Inner \<Rightarrow> SeriesHandle \<Rightarrow> Row list \<Rightarrow> bytes list list" where
  "handed_rows crc now e h rows =
     (if list_all (acceptable crc now e h) rows then [map (handle_frame crc h) rows] else [])"

definition handed_raw :: "(bytes \<Rightarrow> u32) \<Rightarrow> u64 \<Rightarrow> Inner \<Rightarrow> bytes list \<Rightarrow> bytes list list" where
  "handed_raw crc now e fs = (let good = filter (frame_kept crc now e) fs in if good = [] then [] else [good])"

text \<open>
  The runs of an engine, with the calls it acknowledged and those that failed at the log, each as
  its list of frames. A single \<open>append\<close> is a batch of one. The other steps are those of the log:
  seals, the committer, a flush deleting sealed segments, closing; the flush also changes the
  manifest and the counters, never the configuration.
\<close>

inductive engine_run ::
  "(bytes \<Rightarrow> u32) \<Rightarrow> bytes list list \<Rightarrow> bytes list list \<Rightarrow> Committer \<times> Inner \<times> Shared \<times> 'm LockDisk_scheme \<Rightarrow> bool" for crc where
  engine_start: "wf_disk d \<Longrightarrow> wal_open opts d = (Inr w, d') \<Longrightarrow> roomy [] (\<lparr>pc = Waiting, retry = False\<rparr>, w, d') \<Longrightarrow>
    engine_run crc [] [] (\<lparr>pc = Waiting, retry = False\<rparr>, e, w, d')"
| engine_rows: "engine_run crc acked failed (c, e, w, d) \<Longrightarrow> utf8_valid (sh_name h) \<Longrightarrow> \<forall>row\<in>set rows. row_utf8 row \<Longrightarrow>
    engine_append_batch crc now wal_now h rows (e, w, d) = (Inr (), (e', w', d')) \<Longrightarrow>
    acked' = acked @ handed_rows crc now e h rows \<Longrightarrow> roomy (map concat acked') (c, w', d') \<Longrightarrow> engine_run crc acked' failed (c, e', w', d')"
| engine_rows_fail: "engine_run crc acked failed (c, e, w, d) \<Longrightarrow> utf8_valid (sh_name h) \<Longrightarrow> \<forall>row\<in>set rows. row_utf8 row \<Longrightarrow>
    engine_append_batch crc now wal_now h rows (e, w, d) = (Inl err, (e', w', d')) \<Longrightarrow>
    roomy (map concat acked) (c, w', d') \<Longrightarrow> engine_run crc acked (failed @ handed_rows crc now e h rows) (c, e', w', d')"
| engine_raw: "engine_run crc acked failed (c, e, w, d) \<Longrightarrow> split_as (frame_len crc (record_limit e)) bs fs left \<Longrightarrow>
    append_raw crc now wal_now bs (e, w, d) = (Inr out, (e', w', d')) \<Longrightarrow>
    acked' = acked @ handed_raw crc now e fs \<Longrightarrow> roomy (map concat acked') (c, w', d') \<Longrightarrow> engine_run crc acked' failed (c, e', w', d')"
| engine_raw_fail: "engine_run crc acked failed (c, e, w, d) \<Longrightarrow> split_as (frame_len crc (record_limit e)) bs fs left \<Longrightarrow>
    append_raw crc now wal_now bs (e, w, d) = (Inl err, (e', w', d')) \<Longrightarrow>
    roomy (map concat acked) (c, w', d') \<Longrightarrow> engine_run crc acked (failed @ handed_raw crc now e fs) (c, e', w', d')"
| engine_other: "engine_run crc acked failed (c, e, w, d) \<Longrightarrow> wal_step (c, w, d) l (c', w', d') \<Longrightarrow> acks l = [] \<Longrightarrow> rejects l = [] \<Longrightarrow>
    in_config e' = in_config e \<Longrightarrow> roomy (map concat acked) (c', w', d') \<Longrightarrow> engine_run crc acked failed (c', e', w', d')"

lemma handed_rows_frames:
  assumes "utf8_valid (sh_name h)" "\<forall>row\<in>set rows. row_utf8 row" "call \<in> set (handed_rows crc now e h rows)"
  shows "list_all (is_frame (frame_len crc (record_limit e))) call"
proof -
  from assms(3) have call: "call = map (handle_frame crc h) rows" and all: "\<forall>row\<in>set rows. acceptable crc now e h row"
    by (auto simp: handed_rows_def list_all_iff split: if_splits)
  have "is_frame (frame_len crc (record_limit e)) (handle_frame crc h row)" if "row \<in> set rows" for row
    using handle_frame_stored [of h row crc "record_limit e"] assms(1,2) all that
    by (auto simp: acceptable_def stored_as_def typed_row_def list_all2_lengthD)
  then show ?thesis by (auto simp: call list_all_iff)
qed

lemma handed_raw_frames:
  assumes "split_as (frame_len crc lim) bs fs left" "call \<in> set (handed_raw crc now e fs)"
  shows "list_all (is_frame (frame_len crc lim)) call"
  using assms by (auto simp: handed_raw_def Let_def split_as_def list_all_iff split: if_splits)

text \<open>What a call does to the log: one append of the frames it hands over.\<close>

definition hands :: "bytes list list \<Rightarrow> Error + 'a \<Rightarrow> Shared \<times> 'm LockDisk_scheme \<Rightarrow> Shared \<times> 'm LockDisk_scheme \<Rightarrow> bool" where
  "hands calls r s s' \<longleftrightarrow>
     (case calls of
        [] \<Rightarrow> s' = s
      | [call] \<Rightarrow> (\<exists>now r'. append_bytes now (concat call) s = (r', s') \<and> isl r' = isl r)
      | _ \<Rightarrow> False)"

lemma append_batch_hands:
  assumes "engine_append_batch crc now wal_now h rows (e, w, d) = (r, (e', w', d'))"
  shows "hands (handed_rows crc now e h rows) r (w, d) (w', d') \<and> in_config e' = in_config e"
proof (cases "\<forall>row\<in>set rows. acceptable crc now e h row")
  case True
  with assms show ?thesis
    by (auto simp: append_batch_accepts hands_def handed_rows_def list_all_iff split: prod.splits sum.splits intro!: exI [of _ wal_now])
next
  case False
  then show ?thesis using append_batch_refuses [OF False, of wal_now w d] assms
    by (auto simp: hands_def handed_rows_def list_all_iff only_counted_def)
qed

lemma append_raw_hands:
  assumes "append_raw crc now wal_now bs (e, w, d) = (r, (e', w', d'))" "split_as (frame_len crc (record_limit e)) bs fs left"
  shows "hands (handed_raw crc now e fs) r (w, d) (w', d') \<and> in_config e' = in_config e"
  using assms(1) unfolding append_raw_cases [OF assms(2)] Let_def
  by (auto simp: hands_def handed_raw_def Let_def split: if_splits prod.splits sum.splits intro!: exI [of _ wal_now])

lemma wal_run_hands:
  assumes "wal_run (map concat acked) (map concat failed) (c, w, d)" "hands calls r (w, d) (w', d')"
    "roomy (map concat (if isl r then acked else acked @ calls)) (c, w', d')"
  shows "wal_run (map concat (if isl r then acked else acked @ calls)) (map concat (if isl r then failed @ calls else failed)) (c, w', d')"
proof -
  consider "calls = []" "(w', d') = (w, d)"
    | call now r' where "calls = [call]" "append_bytes now (concat call) (w, d) = (r', (w', d'))" "isl r' = isl r"
    using assms(2) by (auto simp: hands_def split: list.splits)
  then show ?thesis
  proof cases
    case 1
    with assms(1) show ?thesis by simp
  next
    case 2
    note step = step_append [OF 2(2), of c]
    show ?thesis
      using run_step [OF assms(1) step] assms(3) 2 by (cases r') (auto split: if_splits)
  qed
qed

definition whole_calls :: "(bytes \<Rightarrow> u32) \<Rightarrow> nat \<Rightarrow> bytes list list \<Rightarrow> bool" where
  "whole_calls crc lim calls \<longleftrightarrow> list_all (list_all (is_frame (frame_len crc lim))) calls"

lemma whole_calls_append [simp]: "whole_calls crc lim (xs @ ys) \<longleftrightarrow> whole_calls crc lim xs \<and> whole_calls crc lim ys"
  by (simp add: whole_calls_def)

lemma handed_whole:
  "utf8_valid (sh_name h) \<Longrightarrow> \<forall>row\<in>set rows. row_utf8 row \<Longrightarrow> whole_calls crc (record_limit e) (handed_rows crc now e h rows)"
  "split_as (frame_len crc lim) bs fs left \<Longrightarrow> whole_calls crc lim (handed_raw crc now e fs)"
  by (auto simp: whole_calls_def list_all_iff [of "list_all _"] intro: handed_rows_frames handed_raw_frames)

definition logs :: "(bytes \<Rightarrow> u32) \<Rightarrow> bytes list list \<Rightarrow> bytes list list \<Rightarrow> Committer \<times> Inner \<times> Shared \<times> 'm LockDisk_scheme \<Rightarrow> bool" where
  "logs crc acked failed = (\<lambda>(c, e, w, d).
     wal_run (map concat acked) (map concat failed) (c, w, d) \<and> whole_calls crc (record_limit e) acked \<and> whole_calls crc (record_limit e) failed)"

text \<open>
  What the log relies on of an operation that feeds it: given what \<open>fine\<close> says of its arguments, the
  operation makes one append of the whole frames it hands over, or none, and keeps the configuration.
\<close>

locale ingest_call =
  fixes crc :: "bytes \<Rightarrow> u32" and call :: "(Inner \<times> Shared \<times> 'm LockDisk_scheme, Error, 'a) fallible"
    and handed :: "Inner \<Rightarrow> bytes list list" and fine :: "Inner \<Rightarrow> bool"
  assumes hands: "call (e, w, d) = (r, (e', w', d')) \<Longrightarrow> fine e \<Longrightarrow> hands (handed e) r (w, d) (w', d') \<and> in_config e' = in_config e"
    and whole: "fine e \<Longrightarrow> whole_calls crc (record_limit e) (handed e)"
begin

lemma logs_call:
  assumes "logs crc acked failed (c, e, w, d)" "call (e, w, d) = (r, (e', w', d'))" "fine e"
    "roomy (map concat (if isl r then acked else acked @ handed e)) (c, w', d')"
  shows "logs crc (if isl r then acked else acked @ handed e) (if isl r then failed @ handed e else failed) (c, e', w', d')"
  using assms hands [OF assms(2,3)] whole [OF assms(3)] wal_run_hands [of acked failed c w d "handed e" r w' d']
  by (auto simp: logs_def record_limit_def)

end

interpretation rows_call: ingest_call crc "engine_append_batch crc now wal_now h rows" "\<lambda>e. handed_rows crc now e h rows"
    "\<lambda>e. utf8_valid (sh_name h) \<and> (\<forall>row\<in>set rows. row_utf8 row)" for crc now wal_now h rows
  by unfold_locales (blast dest: append_batch_hands intro: handed_whole(1))+

interpretation raw_call: ingest_call crc "append_raw crc now wal_now bs" "\<lambda>e. handed_raw crc now e fs"
    "\<lambda>e. split_as (frame_len crc (record_limit e)) bs fs left" for crc now wal_now bs fs left
  by unfold_locales (blast dest: append_raw_hands intro: handed_whole(2))+

lemma engine_run_logs: "engine_run crc acked failed s \<Longrightarrow> logs crc acked failed s"
proof (induction rule: engine_run.induct)
  case (engine_start d opts w d' e)
  then show ?case using wal_run.run_open by (fastforce simp: logs_def whole_calls_def)
next
  case (engine_rows acked failed c e w d h rows now wal_now e' w' d' acked')
  show ?case using rows_call.logs_call [OF engine_rows.IH engine_rows(4)] engine_rows by simp
next
  case (engine_rows_fail acked failed c e w d h rows now wal_now err e' w' d')
  show ?case using rows_call.logs_call [OF engine_rows_fail.IH engine_rows_fail(4)] engine_rows_fail by simp
next
  case (engine_raw acked failed c e w d bs fs left now wal_now out e' w' d' acked')
  show ?case using raw_call.logs_call [OF engine_raw.IH engine_raw(3,2)] engine_raw by simp
next
  case (engine_raw_fail acked failed c e w d bs fs left now wal_now err e' w' d')
  show ?case using raw_call.logs_call [OF engine_raw_fail.IH engine_raw_fail(3,2)] engine_raw_fail by simp
next
  case (engine_other acked failed c e w d l c' w' d' e')
  then show ?case using wal_run.run_step [of "map concat acked" "map concat failed" "(c, w, d)" l "(c', w', d')"]
    by (auto simp: logs_def record_limit_def)
qed

section \<open>How the segments read\<close>

text \<open>
  A segment holds the given calls: after its header come exactly their frames, then at most a first
  part of one failed call, of which the last frame may be torn.
\<close>

definition leftover :: "bytes list list \<Rightarrow> bytes list \<Rightarrow> bytes \<Rightarrow> bool" where
  "leftover failed strays left \<longleftrightarrow> strays = [] \<and> left = [] \<or>
     (\<exists>call\<in>set failed. \<exists>k. strays = take k call \<and> (left = [] \<or> k < length call \<and> strict_prefix left (call ! k)))"

definition holds_calls :: "(bytes \<Rightarrow> u32) \<Rightarrow> nat \<Rightarrow> bytes list list \<Rightarrow> u64 \<Rightarrow> bytes list list \<Rightarrow> bytes \<Rightarrow> bool" where
  "holds_calls crc lim failed j calls bs \<longleftrightarrow>
     parse_segment_header bs = Inr j \<and>
     (\<exists>strays left. split_as (frame_len crc lim) (drop SEGMENT_HEADER_BYTES bs) (concat calls @ strays) left \<and> leftover failed strays left)"

lemma torn_leftover:
  assumes "torn_ok (map concat failed) torn" "whole_calls crc lim failed"
  shows "\<exists>strays left. split_as (frame_len crc lim) torn strays left \<and> leftover failed strays left"
proof (cases "torn = []")
  case True
  then show ?thesis by (intro exI [of _ "[]"]) (simp add: split_as_def leftover_def)
next
  case False
  with assms obtain call where call: "call \<in> set failed" "prefix torn (concat call)" "list_all (is_frame (frame_len crc lim)) call"
    by (auto simp: torn_ok_def whole_calls_def list_all_iff [of "list_all _"])
  from vp.split_as_prefix [OF call(3,2)] obtain k left where "k \<le> length call" "split_as (frame_len crc lim) torn (take k call) left"
    "k < length call \<longrightarrow> strict_prefix left (call ! k)" "k = length call \<longrightarrow> left = []" by blast
  moreover have "left = [] \<or> k < length call \<and> strict_prefix left (call ! k)" using calculation by linarith
  ultimately show ?thesis using call(1) unfolding leftover_def by blast
qed

lemma split_as_frames:
  "list_all (is_frame extent) fs \<Longrightarrow> split_as extent bs gs left \<Longrightarrow> split_as extent (concat fs @ bs) (fs @ gs) left"
  by (auto simp: split_as_def)

lemma concat_calls: "concat (map concat calls) = concat (concat calls)"
  by (induction calls) simp_all

lemma image_holds_calls:
  assumes "whole_calls crc lim calls" "whole_calls crc lim failed" "torn_ok (map concat failed) torn"
  shows "holds_calls crc lim failed j calls (encode_segment_header [] j @ concat (map concat calls) @ torn)"
proof -
  from torn_leftover [OF assms(3,2)] obtain strays left where *: "split_as (frame_len crc lim) torn strays left" "leftover failed strays left"
    by blast
  have "list_all (is_frame (frame_len crc lim)) (concat calls)" using assms(1) by (auto simp: whole_calls_def list_all_iff)
  from split_as_frames [OF this *(1)] *(2) show ?thesis
    unfolding holds_calls_def by (auto simp: parse_encoded_header concat_calls)
qed

lemma map_eq_concat:
  assumes "map f xs = concat yss" shows "\<exists>xss. xs = concat xss \<and> map (map f) xss = yss"
  using assms
proof (induction yss arbitrary: xs)
  case (Cons ys yss)
  then obtain us vs where uv: "xs = us @ vs" "map f us = ys" "map f vs = concat yss" by (auto simp: map_eq_append_conv)
  from Cons.IH [OF uv(3)] obtain xss where "vs = concat xss" "map (map f) xss = yss" by blast
  with uv show ?case by (intro exI [of _ "us # xss"]) simp
qed simp

lemma map_eq_concat_snoc:
  assumes "map f xs = concat yss @ zs" shows "\<exists>uss vs. xs = concat uss @ vs \<and> map (map f) uss = yss \<and> map f vs = zs"
proof -
  from assms obtain us vs where "xs = us @ vs" "map f us = concat yss" "map f vs = zs" by (auto simp: map_eq_append_conv)
  with map_eq_concat [OF this(2)] show ?thesis by blast
qed

lemma run_refines:
  assumes "wal_run acked failed (c, w, d)" "st_open w = Some a"
  shows "\<exists>sealed cur torn f. acked = log_of sealed @ cur \<and> content d (segment_path (act_id a)) = Some f \<and>
    f @ bw_buf (act_file a) = seg_image (act_id a) cur torn \<and> torn_ok failed torn \<and> sealed_below failed d (act_id a) sealed"
proof -
  have "writer_ok acked failed w d" using wal_run_ok [OF assms(1)] by (simp add: sys_ok_def)
  then obtain sealed cur torn where *: "acked = log_of sealed @ cur" "torn_ok failed torn"
      "sealed_below failed d (act_id a) sealed" "active_ok d (st_needs_roll w) a cur torn"
    using assms(2) by (auto simp: writer_ok_open)
  from *(4) obtain f where "content d (segment_path (act_id a)) = Some f" "f @ bw_buf (act_file a) = seg_image (act_id a) cur torn"
    by (auto simp: active_ok_def)
  with * show ?thesis by blast
qed

lemma sealed_hold_calls:
  assumes below: "sealed_below (map concat failed) d i sealed" and uss: "map (map concat) uss = map (\<lambda>s. fst (snd s)) sealed"
    and whole: "\<forall>us\<in>set uss. whole_calls crc lim us" "whole_calls crc lim failed"
  shows "\<forall>(j, calls)\<in>set (zip (map fst sealed) uss). content d (segment_path j) = None \<or>
    (\<exists>bs. content d (segment_path j) = Some bs \<and> stable d (segment_path j) = Some bs \<and> holds_calls crc lim failed j calls bs)"
proof (rule ballI, rule case_prodI2)
  fix x j us assume x: "x \<in> set (zip (map fst sealed) uss)" "x = (j, us)"
  have len: "length uss = length sealed" using uss map_eq_imp_length_eq by blast
  from x obtain n where n: "n < length sealed" "j = fst (sealed ! n)" "us = uss ! n" by (auto simp: set_zip)
  obtain as t where s: "sealed ! n = (j, as, t)" using n(2) by (metis prod.collapse)
  have as: "as = map concat us" using arg_cong [OF uss, of "\<lambda>xs. xs ! n"] n(1,3) len s by simp
  have "(j, as, t) \<in> set sealed" using n(1) s by (metis nth_mem)
  then have t: "sealed_ok d (j, as, t)" "torn_ok (map concat failed) t" using below by (auto simp: sealed_below_def)
  have "whole_calls crc lim us" using whole(1) n len by simp
  from image_holds_calls [OF this whole(2) t(2), of j] t(1)
  show "content d (segment_path j) = None \<or>
    (\<exists>bs. content d (segment_path j) = Some bs \<and> stable d (segment_path j) = Some bs \<and> holds_calls crc lim failed j us bs)"
    by (auto simp: sealed_ok_def seg_image_def as)
qed

text \<open>
  Claim C3. What the engine acknowledged is what the log holds. In every interleaving of appends,
  batches and raw ingest with the committer and the flush, and for every outcome of every system
  call, the acknowledged calls are, in order, those of the sealed segments followed by those of the
  active one. Each segment reads as its header and exactly the frames of its calls, one by one;
  what follows them, if anything, is a first part of one call that was reported as failed. A sealed
  segment is on stable storage in full, until a flush deletes it.\<close>

theorem acknowledged_frames_are_the_log:
  assumes "engine_run crc acked failed (c, e, w, d)" and "st_open w = Some a"
  shows "\<exists>sealed cur f. acked = concat (map snd sealed) @ cur \<and> sorted_wrt (<) (map fst sealed @ [act_id a]) \<and>
    content d (segment_path (act_id a)) = Some f \<and>
    holds_calls crc (record_limit e) failed (act_id a) cur (f @ bw_buf (act_file a)) \<and>
    (\<forall>(j, calls)\<in>set sealed. content d (segment_path j) = None \<or>
       (\<exists>bs. content d (segment_path j) = Some bs \<and> stable d (segment_path j) = Some bs \<and>
          holds_calls crc (record_limit e) failed j calls bs))"
proof -
  have run: "wal_run (map concat acked) (map concat failed) (c, w, d)"
    and whole: "whole_calls crc (record_limit e) acked" "whole_calls crc (record_limit e) failed"
    using engine_run_logs [OF assms(1)] by (simp_all add: logs_def)
  from run_refines [OF run assms(2)] obtain sealed cur torn f where *: "map concat acked = log_of sealed @ cur"
      "content d (segment_path (act_id a)) = Some f" "f @ bw_buf (act_file a) = seg_image (act_id a) cur torn"
      "torn_ok (map concat failed) torn" "sealed_below (map concat failed) d (act_id a) sealed"
    by blast
  from map_eq_concat_snoc [OF *(1) [unfolded log_of_def]] obtain uss vs where
    uv: "acked = concat uss @ vs" "map (map concat) uss = map (\<lambda>s. fst (snd s)) sealed" "map concat vs = cur" by blast
  have len: "length uss = length sealed" using uv(2) map_eq_imp_length_eq by blast
  have wv: "whole_calls crc (record_limit e) vs" and wu: "\<forall>us\<in>set uss. whole_calls crc (record_limit e) us"
    using whole(1) uv(1) by (auto simp: whole_calls_def list_all_iff)
  let ?sealed = "zip (map fst sealed) uss"
  have zip: "map fst ?sealed = map fst sealed" "map snd ?sealed = uss" using len by simp_all
  have cur: "holds_calls crc (record_limit e) failed (act_id a) vs (f @ bw_buf (act_file a))"
    using image_holds_calls [OF wv whole(2) *(4), of "act_id a"] *(3) uv(3) by (simp add: seg_image_def)
  have rest: "\<forall>(j, calls)\<in>set ?sealed. content d (segment_path j) = None \<or>
      (\<exists>bs. content d (segment_path j) = Some bs \<and> stable d (segment_path j) = Some bs \<and> holds_calls crc (record_limit e) failed j calls bs)"
    by (rule sealed_hold_calls [OF *(5) uv(2) wu whole(2)])
  have "sorted_wrt (<) (map fst ?sealed @ [act_id a])" unfolding zip using *(5) by (auto simp: sealed_below_def sorted_wrt_append)
  moreover have "acked = concat (map snd ?sealed) @ vs" unfolding zip by (rule uv(1))
  ultimately show ?thesis using *(2) cur rest by blast
qed

section \<open>What a call does\<close>

text \<open>
  Claim C4. An acknowledged row is well typed and readable. When \<open>append_batch\<close> (or \<open>append\<close>, a batch
  of one) returns \<open>Ok\<close>, every row is in the accept window and has one value per declared key, of the
  key's type or null where that is allowed; the log took exactly the rows' frames in order, each
  within the record limit, and each frame decodes, with the arity of the handle and whatever
  follows it, to the very row.\<close>

theorem acknowledged_rows_are_typed:
  assumes "utf8_valid (sh_name h)" "list_all row_utf8 rows"
    and run: "engine_append_batch crc now wal_now h rows (e, w, d) = (Inr (), (e', w', d'))"
  shows "list_all (\<lambda>row. in_window now e (row_ts row) \<and> typed_row (sh_keys h) (row_keys row) \<and>
      stored_as crc (record_limit e) h row (handle_frame crc h row)) rows \<and>
    append_bytes wal_now (concat (map (handle_frame crc h) rows)) (w, d) = (Inr (), (w', d')) \<and>
    e' = bump (count_appended (length rows)) e"
proof -
  have all: "\<forall>row\<in>set rows. acceptable crc now e h row"
    using append_batch_refuses [of rows crc now e h wal_now w d] run by fastforce
  have "stored_as crc (record_limit e) h row (handle_frame crc h row)" if "row \<in> set rows" for row
    using all that assms(1,2) by (intro handle_frame_stored) (auto simp: acceptable_def typed_row_def list_all2_lengthD list_all_iff)
  moreover have "append_bytes wal_now (concat (map (handle_frame crc h) rows)) (w, d) = (Inr (), (w', d')) \<and> e' = bump (count_appended (length rows)) e"
    using run unfolding append_batch_accepts [OF all] by (auto split: prod.splits sum.splits)
  ultimately show ?thesis using all by (auto simp: list_all_iff acceptable_def)
qed

text \<open>
  Claim C5. \<open>append_batch\<close> is all or nothing, and refuses only what it must. If every row is in the
  window, well typed and fits the codec and the record limit, the batch goes to the log in one piece
  (the cheap size check in front of the encoder never refuses such a row); otherwise nothing of it
  does, and all that changes is at most one counter of rejections.\<close>

theorem batch_is_all_or_nothing:
  "if list_all (acceptable crc now e h) rows
   then engine_append_batch crc now wal_now h rows (e, w, d) =
     (case append_bytes wal_now (concat (map (handle_frame crc h) rows)) (w, d) of
        (Inr _, (w', d')) \<Rightarrow> (Inr (), (bump (count_appended (length rows)) e, w', d'))
      | (Inl err, (w', d')) \<Rightarrow> (Inl err, (e, w', d')))
   else \<exists>err e'. engine_append_batch crc now wal_now h rows (e, w, d) = (Inl err, (e', w, d)) \<and> only_counted e e'"
proof (cases "list_all (acceptable crc now e h) rows")
  case True
  then show ?thesis unfolding if_P [OF True] by (intro append_batch_accepts) (simp add: list_all_iff)
next
  case False
  then show ?thesis unfolding if_not_P [OF False] by (intro append_batch_refuses) (simp add: list_all_iff)
qed

text \<open>
  Claim C6. Raw ingest takes exactly what it should. A batch reads in one way as whole frames and a
  rest without one; \<open>append_raw\<close> appends the frames that are in the window and of a known series
  epoch, all of them and in one piece, and its counts are exact: frames taken, frames refused (plus
  one for an undecodable rest), and the length of that rest. If the log refuses the frames, so does
  the call; the refusals by timestamp and series are counted in any case.\<close>

theorem raw_ingest_is_exact:
  assumes "split_as (frame_len crc (record_limit e)) bs fs left" and good: "good = filter (frame_kept crc now e) fs"
    and out: "out = \<lparr>raw_accepted = length good, raw_rejected = (length fs - length good) + of_bool (left \<noteq> []), raw_discarded_bytes = length left\<rparr>"
  shows "append_raw crc now wal_now bs (e, w, d) =
    (if good = [] then (Inr out, (bump (count_rejected_frames (raw_rejected out)) (bump (raw_refused crc now e fs) e), w, d))
     else case append_bytes wal_now (concat good) (w, d) of
            (Inl err, (w', d')) \<Rightarrow> (Inl err, (bump (raw_refused crc now e fs) e, w', d'))
          | (Inr _, (w', d')) \<Rightarrow>
              (Inr out, (bump (count_rejected_frames (raw_rejected out))
                 (bump (count_appended (length good)) (bump (raw_refused crc now e fs) e)), w', d')))"
proof -
  have "out = raw_outcome raw_default good fs left" by (simp add: out raw_outcome_def raw_default_def)
  then show ?thesis unfolding good by (simp add: append_raw_cases [OF assms(1)] Let_def split: prod.splits sum.splits)
qed

section \<open>Examples\<close>

definition demo_handle :: SeriesHandle where
  "demo_handle = \<lparr>sh_name = demo_series, sh_keys = [\<lparr>key_name = lit ''a'', key_ty = KI64, key_nullable = False\<rparr>,
     \<lparr>key_name = lit ''b'', key_ty = KStr, key_nullable = False\<rparr>, \<lparr>key_name = lit ''c'', key_ty = KF64, key_nullable = True\<rparr>], sh_epoch = 1\<rparr>"

definition demo_engine :: Inner where
  "demo_engine = inner_new default_config default_manifest [demo_series \<mapsto> demo_handle] 7 946684800000000"

lemma demo_limit: "record_limit demo_engine = 16384"
  by code_simp

lemma demo_fits: "row_fits demo_series demo_row"
  using demo_encode encode_oversize [of demo_series demo_row demo_crc 1 "[]"] by fastforce

lemma demo_frame_of: "handle_frame demo_crc demo_handle demo_row = demo_frame"
  using encode_fits [OF demo_fits, of demo_crc 1 "[]"] demo_encode by (simp add: demo_handle_def)

lemma demo_acceptable: "acceptable demo_crc 1700000000000001 demo_engine demo_handle demo_row"
proof -
  have "in_window 1700000000000001 demo_engine (row_ts demo_row)" "typed_row (sh_keys demo_handle) (row_keys demo_row)"
    by (simp_all add: in_window_def ts_upper_bound_def demo_engine_def inner_new_def saturating_add_u64_def saturating_mul_u64_def
        default_config_def default_limits_def demo_row_def typed_row_def demo_handle_def)
  then show ?thesis using demo_fits by (simp add: acceptable_def demo_frame_of demo_frame_length demo_limit) (simp add: demo_handle_def)
qed

text \<open>An engine on an empty disk, and its first append.\<close>

lemma demo_append:
  "\<exists>w d w' a. engine_run demo_crc [] [] (\<lparr>pc = Waiting, retry = False\<rparr>, demo_engine, w, d :: LockDisk) \<and>
     append_bytes 0 demo_frame (w, d) = (Inr (), (w', d)) \<and> st_open w' = Some a \<and> act_id a = 1"
proof -
  have first: "opt_first_segment demo_options = 1" by (simp add: demo_options_def wal_options_new_def FIRST_SEGMENT_def)
  have d0: "calm (demo_disk (\<lambda>_. Done))" "wf_disk (demo_disk (\<lambda>_. Done))" "content (demo_disk (\<lambda>_. Done)) p = None" for p
    by (simp_all add: demo_disk_def calm_def wf_disk_def content_def)
  obtain a d where o: "wal_open demo_options (demo_disk (\<lambda>_. Done)) = (Inr ((fresh_shared demo_options)\<lparr>st_open := Some a\<rparr>), d)"
      "act_id a = 1" "act_file a = buf_new WRITE_BUFFER_BYTES (segment_path 1)"
    using wal_open_calm [OF d0(1,2) d0(3), of demo_options] first by auto
  let ?w = "(fresh_shared demo_options)\<lparr>st_open := Some a\<rparr>"
  have "(1 :: u64) \<noteq> - 1" by code_simp
  then have "engine_run demo_crc [] [] (\<lparr>pc = Waiting, retry = False\<rparr>, demo_engine, ?w, d)"
    using o(2) by (intro engine_run.engine_start [OF d0(2) o(1)]) (simp add: roomy_def SEGMENT_HEADER_BYTES_def)
  moreover have "\<exists>w' a'. append_bytes 0 demo_frame (?w, d) = (Inr (), (w', d)) \<and> st_open w' = Some a' \<and> act_id a' = 1"
    using o(2,3) by (simp add: append_bytes_def fresh_shared_def buf_write_all_def buf_new_def demo_frame_length
        WRITE_BUFFER_BYTES_def buf_push_def Let_def)
  ultimately show ?thesis by blast
qed

lemma demo_append_engine:
  assumes "append_bytes 0 demo_frame (w, d) = (Inr (), (w', d))"
  shows "engine_append_batch demo_crc 1700000000000001 0 demo_handle [demo_row] (demo_engine, w, d) =
    (Inr (), (bump (count_appended 1) demo_engine, w', d))"
  using append_batch_accepts [of "[demo_row]" demo_crc 1700000000000001 demo_engine demo_handle 0 w d] demo_acceptable assms
  by (simp add: demo_frame_of)

lemma demo_handle_name: "sh_name demo_handle = demo_series"
  by (simp add: demo_handle_def)

theorem acknowledged_frames_are_the_log_witness:
  "\<exists>c e w d a. engine_run demo_crc [[demo_frame]] [] (c, e, w, d :: LockDisk) \<and> st_open w = Some a \<and> act_id a = 1 \<and>
     (\<exists>sealed cur. [[demo_frame]] = concat (map snd sealed) @ cur \<and> sorted_wrt (<) (map fst sealed @ [1 :: u64]))"
proof -
  let ?c = "\<lparr>pc = Waiting, retry = False\<rparr>"
  from demo_append obtain w d w' a where o: "engine_run demo_crc [] [] (?c, demo_engine, w, d :: LockDisk)"
    "append_bytes 0 demo_frame (w, d) = (Inr (), (w', d))" "st_open w' = Some a" "act_id a = 1" by blast
  have handed: "[[demo_frame]] = [] @ handed_rows demo_crc 1700000000000001 demo_engine demo_handle [demo_row]"
    using demo_acceptable by (simp add: handed_rows_def demo_frame_of)
  have "(1 :: u64) \<noteq> - 1" by code_simp
  then have "roomy (map concat [[demo_frame]]) (?c, w', d)"
    using o(3,4) by (simp add: roomy_def SEGMENT_HEADER_BYTES_def demo_frame_length)
  from engine_run.engine_rows [OF o(1) _ _ demo_append_engine [OF o(2)] handed this]
  have run: "engine_run demo_crc [[demo_frame]] [] (?c, bump (count_appended 1) demo_engine, w', d)"
    using demo_utf8 by (simp add: demo_handle_name)
  from acknowledged_frames_are_the_log [OF this o(3)] obtain sealed cur where
    "[[demo_frame]] = concat (map snd sealed) @ cur" "sorted_wrt (<) (map fst sealed @ [1 :: u64])" unfolding o(4) by blast
  with run o(3,4) show ?thesis by blast
qed

theorem acknowledged_rows_are_typed_witness:
  "\<exists>w w' d. engine_append_batch demo_crc 1700000000000001 0 demo_handle [demo_row] (demo_engine, w, d :: LockDisk) =
       (Inr (), (bump (count_appended 1) demo_engine, w', d)) \<and>
     typed_row (sh_keys demo_handle) (row_keys demo_row) \<and> stored_as demo_crc (record_limit demo_engine) demo_handle demo_row demo_frame"
proof -
  from demo_append obtain w d w' where o: "append_bytes 0 demo_frame (w, d :: LockDisk) = (Inr (), (w', d))" by blast
  note run = demo_append_engine [OF o]
  from acknowledged_rows_are_typed [OF _ _ run] run demo_utf8 show ?thesis by (auto simp: demo_handle_name demo_frame_of [unfolded demo_handle_name])
qed

text \<open>A batch of a good frame, a frame of an unknown epoch, and the first bytes of a third.\<close>

definition stranger_frame :: bytes where
  "stranger_frame = frame_of demo_crc demo_series 2 demo_row"

lemma demo_payload: "length (payload_of demo_series epoch demo_row) = 55"
  using arg_cong [OF demo_frame_of, of length] length_payload_epoch [of demo_series 1 demo_row] length_payload_epoch [of demo_series epoch demo_row]
  by (simp add: demo_handle_def frame_of_def FRAME_HEADER_BYTES_def demo_frame_length)

lemma demo_prefix:
  "validate_prefix demo_crc (frame_of demo_crc demo_series epoch demo_row) 16384 =
     Inr \<lparr>pre_ts = 1700000000000000, pre_epoch = epoch, pre_series = demo_series, pre_id = lit ''a1'', pre_frame_len = 63\<rparr>"
  using validate_prefix_frame_of [OF demo_fits demo_utf8, of epoch 16384 demo_crc "[]"] demo_payload [of epoch]
  by (simp add: frame_of_def FRAME_HEADER_BYTES_def) (simp add: demo_row_def)

lemma demo_frame_1: "demo_frame = frame_of demo_crc demo_series 1 demo_row"
  using demo_frame_of by (simp add: demo_handle_def)

lemma demo_frames: "is_frame (frame_len demo_crc 16384) demo_frame" "is_frame (frame_len demo_crc 16384) stranger_frame"
  unfolding demo_frame_1 stranger_frame_def using demo_payload by (auto intro!: frame_of_is_frame demo_fits demo_utf8)

lemma demo_raw_split: "split_as (frame_len demo_crc (record_limit demo_engine)) (demo_frame @ stranger_frame @ take 20 demo_frame) [demo_frame, stranger_frame] (take 20 demo_frame)"
  using demo_frames vp.torn [OF demo_frames(1) strict_prefix_take [of 20]] by (simp add: split_as_def demo_limit demo_frame_length)

lemma demo_raw_kept: "frame_kept demo_crc 1700000000000001 demo_engine demo_frame" "\<not> frame_kept demo_crc 1700000000000001 demo_engine stranger_frame"
proof -
  have "in_window 1700000000000001 demo_engine (row_ts demo_row)" using demo_acceptable by (simp add: acceptable_def)
  then have "in_window 1700000000000001 demo_engine 1700000000000000" by (simp add: demo_row_def)
  moreover have "in_handles demo_engine demo_series = Some demo_handle" by (simp add: demo_engine_def inner_new_def)
  moreover have "\<not> (2 :: u32) \<le> 1" by code_simp
  ultimately show "frame_kept demo_crc 1700000000000001 demo_engine demo_frame" "\<not> frame_kept demo_crc 1700000000000001 demo_engine stranger_frame"
    by (simp_all add: frame_kept_def frame_in_window_def frame_known_def demo_limit demo_prefix stranger_frame_def demo_frame_1 known_series_def) (simp_all add: demo_handle_def)
qed

theorem raw_ingest_is_exact_witness:
  "\<exists>w d. fst (append_raw demo_crc 1700000000000001 0 (demo_frame @ stranger_frame @ take 20 demo_frame) (demo_engine, w, d :: LockDisk)) =
     Inr \<lparr>raw_accepted = 1, raw_rejected = 2, raw_discarded_bytes = 20\<rparr>"
proof -
  from demo_append obtain w d w' where o: "append_bytes 0 demo_frame (w, d :: LockDisk) = (Inr (), (w', d))" by blast
  have good: "[demo_frame] = filter (frame_kept demo_crc 1700000000000001 demo_engine) [demo_frame, stranger_frame]"
    using demo_raw_kept by simp
  have "take 20 demo_frame \<noteq> []" using demo_frame_length by auto
  then show ?thesis
    using raw_ingest_is_exact [OF demo_raw_split good refl, of 0 w d] o demo_frame_length by (intro exI [of _ w] exI [of _ d]) simp
qed

end
