(* ===== verification/Orc_Delivery.thy ===== *)
theory Orc_Delivery
  imports Orc_Engine_Run
begin

text \<open>
  From the log to the output: a row the engine put in the log is a record of its segment for the
  flush, and a flush of the engine leaves it in the log or in an output file.
\<close>

declare split_paired_All [simp del] split_paired_Ex [simp del]

section \<open>A row in the log is a record of its segment\<close>

text \<open>The bound on a frame's length only has to cover its payload.\<close>

lemma frame_payload_limit:
  assumes "frame_payload crc f lim = Inr (p, n)" "length p \<le> lim'"
  shows "frame_payload crc f lim' = Inr (p, n)"
proof -
  note inv = frame_payload_inv [OF assms(1)]
  then have "frame_payload crc (seal_frame crc p @ drop n f) lim' = Inr (p, n)" using assms(2) by (simp add: frame_payload_seal)
  moreover have "seal_frame crc p @ drop n f = f" using inv by (metis append_take_drop_id)
  ultimately show ?thesis by simp
qed

lemma is_frame_limit:
  assumes "is_frame (frame_len crc lim) f" "length f \<le> lim'"
  shows "is_frame (frame_len crc lim') f"
proof -
  from assms(1) obtain p where p: "validate_prefix crc f lim = Inr p" "pre_frame_len p = length f" "f \<noteq> []"
    by (auto simp: is_frame_def frame_len_Some)
  then obtain q n where q: "frame_payload crc f lim = Inr (q, n)" by (auto simp: validate_prefix_def rbind_eq_Inr)
  have "length q \<le> lim'" using frame_payload_inv [OF q] assms(2) by simp
  from frame_payload_limit [OF q this] q p have "validate_prefix crc f lim' = Inr p" by (simp add: validate_prefix_def)
  with p show ?thesis by (simp add: is_frame_def frame_len_def)
qed

lemma segment_items_frames:
  assumes "parse_segment_header bs = Inr j" "drop SEGMENT_HEADER_BYTES bs = concat fs @ rest" "list_all (is_frame (frame_len crc lim)) fs"
  shows "\<exists>items. segment_items crc m bs = read_each crc (lookup m) (length bs) SEGMENT_HEADER_BYTES fs @ items"
proof -
  have "length (concat fs) \<le> length bs" using arg_cong [OF assms(2), of length] by simp
  then have "length f \<le> length bs" if "f \<in> set fs" for f
    using that by (auto simp: in_set_conv_decomp)
  then have frames: "list_all (is_frame (frame_len crc (length bs))) fs"
    using assms(3) is_frame_limit by (auto simp: list_all_iff)
  obtain gs left where "split_as (frame_len crc (length bs)) rest gs left" using vp.split_as_exists by blast
  from split_as_frames [OF frames this] have "split_as (frame_len crc (length bs)) (drop SEGMENT_HEADER_BYTES bs) (fs @ gs) left"
    by (simp add: assms(2))
  from read_segment_split [OF assms(1) this, of "lookup m"] show ?thesis
    by (auto simp: segment_items_def read_segment_items_def rbind_eq_Inr read_each_append)
qed

text \<open>What a flush needs to know of a row: its series epoch and its values are of the manifest's schema.\<close>

definition of_schema :: "Manifest \<Rightarrow> SeriesHandle \<Rightarrow> Row \<Rightarrow> bool" where
  "of_schema m h row \<longleftrightarrow> man_schema m (sh_name h) (sh_epoch h) = Some (sh_keys h) \<and> typed_row (sh_keys h) (row_keys row) \<and>
     row_fits (sh_name h) row \<and> utf8_valid (sh_name h) \<and> row_utf8 row"

text \<open>The record that is the row: under its series epoch, with its timestamp and id, and its frame decodes to the row, with \<open>extra\<close> in its canonical order.\<close>

definition record_of :: "(bytes \<Rightarrow> u32) \<Rightarrow> SeriesHandle \<Rightarrow> Row \<Rightarrow> GroupKey \<times> Head \<Rightarrow> bool" where
  "record_of crc h row r \<longleftrightarrow> fst r = (sh_name h, sh_epoch h) \<and> ts_id (snd r) = (row_ts row, row_id row) \<and>
     hd_frame (snd r) = handle_frame crc h row \<and> head_row (sh_keys h) (snd r) = row\<lparr>row_extra := canonical (row_extra row)\<rparr>"

lemma head_row_frame:
  assumes "of_schema m h row" "hd_frame x = handle_frame crc h row"
  shows "head_row (sh_keys h) x = row\<lparr>row_extra := canonical (row_extra row)\<rparr>"
proof -
  have fits: "row_fits (sh_name h) row" "utf8_valid (sh_name h)" "row_utf8 row" and arity: "length (row_keys row) = length (sh_keys h)"
    using assms(1) by (auto simp: of_schema_def typed_row_def list_all2_lengthD)
  from decode_decode_verified [OF decode_frame_of [OF fits order.refl, where rest = "[]", simplified] refl, unfolded arity] show ?thesis
    by (cases row) (simp add: head_row_def assms(2))
qed

lemma row_is_record:
  assumes "holds_calls crc lim failed j calls bs" "handle_frame crc h row \<in> set (concat calls)" "of_schema m h row"
  shows "\<exists>r\<in>set (segment_records crc m i bs). record_of crc h row r"
proof -
  let ?f = "handle_frame crc h row"
  from assms(1) obtain strays left where head: "parse_segment_header bs = Inr j"
    and split: "split_as (frame_len crc lim) (drop SEGMENT_HEADER_BYTES bs) (concat calls @ strays) left" by (auto simp: holds_calls_def)
  from assms(2) obtain us vs where uv: "concat calls = us @ ?f # vs" by (meson split_list)
  have drop: "drop SEGMENT_HEADER_BYTES bs = concat us @ ?f @ (concat vs @ concat strays @ left)" using split uv by (simp add: split_as_def)
  have frames: "list_all (is_frame (frame_len crc lim)) (us @ [?f])" using split uv by (simp add: split_as_def)
  let ?off = "SEGMENT_HEADER_BYTES + length (concat us)"
  have "\<exists>items. segment_items crc m bs = read_each crc (lookup m) (length bs) SEGMENT_HEADER_BYTES (us @ [?f]) @ items"
    by (rule segment_items_frames [OF head _ frames]) (simp add: drop)
  then have one: "read_one crc (lookup m) (length bs) ?off ?f \<in> set (segment_items crc m bs)" by (auto simp: read_each_append)
  have bs: "bs = (take SEGMENT_HEADER_BYTES bs @ concat us) @ ?f @ (concat vs @ concat strays @ left)"
    using drop by (metis append.assoc append_take_drop_id)
  have off: "length (take SEGMENT_HEADER_BYTES bs @ concat us) = ?off" using header_length [OF head] by simp
  have "length ?f \<le> length bs" using arg_cong [OF drop, of length] by simp
  then have "writable (length bs) (lookup m) (sh_name h, sh_epoch h, row)"
    using assms(3) by (auto simp: writable_def of_schema_def lookup_def frame_of_def typed_row_def list_all2_lengthD)
  from read_one_written [OF this, of crc ?off] one
  have "item_of ?off (length ?f) (sh_name h, sh_epoch h, row) \<in> set (segment_items crc m bs)" by (simp add: Orc_Reader.written_def)
  moreover have "slice ?off (?off + length ?f) bs = ?f" by (rule slice_middle [OF off bs])
  moreover have "matches_schema (schema_keys m (sh_name h, sh_epoch h)) (row_keys row)"
    using assms(3) typed_row_matches by (simp add: of_schema_def schema_keys_def)
  ultimately show ?thesis
    unfolding segment_records_def using head_row_frame [OF assms(3)]
    by (intro bexI [of _ "((sh_name h, sh_epoch h), \<lparr>hd_ts = row_ts row, hd_id = row_id row, hd_arrival = (i, of_nat ?off), hd_frame = ?f\<rparr>)"])
      (auto simp: record_of_def ts_id_def item_records_def item_of_def intro!: bexI [of _ "item_of ?off (length ?f) (sh_name h, sh_epoch h, row)"])
qed

section \<open>A flush of the engine\<close>

text \<open>
  What a flush of the segments with ids in \<open>I\<close> leaves of one of them that holds the row: the
  segment, or an output file with the row (or with the first row given under its timestamp and id).
\<close>

definition row_kept ::
  "'s Parquet \<Rightarrow> (bytes \<Rightarrow> u32) \<Rightarrow> (Manifest \<Rightarrow> string + bytes) \<Rightarrow> Inner \<Rightarrow> (path \<rightharpoonup> bytes) \<Rightarrow> u64 set \<Rightarrow> u64 \<Rightarrow> bytes \<Rightarrow> SeriesHandle \<Rightarrow> Row \<Rightarrow>
     Inner \<Rightarrow> (path \<rightharpoonup> bytes) \<Rightarrow> bool" where
  "row_kept pq crc to_json e c0 I j bs h row e' c \<longleftrightarrow>
     c (segment_path j) = Some bs \<and> (c manifest_path = c0 manifest_path \<or> last_flushed_segment (in_manifest e') < j) \<or>
     j \<le> last_flushed_segment (in_manifest e') \<and> (\<exists>json. to_json (in_manifest e') = Inr json \<and> c manifest_path = Some (json @ [10])) \<and>
       (\<exists>rec\<in>set (segment_records crc (in_manifest e) j bs). record_of crc h row rec \<and>
          in_output pq (in_config e) (in_manifest e) (given_records crc (in_manifest e) c0 I) (last_flushed_segment (in_manifest e')) c rec)"

lemma given_records_cong:
  assumes "\<And>i. c (segment_path i) = c' (segment_path i)" "\<And>i bs. c' (segment_path i) = Some bs \<Longrightarrow> i \<in> I \<longleftrightarrow> i \<in> J"
  shows "given_records crc m c I = given_records crc m c' J"
  by (auto simp: given_records_def assms)

lemma sweep_spares:
  fixes d :: "'m Disk_scheme"
  assumes "wf_disk d" "sweep_uncommitted w d = (r, d')"
  shows "content d' (segment_path j) = content d (segment_path j)" "content d' manifest_path = content d manifest_path" "wf_disk d'"
proof -
  have pre: "at False (\<lambda>c. c = content d) d" using assms(1) by (simp add: at_def)
  have "swept w (content d) (content d') \<and> wf_disk d'"
    using triple_Inl [OF sweep_triple pre, of w] triple_Inr [OF sweep_triple pre, of w] assms(2) by (cases r) (auto simp: at_def)
  moreover have "segment_path j \<notin> swept_dirs" "manifest_path \<notin> swept_dirs"
    by (simp_all add: swept_dirs_def below_def segment_path_def wal_dir_def manifest_path_def runs_dir_def tmp_dir_def
        RUNS_DIR_def TMP_DIR_def SERIES_DIR_def WAL_DIR_def lit_def)
  ultimately show "content d' (segment_path j) = content d (segment_path j)" "content d' manifest_path = content d manifest_path" "wf_disk d'"
    by (auto simp: swept_def outside_def)
qed

lemma listing_spares:
  fixes d :: "'m Disk_scheme"
  assumes "wf_disk d" "list_segments d = (r, d')"
  shows "content d' = content d" "wf_disk d'" "r = Inr ids \<Longrightarrow> content d (segment_path i) = Some bs \<Longrightarrow> i \<in> set ids"
proof -
  have pre: "at False (\<lambda>c. c = content d) d" using assms(1) by (simp add: at_def)
  have t: "triple (at False (\<lambda>c. c = content d)) list_segments (\<lambda>ids. at False (\<lambda>c. ids_of (content d) ids \<and> c = content d)) (\<lambda>_. at False (\<lambda>c. c = content d))"
    by (rule triple_at_pre, rule triple_rules) auto
  then show "content d' = content d" "wf_disk d'"
    using triple_Inl [OF t pre] triple_Inr [OF t pre] assms(2) by (cases r; auto simp: at_def)+
  show "i \<in> set ids" if "r = Inr ids" "content d (segment_path i) = Some bs"
    using list_segments_exact [OF assms(1)] assms(2) that by blast
qed

lemma planner_keeps_row:
  fixes pq :: "'s Parquet" and d :: "'m Disk_scheme"
  assumes run: "run_planner pq crc to_json now ids (e, w, d) = (r, (e', w', d'))"
    and disk: "wf_disk d" "\<forall>i bs. content d (segment_path i) = Some bs \<longrightarrow> length bs < 2 ^ 32" "flushable (in_manifest e)"
    and j: "j \<in> set ids" "last_flushed_segment (in_manifest e) < j" "content d (segment_path j) = Some bs"
    and row: "holds_calls crc lim failed j calls bs" "handle_frame crc h row \<in> set (concat calls)" "of_schema (in_manifest e) h row"
  shows "row_kept pq crc to_json e (content d) (set ids) j bs h row e' (content d')"
proof -
  obtain rf m where f: "flush_run pq crc to_json now (in_config e) ids (in_manifest e, d) = (rf, (m, d'))" and m: "in_manifest e' = m"
    using run by (auto simp: run_planner_def bump_def split: prod.splits sum.splits)
  have settled: "settled pq crc to_json now (in_config e) (in_manifest e) (content d) (remdups_adj (sort ids)) m (content d')"
    using flush_run_ends [OF disk(1) _ disk(3) _ _ f, of False False] disk(2) by (simp split: sum.splits)
  obtain rec where rec: "rec \<in> set (segment_records crc (in_manifest e) j bs)" "record_of crc h row rec"
    using row_is_record [OF row] by blast
  have "\<not> isl (parse_segment_header bs)" using row(1) by (simp add: holds_calls_def)
  with settled_given [OF settled j] disk(2) rec show ?thesis unfolding row_kept_def m by blast
qed

lemma listed_row_survives:
  fixes pq :: "'s Parquet" and d :: "'m Disk_scheme"
  assumes flush: "flush_listed pq crc to_json now ids (e, w, d) = (r, (e', w', d'))"
    and disk: "wf_disk d" "\<forall>i bs. content d (segment_path i) = Some bs \<longrightarrow> length bs < 2 ^ 32" "flushable (in_manifest e)"
    and all: "\<And>i bs. content d (segment_path i) = Some bs \<Longrightarrow> i \<in> set ids"
    and j: "content d (segment_path j) = Some bs" "j < wal_segment w" "last_flushed_segment (in_manifest e) < j"
    and row: "holds_calls crc lim failed j calls bs" "handle_frame crc h row \<in> set (concat calls)" "of_schema (in_manifest e) h row"
  shows "row_kept pq crc to_json e (content d) {i. last_flushed_segment (in_manifest e) < i \<and> i < wal_segment w} j bs h row e' (content d')"
proof -
  let ?ids = "filter (\<lambda>i. i < wal_segment w \<and> last_flushed_segment (in_manifest e) < i) ids"
    and ?I = "{i. last_flushed_segment (in_manifest e) < i \<and> i < wal_segment w}"
  have ids: "j \<in> set ?ids" using j all by simp
  have same: "given_records crc m c (set ?ids) = given_records crc m (content d) ?I" if "\<And>i. c (segment_path i) = content d (segment_path i)" for m c
    by (rule given_records_cong) (use that all in auto)
  note planner = planner_keeps_row [OF _ _ _ disk(3) ids j(3) _ row]
  show ?thesis
  proof (cases "0 < ct_flush_failures (in_counters e)")
    case False
    with flush have "run_planner pq crc to_json now ?ids (e, w, d) = (r, (e', w', d'))" by (simp add: flush_listed_def Let_def)
    from planner [OF this disk(1,2) j(1)] show ?thesis unfolding row_kept_def same [OF refl] .
  next
    case True
    obtain rw d2 where sweep: "sweep_uncommitted (last_flushed_segment (in_manifest e)) d = (rw, d2)" by (rule prod.exhaust)
    note spares = sweep_spares [OF disk(1) sweep]
    show ?thesis
    proof (cases rw)
      case (Inl err)
      with True flush sweep have "e' = e" "d' = d2" by (simp_all add: flush_listed_def Let_def on_files_def)
      with spares j show ?thesis by (simp add: row_kept_def)
    next
      case (Inr u)
      with True flush sweep have run: "run_planner pq crc to_json now ?ids (e, w, d2) = (r, (e', w', d'))"
        by (simp add: flush_listed_def Let_def on_files_def)
      have "row_kept pq crc to_json e (content d2) (set ?ids) j bs h row e' (content d')"
        by (rule planner [OF run spares(3)]) (use spares(1) disk(2) j(1) in simp_all)
      then show ?thesis unfolding row_kept_def same [OF spares(1)] spares(2) .
    qed
  qed
qed

text \<open>
  Claim C2. A flush never loses a row the engine put in the log. Once the flush has sealed the
  active segment, take any segment in the log below the new active one and beyond the watermark of
  the manifest in memory (which an earlier flush raises before it commits), and any row whose frame
  it holds as an acknowledged one. However \<open>flush\<close> ends, and whatever call is refused while it lists
  the segments, settles the files of an earlier failure, decodes, merges, commits or publishes:
  either the segment is still there byte for byte, and the manifest on disk is the old one or does
  not cover it; or the committed manifest covers it, and an output file holds the row, with its
  keys, extra, id, timestamp and data, or the row of the first record flushed with it that has the
  same series epoch, timestamp and id.\<close>

theorem logged_row_survives_the_flush:
  fixes pq :: "'s Parquet" and d :: "'m Disk_scheme"
  assumes flush: "engine_flush pq crc to_json now wal_now (e, w, d) = (r, (e', w', d'))"
    and sealed: "seal wal_now (w, d) = (rs, (w1, d1))" "wf_disk d1" "\<forall>i bs. content d1 (segment_path i) = Some bs \<longrightarrow> length bs < 2 ^ 32"
    and m: "flushable (in_manifest e)"
    and j: "content d1 (segment_path j) = Some bs" "j < wal_segment w1" "last_flushed_segment (in_manifest e) < j"
    and row: "holds_calls crc lim failed j calls bs" "handle_frame crc h row \<in> set (concat calls)" "of_schema (in_manifest e) h row"
  shows "row_kept pq crc to_json e (content d1) {i. last_flushed_segment (in_manifest e) < i \<and> i < wal_segment w1} j bs h row e' (content d')"
proof (cases rs)
  case (Inl err)
  with flush sealed(1) have "e' = e" "d' = d1" by (auto simp: engine_flush_def on_wal_def)
  with j show ?thesis by (simp add: row_kept_def)
next
  case (Inr u)
  obtain rl d2 where list: "list_segments d1 = (rl, d2)" by (rule prod.exhaust)
  note listed = listing_spares [OF sealed(2) list]
  show ?thesis
  proof (cases rl)
    case (Inl err)
    with flush sealed(1) \<open>rs = Inr u\<close> list have "e' = e" "d' = d2" by (auto simp: engine_flush_def on_wal_def on_files_def seq_def)
    with j listed(1) show ?thesis by (simp add: row_kept_def)
  next
    case (Inr ids)
    with flush sealed(1) \<open>rs = Inr u\<close> list have rest: "flush_listed pq crc to_json now ids (e, w1, d2) = (r, (e', w', d'))"
      by (auto simp: engine_flush_def on_wal_def on_files_def seq_def)
    show ?thesis using listed_row_survives [OF rest listed(2) _ m _ _ j(2,3) row, unfolded listed(1), OF sealed(3) listed(3) [OF Inr] j(1)] .
  qed
qed

section \<open>Examples\<close>

definition plain_handle :: SeriesHandle where
  "plain_handle = \<lparr>sh_name = demo_series, sh_keys = [], sh_epoch = 1\<rparr>"

definition plain_row :: Row where
  "plain_row = \<lparr>row_ts = 7, row_id = [], row_keys = [], row_extra = [], row_data = []\<rparr>"

definition plain_engine :: Inner where
  "plain_engine = inner_new default_config flush_manifest [demo_series \<mapsto> plain_handle] 7 0"

definition plain_log :: Shared where
  "plain_log = (fresh_shared demo_options)\<lparr>st_open := Some \<lparr>act_id = 2, act_file = buf_new WRITE_BUFFER_BYTES (segment_path 2),
     act_bytes = of_nat SEGMENT_HEADER_BYTES, act_synced = of_nat SEGMENT_HEADER_BYTES\<rparr>\<rparr>"

lemma plain_frame: "handle_frame demo_crc plain_handle plain_row = flush_frame"
  by code_simp

lemma plain_schema: "of_schema flush_manifest plain_handle plain_row"
  by code_simp

lemma plain_holds: "holds_calls demo_crc 16384 [] 1 [[flush_frame, flush_frame]] flush_segment"
proof -
  have fits: "row_fits (sh_name plain_handle) plain_row" "utf8_valid (sh_name plain_handle)" "row_utf8 plain_row"
    using plain_schema by (auto simp: of_schema_def)
  have len: "length flush_frame \<le> 16384" by (simp add: flush_frame_def)
  have "is_frame (frame_len demo_crc 16384) flush_frame"
    using handle_frame_stored [OF fits(1) _ fits(2,3), of demo_crc 16384] len unfolding plain_frame
    by (simp add: stored_as_def plain_handle_def plain_row_def)
  then have "whole_calls demo_crc 16384 [[flush_frame, flush_frame]]" by (simp add: whole_calls_def)
  moreover have "encode_segment_header [] 1 = [111, 114, 99, 0, 1, 0, 1, 0, 0, 0, 0, 0, 0, 0]" by code_simp
  ultimately show ?thesis
    using image_holds_calls [of demo_crc 16384 "[[flush_frame, flush_frame]]" "[]" "[]" 1]
    by (simp add: flush_segment_def whole_calls_def torn_ok_def)
qed

theorem logged_row_survives_the_flush_witness:
  "\<exists>r e' w' d'. engine_flush demo_parquet demo_crc demo_to_json 9 0 (plain_engine, plain_log, flush_disk (\<lambda>n. if n = 15 then Refused 0 else Done)) = (r, (e', w', d')) \<and>
     row_kept demo_parquet demo_crc demo_to_json plain_engine (content (flush_disk (\<lambda>n. if n = 15 then Refused 0 else Done))) {i. 0 < i \<and> i < 2} 1 flush_segment plain_handle plain_row e' (content d')"
proof -
  let ?d = "flush_disk (\<lambda>n. if n = 15 then Refused 0 else Done)"
  obtain r e' w' d' where run: "engine_flush demo_parquet demo_crc demo_to_json 9 0 (plain_engine, plain_log, ?d) = (r, (e', w', d'))"
    by (rule prod_cases4)
  have seal: "seal 0 (plain_log, ?d) = (Inr None, (plain_log, ?d))" by (simp add: seal_def plain_log_def)
  have small: "\<forall>i bs. content ?d (segment_path i) = Some bs \<longrightarrow> length bs < 2 ^ 32"
    by (auto simp: flush_disk_def content_def flush_segment_def flush_frame_def split: if_splits)
  have m: "in_manifest plain_engine = flush_manifest" by (simp add: plain_engine_def inner_new_def)
  have w: "wal_segment plain_log = 2" by (simp add: wal_segment_def plain_log_def)
  have j: "1 < wal_segment plain_log" by (simp add: w)
  have "handle_frame demo_crc plain_handle plain_row \<in> set (concat [[flush_frame, flush_frame]])" unfolding plain_frame by simp
  from logged_row_survives_the_flush [OF run seal flush_disk_facts(1) small _ flush_disk_facts(2) j _ plain_holds this, unfolded m, OF flush_manifest_facts(1) _ plain_schema]
  show ?thesis using run by (auto simp: flush_manifest_facts(2) w)
qed

end
