(* ===== verification/Orc_Server_Laws.thy ===== *)
theory Orc_Server_Laws
  imports Orc_Client_Laws Orc_Server Orc_Delivery
begin

text \<open>
  What the server promises: what a client sends is what the engine takes, when the drain of a
  shutdown ends, and what becomes of records and of the log when a message or a socket is bad.
\<close>

declare split_paired_All [simp del] split_paired_Ex [simp del]

section \<open>Draining\<close>

abbreviation wire :: "'m served \<Rightarrow> Wire" where
  "wire s \<equiv> fst (snd s)"

definition drain_stops :: "Clocks \<Rightarrow> Wire \<Rightarrow> nat \<Rightarrow> bool" where
  "drain_stops ck wr n =
     (case wr_refuses wr n of Some EINTR \<Rightarrow> False | Some _ \<Rightarrow> True | None \<Rightarrow> ck_late ck (Suc n))"

lemma wire_ingest [simp]: "wire (ingest_batch crc ck bs s) = wire s" "wire (note_batch s) = wire s"
  by (auto simp: ingest_batch_def note_batch_def split: prod.splits sum.splits)

lemma recv_cases:
  "on_socket zmq_recv s =
     (let wr = wire s; s' = (fst s, wr\<lparr>wr_calls := Suc (wr_calls wr)\<rparr>, snd (snd s)) in
      case wr_refuses wr (wr_calls wr) of Some e \<Rightarrow> (Inl e, s') | None \<Rightarrow> (Inr (wr_arrives wr (wr_calls wr)), s'))"
  by (auto simp: on_socket_def zmq_recv_def zmq_call_def Let_def split: prod.splits option.splits)

text \<open>The next state of the drain, and what it answers if it ends there.\<close>

definition received :: "'m served \<Rightarrow> 'm served" where
  "received s = (fst s, (wire s)\<lparr>wr_calls := Suc (wr_calls (wire s))\<rparr>, snd (snd s))"

definition drained :: "(bytes \<Rightarrow> u32) \<Rightarrow> Clocks \<Rightarrow> 'm served \<Rightarrow> 'm served" where
  "drained crc ck s =
     (case wr_refuses (wire s) (wr_calls (wire s)) of
        None \<Rightarrow> ingest_batch crc ck (wr_arrives (wire s) (wr_calls (wire s))) (note_batch (received s))
      | Some _ \<Rightarrow> received s)"

definition drain_result :: "Wire \<Rightarrow> Error + unit" where
  "drain_result wr =
     (case wr_refuses wr (wr_calls wr) of None \<Rightarrow> Inr () | Some EAGAIN \<Rightarrow> Inr () | Some e \<Rightarrow> Inl (zmq_err e))"

lemma drain_unfold:
  "drain_for_shutdown crc ck s =
     (if drain_stops ck (wire s) (wr_calls (wire s)) then Some (drain_result (wire s), drained crc ck s)
      else drain_for_shutdown crc ck (drained crc ck s))"
  by (subst drain_for_shutdown.simps)
    (auto simp: recv_cases Let_def drain_stops_def drained_def drain_result_def received_def split: option.splits ZmqError.splits)

lemma drained_wire:
  "wr_calls (wire (drained crc ck s)) = Suc (wr_calls (wire s))" "wr_refuses (wire (drained crc ck s)) = wr_refuses (wire s)"
  by (simp_all add: drained_def received_def split: option.splits)

lemma drain_stops_cong: "wr_refuses wr = wr_refuses wr' \<Longrightarrow> drain_stops ck wr = drain_stops ck wr'"
  by (simp add: drain_stops_def fun_eq_iff)

lemma drain_ends:
  assumes "wr_calls (wire s) \<le> n" "drain_stops ck (wire s) n"
  shows "\<exists>y. drain_for_shutdown crc ck s = Some y"
  using assms
proof (induction "n - wr_calls (wire s)" arbitrary: s)
  case 0
  then show ?case by (simp add: drain_unfold)
next
  case (Suc k)
  show ?case
  proof (cases "drain_stops ck (wire s) (wr_calls (wire s))")
    case False
    have "\<exists>y. drain_for_shutdown crc ck (drained crc ck s) = Some y"
      by (rule Suc.hyps(1)) (use Suc.hyps(2) Suc.prems drained_wire [of crc ck s] drain_stops_cong [of "wire (drained crc ck s)" "wire s" ck] in auto)
    then show ?thesis by (subst drain_unfold) (simp add: False)
  qed (simp add: drain_unfold)
qed

lemma drain_ends_only:
  assumes "drain_for_shutdown crc ck s = Some y"
  shows "\<exists>n. wr_calls (wire s) \<le> n \<and> drain_stops ck (wire s) n"
proof (rule drain_for_shutdown.raw_induct [OF _ assms, where P = "\<lambda>crc ck s y. \<exists>n. wr_calls (wire s) \<le> n \<and> drain_stops ck (wire s) n"])
  fix f crc ck and s :: "'m served" and y
  assume IH: "\<And>crc ck (s :: 'm served) y. f crc ck s = Some y \<Longrightarrow> \<exists>n. wr_calls (wire s) \<le> n \<and> drain_stops ck (wire s) n"
    and run: "(case on_socket zmq_recv s of
        (Inr bs, s') \<Rightarrow> let s'' = ingest_batch crc ck bs (note_batch s') in if ck_late ck (wr_calls (wire s'')) then Some (Inr (), s'') else f crc ck s''
      | (Inl EAGAIN, s') \<Rightarrow> Some (Inr (), s') | (Inl EINTR, s') \<Rightarrow> f crc ck s' | (Inl e, s') \<Rightarrow> Some (Inl (zmq_err e), s')) = Some y"
  show "\<exists>n. wr_calls (wire s) \<le> n \<and> drain_stops ck (wire s) n"
  proof (cases "drain_stops ck (wire s) (wr_calls (wire s))")
    case False
    then have "f crc ck (drained crc ck s) = Some y"
      using run by (auto simp: recv_cases Let_def drain_stops_def drained_def received_def split: option.splits ZmqError.splits if_splits)
    from IH [OF this] drained_wire [of crc ck s] drain_stops_cong [of "wire (drained crc ck s)" "wire s" ck] show ?thesis
      by (auto dest: Suc_leD)
  qed blast
qed

text \<open>
  Claim C11. When the drain before a shutdown ends. The loop of \<open>drain_for_shutdown\<close> returns exactly if
  some later receive finds the queue empty or fails for good, or delivers a batch after the deadline
  has passed. The deadline alone does not bound it: interrupted calls are repeated without a look at
  the clock, and if every call is interrupted the loop never returns.\<close>

theorem drain_ends_exactly:
  "(\<exists>y. drain_for_shutdown crc ck s = Some y) \<longleftrightarrow>
     (\<exists>n. wr_calls (wire s) \<le> n \<and>
        (case wr_refuses (wire s) n of Some EINTR \<Rightarrow> False | Some _ \<Rightarrow> True | None \<Rightarrow> ck_late ck (Suc n)))"
  using drain_ends [of s _ ck crc] drain_ends_only [of crc ck s] unfolding drain_stops_def by blast

section \<open>From client to log\<close>

text \<open>A record the server's engine takes: whole, within its limit, in its window and of a series epoch it knows.\<close>

definition deliverable :: "(bytes \<Rightarrow> u32) \<Rightarrow> u64 \<Rightarrow> Inner \<Rightarrow> RemoteSeries \<times> Row \<Rightarrow> bool" where
  "deliverable crc now e = (\<lambda>(series, row).
     row_fits (rs_name series) row \<and> utf8_valid (rs_name series) \<and> row_utf8 row \<and> length (remote_frame crc series row) \<le> record_limit e \<and>
     in_window now e (row_ts row) \<and> (case in_handles e (rs_name series) of None \<Rightarrow> False | Some h \<Rightarrow> rs_epoch series \<le> sh_epoch h))"

lemma deliverable_frame:
  assumes "deliverable crc now e (series, row)"
  shows "is_frame (frame_len crc (record_limit e)) (remote_frame crc series row) \<and> frame_kept crc now e (remote_frame crc series row)"
proof -
  have fits: "row_fits (rs_name series) row" "utf8_valid (rs_name series)" "row_utf8 row" "length (payload_of (rs_name series) (rs_epoch series) row) \<le> record_limit e"
    using assms by (simp_all add: deliverable_def frame_of_def)
  show ?thesis
    using frame_of_is_frame [OF fits] validate_prefix_frame_of [OF fits, of crc "[]"] assms
    by (simp add: frame_kept_def frame_in_window_def frame_known_def known_series_def deliverable_def split: option.splits)
qed

lemma message_parts: "\<exists>n. parse_batch_header (message_of fs) = Inr n" "drop BATCH_HEADER_BYTES (message_of fs) = concat fs"
  using headers_roundtrip [of _ _ "of_nat (length fs)" "concat fs"] by (auto simp: message_of_def)

lemma ingest_message:
  "ingest_batch crc ck (message_of fs) (sv, wr, s) =
     (sv, wr, snd (append_raw crc (ck_now ck (wr_calls wr)) (ck_wal ck (wr_calls wr)) (concat fs) s))"
  using message_parts [of fs] by (auto simp: ingest_batch_def)

text \<open>
  Claim C10. What a client sends is what the engine takes. For a batch as the client sends it, of
  records within the server's record limit, in its accept window and of series epochs it knows: the
  server hands the log the very frames the client encoded, all of them, in order and in one append;
  it counts them as appended and refuses none.\<close>

theorem sent_batch_is_ingested:
  assumes "rows \<noteq> []" "list_all (deliverable crc (ck_now ck (wr_calls wr)) e) rows"
    and fs: "fs = map (\<lambda>(series, row). remote_frame crc series row) rows"
  shows "ingest_batch crc ck (message_of fs) (sv, wr, (e, w, d)) =
    (sv, wr, (case append_bytes (ck_wal ck (wr_calls wr)) (concat fs) (w, d) of
                (Inr _, (w', d')) \<Rightarrow> (bump (count_appended (length rows)) e, w', d')
              | (Inl _, (w', d')) \<Rightarrow> (e, w', d')))"
proof -
  let ?now = "ck_now ck (wr_calls wr)"
  have "is_frame (frame_len crc (record_limit e)) f \<and> frame_kept crc ?now e f" if "f \<in> set fs" for f
    using that assms(2) deliverable_frame by (fastforce simp: fs list_all_iff)
  then have frames: "list_all (is_frame (frame_len crc (record_limit e))) fs" and good: "\<forall>f\<in>set fs. frame_kept crc ?now e f"
    by (auto simp: list_all_iff)
  have split: "split_as (frame_len crc (record_limit e)) (concat fs) fs []" using frames by (simp add: split_as_def)
  have all: "filter (frame_kept crc ?now e) fs = fs" "fs \<noteq> []" using good assms(1) by (auto simp: fs intro: filter_True)
  have none: "raw_refused crc ?now e fs c = c" for c
    using good by (auto simp: raw_refused_def count_refused_def frame_kept_def filter_empty_conv)
  have len: "length rows = length fs" by (simp add: fs)
  show ?thesis
    unfolding ingest_message append_raw_cases [OF split] Let_def all(1)
    using all(2) by (simp add: raw_outcome_def raw_default_def none bump_same count_rejected_frames_def len split: prod.splits sum.splits)
qed

lemma oversize_frame:
  assumes "row_fits (rs_name series) row" "lim < length (payload_of (rs_name series) (rs_epoch series) row)"
  shows "frame_len crc lim (remote_frame crc series row @ rest) = None"
proof -
  let ?p = "payload_of (rs_name series) (rs_epoch series) row"
  have "frame_payload crc (remote_frame crc series row @ rest) lim \<noteq> Inr (q, n)" for q n
  proof
    assume f: "frame_payload crc (remote_frame crc series row @ rest) lim = Inr (q, n)"
    note inv = frame_payload_inv [OF f]
    have "frame_payload crc (seal_frame crc ?p @ rest) (length ?p) = Inr (?p, FRAME_HEADER_BYTES + length ?p)"
      using length_payload_min row_fits_payload [OF assms(1)] by (simp add: frame_payload_seal)
    moreover have "frame_payload crc (seal_frame crc ?p @ rest) (length ?p) = Inr (q, n)"
      using frame_payload_limit [OF f, of "length ?p"] inv assms(2) by (simp add: frame_of_def)
    ultimately show False using inv assms(2) by simp
  qed
  then show ?thesis by (auto simp: frame_len_def validate_prefix_def rbind_eq_Inr split: sum.splits)
qed

text \<open>
  Claim C36. One large record takes the rest of its batch along. The client checks a record against the
  batch limit it learnt in the handshake, not against the server's record limit. A record beyond the
  record limit that fits a batch is acknowledged by \<open>send\<close>; at the server, ingest stops in front of it
  and drops every byte that follows in the batch, whatever good records those are.\<close>

theorem large_record_drops_its_batch:
  assumes row: "row_fits (rs_name series) row" "record_limit e < length (payload_of (rs_name series) (rs_epoch series) row)"
    and client: "BATCH_HEADER_BYTES + length (cl_buf cl @ remote_frame crc series row) \<le> cl_max_batch_bytes cl" "cl_pending cl + 1 < cl_batch cl"
    and fs: "list_all (is_frame (frame_len crc (record_limit e))) fs" and good: "good = filter (frame_kept crc now e) fs"
  shows "client_send crc series row (cl, wr) =
      (Inr (), (cl\<lparr>cl_buf := cl_buf cl @ remote_frame crc series row, cl_pending := cl_pending cl + 1\<rparr>, wr)) \<and>
    fst (raw_loop crc now (concat fs @ remote_frame crc series row @ rest) (raw_default, []) (e, w, d)) =
      Inr (\<lparr>raw_accepted = length good, raw_rejected = length fs - length good + 1,
            raw_discarded_bytes = length (remote_frame crc series row) + length rest\<rparr>, concat good)"
proof
  show "client_send crc series row (cl, wr) =
      (Inr (), (cl\<lparr>cl_buf := cl_buf cl @ remote_frame crc series row, cl_pending := cl_pending cl + 1\<rparr>, wr))"
    using client by (simp add: client_send_def encode_fits [OF row(1)] Let_def put_buf_def seq_def count_record_def)
  have "split_as (frame_len crc (record_limit e)) (concat fs @ remote_frame crc series row @ rest) fs (remote_frame crc series row @ rest)"
    using fs oversize_frame [OF row] by (simp add: split_as_def)
  moreover have "0 < length (remote_frame crc series row)" by (simp add: frame_of_def FRAME_HEADER_BYTES_def)
  ultimately show "fst (raw_loop crc now (concat fs @ remote_frame crc series row @ rest) (raw_default, []) (e, w, d)) =
      Inr (\<lparr>raw_accepted = length good, raw_rejected = length fs - length good + 1,
            raw_discarded_bytes = length (remote_frame crc series row) + length rest\<rparr>, concat good)"
    by (simp add: raw_loop_frames good raw_outcome_def raw_default_def)
qed

section \<open>Stopping\<close>

text \<open>
  Claim C37. A shutdown whose drain fails does not close the engine. If the first receive after the
  loop has ended fails for good (as it does when the loop ended because of the socket), \<open>run\<close> returns
  with an error and the engine, its log included, is left as it was: not stopped, not synced, not
  closed. (\<open>run\<close> is documented to close always, even after a socket error.)\<close>

theorem failed_drain_leaves_engine_open:
  assumes "serve (drain_ingest crc ck) answer rounds s = Some (outcome, s')" "wr_refuses (wire s') (wr_calls (wire s')) = Some (ZmqOther x)"
  shows "\<exists>err s''. server_run crc ck answer rounds s = Some (Inl err, s'') \<and> snd (snd s'') = snd (snd s')"
proof -
  have "drain_for_shutdown crc ck s' = Some (Inl (zmq_err (ZmqOther x)), received s')"
    using assms(2) by (subst drain_unfold) (simp add: drain_stops_def drain_result_def drained_def)
  then show ?thesis using assms(1) by (cases outcome) (simp_all add: server_run_def shutdown_def received_def)
qed

section \<open>Examples\<close>

definition demo_clocks :: "u64 \<Rightarrow> Clocks" where
  "demo_clocks now = \<lparr>ck_now = (\<lambda>_. now), ck_wal = (\<lambda>_. 0), ck_late = (\<lambda>_. False)\<rparr>"

lemma demo_remote_is: "remote_frame demo_crc demo_remote demo_row = demo_frame"
  using demo_frame_1 by (simp add: demo_remote_def)

theorem sent_batch_is_ingested_witness:
  "\<exists>w w' d. ingest_batch demo_crc (demo_clocks 1700000000000001) (message_of [demo_frame]) (server_new default_config, demo_wire, (demo_engine, w, d :: LockDisk)) =
     (server_new default_config, demo_wire, (bump (count_appended 1) demo_engine, w', d))"
proof -
  from demo_append obtain w d w' where o: "append_bytes 0 demo_frame (w, d :: LockDisk) = (Inr (), (w', d))" by blast
  have "in_window 1700000000000001 demo_engine (row_ts demo_row)" using demo_acceptable by (simp add: acceptable_def)
  moreover have "in_handles demo_engine demo_series = Some demo_handle" by (simp add: demo_engine_def inner_new_def)
  ultimately have ok: "list_all (deliverable demo_crc (ck_now (demo_clocks 1700000000000001) (wr_calls demo_wire)) demo_engine) [(demo_remote, demo_row)]"
    using demo_fits demo_utf8 by (simp add: deliverable_def demo_remote_is demo_frame_length demo_limit demo_clocks_def) (simp add: demo_remote_def demo_handle_def)
  have "[demo_frame] = map (\<lambda>(series, row). remote_frame demo_crc series row) [(demo_remote, demo_row)]" by (simp add: demo_remote_is)
  from sent_batch_is_ingested [OF _ ok this, of "server_new default_config" w d] o show ?thesis by (auto simp: demo_clocks_def)
qed

text \<open>An engine with a record limit of 40 bytes; the batch holds a small, a large and another small record.\<close>

definition strict_engine :: Inner where
  "strict_engine = plain_engine\<lparr>in_config := default_config\<lparr>cfg_limits := default_limits\<lparr>max_record_bytes := 40\<rparr>\<rparr>\<rparr>"

lemma strict_limit: "record_limit strict_engine = 40"
  by (simp add: record_limit_def strict_engine_def)

lemma strict_frame: "is_frame (frame_len demo_crc 40) flush_frame" "frame_kept demo_crc 9 strict_engine flush_frame"
proof -
  have fits: "row_fits (sh_name plain_handle) plain_row" "utf8_valid (sh_name plain_handle)" "row_utf8 plain_row"
    using plain_schema by (auto simp: of_schema_def)
  have len: "length (payload_of (sh_name plain_handle) (sh_epoch plain_handle) plain_row) \<le> 40"
    using arg_cong [OF plain_frame, of length] by (simp add: frame_of_def flush_frame_def FRAME_HEADER_BYTES_def)
  show "is_frame (frame_len demo_crc 40) flush_frame" using frame_of_is_frame [OF fits len, of demo_crc] by (simp add: plain_frame)
  have "in_handles strict_engine (sh_name plain_handle) = Some plain_handle"
    by (simp add: strict_engine_def plain_engine_def inner_new_def plain_handle_def)
  moreover have "in_window 9 strict_engine (row_ts plain_row)"
    by (simp add: in_window_def ts_upper_bound_def strict_engine_def plain_engine_def inner_new_def plain_row_def saturating_add_u64_def saturating_mul_u64_def
        default_config_def default_limits_def)
  ultimately show "frame_kept demo_crc 9 strict_engine flush_frame"
    using validate_prefix_frame_of [OF fits len, of demo_crc "[]"]
    by (simp add: plain_frame frame_kept_def frame_in_window_def frame_known_def strict_limit known_series_def)
qed

theorem large_record_drops_its_batch_witness:
  "fst (raw_loop demo_crc 9 (flush_frame @ demo_frame @ flush_frame) (raw_default, []) (strict_engine, plain_log, flush_disk (\<lambda>_. Done))) =
     Inr (\<lparr>raw_accepted = 1, raw_rejected = 1, raw_discarded_bytes = 94\<rparr>, flush_frame)"
proof -
  let ?cl = "client_new builder_default []"
  have row: "row_fits (rs_name demo_remote) demo_row" "record_limit strict_engine < length (payload_of (rs_name demo_remote) (rs_epoch demo_remote) demo_row)"
    using demo_fits demo_payload by (simp_all add: demo_remote_def strict_limit)
  have client: "BATCH_HEADER_BYTES + length (cl_buf ?cl @ remote_frame demo_crc demo_remote demo_row) \<le> cl_max_batch_bytes ?cl" "cl_pending ?cl + 1 < cl_batch ?cl"
    by (simp_all add: client_new_def builder_default_def demo_remote_is demo_frame_length DEFAULT_MAX_BATCH_BYTES_def BATCH_HEADER_BYTES_def)
  have fs: "list_all (is_frame (frame_len demo_crc (record_limit strict_engine))) [flush_frame]" "[flush_frame] = filter (frame_kept demo_crc 9 strict_engine) [flush_frame]"
    using strict_frame by (simp_all add: strict_limit)
  have "length flush_frame = 31" by (simp add: flush_frame_def)
  with large_record_drops_its_batch [OF row client fs, where rest = flush_frame and wr = demo_wire and w = plain_log and d = "flush_disk (\<lambda>_. Done)"]
  show ?thesis by (simp add: demo_remote_is demo_frame_length)
qed

text \<open>A server whose ingest socket fails at the first receive.\<close>

theorem failed_drain_leaves_engine_open_witness:
  "\<exists>err s''. server_run demo_crc (demo_clocks 9) (ok ()) [(False, Inr (True, False))]
       (server_new default_config, demo_wire\<lparr>wr_refuses := \<lambda>_. Some (ZmqOther ''ETERM'')\<rparr>, plain_engine, plain_log, flush_disk (\<lambda>_. Done)) = Some (Inl err, s'') \<and>
     snd (snd s'') = (plain_engine, plain_log, flush_disk (\<lambda>_. Done))"
proof -
  let ?wr = "demo_wire\<lparr>wr_refuses := \<lambda>_. Some (ZmqOther ''ETERM'')\<rparr>" and ?s = "(plain_engine, plain_log, flush_disk (\<lambda>_. Done))"
  have "serve (drain_ingest demo_crc (demo_clocks 9)) (ok ()) [(False, Inr (True, False))] (server_new default_config, ?wr, ?s) =
      Some (Inl (zmq_err (ZmqOther ''ETERM'')), (server_new default_config, ?wr\<lparr>wr_calls := 1\<rparr>, ?s))"
    by (simp add: serve.simps stop_handle_def server_new_def turn_def drain_ingest_def MAX_BATCHES_PER_POLL_def numeral_eq_Suc recv_cases Let_def demo_wire_def)
  from failed_drain_leaves_engine_open [OF this] show ?thesis by simp
qed

end
