(* ===== verification/Spec2Isabelle.thy ===== *)
theory Spec2Isabelle
  imports Orc_Server_Laws
begin

text \<open>
  A verification of orc, an embeddable time-series storage engine written in Rust. Records are
  appended to a write-ahead log as checksummed frames, a committer thread syncs the log, and an
  hourly flush sorts and deduplicates the sealed segments into one Parquet file per series, schema
  epoch and hour. A server and a client carry frames over ZeroMQ.

  \<^bold>\<open>How the program is modelled.\<close> A struct is a \<open>record\<close>, an enum a \<open>datatype\<close>, a \<open>Result\<close> a sum. A
  function that changes state is \<open>'s \<Rightarrow> (error + 'a) \<times> 's\<close> (\<open>fallible\<close>), composed by \<open>seq\<close>, Rust's \<open>?\<close>;
  what an operation did before it failed stays done. Integers keep their width as words; lengths of
  buffers in memory are \<open>nat\<close>. A \<open>str\<close> is the list of its UTF-8 bytes.

  The file system is the state \<open>Disk\<close>: the files with their contents, what of them is on stable
  storage, and for every system call the outcome that call will have. An outcome may refuse the
  call, also after a part of a write; the statements below hold for every sequence of outcomes
  unless they say \<open>calm\<close>, which is a disk that refuses nothing. ZeroMQ sockets are treated the same
  way (\<open>Wire\<close>). Other packages are parameters: crc32fast as a function from bytes to a word,
  serde_json as a pair of functions, parquet as the record \<open>Parquet\<close> of what its writers produce,
  and the Unicode lower-case table. Where a statement needs something of them it is a named
  hypothesis (\<open>detects_byte_errors\<close>, \<open>willing\<close>, \<open>fit\<close>), with a witness that it can hold.

  \<^bold>\<open>The theories, in the order of the code.\<close>
  \<^item> \<open>Orc_Prelude\<close>: results, little-endian and decimal numbers, UTF-8, lists, words.
  \<^item> \<open>Orc_Record\<close> (\<open>record.rs\<close>, \<open>error.rs\<close>): values, rows, records, errors.
  \<^item> \<open>Orc_Codec\<close>, \<open>Orc_Codec_Laws\<close> (\<open>codec.rs\<close>): frames and headers byte by byte; encode and decode are
    inverse in both directions, damage and truncation are told apart.
  \<^item> \<open>Orc_Disk\<close>, \<open>Orc_Tree\<close>, \<open>Orc_Buffer\<close>: the file system, its calls, \<open>BufWriter\<close>, and a calculus of
    triples (\<open>triple P m Q E\<close>) in which the laws of every operation on files are proved.
  \<^item> \<open>Orc_Framing\<close>: the interface \<open>framing\<close> between the codec and everything that scans frames: a buffer
    reads in exactly one way as whole frames and an unusable rest.
  \<^item> \<open>Orc_Wal\<close>, \<open>Orc_Reader\<close>, \<open>Orc_Recovery\<close> (\<open>wal/mod.rs\<close>, \<open>wal/reader.rs\<close>, \<open>wal/recovery.rs\<close>): segment
    names and listing, the segment reader, the directory lock, recovery of a torn log.
  \<^item> \<open>Orc_Time\<close>, \<open>Orc_Config\<close>, \<open>Orc_Manifest\<close> (\<open>time.rs\<close>, \<open>config.rs\<close>, \<open>manifest.rs\<close>): calendar and
    timestamps, validation, schema history and its atomic commit.
  \<^item> \<open>Orc_Writer\<close>, \<open>Orc_Writer_Laws\<close> (\<open>wal/writer.rs\<close>): every operation under the writer's lock, the
    committer cut where it releases the lock, and the step relation \<open>wal_step\<close> of all their
    interleavings; the log refines an append-only list.
  \<^item> \<open>Orc_Heap\<close>, \<open>Orc_Merge\<close>, \<open>Orc_Merge_Laws\<close>, \<open>Orc_Batch\<close> (\<open>flush/merge.rs\<close>): the in-memory batch, run
    files and the bounded k-way merge, over the interfaces \<open>source\<close> and \<open>run_names\<close>; the merge yields
    the first arrivals in the order of timestamp and id.
  \<^item> \<open>Orc_Parquet\<close>, \<open>Orc_Parquet_Laws\<close>, \<open>Orc_View\<close> (\<open>flush/parquet.rs\<close>, \<open>flush/view.rs\<close>): columns,
    levels, row groups, both file writers, output names; the text of the generated views, and a
    reader that recovers a view's columns and their sources from it.
  \<^item> \<open>Orc_Planner\<close> (\<open>flush/planner.rs\<close>): the flush job and the sweep. \<open>Orc_Staging\<close>, \<open>Orc_Outputs\<close>,
    \<open>Orc_Decoding\<close>, \<open>Orc_Flush\<close> and \<open>Orc_Flush_Run\<close> hold the laws of its phases and of the whole,
    \<open>Orc_Sweep\<close> those of the clean-up after an interrupted flush.
  \<^item> \<open>Orc_Engine\<close>, \<open>Orc_Engine_Laws\<close>, \<open>Orc_Engine_Run\<close>, \<open>Orc_Delivery\<close> (\<open>engine.rs\<close>): validation, appends,
    raw ingest, flush, opening and closing; every engine operation that feeds the log is an
    \<open>ingest_call\<close>, so that the engine's runs are runs of the log; and what an acknowledged row
    becomes in the log and in the output.
  \<^item> \<open>Orc_Protocol\<close>, \<open>Orc_Client\<close>, \<open>Orc_Client_Laws\<close>, \<open>Orc_Server\<close>, \<open>Orc_Server_Laws\<close> (\<open>protocol.rs\<close>,
    \<open>client.rs\<close>, \<open>server.rs\<close>): control messages, the batching client, the server's loop and its drains.

  \<^bold>\<open>What is shown.\<close> The path of a record, step by step: a client sends what it was given, in order
  (\<open>client_delivers_in_order\<close>); the server hands the engine exactly that (\<open>sent_batch_is_ingested\<close>,
  \<open>raw_ingest_is_exact\<close>); what the engine acknowledges is well typed and is what the segments hold
  (\<open>acknowledged_rows_are_typed\<close>, \<open>acknowledged_frames_are_the_log\<close>, \<open>log_refines_append_only\<close>);
  a power cut costs no more than the statistics say (\<open>power_cut_costs_at_most_dirty\<close>); recovery keeps
  every whole frame (\<open>recover_never_loses_a_frame\<close>, \<open>torn_log_keeps_every_whole_frame\<close>); a flush leaves
  each row in the log or in an output the manifest covers, as a row decoded from its own frame or
  from that of the first record it repeats (\<open>logged_row_survives_the_flush\<close>,
  \<open>flush_never_loses_a_record\<close>), does all of its work when nothing is refused (\<open>flush_completes\<close>), and
  is finished by a restart (\<open>restart_finishes_the_flush\<close>). Other statements are negative: they show
  where the program gets stuck or loses records (\<open>poison_timestamp_blocks_every_flush\<close>,
  \<open>half_created_segment_wedges\<close>, \<open>lowered_limit_wedges_client\<close>, \<open>large_record_drops_its_batch\<close>,
  \<open>failed_drain_leaves_engine_open\<close>).

  \<^bold>\<open>Loops and bounds.\<close> Loops over buffers and lists are total functions with a measure or structural
  recursion, so they need no fuel. Two loops depend on the outside world. The drain of a shutdown is
  a \<open>partial_function\<close> whose value \<open>None\<close> means that it does not end; \<open>drain_ends_exactly\<close> says when it
  does. The server's main loop and the flush timer run until they are told to stop: \<open>serve\<close> takes the
  results of its polls, and whether the stop handle was flipped before each, as a list,
  \<open>flusher_turn\<close> is one turn. The reader of views, which is a specification, takes the length of
  the script as fuel, more than the items it holds. A segment handed to a flush is assumed
  to be shorter than \<open>2 ^ 32\<close> bytes and the schema history to have fewer than \<open>2 ^ 32 - 1\<close> epochs with
  names of at most 65511 bytes (\<open>flushable\<close>), since the batch packs offsets and group numbers into
  32 bits and the offset of the id into 16; a run of the log stays below \<open>2 ^ 64\<close> bytes (\<open>roomy\<close>).

  \<^bold>\<open>Not modelled.\<close> Logging, \<open>Display\<close> and \<open>Debug\<close> texts, capacities and other hints for performance;
  the mutexes of the engine (each of its operations is one thread's, interleaved with the committer
  in \<open>engine_run\<close>, where a flush appears as its deletions of sealed segments); the compression and the
  encoding inside the parquet package, JSON, CRC-32 and ZeroMQ themselves; the command line tools,
  the examples, and the reader that exists for the tests only.
\<close>

end
